(* ===== verification/Prelude.thy ===== *)
theory Prelude
  imports Main "HOL-Library.AList" "HOL-Library.Monad_Syntax"
begin

text \<open>
  What the components share.

  \<^item> \<open>gomap\<close>: a Go map as an association list with distinct keys. \<open>gm_get\<close>, \<open>gm_put\<close>, \<open>gm_del\<close>
    and \<open>gm_len\<close> are the two-value lookup, the assignment, \<open>delete\<close> and \<open>len\<close>.
  \<^item> \<open>addr\<close>: the address of a heap node; a Go pointer is an \<open>addr option\<close> whose \<open>None\<close> is \<open>nil\<close>.
    The fields of a node are kept as one function per field, so that writing \<open>p.next\<close> is a function
    update of the field \<open>next\<close> at \<open>p\<close>. Dereferencing \<open>nil\<close> is a panic: operations that may panic
    return an \<open>option\<close>.
  \<^item> \<open>dseg\<close>: a segment of a doubly linked list, with the lemmas that cut it, join it and frame it.
\<close>

named_theorems linked_simps \<open>equations on linked segments\<close>
named_theorems gomap_simps \<open>equations on Go maps\<close>

section \<open>Go maps\<close>

type_synonym ('k, 'v) gomap = "('k \<times> 'v) list"

definition gm_get :: "('k, 'v) gomap \<Rightarrow> 'k \<Rightarrow> 'v option" where
  "gm_get m k = map_of m k"

definition gm_put :: "'k \<Rightarrow> 'v \<Rightarrow> ('k, 'v) gomap \<Rightarrow> ('k, 'v) gomap" where
  "gm_put k v m = AList.update k v m"

definition gm_del :: "'k \<Rightarrow> ('k, 'v) gomap \<Rightarrow> ('k, 'v) gomap" where
  "gm_del k m = AList.delete k m"

definition gm_len :: "('k, 'v) gomap \<Rightarrow> nat" where
  "gm_len m = length m"

definition gm_keys :: "('k, 'v) gomap \<Rightarrow> 'k list" where
  "gm_keys m = map fst m"

definition gm_ok :: "('k, 'v) gomap \<Rightarrow> bool" where
  "gm_ok m \<longleftrightarrow> distinct (map fst m)"

lemmas gm_defs = gm_get_def gm_put_def gm_del_def gm_len_def gm_keys_def gm_ok_def

lemma gm_get_Nil [simp]: "gm_get [] k = None"
  by (simp add: gm_get_def)

lemma gm_get_put [simp]: "gm_get (gm_put k v m) k' = (if k' = k then Some v else gm_get m k')"
  by (simp add: gm_defs update_conv')

lemma gm_get_del [simp]: "gm_get (gm_del k m) k' = (if k' = k then None else gm_get m k')"
  by (simp add: gm_defs delete_conv')

lemma gm_ok_Nil [simp]: "gm_ok []"
  by (simp add: gm_ok_def)

lemma gm_ok_put [simp]: "gm_ok m \<Longrightarrow> gm_ok (gm_put k v m)"
  by (simp add: gm_defs distinct_update)

lemma gm_ok_del [simp]: "gm_ok m \<Longrightarrow> gm_ok (gm_del k m)"
  by (simp add: gm_defs distinct_delete)

lemma gm_len_Nil [simp]: "gm_len [] = 0"
  by (simp add: gm_len_def)

lemma gm_keys_set: "set (gm_keys m) = {k. gm_get m k \<noteq> None}"
  by (auto simp: gm_defs map_of_eq_None_iff image_iff)

lemma gm_keys_iff: "k \<in> set (gm_keys m) \<longleftrightarrow> (\<exists>v. gm_get m k = Some v)"
  by (simp add: gm_keys_set)

lemma gm_len_keys: "gm_len m = length (gm_keys m)"
  by (simp add: gm_defs)

text \<open>The number of entries of a map is the number of its keys.\<close>

lemma gm_len_card: "gm_ok m \<Longrightarrow> gm_len m = card {k. gm_get m k \<noteq> None}"
  by (metis distinct_card gm_keys_def gm_keys_set gm_len_keys gm_ok_def)

lemma gm_len_distinct:
  assumes "gm_ok m" and "distinct ks" and "set ks = {k. gm_get m k \<noteq> None}"
  shows "gm_len m = length ks"
  using assms by (simp add: gm_len_card distinct_card [symmetric])

lemma gm_len_eq_0: "gm_len m = 0 \<longleftrightarrow> (\<forall>k. gm_get m k = None)"
  by (cases m) (auto simp: gm_defs split: if_splits)

lemma gm_finite: "finite {k. gm_get m k \<noteq> None}"
  by (metis List.finite_set gm_keys_set)

lemma gm_len_put: "gm_len (gm_put k v m) = (if gm_get m k = None then Suc (gm_len m) else gm_len m)"
  by (induction m) (auto simp: gm_defs)

lemma gm_len_del:
  "gm_ok m \<Longrightarrow> gm_len (gm_del k m) = (if gm_get m k = None then gm_len m else gm_len m - 1)"
proof (induction m)
  case Nil
  then show ?case by (simp add: gm_defs AList.delete_eq)
next
  case (Cons p m)
  have del: "AList.delete k m = m" if "k \<notin> fst ` set m"
    using that by (simp add: AList.delete_idem)
  have pos: "gm_len m > 0" if "gm_get m k \<noteq> None"
    using that by (cases m) (auto simp: gm_defs)
  show ?case
  proof (cases "fst p = k")
    case True
    with Cons.prems show ?thesis
      by (cases p) (auto simp: gm_defs del)
  next
    case False
    with Cons pos show ?thesis
      by (cases p) (auto simp: gm_defs)
  qed
qed

lemma alist_update_new: "k \<notin> fst ` set xs \<Longrightarrow> AList.update k v xs = xs @ [(k, v)]"
  by (induction xs) auto

lemma delete_append: "AList.delete k (xs @ ys) = AList.delete k xs @ AList.delete k ys"
  by (simp add: AList.delete_eq)

section \<open>Doubly linked segments\<close>

type_synonym addr = nat
type_synonym ptr = "addr option"

text \<open>The pointer to the first node of a segment, or to what follows an empty one; and the mirror image.\<close>

definition first_or :: "addr list \<Rightarrow> ptr \<Rightarrow> ptr" where
  "first_or ps b = (case ps of [] \<Rightarrow> b | p # _ \<Rightarrow> Some p)"

definition last_or :: "ptr \<Rightarrow> addr list \<Rightarrow> ptr" where
  "last_or a ps = (if ps = [] then a else Some (last ps))"

lemma first_or_simps [simp]:
  "first_or [] b = b" "first_or (p # ps) b = Some p"
  by (simp_all add: first_or_def)

lemma last_or_simps [simp]:
  "last_or a [] = a" "last_or a (p # ps) = last_or (Some p) ps"
  "last_or a (ps @ [p]) = Some p"
  by (simp_all add: last_or_def)

lemma first_or_append [simp]: "first_or (ps @ qs) b = first_or ps (first_or qs b)"
  by (cases ps) simp_all

lemma last_or_append [simp]: "last_or a (ps @ qs) = last_or (last_or a ps) qs"
  by (simp add: last_or_def)

lemma first_or_None: "first_or ps None = None \<longleftrightarrow> ps = []"
  by (cases ps) simp_all

lemma last_or_None: "last_or None ps = None \<longleftrightarrow> ps = []"
  by (simp add: last_or_def)

lemma last_or_Some: "last_or None ps = Some q \<longleftrightarrow> (\<exists>qs. ps = qs @ [q])"
  by (cases ps rule: rev_cases) (auto simp: last_or_def)

lemma first_or_Some: "first_or ps None = Some q \<longleftrightarrow> (\<exists>qs. ps = q # qs)"
  by (cases ps) auto

text \<open>
  \<open>dseg nx pv a ps b\<close>: the nodes \<open>ps\<close> are linked in this order by \<open>nx\<close> and \<open>pv\<close>, the first one
  points back to \<open>a\<close> and the last one forward to \<open>b\<close>.
\<close>

fun dseg :: "(addr \<Rightarrow> ptr) \<Rightarrow> (addr \<Rightarrow> ptr) \<Rightarrow> ptr \<Rightarrow> addr list \<Rightarrow> ptr \<Rightarrow> bool" where
  "dseg nx pv a [] b = True"
| "dseg nx pv a (p # ps) b = (pv p = a \<and> nx p = first_or ps b \<and> dseg nx pv (Some p) ps b)"

text \<open>The same for a list linked forward only.\<close>

fun fseg :: "(addr \<Rightarrow> ptr) \<Rightarrow> addr list \<Rightarrow> ptr \<Rightarrow> bool" where
  "fseg nx [] b = True"
| "fseg nx (p # ps) b = (nx p = first_or ps b \<and> fseg nx ps b)"

lemma dseg_append [linked_simps]:
  "dseg nx pv a (ps @ qs) b = (dseg nx pv a ps (first_or qs b) \<and> dseg nx pv (last_or a ps) qs b)"
  by (induction ps arbitrary: a) auto

lemma fseg_append [linked_simps]: "fseg nx (ps @ qs) b = (fseg nx ps (first_or qs b) \<and> fseg nx qs b)"
  by (induction ps) auto

lemma dseg_fseg: "dseg nx pv a ps b \<Longrightarrow> fseg nx ps b"
  by (induction ps arbitrary: a) auto

lemma dseg_nx_upd [simp]: "p \<notin> set ps \<Longrightarrow> dseg (nx(p := x)) pv a ps b = dseg nx pv a ps b"
  by (induction ps arbitrary: a) auto

lemma dseg_pv_upd [simp]: "p \<notin> set ps \<Longrightarrow> dseg nx (pv(p := x)) a ps b = dseg nx pv a ps b"
  by (induction ps arbitrary: a) auto

lemma fseg_upd [simp]: "p \<notin> set ps \<Longrightarrow> fseg (nx(p := x)) ps b = fseg nx ps b"
  by (induction ps) auto

text \<open>
  Relinking the ends: writing the \<open>next\<close> field of the last node, or the \<open>prev\<close> field of the first,
  moves the segment's boundary. \<open>set_at\<close> is the guarded write of the source,
  \<^verbatim>\<open>if p != nil { p.f = x }\<close>.
\<close>

definition set_at :: "(addr \<Rightarrow> 'a) \<Rightarrow> ptr \<Rightarrow> 'a \<Rightarrow> addr \<Rightarrow> 'a" where
  "set_at f p x = (case p of None \<Rightarrow> f | Some q \<Rightarrow> f(q := x))"

lemma set_at_simps [simp]:
  "set_at f None x = f" "set_at f (Some q) x = f(q := x)"
  by (simp_all add: set_at_def)

lemma set_at_other: "p \<noteq> Some q \<Longrightarrow> set_at f p x q = f q"
  by (cases p) auto

lemma dseg_set_last:
  "\<lbrakk> dseg nx pv a ps b; distinct ps \<rbrakk> \<Longrightarrow> dseg (set_at nx (last_or None ps) c) pv a ps c"
  by (cases ps rule: rev_cases) (auto simp: linked_simps)

lemma dseg_set_first:
  "\<lbrakk> dseg nx pv a ps b; distinct ps \<rbrakk> \<Longrightarrow> dseg nx (set_at pv (first_or ps None) c) c ps b"
  by (cases ps) auto

lemma set_at_last_frame:
  "set qs \<inter> set ps = {} \<Longrightarrow> dseg (set_at nx (last_or None qs) c) pv a ps b = dseg nx pv a ps b"
  by (cases qs rule: rev_cases) auto

lemma set_at_first_frame:
  "set qs \<inter> set ps = {} \<Longrightarrow> dseg nx (set_at pv (first_or qs None) c) a ps b = dseg nx pv a ps b"
  by (cases qs) auto

text \<open>The \<open>next\<close> and \<open>prev\<close> of a node inside a segment.\<close>

lemma dseg_mid:
  assumes "dseg nx pv a (ps @ p # qs) b"
  shows "nx p = first_or qs b" and "pv p = last_or a ps"
  using assms by (simp_all add: linked_simps)

text \<open>Cutting one node out of a list and closing the gap.\<close>

lemma dseg_unlink:
  assumes "dseg nx pv None (ps @ p # qs) None" and "distinct (ps @ p # qs)"
  shows "dseg (set_at nx (last_or None ps) (first_or qs None))
              (set_at pv (first_or qs None) (last_or None ps)) None (ps @ qs) None"
proof -
  have ps: "dseg nx pv None ps (Some p)" and qs: "dseg nx pv (Some p) qs None"
    using assms(1) by (simp_all add: linked_simps)
  have d: "distinct ps" "distinct qs" "set ps \<inter> set qs = {}" "set qs \<inter> set ps = {}"
    using assms(2) by auto
  show ?thesis
    using dseg_set_last [OF ps d(1), of "first_or qs None"] dseg_set_first [OF qs d(2), of "last_or None ps"] d
    by (simp add: dseg_append set_at_last_frame set_at_first_frame)
qed

text \<open>
  Walking a list forward from a pointer, as the loops \<^verbatim>\<open>for p := head; p != nil; p = p.next\<close> do:
  with fuel, \<open>None\<close> when it runs out.
\<close>

fun walk :: "nat \<Rightarrow> (addr \<Rightarrow> ptr) \<Rightarrow> ptr \<Rightarrow> addr list option" where
  "walk fuel nx None = Some []"
| "walk 0 nx (Some p) = None"
| "walk (Suc fuel) nx (Some p) = map_option ((#) p) (walk fuel nx (nx p))"

lemma walk_fseg: "fseg nx ps None \<Longrightarrow> length ps \<le> fuel \<Longrightarrow> walk fuel nx (first_or ps None) = Some ps"
proof (induction ps arbitrary: fuel)
  case Nil
  then show ?case by simp
next
  case (Cons p ps)
  then obtain fuel' where "fuel = Suc fuel'" and "length ps \<le> fuel'"
    by (cases fuel) auto
  with Cons show ?case by simp
qed

end
