(* ===== verification/Go_Numbers.thy ===== *)
theory Go_Numbers
  imports Prelude "HOL-Library.Char_ord" "HOL-Library.List_Lexorder"
begin

text \<open>
  Go's fixed-width signed integers as \<open>int\<close> with the wrap-around written out (\<open>wrap32\<close>, \<open>wrap64\<close>), and
  the decimal text that \<^verbatim>\<open>%d\<close> prints (\<open>nat_dec\<close>, \<open>int_dec\<close>), with the comparison of decimal texts.
\<close>

section \<open>Wrap-around\<close>

definition wrap_at :: "nat \<Rightarrow> int \<Rightarrow> int" where
  "wrap_at w x = (x + 2 ^ (w - 1)) mod 2 ^ w - 2 ^ (w - 1)"

abbreviation wrap32 :: "int \<Rightarrow> int" where
  "wrap32 \<equiv> wrap_at 32"

abbreviation wrap64 :: "int \<Rightarrow> int" where
  "wrap64 \<equiv> wrap_at 64"

lemma wrap_at_id: "0 < w \<Longrightarrow> - (2 ^ (w - 1)) \<le> x \<Longrightarrow> x < 2 ^ (w - 1) \<Longrightarrow> wrap_at w x = x"
proof -
  assume w: "0 < w" and x: "- (2 ^ (w - 1)) \<le> x" "x < 2 ^ (w - 1)"
  have "(2::int) ^ w = 2 * 2 ^ (w - 1)" using w by (cases w) auto
  then have "(x + 2 ^ (w - 1)) mod 2 ^ w = x + 2 ^ (w - 1)" using x by (intro mod_pos_pos_trivial) auto
  then show ?thesis by (simp add: wrap_at_def)
qed

lemma wrap32_id: "- 2147483648 \<le> x \<Longrightarrow> x < 2147483648 \<Longrightarrow> wrap32 x = x"
  by (rule wrap_at_id) auto

lemma wrap64_id: "- 9223372036854775808 \<le> x \<Longrightarrow> x < 9223372036854775808 \<Longrightarrow> wrap64 x = x"
  by (rule wrap_at_id) auto

section \<open>Decimal text\<close>

definition dec_digit :: "nat \<Rightarrow> char" where
  "dec_digit d = char_of (48 + d)"

fun nat_dec :: "nat \<Rightarrow> string" where
  "nat_dec n = (if n < 10 then [dec_digit n] else nat_dec (n div 10) @ [dec_digit (n mod 10)])"

declare nat_dec.simps [simp del]

definition int_dec :: "int \<Rightarrow> string" where
  "int_dec i = (if i < 0 then CHR ''-'' # nat_dec (nat (- i)) else nat_dec (nat i))"

lemma dec_digit_less: "a < 10 \<Longrightarrow> b < 10 \<Longrightarrow> dec_digit a < dec_digit b \<longleftrightarrow> a < b"
  by (simp add: dec_digit_def less_char_def)

lemma dec_digit_eq: "a < 10 \<Longrightarrow> b < 10 \<Longrightarrow> dec_digit a = dec_digit b \<longleftrightarrow> a = b"
  by (metis dec_digit_less nat_neq_iff order_less_irrefl)

lemma length_nat_dec: "10 ^ k \<le> n \<Longrightarrow> n < 10 ^ Suc k \<Longrightarrow> length (nat_dec n) = Suc k"
proof (induction k arbitrary: n)
  case 0
  then show ?case by (simp add: nat_dec.simps)
next
  case (Suc k)
  then have "10 \<le> n" by (metis dual_order.trans one_le_numeral power_Suc self_le_power mult_le_mono2 mult.right_neutral nat_1_add_1 one_le_power)
  moreover have "10 ^ k \<le> n div 10" "n div 10 < 10 ^ Suc k" using Suc(2,3) by (auto simp: less_mult_imp_div_less)
  ultimately show ?case using Suc(1) by (subst nat_dec.simps) simp
qed

text \<open>Lexicographic comparison of texts that differ at the end.\<close>

lemma list_less_snoc:
  fixes a b :: "'a :: linorder"
  shows "length xs = length ys \<Longrightarrow> xs @ [a] < ys @ [b] \<longleftrightarrow> xs < ys \<or> xs = ys \<and> a < b"
  by (induction xs ys rule: list_induct2) auto

lemma nat_dec_ne [simp]: "nat_dec n \<noteq> []"
  by (subst nat_dec.simps) simp

lemma length_nat_dec_1: "length (nat_dec n) = 1 \<longleftrightarrow> n < 10"
  by (subst nat_dec.simps) simp

lemma nat_dec_inject: "nat_dec a = nat_dec b \<Longrightarrow> a = b"
proof (induction a arbitrary: b rule: nat_dec.induct)
  case (1 a)
  show ?case
  proof (cases "a < 10")
    case True
    then have "length (nat_dec b) = 1" using 1(2) length_nat_dec_1 [of a] by simp
    then have "b < 10" by (simp only: length_nat_dec_1)
    then show ?thesis using 1(2) True by (simp add: nat_dec.simps [of a] nat_dec.simps [of b] dec_digit_eq)
  next
    case False
    then have b: "\<not> b < 10" using 1(2) length_nat_dec_1 [of a] length_nat_dec_1 [of b] by simp
    have "nat_dec (a div 10) = nat_dec (b div 10)" "a mod 10 = b mod 10"
      using 1(2) False b by (simp_all add: nat_dec.simps [of a] nat_dec.simps [of b] dec_digit_eq)
    then show ?thesis using 1(1) [OF False] by (metis div_mult_mod_eq)
  qed
qed

lemma div_mod_less: "(a :: nat) < b \<longleftrightarrow> a div 10 < b div 10 \<or> a div 10 = b div 10 \<and> a mod 10 < b mod 10"
proof -
  define qa ra qb rb where d: "qa = a div 10" "ra = a mod 10" "qb = b div 10" "rb = b mod 10"
  have "a = 10 * qa + ra" "b = 10 * qb + rb" "ra < 10" "rb < 10" by (simp_all add: d)
  then show ?thesis unfolding d [symmetric] by linarith
qed

text \<open>Decimal texts of the same length are ordered as the numbers are.\<close>

lemma nat_dec_less: "length (nat_dec a) = length (nat_dec b) \<Longrightarrow> nat_dec a < nat_dec b \<longleftrightarrow> a < b"
proof (induction a arbitrary: b rule: nat_dec.induct)
  case (1 a)
  show ?case
  proof (cases "a < 10")
    case True
    then have "length (nat_dec b) = 1" using 1(2) length_nat_dec_1 [of a] by simp
    then have "b < 10" by (simp only: length_nat_dec_1)
    then show ?thesis using True by (simp add: nat_dec.simps [of a] nat_dec.simps [of b] dec_digit_less)
  next
    case False
    then have b: "\<not> b < 10" using 1(2) length_nat_dec_1 [of a] length_nat_dec_1 [of b] by simp
    have len: "length (nat_dec (a div 10)) = length (nat_dec (b div 10))"
      using 1(2) False b by (simp add: nat_dec.simps [of a] nat_dec.simps [of b])
    have "nat_dec a < nat_dec b \<longleftrightarrow> nat_dec (a div 10) < nat_dec (b div 10) \<or>
        nat_dec (a div 10) = nat_dec (b div 10) \<and> a mod 10 < b mod 10"
      using False b list_less_snoc [OF len]
      by (simp add: nat_dec.simps [of a] nat_dec.simps [of b] dec_digit_less)
    also have "\<dots> \<longleftrightarrow> a div 10 < b div 10 \<or> a div 10 = b div 10 \<and> a mod 10 < b mod 10"
      using 1(1) [OF False len] nat_dec_inject by auto
    also have "\<dots> \<longleftrightarrow> a < b" by (rule div_mod_less [symmetric])
    finally show ?thesis .
  qed
qed

lemma int_dec_le:
  assumes "10 ^ k \<le> a" "a < 10 ^ Suc k" "10 ^ k \<le> b" "b < 10 ^ Suc k"
  shows "int_dec a \<le> int_dec b \<longleftrightarrow> a \<le> b"
proof -
  have pos: "0 \<le> a" "0 \<le> b" using assms by (meson order_trans zero_le_numeral zero_le_power)+
  have nat: "nat (10 ^ j) = 10 ^ j" for j by (simp add: nat_power_eq)
  have "10 ^ k \<le> nat a" "nat a < 10 ^ Suc k" "10 ^ k \<le> nat b" "nat b < 10 ^ Suc k"
    using assms pos nat [of k] nat [of "Suc k"] by (metis nat_le_iff nat_mono nat_less_eq_zless)+
  then have "length (nat_dec (nat a)) = length (nat_dec (nat b))" by (simp add: length_nat_dec)
  from nat_dec_less [OF this [symmetric]] show ?thesis
    using pos by (auto simp: int_dec_def not_less [symmetric])
qed

lemma int_dec_inject: "int_dec a = int_dec b \<Longrightarrow> a = b"
proof -
  have nominus: "nat_dec n \<noteq> CHR ''-'' # s" for n s
  proof (induction n arbitrary: s rule: nat_dec.induct)
    case (1 n)
    have "dec_digit d \<noteq> CHR ''-''" if "d < 10" for d
    proof
      assume "dec_digit d = CHR ''-''"
      then have "of_char (char_of (48 + d) :: char) = (of_char (CHR ''-'') :: nat)" by (simp add: dec_digit_def)
      then show False using that by (simp add: of_char_of)
    qed
    then show ?case
      using 1 by (cases "nat_dec (n div 10)") (auto simp: nat_dec.simps [of n])
  qed
  show "int_dec a = int_dec b \<Longrightarrow> a = b"
    using nat_dec_inject [of "nat a" "nat b"] nat_dec_inject [of "nat (- a)" "nat (- b)"] nominus
    by (auto simp: int_dec_def nominus nominus [symmetric] split: if_splits)
qed

end
