(* ===== verification/Linked_Hash_Map.thy ===== *)
theory Linked_Hash_Map
  imports Prelude
begin

text \<open>
  \<^verbatim>\<open>pkg/basic/linked_hash_map.go\<close>: a hash map whose entries are also chained in a doubly linked
  list. The record \<open>lhm\<close> holds the struct's fields and the fields of the nodes it has allocated,
  one function per node field; \<open>lh_brk\<close> is the next unused address. The loops of \<open>Keys\<close> and
  \<open>Values\<close> get \<open>lh_brk\<close> as fuel, which is the number of nodes allocated so far.

  The theory proves that every operation refines the same operation on an association list
  (locale \<open>ordered_map\<close>, interpreted as \<open>lhmap\<close>).
\<close>

section \<open>Model\<close>

record ('k, 't) lhm =
  lh_itemMap :: "('k, addr) gomap"
  lh_head :: ptr
  lh_tail :: ptr
  lh_zeroK :: 'k
  lh_zeroT :: 't
  lh_key :: "addr \<Rightarrow> 'k"
  lh_value :: "addr \<Rightarrow> 't"
  lh_prev :: "addr \<Rightarrow> ptr"
  lh_next :: "addr \<Rightarrow> ptr"
  lh_brk :: addr

definition NewLinkHashMap :: "'k \<Rightarrow> 't \<Rightarrow> ('k, 't) lhm" where
  "NewLinkHashMap zk zt = \<lparr> lh_itemMap = [], lh_head = None, lh_tail = None, lh_zeroK = zk, lh_zeroT = zt,
     lh_key = (\<lambda>_. zk), lh_value = (\<lambda>_. zt), lh_prev = (\<lambda>_. None), lh_next = (\<lambda>_. None), lh_brk = 0 \<rparr>"

text \<open>\<^verbatim>\<open>&linkedHashMapNode[K, T]{key: k, value: v}\<close>\<close>

definition lhm_new_node :: "'k \<Rightarrow> 't \<Rightarrow> ('k, 't) lhm \<Rightarrow> addr \<times> ('k, 't) lhm" where
  "lhm_new_node k v m = (let n = lh_brk m in
     (n, m\<lparr> lh_key := (lh_key m)(n := k), lh_value := (lh_value m)(n := v),
            lh_prev := (lh_prev m)(n := None), lh_next := (lh_next m)(n := None), lh_brk := Suc n \<rparr>))"

definition lhm_Put :: "'k \<Rightarrow> 't \<Rightarrow> ('k, 't) lhm \<Rightarrow> ('k, 't) lhm" where
  "lhm_Put k v m =
     (case gm_get (lh_itemMap m) k of
        Some n \<Rightarrow> m\<lparr> lh_value := (lh_value m)(n := v) \<rparr>
      | None \<Rightarrow>
          let (n, m1) = lhm_new_node k v m;
              m2 = m1\<lparr> lh_itemMap := gm_put k n (lh_itemMap m1) \<rparr>
          in case lh_tail m2 of
               None \<Rightarrow> m2\<lparr> lh_head := Some n, lh_tail := Some n \<rparr>
             | Some t \<Rightarrow> m2\<lparr> lh_next := (lh_next m2)(t := Some n),
                             lh_prev := (lh_prev m2)(n := Some t), lh_tail := Some n \<rparr>)"

definition lhm_Get :: "'k \<Rightarrow> ('k, 't) lhm \<Rightarrow> 't \<times> bool" where
  "lhm_Get k m = (case gm_get (lh_itemMap m) k of
     Some n \<Rightarrow> (lh_value m n, True)
   | None \<Rightarrow> (lh_zeroT m, False))"

text \<open>Unlinking a node, the block shared by \<open>Remove\<close> and \<open>moveToHead\<close>: its two guarded writes, in order.\<close>

definition lhm_unlink :: "addr \<Rightarrow> ('k, 't) lhm \<Rightarrow> ('k, 't) lhm" where
  "lhm_unlink n m =
     (let m1 = (case lh_prev m n of
                  Some p \<Rightarrow> m\<lparr> lh_next := (lh_next m)(p := lh_next m n) \<rparr>
                | None \<Rightarrow> m\<lparr> lh_head := lh_next m n \<rparr>)
      in case lh_next m1 n of
           Some q \<Rightarrow> m1\<lparr> lh_prev := (lh_prev m1)(q := lh_prev m1 n) \<rparr>
         | None \<Rightarrow> m1\<lparr> lh_tail := lh_prev m1 n \<rparr>)"

definition lhm_Remove :: "'k \<Rightarrow> ('k, 't) lhm \<Rightarrow> ('k, 't) lhm" where
  "lhm_Remove k m =
     (case gm_get (lh_itemMap m) k of
        None \<Rightarrow> m
      | Some n \<Rightarrow> (let m1 = lhm_unlink n m in m1\<lparr> lh_itemMap := gm_del k (lh_itemMap m1) \<rparr>))"

definition lhm_RemoveFirst :: "('k, 't) lhm \<Rightarrow> 'k \<times> ('k, 't) lhm" where
  "lhm_RemoveFirst m = (case lh_head m of
     None \<Rightarrow> (lh_zeroK m, m)
   | Some h \<Rightarrow> (let key = lh_key m h in (key, lhm_Remove key m)))"

definition lhm_RemoveLast :: "('k, 't) lhm \<Rightarrow> 'k \<times> ('k, 't) lhm" where
  "lhm_RemoveLast m = (case lh_tail m of
     None \<Rightarrow> (lh_zeroK m, m)
   | Some t \<Rightarrow> (let key = lh_key m t in (key, lhm_Remove key m)))"

definition lhm_Size :: "('k, 't) lhm \<Rightarrow> nat" where
  "lhm_Size m = gm_len (lh_itemMap m)"

definition lhm_Contains :: "'k \<Rightarrow> ('k, 't) lhm \<Rightarrow> bool" where
  "lhm_Contains k m = (case gm_get (lh_itemMap m) k of None \<Rightarrow> False | Some _ \<Rightarrow> True)"

definition lhm_Keys :: "('k, 't) lhm \<Rightarrow> 'k list option" where
  "lhm_Keys m = map_option (map (lh_key m)) (walk (lh_brk m) (lh_next m) (lh_head m))"

definition lhm_Values :: "('k, 't) lhm \<Rightarrow> 't list option" where
  "lhm_Values m = map_option (map (lh_value m)) (walk (lh_brk m) (lh_next m) (lh_head m))"

definition lhm_moveToHead :: "addr \<Rightarrow> ('k, 't) lhm \<Rightarrow> ('k, 't) lhm" where
  "lhm_moveToHead node m =
     (let m1 = lhm_unlink node m;
          m2 = m1\<lparr> lh_prev := (lh_prev m1)(node := None) \<rparr>;
          m3 = m2\<lparr> lh_next := (lh_next m2)(node := lh_head m2) \<rparr>;
          m4 = (case lh_head m3 of None \<Rightarrow> m3 | Some h \<Rightarrow> m3\<lparr> lh_prev := (lh_prev m3)(h := Some node) \<rparr>);
          m5 = m4\<lparr> lh_head := Some node \<rparr>
      in case lh_tail m5 of None \<Rightarrow> m5\<lparr> lh_tail := Some node \<rparr> | Some _ \<Rightarrow> m5)"

definition lhm_MoveToHead :: "'k \<Rightarrow> ('k, 't) lhm \<Rightarrow> ('k, 't) lhm" where
  "lhm_MoveToHead key m =
     (case gm_get (lh_itemMap m) key of
        None \<Rightarrow> m
      | Some node \<Rightarrow> if Some node = lh_head m then m else lhm_moveToHead node m)"

section \<open>Invariant and contents\<close>

definition lhm_rep :: "('k, 't) lhm \<Rightarrow> addr list \<Rightarrow> bool" where
  "lhm_rep m ps \<longleftrightarrow>
     dseg (lh_next m) (lh_prev m) None ps None \<and> distinct ps \<and>
     lh_head m = first_or ps None \<and> lh_tail m = last_or None ps \<and>
     (\<forall>p \<in> set ps. p < lh_brk m) \<and> gm_ok (lh_itemMap m) \<and>
     (\<forall>k p. gm_get (lh_itemMap m) k = Some p \<longleftrightarrow> p \<in> set ps \<and> lh_key m p = k)"

definition lhm_nodes :: "('k, 't) lhm \<Rightarrow> addr list" where
  "lhm_nodes m = (case walk (lh_brk m) (lh_next m) (lh_head m) of None \<Rightarrow> [] | Some ps \<Rightarrow> ps)"

definition lhm_inv :: "('k, 't) lhm \<Rightarrow> bool" where
  "lhm_inv m \<longleftrightarrow> lhm_rep m (lhm_nodes m)"

definition lhm_items :: "('k, 't) lhm \<Rightarrow> ('k \<times> 't) list" where
  "lhm_items m = map (\<lambda>p. (lh_key m p, lh_value m p)) (lhm_nodes m)"

section \<open>Refinement\<close>

lemma lhm_rep_walk: "lhm_rep m ps \<Longrightarrow> walk (lh_brk m) (lh_next m) (lh_head m) = Some ps"
proof -
  assume rep: "lhm_rep m ps"
  then have "set ps \<subseteq> {..<lh_brk m}" by (auto simp: lhm_rep_def)
  then have "card (set ps) \<le> lh_brk m" by (metis card_lessThan card_mono finite_lessThan)
  with rep have "length ps \<le> lh_brk m" by (simp add: lhm_rep_def distinct_card)
  with rep show ?thesis by (auto simp: lhm_rep_def intro!: walk_fseg dest: dseg_fseg)
qed

lemma lhm_rep_nodes: "lhm_rep m ps \<Longrightarrow> lhm_nodes m = ps"
  by (simp add: lhm_nodes_def lhm_rep_walk)

lemma lhm_repI: "lhm_rep m ps \<Longrightarrow> lhm_inv m \<and> lhm_items m = map (\<lambda>p. (lh_key m p, lh_value m p)) ps"
  by (simp add: lhm_inv_def lhm_items_def lhm_rep_nodes)

lemma lhm_rep_inj: "lhm_rep m ps \<Longrightarrow> inj_on (lh_key m) (set ps)"
  unfolding lhm_rep_def inj_on_def by (metis option.inject)

lemma lhm_rep_notin: "lhm_rep m ps \<Longrightarrow> lh_brk m \<notin> set ps"
  unfolding lhm_rep_def by (metis nat_neq_iff)

text \<open>Association-list operations on the image of the node list.\<close>

lemma map_nodes_update:
  assumes "n \<in> set ps" and "inj_on f (set ps)" and "distinct ps"
  shows "AList.update (f n) v (map (\<lambda>p. (f p, g p)) ps) = map (\<lambda>p. (f p, (g(n := v)) p)) ps"
  using assms
proof (induction ps)
  case Nil
  then show ?case by simp
next
  case (Cons q ps)
  show ?case
  proof (cases "q = n")
    case True
    with Cons.prems show ?thesis by auto
  next
    case False
    with Cons.prems have "f q \<noteq> f n" by (auto simp: inj_on_def)
    with False Cons show ?thesis by auto
  qed
qed

lemma map_nodes_delete:
  assumes "n \<in> set ps" and "inj_on f (set ps)"
  shows "AList.delete (f n) (map (\<lambda>p. (f p, g p)) ps) = map (\<lambda>p. (f p, g p)) (filter (\<lambda>p. p \<noteq> n) ps)"
proof -
  have "filter (\<lambda>p. f n \<noteq> f p) ps = filter (\<lambda>p. p \<noteq> n) ps"
    using assms by (intro filter_cong) (auto simp: inj_on_def)
  then show ?thesis
    by (simp add: AList.delete_eq filter_map o_def)
qed

lemma filter_split_remove: "distinct (qs @ n # rs) \<Longrightarrow> filter (\<lambda>p. p \<noteq> n) (qs @ n # rs) = qs @ rs"
  by (auto simp: filter_id_conv intro!: arg_cong2 [where f = "(@)"])

lemma lhm_rep_new: "lhm_rep (NewLinkHashMap zk zt) []"
  by (simp add: lhm_rep_def NewLinkHashMap_def)

lemma lhm_unlink_alt:
  "lhm_rep m (qs @ n # rs) \<Longrightarrow>
   lhm_unlink n m = m\<lparr> lh_next := set_at (lh_next m) (last_or None qs) (first_or rs None),
                       lh_prev := set_at (lh_prev m) (first_or rs None) (last_or None qs),
                       lh_head := first_or (qs @ rs) None, lh_tail := last_or None (qs @ rs) \<rparr>"
proof -
  assume rep: "lhm_rep m (qs @ n # rs)"
  then have nx: "lh_next m n = first_or rs None" and pv: "lh_prev m n = last_or None qs"
    by (auto simp: lhm_rep_def dest: dseg_mid)
  have ht: "lh_head m = first_or (qs @ n # rs) None" "lh_tail m = last_or None (qs @ n # rs)"
    and d: "distinct (qs @ n # rs)" using rep by (simp_all add: lhm_rep_def)
  show ?thesis
    using nx pv ht d
    by (cases qs rule: rev_cases; cases rs) (auto simp: lhm_unlink_def Let_def last_or_def)
qed

lemma lhm_Remove_rep:
  assumes rep: "lhm_rep m (qs @ n # rs)"
  shows "lhm_rep (lhm_Remove (lh_key m n) m) (qs @ rs)"
    and "lh_key (lhm_Remove (lh_key m n) m) = lh_key m"
    and "lh_value (lhm_Remove (lh_key m n) m) = lh_value m"
proof -
  have get: "gm_get (lh_itemMap m) (lh_key m n) = Some n" using rep by (auto simp: lhm_rep_def)
  have rm: "lhm_Remove (lh_key m n) m =
      (lhm_unlink n m)\<lparr> lh_itemMap := gm_del (lh_key m n) (lh_itemMap m) \<rparr>"
    using lhm_unlink_alt [OF rep] by (simp add: lhm_Remove_def get)
  have inj: "inj_on (lh_key m) (set (qs @ n # rs))" by (rule lhm_rep_inj [OF rep])
  have d: "distinct (qs @ n # rs)" and seg: "dseg (lh_next m) (lh_prev m) None (qs @ n # rs) None"
    using rep by (simp_all add: lhm_rep_def)
  have upd: "(gm_get (gm_del (lh_key m n) (lh_itemMap m)) k = Some p) =
      (p \<in> set (qs @ rs) \<and> lh_key m p = k)" for k p
    using rep inj d by (auto simp: lhm_rep_def inj_on_def)
  show "lhm_rep (lhm_Remove (lh_key m n) m) (qs @ rs)"
    using dseg_unlink [OF seg d] rep d upd unfolding rm lhm_unlink_alt [OF rep]
    by (simp add: lhm_rep_def)
  show "lh_key (lhm_Remove (lh_key m n) m) = lh_key m" "lh_value (lhm_Remove (lh_key m n) m) = lh_value m"
    unfolding rm lhm_unlink_alt [OF rep] by simp_all
qed

lemma lhm_inv_get:
  assumes "lhm_inv m"
  shows "gm_get (lh_itemMap m) k = Some n \<longleftrightarrow> n \<in> set (lhm_nodes m) \<and> lh_key m n = k"
  using assms by (simp add: lhm_inv_def lhm_rep_def)

lemma lhm_items_lookup:
  assumes "lhm_inv m"
  shows "map_of (lhm_items m) k = map_option (lh_value m) (gm_get (lh_itemMap m) k)"
proof (cases "gm_get (lh_itemMap m) k")
  case None
  then have "\<forall>n \<in> set (lhm_nodes m). lh_key m n \<noteq> k"
    using lhm_inv_get [OF assms] by (metis option.distinct(1))
  with None show ?thesis
    by (auto simp: lhm_items_def map_of_eq_None_iff)
next
  case (Some n)
  then have n: "n \<in> set (lhm_nodes m)" "lh_key m n = k" by (simp_all add: lhm_inv_get [OF assms])
  have "inj_on (lh_key m) (set (lhm_nodes m))" using assms by (simp add: lhm_inv_def lhm_rep_inj)
  with n have "distinct (map fst (lhm_items m))"
    using assms by (auto simp: lhm_items_def o_def distinct_map lhm_inv_def lhm_rep_def)
  with n Some show ?thesis
    by (auto simp: lhm_items_def intro!: map_of_is_SomeI)
qed

lemma lhm_Put_items:
  assumes "lhm_inv m"
  shows "lhm_inv (lhm_Put k v m) \<and> lhm_items (lhm_Put k v m) = AList.update k v (lhm_items m)"
proof -
  let ?ps = "lhm_nodes m"
  have rep: "lhm_rep m ?ps" using assms by (simp add: lhm_inv_def)
  show ?thesis
  proof (cases "gm_get (lh_itemMap m) k")
    case (Some n)
    then have n: "n \<in> set ?ps" "lh_key m n = k" by (simp_all add: lhm_inv_get [OF assms])
    have "lhm_rep (lhm_Put k v m) ?ps"
      using rep by (simp add: lhm_rep_def lhm_Put_def Some)
    moreover have "distinct ?ps" using rep by (simp add: lhm_rep_def)
    moreover have "lhm_Put k v m = m\<lparr> lh_value := (lh_value m)(n := v) \<rparr>"
      by (simp add: lhm_Put_def Some)
    ultimately show ?thesis
      using n map_nodes_update [OF n(1) lhm_rep_inj [OF rep], of v "lh_value m"] lhm_repI [OF rep]
        lhm_repI [of "lhm_Put k v m" ?ps] by simp
  next
    case None
    let ?n = "lh_brk m"
    have fresh: "?n \<notin> set ?ps" by (rule lhm_rep_notin [OF rep])
    have no: "lh_key m p \<noteq> k" if "p \<in> set ?ps" for p
      using None lhm_inv_get [OF assms, of k p] that by auto
    have "lhm_rep (lhm_Put k v m) (?ps @ [?n])"
      using rep fresh None no
      by (cases "?ps" rule: rev_cases)
         (auto simp: lhm_rep_def lhm_Put_def lhm_new_node_def Let_def linked_simps last_or_def)
    moreover have "AList.update k v (lhm_items m) = lhm_items m @ [(k, v)]"
      by (intro alist_update_new) (use no in \<open>force simp: lhm_items_def\<close>)
    moreover have "lh_key (lhm_Put k v m) = (lh_key m)(?n := k)"
      "lh_value (lhm_Put k v m) = (lh_value m)(?n := v)"
      by (simp_all add: lhm_Put_def lhm_new_node_def Let_def None split: option.split)
    ultimately show ?thesis
      using fresh lhm_repI [OF rep] lhm_repI [of "lhm_Put k v m" "?ps @ [?n]"] by auto
  qed
qed

lemma lhm_Remove_none: "gm_get (lh_itemMap m) k = None \<Longrightarrow> lhm_Remove k m = m"
  by (simp add: lhm_Remove_def)

lemma lhm_Remove_items:
  assumes "lhm_inv m"
  shows "lhm_inv (lhm_Remove k m) \<and> lhm_items (lhm_Remove k m) = AList.delete k (lhm_items m)"
proof (cases "gm_get (lh_itemMap m) k")
  case None
  then have "AList.delete k (lhm_items m) = lhm_items m"
    using lhm_items_lookup [OF assms, of k] by (simp add: AList.delete_idem map_of_eq_None_iff)
  with None assms show ?thesis by (simp add: lhm_Remove_none)
next
  case (Some n)
  have rep: "lhm_rep m (lhm_nodes m)" using assms by (simp add: lhm_inv_def)
  from Some have n: "n \<in> set (lhm_nodes m)" "lh_key m n = k" by (simp_all add: lhm_inv_get [OF assms])
  then obtain qs rs where split: "lhm_nodes m = qs @ n # rs" by (meson split_list)
  have d: "distinct (qs @ n # rs)" using rep by (simp add: split lhm_rep_def)
  show ?thesis
    using lhm_Remove_rep [OF rep [unfolded split]] n(2) lhm_repI [of "lhm_Remove k m" "qs @ rs"]
      map_nodes_delete [OF n(1) lhm_rep_inj [OF rep], of "lh_value m"]
    by (simp add: lhm_items_def split filter_split_remove [OF d, simplified])
qed

text \<open>The last entry: its key is returned and it is dropped.\<close>

lemma lhm_items_tail:
  assumes "lhm_inv m"
  shows "lh_tail m = None \<longleftrightarrow> lhm_items m = []"
    and "lh_tail m = Some t \<Longrightarrow> lhm_items m \<noteq> [] \<and> lh_key m t = fst (last (lhm_items m))"
  using assms
  by (auto simp: lhm_inv_def lhm_rep_def lhm_items_def last_or_def last_map split: if_splits)

lemma lhm_items_head:
  assumes "lhm_inv m"
  shows "lh_head m = None \<longleftrightarrow> lhm_items m = []"
    and "lh_head m = Some t \<Longrightarrow> lhm_items m \<noteq> [] \<and> lh_key m t = fst (hd (lhm_items m))"
  using assms
  by (cases "lhm_nodes m"; auto simp: lhm_inv_def lhm_rep_def lhm_items_def)+

lemma lhm_items_distinct: "lhm_inv m \<Longrightarrow> distinct (map fst (lhm_items m))"
  using lhm_rep_inj [of m "lhm_nodes m"]
  by (auto simp: lhm_items_def o_def distinct_map lhm_inv_def lhm_rep_def)

lemma alist_delete_last:
  "xs \<noteq> [] \<Longrightarrow> distinct (map fst xs) \<Longrightarrow> AList.delete (fst (last xs)) xs = butlast xs"
  by (cases xs rule: rev_cases) (auto simp: AList.delete_eq filter_id_conv image_iff)

lemma alist_delete_hd:
  "xs \<noteq> [] \<Longrightarrow> distinct (map fst xs) \<Longrightarrow> AList.delete (fst (hd xs)) xs = tl xs"
  by (cases xs) (auto simp: AList.delete_eq filter_id_conv image_iff)

lemma lhm_RemoveLast_items:
  assumes "lhm_inv m" and "lhm_items m \<noteq> []"
  shows "\<exists>m'. lhm_RemoveLast m = (fst (last (lhm_items m)), m') \<and> lhm_inv m' \<and>
              lhm_items m' = butlast (lhm_items m)"
proof -
  obtain t where t: "lh_tail m = Some t" using lhm_items_tail(1) [OF assms(1)] assms(2) by auto
  then have k: "lh_key m t = fst (last (lhm_items m))" using lhm_items_tail(2) [OF assms(1)] by simp
  show ?thesis
    using lhm_Remove_items [OF assms(1)] t k alist_delete_last [OF assms(2) lhm_items_distinct [OF assms(1)]]
    by (simp add: lhm_RemoveLast_def Let_def)
qed

lemma lhm_RemoveFirst_items:
  assumes "lhm_inv m" and "lhm_items m \<noteq> []"
  shows "\<exists>m'. lhm_RemoveFirst m = (fst (hd (lhm_items m)), m') \<and> lhm_inv m' \<and>
              lhm_items m' = tl (lhm_items m)"
proof -
  obtain t where t: "lh_head m = Some t" using lhm_items_head(1) [OF assms(1)] assms(2) by auto
  then have k: "lh_key m t = fst (hd (lhm_items m))" using lhm_items_head(2) [OF assms(1)] by simp
  show ?thesis
    using lhm_Remove_items [OF assms(1)] t k alist_delete_hd [OF assms(2) lhm_items_distinct [OF assms(1)]]
    by (simp add: lhm_RemoveFirst_def Let_def)
qed

text \<open>Moving an entry to the front.\<close>

definition to_front :: "'k \<Rightarrow> ('k \<times> 't) list \<Rightarrow> ('k \<times> 't) list" where
  "to_front k xs = (case map_of xs k of None \<Rightarrow> xs | Some v \<Rightarrow> (k, v) # AList.delete k xs)"

lemma lhm_moveToHead_rep:
  assumes rep: "lhm_rep m (qs @ n # rs)" and "qs \<noteq> []"
  shows "lhm_rep (lhm_moveToHead n m) (n # qs @ rs)"
    and "lh_key (lhm_moveToHead n m) = lh_key m" and "lh_value (lhm_moveToHead n m) = lh_value m"
proof -
  have d: "distinct (qs @ n # rs)" and seg: "dseg (lh_next m) (lh_prev m) None (qs @ n # rs) None"
    using rep by (simp_all add: lhm_rep_def)
  from \<open>qs \<noteq> []\<close> obtain h qs' where qs: "qs = h # qs'" by (cases qs) auto
  let ?nx = "set_at (lh_next m) (last_or None qs) (first_or rs None)"
  let ?pv = "set_at (lh_prev m) (first_or rs None) (last_or None qs)"
  have un: "dseg ?nx ?pv None (qs @ rs) None" by (rule dseg_unlink [OF seg d])
  have tl: "last_or None (qs @ rs) = Some (last (qs @ rs))" by (simp add: last_or_def qs)
  have mv: "lhm_moveToHead n m = m\<lparr> lh_next := ?nx(n := Some h), lh_prev := ?pv(n := None, h := Some n),
      lh_head := Some n, lh_tail := last_or None (qs @ rs) \<rparr>"
    unfolding lhm_moveToHead_def lhm_unlink_alt [OF rep] tl by (simp add: Let_def qs)
  have "dseg (?nx(n := Some h)) (?pv(n := None, h := Some n)) None (n # qs @ rs) None"
    using un d by (simp add: qs)
  with rep d show "lhm_rep (lhm_moveToHead n m) (n # qs @ rs)"
    unfolding mv lhm_rep_def by (auto simp: last_or_def qs)
  show "lh_key (lhm_moveToHead n m) = lh_key m" "lh_value (lhm_moveToHead n m) = lh_value m"
    unfolding mv by simp_all
qed

lemma lhm_MoveToHead_items:
  assumes "lhm_inv m"
  shows "lhm_inv (lhm_MoveToHead k m) \<and> lhm_items (lhm_MoveToHead k m) = to_front k (lhm_items m)"
proof (cases "gm_get (lh_itemMap m) k")
  case None
  with assms lhm_items_lookup [OF assms, of k] show ?thesis
    by (simp add: lhm_MoveToHead_def to_front_def)
next
  case (Some n)
  have rep: "lhm_rep m (lhm_nodes m)" using assms by (simp add: lhm_inv_def)
  from Some have n: "n \<in> set (lhm_nodes m)" "lh_key m n = k" by (simp_all add: lhm_inv_get [OF assms])
  have front: "to_front k (lhm_items m) = (k, lh_value m n) # AList.delete k (lhm_items m)"
    using lhm_items_lookup [OF assms, of k] by (simp add: to_front_def Some)
  have del: "AList.delete k (lhm_items m) =
      map (\<lambda>p. (lh_key m p, lh_value m p)) (filter (\<lambda>p. p \<noteq> n) (lhm_nodes m))"
    using map_nodes_delete [OF n(1) lhm_rep_inj [OF rep], of "lh_value m"] n(2) by (simp add: lhm_items_def)
  obtain qs rs where split: "lhm_nodes m = qs @ n # rs" using n(1) by (meson split_list)
  have d: "distinct (qs @ n # rs)" using rep by (simp add: split lhm_rep_def)
  show ?thesis
  proof (cases "qs = []")
    case True
    then have "Some n = lh_head m" using rep by (simp add: split lhm_rep_def)
    then have "lhm_MoveToHead k m = m" using Some by (auto simp: lhm_MoveToHead_def split: option.split)
    moreover have "filter (\<lambda>p. p \<noteq> n) rs = rs" using d by (auto simp: filter_id_conv)
    ultimately show ?thesis
      using assms front del n(2) by (simp add: lhm_items_def split True)
  next
    case False
    then have "Some n \<noteq> lh_head m" using rep d by (cases qs) (auto simp: split lhm_rep_def)
    then have eq: "lhm_MoveToHead k m = lhm_moveToHead n m" by (simp add: lhm_MoveToHead_def Some)
    note mv = lhm_moveToHead_rep [OF rep [unfolded split] False]
    have "AList.delete k (lhm_items m) = map (\<lambda>p. (lh_key m p, lh_value m p)) (qs @ rs)"
      unfolding del split filter_split_remove [OF d] ..
    with lhm_repI [OF mv(1)] mv(2,3) n(2) front show ?thesis
      by (simp add: eq)
  qed
qed

lemma lhm_Size_items: "lhm_inv m \<Longrightarrow> lhm_Size m = length (lhm_items m)"
proof -
  assume inv: "lhm_inv m"
  have "gm_len (lh_itemMap m) = length (map fst (lhm_items m))"
  proof (rule gm_len_distinct)
    show "gm_ok (lh_itemMap m)" using inv by (simp add: lhm_inv_def lhm_rep_def)
    show "distinct (map fst (lhm_items m))" by (rule lhm_items_distinct [OF inv])
    show "set (map fst (lhm_items m)) = {k. gm_get (lh_itemMap m) k \<noteq> None}"
      using lhm_items_lookup [OF inv] map_of_eq_None_iff [of "lhm_items m"]
      by (metis (mono_tags, lifting) Collect_cong Collect_mem_eq list.set_map option.map_disc_iff)
  qed
  then show ?thesis by (simp add: lhm_Size_def)
qed

section \<open>Interface\<close>

text \<open>What a client of the linked map relies on.\<close>

locale ordered_map =
  fixes empty :: 'm
    and put :: "'k \<Rightarrow> 't \<Rightarrow> 'm \<Rightarrow> 'm"
    and remove :: "'k \<Rightarrow> 'm \<Rightarrow> 'm"
    and remove_last :: "'m \<Rightarrow> 'k \<times> 'm"
    and move_to_head :: "'k \<Rightarrow> 'm \<Rightarrow> 'm"
    and size_of :: "'m \<Rightarrow> nat"
    and items :: "'m \<Rightarrow> ('k \<times> 't) list"
    and inv :: "'m \<Rightarrow> bool"
  assumes empty: "inv empty \<and> items empty = []"
    and put: "inv m \<Longrightarrow> inv (put k v m) \<and> items (put k v m) = AList.update k v (items m)"
    and remove: "inv m \<Longrightarrow> inv (remove k m) \<and> items (remove k m) = AList.delete k (items m)"
    and remove_last: "inv m \<Longrightarrow> items m \<noteq> [] \<Longrightarrow>
       \<exists>m'. remove_last m = (fst (last (items m)), m') \<and> inv m' \<and> items m' = butlast (items m)"
    and move_to_head: "inv m \<Longrightarrow> inv (move_to_head k m) \<and> items (move_to_head k m) = to_front k (items m)"
    and size_of: "inv m \<Longrightarrow> size_of m = length (items m)"
    and distinct_items: "inv m \<Longrightarrow> distinct (map fst (items m))"
begin

definition keys :: "'m \<Rightarrow> 'k set" where
  "keys m = fst ` set (items m)"

lemma keys_empty [simp]: "keys empty = {}"
  by (simp add: keys_def empty)

lemma keys_put: "inv m \<Longrightarrow> keys (put k v m) = insert k (keys m)"
  by (simp add: keys_def put dom_update)

lemma keys_remove: "inv m \<Longrightarrow> keys (remove k m) = keys m - {k}"
  by (simp add: keys_def remove delete_keys [symmetric] AList.delete_eq) auto

lemma keys_move: "inv m \<Longrightarrow> keys (move_to_head k m) = keys m"
proof -
  assume inv: "inv m"
  show ?thesis
  proof (cases "map_of (items m) k")
    case None
    with inv show ?thesis by (simp add: keys_def move_to_head to_front_def)
  next
    case (Some v)
    then have "k \<in> fst ` set (items m)" by (metis map_of_eq_None_iff option.distinct(1))
    with Some inv show ?thesis by (auto simp: keys_def move_to_head to_front_def AList.delete_eq)
  qed
qed

lemma touch:
  assumes "inv m" and "k \<notin> keys m"
  shows "items (move_to_head k (put k v m)) = (k, v) # items m"
proof -
  have "AList.update k v (items m) = items m @ [(k, v)]"
    using assms(2) by (simp add: keys_def alist_update_new)
  moreover have "map_of (items m) k = None" using assms(2) by (simp add: keys_def map_of_eq_None_iff)
  moreover have "AList.delete k (items m) = items m" using assms(2) by (simp add: keys_def AList.delete_idem)
  ultimately show ?thesis
    using assms(1) by (simp add: move_to_head put to_front_def map_add_def delete_append)
qed

lemma size_zero: "inv m \<Longrightarrow> size_of m = 0 \<longleftrightarrow> keys m = {}"
  by (simp add: size_of keys_def)

lemma remove_last_keys:
  assumes "inv m" and "keys m \<noteq> {}"
  shows "\<exists>k m'. remove_last m = (k, m') \<and> k \<in> keys m \<and> inv m' \<and> keys m' = keys m - {k} \<and>
                k = fst (last (items m)) \<and> items m' = butlast (items m)"
proof -
  have ne: "items m \<noteq> []" using assms(2) by (simp add: keys_def)
  obtain m' where m': "remove_last m = (fst (last (items m)), m')" "inv m'" "items m' = butlast (items m)"
    using remove_last [OF assms(1) ne] by blast
  have "fst ` set (butlast (items m)) = fst ` set (items m) - {fst (last (items m))}"
    using ne distinct_items [OF assms(1)] by (cases "items m" rule: rev_cases) auto
  with m' ne show ?thesis by (auto simp: keys_def)
qed

end

interpretation lhmap: ordered_map "NewLinkHashMap zk zt" lhm_Put lhm_Remove lhm_RemoveLast lhm_MoveToHead
    lhm_Size lhm_items lhm_inv
proof unfold_locales
  show "lhm_inv (NewLinkHashMap zk zt) \<and> lhm_items (NewLinkHashMap zk zt) = []"
    by (simp add: lhm_repI [OF lhm_rep_new])
qed (fact lhm_Put_items lhm_Remove_items lhm_RemoveLast_items lhm_MoveToHead_items lhm_Size_items
      lhm_items_distinct)+

section \<open>Properties\<close>

text \<open>
  Sequences of calls: what the calls do to the map, and what they do to a list of key-value pairs.
  Removing an end of an empty map returns the zero key and changes nothing.
\<close>

datatype ('k, 't) lhm_op = OpPut 'k 't | OpRemove 'k | OpRemoveFirst | OpRemoveLast | OpMoveToHead 'k

fun lhm_step :: "('k, 't) lhm_op \<Rightarrow> ('k, 't) lhm \<Rightarrow> ('k, 't) lhm" where
  "lhm_step (OpPut k v) m = lhm_Put k v m"
| "lhm_step (OpRemove k) m = lhm_Remove k m"
| "lhm_step OpRemoveFirst m = snd (lhm_RemoveFirst m)"
| "lhm_step OpRemoveLast m = snd (lhm_RemoveLast m)"
| "lhm_step (OpMoveToHead k) m = lhm_MoveToHead k m"

fun items_step :: "('k, 't) lhm_op \<Rightarrow> ('k \<times> 't) list \<Rightarrow> ('k \<times> 't) list" where
  "items_step (OpPut k v) xs = AList.update k v xs"
| "items_step (OpRemove k) xs = AList.delete k xs"
| "items_step OpRemoveFirst xs = tl xs"
| "items_step OpRemoveLast xs = butlast xs"
| "items_step (OpMoveToHead k) xs = to_front k xs"

lemma lhm_remove_empty:
  assumes "lhm_inv m" and "lhm_items m = []"
  shows "lhm_RemoveFirst m = (lh_zeroK m, m)" "lhm_RemoveLast m = (lh_zeroK m, m)"
  using lhm_items_head(1) [OF assms(1)] lhm_items_tail(1) [OF assms(1)] assms(2)
  by (auto simp: lhm_RemoveFirst_def lhm_RemoveLast_def)

lemma lhm_step_items:
  assumes "lhm_inv m"
  shows "lhm_inv (lhm_step op m) \<and> lhm_items (lhm_step op m) = items_step op (lhm_items m)"
proof (cases "lhm_items m = []")
  case True
  show ?thesis
    using lhm_remove_empty [OF assms True] True assms
    by (cases op) (simp_all add: lhm_Put_items lhm_Remove_items lhm_MoveToHead_items)
next
  case False
  show ?thesis
    using lhm_RemoveFirst_items [OF assms False] lhm_RemoveLast_items [OF assms False] assms
    by (cases op) (auto simp: lhm_Put_items lhm_Remove_items lhm_MoveToHead_items)
qed

lemma lhm_run_items:
  "lhm_inv m \<Longrightarrow> lhm_inv (fold lhm_step ops m) \<and> lhm_items (fold lhm_step ops m) = fold items_step ops (lhm_items m)"
  by (induction ops arbitrary: m) (simp_all add: lhm_step_items)

lemma lhm_observe:
  assumes "lhm_inv m"
  shows "lhm_Keys m = Some (map fst (lhm_items m))" "lhm_Values m = Some (map snd (lhm_items m))"
    "lhm_Contains k m \<longleftrightarrow> k \<in> fst ` set (lhm_items m)"
    "lhm_Get k m = (case map_of (lhm_items m) k of None \<Rightarrow> (lh_zeroT m, False) | Some v \<Rightarrow> (v, True))"
proof -
  have w: "walk (lh_brk m) (lh_next m) (lh_head m) = Some (lhm_nodes m)"
    using assms lhm_rep_walk by (simp add: lhm_inv_def)
  show "lhm_Keys m = Some (map fst (lhm_items m))" "lhm_Values m = Some (map snd (lhm_items m))"
    by (simp_all add: lhm_Keys_def lhm_Values_def w lhm_items_def o_def)
  show "lhm_Contains k m \<longleftrightarrow> k \<in> fst ` set (lhm_items m)"
    using lhm_items_lookup [OF assms, of k] map_of_eq_None_iff [of "lhm_items m" k]
    by (cases "gm_get (lh_itemMap m) k") (auto simp: lhm_Contains_def)
  show "lhm_Get k m = (case map_of (lhm_items m) k of None \<Rightarrow> (lh_zeroT m, False) | Some v \<Rightarrow> (v, True))"
    using lhm_items_lookup [OF assms, of k] by (simp add: lhm_Get_def split: option.splits)
qed

text \<open>
  C31: any sequence of Put, Remove, RemoveFirst, RemoveLast and MoveToHead on a new LinkedHashMap leaves
  the pointer structure equal to the ordered list of pairs those calls describe: Keys and Values walk it
  to the end and return it in order, Size is its length, and Contains finds exactly its keys.
\<close>

theorem lhm_run_refines_list:
  "lhm_Keys (fold lhm_step ops (NewLinkHashMap zk zt)) = Some (map fst (fold items_step ops [])) \<and>
   lhm_Values (fold lhm_step ops (NewLinkHashMap zk zt)) = Some (map snd (fold items_step ops [])) \<and>
   lhm_Size (fold lhm_step ops (NewLinkHashMap zk zt)) = length (fold items_step ops []) \<and>
   (lhm_Contains k (fold lhm_step ops (NewLinkHashMap zk zt)) \<longleftrightarrow> k \<in> fst ` set (fold items_step ops []))"
proof -
  have "lhm_inv (NewLinkHashMap zk zt)" "lhm_items (NewLinkHashMap zk zt) = []"
    by (simp_all add: lhm_repI [OF lhm_rep_new])
  then show ?thesis
    using lhm_run_items [of "NewLinkHashMap zk zt" ops] by (simp add: lhm_observe lhm_Size_items)
qed

end
