(* ===== verification/Cache_Interface.thy ===== *)
theory Cache_Interface
  imports Prelude
begin

text \<open>
  What the caches of \<^verbatim>\<open>pkg/cache\<close> promise to their users: \<open>Put\<close> and \<open>Get\<close> do not panic, an entry just
  stored is found, and the number of entries stays within the capacity. \<open>cache_run\<close> runs a sequence of
  calls one after the other and collects what the \<open>Get\<close> calls return. \<open>LRU_Cache\<close> and \<open>LFU_Cache\<close>
  interpret the locale.
\<close>

datatype ('k, 'v) cache_op = CPut 'k 'v | CGet 'k

fun cache_run :: "('k \<Rightarrow> 'v \<Rightarrow> 'c \<Rightarrow> 'c option) \<Rightarrow> ('k \<Rightarrow> 'c \<Rightarrow> (('v \<times> bool) \<times> 'c) option) \<Rightarrow>
    ('k, 'v) cache_op list \<Rightarrow> 'c \<Rightarrow> (('v \<times> bool) list \<times> 'c) option" where
  "cache_run put get [] c = Some ([], c)"
| "cache_run put get (CPut k v # ops) c = Option.bind (put k v c) (cache_run put get ops)"
| "cache_run put get (CGet k # ops) c =
     Option.bind (get k c) (\<lambda>(r, c1). map_option (\<lambda>(rs, c2). (r # rs, c2)) (cache_run put get ops c1))"

locale bounded_cache =
  fixes put :: "'k \<Rightarrow> 'v \<Rightarrow> 'c \<Rightarrow> 'c option"
    and get :: "'k \<Rightarrow> 'c \<Rightarrow> (('v \<times> bool) \<times> 'c) option"
    and entries :: "'c \<Rightarrow> nat"
    and capacity :: "'c \<Rightarrow> int"
    and ok :: "'c \<Rightarrow> bool"
  assumes put_ok: "ok c \<Longrightarrow> \<exists>c'. put k v c = Some c' \<and> ok c' \<and> capacity c' = capacity c"
    and get_ok: "ok c \<Longrightarrow> \<exists>r c'. get k c = Some (r, c') \<and> ok c' \<and> capacity c' = capacity c"
    and put_get: "ok c \<Longrightarrow> put k v c = Some c1 \<Longrightarrow> \<exists>c2. get k c1 = Some ((v, True), c2)"
    and bounded: "ok c \<Longrightarrow> int (entries c) \<le> capacity c"
begin

lemma run_ok: "ok c \<Longrightarrow> \<exists>rs c'. cache_run put get ops c = Some (rs, c') \<and> ok c' \<and> capacity c' = capacity c"
proof (induction ops arbitrary: c)
  case Nil
  then show ?case by simp
next
  case (Cons op ops)
  show ?case
  proof (cases op)
    case (CPut k v)
    with put_ok [OF Cons.prems, of k v] Cons.IH show ?thesis by fastforce
  next
    case (CGet k)
    obtain r c1 where r: "get k c = Some (r, c1)" "ok c1" "capacity c1 = capacity c"
      using get_ok [OF Cons.prems, of k] by blast
    with Cons.IH [OF r(2)] CGet show ?thesis by auto
  qed
qed

lemma run_bounded:
  assumes "ok c"
  shows "\<exists>rs c'. cache_run put get ops c = Some (rs, c') \<and> int (entries c') \<le> capacity c"
  using run_ok [OF assms] bounded by metis

lemma cache_run_append:
  "cache_run put get (xs @ ys) c =
     Option.bind (cache_run put get xs c) (\<lambda>(rs, c1). map_option (\<lambda>(rs', c2). (rs @ rs', c2)) (cache_run put get ys c1))"
proof (induction put get xs c rule: cache_run.induct)
  case (1 put get c)
  then show ?case by (cases "cache_run put get ys c") auto
next
  case (2 put get k v ops c)
  then show ?case by (cases "put k v c") auto
next
  case (3 put get k ops c)
  then show ?case
    by (cases "get k c") (auto split: bind_splits simp: option.map_comp o_def case_prod_unfold)
qed

text \<open>At the end of any run, storing an entry and reading it back finds it.\<close>

lemma run_put_get:
  assumes "ok c"
  shows "\<exists>rs c'. cache_run put get (ops @ [CPut k v, CGet k]) c = Some (rs @ [(v, True)], c')"
proof -
  obtain rs c1 where r: "cache_run put get ops c = Some (rs, c1)" "ok c1" using run_ok [OF assms] by blast
  obtain c2 where p: "put k v c1 = Some c2" using put_ok [OF r(2)] by blast
  from put_get [OF r(2) p] r(1) p show ?thesis by (auto simp: cache_run_append)
qed

end

end
