(* ===== verification/LRU_Cache.thy ===== *)
theory LRU_Cache
  imports Linked_Hash_Map Cache_Interface
begin

text \<open>
  \<^verbatim>\<open>pkg/cache/lru.go\<close>: a least-recently-used cache over its own doubly linked list. As in
  \<open>Linked_Hash_Map\<close>, the record \<open>lru\<close> holds the struct and the fields of the allocated nodes, and a
  panic (a nil dereference, or the constructor's own) is \<open>None\<close>. \<open>Get\<close> holds two locks one after
  the other; its two critical sections are \<open>lru_Get_lookup\<close> and \<open>lru_Get_touch\<close>.

  Run one operation at a time, the cache is a list of entries, most recent first, cut to the
  capacity. Between the two critical sections of \<open>Get\<close> another goroutine can evict the node, and then
  the capacity bound is lost for good.
\<close>

section \<open>Model\<close>

record ('k, 't) lru =
  lr_capacity :: int
  lr_itemMap :: "('k, addr) gomap"
  lr_head :: ptr
  lr_tail :: ptr
  lr_zero :: 't
  lr_key :: "addr \<Rightarrow> 'k"
  lr_item :: "addr \<Rightarrow> 't"
  lr_prev :: "addr \<Rightarrow> ptr"
  lr_next :: "addr \<Rightarrow> ptr"
  lr_brk :: addr

definition NewLRUCache :: "'k \<Rightarrow> 't \<Rightarrow> int \<Rightarrow> ('k, 't) lru option" where
  "NewLRUCache zk zt capacity =
     (if capacity \<le> 0 then None
      else Some \<lparr> lr_capacity = capacity, lr_itemMap = [], lr_head = None, lr_tail = None, lr_zero = zt,
        lr_key = (\<lambda>_. zk), lr_item = (\<lambda>_. zt), lr_prev = (\<lambda>_. None), lr_next = (\<lambda>_. None), lr_brk = 0 \<rparr>)"

definition lru_moveToHead :: "addr \<Rightarrow> ('k, 't) lru \<Rightarrow> ('k, 't) lru" where
  "lru_moveToHead n c =
     (if lr_head c = Some n then c
      else
        let c1 = (case lr_prev c n of Some p \<Rightarrow> c\<lparr> lr_next := (lr_next c)(p := lr_next c n) \<rparr> | None \<Rightarrow> c);
            c2 = (case lr_next c1 n of Some q \<Rightarrow> c1\<lparr> lr_prev := (lr_prev c1)(q := lr_prev c1 n) \<rparr> | None \<Rightarrow> c1);
            c3 = (if Some n = lr_tail c2 then c2\<lparr> lr_tail := lr_prev c2 n \<rparr> else c2)
        in case lr_head c3 of
             Some h \<Rightarrow>
               (let c4 = c3\<lparr> lr_prev := (lr_prev c3)(h := Some n) \<rparr>;
                    c5 = c4\<lparr> lr_next := (lr_next c4)(n := lr_head c4) \<rparr>;
                    c6 = c5\<lparr> lr_head := Some n \<rparr>
                in c6\<lparr> lr_prev := (lr_prev c6)(n := None) \<rparr>)
           | None \<Rightarrow> c3\<lparr> lr_head := Some n, lr_tail := Some n \<rparr>)"

definition lru_removeTail :: "('k, 't) lru \<Rightarrow> ('k, 't) lru option" where
  "lru_removeTail c =
     (case lr_tail c of
        None \<Rightarrow> None
      | Some t \<Rightarrow>
          let key = lr_key c t in
          map_option (\<lambda>c1. c1\<lparr> lr_itemMap := gm_del key (lr_itemMap c1) \<rparr>)
            (if gm_len (lr_itemMap c) = 1 then Some (c\<lparr> lr_head := None, lr_tail := None \<rparr>)
             else case lr_prev c t of
                    None \<Rightarrow> None
                  | Some p \<Rightarrow> Some (c\<lparr> lr_next := (lr_next c)(p := None), lr_tail := Some p \<rparr>)))"

text \<open>\<^verbatim>\<open>&node[K, T]{key: key, item: value}\<close>\<close>

definition lru_new_node :: "'k \<Rightarrow> 't \<Rightarrow> ('k, 't) lru \<Rightarrow> addr \<times> ('k, 't) lru" where
  "lru_new_node key value c = (let n = lr_brk c in
     (n, c\<lparr> lr_key := (lr_key c)(n := key), lr_item := (lr_item c)(n := value),
            lr_prev := (lr_prev c)(n := None), lr_next := (lr_next c)(n := None), lr_brk := Suc n \<rparr>))"

definition lru_Put :: "'k \<Rightarrow> 't \<Rightarrow> ('k, 't) lru \<Rightarrow> ('k, 't) lru option" where
  "lru_Put key value c =
     (let (n, c1) = (case gm_get (lr_itemMap c) key of
                       None \<Rightarrow> lru_new_node key value c
                     | Some v \<Rightarrow> (v, c\<lparr> lr_item := (lr_item c)(v := value) \<rparr>));
          c2 = lru_moveToHead n c1;
          c3 = c2\<lparr> lr_itemMap := gm_put key n (lr_itemMap c2) \<rparr>
      in if int (gm_len (lr_itemMap c3)) > lr_capacity c3 then lru_removeTail c3 else Some c3)"

text \<open>The section of \<open>Get\<close> under the read lock, and the one under the write lock.\<close>

definition lru_Get_lookup :: "'k \<Rightarrow> ('k, 't) lru \<Rightarrow> ptr" where
  "lru_Get_lookup key c = gm_get (lr_itemMap c) key"

definition lru_Get_touch :: "addr \<Rightarrow> ('k, 't) lru \<Rightarrow> ('t \<times> bool) \<times> ('k, 't) lru" where
  "lru_Get_touch v c = (let c1 = lru_moveToHead v c in ((lr_item c1 v, True), c1))"

definition lru_Get :: "'k \<Rightarrow> ('k, 't) lru \<Rightarrow> ('t \<times> bool) \<times> ('k, 't) lru" where
  "lru_Get key c = (case lru_Get_lookup key c of
     Some v \<Rightarrow> lru_Get_touch v c
   | None \<Rightarrow> ((lr_zero c, False), c))"

definition lru_Size :: "('k, 't) lru \<Rightarrow> nat" where
  "lru_Size c = gm_len (lr_itemMap c)"

section \<open>Invariant and contents\<close>

definition lru_rep :: "('k, 't) lru \<Rightarrow> addr list \<Rightarrow> bool" where
  "lru_rep c ps \<longleftrightarrow>
     dseg (lr_next c) (lr_prev c) None ps None \<and> distinct ps \<and>
     lr_head c = first_or ps None \<and> lr_tail c = last_or None ps \<and>
     (\<forall>p \<in> set ps. p < lr_brk c) \<and> gm_ok (lr_itemMap c) \<and>
     (\<forall>k p. gm_get (lr_itemMap c) k = Some p \<longleftrightarrow> p \<in> set ps \<and> lr_key c p = k)"

definition lru_items_of :: "('k, 't) lru \<Rightarrow> addr list \<Rightarrow> ('k \<times> 't) list" where
  "lru_items_of c ps = map (\<lambda>p. (lr_key c p, lr_item c p)) ps"

text \<open>The cache represents the entries \<open>xs\<close>, most recently used first.\<close>

definition lru_repr :: "('k, 't) lru \<Rightarrow> ('k \<times> 't) list \<Rightarrow> bool" where
  "lru_repr c xs \<longleftrightarrow> (\<exists>ps. lru_rep c ps \<and> xs = lru_items_of c ps) \<and>
     1 \<le> lr_capacity c \<and> int (length xs) \<le> lr_capacity c"

section \<open>Refinement\<close>

lemma lru_rep_inj: "lru_rep c ps \<Longrightarrow> inj_on (lr_key c) (set ps)"
  unfolding lru_rep_def inj_on_def by (metis option.inject)

lemma lru_rep_len: "lru_rep c ps \<Longrightarrow> gm_len (lr_itemMap c) = length ps"
proof -
  assume rep: "lru_rep c ps"
  have "gm_len (lr_itemMap c) = length (map (lr_key c) ps)"
  proof (rule gm_len_distinct)
    show "gm_ok (lr_itemMap c)" using rep by (simp add: lru_rep_def)
    show "distinct (map (lr_key c) ps)" using rep lru_rep_inj [OF rep] by (simp add: lru_rep_def distinct_map)
    show "set (map (lr_key c) ps) = {k. gm_get (lr_itemMap c) k \<noteq> None}" using rep by (auto simp: lru_rep_def)
  qed
  then show ?thesis by simp
qed

text \<open>Moving a linked node to the head.\<close>

lemma lru_moveToHead_old:
  assumes seg: "dseg (lr_next c) (lr_prev c) None (qs @ n # rs) None" and d: "distinct (qs @ n # rs)"
    and ends: "lr_head c = first_or (qs @ n # rs) None" "lr_tail c = last_or None (qs @ n # rs)"
  shows "\<exists>nx pv. lru_moveToHead n c = c\<lparr> lr_next := nx, lr_prev := pv, lr_head := Some n,
             lr_tail := last_or None (n # qs @ rs) \<rparr> \<and> dseg nx pv None (n # qs @ rs) None"
proof (cases qs)
  case Nil
  with assms have "lru_moveToHead n c = c" by (simp add: lru_moveToHead_def)
  with Nil assms show ?thesis by (intro exI [of _ "lr_next c"] exI [of _ "lr_prev c"]) simp
next
  case (Cons h qs')
  have nx: "lr_next c n = first_or rs None" and pv: "lr_prev c n = last_or None qs" using dseg_mid [OF seg] by simp_all
  let ?nx = "set_at (lr_next c) (last_or None qs) (first_or rs None)"
  let ?pv = "set_at (lr_prev c) (first_or rs None) (last_or None qs)"
  have un: "dseg ?nx ?pv None (qs @ rs) None" by (rule dseg_unlink [OF seg d])
  obtain l where l: "last_or None qs = Some l" "l \<in> set qs" using Cons by (auto simp: last_or_def)
  have hn: "h \<noteq> n" "l \<noteq> n" using d Cons l by auto
  have tl: "last_or (Some n) (qs @ rs) = (case rs of [] \<Rightarrow> Some l | _ \<Rightarrow> last_or None rs)"
    using l Cons by (auto simp: last_or_def split: list.split)
  have tn: "Some n = last_or None (qs @ n # rs) \<longleftrightarrow> rs = []"
    using d by (cases rs rule: rev_cases) (auto simp: last_or_def)
  have "lru_moveToHead n c = c\<lparr> lr_next := ?nx(n := Some h), lr_prev := (?pv(h := Some n))(n := None),
      lr_head := Some n, lr_tail := last_or None (n # qs @ rs) \<rparr>"
    using nx pv l hn ends tn tl d Cons by (cases rs) (auto simp: lru_moveToHead_def Let_def last_or_def)
  moreover have "dseg (?nx(n := Some h)) ((?pv(h := Some n))(n := None)) None (n # qs @ rs) None"
    using un d Cons by (auto simp: fun_upd_twist)
  ultimately show ?thesis by blast
qed

text \<open>Linking a new node in front.\<close>

lemma lru_moveToHead_new:
  assumes "dseg (lr_next c) (lr_prev c) None ps None" and "n \<notin> set ps" and "distinct ps"
    and "lr_next c n = None" and "lr_prev c n = None"
    and "lr_head c = first_or ps None" and "lr_tail c = last_or None ps"
  shows "\<exists>nx pv. lru_moveToHead n c = c\<lparr> lr_next := nx, lr_prev := pv, lr_head := Some n,
             lr_tail := last_or None (n # ps) \<rparr> \<and> dseg nx pv None (n # ps) None"
proof (cases ps)
  case Nil
  with assms have "lru_moveToHead n c = c\<lparr> lr_head := Some n, lr_tail := Some n \<rparr>"
    by (simp add: lru_moveToHead_def)
  also have "\<dots> = c\<lparr> lr_next := lr_next c, lr_prev := lr_prev c, lr_head := Some n, lr_tail := last_or None (n # ps) \<rparr>"
    using Nil by (cases c) simp
  finally have "lru_moveToHead n c = \<dots>" .
  moreover have "dseg (lr_next c) (lr_prev c) None (n # ps) None" using Nil assms by simp
  ultimately show ?thesis by blast
next
  case (Cons h ps')
  then have "lr_tail c \<noteq> Some n" using assms by (auto simp: last_or_def)
  then have "lru_moveToHead n c = c\<lparr> lr_next := (lr_next c)(n := Some h),
      lr_prev := ((lr_prev c)(h := Some n))(n := None), lr_head := Some n, lr_tail := last_or None (n # ps) \<rparr>"
    using assms Cons unfolding lru_moveToHead_def Let_def by (simp cong: if_cong)
  moreover have "dseg ((lr_next c)(n := Some h)) (((lr_prev c)(h := Some n))(n := None)) None (n # ps) None"
    using assms Cons by auto
  ultimately show ?thesis by blast
qed

lemma lru_Put_link:
  assumes rep: "lru_rep c ps"
    and "(n, c1) = (case gm_get (lr_itemMap c) key of
            None \<Rightarrow> lru_new_node key value c | Some v \<Rightarrow> (v, c\<lparr> lr_item := (lr_item c)(v := value) \<rparr>))"
    and c3: "c3 = (lru_moveToHead n c1)\<lparr> lr_itemMap := gm_put key n (lr_itemMap (lru_moveToHead n c1)) \<rparr>"
  shows "\<exists>qs. lru_rep c3 (n # qs) \<and> lr_capacity c3 = lr_capacity c \<and>
              lru_items_of c3 (n # qs) = (key, value) # AList.delete key (lru_items_of c ps)"
proof (cases "gm_get (lr_itemMap c) key")
  case None
  have new: "\<forall>p \<in> set ps. lr_key c p \<noteq> key" using rep None unfolding lru_rep_def by (metis option.distinct(1))
  have n: "n = lr_brk c" "n \<notin> set ps" and c1: "c1 = snd (lru_new_node key value c)"
    using assms None rep by (auto simp: lru_new_node_def lru_rep_def Let_def)
  obtain nx pv where mv: "lru_moveToHead n c1 = c1\<lparr> lr_next := nx, lr_prev := pv, lr_head := Some n,
      lr_tail := last_or None (n # ps) \<rparr>" and seg: "dseg nx pv None (n # ps) None"
    using lru_moveToHead_new [of c1 ps n] rep n by (auto simp: c1 lru_new_node_def Let_def lru_rep_def)
  have "lru_rep c3 (n # ps)"
    using rep seg n new None unfolding c3 mv by (auto simp: lru_rep_def c1 lru_new_node_def Let_def)
  moreover have "AList.delete key (lru_items_of c ps) = lru_items_of c ps"
    using new by (auto simp: AList.delete_eq lru_items_of_def filter_id_conv)
  moreover have "lru_items_of c3 (n # ps) = (key, value) # lru_items_of c ps"
    using n unfolding c3 mv by (auto simp: lru_items_of_def c1 lru_new_node_def Let_def)
  moreover have "lr_capacity c3 = lr_capacity c" unfolding c3 mv by (simp add: c1 lru_new_node_def Let_def)
  ultimately show ?thesis by auto
next
  case (Some v)
  then have n: "n = v" "c1 = c\<lparr> lr_item := (lr_item c)(v := value) \<rparr>" using assms by auto
  have v: "v \<in> set ps" "lr_key c v = key" using rep Some by (auto simp: lru_rep_def)
  then obtain qs rs where ps: "ps = qs @ v # rs" by (meson split_list)
  have d: "distinct (qs @ v # rs)" using rep by (simp add: lru_rep_def ps)
  obtain nx pv where mv: "lru_moveToHead n c1 = c1\<lparr> lr_next := nx, lr_prev := pv, lr_head := Some v,
      lr_tail := last_or None (v # qs @ rs) \<rparr>" and seg: "dseg nx pv None (v # qs @ rs) None"
    using lru_moveToHead_old [of c1 qs v rs] rep d by (auto simp: n lru_rep_def ps)
  have same: "(gm_get (gm_put key v (lr_itemMap c)) k = Some p) = (gm_get (lr_itemMap c) k = Some p)" for k p
    using Some by auto
  have "lru_rep c3 (v # qs @ rs)"
    using rep seg d v Some same unfolding c3 mv by (simp add: lru_rep_def n ps del: gm_get_put)
  moreover have "AList.delete key (lru_items_of c ps) = lru_items_of c (qs @ rs)"
    using map_nodes_delete [OF v(1) lru_rep_inj [OF rep], of "lr_item c"]
    unfolding lru_items_of_def v(2) ps filter_split_remove [OF d] .
  moreover have "lru_items_of c3 (v # qs @ rs) = (key, value) # lru_items_of c (qs @ rs)"
    using v d unfolding c3 mv by (auto simp: lru_items_of_def n)
  moreover have "lr_capacity c3 = lr_capacity c" unfolding c3 mv by (simp add: n)
  ultimately show ?thesis using n by auto
qed

lemma lru_removeTail_rep:
  assumes "lru_rep c (ps @ [t])"
  shows "\<exists>c'. lru_removeTail c = Some c' \<and> lru_rep c' ps \<and> lr_capacity c' = lr_capacity c \<and>
              lru_items_of c' ps = lru_items_of c ps"
proof -
  have t: "lr_tail c = Some t" and len: "gm_len (lr_itemMap c) = Suc (length ps)"
    and d: "distinct (ps @ [t])" and inj: "inj_on (lr_key c) (set (ps @ [t]))"
    using assms lru_rep_len [OF assms] lru_rep_inj [OF assms] by (auto simp: lru_rep_def)
  have pv: "lr_prev c t = last_or None ps" using assms by (simp add: lru_rep_def linked_simps)
  have get: "(gm_get (gm_del (lr_key c t) (lr_itemMap c)) k = Some p) = (p \<in> set ps \<and> lr_key c p = k)" for k p
    using assms inj d by (auto simp: lru_rep_def inj_on_def)
  show ?thesis
  proof (cases ps rule: rev_cases)
    case Nil
    with t len have "lru_removeTail c = Some (c\<lparr> lr_head := None, lr_tail := None,
        lr_itemMap := gm_del (lr_key c t) (lr_itemMap c) \<rparr>)"
      by (simp add: lru_removeTail_def Let_def)
    moreover have "gm_get (gm_del (lr_key c t) (lr_itemMap c)) k = None" for k
      using get [of k] Nil by (metis empty_iff list.set(1) not_None_eq)
    ultimately show ?thesis using assms by (simp add: lru_rep_def lru_items_of_def Nil del: gm_get_del)
  next
    case (snoc qs l)
    with t len pv have "lru_removeTail c = Some (c\<lparr> lr_next := (lr_next c)(l := None), lr_tail := Some l,
        lr_itemMap := gm_del (lr_key c t) (lr_itemMap c) \<rparr>)"
      by (simp add: lru_removeTail_def Let_def)
    moreover have "dseg ((lr_next c)(l := None)) (lr_prev c) None (qs @ [l]) None"
      using assms d by (auto simp: lru_rep_def linked_simps snoc)
    ultimately show ?thesis
      using get assms by (simp add: lru_rep_def lru_items_of_def snoc del: gm_get_del)
  qed
qed

lemma lru_Put_repr:
  assumes "lru_repr c xs"
  shows "\<exists>c'. lru_Put key value c = Some c' \<and> lr_capacity c' = lr_capacity c \<and>
              lru_repr c' (take (nat (lr_capacity c)) ((key, value) # AList.delete key xs))"
proof -
  obtain ps where rep: "lru_rep c ps" and xs: "xs = lru_items_of c ps"
    and cap: "1 \<le> lr_capacity c" "int (length xs) \<le> lr_capacity c" using assms by (auto simp: lru_repr_def)
  let ?r = "case gm_get (lr_itemMap c) key of
            None \<Rightarrow> lru_new_node key value c | Some v \<Rightarrow> (v, c\<lparr> lr_item := (lr_item c)(v := value) \<rparr>)"
  obtain n c1 where "?r = (n, c1)" by (cases ?r)
  note nc1 = this [symmetric]
  define c3 where "c3 = (lru_moveToHead n c1)\<lparr> lr_itemMap := gm_put key n (lr_itemMap (lru_moveToHead n c1)) \<rparr>"
  obtain qs where rep3: "lru_rep c3 (n # qs)" and cap3: "lr_capacity c3 = lr_capacity c"
    and it: "lru_items_of c3 (n # qs) = (key, value) # AList.delete key xs"
    using lru_Put_link [OF rep nc1 c3_def] xs by blast
  have len: "gm_len (lr_itemMap c3) = Suc (length (AList.delete key xs))"
    using lru_rep_len [OF rep3] arg_cong [OF it, of length] by (simp add: lru_items_of_def)
  have put: "lru_Put key value c = (if int (gm_len (lr_itemMap c3)) > lr_capacity c3 then lru_removeTail c3 else Some c3)"
    unfolding lru_Put_def Let_def nc1 [symmetric] c3_def by simp
  have le: "length (AList.delete key xs) \<le> length xs" by (simp add: AList.delete_eq)
  show ?thesis
  proof (cases "int (gm_len (lr_itemMap c3)) > lr_capacity c3")
    case False
    with put it rep3 cap3 cap len show ?thesis by (auto simp: lru_repr_def intro!: exI [of _ "n # qs"])
  next
    case True
    obtain ps' t where pst: "n # qs = ps' @ [t]" by (metis list.distinct(1) rev_exhaust)
    obtain c' where c': "lru_removeTail c3 = Some c'" "lru_rep c' ps'" "lr_capacity c' = lr_capacity c3"
      "lru_items_of c' ps' = lru_items_of c3 ps'" using lru_removeTail_rep rep3 pst by metis
    have l: "length ps' = nat (lr_capacity c)"
      using True cap cap3 le len arg_cong [OF pst, of length] lru_rep_len [OF rep3] by simp
    have "lru_items_of c' ps' = take (nat (lr_capacity c)) (lru_items_of c3 (n # qs))"
      unfolding c'(4) pst using l by (simp add: lru_items_of_def)
    with put True c' cap cap3 it l show ?thesis
      by (auto simp: lru_repr_def lru_items_of_def intro!: exI [of _ ps'])
  qed
qed

lemma lru_Get_repr:
  assumes "lru_repr c xs"
  shows "case map_of xs key of
           None \<Rightarrow> lru_Get key c = ((lr_zero c, False), c)
         | Some v \<Rightarrow> \<exists>c'. lru_Get key c = ((v, True), c') \<and> lru_repr c' (to_front key xs) \<and> lr_capacity c' = lr_capacity c"
proof -
  obtain ps where rep: "lru_rep c ps" and xs: "xs = lru_items_of c ps"
    and cap: "1 \<le> lr_capacity c" "int (length xs) \<le> lr_capacity c" using assms by (auto simp: lru_repr_def)
  have dist: "distinct (map fst xs)"
    using rep lru_rep_inj [OF rep] by (simp add: xs lru_items_of_def o_def distinct_map lru_rep_def)
  show ?thesis
  proof (cases "gm_get (lr_itemMap c) key")
    case None
    then have "\<forall>p \<in> set ps. lr_key c p \<noteq> key" using rep unfolding lru_rep_def by (metis option.distinct(1))
    then have "map_of xs key = None" by (auto simp: xs lru_items_of_def map_of_eq_None_iff)
    with None show ?thesis by (simp add: lru_Get_def lru_Get_lookup_def)
  next
    case (Some v)
    then have v: "v \<in> set ps" "lr_key c v = key" using rep by (auto simp: lru_rep_def)
    then obtain qs rs where ps: "ps = qs @ v # rs" by (meson split_list)
    have d: "distinct (qs @ v # rs)" using rep by (simp add: lru_rep_def ps)
    have mo: "map_of xs key = Some (lr_item c v)"
      using dist v by (auto simp: xs lru_items_of_def intro!: map_of_is_SomeI)
    obtain nx pv where mv: "lru_moveToHead v c = c\<lparr> lr_next := nx, lr_prev := pv, lr_head := Some v,
        lr_tail := last_or None (v # qs @ rs) \<rparr>" and seg: "dseg nx pv None (v # qs @ rs) None"
      using lru_moveToHead_old [of c qs v rs] rep d by (auto simp: lru_rep_def ps)
    have rep': "lru_rep (lru_moveToHead v c) (v # qs @ rs)"
      using rep seg d v unfolding mv by (auto simp: lru_rep_def ps)
    have "AList.delete key xs = lru_items_of c (qs @ rs)"
      using map_nodes_delete [OF v(1) lru_rep_inj [OF rep], of "lr_item c"]
      unfolding xs lru_items_of_def v(2) ps filter_split_remove [OF d] .
    then have tf: "to_front key xs = lru_items_of (lru_moveToHead v c) (v # qs @ rs)"
      using mo v unfolding mv by (simp add: to_front_def lru_items_of_def)
    have len: "length (to_front key xs) = length xs" unfolding tf by (simp add: lru_items_of_def xs ps)
    have "lru_Get key c = ((lr_item c v, True), lru_moveToHead v c)"
      using Some unfolding mv by (simp add: lru_Get_def lru_Get_lookup_def lru_Get_touch_def Let_def mv)
    moreover have "lru_repr (lru_moveToHead v c) (to_front key xs)"
      unfolding lru_repr_def using rep' tf cap len by (auto simp: mv)
    ultimately show ?thesis using mo by (simp add: mv)
  qed
qed

lemma lru_repr_new: "NewLRUCache zk zt capacity = Some c \<Longrightarrow> lru_repr c []"
  by (auto simp: NewLRUCache_def lru_repr_def lru_rep_def lru_items_of_def split: if_splits intro!: exI [of _ "[]"])

lemma lru_Size_repr: "lru_repr c xs \<Longrightarrow> lru_Size c = length xs"
  by (auto simp: lru_repr_def lru_Size_def lru_rep_len lru_items_of_def)

lemma lru_Put_then_Get:
  assumes "lru_repr c xs" and "lru_Put key v c = Some c1"
  shows "\<exists>c2. lru_Get key c1 = ((v, True), c2)"
proof -
  have c1: "lru_repr c1 (take (nat (lr_capacity c)) ((key, v) # AList.delete key xs))" and "1 \<le> lr_capacity c"
    using lru_Put_repr [OF assms(1), of key v] assms by (auto simp: lru_repr_def)
  then have "map_of (take (nat (lr_capacity c)) ((key, v) # AList.delete key xs)) key = Some v"
    by (cases "nat (lr_capacity c)") auto
  with lru_Get_repr [OF c1, of key] show ?thesis by auto
qed

interpretation lru_cache: bounded_cache lru_Put "\<lambda>k c. Some (lru_Get k c)" lru_Size lr_capacity
    "\<lambda>c. \<exists>xs. lru_repr c xs"
proof unfold_locales
  fix c :: "('k, 't) lru" and k v assume "\<exists>xs. lru_repr c xs"
  then obtain xs where xs: "lru_repr c xs" ..
  then show "\<exists>c'. lru_Put k v c = Some c' \<and> (\<exists>xs. lru_repr c' xs) \<and> lr_capacity c' = lr_capacity c"
    using lru_Put_repr [OF xs] by blast
  show "\<exists>r c'. Some (lru_Get k c) = Some (r, c') \<and> (\<exists>xs. lru_repr c' xs) \<and> lr_capacity c' = lr_capacity c"
    using lru_Get_repr [OF xs, of k] xs by (auto split: option.splits)
  show "int (lru_Size c) \<le> lr_capacity c"
    using xs lru_Size_repr [OF xs] by (simp add: lru_repr_def)
next
  fix c c1 :: "('k, 't) lru" and k v assume "\<exists>xs. lru_repr c xs" and "lru_Put k v c = Some c1"
  then show "\<exists>c2. Some (lru_Get k c1) = Some ((v, True), c2)" using lru_Put_then_Get by fastforce
qed

section \<open>Properties\<close>

text \<open>
  C26: \<open>Put\<close> on a cache that holds the entries \<open>xs\<close>, most recent first, does not panic, and leaves the new
  entry in front of the others, cut to the capacity: the entry dropped is the least recently used one.
\<close>

theorem lru_put_keeps_most_recent:
  assumes "lru_repr c xs"
  shows "\<exists>c'. lru_Put key value c = Some c' \<and>
     lru_repr c' (take (nat (lr_capacity c)) ((key, value) # AList.delete key xs))"
  using lru_Put_repr [OF assms] by blast

theorem lru_put_keeps_most_recent_witness:
  "\<exists>c c'. NewLRUCache (0::nat) (0::nat) 1 = Some c \<and> lru_Put 7 70 c = Some c' \<and> lru_repr c' [(7, 70)]"
proof -
  obtain c where c: "NewLRUCache (0::nat) (0::nat) 1 = Some c" by (simp add: NewLRUCache_def)
  then have "lr_capacity c = 1" by (auto simp: NewLRUCache_def)
  with lru_put_keeps_most_recent [OF lru_repr_new [OF c], of 7 70] c show ?thesis by simp
qed

text \<open>
  any sequence of \<open>Put\<close> and \<open>Get\<close>, one at a time, on a new cache never panics and never leaves more
  entries than the capacity.
\<close>

theorem lru_run_bounded:
  assumes "NewLRUCache zk zt capacity = Some c"
  shows "\<exists>rs c'. cache_run lru_Put (\<lambda>k c. Some (lru_Get k c)) ops c = Some (rs, c') \<and> int (lru_Size c') \<le> capacity"
proof -
  have "lr_capacity c = capacity" using assms by (auto simp: NewLRUCache_def split: if_splits)
  moreover have "\<exists>xs. lru_repr c xs" using lru_repr_new [OF assms] by blast
  ultimately show ?thesis using lru_cache.run_bounded by metis
qed

theorem lru_run_bounded_witness:
  "\<exists>c rs c'. NewLRUCache (0::nat) (0::nat) 2 = Some c \<and>
     cache_run lru_Put (\<lambda>k c. Some (lru_Get k c)) [CPut 1 10, CPut 2 20, CGet 1, CPut 3 30] c = Some (rs, c') \<and>
     int (lru_Size c') \<le> 2"
proof -
  obtain c where c: "NewLRUCache (0::nat) (0::nat) 2 = Some c" by (simp add: NewLRUCache_def)
  with lru_run_bounded [OF c] show ?thesis by blast
qed

text \<open>
  the capacity bound is lost when a \<open>Get\<close> is preempted between its two critical sections. With
  capacity 1: a goroutine looks key 1 up; \<open>Put(2)\<close> evicts it; the first goroutine moves the evicted
  node to the head; after \<open>Put(3)\<close> and \<open>Put(4)\<close> the cache holds two entries.
\<close>

definition lru_race :: "(nat, nat) lru option" where
  "lru_race = do {
     c0 \<leftarrow> NewLRUCache 0 0 1;
     c1 \<leftarrow> lru_Put 1 10 c0;
     n \<leftarrow> lru_Get_lookup 1 c1;
     c2 \<leftarrow> lru_Put 2 20 c1;
     c3 \<leftarrow> Some (snd (lru_Get_touch n c2));
     c4 \<leftarrow> lru_Put 3 30 c3;
     lru_Put 4 40 c4
   }"

lemmas lru_eval = NewLRUCache_def lru_Put_def lru_Get_lookup_def lru_Get_touch_def lru_moveToHead_def
  lru_removeTail_def lru_new_node_def lru_Size_def gm_defs

theorem lru_get_race_exceeds_capacity:
  "\<exists>c. lru_race = Some c \<and> int (lru_Size c) > lr_capacity c"
  by (simp add: lru_race_def lru_eval)

end
