(* ===== verification/LFU_Cache.thy ===== *)
theory LFU_Cache
  imports Linked_Hash_Map Cache_Interface
begin

text \<open>
  \<^verbatim>\<open>pkg/cache/lfu.go\<close>: a least-frequently-used cache. Every use count has a bucket, a
  \<open>LinkedHashMap\<close> of the keys used that many times. A bucket is reached through \<open>freqMap\<close> only, so
  the model stores it by value; calling a method on a missing bucket (a nil pointer) is a panic,
  the result \<open>None\<close>. Use counts are Go \<open>int\<close>s and are modelled as \<open>int\<close>.

  The cache refines an abstract one (\<open>lfu_spec\<close>) in which every key has a use count and the time of
  its last use: the victim is the key with the least count and, among those, the oldest use.
  The proof uses the buckets through the interface \<open>ordered_map\<close> only.
\<close>

section \<open>Model\<close>

record ('k, 'v) lfu =
  lf_itemMap :: "('k, 'v) gomap"
  lf_freq :: "('k, int) gomap"
  lf_freqMap :: "(int, ('k, unit) lhm) gomap"
  lf_capacity :: int
  lf_minUsed :: int
  lf_zeroV :: 'v
  lf_zeroK :: 'k

definition NewLFUCache :: "'k \<Rightarrow> 'v \<Rightarrow> int \<Rightarrow> ('k, 'v) lfu" where
  "NewLFUCache zk zv capacity = \<lparr> lf_itemMap = [], lf_freq = [], lf_freqMap = [],
     lf_capacity = capacity, lf_minUsed = 0, lf_zeroV = zv, lf_zeroK = zk \<rparr>"

text \<open>The first half of \<open>increase\<close>: take the key out of its bucket.\<close>

definition lfu_leave :: "'k \<Rightarrow> int \<Rightarrow> ('k, 'v) lfu \<Rightarrow> ('k, 'v) lfu option" where
  "lfu_leave key useCnt c =
     (if useCnt \<noteq> 0 then
        case gm_get (lf_freqMap c) useCnt of
          None \<Rightarrow> None
        | Some b \<Rightarrow>
            let b' = lhm_Remove key b;
                c1 = c\<lparr> lf_freqMap := gm_put useCnt b' (lf_freqMap c) \<rparr>
            in if useCnt = lf_minUsed c1 \<and> lhm_Size b' = 0
               then Some (c1\<lparr> lf_freqMap := gm_del useCnt (lf_freqMap c1), lf_minUsed := useCnt + 1 \<rparr>)
               else Some c1
      else Some c)"

definition lfu_increase :: "'k \<Rightarrow> ('k, 'v) lfu \<Rightarrow> ('k, 'v) lfu option" where
  "lfu_increase key c =
     (let useCnt = (case gm_get (lf_freq c) key of None \<Rightarrow> 0 | Some n \<Rightarrow> n)
      in case lfu_leave key useCnt c of
           None \<Rightarrow> None
         | Some c1 \<Rightarrow>
             let c2 = (case gm_get (lf_freqMap c1) (useCnt + 1) of
                         None \<Rightarrow> c1\<lparr> lf_freqMap := gm_put (useCnt + 1) (NewLinkHashMap (lf_zeroK c1) ()) (lf_freqMap c1) \<rparr>
                       | Some _ \<Rightarrow> c1);
                 c3 = c2\<lparr> lf_freq := gm_put key (useCnt + 1) (lf_freq c2) \<rparr>
             in case gm_get (lf_freqMap c3) (useCnt + 1) of
                  None \<Rightarrow> None
                | Some b \<Rightarrow> Some (c3\<lparr> lf_freqMap :=
                    gm_put (useCnt + 1) (lhm_MoveToHead key (lhm_Put key () b)) (lf_freqMap c3) \<rparr>))"

text \<open>The eviction of \<open>Put\<close>.\<close>

definition lfu_evict :: "('k, 'v) lfu \<Rightarrow> ('k, 'v) lfu option" where
  "lfu_evict c =
     (case gm_get (lf_freqMap c) (lf_minUsed c) of
        None \<Rightarrow> None
      | Some b \<Rightarrow>
          let (deleteKey, b') = lhm_RemoveLast b in
          Some (c\<lparr> lf_freqMap := gm_put (lf_minUsed c) b' (lf_freqMap c),
                   lf_freq := gm_del deleteKey (lf_freq c),
                   lf_itemMap := gm_del deleteKey (lf_itemMap c) \<rparr>))"

definition lfu_Put :: "'k \<Rightarrow> 'v \<Rightarrow> ('k, 'v) lfu \<Rightarrow> ('k, 'v) lfu option" where
  "lfu_Put key value c =
     (case (case gm_get (lf_itemMap c) key of
              None \<Rightarrow> map_option (\<lambda>c1. c1\<lparr> lf_minUsed := 1 \<rparr>)
                        (if int (gm_len (lf_itemMap c)) = lf_capacity c then lfu_evict c else Some c)
            | Some _ \<Rightarrow> Some c) of
        None \<Rightarrow> None
      | Some c1 \<Rightarrow> lfu_increase key (c1\<lparr> lf_itemMap := gm_put key value (lf_itemMap c1) \<rparr>))"

definition lfu_Get :: "'k \<Rightarrow> ('k, 'v) lfu \<Rightarrow> (('v \<times> bool) \<times> ('k, 'v) lfu) option" where
  "lfu_Get key c =
     (case gm_get (lf_itemMap c) key of
        Some v \<Rightarrow> map_option (\<lambda>c1. ((v, True), c1)) (lfu_increase key c)
      | None \<Rightarrow> Some ((lf_zeroV c, False), c))"

section \<open>Specification\<close>

record ('k, 'v) lfu_spec =
  sp_val :: "'k \<rightharpoonup> 'v"
  sp_cnt :: "'k \<Rightarrow> int"
  sp_last :: "'k \<Rightarrow> nat"
  sp_clock :: nat

definition spec_touch :: "'k \<Rightarrow> ('k, 'v) lfu_spec \<Rightarrow> ('k, 'v) lfu_spec" where
  "spec_touch k s = s\<lparr> sp_cnt := (sp_cnt s)(k := sp_cnt s k + 1), sp_last := (sp_last s)(k := sp_clock s),
                       sp_clock := Suc (sp_clock s) \<rparr>"

definition spec_victim :: "('k, 'v) lfu_spec \<Rightarrow> 'k \<Rightarrow> bool" where
  "spec_victim s d \<longleftrightarrow> d \<in> dom (sp_val s) \<and>
     (\<forall>k \<in> dom (sp_val s). sp_cnt s d < sp_cnt s k \<or> sp_cnt s d = sp_cnt s k \<and> sp_last s d \<le> sp_last s k)"

definition spec_put :: "int \<Rightarrow> 'k \<Rightarrow> 'v \<Rightarrow> ('k, 'v) lfu_spec \<Rightarrow> ('k, 'v) lfu_spec \<Rightarrow> bool" where
  "spec_put cap k v s s' \<longleftrightarrow>
     (if k \<in> dom (sp_val s) \<or> int (card (dom (sp_val s))) \<noteq> cap
      then s' = spec_touch k (s\<lparr> sp_val := (sp_val s)(k \<mapsto> v) \<rparr>)
      else \<exists>d. spec_victim s d \<and>
             s' = spec_touch k (s\<lparr> sp_val := (sp_val s)(d := None, k \<mapsto> v), sp_cnt := (sp_cnt s)(d := 0) \<rparr>))"

section \<open>Invariant\<close>

abbreviation bucket_keys :: "('k, unit) lhm \<Rightarrow> 'k set" where
  "bucket_keys b \<equiv> fst ` set (lhm_items b)"

text \<open>Buckets and counts agree; within a bucket the most recent use comes first.\<close>

definition lfu_buckets :: "('k \<Rightarrow> nat) \<Rightarrow> ('k, 'v) lfu \<Rightarrow> bool" where
  "lfu_buckets tm c \<longleftrightarrow>
     gm_ok (lf_freq c) \<and> gm_ok (lf_freqMap c) \<and>
     (\<forall>k n. gm_get (lf_freq c) k = Some n \<longrightarrow> 1 \<le> n \<and> gm_get (lf_freqMap c) n \<noteq> None) \<and>
     (\<forall>n b. gm_get (lf_freqMap c) n = Some b \<longrightarrow>
        lhm_inv b \<and> bucket_keys b = {k. gm_get (lf_freq c) k = Some n} \<and>
        sorted_wrt (\<lambda>k k'. tm k' < tm k) (map fst (lhm_items b)))"

definition lfu_min_ok :: "('k, 'v) lfu \<Rightarrow> bool" where
  "lfu_min_ok c \<longleftrightarrow> (\<forall>k n. gm_get (lf_freq c) k = Some n \<longrightarrow> lf_minUsed c \<le> n) \<and>
     ((\<exists>k. gm_get (lf_freq c) k \<noteq> None) \<longrightarrow> (\<exists>k. gm_get (lf_freq c) k = Some (lf_minUsed c)))"

definition lfu_rel :: "('k, 'v) lfu \<Rightarrow> ('k, 'v) lfu_spec \<Rightarrow> bool" where
  "lfu_rel c s \<longleftrightarrow> lfu_buckets (sp_last s) c \<and> lfu_min_ok c \<and>
     gm_ok (lf_itemMap c) \<and> sp_val s = gm_get (lf_itemMap c) \<and>
     (\<forall>k. gm_get (lf_freq c) k = None \<longleftrightarrow> gm_get (lf_itemMap c) k = None) \<and>
     (\<forall>k. sp_cnt s k = (case gm_get (lf_freq c) k of None \<Rightarrow> 0 | Some n \<Rightarrow> n)) \<and>
     (\<forall>k n. gm_get (lf_freq c) k = Some n \<longrightarrow> sp_last s k < sp_clock s) \<and>
     1 \<le> lf_capacity c \<and> int (gm_len (lf_itemMap c)) \<le> lf_capacity c"

definition lfu_init_spec :: "('k, 'v) lfu_spec" where
  "lfu_init_spec = \<lparr> sp_val = Map.empty, sp_cnt = (\<lambda>_. 0), sp_last = (\<lambda>_. 0), sp_clock = 0 \<rparr>"

lemma lfu_rel_init: "1 \<le> capacity \<Longrightarrow> lfu_rel (NewLFUCache zk zv capacity) lfu_init_spec"
  by (auto simp: lfu_rel_def lfu_buckets_def lfu_min_ok_def NewLFUCache_def lfu_init_spec_def)

section \<open>Refinement\<close>

lemma sorted_wrt_delete:
  "sorted_wrt R (map fst xs) \<Longrightarrow> sorted_wrt R (map fst (AList.delete k xs))"
  by (induction xs) (auto simp: AList.delete_eq)

lemma sorted_wrt_fresh:
  assumes "sorted_wrt (\<lambda>k k'. (tm k' :: nat) < tm k) ks" and "key \<notin> set ks"
  shows "sorted_wrt (\<lambda>k k'. (tm(key := t)) k' < (tm(key := t)) k) ks"
  using assms by (induction ks) auto

lemma bucket_delete_keys: "fst ` set (AList.delete k xs) = fst ` set xs - {k}"
  by (auto simp: AList.delete_eq)

text \<open>
  What \<open>lfu_leave\<close> does: the key is out of every bucket, all other keys are where they were, and the
  least count is right for them.
\<close>

definition lfu_left :: "('k \<Rightarrow> nat) \<Rightarrow> 'k \<Rightarrow> int \<Rightarrow> ('k, 'v) lfu \<Rightarrow> ('k, 'v) lfu \<Rightarrow> bool" where
  "lfu_left tm key useCnt c c1 \<longleftrightarrow>
     lf_freq c1 = lf_freq c \<and> lf_itemMap c1 = lf_itemMap c \<and> lf_capacity c1 = lf_capacity c \<and>
     gm_ok (lf_freqMap c1) \<and>
     (\<forall>k n. k \<noteq> key \<longrightarrow> gm_get (lf_freq c) k = Some n \<longrightarrow> gm_get (lf_freqMap c1) n \<noteq> None) \<and>
     (\<forall>n b. gm_get (lf_freqMap c1) n = Some b \<longrightarrow>
        lhm_inv b \<and> bucket_keys b = {k. k \<noteq> key \<and> gm_get (lf_freq c) k = Some n} \<and>
        sorted_wrt (\<lambda>k k'. tm k' < tm k) (map fst (lhm_items b))) \<and>
     lf_minUsed c1 = (if useCnt = lf_minUsed c \<and> useCnt \<noteq> 0 \<and> {k. k \<noteq> key \<and> gm_get (lf_freq c) k = Some useCnt} = {}
                      then useCnt + 1 else lf_minUsed c)"

lemma lfu_leave_ok:
  assumes "lfu_buckets tm c"
    and "useCnt = (case gm_get (lf_freq c) key of None \<Rightarrow> 0 | Some n \<Rightarrow> n)"
  shows "\<exists>c1. lfu_leave key useCnt c = Some c1 \<and> lfu_left tm key useCnt c c1"
proof (cases "gm_get (lf_freq c) key")
  case None
  with assms show ?thesis by (auto simp: lfu_left_def lfu_leave_def lfu_buckets_def)
next
  case (Some n)
  with assms(1) obtain b where b: "gm_get (lf_freqMap c) n = Some b" and n: "n \<noteq> 0" "useCnt = n"
    using assms(2) by (fastforce simp: lfu_buckets_def)
  have inv: "lhm_inv b" and keys: "bucket_keys b = {k. gm_get (lf_freq c) k = Some n}"
    and srt: "sorted_wrt (\<lambda>k k'. tm k' < tm k) (map fst (lhm_items b))"
    using assms(1) b by (auto simp: lfu_buckets_def)
  let ?b = "lhm_Remove key b"
  have inv': "lhm_inv ?b" and items': "lhm_items ?b = AList.delete key (lhm_items b)"
    using lhmap.remove [OF inv] by auto
  have keys': "bucket_keys ?b = {k. k \<noteq> key \<and> gm_get (lf_freq c) k = Some n}"
    using keys by (auto simp: items' bucket_delete_keys)
  have size': "lhm_Size ?b = 0 \<longleftrightarrow> {k. k \<noteq> key \<and> gm_get (lf_freq c) k = Some n} = {}"
    using lhmap.size_of [OF inv'] keys' by (metis image_is_empty length_0_conv set_empty)
  have srt': "sorted_wrt (\<lambda>k k'. tm k' < tm k) (map fst (lhm_items ?b))"
    using sorted_wrt_delete [OF srt] by (simp add: items')
  have others: "bucket_keys b' = {k. k \<noteq> key \<and> gm_get (lf_freq c) k = Some n'}"
    if "gm_get (lf_freqMap c) n' = Some b'" "n' \<noteq> n" for n' b'
    using assms(1) that Some by (auto simp: lfu_buckets_def)
  show ?thesis
  proof (cases "useCnt = lf_minUsed c \<and> lhm_Size ?b = 0")
    case True
    then have "lfu_leave key useCnt c = Some (c\<lparr> lf_freqMap := gm_del n (gm_put n ?b (lf_freqMap c)), lf_minUsed := n + 1 \<rparr>)"
      using n b by (simp add: lfu_leave_def Let_def)
    with assms(1) True size' others n show ?thesis
      by (auto simp: lfu_left_def lfu_buckets_def)
  next
    case False
    then have "lfu_leave key useCnt c = Some (c\<lparr> lf_freqMap := gm_put n ?b (lf_freqMap c) \<rparr>)"
      using n b by (auto simp: lfu_leave_def Let_def)
    with assms(1) False size' keys' inv' srt' others n show ?thesis
      by (auto simp: lfu_left_def lfu_buckets_def)
  qed
qed

text \<open>The second half of \<open>increase\<close>: the key enters the bucket of the next count, in front.\<close>

lemma lfu_increase_alt:
  assumes "lfu_leave key useCnt c = Some c1"
    and "useCnt = (case gm_get (lf_freq c) key of None \<Rightarrow> 0 | Some n \<Rightarrow> n)"
    and "b = (case gm_get (lf_freqMap c1) (useCnt + 1) of None \<Rightarrow> NewLinkHashMap (lf_zeroK c1) () | Some b \<Rightarrow> b)"
  shows "\<exists>fm. lfu_increase key c = Some (c1\<lparr> lf_freq := gm_put key (useCnt + 1) (lf_freq c1), lf_freqMap := fm \<rparr>) \<and>
     (gm_ok (lf_freqMap c1) \<longrightarrow> gm_ok fm) \<and>
     (\<forall>n. gm_get fm n = (if n = useCnt + 1 then Some (lhm_MoveToHead key (lhm_Put key () b))
                         else gm_get (lf_freqMap c1) n))"
  using assms by (auto simp: lfu_increase_def Let_def split: option.split)

lemma lfu_enter_buckets:
  fixes c1 :: "('k, 'v) lfu"
  assumes bk: "lfu_buckets tm c" and left: "lfu_left tm key useCnt c c1"
    and pos: "0 \<le> useCnt" and clock: "\<And>k. gm_get (lf_freq c) k \<noteq> None \<Longrightarrow> tm k < t"
    and b: "b = (case gm_get (lf_freqMap c1) (useCnt + 1) of None \<Rightarrow> NewLinkHashMap (lf_zeroK c1) () | Some b \<Rightarrow> b)"
    and fm: "gm_ok fm" "\<And>n. gm_get fm n = (if n = useCnt + 1 then Some (lhm_MoveToHead key (lhm_Put key () b))
                         else gm_get (lf_freqMap c1) n)"
  shows "lfu_buckets (tm(key := t)) (c1\<lparr> lf_freq := gm_put key (useCnt + 1) (lf_freq c1), lf_freqMap := fm \<rparr>)"
    (is "lfu_buckets ?tm ?c")
proof -
  let ?rest = "\<lambda>n. {k. k \<noteq> key \<and> gm_get (lf_freq c) k = Some n}"
  let ?b = "lhm_MoveToHead key (lhm_Put key () b)"
  have bks: "lhm_inv b' \<and> bucket_keys b' = ?rest n \<and> sorted_wrt (\<lambda>k k'. tm k' < tm k) (map fst (lhm_items b'))"
    if "gm_get (lf_freqMap c1) n = Some b'" for n b' using left that by (simp add: lfu_left_def)
  have has: "gm_get (lf_freqMap c1) n \<noteq> None" if "k \<noteq> key" "gm_get (lf_freq c) k = Some n" for k n
    using left that by (simp add: lfu_left_def)
  have same: "lf_freq c1 = lf_freq c" using left by (simp add: lfu_left_def)
  have b': "lhm_inv b \<and> bucket_keys b = ?rest (useCnt + 1) \<and> sorted_wrt (\<lambda>k k'. tm k' < tm k) (map fst (lhm_items b))"
  proof (cases "gm_get (lf_freqMap c1) (useCnt + 1)")
    case None
    then have "?rest (useCnt + 1) = {}" using has by blast
    with None lhmap.empty [of "lf_zeroK c1" "()"] show ?thesis by (simp add: b)
  next
    case (Some b'')
    with bks show ?thesis by (simp add: b)
  qed
  have items: "lhm_items ?b = (key, ()) # lhm_items b"
    using b' by (intro lhmap.touch) (auto simp: lhmap.keys_def)
  have inv: "lhm_inv ?b" using b' lhmap.put lhmap.move_to_head by metis
  have srt: "sorted_wrt (\<lambda>k k'. ?tm k' < ?tm k) (map fst (lhm_items b''))"
    if "sorted_wrt (\<lambda>k k'. tm k' < tm k) (map fst (lhm_items b''))" "key \<notin> bucket_keys b''" for b'' :: "('k, unit) lhm"
    using sorted_wrt_fresh [OF that(1)] that(2) by simp
  have new: "lhm_inv ?b \<and> bucket_keys ?b = {k. gm_get (lf_freq ?c) k = Some (useCnt + 1)} \<and>
      sorted_wrt (\<lambda>k k'. ?tm k' < ?tm k) (map fst (lhm_items ?b))"
    using b' items inv srt [of b] clock by (auto simp: same)
  have old: "lhm_inv b'' \<and> bucket_keys b'' = {k. gm_get (lf_freq ?c) k = Some n} \<and>
      sorted_wrt (\<lambda>k k'. ?tm k' < ?tm k) (map fst (lhm_items b''))"
    if "gm_get (lf_freqMap c1) n = Some b''" "n \<noteq> useCnt + 1" for n b''
    using bks [OF that(1)] that(2) srt [of b''] by (auto simp: same)
  show ?thesis
    unfolding lfu_buckets_def using bk fm has pos same old new
    by (auto simp: lfu_buckets_def split: if_splits)
qed

lemma lfu_enter_min:
  assumes bk: "lfu_buckets tm c" and left: "lfu_left tm key useCnt c c1"
    and least: "\<And>k n. gm_get (lf_freq c) k = Some n \<Longrightarrow> lf_minUsed c \<le> n"
    and new: "gm_get (lf_freq c) key = None \<Longrightarrow> lf_minUsed c = 1"
    and old: "gm_get (lf_freq c) key \<noteq> None \<Longrightarrow> \<exists>k. gm_get (lf_freq c) k = Some (lf_minUsed c)"
    and use: "useCnt = (case gm_get (lf_freq c) key of None \<Rightarrow> 0 | Some n \<Rightarrow> n)"
  shows "lfu_min_ok (c1\<lparr> lf_freq := gm_put key (useCnt + 1) (lf_freq c1), lf_freqMap := fm \<rparr>)"
    (is "lfu_min_ok ?c")
proof (cases "useCnt = lf_minUsed c \<and> useCnt \<noteq> 0 \<and> {k. k \<noteq> key \<and> gm_get (lf_freq c) k = Some useCnt} = {}")
  case True
  then have "useCnt + 1 \<le> n" if "k \<noteq> key" "gm_get (lf_freq c) k = Some n" for k n
    using least [OF that(2)] that by force
  with True left show ?thesis by (auto simp: lfu_min_ok_def lfu_left_def intro: exI [of _ key])
next
  case False
  have m: "lf_minUsed c1 = lf_minUsed c" "lf_freq c1 = lf_freq c"
    using left unfolding lfu_left_def if_not_P [OF False] by auto
  have pos: "0 \<le> useCnt" using bk use by (fastforce simp: lfu_buckets_def split: option.splits)
  have le: "lf_minUsed c \<le> useCnt + 1"
    using new least use pos by (cases "gm_get (lf_freq c) key") fastforce+
  have "\<exists>k. gm_get (lf_freq ?c) k = Some (lf_minUsed c)"
  proof (cases "gm_get (lf_freq c) key")
    case None
    with new use show ?thesis by (intro exI [of _ key]) simp
  next
    case (Some u)
    with old obtain k where k: "gm_get (lf_freq c) k = Some (lf_minUsed c)" by auto
    have "\<exists>k'. k' \<noteq> key \<and> gm_get (lf_freq c) k' = Some (lf_minUsed c)" if "k = key"
    proof -
      have "useCnt = lf_minUsed c" "useCnt \<noteq> 0"
        using that k Some use bk by (fastforce simp: lfu_buckets_def)+
      with False show ?thesis by auto
    qed
    with k show ?thesis by (cases "k = key") (auto simp: m)
  qed
  with m le least show ?thesis by (auto simp: lfu_min_ok_def)
qed

lemma lfu_increase_ok:
  assumes bk: "lfu_buckets tm c"
    and least: "\<And>k n. gm_get (lf_freq c) k = Some n \<Longrightarrow> lf_minUsed c \<le> n"
    and new: "gm_get (lf_freq c) key = None \<Longrightarrow> lf_minUsed c = 1"
    and old: "gm_get (lf_freq c) key \<noteq> None \<Longrightarrow> \<exists>k. gm_get (lf_freq c) k = Some (lf_minUsed c)"
    and clock: "\<And>k. gm_get (lf_freq c) k \<noteq> None \<Longrightarrow> tm k < t"
    and use: "useCnt = (case gm_get (lf_freq c) key of None \<Rightarrow> 0 | Some n \<Rightarrow> n)"
  shows "\<exists>c'. lfu_increase key c = Some c' \<and> lf_itemMap c' = lf_itemMap c \<and> lf_capacity c' = lf_capacity c \<and>
     (\<forall>k. gm_get (lf_freq c') k = (if k = key then Some (useCnt + 1) else gm_get (lf_freq c) k)) \<and>
     lfu_buckets (tm(key := t)) c' \<and> lfu_min_ok c'"
proof -
  obtain c1 where leave: "lfu_leave key useCnt c = Some c1" and left: "lfu_left tm key useCnt c c1"
    using lfu_leave_ok [OF bk use] by blast
  have pos: "0 \<le> useCnt" using bk use by (fastforce simp: lfu_buckets_def split: option.splits)
  obtain fm where inc: "lfu_increase key c = Some (c1\<lparr> lf_freq := gm_put key (useCnt + 1) (lf_freq c1), lf_freqMap := fm \<rparr>)"
    and "lfu_buckets (tm(key := t)) (c1\<lparr> lf_freq := gm_put key (useCnt + 1) (lf_freq c1), lf_freqMap := fm \<rparr>)"
    using lfu_increase_alt [OF leave use refl] lfu_enter_buckets [OF bk left pos clock refl] left
    by (auto simp: lfu_left_def)
  with lfu_enter_min [OF bk left least new old use] left show ?thesis
    by (auto simp: lfu_left_def)
qed

lemma lfu_rel_freq: "lfu_rel c s \<Longrightarrow> gm_get (lf_freq c) k = None \<longleftrightarrow> gm_get (lf_itemMap c) k = None"
  by (simp add: lfu_rel_def)

lemma lfu_rel_clock: "lfu_rel c s \<Longrightarrow> gm_get (lf_freq c) k \<noteq> None \<Longrightarrow> sp_last s k < sp_clock s"
  unfolding lfu_rel_def by blast

lemma lfu_rel_item: "lfu_rel c s \<Longrightarrow> gm_get (lf_itemMap c) k = Some v \<Longrightarrow> \<exists>n. gm_get (lf_freq c) k = Some n"
  by (metis lfu_rel_freq not_None_eq)

lemma lfu_rel_clock' [dest]: "lfu_rel c s \<Longrightarrow> gm_get (lf_freq c) k = Some n \<Longrightarrow> sp_last s k < sp_clock s"
  by (simp add: lfu_rel_clock)

text \<open>Eviction removes the last key of the least-used bucket, which is the specification's victim.\<close>

lemma lfu_evict_ok:
  assumes rel: "lfu_rel c s" and ne: "gm_len (lf_itemMap c) \<noteq> 0"
  shows "\<exists>c1 d. lfu_evict c = Some c1 \<and> spec_victim s d \<and> lfu_buckets (sp_last s) c1 \<and>
     (\<forall>k. gm_get (lf_freq c1) k = (if k = d then None else gm_get (lf_freq c) k)) \<and>
     lf_itemMap c1 = gm_del d (lf_itemMap c) \<and> lf_capacity c1 = lf_capacity c"
proof -
  let ?m = "lf_minUsed c"
  have bk: "lfu_buckets (sp_last s) c" and mo: "lfu_min_ok c" using rel by (auto simp: lfu_rel_def)
  obtain k0 where "gm_get (lf_itemMap c) k0 \<noteq> None" using ne by (auto simp: gm_len_eq_0)
  then have "gm_get (lf_freq c) k0 \<noteq> None" using rel by (auto simp: lfu_rel_def)
  then obtain k1 where k1: "gm_get (lf_freq c) k1 = Some ?m" using mo unfolding lfu_min_ok_def by blast
  then obtain b where b: "gm_get (lf_freqMap c) ?m = Some b" using bk by (fastforce simp: lfu_buckets_def)
  have inv: "lhm_inv b" and keys: "bucket_keys b = {k. gm_get (lf_freq c) k = Some ?m}"
    and srt: "sorted_wrt (\<lambda>k k'. sp_last s k' < sp_last s k) (map fst (lhm_items b))"
    using bk b by (auto simp: lfu_buckets_def)
  have "lhmap.keys b \<noteq> {}" using keys k1 by (auto simp: lhmap.keys_def)
  then obtain d b' where rl: "lhm_RemoveLast b = (d, b')" and d: "d \<in> bucket_keys b" and inv': "lhm_inv b'"
    and keys': "bucket_keys b' = bucket_keys b - {d}" and dl: "d = fst (last (lhm_items b))"
    and it: "lhm_items b' = butlast (lhm_items b)"
    using lhmap.remove_last_keys [OF inv] by (auto simp: lhmap.keys_def)
  let ?c = "c\<lparr> lf_freqMap := gm_put ?m b' (lf_freqMap c), lf_freq := gm_del d (lf_freq c), lf_itemMap := gm_del d (lf_itemMap c) \<rparr>"
  have ev: "lfu_evict c = Some ?c" by (simp add: lfu_evict_def b rl)
  have fd: "gm_get (lf_freq c) d = Some ?m" using d keys by auto
  have oldest: "sp_last s d \<le> sp_last s k" if "gm_get (lf_freq c) k = Some ?m" for k
  proof -
    have "k \<in> set (map fst (lhm_items b))" using that keys by auto
    moreover have "lhm_items b \<noteq> []" using d by auto
    ultimately show ?thesis
      using srt dl by (cases "lhm_items b" rule: rev_cases) (auto simp: sorted_wrt_append)
  qed
  have "spec_victim s d"
    unfolding spec_victim_def
  proof (intro conjI ballI)
    show "d \<in> dom (sp_val s)" using rel fd lfu_rel_freq [OF rel, of d] by (simp add: lfu_rel_def domIff)
  next
    fix k assume "k \<in> dom (sp_val s)"
    then obtain n where n: "gm_get (lf_freq c) k = Some n"
      using lfu_rel_item [OF rel, of k] rel by (auto simp: lfu_rel_def)
    then have "?m \<le> n" using mo by (auto simp: lfu_min_ok_def)
    with n fd oldest [of k] rel show "sp_cnt s d < sp_cnt s k \<or> sp_cnt s d = sp_cnt s k \<and> sp_last s d \<le> sp_last s k"
      by (cases "n = ?m") (auto simp: lfu_rel_def)
  qed
  moreover have "sorted_wrt (\<lambda>k k'. sp_last s k' < sp_last s k) (map fst (lhm_items b'))"
    using srt it by (cases "lhm_items b" rule: rev_cases) (auto simp: sorted_wrt_append)
  then have "lfu_buckets (sp_last s) ?c"
    using bk inv' keys keys' fd by (auto simp: lfu_buckets_def)
  ultimately show ?thesis using ev by auto
qed

text \<open>A use of a key that is in the cache, or has just been stored, restores the relation.\<close>

lemma lfu_touch_rel:
  assumes bk: "lfu_buckets (sp_last s) c"
    and least: "\<And>k n. gm_get (lf_freq c) k = Some n \<Longrightarrow> lf_minUsed c \<le> n"
    and new: "gm_get (lf_freq c) key = None \<Longrightarrow> lf_minUsed c = 1"
    and old: "gm_get (lf_freq c) key \<noteq> None \<Longrightarrow> \<exists>k. gm_get (lf_freq c) k = Some (lf_minUsed c)"
    and maps: "gm_ok (lf_itemMap c)" "sp_val s = gm_get (lf_itemMap c)"
      "\<And>k. k \<noteq> key \<Longrightarrow> gm_get (lf_freq c) k = None \<longleftrightarrow> gm_get (lf_itemMap c) k = None"
      "gm_get (lf_itemMap c) key \<noteq> None"
    and cnt: "\<And>k. sp_cnt s k = (case gm_get (lf_freq c) k of None \<Rightarrow> 0 | Some n \<Rightarrow> n)"
    and clock: "\<And>k. gm_get (lf_freq c) k \<noteq> None \<Longrightarrow> sp_last s k < sp_clock s"
    and cap: "1 \<le> lf_capacity c" "int (gm_len (lf_itemMap c)) \<le> lf_capacity c"
  shows "\<exists>c'. lfu_increase key c = Some c' \<and> lfu_rel c' (spec_touch key s) \<and> lf_capacity c' = lf_capacity c"
proof -
  obtain c' where c': "lfu_increase key c = Some c'" "lf_itemMap c' = lf_itemMap c" "lf_capacity c' = lf_capacity c"
    "\<And>k. gm_get (lf_freq c') k = (if k = key then Some (sp_cnt s key + 1) else gm_get (lf_freq c) k)"
    "lfu_buckets ((sp_last s)(key := sp_clock s)) c'" "lfu_min_ok c'"
    using lfu_increase_ok [OF bk _ _ _ _ cnt, of key "sp_clock s"] least new old clock by blast
  moreover have "sp_last s k < Suc (sp_clock s)" if "gm_get (lf_freq c) k = Some n" for k n
    using that clock by (simp add: less_SucI)
  ultimately have "lfu_rel c' (spec_touch key s)"
    using maps cnt cap by (auto simp: lfu_rel_def spec_touch_def)
  with c' show ?thesis by blast
qed

lemma lfu_rel_card: "lfu_rel c s \<Longrightarrow> card (dom (sp_val s)) = gm_len (lf_itemMap c)"
  by (simp add: lfu_rel_def dom_def gm_len_card)

lemma lfu_Get_refines:
  assumes "lfu_rel c s"
  shows "case sp_val s key of
           None \<Rightarrow> lfu_Get key c = Some ((lf_zeroV c, False), c)
         | Some v \<Rightarrow> \<exists>c'. lfu_Get key c = Some ((v, True), c') \<and> lfu_rel c' (spec_touch key s) \<and> lf_capacity c' = lf_capacity c"
proof (cases "sp_val s key")
  case None
  with assms show ?thesis by (simp add: lfu_Get_def lfu_rel_def)
next
  case (Some v)
  have get: "gm_get (lf_itemMap c) key = Some v" using assms Some by (simp add: lfu_rel_def)
  have "\<exists>c'. lfu_increase key c = Some c' \<and> lfu_rel c' (spec_touch key s) \<and> lf_capacity c' = lf_capacity c"
    by (rule lfu_touch_rel) (use assms get in \<open>auto simp: lfu_rel_def lfu_min_ok_def\<close>)
  with get Some show ?thesis by (auto simp: lfu_Get_def)
qed

lemma lfu_Put_refines:
  assumes rel: "lfu_rel c s"
  shows "\<exists>c' s'. lfu_Put key v c = Some c' \<and> spec_put (lf_capacity c) key v s s' \<and> lfu_rel c' s' \<and>
                 lf_capacity c' = lf_capacity c"
proof (cases "gm_get (lf_itemMap c) key")
  case (Some w)
  let ?c = "c\<lparr> lf_itemMap := gm_put key v (lf_itemMap c) \<rparr>" and ?s = "s\<lparr> sp_val := (sp_val s)(key \<mapsto> v) \<rparr>"
  have "\<exists>c'. lfu_increase key ?c = Some c' \<and> lfu_rel c' (spec_touch key ?s) \<and> lf_capacity c' = lf_capacity ?c"
    by (rule lfu_touch_rel)
       (use rel Some in \<open>auto simp: lfu_rel_def lfu_min_ok_def lfu_buckets_def gm_len_put\<close>)
  with Some rel show ?thesis by (auto simp: lfu_Put_def spec_put_def lfu_rel_def domIff)
next
  case None
  then have fnone: "gm_get (lf_freq c) key = None" using rel by (simp add: lfu_rel_def)
  show ?thesis
  proof (cases "int (gm_len (lf_itemMap c)) = lf_capacity c")
    case False
    let ?c = "c\<lparr> lf_minUsed := 1, lf_itemMap := gm_put key v (lf_itemMap c) \<rparr>" and ?s = "s\<lparr> sp_val := (sp_val s)(key \<mapsto> v) \<rparr>"
    have "\<exists>c'. lfu_increase key ?c = Some c' \<and> lfu_rel c' (spec_touch key ?s) \<and> lf_capacity c' = lf_capacity ?c"
      by (rule lfu_touch_rel)
         (use rel None fnone False in \<open>auto simp: lfu_rel_def lfu_min_ok_def lfu_buckets_def gm_len_put\<close>)
    with None False lfu_rel_card [OF rel] show ?thesis by (auto simp: lfu_Put_def spec_put_def)
  next
    case True
    with rel have "gm_len (lf_itemMap c) \<noteq> 0" by (auto simp: lfu_rel_def)
    from lfu_evict_ok [OF rel this] obtain c1 d where ev: "lfu_evict c = Some c1" and vic: "spec_victim s d"
      and bk: "lfu_buckets (sp_last s) c1"
      and fr: "\<And>k. gm_get (lf_freq c1) k = (if k = d then None else gm_get (lf_freq c) k)"
      and im: "lf_itemMap c1 = gm_del d (lf_itemMap c)" and cap: "lf_capacity c1 = lf_capacity c"
      by blast
    have ind: "gm_get (lf_itemMap c) d \<noteq> None" using vic rel by (auto simp: spec_victim_def lfu_rel_def domIff)
    let ?c = "c1\<lparr> lf_minUsed := 1, lf_itemMap := gm_put key v (lf_itemMap c1) \<rparr>"
    let ?s = "s\<lparr> sp_val := (sp_val s)(d := None, key \<mapsto> v), sp_cnt := (sp_cnt s)(d := 0) \<rparr>"
    have len: "int (gm_len (gm_put key v (gm_del d (lf_itemMap c)))) \<le> lf_capacity c"
      using rel None ind True by (auto simp: lfu_rel_def gm_len_put gm_len_del)
    have "\<exists>c'. lfu_increase key ?c = Some c' \<and> lfu_rel c' (spec_touch key ?s) \<and> lf_capacity c' = lf_capacity ?c"
    proof (rule lfu_touch_rel)
      show "\<exists>k. gm_get (lf_freq ?c) k = Some (lf_minUsed ?c)" if "gm_get (lf_freq ?c) key \<noteq> None"
        using that fr [of key] fnone by (simp split: if_splits)
    qed (use rel bk fr im cap len ind in
          \<open>auto simp: lfu_rel_def lfu_buckets_def fun_eq_iff split: if_splits\<close>)
    with ev cap None True vic lfu_rel_card [OF rel] rel show ?thesis
      by (auto simp: lfu_Put_def spec_put_def lfu_rel_def domIff)
  qed
qed

lemma spec_touch_val: "sp_val (spec_touch k s) = sp_val s"
  by (simp add: spec_touch_def)

lemma lfu_Put_value:
  assumes "lfu_rel c s" and "lfu_Put key v c = Some c1"
  shows "\<exists>s1. lfu_rel c1 s1 \<and> sp_val s1 key = Some v"
proof -
  obtain s1 where "lfu_rel c1 s1" and sp: "spec_put (lf_capacity c) key v s s1"
    using lfu_Put_refines [OF assms(1), of key v] assms(2) by auto
  moreover from sp have "sp_val s1 key = Some v"
    unfolding spec_put_def by (auto simp: spec_touch_val split: if_split_asm)
  ultimately show ?thesis by blast
qed

definition lfu_Len :: "('k, 'v) lfu \<Rightarrow> nat" where
  "lfu_Len c = gm_len (lf_itemMap c)"

interpretation lfu_cache: bounded_cache lfu_Put lfu_Get lfu_Len lf_capacity "\<lambda>c. \<exists>s. lfu_rel c s"
proof unfold_locales
  fix c :: "('k, 'v) lfu" and k v assume "\<exists>s. lfu_rel c s"
  then obtain s where s: "lfu_rel c s" ..
  show "\<exists>c'. lfu_Put k v c = Some c' \<and> (\<exists>s. lfu_rel c' s) \<and> lf_capacity c' = lf_capacity c"
    using lfu_Put_refines [OF s] by blast
  show "\<exists>r c'. lfu_Get k c = Some (r, c') \<and> (\<exists>s. lfu_rel c' s) \<and> lf_capacity c' = lf_capacity c"
  proof (cases "sp_val s k")
    case None
    with lfu_Get_refines [OF s, of k] s show ?thesis by auto
  next
    case (Some w)
    with lfu_Get_refines [OF s, of k] show ?thesis by auto
  qed
  show "int (lfu_Len c) \<le> lf_capacity c" using s by (simp add: lfu_rel_def lfu_Len_def)
next
  fix c c1 :: "('k, 'v) lfu" and k v assume "\<exists>s. lfu_rel c s" and "lfu_Put k v c = Some c1"
  then obtain s where s: "lfu_rel c s" and put: "lfu_Put k v c = Some c1" by auto
  obtain s1 where s1: "lfu_rel c1 s1" "sp_val s1 k = Some v" using lfu_Put_value [OF s put] by auto
  show "\<exists>c2. lfu_Get k c1 = Some ((v, True), c2)"
    using lfu_Get_refines [OF s1(1), of k] unfolding s1(2) option.case by blast
qed

section \<open>Properties\<close>

text \<open>
  C27: \<open>Put\<close> refines the abstract cache: it does not panic, and when a new key meets a full cache the key
  it drops has the least use count and, among those, the oldest last use; every other entry and
  count stays, and the stored key is used once more.
\<close>

theorem lfu_put_evicts_least_used:
  assumes "lfu_rel c s"
  shows "\<exists>c' s'. lfu_Put key v c = Some c' \<and> spec_put (lf_capacity c) key v s s' \<and> lfu_rel c' s'"
  using lfu_Put_refines [OF assms] by blast

theorem lfu_put_evicts_least_used_witness:
  "\<exists>c' s'. lfu_Put (3::nat) (30::nat) (NewLFUCache 0 0 2) = Some c' \<and> spec_put 2 3 30 lfu_init_spec s' \<and> lfu_rel c' s'"
  using lfu_put_evicts_least_used [OF lfu_rel_init [of 2 0 0], of 3 30] by (simp add: NewLFUCache_def)

text \<open>
  after any sequence of \<open>Put\<close> and \<open>Get\<close> on a new cache of positive capacity nothing has panicked, the
  number of entries is within the capacity, and an entry stored next is found by \<open>Get\<close>.
\<close>

theorem lfu_run_bounded:
  assumes "1 \<le> capacity"
  shows "(\<exists>rs c'. cache_run lfu_Put lfu_Get ops (NewLFUCache zk zv capacity) = Some (rs, c') \<and> int (lfu_Len c') \<le> capacity) \<and>
    (\<exists>rs c'. cache_run lfu_Put lfu_Get (ops @ [CPut k v, CGet k]) (NewLFUCache zk zv capacity) = Some (rs @ [(v, True)], c'))"
proof -
  have ok: "\<exists>s. lfu_rel (NewLFUCache zk zv capacity) s" by (rule exI) (rule lfu_rel_init [OF assms])
  have "lf_capacity (NewLFUCache zk zv capacity) = capacity" by (simp add: NewLFUCache_def)
  with lfu_cache.run_bounded [OF ok, of ops] lfu_cache.run_put_get [OF ok, of ops k v] show ?thesis by simp
qed

theorem lfu_run_bounded_witness:
  "(\<exists>rs c'. cache_run lfu_Put lfu_Get [CPut 1 10, CGet 1, CPut 2 20] (NewLFUCache (0::nat) (0::nat) 1) = Some (rs, c') \<and>
     int (lfu_Len c') \<le> 1) \<and>
   (\<exists>rs c'. cache_run lfu_Put lfu_Get ([CPut 1 10, CGet 1, CPut 2 20] @ [CPut 3 30, CGet 3]) (NewLFUCache (0::nat) (0::nat) 1) =
     Some (rs @ [(30, True)], c'))"
  using lfu_run_bounded [of 1 "[CPut 1 10, CGet 1, CPut 2 20]" "0::nat" "0::nat" 3 30] by simp

text \<open>
  the constructor accepts a capacity of 0, and then the first \<open>Put\<close> panics: the cache is "full" when
  it is empty and the bucket of \<open>minUsed\<close> is nil.
\<close>

theorem lfu_zero_capacity_panics: "lfu_Put key v (NewLFUCache zk zv 0) = None"
  by (simp add: lfu_Put_def lfu_evict_def NewLFUCache_def)

end
