(* ===== verification/Priority_Queue.thy ===== *)
theory Priority_Queue
  imports Prelude "HOL-Library.Multiset" "HOL-Library.Char_ord" "HOL-Library.List_Lexorder"
begin

text \<open>
  \<^verbatim>\<open>pkg/basic/object_priority_queue.go\<close>: a binary heap in a slice, ordered by the \<open>String()\<close> of its
  elements (byte-wise lexicographic, the order of \<open>string\<close> here). The method \<open>String\<close> of the element
  type is the argument \<open>str\<close>. \<open>pq_cap\<close> is the capacity of the slice; what \<open>append\<close> makes of it when it
  reallocates is Go's business, the argument \<open>grow\<close>.

  Every index the code reads is below \<open>size\<close>, which is the length of the slice (\<open>pq_wf\<close>), so the reads
  are in range. The heap order is \<open>pq_heap\<close>; the interface for clients is the locale
  \<open>priority_queue\<close>, interpreted as \<open>pq\<close>.
\<close>

section \<open>Model\<close>

datatype basic_error = ErrOfNilElement

record 'a pqueue =
  pq_arr :: "'a list"
  pq_cap :: nat
  pq_zero :: 'a
  pq_size :: nat
  pq_Max :: bool

definition pq_new :: "'a \<Rightarrow> bool \<Rightarrow> 'a pqueue" where
  "pq_new zero mx = \<lparr> pq_arr = [], pq_cap = 0, pq_zero = zero, pq_size = 0, pq_Max = mx \<rparr>"

definition pq_compare :: "('a \<Rightarrow> string) \<Rightarrow> bool \<Rightarrow> 'a list \<Rightarrow> nat \<Rightarrow> nat \<Rightarrow> bool" where
  "pq_compare str mx arr i j = (if mx then str (arr ! i) < str (arr ! j) else str (arr ! i) > str (arr ! j))"

definition pq_swap :: "'a list \<Rightarrow> nat \<Rightarrow> nat \<Rightarrow> 'a list" where
  "pq_swap arr i j = (let tmp = arr ! i; arr1 = arr[i := arr ! j] in arr1[j := tmp])"

fun pq_up :: "('a \<Rightarrow> string) \<Rightarrow> bool \<Rightarrow> nat \<Rightarrow> 'a list \<Rightarrow> 'a list" where
  "pq_up str mx i arr =
     (if i > 0 then
        let parent = (i - 1) div 2 in
        if pq_compare str mx arr parent i then pq_up str mx parent (pq_swap arr parent i) else arr
      else arr)"

text \<open>The child with which \<open>down\<close> swaps, or \<open>i\<close> itself.\<close>

definition pq_down_target :: "('a \<Rightarrow> string) \<Rightarrow> bool \<Rightarrow> nat \<Rightarrow> nat \<Rightarrow> 'a list \<Rightarrow> nat" where
  "pq_down_target str mx n i arr =
     (let t = i;
          t = (if i * 2 + 1 < n \<and> pq_compare str mx arr t (i * 2 + 1) then i * 2 + 1 else t);
          t = (if i * 2 + 2 < n \<and> pq_compare str mx arr t (i * 2 + 2) then i * 2 + 2 else t)
      in t)"

function pq_down :: "('a \<Rightarrow> string) \<Rightarrow> bool \<Rightarrow> nat \<Rightarrow> nat \<Rightarrow> 'a list \<Rightarrow> 'a list" where
  "pq_down str mx n i arr =
     (let t = pq_down_target str mx n i arr
      in if t \<noteq> i then pq_down str mx n t (pq_swap arr i t) else arr)"
  by pat_completeness auto
termination
  by (relation "measure (\<lambda>(str, mx, n, i, arr). n - i)")
     (auto simp: pq_down_target_def Let_def split: if_splits)

declare pq_up.simps [simp del] pq_down.simps [simp del]

definition pq_Offer :: "('a \<Rightarrow> string) \<Rightarrow> (nat \<Rightarrow> nat) \<Rightarrow> 'a \<Rightarrow> 'a pqueue \<Rightarrow> 'a pqueue" where
  "pq_Offer str grow e h =
     (let h1 = (if pq_size h < pq_cap h
                then h\<lparr> pq_arr := take (pq_size h) (pq_arr h) @ [e] \<rparr>
                else h\<lparr> pq_arr := pq_arr h @ [e],
                        pq_cap := (if length (pq_arr h) < pq_cap h then pq_cap h else grow (pq_cap h)) \<rparr>);
          h2 = h1\<lparr> pq_size := pq_size h1 + 1 \<rparr>
      in h2\<lparr> pq_arr := pq_up str (pq_Max h2) (pq_size h2 - 1) (pq_arr h2) \<rparr>)"

definition pq_Poll :: "('a \<Rightarrow> string) \<Rightarrow> 'a pqueue \<Rightarrow> ('a \<times> basic_error option) \<times> 'a pqueue" where
  "pq_Poll str h =
     (if pq_size h > 0 then
        let res = pq_arr h ! 0;
            h1 = h\<lparr> pq_size := pq_size h - 1 \<rparr>;
            h2 = (if pq_size h1 > 0
                  then h1\<lparr> pq_arr := pq_down str (pq_Max h1) (pq_size h1) 0 ((pq_arr h1)[0 := pq_arr h1 ! pq_size h1]) \<rparr>
                  else h1);
            h3 = h2\<lparr> pq_arr := take (pq_size h2) (pq_arr h2) \<rparr>;
            half = pq_cap h3 div 2;
            h4 = (if pq_size h3 < half \<and> pq_cap h3 > 512 then h3\<lparr> pq_cap := half \<rparr> else h3)
        in ((res, None), h4)
      else ((pq_zero h, Some ErrOfNilElement), h))"

definition pq_Peek :: "'a pqueue \<Rightarrow> 'a \<times> basic_error option" where
  "pq_Peek h = (if pq_size h > 0 then (pq_arr h ! 0, None) else (pq_zero h, Some ErrOfNilElement))"

definition pq_Size :: "'a pqueue \<Rightarrow> nat" where
  "pq_Size h = pq_size h"

fun pq_indexOf_loop :: "('a \<Rightarrow> string) \<Rightarrow> 'a \<Rightarrow> 'a list \<Rightarrow> nat \<Rightarrow> int" where
  "pq_indexOf_loop str e [] i = -1"
| "pq_indexOf_loop str e (x # xs) i = (if str x = str e then int i else pq_indexOf_loop str e xs (Suc i))"

definition pq_indexOf :: "('a \<Rightarrow> string) \<Rightarrow> 'a \<Rightarrow> 'a pqueue \<Rightarrow> int" where
  "pq_indexOf str e h = pq_indexOf_loop str e (take (pq_size h) (pq_arr h)) 0"

definition pq_Contains :: "('a \<Rightarrow> string) \<Rightarrow> 'a \<Rightarrow> 'a pqueue \<Rightarrow> bool" where
  "pq_Contains str e h = (pq_indexOf str e h \<noteq> -1)"

section \<open>Heap order\<close>

text \<open>\<open>pq_le\<close>: the first element may stand above the second.\<close>

definition pq_le :: "('a \<Rightarrow> string) \<Rightarrow> bool \<Rightarrow> 'a \<Rightarrow> 'a \<Rightarrow> bool" where
  "pq_le str mx a b = (if mx then str b \<le> str a else str a \<le> str b)"

lemma pq_compare_le: "pq_compare str mx arr i j \<longleftrightarrow> \<not> pq_le str mx (arr ! i) (arr ! j)"
  by (auto simp: pq_compare_def pq_le_def)

lemma pq_le_refl [simp]: "pq_le str mx a a"
  by (simp add: pq_le_def)

lemma pq_le_trans: "pq_le str mx a b \<Longrightarrow> pq_le str mx b c \<Longrightarrow> pq_le str mx a c"
  by (auto simp: pq_le_def split: if_splits)

lemma pq_le_total: "\<not> pq_le str mx a b \<Longrightarrow> pq_le str mx b a"
  by (auto simp: pq_le_def split: if_splits)

abbreviation par :: "nat \<Rightarrow> nat" where
  "par i \<equiv> (i - 1) div 2"

definition pq_heap :: "('a \<Rightarrow> string) \<Rightarrow> bool \<Rightarrow> 'a list \<Rightarrow> bool" where
  "pq_heap str mx xs \<longleftrightarrow> (\<forall>j < length xs. 0 < j \<longrightarrow> pq_le str mx (xs ! par j) (xs ! j))"

text \<open>The heap order with a gap at \<open>i\<close>: towards its parent, or towards its children.\<close>

definition heap_up_at :: "('a \<Rightarrow> string) \<Rightarrow> bool \<Rightarrow> nat \<Rightarrow> 'a list \<Rightarrow> bool" where
  "heap_up_at str mx i xs \<longleftrightarrow>
     (\<forall>j < length xs. 0 < j \<longrightarrow> j \<noteq> i \<longrightarrow> pq_le str mx (xs ! par j) (xs ! j)) \<and>
     (\<forall>j < length xs. 0 < j \<longrightarrow> 0 < i \<longrightarrow> par j = i \<longrightarrow> pq_le str mx (xs ! par i) (xs ! j))"

definition heap_down_at :: "('a \<Rightarrow> string) \<Rightarrow> bool \<Rightarrow> nat \<Rightarrow> 'a list \<Rightarrow> bool" where
  "heap_down_at str mx i xs \<longleftrightarrow>
     (\<forall>j < length xs. 0 < j \<longrightarrow> par j \<noteq> i \<longrightarrow> pq_le str mx (xs ! par j) (xs ! j)) \<and>
     (\<forall>j < length xs. 0 < j \<longrightarrow> 0 < i \<longrightarrow> par j = i \<longrightarrow> pq_le str mx (xs ! par i) (xs ! j))"

lemma length_swap [simp]: "length (pq_swap xs i j) = length xs"
  by (simp add: pq_swap_def Let_def)

lemma mset_pq_swap: "i < length xs \<Longrightarrow> j < length xs \<Longrightarrow> mset (pq_swap xs i j) = mset xs"
  by (simp add: pq_swap_def Let_def mset_swap)

lemma nth_swap: "i < length xs \<Longrightarrow> j < length xs \<Longrightarrow> k < length xs \<Longrightarrow>
   pq_swap xs i j ! k = (if k = j then xs ! i else if k = i then xs ! j else xs ! k)"
  by (auto simp: pq_swap_def Let_def nth_list_update)

lemma par_less: "0 < j \<Longrightarrow> par j < j"
  by auto

lemma heap_up_swap:
  assumes up: "heap_up_at str mx i xs" and i: "i < length xs" "0 < i"
    and gt: "\<not> pq_le str mx (xs ! par i) (xs ! i)"
  shows "heap_up_at str mx (par i) (pq_swap xs (par i) i)"
proof -
  let ?p = "par i"
  have p: "?p < i" "?p < length xs" using i by auto
  note nth = nth_swap [OF p(2) i(1)]
  have ge: "pq_le str mx (xs ! i) (xs ! ?p)" using pq_le_total [OF gt] .
  have edge: "pq_le str mx (xs ! par j) (xs ! j)" if "j < length xs" "0 < j" "j \<noteq> i" for j
    using up that by (simp add: heap_up_at_def)
  have skip: "pq_le str mx (xs ! ?p) (xs ! j)" if "j < length xs" "0 < j" "par j = i" for j
    using up that i by (simp add: heap_up_at_def)
  have "pq_le str mx (pq_swap xs ?p i ! par j) (pq_swap xs ?p i ! j)"
    if j: "j < length xs" "0 < j" "j \<noteq> ?p" for j
  proof -
    have pj: "par j < length xs" using j by linarith
    consider "j = i" | "j \<noteq> i" "par j = i" | "j \<noteq> i" "par j = ?p" | "j \<noteq> i" "par j \<noteq> i" "par j \<noteq> ?p" by blast
    then show ?thesis
    proof cases
      case 1
      then show ?thesis using nth [OF pj] nth [OF j(1)] p ge by auto
    next
      case 2
      then show ?thesis using nth [OF pj] nth [OF j(1)] p j skip by auto
    next
      case 3
      then have "pq_le str mx (xs ! i) (xs ! j)" using pq_le_trans [OF ge] edge [OF j(1,2)] by metis
      then show ?thesis using 3 nth [OF pj] nth [OF j(1)] p j by auto
    next
      case 4
      then show ?thesis using nth [OF pj] nth [OF j(1)] j edge by auto
    qed
  qed
  moreover have "pq_le str mx (pq_swap xs ?p i ! par ?p) (pq_swap xs ?p i ! j)"
    if j: "j < length xs" "0 < j" "0 < ?p" "par j = ?p" for j
  proof -
    have pp: "par ?p < ?p" using par_less [OF j(3)] .
    have pl: "par ?p < length xs" using pp p by linarith
    have top: "pq_le str mx (xs ! par ?p) (xs ! ?p)" using edge [of ?p] p j by auto
    have "pq_le str mx (xs ! par ?p) (xs ! j)" if "j \<noteq> i"
      using pq_le_trans [OF top] edge [OF j(1,2) that] j(4) by simp
    then show ?thesis using nth [OF pl] nth [OF j(1)] pp p top j by (cases "j = i") auto
  qed
  ultimately show ?thesis by (simp add: heap_up_at_def)
qed

lemma pq_up_heap:
  "heap_up_at str mx i xs \<Longrightarrow> i < length xs \<Longrightarrow>
   pq_heap str mx (pq_up str mx i xs) \<and> mset (pq_up str mx i xs) = mset xs"
proof (induction str mx i xs rule: pq_up.induct)
  case (1 str mx i xs)
  show ?case
  proof (cases "0 < i \<and> pq_compare str mx xs (par i) i")
    case True
    then have gt: "\<not> pq_le str mx (xs ! par i) (xs ! i)" by (simp add: pq_compare_le)
    have p: "par i < length xs" using 1(3) by linarith
    have "heap_up_at str mx (par i) (pq_swap xs (par i) i)"
      using heap_up_swap [OF 1(2) 1(3) _ gt] True by simp
    with 1 True p show ?thesis by (simp add: pq_up.simps [of str mx i xs] Let_def mset_pq_swap)
  next
    case False
    then have "pq_up str mx i xs = xs" by (auto simp: pq_up.simps [of str mx i xs] Let_def)
    moreover have "pq_heap str mx xs"
      using 1(2) False unfolding pq_heap_def heap_up_at_def pq_compare_le by (metis (no_types))
    ultimately show ?thesis by simp
  qed
qed


text \<open>The child chosen by \<open>down\<close> is below \<open>i\<close>, within the heap, and not larger than its sibling.\<close>

lemma pq_down_target_cases:
  assumes "i < length xs" and "t = pq_down_target str mx (length xs) i xs"
  shows "t = i \<and> (\<forall>j < length xs. 0 < j \<longrightarrow> par j = i \<longrightarrow> pq_le str mx (xs ! i) (xs ! j)) \<or>
         t \<noteq> i \<and> 0 < t \<and> par t = i \<and> t < length xs \<and> \<not> pq_le str mx (xs ! i) (xs ! t) \<and>
         (\<forall>j < length xs. 0 < j \<longrightarrow> par j = i \<longrightarrow> pq_le str mx (xs ! t) (xs ! j))"
proof -
  have ch: "j = i * 2 + 1 \<or> j = i * 2 + 2" if "0 < j" "par j = i" for j
    using that by auto
  have le: "pq_le str mx a c" if "\<not> pq_le str mx b a" "pq_le str mx b c" for a b c
    using that pq_le_total pq_le_trans by metis
  show ?thesis
    using assms(2)
    by (auto simp: pq_down_target_def pq_compare_le Let_def dest!: ch intro: pq_le_total le split: if_splits)
qed

lemma heap_down_swap:
  assumes down: "heap_down_at str mx i xs" and i: "i < length xs"
    and t: "0 < t" "par t = i" "t < length xs" "\<not> pq_le str mx (xs ! i) (xs ! t)"
    and min: "\<forall>j < length xs. 0 < j \<longrightarrow> par j = i \<longrightarrow> pq_le str mx (xs ! t) (xs ! j)"
  shows "heap_down_at str mx t (pq_swap xs i t)"
proof -
  have it: "i < t" using t par_less [of t] by simp
  note nth = nth_swap [OF i t(3)]
  have edge: "pq_le str mx (xs ! par j) (xs ! j)" if "j < length xs" "0 < j" "par j \<noteq> i" for j
    using down that by (simp add: heap_down_at_def)
  have skip: "pq_le str mx (xs ! par i) (xs ! j)" if "j < length xs" "0 < j" "0 < i" "par j = i" for j
    using down that by (simp add: heap_down_at_def)
  have ge: "pq_le str mx (xs ! t) (xs ! i)" using pq_le_total [OF t(4)] .
  have "pq_le str mx (pq_swap xs i t ! par j) (pq_swap xs i t ! j)"
    if j: "j < length xs" "0 < j" "par j \<noteq> t" for j
  proof -
    have pj: "par j < length xs" using par_less [OF j(2)] j by linarith
    consider "j = t" | "j = i" | "j \<noteq> t" "j \<noteq> i" "par j = i" | "j \<noteq> t" "j \<noteq> i" "par j \<noteq> i" by blast
    then show ?thesis
    proof cases
      case 1
      then show ?thesis using nth [OF pj] nth [OF j(1)] t it ge by auto
    next
      case 2
      then have "par j \<noteq> i" using par_less [OF j(2)] by linarith
      moreover have "pq_le str mx (xs ! par i) (xs ! t)" using skip [OF t(3,1)] 2 j t(2) by simp
      ultimately show ?thesis using 2 nth [OF pj] nth [OF j(1)] j it by auto
    next
      case 3
      then show ?thesis using nth [OF pj] nth [OF j(1)] j min it by auto
    next
      case 4
      then show ?thesis using nth [OF pj] nth [OF j(1)] j edge by auto
    qed
  qed
  moreover have "pq_le str mx (pq_swap xs i t ! par t) (pq_swap xs i t ! j)"
    if j: "j < length xs" "0 < j" "par j = t" for j
  proof -
    have "t < j" using par_less [OF j(2)] j(3) by simp
    then show ?thesis using nth [OF i] nth [OF j(1)] edge [OF j(1,2)] j t it by auto
  qed
  ultimately show ?thesis by (simp add: heap_down_at_def)
qed

lemma pq_down_heap:
  "heap_down_at str mx i xs \<Longrightarrow> i < length xs \<Longrightarrow> n = length xs \<Longrightarrow>
   pq_heap str mx (pq_down str mx n i xs) \<and> mset (pq_down str mx n i xs) = mset xs"
proof (induction str mx n i xs rule: pq_down.induct)
  case (1 str mx n i xs)
  define t where "t = pq_down_target str mx n i xs"
  note tc = pq_down_target_cases [OF 1(3), of t str mx]
  show ?case
  proof (cases "t = i")
    case True
    then have "pq_down str mx n i xs = xs" by (simp add: pq_down.simps [of str mx n i xs] t_def)
    moreover have "pq_heap str mx xs"
      using 1(2,4) True tc unfolding pq_heap_def heap_down_at_def t_def by (metis (no_types))
    ultimately show ?thesis by simp
  next
    case False
    then have t: "0 < t" "par t = i" "t < length xs" "\<not> pq_le str mx (xs ! i) (xs ! t)"
        "\<forall>j < length xs. 0 < j \<longrightarrow> par j = i \<longrightarrow> pq_le str mx (xs ! t) (xs ! j)"
      using tc 1(4) by (auto simp: t_def)
    have "pq_down str mx n i xs = pq_down str mx n t (pq_swap xs i t)"
      using False by (simp add: pq_down.simps [of str mx n i xs] t_def Let_def)
    then show ?thesis
      using 1(1) [OF t_def] False heap_down_swap [OF 1(2,3) t] t 1(3,4) by (simp add: mset_pq_swap)
  qed
qed

text \<open>\<open>down\<close> works on the first \<open>n\<close> elements only.\<close>

lemma pq_down_take:
  "i < n \<Longrightarrow> n \<le> length xs \<Longrightarrow> take n (pq_down str mx n i xs) = pq_down str mx n i (take n xs)"
proof (induction str mx n i xs rule: pq_down.induct)
  case (1 str mx n i xs)
  define t where "t = pq_down_target str mx n i xs"
  have cmp: "pq_compare str mx (take n xs) a b = pq_compare str mx xs a b" if "a < n" "b < n" for a b
    using that 1(3) by (simp add: pq_compare_def)
  have tt: "pq_down_target str mx n i (take n xs) = t"
    using 1(2) by (auto simp: t_def pq_down_target_def cmp Let_def)
  have tn: "t < n" using 1(2) by (simp add: t_def pq_down_target_def Let_def)
  show ?case
  proof (cases "t = i")
    case True
    then show ?thesis using tt by (simp add: pq_down.simps [of str mx n i] t_def Let_def)
  next
    case False
    have "take n (pq_swap xs i t) = pq_swap (take n xs) i t"
      using 1(2,3) tn by (simp add: pq_swap_def Let_def take_update_swap nth_take)
    then show ?thesis using 1(1) [OF t_def False tn] 1(3) False tt
      by (simp add: pq_down.simps [of str mx n i] t_def Let_def)
  qed
qed

section \<open>Interface\<close>

text \<open>
  What a client of the queue relies on: a bag of elements, of which \<open>poll\<close> returns one that is \<open>le\<close> all
  the others. \<open>drain n\<close> is \<open>n\<close> calls of \<open>poll\<close>, in order.
\<close>

fun drain :: "('q \<Rightarrow> ('a \<times> 'e option) \<times> 'q) \<Rightarrow> nat \<Rightarrow> 'q \<Rightarrow> ('a \<times> 'e option) list \<times> 'q" where
  "drain poll 0 q = ([], q)"
| "drain poll (Suc n) q = (let (r, q1) = poll q; (rs, q2) = drain poll n q1 in (r # rs, q2))"

locale priority_queue =
  fixes offer :: "'a \<Rightarrow> 'q \<Rightarrow> 'q"
    and poll :: "'q \<Rightarrow> ('a \<times> 'e option) \<times> 'q"
    and peek :: "'q \<Rightarrow> 'a \<times> 'e option"
    and inv :: "'q \<Rightarrow> bool"
    and bag :: "'q \<Rightarrow> 'a multiset"
    and le :: "'a \<Rightarrow> 'a \<Rightarrow> bool"
  assumes offer_inv: "inv q \<Longrightarrow> inv (offer e q)"
    and offer_bag: "inv q \<Longrightarrow> bag (offer e q) = add_mset e (bag q)"
    and poll_some: "inv q \<Longrightarrow> bag q \<noteq> {#} \<Longrightarrow>
          \<exists>x q'. poll q = ((x, None), q') \<and> inv q' \<and> bag q = add_mset x (bag q') \<and> (\<forall>y \<in># bag q'. le x y)"
    and poll_none: "inv q \<Longrightarrow> bag q = {#} \<Longrightarrow> snd (fst (poll q)) \<noteq> None \<and> snd (poll q) = q"
    and peek_poll: "inv q \<Longrightarrow> peek q = fst (poll q)"
begin

lemma offer_all: "inv q \<Longrightarrow> inv (fold offer xs q) \<and> bag (fold offer xs q) = mset xs + bag q"
  by (induction xs arbitrary: q) (auto simp: offer_inv offer_bag)

lemma drain_sorted:
  "inv q \<Longrightarrow> \<exists>ys q'. drain poll (size (bag q)) q = (map (\<lambda>y. (y, None)) ys, q') \<and>
     inv q' \<and> bag q' = {#} \<and> mset ys = bag q \<and> sorted_wrt le ys"
proof (induction "size (bag q)" arbitrary: q)
  case 0
  then show ?case by auto
next
  case (Suc n)
  from Suc(2) have ne: "bag q \<noteq> {#}" by auto
  from poll_some [OF Suc(3) ne] obtain x q1 where p: "poll q = ((x, None), q1)" "inv q1"
    "bag q = add_mset x (bag q1)" "\<forall>y \<in># bag q1. le x y" by blast
  from Suc(2) p(3) have n: "n = size (bag q1)" by simp
  from Suc(1) [OF n p(2)] obtain ys q' where
    d: "drain poll (size (bag q1)) q1 = (map (\<lambda>y. (y, None)) ys, q')" "inv q'" "bag q' = {#}"
       "mset ys = bag q1" "sorted_wrt le ys" by blast
  have "drain poll (size (bag q)) q = (map (\<lambda>y. (y, None)) (x # ys), q')"
    using p d by simp
  moreover have "\<forall>y \<in> set ys. le x y" using p(4) d(4) by (metis set_mset_mset)
  ultimately show ?case using d p(3) by (intro exI [of _ "x # ys"] exI [of _ q']) simp
qed

lemma offer_drain:
  assumes "inv q" "bag q = {#}"
  shows "\<exists>ys q'. drain poll (length xs) (fold offer xs q) = (map (\<lambda>y. (y, None)) ys, q') \<and>
     inv q' \<and> bag q' = {#} \<and> mset ys = mset xs \<and> sorted_wrt le ys"
  using drain_sorted [of "fold offer xs q"] offer_all [OF assms(1), of xs] assms(2) by simp

end

definition pq_wf :: "('a \<Rightarrow> string) \<Rightarrow> bool \<Rightarrow> 'a pqueue \<Rightarrow> bool" where
  "pq_wf str mx h \<longleftrightarrow> pq_Max h = mx \<and> pq_size h = length (pq_arr h) \<and> pq_heap str mx (pq_arr h)"

definition pq_bag :: "'a pqueue \<Rightarrow> 'a multiset" where
  "pq_bag h = mset (pq_arr h)"

lemma pq_wf_new: "pq_wf str mx (pq_new z mx)" "pq_bag (pq_new z mx) = {#}"
  by (simp_all add: pq_wf_def pq_new_def pq_heap_def pq_bag_def)

text \<open>The root of a heap is \<open>le\<close> every element.\<close>

lemma pq_heap_root:
  assumes h: "pq_heap str mx xs"
  shows "j < length xs \<Longrightarrow> pq_le str mx (xs ! 0) (xs ! j)"
proof (induction j rule: less_induct)
  case (less j)
  show ?case
  proof (cases "j = 0")
    case False
    then have "par j < j" "par j < length xs" using par_less [of j] less(2) by auto
    then have "pq_le str mx (xs ! 0) (xs ! par j)" using less(1) by blast
    moreover have "pq_le str mx (xs ! par j) (xs ! j)" using h less(2) False by (simp add: pq_heap_def)
    ultimately show ?thesis by (rule pq_le_trans)
  qed simp
qed

lemma heap_up_at_append: "pq_heap str mx xs \<Longrightarrow> heap_up_at str mx (length xs) (xs @ [e])"
  using par_less [of "length xs"] by (fastforce simp: pq_heap_def heap_up_at_def nth_append less_Suc_eq)

lemma pq_Offer_arr: "pq_wf str mx h \<Longrightarrow>
   pq_arr (pq_Offer str grow e h) = pq_up str mx (length (pq_arr h)) (pq_arr h @ [e])"
  by (auto simp: pq_Offer_def pq_wf_def Let_def)

lemma pq_Offer_ok:
  assumes "pq_wf str mx h"
  shows "pq_wf str mx (pq_Offer str grow e h)" and "pq_bag (pq_Offer str grow e h) = add_mset e (pq_bag h)"
proof -
  let ?xs = "pq_arr h @ [e]"
  have up: "pq_heap str mx (pq_up str mx (length (pq_arr h)) ?xs)"
      "mset (pq_up str mx (length (pq_arr h)) ?xs) = mset ?xs"
    using pq_up_heap [OF heap_up_at_append, of str mx "pq_arr h" e] assms by (auto simp: pq_wf_def)
  show "pq_bag (pq_Offer str grow e h) = add_mset e (pq_bag h)"
    using up(2) by (simp add: pq_bag_def pq_Offer_arr [OF assms])
  have "length (pq_up str mx (length (pq_arr h)) ?xs) = Suc (length (pq_arr h))"
    using arg_cong [OF up(2), of size] by simp
  then show "pq_wf str mx (pq_Offer str grow e h)"
    using up(1) assms pq_Offer_arr [OF assms, of grow e]
    by (simp add: pq_wf_def) (simp add: pq_Offer_def Let_def)
qed

lemma heap_down_at_root:
  assumes "pq_heap str mx (xs @ [l])"
  shows "heap_down_at str mx 0 (xs[0 := y])"
proof -
  have "pq_le str mx (xs[0 := y] ! par j) (xs[0 := y] ! j)" if "j < length xs" "0 < j" "par j \<noteq> 0" for j
  proof -
    have "par j < length xs" using par_less [OF that(2)] that(1) by linarith
    moreover have "pq_le str mx ((xs @ [l]) ! par j) ((xs @ [l]) ! j)" using assms that by (simp add: pq_heap_def)
    ultimately show ?thesis using that by (simp add: nth_append)
  qed
  then show ?thesis by (simp add: heap_down_at_def)
qed

lemma pq_Poll_ok:
  assumes wf: "pq_wf str mx h" and ne: "pq_bag h \<noteq> {#}"
  shows "\<exists>x h'. pq_Poll str h = ((x, None), h') \<and> pq_wf str mx h' \<and> pq_bag h = add_mset x (pq_bag h') \<and>
           (\<forall>y \<in># pq_bag h'. pq_le str mx x y)"
proof -
  obtain xs l where xl: "pq_arr h = xs @ [l]"
    using ne by (metis pq_bag_def mset.simps(1) rev_exhaust)
  define ys where "ys = pq_down str mx (length xs) 0 (xs[0 := l])"
  have heap: "pq_heap str mx (xs @ [l])" using wf by (simp add: pq_wf_def xl)
  have ys: "xs \<noteq> [] \<Longrightarrow> pq_heap str mx ys \<and> mset ys = mset (xs[0 := l])"
    unfolding ys_def by (rule pq_down_heap [OF heap_down_at_root [OF heap]]) auto
  have bag: "xs \<noteq> [] \<Longrightarrow> mset (xs @ [l]) = add_mset ((xs @ [l]) ! 0) (mset (xs[0 := l]))"
    by (cases xs) auto
  let ?r = "snd (pq_Poll str h)"
  have res: "fst (pq_Poll str h) = ((xs @ [l]) ! 0, None)"
    using wf by (auto simp: pq_Poll_def pq_wf_def xl Let_def)
  have tk: "xs \<noteq> [] \<Longrightarrow> take (length xs) (pq_down str mx (length xs) 0 ((xs @ [l])[0 := l])) = ys"
    by (subst pq_down_take) (auto simp: ys_def take_update_swap)
  have arr: "pq_arr ?r = (if xs = [] then [] else ys)" and sz: "pq_size ?r = length xs" and mx: "pq_Max ?r = mx"
    using wf tk by (auto simp: pq_Poll_def pq_wf_def xl Let_def)
  have len: "xs \<noteq> [] \<Longrightarrow> length ys = length xs"
    using ys by (metis length_list_update size_mset)
  have "pq_wf str mx ?r"
    using ys len arr sz mx by (cases "xs = []") (auto simp: pq_wf_def pq_heap_def)
  moreover have bg: "pq_bag h = add_mset ((xs @ [l]) ! 0) (pq_bag ?r)"
    using bag ys arr by (cases "xs = []") (auto simp: pq_bag_def xl)
  moreover have "pq_le str mx ((xs @ [l]) ! 0) y" if "y \<in># pq_bag ?r" for y
  proof -
    have "y \<in> set (xs @ [l])" using that bg by (metis pq_bag_def set_mset_mset union_iff add_mset_add_single xl)
    then show ?thesis using pq_heap_root [OF heap] by (metis in_set_conv_nth)
  qed
  ultimately show ?thesis using res by (metis prod.collapse)
qed

lemma pq_Poll_empty: "pq_wf str mx h \<Longrightarrow> pq_bag h = {#} \<Longrightarrow> pq_Poll str h = ((pq_zero h, Some ErrOfNilElement), h)"
  by (simp add: pq_Poll_def pq_wf_def pq_bag_def)

interpretation pq: priority_queue "pq_Offer str grow" "pq_Poll str" pq_Peek "pq_wf str mx" pq_bag "pq_le str mx"
  for str :: "'a \<Rightarrow> string" and grow mx
proof unfold_locales
  fix q :: "'a pqueue"
  assume q: "pq_wf str mx q" "pq_bag q \<noteq> {#}"
  show "\<exists>x q'. pq_Poll str q = ((x, None), q') \<and> pq_wf str mx q' \<and> pq_bag q = add_mset x (pq_bag q') \<and>
          (\<forall>y \<in># pq_bag q'. pq_le str mx x y)"
    by (rule pq_Poll_ok [OF q])
next
  fix q :: "'a pqueue"
  assume q: "pq_wf str mx q" "pq_bag q = {#}"
  then show "snd (fst (pq_Poll str q)) \<noteq> None \<and> snd (pq_Poll str q) = q"
    by (simp add: pq_Poll_empty [OF q])
qed (auto simp: pq_Offer_ok pq_Peek_def pq_Poll_def Let_def)

section \<open>Properties\<close>

text \<open>
  C35: the queue sorts. After offering the elements of any list to a new queue, that many calls of Poll
  return every element once, without an error, each one before all that follow it in the order of
  \<open>String()\<close> (ascending, or descending when \<open>Max\<close> is set), and the next Poll reports \<open>ErrOfNilElement\<close>
  and leaves the queue as it is.
\<close>

theorem pq_offer_poll_sorted:
  "\<exists>ys h. drain (pq_Poll str) (length xs) (fold (pq_Offer str grow) xs (pq_new z mx)) = (map (\<lambda>y. (y, None)) ys, h) \<and>
     mset ys = mset xs \<and> sorted_wrt (pq_le str mx) ys \<and> snd (fst (pq_Poll str h)) = Some ErrOfNilElement \<and>
     snd (pq_Poll str h) = h"
proof -
  obtain ys h where d: "drain (pq_Poll str) (length xs) (fold (pq_Offer str grow) xs (pq_new z mx)) = (map (\<lambda>y. (y, None)) ys, h)"
    "pq_wf str mx h" "pq_bag h = {#}" "mset ys = mset xs" "sorted_wrt (pq_le str mx) ys"
    using pq.offer_drain [OF pq_wf_new, of str xs grow z mx] by blast
  then show ?thesis using pq_Poll_empty [OF d(2,3)] by auto
qed

lemma pq_indexOf_loop_found: "pq_indexOf_loop str e xs i \<noteq> -1 \<longleftrightarrow> (\<exists>x \<in> set xs. str x = str e)"
  by (induction str e xs i rule: pq_indexOf_loop.induct) auto

lemma pq_Contains_bag: "pq_wf str mx h \<Longrightarrow> pq_Contains str e h \<longleftrightarrow> (\<exists>x \<in># pq_bag h. str x = str e)"
  by (simp add: pq_Contains_def pq_indexOf_def pq_indexOf_loop_found pq_wf_def pq_bag_def)

end
