(* ===== verification/Delay_Queue.thy ===== *)
theory Delay_Queue
  imports Priority_Queue Go_Numbers
begin

text \<open>
  \<^verbatim>\<open>pkg/basic/delay_queue.go\<close>: a priority queue of items keyed by the decimal representation of their
  deadline in nanoseconds, and one timer shared by the callers that wait. The clock is an argument
  (\<open>now\<close>), the timer is the absolute time at which it fires. \<open>TakeWithStop\<close> is a loop that may wait for
  ever: it runs over the list of its wake-ups, each with the calls of \<open>Add\<close> that other goroutines made
  while it was blocked; the value \<open>TakeBlocked\<close> says that it is still waiting after the last of them.

  The heap is used through the interface \<open>priority_queue\<close> (interpretation \<open>pq\<close>).
\<close>

section \<open>Model\<close>

record 'v delayItem =
  di_priority :: int
  di_value :: 'v

definition delayItem_String :: "'v delayItem \<Rightarrow> string" where
  "delayItem_String di = int_dec (di_priority di)"

definition getDelay :: "int \<Rightarrow> 'v delayItem \<Rightarrow> int" where
  "getDelay now di = wrap64 (di_priority di - now)"

record 'v delayQueue =
  dq_timer :: int
  dq_heap :: "'v delayItem pqueue"

definition NewDelayQueue :: "'v \<Rightarrow> int \<Rightarrow> 'v delayQueue" where
  "NewDelayQueue nil now = \<lparr> dq_timer = now + 30000000000,
     dq_heap = pq_new \<lparr> di_priority = 0, di_value = nil \<rparr> False \<rparr>"

definition dq_Add :: "(nat \<Rightarrow> nat) \<Rightarrow> int \<Rightarrow> 'v \<Rightarrow> int \<Rightarrow> 'v delayQueue \<Rightarrow> 'v delayQueue" where
  "dq_Add grow now v delay dq =
     (let item = \<lparr> di_priority = delay, di_value = v \<rparr>;
          dq1 = dq\<lparr> dq_heap := pq_Offer delayItem_String grow item (dq_heap dq) \<rparr>;
          (first, err) = pq_Peek (dq_heap dq1)
      in if err = None \<and> delayItem_String first = delayItem_String item
         then dq1\<lparr> dq_timer := now + getDelay now first \<rparr> else dq1)"

text \<open>The body of the loop that runs under the lock: the value taken, if any.\<close>

definition dq_take_locked :: "int \<Rightarrow> 'v delayQueue \<Rightarrow> 'v option \<times> 'v delayQueue" where
  "dq_take_locked now dq =
     (let (first, err) = pq_Peek (dq_heap dq);
          (delay, res, dq1) =
            (if err \<noteq> None then (30000000000, None, dq)
             else let delay = getDelay now first
                  in if delay \<le> 1000
                     then let ((poll, _), h) = pq_Poll delayItem_String (dq_heap dq)
                          in (delay, Some (di_value poll), dq\<lparr> dq_heap := h \<rparr>)
                     else (delay, None, dq))
      in (res, dq1\<lparr> dq_timer := now + delay \<rparr>))"

datatype wake = WTimer | WStop

datatype 'v take_result = Taken 'v | Stopped | TakeBlocked

text \<open>
  One pass of the loop: the clock when it runs, the calls of \<open>Add\<close> (clock, value, deadline) made while it
  is blocked after it, and the channel that wakes it.
\<close>

record 'v pass =
  ps_now :: int
  ps_adds :: "(int \<times> 'v \<times> int) list"
  ps_wake :: wake

fun dq_adds :: "(nat \<Rightarrow> nat) \<Rightarrow> (int \<times> 'v \<times> int) list \<Rightarrow> 'v delayQueue \<Rightarrow> 'v delayQueue" where
  "dq_adds grow [] dq = dq"
| "dq_adds grow ((now, v, delay) # as) dq = dq_adds grow as (dq_Add grow now v delay dq)"

fun dq_TakeWithStop :: "(nat \<Rightarrow> nat) \<Rightarrow> 'v pass list \<Rightarrow> 'v delayQueue \<Rightarrow> 'v take_result \<times> 'v delayQueue" where
  "dq_TakeWithStop grow [] dq = (TakeBlocked, dq)"
| "dq_TakeWithStop grow (p # ps) dq =
     (case dq_take_locked (ps_now p) dq of
        (Some v, dq1) \<Rightarrow> (Taken v, dq1)
      | (None, dq1) \<Rightarrow>
          (let dq2 = dq_adds grow (ps_adds p) dq1
           in case ps_wake p of WTimer \<Rightarrow> dq_TakeWithStop grow ps dq2 | WStop \<Rightarrow> (Stopped, dq2)))"

text \<open>\<open>Take\<close> passes a nil channel, on which nothing is ever received.\<close>

definition dq_Take :: "(nat \<Rightarrow> nat) \<Rightarrow> 'v pass list \<Rightarrow> 'v delayQueue \<Rightarrow> 'v take_result \<times> 'v delayQueue" where
  "dq_Take grow ps dq = dq_TakeWithStop grow (map (\<lambda>p. p\<lparr> ps_wake := WTimer \<rparr>) ps) dq"

definition dq_Size :: "'v delayQueue \<Rightarrow> nat" where
  "dq_Size dq = pq_Size (dq_heap dq)"

section \<open>Deadlines of nineteen digits\<close>

text \<open>
  A deadline between September 2001 and the end of \<open>int64\<close> nanoseconds (2262) has nineteen digits. Between
  such deadlines the order of the texts is the order of the numbers, and no subtraction overflows.
\<close>

definition in_era :: "int \<Rightarrow> bool" where
  "in_era t \<longleftrightarrow> 10 ^ 18 \<le> t \<and> t < 2 ^ 63"

definition clock_ok :: "int \<Rightarrow> bool" where
  "clock_ok now \<longleftrightarrow> 0 \<le> now \<and> now < 2 ^ 63"

definition dq_ok :: "'v delayQueue \<Rightarrow> bool" where
  "dq_ok dq \<longleftrightarrow> pq_wf delayItem_String False (dq_heap dq) \<and> (\<forall>x \<in># pq_bag (dq_heap dq). in_era (di_priority x))"

abbreviation dq_items :: "'v delayQueue \<Rightarrow> 'v delayItem multiset" where
  "dq_items dq \<equiv> pq_bag (dq_heap dq)"

definition add_item :: "int \<times> 'v \<times> int \<Rightarrow> 'v delayItem" where
  "add_item a = \<lparr> di_priority = snd (snd a), di_value = fst (snd a) \<rparr>"

definition adds_ok :: "(int \<times> 'v \<times> int) list \<Rightarrow> bool" where
  "adds_ok as \<longleftrightarrow> (\<forall>(now, v, delay) \<in> set as. clock_ok now \<and> in_era delay)"

lemma era_le:
  assumes "in_era (di_priority a)" "in_era (di_priority b)"
  shows "pq_le delayItem_String False a b \<longleftrightarrow> di_priority a \<le> di_priority b"
  using assms int_dec_le [of 18 "di_priority a" "di_priority b"]
  by (simp add: pq_le_def delayItem_String_def in_era_def)

lemma getDelay_era: "in_era (di_priority a) \<Longrightarrow> clock_ok now \<Longrightarrow> getDelay now a = di_priority a - now"
  by (simp add: getDelay_def in_era_def clock_ok_def wrap64_id)

lemma dq_peek:
  assumes "dq_ok dq"
  shows "dq_items dq = {#} \<Longrightarrow> snd (pq_Peek (dq_heap dq)) \<noteq> None"
    and "dq_items dq \<noteq> {#} \<Longrightarrow> \<exists>x h. pq_Peek (dq_heap dq) = (x, None) \<and>
           pq_Poll delayItem_String (dq_heap dq) = ((x, None), h) \<and> dq_items dq = add_mset x (pq_bag h) \<and>
           dq_ok (dq\<lparr> dq_heap := h \<rparr>) \<and> in_era (di_priority x) \<and> (\<forall>y \<in># dq_items dq. di_priority x \<le> di_priority y)"
proof -
  have wf: "pq_wf delayItem_String False (dq_heap dq)" using assms by (simp add: dq_ok_def)
  show "dq_items dq = {#} \<Longrightarrow> snd (pq_Peek (dq_heap dq)) \<noteq> None"
    using pq.poll_none [OF wf] pq.peek_poll [OF wf] by simp
  assume ne: "dq_items dq \<noteq> {#}"
  then obtain x h where p: "pq_Poll delayItem_String (dq_heap dq) = ((x, None), h)"
      "pq_wf delayItem_String False h" "dq_items dq = add_mset x (pq_bag h)"
      "\<forall>y \<in># pq_bag h. pq_le delayItem_String False x y"
    using pq.poll_some [OF wf ne] by blast
  have era: "\<forall>y \<in># add_mset x (pq_bag h). in_era (di_priority y)" using assms p(3) by (simp add: dq_ok_def)
  then have "\<forall>y \<in># add_mset x (pq_bag h). di_priority x \<le> di_priority y" using p(4) era_le by fastforce
  then show "\<exists>x h. pq_Peek (dq_heap dq) = (x, None) \<and>
           pq_Poll delayItem_String (dq_heap dq) = ((x, None), h) \<and> dq_items dq = add_mset x (pq_bag h) \<and>
           dq_ok (dq\<lparr> dq_heap := h \<rparr>) \<and> in_era (di_priority x) \<and> (\<forall>y \<in># dq_items dq. di_priority x \<le> di_priority y)"
    using p era pq.peek_poll [OF wf] by (auto simp: dq_ok_def)
qed

lemma dq_ok_timer [simp]: "dq_ok (dq\<lparr> dq_timer := t \<rparr>) = dq_ok dq"
  by (simp add: dq_ok_def)

text \<open>One pass under the lock: an item that is due and earliest, or nothing and the timer at the earliest deadline.\<close>

lemma dq_take_locked_cases:
  assumes ok: "dq_ok dq" and now: "clock_ok now"
  obtains (taken) x dq' where "dq_take_locked now dq = (Some (di_value x), dq')" "dq_ok dq'"
      "dq_items dq = add_mset x (dq_items dq')" "di_priority x \<le> now + 1000"
      "\<forall>y \<in># dq_items dq'. di_priority x \<le> di_priority y"
  | (waiting) t where "dq_take_locked now dq = (None, dq\<lparr> dq_timer := t \<rparr>)"
      "\<forall>y \<in># dq_items dq. now + 1000 < di_priority y"
      "dq_items dq \<noteq> {#} \<longrightarrow> (\<exists>x \<in># dq_items dq. t = di_priority x) \<and> (\<forall>y \<in># dq_items dq. t \<le> di_priority y)"
proof (cases "dq_items dq = {#}")
  case True
  then have "dq_take_locked now dq = (None, dq\<lparr> dq_timer := now + 30000000000 \<rparr>)"
    using dq_peek(1) [OF ok] by (auto simp: dq_take_locked_def Let_def split: prod.splits)
  with True waiting show ?thesis by auto
next
  case False
  from dq_peek(2) [OF ok False] obtain x h where p: "pq_Peek (dq_heap dq) = (x, None)"
      "pq_Poll delayItem_String (dq_heap dq) = ((x, None), h)" "dq_items dq = add_mset x (pq_bag h)"
      "dq_ok (dq\<lparr> dq_heap := h \<rparr>)" "in_era (di_priority x)" "\<forall>y \<in># dq_items dq. di_priority x \<le> di_priority y"
    by blast
  have d: "getDelay now x = di_priority x - now" using getDelay_era [OF p(5) now] .
  show ?thesis
  proof (cases "di_priority x - now \<le> 1000")
    case True
    then have eq: "dq_take_locked now dq = (Some (di_value x), dq\<lparr> dq_heap := h, dq_timer := di_priority x \<rparr>)"
      using p(1,2) d by (simp add: dq_take_locked_def)
    have "dq_ok (dq\<lparr> dq_heap := h, dq_timer := di_priority x \<rparr>)" using p(4) by (simp add: dq_ok_def)
    with eq True p(3,6) taken show ?thesis by auto
  next
    case False
    then have eq: "dq_take_locked now dq = (None, dq\<lparr> dq_timer := di_priority x \<rparr>)"
      using p(1,2) d by (simp add: dq_take_locked_def)
    show ?thesis using eq p(3,6) False by (intro waiting [of "di_priority x"]) auto
  qed
qed

text \<open>The timer stands at the earliest deadline.\<close>

definition timer_earliest :: "'v delayQueue \<Rightarrow> bool" where
  "timer_earliest dq \<longleftrightarrow> dq_items dq \<noteq> {#} \<longrightarrow>
     (\<exists>x \<in># dq_items dq. dq_timer dq = di_priority x) \<and> (\<forall>y \<in># dq_items dq. dq_timer dq \<le> di_priority y)"

lemma dq_Add_ok:
  assumes ok: "dq_ok dq" and now: "clock_ok now" and era: "in_era delay"
  shows "dq_ok (dq_Add grow now v delay dq)"
    and "dq_items (dq_Add grow now v delay dq) = add_mset (add_item (now, v, delay)) (dq_items dq)"
    and "timer_earliest dq \<Longrightarrow> timer_earliest (dq_Add grow now v delay dq)"
proof -
  let ?it = "add_item (now, v, delay)"
  let ?dq1 = "dq\<lparr> dq_heap := pq_Offer delayItem_String grow ?it (dq_heap dq) \<rparr>"
  have wf: "pq_wf delayItem_String False (dq_heap dq)" using ok by (simp add: dq_ok_def)
  have items: "dq_items ?dq1 = add_mset ?it (dq_items dq)" using pq.offer_bag [OF wf] by simp
  have ok1: "dq_ok ?dq1" using ok era pq.offer_inv [OF wf] items by (auto simp: dq_ok_def add_item_def)
  have ne: "dq_items ?dq1 \<noteq> {#}" using items by simp
  from dq_peek(2) [OF ok1 ne] obtain x where x: "pq_Peek (dq_heap ?dq1) = (x, None)" "x \<in># dq_items ?dq1"
      "in_era (di_priority x)" "\<forall>y \<in># dq_items ?dq1. di_priority x \<le> di_priority y" by fastforce
  have eq: "dq_Add grow now v delay dq =
      (if di_priority x = delay then ?dq1\<lparr> dq_timer := delay \<rparr> else ?dq1)"
    using x(1) getDelay_era [OF x(3) now]
    by (auto simp: dq_Add_def add_item_def delayItem_String_def Let_def dest: int_dec_inject)
  show "dq_ok (dq_Add grow now v delay dq)" using eq ok1 by simp
  show "dq_items (dq_Add grow now v delay dq) = add_mset ?it (dq_items dq)" using eq items by simp
  assume te: "timer_earliest dq"
  show "timer_earliest (dq_Add grow now v delay dq)"
  proof (cases "di_priority x = delay")
    case True
    then show ?thesis using eq x(2,4) by (auto simp: timer_earliest_def)
  next
    case False
    then have "x \<in># dq_items dq" using x(2) items by (auto simp: add_item_def)
    with te obtain z where z: "z \<in># dq_items dq" "dq_timer dq = di_priority z" "dq_timer dq \<le> di_priority x"
      by (auto simp: timer_earliest_def)
    then have "dq_timer dq = di_priority x" using x(4) items by fastforce
    then show ?thesis using False eq x(2,4) by (auto simp: timer_earliest_def)
  qed
qed

lemma dq_adds_ok:
  "dq_ok dq \<Longrightarrow> adds_ok as \<Longrightarrow>
   dq_ok (dq_adds grow as dq) \<and> dq_items (dq_adds grow as dq) = mset (map add_item as) + dq_items dq \<and>
   (timer_earliest dq \<longrightarrow> timer_earliest (dq_adds grow as dq))"
proof (induction grow as dq rule: dq_adds.induct)
  case (2 grow now v delay as dq)
  then have c: "clock_ok now" "in_era delay" "adds_ok as" by (auto simp: adds_ok_def)
  show ?case using 2(1) [OF dq_Add_ok(1) [OF 2(2) c(1,2)] c(3)] dq_Add_ok(2,3) [OF 2(2) c(1,2)] by auto
qed simp

section \<open>Properties\<close>

definition passes_ok :: "'v pass list \<Rightarrow> bool" where
  "passes_ok ps \<longleftrightarrow> (\<forall>p \<in> set ps. clock_ok (ps_now p) \<and> adds_ok (ps_adds p))"

lemma dq_waiting:
  assumes "dq_ok dq" "clock_ok (ps_now p)" "adds_ok (ps_adds p)"
    and "dq_take_locked (ps_now p) dq = (None, dq1)"
  shows "dq_ok (dq_adds grow (ps_adds p) dq1)" "timer_earliest (dq_adds grow (ps_adds p) dq1)"
    and "dq_items (dq_adds grow (ps_adds p) dq1) = mset (map add_item (ps_adds p)) + dq_items dq"
proof -
  obtain t where t: "dq1 = dq\<lparr> dq_timer := t \<rparr>" "dq_items dq \<noteq> {#} \<longrightarrow>
      (\<exists>x \<in># dq_items dq. t = di_priority x) \<and> (\<forall>y \<in># dq_items dq. t \<le> di_priority y)"
    by (rule dq_take_locked_cases [OF assms(1,2)]) (use assms(4) in auto)
  then have "dq_ok dq1" "timer_earliest dq1" "dq_items dq1 = dq_items dq"
    using assms(1) by (auto simp: timer_earliest_def)
  then show "dq_ok (dq_adds grow (ps_adds p) dq1)" "timer_earliest (dq_adds grow (ps_adds p) dq1)"
    "dq_items (dq_adds grow (ps_adds p) dq1) = mset (map add_item (ps_adds p)) + dq_items dq"
    using dq_adds_ok [OF _ assms(3), of dq1 grow] by auto
qed

text \<open>
  C29: TakeWithStop returns an item only when it is due, within one microsecond, at the clock of the pass
  that takes it, and never before an item with an earlier deadline: every item that stays behind, of
  those there at the call and those other goroutines added while it waited, has a deadline that is not
  earlier. The item returned is removed, and nothing else is. Deadlines are between 2001 and 2262.
\<close>

theorem dq_take_due_and_earliest:
  assumes "dq_ok dq" and "passes_ok ps" and "dq_TakeWithStop grow ps dq = (Taken v, dq')"
  shows "\<exists>x. \<exists>p \<in> set ps. \<exists>added. v = di_value x \<and> di_priority x \<le> ps_now p + 1000 \<and>
           mset added \<subseteq># mset (concat (map ps_adds ps)) \<and>
           mset (map add_item added) + dq_items dq = add_mset x (dq_items dq') \<and>
           (\<forall>y \<in># dq_items dq'. di_priority x \<le> di_priority y)"
  using assms
proof (induction grow ps dq rule: dq_TakeWithStop.induct)
  case (2 grow p ps dq)
  from 2(3) have p: "clock_ok (ps_now p)" "adds_ok (ps_adds p)" and ps: "passes_ok ps"
    by (auto simp: passes_ok_def)
  show ?case
  proof (cases rule: dq_take_locked_cases [OF 2(2) p(1)])
    case (1 x dq1)
    then have "v = di_value x" "dq' = dq1" using 2(4) by auto
    then show ?thesis using 1 by (intro exI [of _ x] bexI [of _ p] exI [of _ "[]"]) auto
  next
    case (2 t)
    let ?dq2 = "dq_adds grow (ps_adds p) (dq\<lparr> dq_timer := t \<rparr>)"
    note w = dq_waiting [OF "2.prems"(1) p 2(1), of grow]
    have wk: "ps_wake p = WTimer" "dq_TakeWithStop grow ps ?dq2 = (Taken v, dq')"
      using "2.prems"(3) 2(1) by (auto simp: Let_def split: wake.splits)
    from "2.IH" [OF 2(1) [symmetric] refl refl wk(1) w(1) ps wk(2)] obtain x q added where
      ih: "v = di_value x" "q \<in> set ps" "di_priority x \<le> ps_now q + 1000"
        "mset added \<subseteq># mset (concat (map ps_adds ps))"
        "mset (map add_item added) + dq_items ?dq2 = add_mset x (dq_items dq')"
        "\<forall>y \<in># dq_items dq'. di_priority x \<le> di_priority y" by blast
    show ?thesis
      using ih w(3) by (intro exI [of _ x] bexI [of _ q] exI [of _ "ps_adds p @ added"]) (auto simp: ac_simps)
  qed
qed simp

text \<open>An example: two items in the queue, a third added while the caller waits, which is due first.\<close>

definition dq_ex :: "nat delayQueue" where
  "dq_ex = dq_adds Suc [(0, 7, 1000000000000005000), (0, 8, 1000000000000000002)] (NewDelayQueue 0 0)"

definition passes_ex :: "nat pass list" where
  "passes_ex = [\<lparr> ps_now = 5, ps_adds = [(6, 9, 1000000000000000001)], ps_wake = WTimer \<rparr>,
                \<lparr> ps_now = 1000000000000000001, ps_adds = [], ps_wake = WStop \<rparr>]"

lemma dq_ok_new: "dq_ok (NewDelayQueue nil now)"
  by (simp add: dq_ok_def NewDelayQueue_def pq_wf_new)

lemma dq_ex_ok: "dq_ok dq_ex" "passes_ok passes_ex"
  "dq_items dq_ex = {# \<lparr> di_priority = 1000000000000005000, di_value = 7 \<rparr>, \<lparr> di_priority = 1000000000000000002, di_value = 8 \<rparr> #}"
proof -
  have "adds_ok [(0, 7 :: nat, 1000000000000005000), (0, 8, 1000000000000000002)]"
    by (simp add: adds_ok_def clock_ok_def in_era_def)
  note ex = dq_adds_ok [OF dq_ok_new this, of Suc 0 0, folded dq_ex_def]
  show "dq_ok dq_ex" using ex by blast
  show "dq_items dq_ex = {# \<lparr> di_priority = 1000000000000005000, di_value = 7 \<rparr>, \<lparr> di_priority = 1000000000000000002, di_value = 8 \<rparr> #}"
    using ex by (simp add: add_item_def NewDelayQueue_def pq_wf_new)
  show "passes_ok passes_ex" by (simp add: passes_ok_def passes_ex_def adds_ok_def clock_ok_def in_era_def)
qed

lemma dq_ex_wait:
  obtains dq1 where "dq_take_locked 5 dq_ex = (None, dq1)"
    "dq_ok (dq_adds Suc [(6, 9, 1000000000000000001)] dq1)"
    "dq_items (dq_adds Suc [(6, 9, 1000000000000000001)] dq1) =
       add_mset \<lparr> di_priority = 1000000000000000001, di_value = 9 \<rparr> (dq_items dq_ex)"
    "dq_timer (dq_adds Suc [(6, 9, 1000000000000000001)] dq1) \<le> 1000000000000000001"
proof -
  obtain dq1 where d: "dq_take_locked 5 dq_ex = (None, dq1)"
    by (rule dq_take_locked_cases [OF dq_ex_ok(1), of 5]) (auto simp: clock_ok_def dq_ex_ok(3) add_eq_conv_ex)
  have p: "clock_ok (ps_now (hd passes_ex))" "adds_ok (ps_adds (hd passes_ex))"
    by (simp_all add: passes_ex_def adds_ok_def clock_ok_def in_era_def)
  have d': "dq_take_locked (ps_now (hd passes_ex)) dq_ex = (None, dq1)" using d by (simp add: passes_ex_def)
  have adds: "ps_adds (hd passes_ex) = [(6, 9, 1000000000000000001)]" by (simp add: passes_ex_def)
  note w = dq_waiting [OF dq_ex_ok(1) p d', of Suc, unfolded adds]
  have items: "dq_items (dq_adds Suc [(6, 9, 1000000000000000001)] dq1) =
       add_mset \<lparr> di_priority = 1000000000000000001, di_value = 9 \<rparr> (dq_items dq_ex)"
    using w(3) by (simp add: add_item_def)
  then have "dq_timer (dq_adds Suc [(6, 9, 1000000000000000001)] dq1) \<le> 1000000000000000001"
    using w(2) unfolding timer_earliest_def items by auto
  with that [OF d w(1) items] show thesis by blast
qed

lemma dq_ex_take: "fst (dq_TakeWithStop Suc passes_ex dq_ex) = Taken 9"
proof -
  obtain dq1 where d: "dq_take_locked 5 dq_ex = (None, dq1)"
    "dq_ok (dq_adds Suc [(6, 9, 1000000000000000001)] dq1)"
    "dq_items (dq_adds Suc [(6, 9, 1000000000000000001)] dq1) =
       add_mset \<lparr> di_priority = 1000000000000000001, di_value = 9 \<rparr> (dq_items dq_ex)" by (rule dq_ex_wait)
  have c: "clock_ok 1000000000000000001" by (simp add: clock_ok_def)
  have "\<exists>dq2. dq_take_locked 1000000000000000001 (dq_adds Suc [(6, 9, 1000000000000000001)] dq1) = (Some 9, dq2)"
  proof (cases rule: dq_take_locked_cases [OF d(2) c])
    case (1 x dq2)
    let ?nine = "\<lparr> di_priority = 1000000000000000001, di_value = 9 \<rparr> :: nat delayItem"
    have "x = ?nine"
    proof (rule ccontr)
      assume ne: "x \<noteq> ?nine"
      have eq: "add_mset ?nine (dq_items dq_ex) = add_mset x (dq_items dq2)" using 1(3) d(3) by simp
      then have "?nine \<in># dq_items dq2" "x \<in># dq_items dq_ex" using ne by (metis insert_noteq_member)+
      then show False using 1(5) dq_ex_ok(3) by fastforce
    qed
    then show ?thesis using 1(1) by simp
  next
    case (2 t)
    then show ?thesis using d(3) by simp
  qed
  then show ?thesis using d(1) by (auto simp: passes_ex_def)
qed

theorem dq_take_due_and_earliest_witness:
  "\<exists>x. \<exists>p \<in> set passes_ex. \<exists>added. 9 = di_value x \<and> di_priority x \<le> ps_now p + 1000 \<and>
     mset added \<subseteq># mset (concat (map ps_adds passes_ex)) \<and>
     mset (map add_item added) + dq_items dq_ex = add_mset x (dq_items (snd (dq_TakeWithStop Suc passes_ex dq_ex))) \<and>
     (\<forall>y \<in># dq_items (snd (dq_TakeWithStop Suc passes_ex dq_ex)). di_priority x \<le> di_priority y)"
  by (rule dq_take_due_and_earliest [OF dq_ex_ok(1,2), of Suc]) (metis dq_ex_take prod.collapse)

text \<open>
  C30: no lost wake-up. A caller that finds nothing due blocks; whatever other goroutines add meanwhile, with items in the queue the timer on which it waits then
  stands exactly at the earliest deadline of all items, those that were there and those added, so it fires when the first of them is due; and a
  pass that runs at that time or later takes an item with that deadline. Deadlines are between 2001 and 2262, and the caller is the only one that takes.
\<close>

theorem dq_wakes_for_earliest:
  assumes "dq_ok dq" and "passes_ok (p # q # ps)" and "dq_take_locked (ps_now p) dq = (None, dq1)"
    and "ps_wake p = WTimer" and "dq_items dq \<noteq> {#} \<or> ps_adds p \<noteq> []"
  shows "\<exists>x \<in># mset (map add_item (ps_adds p)) + dq_items dq.
    (\<forall>y \<in># mset (map add_item (ps_adds p)) + dq_items dq. di_priority x \<le> di_priority y) \<and>
    dq_timer (dq_adds grow (ps_adds p) dq1) = di_priority x \<and>
    (di_priority x \<le> ps_now q \<longrightarrow>
      (\<exists>z \<in># mset (map add_item (ps_adds p)) + dq_items dq. di_priority z = di_priority x \<and>
        fst (dq_TakeWithStop grow (p # q # ps) dq) = Taken (di_value z)))"
proof -
  from assms(2) have p: "clock_ok (ps_now p)" "adds_ok (ps_adds p)" and q: "clock_ok (ps_now q)"
    by (auto simp: passes_ok_def)
  let ?dq2 = "dq_adds grow (ps_adds p) dq1" and ?items = "mset (map add_item (ps_adds p)) + dq_items dq"
  note w = dq_waiting [OF assms(1) p assms(3), of grow]
  have "?items \<noteq> {#}" using assms(5) by auto
  then obtain x where x: "x \<in># ?items" "dq_timer ?dq2 = di_priority x" "\<forall>y \<in># ?items. di_priority x \<le> di_priority y"
    using w(2) unfolding timer_earliest_def w(3) by metis
  have "\<exists>z \<in># ?items. di_priority z = di_priority x \<and> fst (dq_TakeWithStop grow (p # q # ps) dq) = Taken (di_value z)" if le: "di_priority x \<le> ps_now q"
  proof (cases rule: dq_take_locked_cases [OF w(1) q])
    case (1 z dq3)
    have i: "?items = add_mset z (dq_items dq3)" using 1(3) w(3) by simp
    then have z: "z \<in># ?items" by simp
    have "di_priority z \<le> di_priority x" using 1(5) x(1) unfolding i by auto
    then have "di_priority z = di_priority x" using x(3) z by (meson order_antisym)
    moreover have "fst (dq_TakeWithStop grow (p # q # ps) dq) = Taken (di_value z)" using 1(1) assms(3,4) by simp
    ultimately show ?thesis using z by blast
  next
    case (2 t)
    have "x \<in># dq_items ?dq2" using x(1) unfolding w(3) .
    then show ?thesis using 2(2) le by force
  qed
  then show ?thesis using x by blast
qed

theorem dq_wakes_for_earliest_witness:
  "\<exists>dq1. dq_take_locked 5 dq_ex = (None, dq1) \<and> dq_timer (dq_adds Suc [(6, 9, 1000000000000000001)] dq1) = 1000000000000000001 \<and>
     fst (dq_TakeWithStop Suc passes_ex dq_ex) = Taken 9"
proof -
  let ?p = "\<lparr> ps_now = 5, ps_adds = [(6, 9, 1000000000000000001)], ps_wake = WTimer \<rparr> :: nat pass"
  let ?q = "\<lparr> ps_now = 1000000000000000001, ps_adds = [], ps_wake = WStop \<rparr> :: nat pass"
  have eq: "passes_ex = ?p # ?q # []" by (simp add: passes_ex_def)
  obtain dq1 where d: "dq_take_locked (ps_now ?p) dq_ex = (None, dq1)" by (rule dq_ex_wait) simp
  have "ps_wake ?p = WTimer" "dq_items dq_ex \<noteq> {#} \<or> ps_adds ?p \<noteq> []" by simp_all
  from dq_wakes_for_earliest [OF dq_ex_ok(1) dq_ex_ok(2) [unfolded eq] d this, of Suc, folded eq]
  obtain x z where "x \<in># mset (map add_item (ps_adds ?p)) + dq_items dq_ex"
      "\<forall>y \<in># mset (map add_item (ps_adds ?p)) + dq_items dq_ex. di_priority x \<le> di_priority y"
      "dq_timer (dq_adds Suc (ps_adds ?p) dq1) = di_priority x"
      "di_priority x \<le> ps_now ?q \<longrightarrow> z \<in># mset (map add_item (ps_adds ?p)) + dq_items dq_ex \<and> di_priority z = di_priority x \<and>
         fst (dq_TakeWithStop Suc passes_ex dq_ex) = Taken (di_value z)"
    by blast
  then show ?thesis using d by (auto simp: dq_ex_ok(3) add_item_def)
qed

text \<open>
  outside that range the queue is not in the order of the deadlines. The texts are compared
  lexicographically, so a deadline of 10 ns comes before one of 9 ns: the item with the later deadline is
  returned first although both are due.
\<close>

theorem dq_short_deadlines_misordered:
  "fst (dq_Take Suc [\<lparr> ps_now = 100, ps_adds = [], ps_wake = WTimer \<rparr>]
     (dq_adds Suc [(0, ''nine'', 9), (0, ''ten'', 10)] (NewDelayQueue [] 0))) = Taken ''ten''"
  by code_simp

end
