(* ===== verification/Ring_Queue.thy ===== *)
theory Ring_Queue
  imports Prelude "HOL-Library.Multiset"
begin

text \<open>
  \<^verbatim>\<open>pkg/basic/safe_ring_queue.go\<close>: a bounded queue in a circular slice, with two condition variables.
  A value of type \<open>interface{}\<close> is an \<open>option\<close> whose \<open>None\<close> is \<open>nil\<close>. The blocking operations are
  \<open>None\<close> where the code waits.

  The sequential part shows that the slice is a first-in first-out queue (locale \<open>bounded_fifo\<close>,
  interpretation \<open>ring\<close>). The concurrent part is a step relation on the queue and the goroutines parked
  on the condition variables, one step per critical section.
\<close>

section \<open>Model\<close>

datatype ring_error = ErrQueueFull | ErrQueueEmpty

record 'v ring =
  rg_data :: "'v option list"
  rg_capacity :: nat
  rg_head :: nat
  rg_tail :: nat
  rg_size :: nat

definition NewSafeRingQueue :: "nat \<Rightarrow> 'v ring" where
  "NewSafeRingQueue cap = \<lparr> rg_data = replicate cap None, rg_capacity = cap, rg_head = 0, rg_tail = 0, rg_size = 0 \<rparr>"

text \<open>The writes shared by the two enqueue operations, and by the two dequeue operations.\<close>

definition ring_store :: "'v option \<Rightarrow> 'v ring \<Rightarrow> 'v ring" where
  "ring_store val q =
     (let q1 = q\<lparr> rg_data := (rg_data q)[rg_tail q := val] \<rparr>;
          q2 = q1\<lparr> rg_tail := (rg_tail q1 + 1) mod rg_capacity q1 \<rparr>
      in q2\<lparr> rg_size := rg_size q2 + 1 \<rparr>)"

definition ring_fetch :: "'v ring \<Rightarrow> 'v option \<times> 'v ring" where
  "ring_fetch q =
     (let val = rg_data q ! rg_head q;
          q1 = q\<lparr> rg_data := (rg_data q)[rg_head q := None] \<rparr>;
          q2 = q1\<lparr> rg_head := (rg_head q1 + 1) mod rg_capacity q1 \<rparr>
      in (val, q2\<lparr> rg_size := rg_size q2 - 1 \<rparr>))"

definition ring_Enqueue :: "'v option \<Rightarrow> 'v ring \<Rightarrow> ring_error option \<times> 'v ring" where
  "ring_Enqueue val q = (if rg_size q = rg_capacity q then (Some ErrQueueFull, q) else (None, ring_store val q))"

definition ring_Dequeue :: "'v ring \<Rightarrow> ('v option \<times> ring_error option) \<times> 'v ring" where
  "ring_Dequeue q =
     (if rg_size q = 0 then ((None, Some ErrQueueEmpty), q)
      else let (val, q1) = ring_fetch q in ((val, None), q1))"

definition ring_Peek :: "'v ring \<Rightarrow> 'v option \<times> ring_error option" where
  "ring_Peek q = (if rg_size q = 0 then (None, Some ErrQueueEmpty) else (rg_data q ! rg_head q, None))"

definition ring_BlockEnqueue :: "'v option \<Rightarrow> 'v ring \<Rightarrow> 'v ring option" where
  "ring_BlockEnqueue val q = (if rg_size q = rg_capacity q then None else Some (ring_store val q))"

definition ring_BlockDequeue :: "'v ring \<Rightarrow> ('v option \<times> 'v ring) option" where
  "ring_BlockDequeue q = (if rg_size q = 0 then None else Some (ring_fetch q))"

definition ring_Size :: "'v ring \<Rightarrow> nat" where
  "ring_Size q = rg_size q"

section \<open>Contents\<close>

definition ring_ok :: "'v ring \<Rightarrow> bool" where
  "ring_ok q \<longleftrightarrow> length (rg_data q) = rg_capacity q \<and> rg_size q \<le> rg_capacity q \<and>
     (0 < rg_capacity q \<longrightarrow> rg_head q < rg_capacity q \<and> rg_tail q = (rg_head q + rg_size q) mod rg_capacity q)"

definition ring_items :: "'v ring \<Rightarrow> 'v option list" where
  "ring_items q = map (\<lambda>i. rg_data q ! ((rg_head q + i) mod rg_capacity q)) [0 ..< rg_size q]"

lemma length_ring_items [simp]: "length (ring_items q) = rg_size q"
  by (simp add: ring_items_def)

lemma mod_add_inj:
  assumes "(h + i) mod c = (h + j) mod c" "i < c" "j < c"
  shows "i = (j :: nat)"
proof -
  have "j = i" if "(h + j) mod c = (h + i) mod c" "i \<le> j" "j < c" for i j
  proof -
    have "c dvd (h + j) - (h + i)" using that by (subst mod_eq_dvd_iff_nat [symmetric]) auto
    then have "c dvd j - i" by simp
    then show ?thesis using that by (auto dest!: dvd_imp_le)
  qed
  then show ?thesis using assms by (metis linorder_le_cases)
qed

lemma ring_store_ok:
  assumes ok: "ring_ok q" and nf: "rg_size q < rg_capacity q"
  shows "ring_ok (ring_store v q)" and "ring_items (ring_store v q) = ring_items q @ [v]"
    and "rg_capacity (ring_store v q) = rg_capacity q"
proof -
  let ?c = "rg_capacity q"
  have c: "0 < ?c" using nf by linarith
  have t: "rg_tail q = (rg_head q + rg_size q) mod ?c" and d: "length (rg_data q) = ?c"
    using ok c by (auto simp: ring_ok_def)
  show "rg_capacity (ring_store v q) = ?c" by (simp add: ring_store_def)
  show "ring_ok (ring_store v q)"
    using ok c nf by (simp add: ring_ok_def ring_store_def mod_Suc_eq)
  have "(rg_head q + i) mod ?c \<noteq> rg_tail q" if "i < rg_size q" for i
    using mod_add_inj [of "rg_head q" i ?c "rg_size q"] t that nf by auto
  then have "(rg_data q)[rg_tail q := v] ! ((rg_head q + i) mod ?c) = rg_data q ! ((rg_head q + i) mod ?c)"
    if "i < rg_size q" for i using that by (metis nth_list_update_neq)
  then have "map (\<lambda>i. (rg_data q)[rg_tail q := v] ! ((rg_head q + i) mod ?c)) [0 ..< rg_size q] = ring_items q"
    by (simp add: ring_items_def)
  moreover have "(rg_data q)[rg_tail q := v] ! ((rg_head q + rg_size q) mod ?c) = v" using t d c by simp
  ultimately show "ring_items (ring_store v q) = ring_items q @ [v]"
    by (simp add: ring_items_def [of "ring_store v q"]) (simp add: ring_store_def)
qed

lemma ring_fetch_ok:
  assumes ok: "ring_ok q" and ne: "0 < rg_size q"
  shows "\<exists>q'. ring_fetch q = (hd (ring_items q), q') \<and> ring_ok q' \<and> ring_items q' = tl (ring_items q) \<and>
    rg_capacity q' = rg_capacity q"
proof -
  let ?c = "rg_capacity q"
  define q' where "q' = snd (ring_fetch q)"
  have c: "0 < ?c" and h: "rg_head q < ?c" and s: "rg_size q \<le> ?c" and d: "length (rg_data q) = ?c"
    using ok ne by (auto simp: ring_ok_def)
  obtain n where n: "rg_size q = Suc n" using ne by (cases "rg_size q") auto
  have up: "[0 ..< Suc n] = 0 # map Suc [0 ..< n]" by (simp add: map_Suc_upt upt_conv_Cons)
  have step: "((rg_head q + 1) mod ?c + i) mod ?c = (rg_head q + Suc i) mod ?c" for i
    by (simp add: mod_add_left_eq)
  have item: "(rg_data q)[rg_head q := None] ! ((rg_head q + Suc i) mod ?c) = rg_data q ! ((rg_head q + Suc i) mod ?c)"
    if "i < n" for i
    using mod_add_inj [of "rg_head q" "Suc i" ?c 0] that n s h by (intro nth_list_update_neq) auto
  have q': "rg_data q' = (rg_data q)[rg_head q := None]" "rg_head q' = (rg_head q + 1) mod ?c"
      "rg_size q' = n" "rg_capacity q' = ?c" "rg_tail q' = rg_tail q"
    using n by (simp_all add: q'_def ring_fetch_def Let_def)
  have "ring_ok q'"
    using ok c n s d step [of n] by (simp add: q' ring_ok_def)
  moreover have "ring_items q' = tl (ring_items q)"
    unfolding ring_items_def q' step n up using item by simp
  moreover have "fst (ring_fetch q) = hd (ring_items q)"
    using n h by (simp add: ring_items_def ring_fetch_def Let_def up del: upt_Suc)
  ultimately show ?thesis using q'(4) by (metis q'_def prod.collapse)
qed

section \<open>Interface\<close>

text \<open>A run of calls: \<open>Some v\<close> enqueues \<open>v\<close>, \<open>None\<close> dequeues. The values accepted and the values returned.\<close>

fun fifo_run :: "('v \<Rightarrow> 'q \<Rightarrow> 'e option \<times> 'q) \<Rightarrow> ('q \<Rightarrow> ('v \<times> 'e option) \<times> 'q) \<Rightarrow>
    'v option list \<Rightarrow> 'q \<Rightarrow> 'v list \<times> 'v list \<times> 'q" where
  "fifo_run enq deq [] q = ([], [], q)"
| "fifo_run enq deq (Some v # cs) q =
     (let (e, q1) = enq v q; (ins, outs, q2) = fifo_run enq deq cs q1
      in (if e = None then v # ins else ins, outs, q2))"
| "fifo_run enq deq (None # cs) q =
     (let ((v, e), q1) = deq q; (ins, outs, q2) = fifo_run enq deq cs q1
      in (ins, if e = None then v # outs else outs, q2))"

text \<open>What a bounded queue promises to a caller: the contents are a list of at most \<open>cap\<close> values.\<close>

locale bounded_fifo =
  fixes enq :: "'v \<Rightarrow> 'q \<Rightarrow> 'e option \<times> 'q"
    and deq :: "'q \<Rightarrow> ('v \<times> 'e option) \<times> 'q"
    and items :: "'q \<Rightarrow> 'v list"
    and cap :: "'q \<Rightarrow> nat"
    and ok :: "'q \<Rightarrow> bool"
  assumes bound: "ok q \<Longrightarrow> length (items q) \<le> cap q"
    and enq_room: "ok q \<Longrightarrow> length (items q) < cap q \<Longrightarrow>
          \<exists>q'. enq v q = (None, q') \<and> ok q' \<and> items q' = items q @ [v] \<and> cap q' = cap q"
    and enq_full: "ok q \<Longrightarrow> length (items q) = cap q \<Longrightarrow> \<exists>e. enq v q = (Some e, q)"
    and deq_some: "ok q \<Longrightarrow> items q \<noteq> [] \<Longrightarrow>
          \<exists>q'. deq q = ((hd (items q), None), q') \<and> ok q' \<and> items q' = tl (items q) \<and> cap q' = cap q"
    and deq_none: "ok q \<Longrightarrow> items q = [] \<Longrightarrow> \<exists>v e. deq q = ((v, Some e), q)"
begin

lemma run_fifo:
  "ok q \<Longrightarrow> fifo_run enq deq cs q = (ins, outs, q') \<Longrightarrow>
   ok q' \<and> items q @ ins = outs @ items q' \<and> length (items q') \<le> cap q \<and> cap q' = cap q"
proof (induction cs arbitrary: q ins outs)
  case Nil
  then show ?case using bound by auto
next
  case (Cons call cs)
  consider (room) v where "call = Some v" "length (items q) < cap q" | (full) v where "call = Some v" "length (items q) = cap q"
    | (empty) "call = None" "items q = []" | (some) "call = None" "items q \<noteq> []"
    using bound [OF Cons(2)] by (cases call) (auto simp: le_less)
  then show ?case
  proof cases
    case room
    then obtain q1 where q1: "enq v q = (None, q1)" "ok q1" "items q1 = items q @ [v]" "cap q1 = cap q"
      using enq_room [OF Cons(2)] by blast
    then have r: "fifo_run enq deq cs q1 = (tl ins, outs, q')" "ins = v # tl ins"
      using Cons(3) room by (auto simp: Let_def split: prod.splits)
    show ?thesis using Cons(1) [OF q1(2) r(1)] q1(3,4) r(2) by (metis append_Cons append_assoc append_Nil)
  next
    case full
    then show ?thesis using enq_full [OF Cons(2) full(2), of v] Cons by (auto split: prod.splits)
  next
    case empty
    then obtain v e where "deq q = ((v, Some e), q)" using deq_none [OF Cons(2)] by blast
    then have "fifo_run enq deq cs q = (ins, outs, q')" using Cons(3) empty by (auto split: prod.splits)
    then show ?thesis using Cons(1) [OF Cons(2)] by blast
  next
    case some
    then obtain q1 where q1: "deq q = ((hd (items q), None), q1)" "ok q1" "items q1 = tl (items q)" "cap q1 = cap q"
      using deq_some [OF Cons(2)] by blast
    then have r: "fifo_run enq deq cs q1 = (ins, tl outs, q')" "outs = hd (items q) # tl outs"
      using Cons(3) some by (auto simp: Let_def split: prod.splits)
    show ?thesis using Cons(1) [OF q1(2) r(1)] q1(3,4) some r(2) by (metis append_Cons list.collapse)
  qed
qed

end

interpretation ring: bounded_fifo ring_Enqueue ring_Dequeue ring_items rg_capacity ring_ok
proof unfold_locales
  fix q :: "'v ring" and v
  assume ok: "ring_ok q"
  show "length (ring_items q) \<le> rg_capacity q" using ok by (simp add: ring_ok_def)
  show "\<exists>q'. ring_Enqueue v q = (None, q') \<and> ring_ok q' \<and> ring_items q' = ring_items q @ [v] \<and> rg_capacity q' = rg_capacity q"
    if "length (ring_items q) < rg_capacity q"
    using ring_store_ok [OF ok, of v] that by (simp add: ring_Enqueue_def)
  show "\<exists>e. ring_Enqueue v q = (Some e, q)" if "length (ring_items q) = rg_capacity q"
    using that by (simp add: ring_Enqueue_def)
  show "\<exists>q'. ring_Dequeue q = ((hd (ring_items q), None), q') \<and> ring_ok q' \<and> ring_items q' = tl (ring_items q) \<and>
      rg_capacity q' = rg_capacity q" if "ring_items q \<noteq> []"
  proof -
    have "0 < rg_size q" using that by (metis length_greater_0_conv length_ring_items)
    then show ?thesis using ring_fetch_ok [OF ok] by (auto simp: ring_Dequeue_def)
  qed
  show "\<exists>v e. ring_Dequeue q = ((v, Some e), q)" if "ring_items q = []"
    using that by (metis list.size(3) length_ring_items ring_Dequeue_def)
qed

lemma ring_new: "ring_ok (NewSafeRingQueue c)" "ring_items (NewSafeRingQueue c) = []" "rg_capacity (NewSafeRingQueue c) = c"
  by (simp_all add: ring_ok_def NewSafeRingQueue_def ring_items_def)

section \<open>Properties\<close>

text \<open>
  first in, first out, within the capacity. For any sequence of Enqueue and Dequeue calls on a new
  queue, the values accepted by Enqueue, in order, are the values returned by Dequeue followed by the
  values still in the slice, of which there are never more than the capacity.
\<close>

theorem ring_run_fifo:
  "case fifo_run ring_Enqueue ring_Dequeue cs (NewSafeRingQueue c) of (ins, outs, q) \<Rightarrow>
     ins = outs @ ring_items q \<and> ring_Size q = length (ring_items q) \<and> ring_Size q \<le> c"
proof -
  obtain ins outs q where r: "fifo_run ring_Enqueue ring_Dequeue cs (NewSafeRingQueue c) = (ins, outs, q)"
    by (metis prod_cases3)
  show ?thesis using ring.run_fifo [OF ring_new(1) r] r by (simp add: ring_new ring_Size_def)
qed

section \<open>Blocking callers\<close>

text \<open>
  The queue with the goroutines parked in \<open>Wait\<close>: the values that producers parked on \<open>notFull\<close> want to
  enqueue and the number of consumers parked on \<open>notEmpty\<close>, each split into those not yet signalled
  and those signalled, which run again once they get the lock. \<open>Signal\<close> moves one parked goroutine from
  the first group to the second, if there is one; which one does not matter here.
\<close>

record 'v ring_sys =
  rs_q :: "'v ring"
  rs_full :: "'v option multiset"
  rs_full_sig :: "'v option multiset"
  rs_empty :: nat
  rs_empty_sig :: nat
  rs_in :: "'v option list"
  rs_out :: "'v option list"

definition signal_notEmpty :: "'v ring_sys \<Rightarrow> 'v ring_sys" where
  "signal_notEmpty s = (if rs_empty s = 0 then s
     else s\<lparr> rs_empty := rs_empty s - 1, rs_empty_sig := rs_empty_sig s + 1 \<rparr>)"

inductive signal_notFull :: "'v ring_sys \<Rightarrow> 'v ring_sys \<Rightarrow> bool" where
  none: "rs_full s = {#} \<Longrightarrow> signal_notFull s s"
| one: "v \<in># rs_full s \<Longrightarrow>
    signal_notFull s (s\<lparr> rs_full := rs_full s - {#v#}, rs_full_sig := add_mset v (rs_full_sig s) \<rparr>)"

text \<open>The rest of \<open>BlockEnqueue\<close> and \<open>BlockDequeue\<close> from the test of the loop condition on.\<close>

inductive produce :: "'v option \<Rightarrow> 'v ring_sys \<Rightarrow> 'v ring_sys \<Rightarrow> bool" where
  wait: "ring_BlockEnqueue v (rs_q s) = None \<Longrightarrow> produce v s (s\<lparr> rs_full := add_mset v (rs_full s) \<rparr>)"
| store: "ring_BlockEnqueue v (rs_q s) = Some q \<Longrightarrow>
    produce v s (signal_notEmpty (s\<lparr> rs_q := q, rs_in := rs_in s @ [v] \<rparr>))"

inductive consume :: "'v ring_sys \<Rightarrow> 'v ring_sys \<Rightarrow> bool" where
  wait: "ring_BlockDequeue (rs_q s) = None \<Longrightarrow> consume s (s\<lparr> rs_empty := rs_empty s + 1 \<rparr>)"
| fetch: "ring_BlockDequeue (rs_q s) = Some (v, q) \<Longrightarrow>
    signal_notFull (s\<lparr> rs_q := q, rs_out := rs_out s @ [v] \<rparr>) s' \<Longrightarrow> consume s s'"

text \<open>
  One critical section: a new call of a blocking operation, a signalled goroutine that gets the lock, or
  a call of \<open>Enqueue\<close> or \<open>Dequeue\<close>, which changes nothing when it returns an error.
\<close>

inductive ring_step :: "'v ring_sys \<Rightarrow> 'v ring_sys \<Rightarrow> bool" where
  block_enqueue: "produce v s s' \<Longrightarrow> ring_step s s'"
| resume_enqueue: "v \<in># rs_full_sig s \<Longrightarrow> produce v (s\<lparr> rs_full_sig := rs_full_sig s - {#v#} \<rparr>) s' \<Longrightarrow> ring_step s s'"
| block_dequeue: "consume s s' \<Longrightarrow> ring_step s s'"
| resume_dequeue: "0 < rs_empty_sig s \<Longrightarrow> consume (s\<lparr> rs_empty_sig := rs_empty_sig s - 1 \<rparr>) s' \<Longrightarrow> ring_step s s'"
| enqueue: "ring_Enqueue v (rs_q s) = (None, q) \<Longrightarrow>
    ring_step s (signal_notEmpty (s\<lparr> rs_q := q, rs_in := rs_in s @ [v] \<rparr>))"
| dequeue: "ring_Dequeue (rs_q s) = ((v, None), q) \<Longrightarrow>
    signal_notFull (s\<lparr> rs_q := q, rs_out := rs_out s @ [v] \<rparr>) s' \<Longrightarrow> ring_step s s'"

definition ring_init :: "nat \<Rightarrow> 'v ring_sys" where
  "ring_init c = \<lparr> rs_q = NewSafeRingQueue c, rs_full = {#}, rs_full_sig = {#}, rs_empty = 0, rs_empty_sig = 0,
     rs_in = [], rs_out = [] \<rparr>"

inductive_cases produceE: "produce v s s'"
inductive_cases consumeE: "consume s s'"
inductive_cases signal_notFullE: "signal_notFull s s'"

text \<open>
  The invariant: a goroutine is parked without a signal only while enough signalled ones are on their way
  to use what is available (\<open>sys_wake\<close>); the queue holds what went in and did not come out (\<open>sys_data\<close>).
\<close>

definition sys_data :: "nat \<Rightarrow> 'v ring_sys \<Rightarrow> bool" where
  "sys_data c s \<longleftrightarrow> ring_ok (rs_q s) \<and> rg_capacity (rs_q s) = c \<and> rs_in s = rs_out s @ ring_items (rs_q s)"

definition sys_wake :: "nat \<Rightarrow> nat \<Rightarrow> 'v ring_sys \<Rightarrow> bool" where
  "sys_wake n free s \<longleftrightarrow> (0 < rs_empty s \<longrightarrow> n \<le> rs_empty_sig s) \<and>
     (rs_full s \<noteq> {#} \<longrightarrow> free \<le> size (rs_full_sig s))"

definition sys_inv :: "nat \<Rightarrow> 'v ring_sys \<Rightarrow> bool" where
  "sys_inv c s \<longleftrightarrow> sys_data c s \<and> sys_wake (rg_size (rs_q s)) (c - rg_size (rs_q s)) s"

lemma produce_inv:
  assumes "produce v s s'" and d: "sys_data c s"
    and e: "0 < rs_empty s \<longrightarrow> rg_size (rs_q s) \<le> rs_empty_sig s"
    and f: "rs_full s \<noteq> {#} \<longrightarrow> c - rg_size (rs_q s) \<le> size (rs_full_sig s) + 1"
  shows "sys_inv c s'"
  using assms(1)
proof cases
  case wait
  then have "rg_size (rs_q s) = c" using d by (simp add: ring_BlockEnqueue_def sys_data_def split: if_splits)
  then show ?thesis using wait d e by (simp add: sys_inv_def sys_data_def sys_wake_def)
next
  case (store q)
  have ok: "ring_ok (rs_q s)" and lt: "rg_size (rs_q s) < rg_capacity (rs_q s)" and q: "q = ring_store v (rs_q s)"
    using store(2) d by (auto simp: ring_BlockEnqueue_def sys_data_def ring_ok_def split: if_splits)
  have "rg_size q = Suc (rg_size (rs_q s))" by (simp add: q ring_store_def Let_def)
  then show ?thesis
    using store(1) ring_store_ok [OF ok lt, of v] d e f
    by (auto simp: q [symmetric] sys_inv_def sys_data_def sys_wake_def signal_notEmpty_def)
qed

lemma consume_inv:
  assumes "consume s s'" and d: "sys_data c s"
    and e: "0 < rs_empty s \<longrightarrow> rg_size (rs_q s) \<le> rs_empty_sig s + 1"
    and f: "rs_full s \<noteq> {#} \<longrightarrow> c - rg_size (rs_q s) \<le> size (rs_full_sig s)"
  shows "sys_inv c s'"
  using assms(1)
proof cases
  case wait
  then have "rg_size (rs_q s) = 0" by (simp add: ring_BlockDequeue_def split: if_splits)
  then show ?thesis using wait d f by (simp add: sys_inv_def sys_data_def sys_wake_def)
next
  case (fetch v q)
  have ok: "ring_ok (rs_q s)" and pos: "0 < rg_size (rs_q s)" and vq: "ring_fetch (rs_q s) = (v, q)"
    using fetch(1) d by (auto simp: ring_BlockDequeue_def sys_data_def split: if_splits)
  have v: "v = hd (ring_items (rs_q s))" and q: "ring_ok q" "ring_items q = tl (ring_items (rs_q s))"
      "rg_capacity q = rg_capacity (rs_q s)"
    using ring_fetch_ok [OF ok pos] vq by auto
  have sz: "rg_size q = rg_size (rs_q s) - 1" using vq by (auto simp: ring_fetch_def Let_def)
  have le: "rg_size (rs_q s) \<le> c" using d by (simp add: sys_data_def ring_ok_def)
  have "ring_items (rs_q s) \<noteq> []" using pos by (metis length_greater_0_conv length_ring_items)
  then have data: "sys_data c (s\<lparr> rs_q := q, rs_out := rs_out s @ [v] \<rparr>)"
    using d v q by (simp add: sys_data_def)
  from fetch(2) show ?thesis
  proof cases
    case none
    then show ?thesis using data e sz by (auto simp: sys_inv_def sys_wake_def sys_data_def)
  next
    case (one w)
    then show ?thesis using data e f sz pos le by (auto simp: sys_inv_def sys_wake_def sys_data_def)
  qed
qed

lemma ring_step_inv:
  assumes "ring_step s s'" and inv: "sys_inv c s"
  shows "sys_inv c s'"
  using assms(1)
proof cases
  case (block_enqueue v)
  then show ?thesis by (rule produce_inv) (use inv in \<open>auto simp: sys_inv_def sys_wake_def\<close>)
next
  case (resume_enqueue v)
  from resume_enqueue(2) show ?thesis
    by (rule produce_inv)
       (use inv resume_enqueue(1) in \<open>auto simp: sys_inv_def sys_data_def sys_wake_def size_Diff_singleton\<close>)
next
  case block_dequeue
  then show ?thesis by (rule consume_inv) (use inv in \<open>auto simp: sys_inv_def sys_wake_def\<close>)
next
  case resume_dequeue
  from resume_dequeue(2) show ?thesis
    by (rule consume_inv) (use inv resume_dequeue(1) in \<open>auto simp: sys_inv_def sys_data_def sys_wake_def\<close>)
next
  case (enqueue v q)
  then have "ring_BlockEnqueue v (rs_q s) = Some q" by (auto simp: ring_Enqueue_def ring_BlockEnqueue_def split: if_splits)
  then have "produce v s s'" unfolding enqueue(1) by (rule produce.store)
  then show ?thesis by (rule produce_inv) (use inv in \<open>auto simp: sys_inv_def sys_wake_def\<close>)
next
  case (dequeue v q)
  then have "ring_BlockDequeue (rs_q s) = Some (v, q)"
    by (auto simp: ring_Dequeue_def ring_BlockDequeue_def split: if_splits prod.splits)
  then have "consume s s'" using dequeue(2) by (rule consume.fetch)
  then show ?thesis by (rule consume_inv) (use inv in \<open>auto simp: sys_inv_def sys_wake_def\<close>)
qed

lemma ring_steps_inv: "ring_step\<^sup>*\<^sup>* (ring_init c) s \<Longrightarrow> sys_inv c s"
proof (induction rule: rtranclp_induct)
  case base
  show ?case by (simp add: ring_init_def sys_inv_def sys_data_def sys_wake_def ring_new)
qed (rule ring_step_inv)

text \<open>
  C28: any interleaving of blocking and non-blocking calls, of any number of goroutines, keeps the queue
  first-in first-out and bounded, and loses no wake-up: when there is a value and a consumer is parked,
  some consumer has been signalled and will run, and when there is room and a producer is parked, some
  producer has been signalled.
\<close>

theorem ring_no_lost_wakeup:
  assumes "ring_step\<^sup>*\<^sup>* (ring_init c) s"
  shows "rs_in s = rs_out s @ ring_items (rs_q s) \<and> ring_Size (rs_q s) \<le> c \<and>
     (0 < rs_empty s \<and> 0 < ring_Size (rs_q s) \<longrightarrow> 0 < rs_empty_sig s) \<and>
     (rs_full s \<noteq> {#} \<and> ring_Size (rs_q s) < c \<longrightarrow> rs_full_sig s \<noteq> {#})"
  using ring_steps_inv [OF assms]
  by (auto simp: sys_inv_def sys_data_def sys_wake_def ring_ok_def ring_Size_def)

text \<open>An example: two consumers park on a queue of capacity 1, then a producer comes.\<close>

definition ring_ex :: "nat ring_sys" where
  "ring_ex = \<lparr> rs_q = \<lparr> rg_data = [Some 5], rg_capacity = 1, rg_head = 0, rg_tail = 0, rg_size = 1 \<rparr>,
     rs_full = {#}, rs_full_sig = {#}, rs_empty = 1, rs_empty_sig = 1, rs_in = [Some 5], rs_out = [] \<rparr>"

lemma ring_ex_steps: "ring_step\<^sup>*\<^sup>* (ring_init 1) ring_ex"
proof -
  let ?s1 = "(ring_init 1)\<lparr> rs_empty := 1 \<rparr> :: nat ring_sys"
  let ?s2 = "(ring_init 1)\<lparr> rs_empty := 2 \<rparr> :: nat ring_sys"
  have b0: "ring_BlockDequeue (NewSafeRingQueue 1) = None" by (simp add: ring_BlockDequeue_def NewSafeRingQueue_def)
  have b1: "ring_BlockEnqueue (Some 5) (NewSafeRingQueue 1) = Some (rs_q ring_ex)"
    by (simp add: ring_BlockEnqueue_def NewSafeRingQueue_def ring_store_def ring_ex_def)
  have "ring_step (ring_init 1) ?s1"
    using ring_step.block_dequeue [OF consume.wait, of "ring_init 1"] b0 by (simp add: ring_init_def)
  moreover have "ring_step ?s1 ?s2"
    using ring_step.block_dequeue [OF consume.wait, of ?s1] b0 by (simp add: ring_init_def numeral_2_eq_2)
  moreover have "ring_step ?s2 ring_ex"
    using ring_step.block_enqueue [OF produce.store, of "Some 5" ?s2 "rs_q ring_ex"] b1
    by (simp add: ring_init_def signal_notEmpty_def ring_ex_def numeral_2_eq_2)
  ultimately show ?thesis by (meson converse_rtranclp_into_rtranclp rtranclp.rtrancl_refl)
qed

theorem ring_no_lost_wakeup_witness:
  "rs_in ring_ex = rs_out ring_ex @ ring_items (rs_q ring_ex) \<and> ring_Size (rs_q ring_ex) \<le> 1 \<and> 0 < rs_empty_sig ring_ex"
  using ring_no_lost_wakeup [OF ring_ex_steps] by (simp add: ring_ex_def ring_Size_def)

end
