(* ===== verification/Linked_List.thy ===== *)
theory Linked_List
  imports Prelude
begin

text \<open>
  \<^verbatim>\<open>pkg/basic/linked_list.go\<close> and \<^verbatim>\<open>pkg/basic/set.go\<close>. The list is a doubly linked list in an explicit
  node store; \<open>None\<close> as the result of a removal is the panic of a nil dereference.

  Removing at one end leaves the link of the neighbour to the removed node in place. Used from one end
  only for removals (\<open>AddFirst\<close>, \<open>AddLast\<close>, \<open>RemoveFirst\<close>) the list is what it should be; when removals at
  both ends are mixed it is not, which the last theorem shows on a concrete run.
\<close>

section \<open>LinkedList\<close>

datatype list_error = ErrNilElement

record 't llist =
  ll_size :: nat
  ll_zero :: 't
  ll_first :: ptr
  ll_last :: ptr
  ll_item :: "addr \<Rightarrow> 't"
  ll_prev :: "addr \<Rightarrow> ptr"
  ll_next :: "addr \<Rightarrow> ptr"
  ll_brk :: addr

definition ll_new :: "'t \<Rightarrow> 't llist" where
  "ll_new z = \<lparr> ll_size = 0, ll_zero = z, ll_first = None, ll_last = None, ll_item = (\<lambda>_. z),
     ll_prev = (\<lambda>_. None), ll_next = (\<lambda>_. None), ll_brk = 0 \<rparr>"

definition ll_node :: "'t \<Rightarrow> 't llist \<Rightarrow> addr \<times> 't llist" where
  "ll_node it l = (let n = ll_brk l in
     (n, l\<lparr> ll_item := (ll_item l)(n := it), ll_prev := (ll_prev l)(n := None),
            ll_next := (ll_next l)(n := None), ll_brk := Suc n \<rparr>))"

definition ll_AddFirst :: "'t \<Rightarrow> 't llist \<Rightarrow> 't llist" where
  "ll_AddFirst it l0 =
     (let (n, l) = ll_node it l0;
          l1 = (case ll_first l of
                  None \<Rightarrow> l\<lparr> ll_first := Some n, ll_last := Some n \<rparr>
                | Some f \<Rightarrow>
                    let l2 = l\<lparr> ll_next := (ll_next l)(n := Some f) \<rparr>;
                        l3 = l2\<lparr> ll_prev := (ll_prev l2)(f := Some n) \<rparr>
                    in l3\<lparr> ll_first := Some n \<rparr>)
      in l1\<lparr> ll_size := ll_size l1 + 1 \<rparr>)"

definition ll_AddLast :: "'t \<Rightarrow> 't llist \<Rightarrow> 't llist" where
  "ll_AddLast it l0 =
     (let (n, l) = ll_node it l0;
          l1 = (case ll_last l of
                  None \<Rightarrow> l\<lparr> ll_last := Some n, ll_first := Some n \<rparr>
                | Some t \<Rightarrow>
                    let l2 = l\<lparr> ll_prev := (ll_prev l)(n := Some t) \<rparr>;
                        l3 = l2\<lparr> ll_next := (ll_next l2)(t := Some n) \<rparr>
                    in l3\<lparr> ll_last := Some n \<rparr>)
      in l1\<lparr> ll_size := ll_size l1 + 1 \<rparr>)"

definition ll_RemoveFirst :: "'t llist \<Rightarrow> (('t \<times> list_error option) \<times> 't llist) option" where
  "ll_RemoveFirst l =
     (if ll_size l = 0 then Some ((ll_zero l, Some ErrNilElement), l)
      else case ll_first l of
             None \<Rightarrow> None
           | Some f \<Rightarrow>
               let res = ll_item l f;
                   l1 = (if ll_next l f \<noteq> None then l\<lparr> ll_first := ll_next l f \<rparr>
                         else l\<lparr> ll_first := None, ll_last := None \<rparr>)
               in Some ((res, None), l1\<lparr> ll_size := ll_size l1 - 1 \<rparr>))"

definition ll_RemoveLast :: "'t llist \<Rightarrow> (('t \<times> list_error option) \<times> 't llist) option" where
  "ll_RemoveLast l =
     (if ll_size l = 0 then Some ((ll_zero l, Some ErrNilElement), l)
      else case ll_last l of
             None \<Rightarrow> None
           | Some t \<Rightarrow>
               let res = ll_item l t;
                   l1 = (if ll_prev l t \<noteq> None then l\<lparr> ll_last := ll_prev l t \<rparr>
                         else l\<lparr> ll_first := None, ll_last := None \<rparr>)
               in Some ((res, None), l1\<lparr> ll_size := ll_size l1 - 1 \<rparr>))"

definition ll_Size :: "'t llist \<Rightarrow> nat" where
  "ll_Size l = ll_size l"

text \<open>The loop does not change \<open>index\<close>, so the result is 0 or -1. \<open>None\<close> is a walk that does not end.\<close>

fun ll_indexOf_loop :: "nat \<Rightarrow> 't \<Rightarrow> 't llist \<Rightarrow> ptr \<Rightarrow> int option" where
  "ll_indexOf_loop fuel it l None = Some (-1)"
| "ll_indexOf_loop 0 it l (Some p) = None"
| "ll_indexOf_loop (Suc fuel) it l (Some p) =
     (if ll_item l p = it then Some 0 else ll_indexOf_loop fuel it l (ll_next l p))"

definition ll_indexOf :: "'t \<Rightarrow> 't llist \<Rightarrow> int option" where
  "ll_indexOf it l = ll_indexOf_loop (ll_brk l) it l (ll_first l)"

definition ll_Contains :: "'t \<Rightarrow> 't llist \<Rightarrow> bool option" where
  "ll_Contains it l = map_option (\<lambda>i. i \<noteq> -1) (ll_indexOf it l)"

section \<open>Forward use\<close>

definition ll_rep :: "'t llist \<Rightarrow> addr list \<Rightarrow> bool" where
  "ll_rep l ps \<longleftrightarrow> fseg (ll_next l) ps None \<and> distinct ps \<and> (\<forall>p \<in> set ps. p < ll_brk l) \<and>
     ll_first l = first_or ps None \<and> ll_last l = last_or None ps \<and> ll_size l = length ps"

definition ll_repr :: "'t llist \<Rightarrow> 't list \<Rightarrow> bool" where
  "ll_repr l xs \<longleftrightarrow> (\<exists>ps. ll_rep l ps \<and> xs = map (ll_item l) ps)"

lemma ll_AddFirst_repr:
  assumes "ll_repr l xs"
  shows "ll_repr (ll_AddFirst it l) (it # xs)"
proof -
  obtain ps where ps: "ll_rep l ps" "xs = map (ll_item l) ps" using assms by (auto simp: ll_repr_def)
  have new: "ll_brk l \<notin> set ps" using ps(1) by (auto simp: ll_rep_def)
  have "ll_rep (ll_AddFirst it l) (ll_brk l # ps) \<and> it # xs = map (ll_item (ll_AddFirst it l)) (ll_brk l # ps)"
    using ps new by (cases ps) (auto simp: ll_AddFirst_def ll_node_def ll_rep_def Let_def)
  then show ?thesis unfolding ll_repr_def by (rule exI)
qed

lemma ll_AddLast_repr:
  assumes "ll_repr l xs"
  shows "ll_repr (ll_AddLast it l) (xs @ [it])"
proof -
  obtain ps where ps: "ll_rep l ps" "xs = map (ll_item l) ps" using assms by (auto simp: ll_repr_def)
  have new: "ll_brk l \<notin> set ps" using ps(1) by (auto simp: ll_rep_def)
  have "ll_rep (ll_AddLast it l) (ps @ [ll_brk l]) \<and> xs @ [it] = map (ll_item (ll_AddLast it l)) (ps @ [ll_brk l])"
    using ps new
    by (cases ps rule: rev_cases) (auto simp: ll_AddLast_def ll_node_def ll_rep_def Let_def fseg_append)
  then show ?thesis unfolding ll_repr_def by (rule exI)
qed

lemma ll_RemoveFirst_repr:
  assumes "ll_repr l xs"
  shows "(xs = [] \<longrightarrow> ll_RemoveFirst l = Some ((ll_zero l, Some ErrNilElement), l)) \<and>
    (xs \<noteq> [] \<longrightarrow> (\<exists>l'. ll_RemoveFirst l = Some ((hd xs, None), l') \<and> ll_repr l' (tl xs)))"
proof -
  obtain ps where ps: "ll_rep l ps" "xs = map (ll_item l) ps" using assms by (auto simp: ll_repr_def)
  show ?thesis
  proof (cases ps)
    case Nil
    then show ?thesis using ps by (simp add: ll_RemoveFirst_def ll_rep_def)
  next
    case (Cons p qs)
    let ?l' = "snd (the (ll_RemoveFirst l))"
    have "ll_RemoveFirst l = Some ((hd xs, None), ?l')" "ll_rep ?l' qs" "tl xs = map (ll_item ?l') qs"
      using ps Cons by (cases qs; auto simp: ll_RemoveFirst_def ll_rep_def Let_def)+
    then have "\<exists>l'. ll_RemoveFirst l = Some ((hd xs, None), l') \<and> ll_repr l' (tl xs)" unfolding ll_repr_def by blast
    then show ?thesis using ps(2) Cons by simp
  qed
qed

lemma ll_indexOf_loop_fseg:
  "fseg (ll_next l) ps None \<Longrightarrow> length ps \<le> fuel \<Longrightarrow>
   ll_indexOf_loop fuel it l (first_or ps None) = Some (if it \<in> ll_item l ` set ps then 0 else -1)"
proof (induction ps arbitrary: fuel)
  case (Cons p ps)
  then obtain k where "fuel = Suc k" "length ps \<le> k" by (cases fuel) auto
  with Cons show ?case by auto
qed simp

lemma ll_Contains_repr: "ll_repr l xs \<Longrightarrow> ll_Contains it l = Some (it \<in> set xs) \<and> ll_Size l = length xs"
proof -
  assume "ll_repr l xs"
  then obtain ps where ps: "ll_rep l ps" "xs = map (ll_item l) ps" by (auto simp: ll_repr_def)
  have "set ps \<subseteq> {..< ll_brk l}" using ps(1) by (auto simp: ll_rep_def)
  then have "length ps \<le> ll_brk l"
    using ps(1) by (metis card_lessThan card_mono distinct_card finite_lessThan ll_rep_def)
  then show ?thesis
    using ps ll_indexOf_loop_fseg [of l ps "ll_brk l" it]
    by (auto simp: ll_Contains_def ll_indexOf_def ll_Size_def ll_rep_def)
qed

section \<open>Properties\<close>

datatype 't ll_op = LAddFirst 't | LAddLast 't | LRemoveFirst | LRemoveLast

fun ll_step :: "'t ll_op \<Rightarrow> 't llist option \<Rightarrow> 't llist option" where
  "ll_step (LAddFirst x) l = map_option (ll_AddFirst x) l"
| "ll_step (LAddLast x) l = map_option (ll_AddLast x) l"
| "ll_step LRemoveFirst l = map_option snd (Option.bind l ll_RemoveFirst)"
| "ll_step LRemoveLast l = map_option snd (Option.bind l ll_RemoveLast)"

fun ll_spec :: "'t ll_op \<Rightarrow> 't list \<Rightarrow> 't list" where
  "ll_spec (LAddFirst x) xs = x # xs"
| "ll_spec (LAddLast x) xs = xs @ [x]"
| "ll_spec LRemoveFirst xs = tl xs"
| "ll_spec LRemoveLast xs = butlast xs"

lemma ll_run_repr:
  "LRemoveLast \<notin> set ops \<Longrightarrow> ll_repr l xs \<Longrightarrow> \<exists>l'. fold ll_step ops (Some l) = Some l' \<and> ll_repr l' (fold ll_spec ops xs)"
proof (induction ops arbitrary: l xs)
  case (Cons op ops)
  have "\<exists>l'. ll_step op (Some l) = Some l' \<and> ll_repr l' (ll_spec op xs)"
    using Cons(2,3) ll_AddFirst_repr [OF Cons(3)] ll_AddLast_repr [OF Cons(3)] ll_RemoveFirst_repr [OF Cons(3)]
    by (cases op; cases "xs = []") (auto simp del: not_None_eq)
  with Cons show ?case by auto
qed simp

text \<open>
  C36: with AddFirst, AddLast and RemoveFirst only, a LinkedList never panics and is the list those calls
  describe: RemoveFirst returns its first element (or \<open>ErrOfNilElement\<close> when it is empty), Size its
  length, and Contains exactly its elements.
\<close>

theorem ll_forward_use_refines_list:
  assumes "LRemoveLast \<notin> set ops"
  shows "\<exists>l. fold ll_step ops (Some (ll_new z)) = Some l \<and> ll_Size l = length (fold ll_spec ops []) \<and>
    (\<forall>x. ll_Contains x l = Some (x \<in> set (fold ll_spec ops []))) \<and>
    map_option fst (ll_RemoveFirst l) =
      Some (case fold ll_spec ops [] of [] \<Rightarrow> (ll_zero l, Some ErrNilElement) | x # _ \<Rightarrow> (x, None))"
proof -
  have "ll_repr (ll_new z) []" unfolding ll_repr_def by (rule exI [of _ "[]"]) (simp add: ll_rep_def ll_new_def)
  from ll_run_repr [OF assms this] obtain l where
    l: "fold ll_step ops (Some (ll_new z)) = Some l" "ll_repr l (fold ll_spec ops [])" by blast
  then show ?thesis
    using ll_Contains_repr [OF l(2)] ll_RemoveFirst_repr [OF l(2)] by (auto split: list.splits)
qed

theorem ll_forward_use_refines_list_witness:
  "\<exists>l. fold ll_step [LAddLast 1, LAddLast 2, LRemoveFirst, LAddFirst 3] (Some (ll_new (0 :: nat))) = Some l \<and>
     ll_Size l = 2 \<and> ll_Contains 2 l = Some True \<and> ll_Contains 1 l = Some False"
  using ll_forward_use_refines_list [of "[LAddLast 1, LAddLast 2, LRemoveFirst, LAddFirst (3 :: nat)]" 0] by auto

text \<open>
  removals at both ends break the list. After AddLast 1, AddLast 2, RemoveFirst and RemoveLast the
  size is 0, but the list still reaches the removed elements: Contains finds 2, and after AddLast 3 the
  call RemoveFirst returns 2 a second time and the element 3 can no longer be removed.
\<close>

theorem ll_mixed_removals_resurrect:
  "map_option (\<lambda>l. (ll_Size l, ll_Contains 2 l))
     (fold ll_step [LAddLast 1, LAddLast 2, LRemoveFirst, LRemoveLast] (Some (ll_new (0 :: nat)))) = Some (0, Some True) \<and>
   Option.bind (fold ll_step [LAddLast 1, LAddLast 2, LRemoveFirst, LRemoveLast, LAddLast 3] (Some (ll_new (0 :: nat))))
     (\<lambda>l. map_option (\<lambda>(r, l'). (r, ll_Size l')) (ll_RemoveFirst l)) = Some ((2, None), 0)"
  by (simp add: ll_AddLast_def ll_RemoveFirst_def ll_RemoveLast_def ll_node_def ll_new_def ll_Size_def
      ll_Contains_def ll_indexOf_def Let_def numeral_2_eq_2)

section \<open>Set\<close>

text \<open>\<open>Set[T]\<close> is a Go map to the empty struct. The order of \<open>ToSlice\<close> is that of the map iteration.\<close>

type_synonym 't go_set = "('t, unit) gomap"

definition set_Add :: "'t \<Rightarrow> 't go_set \<Rightarrow> 't go_set" where
  "set_Add e s = gm_put e () s"

definition set_Remove :: "'t \<Rightarrow> 't go_set \<Rightarrow> bool \<times> 't go_set" where
  "set_Remove e s = (case gm_get s e of Some _ \<Rightarrow> (True, gm_del e s) | None \<Rightarrow> (False, s))"

definition set_Contains :: "'t \<Rightarrow> 't go_set \<Rightarrow> bool" where
  "set_Contains e s = (case gm_get s e of None \<Rightarrow> False | Some _ \<Rightarrow> True)"

definition set_Clear :: "'t go_set \<Rightarrow> 't go_set" where
  "set_Clear s = fold gm_del (gm_keys s) s"

definition set_Size :: "'t go_set \<Rightarrow> nat" where
  "set_Size s = gm_len s"

definition set_Empty :: "'t go_set \<Rightarrow> bool" where
  "set_Empty s = (gm_len s = 0)"

definition set_ToSlice :: "'t go_set \<Rightarrow> 't list" where
  "set_ToSlice s = gm_keys s"

definition set_elems :: "'t go_set \<Rightarrow> 't set" where
  "set_elems s = {e. gm_get s e \<noteq> None}"

lemma set_ops_elems:
  "set_elems (set_Add e s) = insert e (set_elems s)"
  "set_elems (snd (set_Remove e s)) = set_elems s - {e}"
  "fst (set_Remove e s) \<longleftrightarrow> e \<in> set_elems s"
  "set_Contains e s \<longleftrightarrow> e \<in> set_elems s"
  by (auto simp: set_elems_def set_Add_def set_Remove_def set_Contains_def split: option.splits)

lemma fold_gm_del: "gm_get (fold gm_del ks m) k = (if k \<in> set ks then None else gm_get m k)"
  by (induction ks arbitrary: m) auto

lemma gm_get_keys: "gm_get m k \<noteq> None \<longleftrightarrow> k \<in> set (gm_keys m)"
  by (simp add: gm_defs map_of_eq_None_iff)

lemma set_slice: "gm_ok s \<Longrightarrow> distinct (set_ToSlice s) \<and> set (set_ToSlice s) = set_elems s \<and> set_Size s = card (set_elems s)"
proof -
  assume ok: "gm_ok s"
  have e: "set (gm_keys s) = set_elems s" unfolding set_elems_def gm_get_keys by simp
  have "distinct (gm_keys s)" using ok by (simp add: gm_defs)
  then show ?thesis using e distinct_card [of "gm_keys s"] by (simp add: set_ToSlice_def set_Size_def gm_len_def gm_keys_def)
qed

lemma set_Clear_empty: "set_elems (set_Clear s) = {}"
  using gm_get_keys [of s] by (simp add: set_elems_def set_Clear_def fold_gm_del del: not_None_eq) blast

datatype 't set_op = SAdd 't | SRemove 't | SClear

fun set_step :: "'t set_op \<Rightarrow> 't go_set \<Rightarrow> 't go_set" where
  "set_step (SAdd e) s = set_Add e s"
| "set_step (SRemove e) s = snd (set_Remove e s)"
| "set_step SClear s = set_Clear s"

fun set_spec :: "'t set_op \<Rightarrow> 't set \<Rightarrow> 't set" where
  "set_spec (SAdd e) s = insert e s"
| "set_spec (SRemove e) s = s - {e}"
| "set_spec SClear s = {}"

lemma gm_ok_fold_del: "gm_ok m \<Longrightarrow> gm_ok (fold gm_del ks m)"
  by (induction ks arbitrary: m) auto

lemma set_run_elems:
  "gm_ok s \<Longrightarrow> gm_ok (fold set_step ops s) \<and> set_elems (fold set_step ops s) = fold set_spec ops (set_elems s)"
proof (induction ops arbitrary: s)
  case (Cons op ops)
  have "set_elems (set_step op s) = set_spec op (set_elems s)"
    by (cases op) (auto simp: set_ops_elems set_Clear_empty)
  moreover have "gm_ok (set_step op s)"
    using Cons(2) by (cases op) (auto simp: set_Add_def set_Remove_def set_Clear_def gm_ok_fold_del split: option.splits)
  ultimately show ?case using Cons(1) by simp
qed simp

text \<open>
  after any sequence of Add, Remove and Clear on an empty Set, Contains is membership in the set
  those calls describe, Size is its cardinality, and ToSlice lists each of its elements exactly once.
\<close>

theorem set_run_refines_set:
  "(set_Contains e (fold set_step ops []) \<longleftrightarrow> e \<in> fold set_spec ops {}) \<and>
   set_Size (fold set_step ops []) = card (fold set_spec ops {}) \<and>
   distinct (set_ToSlice (fold set_step ops [])) \<and> set (set_ToSlice (fold set_step ops [])) = fold set_spec ops {}"
  using set_run_elems [of "[]" ops] set_slice [of "fold set_step ops []"]
  by (auto simp: set_ops_elems set_elems_def)

end
