(* ===== verification/Cluster_Node.thy ===== *)
theory Cluster_Node
  imports Go_Numbers
begin

text \<open>
  \<^verbatim>\<open>cluster/node.go\<close>: what a member of the cluster knows about one member. Times are nanoseconds since the
  Unix epoch; \<open>zeroTime\<close> is Go's zero \<open>time.Time\<close>. A gRPC client is a number, \<open>None\<close> is \<open>nil\<close>. The field
  \<open>heartbeatInterval\<close> is stored by the constructor and never read; it is not modelled.
\<close>

section \<open>Node\<close>

definition zeroTime :: int where
  "zeroTime = - 62135596800000000000"

record node =
  nd_address :: string
  nd_name :: string
  nd_client :: "nat option"
  nd_heartbeat :: int
  nd_lastHeartbeatOk :: bool
  nd_heartbeatFailures :: int

definition newNode :: "string \<Rightarrow> string \<Rightarrow> node" where
  "newNode address name = \<lparr> nd_address = address, nd_name = name, nd_client = None, nd_heartbeat = zeroTime,
     nd_lastHeartbeatOk = True, nd_heartbeatFailures = 0 \<rparr>"

definition node_clean :: "node \<Rightarrow> node" where
  "node_clean n = n\<lparr> nd_heartbeat := zeroTime, nd_lastHeartbeatOk := False, nd_heartbeatFailures := 0 \<rparr>"

definition updateHeartbeat :: "int \<Rightarrow> node \<Rightarrow> node" where
  "updateHeartbeat now n = n\<lparr> nd_heartbeat := now, nd_lastHeartbeatOk := True, nd_heartbeatFailures := 0 \<rparr>"

definition updateHeartbeatFailed :: "node \<Rightarrow> node" where
  "updateHeartbeatFailed n =
     (let n1 = n\<lparr> nd_lastHeartbeatOk := False \<rparr>
      in if nd_heartbeatFailures n1 < 10 then n1\<lparr> nd_heartbeatFailures := nd_heartbeatFailures n1 + 1 \<rparr> else n1)"

definition resetHeartbeatOnLeaderChange :: "node \<Rightarrow> node" where
  "resetHeartbeatOnLeaderChange n = n\<lparr> nd_lastHeartbeatOk := True, nd_heartbeatFailures := 0 \<rparr>"

definition isHeartbeatZero :: "node \<Rightarrow> bool" where
  "isHeartbeatZero n \<longleftrightarrow> nd_heartbeat n = zeroTime"

definition getHealthScore :: "node \<Rightarrow> int" where
  "getHealthScore n =
     (if nd_heartbeat n = zeroTime then 0
      else if nd_heartbeatFailures n > 3 then max 0 (100 - nd_heartbeatFailures n * 20)
      else if \<not> nd_lastHeartbeatOk n then 50
      else 100)"

definition setGrpcClient :: "nat option \<Rightarrow> node \<Rightarrow> node" where
  "setGrpcClient cl n = n\<lparr> nd_client := cl \<rparr>"

definition node_close :: "node \<Rightarrow> node" where
  "node_close n = (if nd_client n \<noteq> None then n\<lparr> nd_client := None \<rparr> else n)"

definition node_isReady :: "int \<Rightarrow> int \<Rightarrow> node \<Rightarrow> bool" where
  "node_isReady timeout now n \<longleftrightarrow> nd_heartbeat n + timeout > now"

section \<open>Calls to a node\<close>

text \<open>
  The five request methods (\<open>askLeader\<close>, \<open>askVote\<close>, \<open>broadcastLeader\<close>, \<open>remoteCall\<close>, \<open>heartbeatStream\<close>)
  have the same body: without a client an error, otherwise the call of the client. What the network
  answers is the argument \<open>send\<close>.
\<close>

datatype node_error = NotReady string | RpcError string

definition node_call :: "(nat \<Rightarrow> 'req \<Rightarrow> node_error + 'resp) \<Rightarrow> 'req \<Rightarrow> node \<Rightarrow> node_error + 'resp" where
  "node_call send req n = (case nd_client n of None \<Rightarrow> Inl (NotReady (nd_name n)) | Some cl \<Rightarrow> send cl req)"

section \<open>Facts\<close>

lemmas node_op_defs = newNode_def node_clean_def updateHeartbeat_def updateHeartbeatFailed_def
  resetHeartbeatOnLeaderChange_def setGrpcClient_def node_close_def

lemma node_ops_name [simp]:
  "nd_name (newNode a n) = n" "nd_name (node_clean x) = nd_name x" "nd_name (updateHeartbeat t x) = nd_name x"
  "nd_name (updateHeartbeatFailed x) = nd_name x" "nd_name (resetHeartbeatOnLeaderChange x) = nd_name x"
  "nd_name (setGrpcClient cl x) = nd_name x" "nd_name (node_close x) = nd_name x"
  by (simp_all add: node_op_defs Let_def)

text \<open>The failure count stays between 0 and 10, the health score between 0 and 100.\<close>

definition node_ok :: "node \<Rightarrow> bool" where
  "node_ok n \<longleftrightarrow> 0 \<le> nd_heartbeatFailures n \<and> nd_heartbeatFailures n \<le> 10"

lemma node_ops_ok [simp]:
  "node_ok (newNode a n)" "node_ok (node_clean x)" "node_ok (updateHeartbeat t x)" "node_ok (resetHeartbeatOnLeaderChange x)"
  "node_ok x \<Longrightarrow> node_ok (updateHeartbeatFailed x)" "node_ok (setGrpcClient cl x) = node_ok x" "node_ok (node_close x) = node_ok x"
  by (auto simp: node_op_defs node_ok_def Let_def)

lemma getHealthScore_bounds: "node_ok n \<Longrightarrow> 0 \<le> getHealthScore n \<and> getHealthScore n \<le> 100"
  by (auto simp: getHealthScore_def node_ok_def)

lemma failures_iterate:
  "nd_heartbeatFailures ((updateHeartbeatFailed ^^ k) (updateHeartbeat now n)) = min (int k) 10 \<and>
   nd_heartbeat ((updateHeartbeatFailed ^^ k) (updateHeartbeat now n)) = now \<and>
   nd_lastHeartbeatOk ((updateHeartbeatFailed ^^ k) (updateHeartbeat now n)) = (k = 0)"
  by (induction k) (auto simp: updateHeartbeatFailed_def updateHeartbeat_def Let_def)

text \<open>
  the health score degrades with the number of failed heartbeats since the last good one: 100 after
  none, 50 after one to three, then 20 points less per failure from 100, down to 0 at five and more. A
  node that never had a heartbeat scores 0.
\<close>

theorem health_score_degrades:
  assumes "now \<noteq> zeroTime"
  shows "getHealthScore ((updateHeartbeatFailed ^^ k) (updateHeartbeat now n)) =
     (if k = 0 then 100 else if k \<le> 3 then 50 else if k = 4 then 20 else 0) \<and>
   getHealthScore (node_clean n) = 0"
  using assms failures_iterate [of k now n]
  by (auto simp: getHealthScore_def node_clean_def max_def min_def)

theorem health_score_degrades_witness:
  "getHealthScore ((updateHeartbeatFailed ^^ 4) (updateHeartbeat 7 (newNode ''127.0.0.1:80'' ''a''))) = 20"
  using health_score_degrades [of 7 4 "newNode ''127.0.0.1:80'' ''a''"] by (simp add: zeroTime_def)

end
