(* ===== verification/Cluster_State.thy ===== *)
theory Cluster_State
  imports Cluster_Node
begin

text \<open>
  \<^verbatim>\<open>cluster/cluster.go\<close>, the state of one member and the operations on it: the node tables, the leader, the
  term, the votes and the events. Nodes live in a store (\<open>c_node\<close>), because the tables, the leader and the
  current node hold pointers to the same objects. A \<open>sync.Map\<close> is a Go map whose \<open>Range\<close> order is the
  order of the association list.

  \<open>c_events\<close> is the channel (\<open>None\<close> before \<open>Start\<close> makes it) as the list of the events sent; a send on a
  full channel waits for the consumer, which only delays it. When the context is cancelled, the \<open>select\<close>
  of \<open>createEvent\<close> may take either branch: \<open>c_select\<close> is the branch it takes. A started cluster has a
  current node (\<open>Start\<close> refuses to run without one), which is \<open>c_self\<close>.
\<close>

section \<open>State\<close>

datatype status = StInit | Follower | Candidate | Leader | StClosed

datatype cluster_mode = ModeCluster | ModeSingle | ModeRedis

datatype ev_name = EvStartUp | EvSignMaster | EvSignFollower | EvUnsignMaster | EvUnsignFollower
  | EvElectionStart | EvElectionFinish | EvClose

record event =
  ev_name :: ev_name
  ev_clusterStat :: status
  ev_nodeName :: string
  ev_leaderName :: string

record cluster =
  c_mode :: cluster_mode
  c_timeout :: int
  c_enable :: bool
  c_node :: "addr \<Rightarrow> node"
  c_brk :: addr
  c_curNode :: ptr
  c_leaderNode :: ptr
  c_lostLeaderTime :: int
  c_allNode :: "(string, addr) gomap"
  c_aliveNodes :: "(string, addr) gomap"
  c_term :: int
  c_sate :: status
  c_votesMap :: "(int, string) gomap"
  c_events :: "event list option"
  c_eventsClosed :: bool
  c_ctxDone :: bool
  c_select :: bool
  c_fightingState :: bool
  c_reconnectPending :: bool

abbreviation c_self :: "cluster \<Rightarrow> addr" where
  "c_self c \<equiv> the (c_curNode c)"

definition upd_node :: "addr \<Rightarrow> (node \<Rightarrow> node) \<Rightarrow> cluster \<Rightarrow> cluster" where
  "upd_node a f c = c\<lparr> c_node := (c_node c)(a := f (c_node c a)) \<rparr>"

section \<open>Queries\<close>

definition GetLeaderName :: "cluster \<Rightarrow> string" where
  "GetLeaderName c = (case c_leaderNode c of None \<Rightarrow> [] | Some a \<Rightarrow> nd_name (c_node c a))"

definition GetMyName :: "cluster \<Rightarrow> string" where
  "GetMyName c = (case c_curNode c of None \<Rightarrow> [] | Some a \<Rightarrow> nd_name (c_node c a))"

definition GetAllNodeNames :: "cluster \<Rightarrow> string list" where
  "GetAllNodeNames c = gm_keys (c_allNode c)"

definition GetAllNodeCount :: "cluster \<Rightarrow> nat" where
  "GetAllNodeCount c = length (GetAllNodeNames c)"

definition GetAliveNodeNames :: "cluster \<Rightarrow> string list" where
  "GetAliveNodeNames c = gm_keys (c_aliveNodes c)"

definition GetAliveNodeCount :: "cluster \<Rightarrow> nat" where
  "GetAliveNodeCount c = length (GetAliveNodeNames c)"

definition GetLostNodeNames :: "cluster \<Rightarrow> string list" where
  "GetLostNodeNames c = filter (\<lambda>n. gm_get (c_aliveNodes c) n = None) (gm_keys (c_allNode c))"

definition GetNodeByName :: "string \<Rightarrow> cluster \<Rightarrow> ptr" where
  "GetNodeByName name c = map_option snd (find (\<lambda>(k, v). k = name) (c_allNode c))"

definition getQuorum :: "cluster \<Rightarrow> nat" where
  "getQuorum c = (let totalNodes = GetAllNodeCount c in if totalNodes = 0 then 1 else totalNodes div 2 + 1)"

definition isNodeHealthy :: "int \<Rightarrow> addr \<Rightarrow> cluster \<Rightarrow> bool" where
  "isNodeHealthy now a c =
     (let node = c_node c a in
      if isHeartbeatZero node then False
      else if \<not> node_isReady (c_timeout c) now node then False
      else if getHealthScore node < 30 then False
      else if nd_heartbeatFailures node > 3 then False
      else True)"

definition IsReady :: "int \<Rightarrow> cluster \<Rightarrow> bool" where
  "IsReady now c =
     (if c_mode c = ModeRedis then GetLeaderName c \<noteq> []
      else c_sate c = Leader \<or> (c_sate c = Follower \<and> isNodeHealthy now (c_self c) c))"

abbreviation IsClosed :: "cluster \<Rightarrow> bool" where
  "IsClosed c \<equiv> c_sate c = StClosed"

lemma names_upd [simp]:
  "GetMyName (c\<lparr> c_term := t \<rparr>) = GetMyName c" "GetLeaderName (c\<lparr> c_term := t \<rparr>) = GetLeaderName c"
  "GetMyName (c\<lparr> c_sate := s \<rparr>) = GetMyName c" "GetLeaderName (c\<lparr> c_sate := s \<rparr>) = GetLeaderName c"
  "GetMyName (c\<lparr> c_leaderNode := l \<rparr>) = GetMyName c" "GetMyName (c\<lparr> c_lostLeaderTime := lt \<rparr>) = GetMyName c"
  "GetLeaderName (c\<lparr> c_lostLeaderTime := lt \<rparr>) = GetLeaderName c"
  "GetMyName (c\<lparr> c_events := e \<rparr>) = GetMyName c" "GetLeaderName (c\<lparr> c_events := e \<rparr>) = GetLeaderName c"
  "GetMyName (c\<lparr> c_votesMap := v \<rparr>) = GetMyName c" "GetLeaderName (c\<lparr> c_votesMap := v \<rparr>) = GetLeaderName c"
  "GetMyName (c\<lparr> c_aliveNodes := m \<rparr>) = GetMyName c" "GetLeaderName (c\<lparr> c_aliveNodes := m \<rparr>) = GetLeaderName c"
  "GetMyName (c\<lparr> c_fightingState := b \<rparr>) = GetMyName c" "GetLeaderName (c\<lparr> c_fightingState := b \<rparr>) = GetLeaderName c"
  "GetMyName (c\<lparr> c_ctxDone := b \<rparr>) = GetMyName c" "GetLeaderName (c\<lparr> c_ctxDone := b \<rparr>) = GetLeaderName c"
  "GetMyName (c\<lparr> c_reconnectPending := b \<rparr>) = GetMyName c" "GetMyName (c\<lparr> c_eventsClosed := b \<rparr>) = GetMyName c"
  by (simp_all add: GetMyName_def GetLeaderName_def split: option.splits)

section \<open>Events\<close>

definition createEvent :: "ev_name \<Rightarrow> string \<Rightarrow> cluster \<Rightarrow> cluster" where
  "createEvent name leaderName c =
     (case c_events c of
        None \<Rightarrow> c
      | Some evs \<Rightarrow>
          if c_eventsClosed c then c
          else if IsClosed c \<and> name \<noteq> EvClose then c
          else if c_ctxDone c \<and> c_select c then c
          else c\<lparr> c_events := Some (evs @ [\<lparr> ev_name = name, ev_clusterStat = c_sate c,
                   ev_nodeName = GetMyName c, ev_leaderName = leaderName \<rparr>]) \<rparr>)"

fun createEvents :: "(ev_name \<times> string) list \<Rightarrow> cluster \<Rightarrow> cluster" where
  "createEvents [] c = c"
| "createEvents ((name, leaderName) # evs) c = createEvents evs (createEvent name leaderName c)"

section \<open>Leader\<close>

text \<open>Dropping the leader: the event to send and the new state; shared by the three operations below.\<close>

definition drop_leader :: "int \<Rightarrow> cluster \<Rightarrow> (ev_name \<times> string) list \<times> cluster" where
  "drop_leader now c =
     (if c_leaderNode c \<noteq> None then
        let c1 = c\<lparr> c_lostLeaderTime := now \<rparr>;
            ev = (if GetLeaderName c1 = GetMyName c1 then EvUnsignMaster else EvUnsignFollower)
        in ([(ev, [])], c1\<lparr> c_leaderNode := None \<rparr>)
      else ([], c))"

text \<open>
  Each of the operations has a part that holds \<open>leaderLock\<close>, named \<open>_locked\<close>, and sends the events that it collected after the lock is released. Other
  goroutines may run in between: the theory \<open>Cluster_Interleave\<close> interleaves the parts, the operations here put them together for a run without
  interference.
\<close>

definition sign_section :: "int \<Rightarrow> addr \<Rightarrow> int \<Rightarrow> cluster \<Rightarrow> (ev_name \<times> string) list \<times> cluster" where
  "sign_section now a term c =
     (let (evs, c1) = drop_leader now c;
          name = nd_name (c_node c1 a);
          (evs2, c2) =
            (if name = GetMyName c1
             then (evs @ [(EvSignMaster, name)], c1\<lparr> c_sate := Leader \<rparr>)
             else (evs @ [(EvSignFollower, name)],
                   upd_node (c_self c1) (updateHeartbeat now) (c1\<lparr> c_sate := Follower \<rparr>)))
      in (evs2, c2\<lparr> c_lostLeaderTime := zeroTime, c_leaderNode := Some a, c_term := term \<rparr>))"

definition signLeader_locked :: "int \<Rightarrow> ptr \<Rightarrow> int \<Rightarrow> cluster \<Rightarrow> bool \<times> (ev_name \<times> string) list \<times> cluster" where
  "signLeader_locked now node term c =
     (case node of
        None \<Rightarrow> (False, [], c)
      | Some a \<Rightarrow> if term < c_term c then (False, [], c) else (True, sign_section now a term c))"

definition signLeader :: "int \<Rightarrow> ptr \<Rightarrow> int \<Rightarrow> cluster \<Rightarrow> bool \<times> cluster" where
  "signLeader now node term c = (let (ok, evs, c1) = signLeader_locked now node term c in (ok, createEvents evs c1))"

definition releaseWithNodeName_locked :: "int \<Rightarrow> string \<Rightarrow> cluster \<Rightarrow> (ev_name \<times> string) list \<times> cluster" where
  "releaseWithNodeName_locked now name c =
     (if c_leaderNode c = None \<or> GetLeaderName c \<noteq> name then ([], c)
      else if c_sate c \<noteq> Leader then ([], c)
      else drop_leader now (c\<lparr> c_sate := Follower \<rparr>))"

definition releaseWithNodeName :: "int \<Rightarrow> string \<Rightarrow> cluster \<Rightarrow> cluster" where
  "releaseWithNodeName now name c = (let (evs, c1) = releaseWithNodeName_locked now name c in createEvents evs c1)"

definition releaseLeader_locked :: "int \<Rightarrow> cluster \<Rightarrow> (ev_name \<times> string) list \<times> cluster" where
  "releaseLeader_locked now c = drop_leader now (c\<lparr> c_sate := Follower \<rparr>)"

definition releaseLeader :: "int \<Rightarrow> cluster \<Rightarrow> cluster" where
  "releaseLeader now c = (let (evs, c1) = releaseLeader_locked now c in createEvents evs c1)"

section \<open>Votes\<close>

definition getVoteNodeName :: "int \<Rightarrow> string \<Rightarrow> cluster \<Rightarrow> string \<times> cluster" where
  "getVoteNodeName term nodeName c =
     (case gm_get (c_votesMap c) term of
        None \<Rightarrow> (nodeName, c\<lparr> c_votesMap := gm_put term nodeName (c_votesMap c) \<rparr>)
      | Some v \<Rightarrow> (v, c))"

definition voteNode :: "int \<Rightarrow> string \<Rightarrow> cluster \<Rightarrow> bool \<times> cluster" where
  "voteNode term nodeName c =
     (case gm_get (c_votesMap c) term of
        None \<Rightarrow> (True, c\<lparr> c_votesMap := gm_put term nodeName (c_votesMap c) \<rparr>)
      | Some v \<Rightarrow> (v = nodeName, c))"

section \<open>Connections\<close>

definition markNodeUnavailable :: "string \<Rightarrow> cluster \<Rightarrow> cluster" where
  "markNodeUnavailable nodeName c =
     (case gm_get (c_aliveNodes c) nodeName of
        None \<Rightarrow> c
      | Some a \<Rightarrow>
          let c1 = c\<lparr> c_aliveNodes := gm_del nodeName (c_aliveNodes c) \<rparr>
          in if nodeName \<noteq> GetMyName c1 then upd_node a node_close c1 else c1)"

text \<open>
  \<open>reconnect\<close>: the nodes that are not the current one and not connected are closed and dialled again. The
  results of the dials arrive in some order, until the timeout: the argument lists those that arrive in
  time, with the new client or \<open>None\<close> for an error.
\<close>

fun reconnect_scan :: "(string \<times> addr) list \<Rightarrow> cluster \<Rightarrow> (string \<times> addr) list \<times> cluster" where
  "reconnect_scan [] c = ([], c)"
| "reconnect_scan ((nodeName, a) # ns) c =
     (if GetMyName c = nodeName then reconnect_scan ns c
      else if gm_get (c_aliveNodes c) nodeName \<noteq> None \<and> nd_client (c_node c a) \<noteq> None then reconnect_scan ns c
      else let c1 = (if nd_client (c_node c a) \<noteq> None then upd_node a node_close c else c);
               (pending, c2) = reconnect_scan ns c1
           in ((nodeName, a) # pending, c2))"

fun reconnect_results :: "(string \<times> addr) list \<Rightarrow> (string \<times> nat option) list \<Rightarrow> cluster \<Rightarrow> cluster" where
  "reconnect_results pending [] c = c"
| "reconnect_results pending ((nodeName, client) # rs) c =
     reconnect_results pending rs
       (case map_of pending nodeName of
          None \<Rightarrow> c
        | Some a \<Rightarrow>
            (case client of
               None \<Rightarrow> c\<lparr> c_aliveNodes := gm_del nodeName (c_aliveNodes c) \<rparr>
             | Some cl \<Rightarrow>
                 let c1 = upd_node a (setGrpcClient (Some cl)) c
                 in c1\<lparr> c_aliveNodes := gm_put nodeName a (c_aliveNodes c1) \<rparr>))"

definition reconnect :: "(string \<times> nat option) list \<Rightarrow> cluster \<Rightarrow> cluster" where
  "reconnect dials c =
     (let (pending, c1) = reconnect_scan (c_allNode c) c
      in if pending = [] then c1 else reconnect_results pending (take (length pending) dials) c1)"

text \<open>\<open>triggerReconnect\<close> starts a goroutine that calls \<open>reconnect\<close> and then clears the flag: \<open>run_reconnect\<close>.\<close>

definition triggerReconnect :: "cluster \<Rightarrow> cluster" where
  "triggerReconnect c =
     (if IsClosed c then c
      else if c_reconnectPending c then c
      else c\<lparr> c_reconnectPending := True \<rparr>)"

definition run_reconnect :: "(string \<times> nat option) list \<Rightarrow> cluster \<Rightarrow> cluster" where
  "run_reconnect dials c = (reconnect dials c)\<lparr> c_reconnectPending := False \<rparr>"

section \<open>Start and Close\<close>

text \<open>
  \<open>Start\<close> up to the point where the goroutines run: \<open>listen\<close> is the result of opening the port, \<open>dials\<close>
  those of the first \<open>reconnect\<close>. Discovery by DNS is not modelled: \<open>loadNodes\<close> has filled the tables.
\<close>

datatype start_error = NoCurrentNode | ListenFailed

definition cluster_Start :: "bool \<Rightarrow> (string \<times> nat option) list \<Rightarrow> int \<Rightarrow> cluster \<Rightarrow> start_error option \<times> cluster" where
  "cluster_Start listen dials now c =
     (if \<not> c_enable c \<or> (c_sate c \<noteq> StInit \<and> c_sate c \<noteq> StClosed) then (None, c)
      else if c_curNode c = None then (Some NoCurrentNode, c)
      else
        let c1 = c\<lparr> c_term := 0, c_sate := Follower, c_ctxDone := False \<rparr>
        in if c_mode c \<noteq> ModeSingle \<and> \<not> listen then (Some ListenFailed, c1\<lparr> c_sate := StInit, c_ctxDone := True \<rparr>)
           else
             let c2 = (if c_mode c \<noteq> ModeSingle then reconnect dials c1 else c1);
                 c3 = c2\<lparr> c_events := Some [] \<rparr>;
                 c4 = createEvent EvStartUp [] c3
             in (None, if c_mode c = ModeSingle
                       then createEvent EvSignFollower (GetMyName c4) (snd (signLeader now (c_curNode c4) 0 c4))
                       else c4))"

text \<open>The parts of \<open>Close\<close>: closing the connections to the peers, and the last event.\<close>

definition close_peers :: "cluster \<Rightarrow> cluster" where
  "close_peers c =
     fold (\<lambda>(n, a) c. if nd_name (c_node c a) \<noteq> GetMyName c then upd_node a node_close c else c) (c_aliveNodes c) c"

definition close_events :: "cluster \<Rightarrow> cluster" where
  "close_events c =
     (case c_events c of
        None \<Rightarrow> c
      | Some evs \<Rightarrow> c\<lparr> c_events := Some (evs @ [\<lparr> ev_name = EvClose, ev_clusterStat = c_sate c,
            ev_nodeName = GetMyName c, ev_leaderName = [] \<rparr>]), c_eventsClosed := True \<rparr>)"

definition cluster_Close :: "int \<Rightarrow> cluster \<Rightarrow> cluster" where
  "cluster_Close now c =
     (if IsClosed c \<or> \<not> c_enable c then c
      else
        let c1 = (releaseLeader now c)\<lparr> c_ctxDone := True \<rparr>;
            c2 = upd_node (c_self c1) node_clean c1;
            c3 = c2\<lparr> c_sate := StClosed \<rparr>
        in close_events (close_peers c3))"

section \<open>What the operations keep\<close>

text \<open>
  \<open>frame c c'\<close>: the identity of the member, the configured nodes and the names of all nodes are the same.
  \<open>votes_kept c c'\<close>: a vote once cast stays.
\<close>

definition frame :: "cluster \<Rightarrow> cluster \<Rightarrow> bool" where
  "frame c c' \<longleftrightarrow> c_curNode c' = c_curNode c \<and> c_allNode c' = c_allNode c \<and> c_mode c' = c_mode c \<and>
     c_enable c' = c_enable c \<and> (\<forall>a. nd_name (c_node c' a) = nd_name (c_node c a))"

definition votes_kept :: "cluster \<Rightarrow> cluster \<Rightarrow> bool" where
  "votes_kept c c' \<longleftrightarrow> (\<forall>t v. gm_get (c_votesMap c) t = Some v \<longrightarrow> gm_get (c_votesMap c') t = Some v)"

lemma frame_refl [simp]: "frame c c"
  by (simp add: frame_def)

lemma frame_trans: "frame a b \<Longrightarrow> frame b c \<Longrightarrow> frame a c"
  by (simp add: frame_def)

lemma votes_kept_refl [simp]: "votes_kept c c"
  by (simp add: votes_kept_def)

lemma votes_kept_eq: "c_votesMap c' = c_votesMap c \<Longrightarrow> votes_kept c c'"
  by (simp add: votes_kept_def)

lemma frame_GetMyName: "frame c c' \<Longrightarrow> GetMyName c' = GetMyName c"
  by (simp add: frame_def GetMyName_def split: option.splits)

lemma frame_all: "frame c c' \<Longrightarrow> GetAllNodeNames c' = GetAllNodeNames c \<and> getQuorum c' = getQuorum c"
  by (simp add: frame_def GetAllNodeNames_def getQuorum_def GetAllNodeCount_def)

text \<open>Changing fields that do not count.\<close>

lemma frame_upd [simp]:
  "frame c (c'\<lparr> c_sate := s \<rparr>) = frame c c'" "frame c (c'\<lparr> c_term := t \<rparr>) = frame c c'"
  "frame c (c'\<lparr> c_leaderNode := l \<rparr>) = frame c c'" "frame c (c'\<lparr> c_lostLeaderTime := lt \<rparr>) = frame c c'"
  "frame c (c'\<lparr> c_events := e \<rparr>) = frame c c'" "frame c (c'\<lparr> c_votesMap := v \<rparr>) = frame c c'"
  "frame c (c'\<lparr> c_aliveNodes := m \<rparr>) = frame c c'" "frame c (c'\<lparr> c_fightingState := b \<rparr>) = frame c c'"
  "frame c (c'\<lparr> c_reconnectPending := b \<rparr>) = frame c c'" "frame c (c'\<lparr> c_ctxDone := b \<rparr>) = frame c c'"
  "frame c (c'\<lparr> c_eventsClosed := b \<rparr>) = frame c c'"
  by (simp_all add: frame_def)

lemma frame_upd_node: "(\<And>n. nd_name (f n) = nd_name n) \<Longrightarrow> frame c c' \<Longrightarrow> frame c (upd_node a f c')"
  by (simp add: frame_def upd_node_def)

lemma upd_node_sel [simp]:
  "c_curNode (upd_node a f c) = c_curNode c" "c_leaderNode (upd_node a f c) = c_leaderNode c"
  "c_term (upd_node a f c) = c_term c" "c_sate (upd_node a f c) = c_sate c" "c_votesMap (upd_node a f c) = c_votesMap c"
  "c_events (upd_node a f c) = c_events c" "c_eventsClosed (upd_node a f c) = c_eventsClosed c"
  "c_ctxDone (upd_node a f c) = c_ctxDone c" "c_aliveNodes (upd_node a f c) = c_aliveNodes c"
  "c_allNode (upd_node a f c) = c_allNode c" "c_mode (upd_node a f c) = c_mode c" "c_select (upd_node a f c) = c_select c"
  by (simp_all add: upd_node_def)

lemma createEvent_sel [simp]:
  "c_curNode (createEvent n l c) = c_curNode c" "c_leaderNode (createEvent n l c) = c_leaderNode c"
  "c_term (createEvent n l c) = c_term c" "c_sate (createEvent n l c) = c_sate c"
  "c_votesMap (createEvent n l c) = c_votesMap c" "c_node (createEvent n l c) = c_node c"
  "c_eventsClosed (createEvent n l c) = c_eventsClosed c" "c_ctxDone (createEvent n l c) = c_ctxDone c"
  "c_aliveNodes (createEvent n l c) = c_aliveNodes c" "c_allNode (createEvent n l c) = c_allNode c"
  "c_mode (createEvent n l c) = c_mode c" "c_enable (createEvent n l c) = c_enable c"
  "c_timeout (createEvent n l c) = c_timeout c" "c_select (createEvent n l c) = c_select c"
  by (auto simp: createEvent_def split: option.splits)

lemma createEvent_names [simp]:
  "GetMyName (createEvent n l c) = GetMyName c" "GetLeaderName (createEvent n l c) = GetLeaderName c"
  by (auto simp: GetMyName_def GetLeaderName_def split: option.splits)

lemma createEvents_sel [simp]:
  "c_curNode (createEvents es c) = c_curNode c" "c_leaderNode (createEvents es c) = c_leaderNode c"
  "c_term (createEvents es c) = c_term c" "c_sate (createEvents es c) = c_sate c"
  "c_votesMap (createEvents es c) = c_votesMap c" "c_node (createEvents es c) = c_node c"
  "c_eventsClosed (createEvents es c) = c_eventsClosed c" "c_ctxDone (createEvents es c) = c_ctxDone c"
  "c_aliveNodes (createEvents es c) = c_aliveNodes c" "c_allNode (createEvents es c) = c_allNode c"
  "c_mode (createEvents es c) = c_mode c" "c_enable (createEvents es c) = c_enable c"
  "c_timeout (createEvents es c) = c_timeout c"
  by (induction es c rule: createEvents.induct) auto

lemma frame_createEvents [simp]: "frame c (createEvents es c') = frame c c'" "frame c (createEvent n l c') = frame c c'"
  by (simp_all add: frame_def)

lemma drop_leader_props:
  assumes "drop_leader now c = (evs, c')"
  shows "frame c c'" "c_leaderNode c' = None" "c_term c' = c_term c" "c_sate c' = c_sate c"
    "c_votesMap c' = c_votesMap c" "c_aliveNodes c' = c_aliveNodes c" "c_events c' = c_events c"
    "c_eventsClosed c' = c_eventsClosed c" "c_ctxDone c' = c_ctxDone c"
    "evs = (if c_leaderNode c = None then []
            else [(if GetLeaderName c = GetMyName c then EvUnsignMaster else EvUnsignFollower, [])])"
  using assms
  by (auto simp: drop_leader_def Let_def GetLeaderName_def GetMyName_def split: if_splits option.splits)

lemma signLeader_eq:
  "signLeader now node term c =
     (case node of
        None \<Rightarrow> (False, c)
      | Some a \<Rightarrow>
          if term < c_term c then (False, c)
          else
            let (evs, c1) = drop_leader now c;
                name = nd_name (c_node c1 a);
                (evs2, c2) =
                  (if name = GetMyName c1
                   then (evs @ [(EvSignMaster, name)], c1\<lparr> c_sate := Leader \<rparr>)
                   else (evs @ [(EvSignFollower, name)],
                         upd_node (c_self c1) (updateHeartbeat now) (c1\<lparr> c_sate := Follower \<rparr>)));
                c3 = c2\<lparr> c_lostLeaderTime := zeroTime, c_leaderNode := Some a, c_term := term \<rparr>
            in (True, createEvents evs2 c3))"
  by (simp add: signLeader_def signLeader_locked_def sign_section_def Let_def split: option.split prod.split)

lemmas release_eqs = releaseLeader_def releaseLeader_locked_def

lemma signLeader_props:
  assumes "signLeader now node term c = (True, c')"
  obtains a where "node = Some a" "c_term c \<le> term" "frame c c'" "c_votesMap c' = c_votesMap c" "c_term c' = term"
    "c_leaderNode c' = Some a" "c_aliveNodes c' = c_aliveNodes c"
    "c_sate c' = (if nd_name (c_node c a) = GetMyName c then Leader else Follower)"
proof -
  obtain evs c1 where d: "drop_leader now c = (evs, c1)" by fastforce
  note dp = drop_leader_props [OF d]
  obtain a where a: "node = Some a" using assms by (cases node) (auto simp: signLeader_eq)
  have t: "c_term c \<le> term" using assms a by (auto simp: signLeader_eq split: if_splits)
  have nm: "nd_name (c_node c1 a) = nd_name (c_node c a)" "GetMyName c1 = GetMyName c"
    using dp(1) frame_GetMyName by (auto simp: frame_def)
  have "frame c c'" "c_votesMap c' = c_votesMap c" "c_term c' = term" "c_leaderNode c' = Some a"
    "c_aliveNodes c' = c_aliveNodes c" "c_sate c' = (if nd_name (c_node c a) = GetMyName c then Leader else Follower)"
    using assms a t d dp(1,5,6) nm
    by (auto simp: signLeader_eq Let_def frame_upd_node split: if_splits)
  with that a t show thesis by blast
qed

lemma signLeader_True: "c_term c \<le> term \<Longrightarrow> signLeader now (Some a) term c = (True, snd (signLeader now (Some a) term c))"
  by (simp add: signLeader_eq Let_def split: prod.splits)

lemma signLeader_False: "signLeader now node term c = (False, c') \<Longrightarrow> c' = c"
  by (auto simp: signLeader_eq Let_def split: option.splits if_splits prod.splits)

lemma signLeader_frame:
  "frame c (snd (signLeader now node term c)) \<and> c_votesMap (snd (signLeader now node term c)) = c_votesMap c"
proof (cases "signLeader now node term c")
  case (Pair ok c')
  show ?thesis
  proof (cases ok)
    case True
    then show ?thesis using signLeader_props [of now node "term" c c'] Pair by auto
  next
    case False
    then show ?thesis using signLeader_False [of now node "term" c c'] Pair by simp
  qed
qed

lemma releaseLeader_props:
  "frame c (releaseLeader now c)" "c_votesMap (releaseLeader now c) = c_votesMap c"
  "c_term (releaseLeader now c) = c_term c" "c_sate (releaseLeader now c) = Follower"
  "c_leaderNode (releaseLeader now c) = None"
proof -
  obtain evs c1 where d: "drop_leader now (c\<lparr> c_sate := Follower \<rparr>) = (evs, c1)" by fastforce
  note dp = drop_leader_props [OF d]
  have "frame c c1" using dp(1) by (simp add: frame_def)
  with dp show "frame c (releaseLeader now c)" "c_votesMap (releaseLeader now c) = c_votesMap c"
    "c_term (releaseLeader now c) = c_term c" "c_sate (releaseLeader now c) = Follower"
    "c_leaderNode (releaseLeader now c) = None"
    by (simp_all add: release_eqs d)
qed

lemma releaseWithNodeName_eq:
  "releaseWithNodeName now name c =
     (if c_leaderNode c \<noteq> None \<and> GetLeaderName c = name \<and> c_sate c = Leader then releaseLeader now c else c)"
  by (auto simp: releaseWithNodeName_def releaseWithNodeName_locked_def release_eqs)

lemma votes_getVoteNodeName:
  assumes "getVoteNodeName term n c = (v, c')"
  shows "frame c c'" "votes_kept c c'" "gm_get (c_votesMap c') term = Some v" "c_term c' = c_term c"
    "c_sate c' = c_sate c" "c_leaderNode c' = c_leaderNode c" "c_node c' = c_node c" "c_curNode c' = c_curNode c"
  using assms by (auto simp: getVoteNodeName_def votes_kept_def split: option.splits)

lemma votes_voteNode:
  assumes "voteNode term n c = (ok, c')"
  shows "frame c c'" "votes_kept c c'" "ok \<Longrightarrow> gm_get (c_votesMap c') term = Some n" "c_term c' = c_term c"
    "c_sate c' = c_sate c" "c_leaderNode c' = c_leaderNode c" "c_node c' = c_node c"
  using assms by (auto simp: voteNode_def votes_kept_def split: option.splits)

definition conn_frame :: "cluster \<Rightarrow> cluster \<Rightarrow> bool" where
  "conn_frame c c' \<longleftrightarrow> frame c c' \<and> c_votesMap c' = c_votesMap c \<and> c_term c' = c_term c \<and> c_sate c' = c_sate c \<and>
     c_leaderNode c' = c_leaderNode c \<and> c_events c' = c_events c \<and> c_eventsClosed c' = c_eventsClosed c \<and>
     c_ctxDone c' = c_ctxDone c"

lemma conn_frame_refl [simp]: "conn_frame c c"
  by (simp add: conn_frame_def)

lemma conn_frame_trans: "conn_frame a b \<Longrightarrow> conn_frame b c \<Longrightarrow> conn_frame a c"
  unfolding conn_frame_def using frame_trans by auto

lemma conn_frame_upd [simp]:
  "conn_frame c (c'\<lparr> c_aliveNodes := m \<rparr>) = conn_frame c c'" "conn_frame c (c'\<lparr> c_reconnectPending := b \<rparr>) = conn_frame c c'"
  "conn_frame c (c'\<lparr> c_fightingState := b \<rparr>) = conn_frame c c'"
  by (simp_all add: conn_frame_def)

lemma conn_frame_upd_node:
  "(\<And>n. nd_name (f n) = nd_name n) \<Longrightarrow> conn_frame c c' \<Longrightarrow> conn_frame c (upd_node a f c')"
  by (simp add: conn_frame_def frame_upd_node)

lemma conn_reconnect_scan: "conn_frame c (snd (reconnect_scan ns c))"
proof (induction ns c rule: reconnect_scan.induct)
  case (2 nodeName a ns c)
  have "conn_frame c (upd_node a node_close c)" by (simp add: conn_frame_upd_node)
  with 2 show ?case by (auto simp: Let_def split: prod.splits intro: conn_frame_trans)
qed simp

lemma conn_reconnect_results: "conn_frame c (reconnect_results pending rs c)"
proof (induction pending rs c rule: reconnect_results.induct)
  case (2 pending nodeName client rs c)
  let ?c1 = "case map_of pending nodeName of None \<Rightarrow> c
        | Some a \<Rightarrow> (case client of None \<Rightarrow> c\<lparr> c_aliveNodes := gm_del nodeName (c_aliveNodes c) \<rparr>
             | Some cl \<Rightarrow> let c1 = upd_node a (setGrpcClient (Some cl)) c
                 in c1\<lparr> c_aliveNodes := gm_put nodeName a (c_aliveNodes c1) \<rparr>)"
  have "conn_frame c ?c1" by (simp add: Let_def conn_frame_upd_node split: option.splits)
  then show ?case using conn_frame_trans [OF _ 2] by simp
qed simp

lemma conn_reconnect: "conn_frame c (reconnect dials c)"
  unfolding reconnect_def Let_def
  using conn_reconnect_scan [of c "c_allNode c"]
  by (auto split: prod.splits intro: conn_frame_trans conn_reconnect_results)

lemma conn_markNodeUnavailable: "conn_frame c (markNodeUnavailable n c)"
  by (auto simp: markNodeUnavailable_def Let_def intro!: conn_frame_upd_node split: option.splits)

lemma conn_triggerReconnect: "conn_frame c (triggerReconnect c)"
  by (simp add: triggerReconnect_def)

lemma conn_run_reconnect: "conn_frame c (run_reconnect dials c)"
  by (simp add: run_reconnect_def conn_reconnect)

lemmas conn_ops = conn_reconnect conn_markNodeUnavailable conn_triggerReconnect conn_run_reconnect

end
