(* ===== verification/Cluster_Server.thy ===== *)
theory Cluster_Server
  imports Cluster_State
begin

text \<open>
  \<^verbatim>\<open>cluster/grpc_server.go\<close>: the handlers of the gRPC service, as functions from the request and the state of
  the member to the response and the new state. \<open>now\<close> is the clock. Terms travel as 32-bit integers, so
  \<open>wrap32\<close> stands where the code converts. \<open>Heartbeat\<close> is the handling of one message of the stream.
\<close>

record ask_req =
  rq_NodeName :: string
  rq_Term :: int

record askLeader_resp =
  al_NodeName :: string
  al_Term :: int
  al_LeaderNodeName :: string
  al_Success :: bool

record askVote_resp =
  av_NodeName :: string
  av_Term :: int
  av_VoteNodeName :: string
  av_Success :: bool

record broadcast_req =
  bq_NodeName :: string
  bq_Term :: int
  bq_LeaderNodeName :: string

record broadcast_resp =
  br_NodeName :: string
  br_Term :: int
  br_LeaderNodeName :: string
  br_Success :: bool

definition AskLeader :: "int \<Rightarrow> ask_req \<Rightarrow> cluster \<Rightarrow> askLeader_resp \<times> cluster" where
  "AskLeader now req c =
     (let resp = \<lparr> al_NodeName = GetMyName c, al_Term = rq_Term req, al_LeaderNodeName = [], al_Success = False \<rparr>;
          resp1 =
            (if IsReady now c \<and> rq_Term req \<le> wrap32 (c_term c)
             then resp\<lparr> al_Term := wrap32 (c_term c), al_LeaderNodeName := GetLeaderName c, al_Success := True \<rparr>
             else if rq_Term req \<le> wrap32 (c_term c)
             then resp\<lparr> al_Term := wrap32 (c_term c), al_Success := True \<rparr>
             else resp);
          c1 = (if gm_get (c_aliveNodes c) (rq_NodeName req) = None then triggerReconnect c else c)
      in (resp1, c1))"

definition AskVote :: "int \<Rightarrow> ask_req \<Rightarrow> cluster \<Rightarrow> askVote_resp \<times> cluster" where
  "AskVote now req c =
     (let (vote, c1) = getVoteNodeName (rq_Term req) (rq_NodeName req) c;
          resp = \<lparr> av_NodeName = GetMyName c, av_Term = rq_Term req, av_VoteNodeName = vote, av_Success = True \<rparr>
      in if \<not> IsReady now c1 \<or> rq_Term req > wrap32 (c_term c1)
         then (resp, releaseLeader now c1)
         else (resp\<lparr> av_Success := False \<rparr>, c1))"

text \<open>The node that \<open>BroadcastLeader\<close> takes for the announced leader.\<close>

definition announced_leader :: "string \<Rightarrow> cluster \<Rightarrow> ptr \<times> cluster" where
  "announced_leader name c =
     (case gm_get (c_aliveNodes c) name of
        Some a \<Rightarrow> (Some a, c)
      | None \<Rightarrow>
          if name = GetMyName c then (c_curNode c, c)
          else (case gm_get (c_allNode c) name of
                  Some a \<Rightarrow> (Some a, triggerReconnect c)
                | None \<Rightarrow> (None, c)))"

definition BroadcastLeader :: "int \<Rightarrow> broadcast_req \<Rightarrow> cluster \<Rightarrow> broadcast_resp \<times> cluster" where
  "BroadcastLeader now req c =
     (let resp = \<lparr> br_NodeName = GetMyName c, br_Term = bq_Term req, br_LeaderNodeName = [], br_Success = False \<rparr>
      in if c_term c > bq_Term req then (resp\<lparr> br_Term := wrap32 (c_term c) \<rparr>, c)
         else
           let (leaderNode, c1) = announced_leader (bq_LeaderNodeName req) c
           in if leaderNode \<noteq> None
              then (resp\<lparr> br_Success := True, br_LeaderNodeName := bq_LeaderNodeName req \<rparr>,
                    snd (signLeader now leaderNode (bq_Term req) c1))
              else (resp, c1))"

definition Heartbeat :: "int \<Rightarrow> ask_req \<Rightarrow> cluster \<Rightarrow> askLeader_resp \<times> cluster" where
  "Heartbeat now req c =
     (let resp = \<lparr> al_NodeName = GetMyName c, al_Term = rq_Term req, al_LeaderNodeName = GetLeaderName c, al_Success = False \<rparr>
      in if c_term c > rq_Term req then (resp\<lparr> al_Term := wrap32 (c_term c), al_Success := False \<rparr>, c)
         else if GetLeaderName c \<noteq> rq_NodeName req then (resp\<lparr> al_Success := False \<rparr>, c)
         else (resp\<lparr> al_Success := True \<rparr>, upd_node (c_self c) (updateHeartbeat now) c))"

end
