(* ===== verification/Cluster_Election.thy ===== *)
theory Cluster_Election
  imports Cluster_Server
begin

text \<open>
  \<^verbatim>\<open>cluster/cluster.go\<close>, the election: \<open>fightingWithRetry\<close> cut at the points where it waits for the network
  or where another goroutine may run. The responses that \<open>broadcastToNodes\<close> collects before its timeout are
  arguments. \<open>fight_attempt\<close> puts the pieces together for one run without interference.

  The section on the cluster describes all members with the messages between them as a step relation, in
  which the members run the same pieces, and shows that a term has at most one winner.
\<close>

section \<open>One attempt\<close>

datatype ask_outcome = AskReturn | AskBreak | AskAgain

datatype vote_outcome = VoteReturn | VoteWait | Voting

datatype fight_outcome = FightSkipped | FightRunning | FightDone | FightRetry int

definition fight_enter :: "int \<Rightarrow> cluster \<Rightarrow> cluster option" where
  "fight_enter now c =
     (if IsReady now c \<or> IsClosed c then None
      else if c_fightingState c then None
      else let c1 = c\<lparr> c_fightingState := True \<rparr>
           in Some (releaseLeader now (upd_node (c_self c1) node_clean c1)))"

text \<open>The leader and the term taken from the answers to \<open>AskLeader\<close>.\<close>

fun choose_leader :: "askLeader_resp list \<Rightarrow> string \<Rightarrow> int \<Rightarrow> string \<times> int" where
  "choose_leader [] leaderNode maxTerm = (leaderNode, maxTerm)"
| "choose_leader (m # ms) leaderNode maxTerm =
     (if al_Success m \<and> al_LeaderNodeName m \<noteq> [] \<and> al_Term m \<ge> maxTerm
      then choose_leader ms (al_LeaderNodeName m) (al_Term m)
      else if al_Success m \<and> al_Term m \<ge> maxTerm then choose_leader ms leaderNode (al_Term m)
      else choose_leader ms leaderNode maxTerm)"

text \<open>Accepting that leader, when there is one and its node is known.\<close>

definition ask_sign :: "int \<Rightarrow> string \<Rightarrow> int \<Rightarrow> cluster \<Rightarrow> bool \<times> cluster" where
  "ask_sign now leaderNode maxTerm c =
     (if leaderNode \<noteq> [] then
        let node = (case gm_get (c_aliveNodes c) leaderNode of
                      Some a \<Rightarrow> Some a
                    | None \<Rightarrow> if leaderNode = GetMyName c then c_curNode c else None)
        in if node \<noteq> None then signLeader now node maxTerm c else (False, c)
      else (False, c))"

text \<open>
  What the round does when no leader was accepted: the term to store, if any. Between the comparison and the store, neither of which holds a lock, other
  goroutines may change the term. \<open>ask_round\<close> is a round without interference.
\<close>

definition ask_verdict :: "nat \<Rightarrow> nat \<Rightarrow> int \<Rightarrow> cluster \<Rightarrow> ask_outcome \<times> int option" where
  "ask_verdict quorum answers maxTerm c =
     (if answers < quorum then (AskBreak, None)
      else if maxTerm \<ge> c_term c then (AskBreak, Some maxTerm)
      else (AskAgain, None))"

definition ask_store :: "int option \<Rightarrow> cluster \<Rightarrow> cluster" where
  "ask_store t c = (case t of None \<Rightarrow> c | Some maxTerm \<Rightarrow> c\<lparr> c_term := maxTerm \<rparr>)"

definition ask_round :: "int \<Rightarrow> (string \<times> nat option) list \<Rightarrow> askLeader_resp list \<Rightarrow> cluster \<Rightarrow> ask_outcome \<times> cluster" where
  "ask_round now dials messages c =
     (if IsReady now c \<or> IsClosed c then (AskReturn, c)
      else
        let c1 = reconnect dials c;
            count = GetAliveNodeCount c1;
            quorum = getQuorum c1
        in if count \<ge> quorum then
             let (leaderNode, maxTerm) = choose_leader messages [] 0;
                 (signed, c2) = ask_sign now leaderNode maxTerm c1
             in if signed then (AskReturn, c2)
                else let (out, t) = ask_verdict quorum (length messages) maxTerm c2 in (out, ask_store t c2)
           else (AskAgain, c1))"

lemmas ask_round_eq = ask_round_def ask_verdict_def ask_store_def

fun ask_loop :: "int \<Rightarrow> ((string \<times> nat option) list \<times> askLeader_resp list) list \<Rightarrow> cluster \<Rightarrow> ask_outcome \<times> cluster" where
  "ask_loop now [] c = (AskAgain, c)"
| "ask_loop now ((dials, messages) # rs) c =
     (case ask_round now dials messages c of
        (AskAgain, c1) \<Rightarrow> ask_loop now rs c1
      | (out, c1) \<Rightarrow> (out, c1))"

text \<open>
  The next term is loaded, incremented and stored without a lock, so the two halves are separate; \<open>fight_begin\<close> is a run of both without interference.
\<close>

definition fight_next :: "int \<Rightarrow> cluster \<Rightarrow> int option" where
  "fight_next now c = (if IsReady now c \<or> IsClosed c then None else Some (wrap64 (c_term c + 1)))"

definition fight_store :: "int \<Rightarrow> cluster \<Rightarrow> cluster" where
  "fight_store nextTerm c = createEvent EvElectionStart [] (c\<lparr> c_term := nextTerm \<rparr>)"

definition fight_begin :: "int \<Rightarrow> cluster \<Rightarrow> (int \<times> cluster) option" where
  "fight_begin now c = map_option (\<lambda>nextTerm. (nextTerm, fight_store nextTerm c)) (fight_next now c)"

lemmas fight_begin_eq = fight_begin_def fight_next_def fight_store_def

definition vote_start :: "int \<Rightarrow> (string \<times> nat option) list \<Rightarrow> int \<Rightarrow> cluster \<Rightarrow> vote_outcome \<times> cluster" where
  "vote_start now dials nextTerm c =
     (if IsReady now c \<or> IsClosed c then (VoteReturn, c)
      else
        let c1 = reconnect dials c
        in if GetAliveNodeCount c1 \<ge> getQuorum c1 then
             if c_sate c1 \<noteq> Follower then (VoteReturn, c1)
             else let (ok, c2) = voteNode nextTerm (GetMyName c1) (c1\<lparr> c_sate := Candidate \<rparr>)
                  in (if ok then Voting else VoteReturn, c2)
           else (VoteWait, c1))"

fun vote_loop :: "int \<Rightarrow> (string \<times> nat option) list list \<Rightarrow> int \<Rightarrow> cluster \<Rightarrow> vote_outcome \<times> cluster" where
  "vote_loop now [] nextTerm c = (VoteWait, c)"
| "vote_loop now (dials # ds) nextTerm c =
     (case vote_start now dials nextTerm c of
        (VoteWait, c1) \<Rightarrow> vote_loop now ds nextTerm c1
      | (out, c1) \<Rightarrow> (out, c1))"

definition count_votes :: "string \<Rightarrow> askVote_resp list \<Rightarrow> nat" where
  "count_votes me messages = 1 + length (filter (\<lambda>m. av_Success m \<and> av_VoteNodeName m = me) messages)"

definition count_acks :: "broadcast_resp list \<Rightarrow> nat" where
  "count_acks messages = 1 + length (filter br_Success messages)"

definition vote_finish :: "int \<Rightarrow> nat \<Rightarrow> int \<Rightarrow> askVote_resp list \<Rightarrow> broadcast_resp list \<Rightarrow> cluster \<Rightarrow> cluster" where
  "vote_finish now quorum nextTerm messages acks c =
     (if count_votes (GetMyName c) messages \<ge> quorum
      then if count_acks acks \<ge> quorum then snd (signLeader now (c_curNode c) nextTerm c) else c
      else c)"

text \<open>The deferred functions, in the order they run; the pause before the next attempt is in milliseconds.\<close>

definition fight_backoff :: "int \<Rightarrow> int" where
  "fight_backoff retryCount =
     (let backoff = (retryCount + 1) * (retryCount + 1) * 20 in if backoff > 200 then 200 else backoff)"

definition fight_exit :: "int \<Rightarrow> cluster \<Rightarrow> fight_outcome \<times> cluster" where
  "fight_exit retryCount c =
     (if c_leaderNode c \<noteq> None then (FightDone, c\<lparr> c_fightingState := False \<rparr>)
      else let c1 = (if c_sate c = Candidate then c\<lparr> c_sate := Follower \<rparr> else c)
           in (if IsClosed c1 then FightDone else FightRetry (fight_backoff retryCount), c1\<lparr> c_fightingState := False \<rparr>))"

definition fight_finish :: "int \<Rightarrow> cluster \<Rightarrow> fight_outcome \<times> cluster" where
  "fight_finish retryCount c = fight_exit retryCount (createEvent EvElectionFinish (GetLeaderName c) c)"

record fight_env =
  fe_asks :: "((string \<times> nat option) list \<times> askLeader_resp list) list"
  fe_dials :: "(string \<times> nat option) list list"
  fe_votes :: "askVote_resp list"
  fe_acks :: "broadcast_resp list"

definition fight_attempt :: "int \<Rightarrow> int \<Rightarrow> fight_env \<Rightarrow> cluster \<Rightarrow> fight_outcome \<times> cluster" where
  "fight_attempt now retryCount env c =
     (case fight_enter now c of
        None \<Rightarrow> (FightSkipped, c)
      | Some c1 \<Rightarrow>
          (case ask_loop now (fe_asks env) c1 of
             (AskReturn, c2) \<Rightarrow> fight_exit retryCount c2
           | (AskAgain, c2) \<Rightarrow> (FightRunning, c2)
           | (AskBreak, c2) \<Rightarrow>
               (case fight_begin now c2 of
                  None \<Rightarrow> fight_exit retryCount c2
                | Some (nextTerm, c3) \<Rightarrow>
                    (case vote_loop now (fe_dials env) nextTerm c3 of
                       (VoteWait, c4) \<Rightarrow> (FightRunning, c4)
                     | (VoteReturn, c4) \<Rightarrow> fight_finish retryCount c4
                     | (Voting, c4) \<Rightarrow>
                         fight_finish retryCount
                           (vote_finish now (getQuorum c4) nextTerm (fe_votes env) (fe_acks env) c4)))))"

section \<open>Steps of a member\<close>

text \<open>
  What may happen to a member between \<open>Start\<close> and \<open>Close\<close>, one step per operation: the handlers, the pieces
  of an election attempt, the connections, and the heartbeats of the peers. The two steps that cast a
  vote, \<open>vote_start\<close> and \<open>AskVote\<close>, are in the relation of the cluster below.
\<close>

inductive member_step :: "cluster \<Rightarrow> cluster \<Rightarrow> bool" where
  ask_leader: "member_step c (snd (AskLeader now req c))"
| broadcast: "member_step c (snd (BroadcastLeader now breq c))"
| heartbeat: "member_step c (snd (Heartbeat now req c))"
| enter: "fight_enter now c = Some c' \<Longrightarrow> member_step c c'"
| ask: "member_step c (snd (ask_round now dials messages c))"
| begin_term: "fight_begin now c = Some (nextTerm, c') \<Longrightarrow> member_step c c'"
| finish_vote: "member_step c (vote_finish now quorum nextTerm messages acks c)"
| exit: "member_step c (snd (fight_exit retryCount c))"
| finish: "member_step c (snd (fight_finish retryCount c))"
| step_down: "member_step c (releaseWithNodeName now (GetMyName c) c)"
| unavailable: "member_step c (markNodeUnavailable name c)"
| reconnect: "member_step c (run_reconnect dials c)"
| peer_ok: "member_step c (upd_node a (updateHeartbeat now) c)"
| peer_failed: "member_step c (upd_node a updateHeartbeatFailed c)"
| peer_reset: "member_step c (upd_node a resetHeartbeatOnLeaderChange c)"

lemma frame_conn: "conn_frame c c' \<Longrightarrow> frame c c' \<and> c_votesMap c' = c_votesMap c"
  by (simp add: conn_frame_def)

lemma conn_announced_leader: "conn_frame c (snd (announced_leader name c))"
  using conn_triggerReconnect [of c] by (auto simp: announced_leader_def split: option.splits)

lemma BroadcastLeader_state:
  obtains c1 ptr where "conn_frame c c1" "snd (BroadcastLeader now req c) = c1 \<or>
     snd (BroadcastLeader now req c) = snd (signLeader now ptr (bq_Term req) c1)"
proof -
  obtain ptr c1 where l: "announced_leader (bq_LeaderNodeName req) c = (ptr, c1)" by fastforce
  have "conn_frame c c1" using conn_announced_leader [of c "bq_LeaderNodeName req"] l by simp
  moreover have "snd (BroadcastLeader now req c) = c \<or> snd (BroadcastLeader now req c) = c1 \<or>
      snd (BroadcastLeader now req c) = snd (signLeader now ptr (bq_Term req) c1)"
    by (simp add: BroadcastLeader_def Let_def l)
  ultimately show thesis using that [of c ptr] that [of c1 ptr] by auto
qed

lemma ask_sign_state:
  assumes "ask_sign now l t c = (ok, c')"
  shows "(ok \<longrightarrow> (\<exists>node. signLeader now node t c = (True, c'))) \<and> (\<not> ok \<longrightarrow> c' = c)"
  using assms unfolding ask_sign_def Let_def
  by (cases ok) (auto split: if_splits dest: signLeader_False)

lemma ask_round_state:
  assumes "ask_round now dials messages c = (out, c')"
  obtains (same) "c' = c"
  | (conn) "c' = reconnect dials c"
  | (signed) node t where "signLeader now node t (reconnect dials c) = (True, c')"
  | (raised) t where "c' = (reconnect dials c)\<lparr> c_term := t \<rparr>" "c_term (reconnect dials c) \<le> t"
proof -
  obtain l t where ch: "choose_leader messages [] 0 = (l, t)" by fastforce
  obtain ok c2 where sg: "ask_sign now l t (reconnect dials c) = (ok, c2)" by fastforce
  have "c' = c \<or> c' = reconnect dials c \<or> ok \<and> c' = c2 \<or> \<not> ok \<and> c' = c2 \<or>
      \<not> ok \<and> c' = c2\<lparr> c_term := t \<rparr> \<and> c_term c2 \<le> t"
    using assms by (auto simp: ask_round_eq Let_def ch sg split: if_splits)
  then show thesis using ask_sign_state [OF sg] same conn signed raised by blast
qed

lemma ask_round_frame: "frame c (snd (ask_round now dials messages c)) \<and>
   c_votesMap (snd (ask_round now dials messages c)) = c_votesMap c"
proof -
  obtain out c' where r: "ask_round now dials messages c = (out, c')" by fastforce
  have conn: "frame c (reconnect dials c)" "c_votesMap (reconnect dials c) = c_votesMap c"
    using frame_conn [OF conn_reconnect] by auto
  from r show ?thesis
  proof (cases rule: ask_round_state)
    case (signed node t)
    then show ?thesis
      using r conn frame_trans signLeader_frame [of "reconnect dials c" now node t] by (metis snd_conv)
  qed (use r conn in auto)
qed

lemma member_step_frame: "member_step c c' \<Longrightarrow> frame c c' \<and> c_votesMap c' = c_votesMap c"
proof (induction rule: member_step.induct)
  case (ask_leader c now req)
  then show ?case using frame_conn [OF conn_triggerReconnect] by (auto simp: AskLeader_def Let_def)
next
  case (broadcast c now breq)
  obtain c1 ptr where "conn_frame c c1" and
    "snd (BroadcastLeader now breq c) = c1 \<or> snd (BroadcastLeader now breq c) = snd (signLeader now ptr (bq_Term breq) c1)"
    by (rule BroadcastLeader_state)
  then show ?case using frame_conn [of c c1] signLeader_frame [of c1 now ptr "bq_Term breq"] frame_trans by metis
next
  case (heartbeat c now req)
  then show ?case by (auto simp: Heartbeat_def Let_def intro!: frame_upd_node)
next
  case (enter now c c')
  let ?c1 = "upd_node (c_self c) node_clean (c\<lparr> c_fightingState := True \<rparr>)"
  have "c' = releaseLeader now ?c1" using enter by (auto simp: fight_enter_def Let_def split: if_splits)
  moreover have "frame c ?c1" by (rule frame_upd_node) auto
  ultimately show ?case using releaseLeader_props(1,2) [where now = now and c = ?c1] frame_trans by auto
next
  case (ask c now dials messages)
  then show ?case by (rule ask_round_frame)
next
  case (finish_vote c now quorum nextTerm messages acks)
  then show ?case using signLeader_frame by (auto simp: vote_finish_def)
next
  case (finish c retryCount)
  then show ?case by (auto simp: fight_finish_def fight_exit_def Let_def)
next
  case (step_down c now)
  then show ?case using releaseLeader_props by (auto simp: releaseWithNodeName_eq)
qed (auto simp: fight_begin_eq fight_exit_def frame_conn conn_ops Let_def split: if_splits intro!: frame_upd_node)

section \<open>The cluster\<close>

text \<open>
  All members by name, the vote requests sent (candidate and term), the responses (to which candidate),
  and the elections won. A response names its sender; a candidate counts at most one response per member,
  because \<open>broadcastToNodes\<close> asks each live node other than itself once.
\<close>

record world =
  w_member :: "string \<Rightarrow> cluster"
  w_req :: "(string \<times> int) set"
  w_resp :: "(string \<times> askVote_resp) set"
  w_won :: "(string \<times> int) set"

inductive world_step :: "string set \<Rightarrow> world \<Rightarrow> world \<Rightarrow> bool" for N where
  local: "p \<in> N \<Longrightarrow> member_step (w_member w p) c \<Longrightarrow> world_step N w (w\<lparr> w_member := (w_member w)(p := c) \<rparr>)"
| start: "p \<in> N \<Longrightarrow> vote_start now dials nextTerm (w_member w p) = (out, c) \<Longrightarrow>
    world_step N w (w\<lparr> w_member := (w_member w)(p := c),
      w_req := (if out = Voting then insert (p, wrap32 nextTerm) (w_req w) else w_req w) \<rparr>)"
| vote: "q \<in> N \<Longrightarrow> (p, t) \<in> w_req w \<Longrightarrow>
    AskVote now \<lparr> rq_NodeName = p, rq_Term = t \<rparr> (w_member w q) = (resp, c) \<Longrightarrow>
    world_step N w (w\<lparr> w_member := (w_member w)(q := c), w_resp := insert (p, resp) (w_resp w) \<rparr>)"
| win: "p \<in> N \<Longrightarrow> gm_get (c_votesMap (w_member w p)) nextTerm = Some p \<Longrightarrow>
    \<forall>m \<in> set messages. (p, m) \<in> w_resp w \<and> av_Term m = wrap32 nextTerm \<and> av_NodeName m \<noteq> p \<Longrightarrow>
    distinct (map av_NodeName messages) \<Longrightarrow>
    count_votes p messages \<ge> getQuorum (w_member w p) \<Longrightarrow>
    world_step N w (w\<lparr> w_won := insert (p, nextTerm) (w_won w) \<rparr>)"

text \<open>Initially every member is configured with the same nodes, and nothing has been sent.\<close>

definition configured :: "string set \<Rightarrow> string \<Rightarrow> cluster \<Rightarrow> bool" where
  "configured N p c \<longleftrightarrow> GetMyName c = p \<and> set (GetAllNodeNames c) = N \<and> distinct (GetAllNodeNames c)"

definition world_init :: "string set \<Rightarrow> world \<Rightarrow> bool" where
  "world_init N w \<longleftrightarrow> (\<forall>p \<in> N. configured N p (w_member w p)) \<and> w_req w = {} \<and> w_resp w = {} \<and> w_won w = {}"

subsection \<open>Majorities\<close>

text \<open>Two majorities of the configured nodes share a node, which has one vote per term.\<close>

locale majority =
  fixes N :: "'n set" and q :: nat
  assumes finite_N: "finite N" and majority: "card N < 2 * q"
begin

lemma unique_winner:
  assumes "V \<subseteq> N" "V' \<subseteq> N" "q \<le> card V" "q \<le> card V'"
    and "\<forall>v \<in> V. vote v = Some a" "\<forall>v \<in> V'. vote v = Some b"
  shows "a = b"
proof -
  have fin: "finite V" "finite V'" using assms(1,2) finite_N finite_subset by auto
  have "V \<inter> V' \<noteq> {}"
  proof
    assume "V \<inter> V' = {}"
    then have "card (V \<union> V') = card V + card V'" using fin by (simp add: card_Un_disjoint)
    moreover have "card (V \<union> V') \<le> card N" using assms(1,2) finite_N by (simp add: card_mono)
    ultimately show False using assms(3,4) majority by linarith
  qed
  then show ?thesis using assms(5,6) by force
qed

end

interpretation quorum: majority "set (GetAllNodeNames c)" "getQuorum c" for c
proof
  have "card (set (GetAllNodeNames c)) \<le> GetAllNodeCount c" by (simp add: GetAllNodeCount_def card_length)
  then show "card (set (GetAllNodeNames c)) < 2 * getQuorum c"
    by (auto simp: getQuorum_def Let_def)
qed simp

subsection \<open>Invariant\<close>

definition votes_of :: "world \<Rightarrow> int \<Rightarrow> string \<Rightarrow> string option" where
  "votes_of w t p = gm_get (c_votesMap (w_member w p)) t"

definition world_inv :: "string set \<Rightarrow> world \<Rightarrow> bool" where
  "world_inv N w \<longleftrightarrow> (\<forall>p \<in> N. configured N p (w_member w p)) \<and>
     (\<forall>(p, r) \<in> w_resp w. av_NodeName r \<in> N \<and> votes_of w (av_Term r) (av_NodeName r) = Some (av_VoteNodeName r)) \<and>
     (\<forall>(p, t) \<in> w_won w. wrap32 t = t \<longrightarrow>
        (\<exists>V \<subseteq> N. getQuorum (w_member w p) \<le> card V \<and> p \<in> N \<and> (\<forall>v \<in> V. votes_of w t v = Some p)))"

lemma configured_frame: "frame c c' \<Longrightarrow> configured N p c' = configured N p c"
  using frame_GetMyName frame_all by (simp add: configured_def)

text \<open>A member that changes within its frame and keeps its votes keeps the invariant.\<close>

lemma world_inv_member:
  assumes inv: "world_inv N w" and f: "frame (w_member w p) c" and k: "votes_kept (w_member w p) c"
  shows "world_inv N (w\<lparr> w_member := (w_member w)(p := c), w_req := rq \<rparr>)"
    and "\<And>t q v. votes_of w t q = Some v \<Longrightarrow> votes_of (w\<lparr> w_member := (w_member w)(p := c), w_req := rq \<rparr>) t q = Some v"
proof -
  let ?w = "w\<lparr> w_member := (w_member w)(p := c), w_req := rq \<rparr>"
  show keep: "votes_of w t q = Some v \<Longrightarrow> votes_of ?w t q = Some v" for t q v
    using k by (auto simp: votes_of_def votes_kept_def)
  have quo: "getQuorum (w_member ?w q) = getQuorum (w_member w q)" for q
    using frame_all [OF f] by simp
  have "\<forall>q \<in> N. configured N q (w_member ?w q)"
    using inv configured_frame [OF f] by (simp add: world_inv_def)
  moreover have "\<forall>(q, r) \<in> w_resp ?w. av_NodeName r \<in> N \<and> votes_of ?w (av_Term r) (av_NodeName r) = Some (av_VoteNodeName r)"
    using inv keep by (fastforce simp: world_inv_def)
  moreover have "\<forall>(q, t) \<in> w_won ?w. wrap32 t = t \<longrightarrow>
      (\<exists>V \<subseteq> N. getQuorum (w_member ?w q) \<le> card V \<and> q \<in> N \<and> (\<forall>v \<in> V. votes_of ?w t v = Some q))"
  proof (clarify)
    fix q t assume "(q, t) \<in> w_won ?w" "wrap32 t = t"
    then obtain V where "V \<subseteq> N" "getQuorum (w_member w q) \<le> card V" "q \<in> N" "\<forall>v \<in> V. votes_of w t v = Some q"
      using inv by (fastforce simp: world_inv_def)
    then show "\<exists>V \<subseteq> N. getQuorum (w_member ?w q) \<le> card V \<and> q \<in> N \<and> (\<forall>v \<in> V. votes_of ?w t v = Some q)"
      using quo keep by metis
  qed
  ultimately show "world_inv N ?w" unfolding world_inv_def by blast
qed

lemma vote_start_votes:
  assumes "vote_start now dials t c = (out, c')"
  shows "frame c c' \<and> votes_kept c c'"
proof -
  let ?c1 = "reconnect dials c"
  obtain ok c2 where v: "voteNode t (GetMyName ?c1) (?c1\<lparr> c_sate := Candidate \<rparr>) = (ok, c2)" by fastforce
  note vp = votes_voteNode [OF v]
  have conn: "frame c ?c1" "c_votesMap ?c1 = c_votesMap c" using frame_conn [OF conn_reconnect] by auto
  have "frame c c2" using frame_trans [OF _ vp(1)] conn(1) by simp
  moreover have "votes_kept c c2" using vp(2) conn(2) by (simp add: votes_kept_def)
  ultimately show ?thesis
    using assms conn by (auto simp: vote_start_def Let_def v votes_kept_eq split: if_splits)
qed

lemma AskVote_votes:
  assumes "AskVote now req c = (resp, c')"
  shows "frame c c'" "votes_kept c c'" "gm_get (c_votesMap c') (rq_Term req) = Some (av_VoteNodeName resp)"
    "av_Term resp = rq_Term req" "av_NodeName resp = GetMyName c"
proof -
  obtain v c1 where g: "getVoteNodeName (rq_Term req) (rq_NodeName req) c = (v, c1)" by fastforce
  note gp = votes_getVoteNodeName [OF g]
  have rel: "frame c (releaseLeader now c1)" "c_votesMap (releaseLeader now c1) = c_votesMap c1"
    using frame_trans [OF gp(1) releaseLeader_props(1)] releaseLeader_props(2) by auto
  show "frame c c'" "votes_kept c c'" "gm_get (c_votesMap c') (rq_Term req) = Some (av_VoteNodeName resp)"
    "av_Term resp = rq_Term req" "av_NodeName resp = GetMyName c"
    using assms gp rel by (auto simp: AskVote_def g Let_def votes_kept_def split: if_splits)
qed

lemma win_majority:
  assumes inv: "world_inv N w" and p: "p \<in> N" and self: "gm_get (c_votesMap (w_member w p)) t = Some p"
    and ms: "\<forall>m \<in> set ms. (p, m) \<in> w_resp w \<and> av_Term m = wrap32 t \<and> av_NodeName m \<noteq> p"
    and d: "distinct (map av_NodeName ms)" and q: "getQuorum (w_member w p) \<le> count_votes p ms" and t: "wrap32 t = t"
  shows "\<exists>V \<subseteq> N. getQuorum (w_member w p) \<le> card V \<and> p \<in> N \<and> (\<forall>v \<in> V. votes_of w t v = Some p)"
proof -
  let ?g = "filter (\<lambda>m. av_Success m \<and> av_VoteNodeName m = p) ms"
  let ?V = "insert p (set (map av_NodeName ?g))"
  have dg: "distinct (map av_NodeName ?g)" using d distinct_map_filter by blast
  have "p \<notin> set (map av_NodeName ?g)" using ms by auto
  then have "card ?V = count_votes p ms"
    using distinct_card [OF dg] by (simp add: count_votes_def)
  moreover have resp: "av_NodeName m \<in> N \<and> votes_of w t (av_NodeName m) = Some (av_VoteNodeName m)" if "m \<in> set ms" for m
    using inv ms that t by (fastforce simp: world_inv_def)
  ultimately show ?thesis
    using p self q by (intro exI [of _ ?V]) (auto simp: votes_of_def)
qed

lemma world_step_inv:
  assumes "world_step N w w'" and inv: "world_inv N w"
  shows "world_inv N w'"
  using assms(1)
proof cases
  case (local p c)
  then show ?thesis
    using world_inv_member(1) [OF inv, of p c "w_req w"] member_step_frame [OF local(3)] votes_kept_eq by simp
next
  case (start p now dials t out c)
  then show ?thesis using world_inv_member(1) [OF inv] vote_start_votes [OF start(3)] by simp
next
  case (vote q p t now resp c)
  note av = AskVote_votes [OF vote(4)]
  have i1: "world_inv N (w\<lparr> w_member := (w_member w)(q := c) \<rparr>)"
    using world_inv_member(1) [OF inv av(1,2), of "w_req w"] by simp
  have "GetMyName (w_member w q) = q" using inv vote(2) by (simp add: world_inv_def configured_def)
  then have "av_NodeName resp \<in> N" "votes_of w' (av_Term resp) (av_NodeName resp) = Some (av_VoteNodeName resp)"
    using av(3-5) vote(1,2) by (auto simp: votes_of_def)
  then show ?thesis using i1 vote(1) by (auto simp: world_inv_def votes_of_def)
next
  case (win p t ms)
  then show ?thesis
    using inv win_majority [OF inv win(2-6)] by (auto simp: world_inv_def votes_of_def)
qed

lemma world_steps_inv: "(world_step N)\<^sup>*\<^sup>* w w' \<Longrightarrow> world_inv N w \<Longrightarrow> world_inv N w'"
  by (induction rule: rtranclp_induct) (auto intro: world_step_inv)

lemma world_init_inv: "world_init N w \<Longrightarrow> world_inv N w"
  by (auto simp: world_init_def world_inv_def)

section \<open>Properties\<close>

text \<open>
  C1: election safety. Let all members be configured with the same nodes. Whatever the members do and
  however the vote requests and responses are delayed, lost or reordered, no two different members
  collect votes of a quorum in the same term (a term that fits the 32 bits of the messages).
\<close>

theorem election_safety:
  assumes "world_init N w0" and "(world_step N)\<^sup>*\<^sup>* w0 w" and "(p, t) \<in> w_won w" and "(q, t) \<in> w_won w"
    and "- 2147483648 \<le> t" and "t < 2147483648"
  shows "p = q"
proof -
  have inv: "world_inv N w" using world_steps_inv [OF assms(2) world_init_inv [OF assms(1)]] .
  have t: "wrap32 t = t" using assms(5,6) by (rule wrap32_id)
  obtain V where V: "V \<subseteq> N" "getQuorum (w_member w p) \<le> card V" "p \<in> N" "\<forall>v \<in> V. votes_of w t v = Some p"
    using inv assms(3) t by (fastforce simp: world_inv_def)
  obtain U where U: "U \<subseteq> N" "getQuorum (w_member w q) \<le> card U" "q \<in> N" "\<forall>v \<in> U. votes_of w t v = Some q"
    using inv assms(4) t by (fastforce simp: world_inv_def)
  have c: "configured N r (w_member w r)" if "r \<in> N" for r using inv that by (simp add: world_inv_def)
  have cnt: "GetAllNodeCount (w_member w r) = card N" if "r \<in> N" for r
    using c [OF that] distinct_card [of "GetAllNodeNames (w_member w r)"] by (simp add: configured_def GetAllNodeCount_def)
  have conf: "set (GetAllNodeNames (w_member w p)) = N" "getQuorum (w_member w q) = getQuorum (w_member w p)"
    using c [OF V(3)] cnt [OF V(3)] cnt [OF U(3)] by (simp_all add: configured_def getQuorum_def)
  show ?thesis
    by (rule quorum.unique_winner [of V "w_member w p" U, OF _ _ V(2) _ V(4) U(4)])
       (use V(1) U(1,2) in \<open>simp_all only: conf\<close>)
qed

text \<open>An example: three members, of which \<open>a\<close> asks for votes in term 1 and gets that of \<open>b\<close>.\<close>

definition ex_names :: "string list" where
  "ex_names = [''a'', ''b'', ''c'']"

definition ex_member :: "addr \<Rightarrow> cluster" where
  "ex_member i = \<lparr> c_mode = ModeCluster, c_timeout = 5000000000, c_enable = True,
     c_node = (\<lambda>a. (newNode ''host'' (if a = 0 then ''a'' else if a = 1 then ''b'' else ''c''))\<lparr> nd_client := Some a \<rparr>),
     c_brk = 3, c_curNode = Some i, c_leaderNode = None, c_lostLeaderTime = zeroTime,
     c_allNode = [(''a'', 0), (''b'', 1), (''c'', 2)], c_aliveNodes = [(''a'', 0), (''b'', 1), (''c'', 2)],
     c_term = 0, c_sate = Follower, c_votesMap = [], c_events = Some [], c_eventsClosed = False, c_ctxDone = False,
     c_select = False, c_fightingState = False, c_reconnectPending = False \<rparr>"

definition ex_world :: world where
  "ex_world = \<lparr> w_member = (\<lambda>p. ex_member (if p = ''a'' then 0 else if p = ''b'' then 1 else 2)),
     w_req = {}, w_resp = {}, w_won = {} \<rparr>"

lemma ex_world_init: "world_init (set ex_names) ex_world"
  by (auto simp: world_init_def ex_world_def ex_names_def configured_def ex_member_def GetMyName_def
      GetAllNodeNames_def gm_keys_def)

lemma ex_vote_start: "vote_start 0 [] 1 (ex_member 0) = (Voting, (ex_member 0)\<lparr> c_sate := Candidate, c_votesMap := [(1, ''a'')] \<rparr>)"
  by (simp add: vote_start_def ex_member_def IsReady_def isNodeHealthy_def isHeartbeatZero_def newNode_def
      reconnect_def Let_def GetAliveNodeCount_def GetAliveNodeNames_def getQuorum_def GetAllNodeCount_def
      GetAllNodeNames_def gm_defs voteNode_def GetMyName_def)

lemma ex_AskVote: "fst (AskVote 0 \<lparr> rq_NodeName = ''a'', rq_Term = 1 \<rparr> (ex_member 1)) =
   \<lparr> av_NodeName = ''b'', av_Term = 1, av_VoteNodeName = ''a'', av_Success = True \<rparr>"
  by (simp add: AskVote_def ex_member_def getVoteNodeName_def GetMyName_def IsReady_def isNodeHealthy_def
      isHeartbeatZero_def newNode_def Let_def wrap_at_def gm_defs)

definition ex_resp :: askVote_resp where
  "ex_resp = \<lparr> av_NodeName = ''b'', av_Term = 1, av_VoteNodeName = ''a'', av_Success = True \<rparr>"

definition ex_world_won :: world where
  "ex_world_won = \<lparr> w_member = (w_member ex_world)(''a'' := (ex_member 0)\<lparr> c_sate := Candidate, c_votesMap := [(1, ''a'')] \<rparr>,
       ''b'' := snd (AskVote 0 \<lparr> rq_NodeName = ''a'', rq_Term = 1 \<rparr> (ex_member 1))),
     w_req = {(''a'', 1)}, w_resp = {(''a'', ex_resp)}, w_won = {(''a'', 1)} \<rparr>"

lemma ex_world_steps: "(world_step (set ex_names))\<^sup>*\<^sup>* ex_world ex_world_won"
proof -
  let ?c1 = "(ex_member 0)\<lparr> c_sate := Candidate, c_votesMap := [(1, ''a'')] \<rparr>"
  let ?w1 = "ex_world\<lparr> w_member := (w_member ex_world)(''a'' := ?c1), w_req := {(''a'', 1)} \<rparr>"
  let ?c2 = "snd (AskVote 0 \<lparr> rq_NodeName = ''a'', rq_Term = 1 \<rparr> (ex_member 1))"
  let ?w2 = "?w1\<lparr> w_member := (w_member ?w1)(''b'' := ?c2), w_resp := {(''a'', ex_resp)} \<rparr>"
  have w: "wrap32 1 = 1" by (rule wrap32_id) auto
  have s1: "world_step (set ex_names) ex_world ?w1"
    using world_step.start [of "''a''" "set ex_names" 0 "[]" 1 ex_world Voting ?c1] ex_vote_start w
    by (simp add: ex_names_def ex_world_def)
  have "AskVote 0 \<lparr> rq_NodeName = ''a'', rq_Term = 1 \<rparr> (w_member ?w1 ''b'') = (ex_resp, ?c2)"
    using ex_AskVote by (simp add: ex_world_def ex_resp_def prod_eq_iff)
  then have s2: "world_step (set ex_names) ?w1 ?w2"
    using world_step.vote [of "''b''" "set ex_names" "''a''" 1 ?w1 0 ex_resp ?c2] by (simp add: ex_names_def ex_world_def)
  have s3: "world_step (set ex_names) ?w2 (?w2\<lparr> w_won := insert (''a'', 1) (w_won ?w2) \<rparr>)"
  proof (rule world_step.win [of _ _ _ _ "[ex_resp]"])
    show "getQuorum (w_member ?w2 ''a'') \<le> count_votes ''a'' [ex_resp]"
      by (simp add: getQuorum_def GetAllNodeCount_def GetAllNodeNames_def gm_keys_def ex_member_def count_votes_def ex_resp_def)
  qed (auto simp: ex_names_def gm_defs ex_resp_def w)
  have eq: "?w2\<lparr> w_won := insert (''a'', 1) (w_won ?w2) \<rparr> = ex_world_won"
    by (simp add: ex_world_won_def ex_world_def)
  have "(world_step (set ex_names))\<^sup>*\<^sup>* ex_world ?w1" using s1 by (rule r_into_rtranclp)
  then have "(world_step (set ex_names))\<^sup>*\<^sup>* ex_world ?w2" using s2 by (rule rtranclp.rtrancl_into_rtrancl)
  then show ?thesis using s3 [unfolded eq] by (rule rtranclp.rtrancl_into_rtrancl)
qed

theorem election_safety_witness: "(''a'', 1) \<in> w_won ex_world_won \<and> {q. (q, 1) \<in> w_won ex_world_won} = {''a''}"
proof -
  have a: "(''a'', 1) \<in> w_won ex_world_won" by (simp add: ex_world_won_def)
  have "q = ''a''" if "(q, 1) \<in> w_won ex_world_won" for q
    using that by (rule election_safety [OF ex_world_init ex_world_steps _ a]) simp_all
  then have "{q. (q, 1) \<in> w_won ex_world_won} \<subseteq> {''a''}" by blast
  moreover have "{''a''} \<subseteq> {q. (q, 1) \<in> w_won ex_world_won}" using a by blast
  ultimately show ?thesis using a by (intro conjI subset_antisym)
qed

end
