(* ===== verification/Cluster_Roles.thy ===== *)
theory Cluster_Roles
  imports Cluster_Election
begin

text \<open>
  What the role of a member means: a member is leader exactly when the leader it has recorded is itself, and an undisturbed attempt with enough answers ends in
  leadership.
\<close>

section \<open>Role and leader agree\<close>

definition role_ok :: "cluster \<Rightarrow> bool" where
  "role_ok c \<longleftrightarrow> (c_sate c = Leader \<longleftrightarrow> c_leaderNode c \<noteq> None \<and> GetLeaderName c = GetMyName c)"

inductive any_step :: "cluster \<Rightarrow> cluster \<Rightarrow> bool" where
  member: "member_step c c' \<Longrightarrow> any_step c c'"
| start: "any_step c (snd (vote_start now dials nextTerm c))"
| vote: "any_step c (snd (AskVote now req c))"

text \<open>Two states with the same leader and the same role: \<open>role_same\<close>.\<close>

definition role_same :: "cluster \<Rightarrow> cluster \<Rightarrow> bool" where
  "role_same c c' \<longleftrightarrow> frame c c' \<and> c_sate c' = c_sate c \<and> c_leaderNode c' = c_leaderNode c"

lemma role_same_ok: "role_same c c' \<Longrightarrow> role_ok c' = role_ok c"
  using frame_GetMyName [of c c'] by (auto simp: role_same_def role_ok_def GetLeaderName_def frame_def split: option.splits)

lemma conn_role_same: "conn_frame c c' \<Longrightarrow> role_same c c' \<and> c_term c' = c_term c"
  by (simp add: role_same_def conn_frame_def)

lemma role_same_refl [simp]: "role_same c c"
  by (simp add: role_same_def)

lemma role_same_upd_node: "(\<And>n. nd_name (f n) = nd_name n) \<Longrightarrow> role_same c (upd_node a f c)"
  by (simp add: role_same_def frame_upd_node)

lemma signLeader_role:
  assumes "role_ok c"
  shows "role_ok (snd (signLeader now node t c)) \<and> c_term c \<le> c_term (snd (signLeader now node t c))"
proof (cases "signLeader now node t c")
  case (Pair ok c')
  show ?thesis
  proof (cases ok)
    case True
    with Pair obtain a where a: "node = Some a" "c_term c \<le> t" "frame c c'" "c_term c' = t" "c_leaderNode c' = Some a"
      "c_sate c' = (if nd_name (c_node c a) = GetMyName c then Leader else Follower)"
      by (metis signLeader_props)
    have "GetLeaderName c' = nd_name (c_node c a)" "GetMyName c' = GetMyName c"
      using a(3,5) frame_GetMyName by (auto simp: GetLeaderName_def frame_def)
    then show ?thesis using Pair a by (auto simp: role_ok_def)
  next
    case False
    then show ?thesis using Pair assms signLeader_False [of now node t c c'] by simp
  qed
qed

lemma releaseLeader_role: "role_ok (releaseLeader now c)"
  by (simp add: role_ok_def releaseLeader_props)

lemma ask_round_role:
  assumes "role_ok c"
  shows "role_ok (snd (ask_round now dials messages c)) \<and> c_term c \<le> c_term (snd (ask_round now dials messages c))"
proof -
  obtain out c' where r: "ask_round now dials messages c = (out, c')" by fastforce
  have conn: "role_ok (reconnect dials c)" "c_term (reconnect dials c) = c_term c"
    using conn_role_same [OF conn_reconnect, of c dials] role_same_ok assms by auto
  from r show ?thesis
  proof (cases rule: ask_round_state)
    case (signed node t)
    then show ?thesis using signLeader_role [OF conn(1), of now node t] r conn(2) by simp
  next
    case (raised t)
    have "role_same (reconnect dials c) ((reconnect dials c)\<lparr> c_term := t \<rparr>)" by (simp add: role_same_def)
    then show ?thesis using raised r conn role_same_ok by auto
  qed (use r assms conn in auto)
qed

lemma fight_exit_role:
  assumes "role_ok c"
  shows "role_ok (snd (fight_exit k c)) \<and> c_term (snd (fight_exit k c)) = c_term c"
  using assms by (auto simp: fight_exit_def role_ok_def GetLeaderName_def GetMyName_def Let_def split: option.splits)

lemma fight_begin_role:
  assumes "role_ok c" "fight_begin now c = Some (t, c')" "c_term c < 9223372036854775807" "- 9223372036854775808 \<le> c_term c"
  shows "role_ok c' \<and> c_term c \<le> c_term c'"
proof -
  have w: "wrap64 (c_term c + 1) = c_term c + 1" using assms(3,4) by (intro wrap64_id) auto
  have c': "c' = createEvent EvElectionStart [] (c\<lparr> c_term := c_term c + 1 \<rparr>)"
    using assms(2) w by (auto simp: fight_begin_eq Let_def split: if_splits)
  then have "role_same c c'" by (simp add: role_same_def)
  then show ?thesis using role_same_ok assms(1) c' by auto
qed

lemma finish_role:
  assumes "role_ok c"
  shows "role_ok (snd (fight_finish k c)) \<and> c_term (snd (fight_finish k c)) = c_term c"
proof -
  have "role_same c (createEvent EvElectionFinish (GetLeaderName c) c)" by (simp add: role_same_def)
  then show ?thesis
    using fight_exit_role [of "createEvent EvElectionFinish (GetLeaderName c) c" k] role_same_ok assms
    by (simp add: fight_finish_def)
qed

lemma vote_start_role:
  assumes "role_ok c"
  shows "role_ok (snd (vote_start now dials t c)) \<and> c_term (snd (vote_start now dials t c)) = c_term c"
proof -
  let ?c1 = "reconnect dials c"
  obtain ok c2 where v: "voteNode t (GetMyName ?c1) (?c1\<lparr> c_sate := Candidate \<rparr>) = (ok, c2)" by fastforce
  note vp = votes_voteNode [OF v]
  have conn: "role_ok ?c1" "c_term ?c1 = c_term c"
    using conn_role_same [OF conn_reconnect, of c dials] role_same_ok assms by auto
  have "role_ok c2" if "c_sate ?c1 = Follower"
  proof -
    have "frame ?c1 c2" using vp(1) by (simp add: frame_def)
    then have "GetMyName c2 = GetMyName ?c1" "GetLeaderName c2 = GetLeaderName ?c1"
      using frame_GetMyName vp(6) by (auto simp: GetLeaderName_def frame_def split: option.splits)
    then show ?thesis using conn(1) that vp(5,6) by (simp add: role_ok_def)
  qed
  then show ?thesis using assms conn vp(4) by (auto simp: vote_start_def Let_def v split: if_splits)
qed

lemma AskVote_role: "role_ok c \<Longrightarrow> role_ok (snd (AskVote now req c)) \<and> c_term (snd (AskVote now req c)) = c_term c"
proof -
  assume ok: "role_ok c"
  obtain v c1 where g: "getVoteNodeName (rq_Term req) (rq_NodeName req) c = (v, c1)" by fastforce
  note gp = votes_getVoteNodeName [OF g]
  have "role_same c c1" using gp by (simp add: role_same_def)
  then have "role_ok c1" using ok role_same_ok by simp
  then show ?thesis
    using gp(4) releaseLeader_role [of now c1] releaseLeader_props(3) [of now c1] by (simp add: AskVote_def g Let_def)
qed

definition term_in_range :: "cluster \<Rightarrow> bool" where
  "term_in_range c \<longleftrightarrow> - 9223372036854775808 \<le> c_term c \<and> c_term c < 9223372036854775807"

lemma member_step_role:
  assumes "member_step c c'" and ok: "role_ok c" and rng: "term_in_range c"
  shows "role_ok c' \<and> c_term c \<le> c_term c'"
  using assms(1)
proof cases
  case (ask_leader now req)
  then show ?thesis using ok conn_role_same [OF conn_triggerReconnect, of c] role_same_ok by (auto simp: AskLeader_def Let_def)
next
  case (broadcast now breq)
  obtain c1 ptr where c1: "conn_frame c c1" and
    eq: "snd (BroadcastLeader now breq c) = c1 \<or> snd (BroadcastLeader now breq c) = snd (signLeader now ptr (bq_Term breq) c1)"
    by (rule BroadcastLeader_state)
  have "role_ok c1" "c_term c1 = c_term c" using conn_role_same [OF c1] role_same_ok ok by auto
  then show ?thesis using eq broadcast signLeader_role [of c1 now ptr "bq_Term breq"] by auto
next
  case (heartbeat now req)
  then show ?thesis
    using ok role_same_ok [OF role_same_upd_node [of "updateHeartbeat now" c "c_self c"]] by (auto simp: Heartbeat_def Let_def)
next
  case (enter now)
  let ?c1 = "upd_node (c_self c) node_clean (c\<lparr> c_fightingState := True \<rparr>)"
  have "c' = releaseLeader now ?c1" using enter by (auto simp: fight_enter_def Let_def split: if_splits)
  then show ?thesis using releaseLeader_role [of now ?c1] releaseLeader_props(3) [of now ?c1] by simp
next
  case (ask now dials messages)
  then show ?thesis using ask_round_role [OF ok] by simp
next
  case (begin_term now t)
  then show ?thesis using fight_begin_role [OF ok] rng by (simp add: term_in_range_def)
next
  case (finish_vote now quorum t messages acks)
  then show ?thesis using ok signLeader_role [OF ok] by (simp add: vote_finish_def)
next
  case (exit k)
  then show ?thesis using fight_exit_role [OF ok] by simp
next
  case (finish k)
  then show ?thesis using finish_role [OF ok] by simp
next
  case (step_down now)
  then show ?thesis using ok releaseLeader_role [of now c] releaseLeader_props(3) [of now c] by (simp add: releaseWithNodeName_eq)
next
  case (unavailable name)
  then show ?thesis using ok conn_role_same [OF conn_markNodeUnavailable, of c name] role_same_ok by auto
next
  case (reconnect dials)
  then show ?thesis using ok conn_role_same [OF conn_run_reconnect, of c dials] role_same_ok by auto
next
  case (peer_ok a now)
  then show ?thesis using ok role_same_ok [OF role_same_upd_node [of "updateHeartbeat now" c a]] by simp
next
  case (peer_failed a)
  then show ?thesis using ok role_same_ok [OF role_same_upd_node [of updateHeartbeatFailed c a]] by simp
next
  case (peer_reset a)
  then show ?thesis using ok role_same_ok [OF role_same_upd_node [of resetHeartbeatOnLeaderChange c a]] by simp
qed

text \<open>
  Operations that are not interrupted keep the agreement of role and leader, and do not decrease the term (as long as it has not reached the largest
  64-bit integer). The theory \<open>Cluster_Interleave\<close> has the operations interrupted.
\<close>

lemma any_step_role:
  assumes "any_step c c'" and "role_ok c" and "term_in_range c"
  shows "role_ok c' \<and> c_term c \<le> c_term c'"
  using assms(1)
proof cases
  case member
  then show ?thesis by (rule member_step_role [OF _ assms(2,3)])
next
  case (start now dials t)
  then show ?thesis using vote_start_role [OF assms(2)] by simp
next
  case (vote now req)
  then show ?thesis using AskVote_role [OF assms(2)] by simp
qed

section \<open>Properties kept by every step\<close>

text \<open>
  A property that survives the elementary changes (connections, signing and releasing a leader, neutral
  events, the term, the change between follower and candidate, votes) survives every step of a member.
\<close>

locale step_invariant =
  fixes P :: "cluster \<Rightarrow> bool"
  assumes conn: "conn_frame c c' \<Longrightarrow> P c \<Longrightarrow> P c'"
    and sign: "P c \<Longrightarrow> P (snd (signLeader now node t c))"
    and release: "P c \<Longrightarrow> P (releaseLeader now c)"
    and event: "P c \<Longrightarrow> n \<in> {EvElectionStart, EvElectionFinish} \<Longrightarrow> P (createEvent n l c)"
    and term_upd: "P c \<Longrightarrow> P (c\<lparr> c_term := t \<rparr>)"
    and sate_upd: "P c \<Longrightarrow> c_sate c \<in> {Follower, Candidate} \<Longrightarrow> s \<in> {Follower, Candidate} \<Longrightarrow> P (c\<lparr> c_sate := s \<rparr>)"
    and votes_upd: "P c \<Longrightarrow> P (c\<lparr> c_votesMap := v \<rparr>)"
begin

lemma upd: "(\<And>n. nd_name (f n) = nd_name n) \<Longrightarrow> P c \<Longrightarrow> P (upd_node a f c)"
  by (rule conn [OF conn_frame_upd_node [OF _ conn_frame_refl]])

lemma fighting: "P c \<Longrightarrow> P (c\<lparr> c_fightingState := b \<rparr>)"
  using conn [of c "c\<lparr> c_fightingState := b \<rparr>"] by simp

lemma ask: "P c \<Longrightarrow> P (snd (ask_round now dials messages c))"
proof -
  assume inv: "P c"
  obtain out c' where r: "ask_round now dials messages c = (out, c')" by fastforce
  have conn: "P (reconnect dials c)" using inv conn [OF conn_reconnect] by simp
  from r show ?thesis
  proof (cases rule: ask_round_state)
    case (signed node t)
    then show ?thesis using sign [OF conn, of now node t] r by simp
  qed (use r inv conn term_upd in auto)
qed

lemma broadcast: "P c \<Longrightarrow> P (snd (BroadcastLeader now req c))"
proof -
  assume inv: "P c"
  obtain c1 ptr where c1: "conn_frame c c1" and
    eq: "snd (BroadcastLeader now req c) = c1 \<or> snd (BroadcastLeader now req c) = snd (signLeader now ptr (bq_Term req) c1)"
    by (rule BroadcastLeader_state)
  then show ?thesis using conn [OF c1 inv] sign by auto
qed

lemma exit: "P c \<Longrightarrow> P (snd (fight_exit k c))"
  by (auto simp: fight_exit_def Let_def intro: fighting sate_upd)

lemma member_inv: "member_step c c' \<Longrightarrow> P c \<Longrightarrow> P c'"
proof (induction rule: member_step.induct)
  case (ask_leader c now req)
  then show ?case using conn [OF conn_triggerReconnect] by (auto simp: AskLeader_def Let_def)
next
  case (heartbeat c now req)
  then show ?case by (auto simp: Heartbeat_def Let_def intro: upd)
next
  case (enter now c c')
  have "c' = releaseLeader now (upd_node (c_self c) node_clean (c\<lparr> c_fightingState := True \<rparr>))"
    using enter(1) by (auto simp: fight_enter_def Let_def split: if_splits)
  then show ?case using enter(2) by (simp add: release upd fighting)
next
  case (begin_term now c t c')
  then have "c' = createEvent EvElectionStart [] (c\<lparr> c_term := t \<rparr>)" by (auto simp: fight_begin_eq Let_def split: if_splits)
  then show ?case using begin_term(2) by (auto intro: event term_upd)
qed (auto simp: vote_finish_def fight_finish_def releaseWithNodeName_eq
      intro: broadcast ask exit event sign release upd conn [OF conn_markNodeUnavailable] conn [OF conn_run_reconnect])

lemma any: "any_step c c' \<Longrightarrow> P c \<Longrightarrow> P c'"
proof (induction rule: any_step.induct)
  case (member c c')
  then show ?case by (rule member_inv)
next
  case (start c now dials t)
  let ?c1 = "reconnect dials c"
  obtain ok c2 where v: "voteNode t (GetMyName ?c1) (?c1\<lparr> c_sate := Candidate \<rparr>) = (ok, c2)" by fastforce
  have c1: "P ?c1" using start conn [OF conn_reconnect] by simp
  have "P c2" if "c_sate ?c1 = Follower"
    using sate_upd [OF c1, of Candidate] that v votes_upd by (auto simp: voteNode_def split: option.splits)
  then show ?case using start c1 by (auto simp: vote_start_def Let_def v split: if_splits)
next
  case (vote c now req)
  obtain v c1 where g: "getVoteNodeName (rq_Term req) (rq_NodeName req) c = (v, c1)" by fastforce
  then have "P c1" using vote votes_upd by (auto simp: getVoteNodeName_def split: option.splits)
  then show ?case using release by (simp add: AskVote_def g Let_def)
qed

lemma reachable: "any_step\<^sup>*\<^sup>* c c' \<Longrightarrow> P c \<Longrightarrow> P c'"
  by (induction rule: rtranclp_induct) (auto intro: any)

end

section \<open>An attempt that succeeds\<close>

definition all_connected :: "cluster \<Rightarrow> bool" where
  "all_connected c \<longleftrightarrow> (\<forall>(n, b) \<in> set (c_allNode c). n \<noteq> GetMyName c \<longrightarrow>
     gm_get (c_aliveNodes c) n \<noteq> None \<and> nd_client (c_node c b) \<noteq> None)"

lemma reconnect_scan_connected:
  "\<forall>(n, b) \<in> set ns. n \<noteq> GetMyName c \<longrightarrow> gm_get (c_aliveNodes c) n \<noteq> None \<and> nd_client (c_node c b) \<noteq> None \<Longrightarrow>
   reconnect_scan ns c = ([], c)"
  by (induction ns c rule: reconnect_scan.induct) auto

lemma reconnect_connected: "all_connected c \<Longrightarrow> reconnect dials c = c"
  using reconnect_scan_connected [of "c_allNode c" c] by (simp add: reconnect_def all_connected_def)

lemma releaseLeader_nodes:
  "c_node (releaseLeader now c) = c_node c" "c_aliveNodes (releaseLeader now c) = c_aliveNodes c"
  "c_timeout (releaseLeader now c) = c_timeout c"
  by (auto simp: release_eqs drop_leader_def Let_def)

lemma choose_leader_none:
  "\<forall>m \<in> set ms. al_LeaderNodeName m = [] \<and> al_Term m \<le> T \<Longrightarrow> t \<le> T \<Longrightarrow>
   \<exists>mt. choose_leader ms [] t = ([], mt) \<and> t \<le> mt \<and> mt \<le> T \<and>
     (\<forall>m \<in> set ms. al_Success m \<longrightarrow> al_Term m \<le> mt)"
proof (induction ms arbitrary: t)
  case (Cons m ms)
  show ?case
  proof (cases "al_Success m \<and> al_Term m \<ge> t")
    case True
    then show ?thesis using Cons(1) [of "al_Term m"] Cons(2) by fastforce
  next
    case False
    then show ?thesis using Cons(1) [of t] Cons(2,3) by fastforce
  qed
qed simp

text \<open>A member whose own node has no heartbeat is not ready as a follower or candidate.\<close>

lemma not_ready_clean:
  "c_mode c \<noteq> ModeRedis \<Longrightarrow> c_sate c \<noteq> Leader \<Longrightarrow> nd_heartbeat (c_node c (c_self c)) = zeroTime \<Longrightarrow> \<not> IsReady now c"
  by (simp add: IsReady_def isNodeHealthy_def isHeartbeatZero_def Let_def)

lemma alive_quorum_frame:
  "frame c c' \<Longrightarrow> c_aliveNodes c' = c_aliveNodes c \<Longrightarrow>
   getQuorum c' = getQuorum c \<and> GetAliveNodeCount c' = GetAliveNodeCount c"
  using frame_all by (simp add: GetAliveNodeCount_def GetAliveNodeNames_def)

text \<open>The state in which an attempt is after it entered: no leader, no heartbeat, everybody connected.\<close>

definition campaigning :: "cluster \<Rightarrow> cluster \<Rightarrow> bool" where
  "campaigning c c' \<longleftrightarrow> frame c c' \<and> c_aliveNodes c' = c_aliveNodes c \<and> c_votesMap c' = c_votesMap c \<and>
     c_term c' = c_term c \<and> c_sate c' = Follower \<and> c_leaderNode c' = None \<and> all_connected c' \<and>
     nd_heartbeat (c_node c' (c_self c')) = zeroTime"

lemma fight_enter_campaigning:
  assumes "\<not> IsReady now c" "\<not> IsClosed c" "\<not> c_fightingState c" "all_connected c"
  shows "\<exists>c'. fight_enter now c = Some c' \<and> campaigning c c'"
proof -
  let ?c1 = "upd_node (c_self c) node_clean (c\<lparr> c_fightingState := True \<rparr>)"
  let ?c' = "releaseLeader now ?c1"
  have fr1: "frame c ?c1" by (rule frame_upd_node) auto
  have fr: "frame c ?c'" using frame_trans [OF fr1 releaseLeader_props(1)] .
  have nd: "c_node ?c' = (c_node c)(c_self c := node_clean (c_node c (c_self c)))"
    by (simp add: releaseLeader_nodes upd_node_def)
  have conn: "all_connected ?c'"
    using assms(4) frame_GetMyName [OF fr] fr nd
    by (fastforce simp: all_connected_def frame_def releaseLeader_nodes node_clean_def)
  have "nd_heartbeat (c_node ?c' (c_self ?c')) = zeroTime" using fr nd by (simp add: frame_def node_clean_def)
  then have "campaigning c ?c'" using fr conn by (simp add: campaigning_def releaseLeader_nodes releaseLeader_props)
  moreover have "fight_enter now c = Some ?c'" using assms(1-3) by (simp add: fight_enter_def)
  ultimately show ?thesis by blast
qed

lemma ask_round_break:
  assumes c1: "campaigning c c1" and mode: "c_mode c \<noteq> ModeRedis" and q: "getQuorum c \<le> GetAliveNodeCount c"
    and T: "0 \<le> c_term c"
    and ms: "\<forall>m \<in> set ms. al_LeaderNodeName m = [] \<and> al_Term m \<le> c_term c"
    and some: "length ms < getQuorum c \<or> (\<exists>m \<in> set ms. al_Success m \<and> al_Term m = c_term c)"
  shows "\<exists>c2. ask_round now [] ms c1 = (AskBreak, c2) \<and> campaigning c c2"
proof -
  have fr: "frame c c1" and sel: "c_term c1 = c_term c" "c_sate c1 = Follower" "nd_heartbeat (c_node c1 (c_self c1)) = zeroTime"
    "all_connected c1" using c1 by (auto simp: campaigning_def)
  have nr: "\<not> IsReady now c1" "\<not> IsClosed c1"
    using not_ready_clean [of c1 now] sel(2,3) fr mode by (auto simp: frame_def)
  obtain mt where mt: "choose_leader ms [] 0 = ([], mt)" "mt \<le> c_term c" "\<forall>m \<in> set ms. al_Success m \<longrightarrow> al_Term m \<le> mt"
    using choose_leader_none [OF ms T] by blast
  have qc: "getQuorum c1 = getQuorum c" "getQuorum c \<le> GetAliveNodeCount c1"
    using alive_quorum_frame [OF fr] c1 q by (auto simp: campaigning_def)
  have eq: "mt = c_term c" if "\<not> length ms < getQuorum c" using some mt(2,3) that by force
  have "ask_round now [] ms c1 = (AskBreak, if length ms < getQuorum c then c1 else c1\<lparr> c_term := mt \<rparr>)"
    using nr qc mt(1) sel(1) eq by (simp add: ask_round_eq reconnect_connected [OF sel(4)] ask_sign_def Let_def)
  moreover have "campaigning c (if length ms < getQuorum c then c1 else c1\<lparr> c_term := mt \<rparr>)"
    using c1 eq by (auto simp: campaigning_def all_connected_def)
  ultimately show ?thesis by blast
qed

lemma fight_begin_campaigning:
  assumes c1: "campaigning c c1" and mode: "c_mode c \<noteq> ModeRedis" and T: "0 \<le> c_term c" "c_term c < 9223372036854775807"
  shows "\<exists>c2. fight_begin now c1 = Some (c_term c + 1, c2) \<and> campaigning (c\<lparr> c_term := c_term c + 1 \<rparr>) c2"
proof -
  have fr: "frame c c1" and sel: "c_term c1 = c_term c" "c_sate c1 = Follower" "nd_heartbeat (c_node c1 (c_self c1)) = zeroTime"
    using c1 by (auto simp: campaigning_def)
  have nr: "\<not> IsReady now c1" "\<not> IsClosed c1"
    using not_ready_clean [of c1 now] sel(2,3) fr mode by (auto simp: frame_def)
  have w: "wrap64 (c_term c + 1) = c_term c + 1" using T by (intro wrap64_id) auto
  have "fight_begin now c1 = Some (c_term c + 1, createEvent EvElectionStart [] (c1\<lparr> c_term := c_term c + 1 \<rparr>))"
    using nr w sel(1) by (simp add: fight_begin_eq Let_def)
  moreover have "campaigning (c\<lparr> c_term := c_term c + 1 \<rparr>) (createEvent EvElectionStart [] (c1\<lparr> c_term := c_term c + 1 \<rparr>))"
    using c1 by (auto simp: campaigning_def all_connected_def frame_def)
  ultimately show ?thesis by blast
qed

lemma vote_start_campaigning:
  assumes c1: "campaigning c c1" and mode: "c_mode c \<noteq> ModeRedis" and q: "getQuorum c \<le> GetAliveNodeCount c"
    and v: "gm_get (c_votesMap c) t = None \<or> gm_get (c_votesMap c) t = Some (GetMyName c)"
  shows "\<exists>c2. vote_start now [] t c1 = (Voting, c2) \<and> frame c c2 \<and> c_term c2 = c_term c \<and>
           gm_get (c_votesMap c2) t = Some (GetMyName c)"
proof -
  have fr: "frame c c1" and sel: "c_term c1 = c_term c" "c_sate c1 = Follower" "nd_heartbeat (c_node c1 (c_self c1)) = zeroTime"
    "all_connected c1" "c_votesMap c1 = c_votesMap c" using c1 by (auto simp: campaigning_def)
  have nr: "\<not> IsReady now c1" "\<not> IsClosed c1"
    using not_ready_clean [of c1 now] sel(2,3) fr mode by (auto simp: frame_def)
  have qc: "getQuorum c1 \<le> GetAliveNodeCount c1"
    using alive_quorum_frame [OF fr] c1 q by (auto simp: campaigning_def)
  have me: "GetMyName c1 = GetMyName c" using frame_GetMyName [OF fr] .
  obtain ok c2 where vn: "voteNode t (GetMyName c1) (c1\<lparr> c_sate := Candidate \<rparr>) = (ok, c2)" by fastforce
  note vp = votes_voteNode [OF vn]
  have ok using vn v me sel(5) by (auto simp: voteNode_def)
  then have "vote_start now [] t c1 = (Voting, c2)"
    using nr qc sel(2) vn by (simp add: vote_start_def reconnect_connected [OF sel(4)] Let_def)
  moreover have "frame c c2" using frame_trans [OF _ vp(1)] fr by simp
  ultimately show ?thesis using vp(3) [OF \<open>ok\<close>] vp(4) me sel(1) by simp
qed

text \<open>
  C3: an attempt with enough answers ends in leadership. A member that is neither ready nor closed and is
  connected to the configured nodes, a quorum of which is alive, that no member answers with a leader or
  a higher term, that a quorum votes for and a quorum acknowledges, finishes the attempt as leader of the
  next term, for which it has recorded its own vote.
\<close>

theorem attempt_wins:
  assumes "\<not> IsReady now c" and "\<not> IsClosed c" and "\<not> c_fightingState c" and "all_connected c"
    and mode: "c_mode c \<noteq> ModeRedis" and q: "getQuorum c \<le> GetAliveNodeCount c" and me: "c_curNode c = Some a"
    and T: "0 \<le> c_term c" "c_term c < 9223372036854775807"
    and ms: "\<forall>m \<in> set ms. al_LeaderNodeName m = [] \<and> al_Term m \<le> c_term c"
    and some: "length ms < getQuorum c \<or> (\<exists>m \<in> set ms. al_Success m \<and> al_Term m = c_term c)"
    and v: "gm_get (c_votesMap c) (c_term c + 1) = None"
    and votes: "getQuorum c \<le> count_votes (GetMyName c) vs" and acks: "getQuorum c \<le> count_acks as"
  shows "\<exists>c'. fight_attempt now k \<lparr> fe_asks = [([], ms)], fe_dials = [[]], fe_votes = vs, fe_acks = as \<rparr> c = (FightDone, c') \<and>
     c_sate c' = Leader \<and> c_term c' = c_term c + 1 \<and> GetLeaderName c' = GetMyName c \<and>
     gm_get (c_votesMap c') (c_term c + 1) = Some (GetMyName c)"
proof -
  let ?t = "c_term c + 1"
  let ?ct = "c\<lparr> c_term := ?t \<rparr>"
  have ctq: "c_mode ?ct \<noteq> ModeRedis" "getQuorum ?ct \<le> GetAliveNodeCount ?ct" "GetMyName ?ct = GetMyName c"
      "gm_get (c_votesMap ?ct) ?t = None \<or> gm_get (c_votesMap ?ct) ?t = Some (GetMyName ?ct)"
    using mode q v by (simp_all add: getQuorum_def GetAllNodeCount_def GetAllNodeNames_def GetAliveNodeCount_def
        GetAliveNodeNames_def)
  obtain c1 where c1: "fight_enter now c = Some c1" "campaigning c c1"
    using fight_enter_campaigning [OF assms(1-4)] by blast
  obtain c2 where c2: "ask_round now [] ms c1 = (AskBreak, c2)" "campaigning c c2"
    using ask_round_break [OF c1(2) mode q T(1) ms some] by blast
  obtain c3 where c3: "fight_begin now c2 = Some (?t, c3)" "campaigning ?ct c3"
    using fight_begin_campaigning [OF c2(2) mode T] by blast
  obtain c4 where c4: "vote_start now [] ?t c3 = (Voting, c4)" "frame ?ct c4" "c_term c4 = ?t"
      "gm_get (c_votesMap c4) ?t = Some (GetMyName c)"
    using vote_start_campaigning [OF c3(2) ctq(1,2,4)] ctq(3) by auto
  have fr: "frame c c4" using c4(2) by (simp add: frame_def)
  have n4: "GetMyName c4 = GetMyName c" "getQuorum c4 = getQuorum c" "c_curNode c4 = Some a"
    using frame_GetMyName [OF fr] frame_all [OF fr] fr me by (auto simp: frame_def)
  obtain c5 where c5: "signLeader now (Some a) ?t c4 = (True, c5)"
    using signLeader_True [of c4 ?t now a] c4(3) by simp
  have an: "nd_name (c_node c4 a) = GetMyName c4" using n4(3) by (simp add: GetMyName_def)
  have s: "frame c4 c5" "c_votesMap c5 = c_votesMap c4" "c_term c5 = ?t" "c_leaderNode c5 = Some a" "c_sate c5 = Leader"
    using signLeader_props [OF c5] an by (metis option.inject)+
  have vf: "vote_finish now (getQuorum c4) ?t vs as c4 = c5"
    using votes acks n4 c5 by (simp add: vote_finish_def)
  have ln: "GetLeaderName c5 = GetMyName c"
    using s(1,4) an n4(1) by (simp add: GetLeaderName_def frame_def)
  let ?c6 = "(createEvent EvElectionFinish (GetLeaderName c5) c5)\<lparr> c_fightingState := False \<rparr>"
  have "fight_attempt now k \<lparr> fe_asks = [([], ms)], fe_dials = [[]], fe_votes = vs, fe_acks = as \<rparr> c = (FightDone, ?c6)"
    using c1(1) c2(1) c3(1) c4(1) vf s(4) by (simp add: fight_attempt_def fight_finish_def fight_exit_def)
  moreover have "GetLeaderName ?c6 = GetMyName c" using ln by simp
  ultimately show ?thesis using s c4(4) by simp
qed

text \<open>The member \<open>a\<close> of the example, whose peers both answer that they know no leader.\<close>

definition ex_no_leader :: "string \<Rightarrow> askLeader_resp" where
  "ex_no_leader n = \<lparr> al_NodeName = n, al_Term = 0, al_LeaderNodeName = [], al_Success = True \<rparr>"

definition ex_ack :: "string \<Rightarrow> broadcast_resp" where
  "ex_ack n = \<lparr> br_NodeName = n, br_Term = 1, br_LeaderNodeName = ''a'', br_Success = True \<rparr>"

lemma ex_member_facts:
  "\<not> IsReady 0 (ex_member i)" "all_connected (ex_member i)" "getQuorum (ex_member i) = 2"
  "GetAliveNodeCount (ex_member i) = 3" "GetMyName (ex_member 0) = ''a''"
  by (auto simp: ex_member_def IsReady_def isNodeHealthy_def isHeartbeatZero_def newNode_def Let_def all_connected_def
      gm_defs getQuorum_def GetAllNodeCount_def GetAllNodeNames_def GetAliveNodeCount_def GetAliveNodeNames_def GetMyName_def)

theorem attempt_wins_witness:
  "\<exists>c'. fight_attempt 0 0 \<lparr> fe_asks = [([], [ex_no_leader ''b'', ex_no_leader ''c''])], fe_dials = [[]],
        fe_votes = [ex_resp], fe_acks = [ex_ack ''b''] \<rparr> (ex_member 0) = (FightDone, c') \<and>
     c_sate c' = Leader \<and> c_term c' = 0 + 1 \<and> GetLeaderName c' = ''a'' \<and> gm_get (c_votesMap c') (0 + 1) = Some ''a''"
proof -
  have t: "c_term (ex_member 0) = 0" by (simp add: ex_member_def)
  show ?thesis
    by (rule attempt_wins [of 0 "ex_member 0" 0, unfolded t ex_member_facts(5)])
       (simp_all add: ex_member_facts, simp_all add: ex_member_def ex_no_leader_def ex_ack_def ex_resp_def
         count_votes_def count_acks_def)
qed

end
