(* ===== verification/Job_Tracker.thy ===== *)
theory Job_Tracker
  imports Cluster_Roles
begin

text \<open>
  \<^verbatim>\<open>cluster/scheduler.go\<close> and the consumer of events in \<^verbatim>\<open>cluster/cluster.go\<close>: how the role of a member reaches
  the job trackers. A context is a number; \<open>jt_cancelled\<close> are those that have been cancelled. \<open>jt_tickers\<close>
  are the goroutines \<open>runTicker\<close> that have been started, each with its context; one runs until its context
  is cancelled. \<open>jt_calls\<close> is the log of the callbacks to the callers.

  Events are consumed in the order in which they were sent. The last section connects the two sides: the
  events that the steps of a member send are paired, so the tracker that consumes them runs exactly the
  ticker of the role of the member.
\<close>

section \<open>DefaultJobTracker\<close>

datatype jt_status = StatusStopped | StatusRunning | StatusClose

datatype ticker = MasterTicker | SlaverTicker string

datatype jt_call = CbStartedLeading | CbStoppedLeading | CbStartedFollowing string | CbStoppedFollowing

record jtracker =
  jt_Interval :: int
  jt_Blocking :: bool
  jt_leaderCtx :: "nat option"
  jt_workerCtx :: "nat option"
  jt_callers :: nat
  jt_status :: jt_status
  jt_next :: nat
  jt_cancelled :: "nat list"
  jt_tickers :: "(nat \<times> ticker) list"
  jt_calls :: "jt_call list"

definition NewJobTracker :: "int \<Rightarrow> bool \<Rightarrow> nat \<Rightarrow> jtracker" where
  "NewJobTracker interval blocking callers =
     \<lparr> jt_Interval = (if interval \<le> 0 then 10 else interval), jt_Blocking = blocking, jt_leaderCtx = None, jt_workerCtx = None,
       jt_callers = callers, jt_status = StatusStopped, jt_next = 0, jt_cancelled = [], jt_tickers = [], jt_calls = [] \<rparr>"

definition jt_notify :: "jt_call \<Rightarrow> jtracker \<Rightarrow> jtracker" where
  "jt_notify cb t = t\<lparr> jt_calls := jt_calls t @ replicate (jt_callers t) cb \<rparr>"

definition jt_cancel :: "nat option \<Rightarrow> jtracker \<Rightarrow> jtracker" where
  "jt_cancel ctx t = (case ctx of None \<Rightarrow> t | Some x \<Rightarrow> t\<lparr> jt_cancelled := x # jt_cancelled t \<rparr>)"

definition OnStartedLeading :: "jtracker \<Rightarrow> jtracker" where
  "OnStartedLeading t =
     (if jt_status t \<noteq> StatusStopped then t
      else
        let ctx = jt_next t;
            t1 = t\<lparr> jt_status := StatusRunning, jt_next := Suc ctx, jt_leaderCtx := Some ctx \<rparr>;
            t2 = jt_notify CbStartedLeading t1
        in t2\<lparr> jt_tickers := jt_tickers t2 @ [(ctx, MasterTicker)] \<rparr>)"

definition OnStoppedLeading :: "jtracker \<Rightarrow> jtracker" where
  "OnStoppedLeading t =
     (if jt_status t \<noteq> StatusRunning then t
      else jt_notify CbStoppedLeading (jt_cancel (jt_leaderCtx t) (t\<lparr> jt_status := StatusStopped \<rparr>)))"

definition OnStoppedFollowing :: "jtracker \<Rightarrow> jtracker" where
  "OnStoppedFollowing t =
     (if jt_status t \<noteq> StatusRunning then t
      else jt_notify CbStoppedFollowing (jt_cancel (jt_workerCtx t) (t\<lparr> jt_status := StatusStopped \<rparr>)))"

definition OnStartedFollowing :: "string \<Rightarrow> jtracker \<Rightarrow> jtracker" where
  "OnStartedFollowing leaderName t =
     (if jt_status t \<noteq> StatusStopped then t
      else
        let ctx = jt_next t;
            t1 = t\<lparr> jt_status := StatusRunning, jt_next := Suc ctx, jt_workerCtx := Some ctx \<rparr>;
            t2 = jt_notify (CbStartedFollowing leaderName) t1
        in t2\<lparr> jt_tickers := jt_tickers t2 @ [(ctx, SlaverTicker leaderName)] \<rparr>)"

definition jt_Close :: "jtracker \<Rightarrow> jtracker" where
  "jt_Close t =
     (let t1 = (if jt_status t = StatusRunning then t\<lparr> jt_status := StatusClose \<rparr> else t);
          t2 = (if jt_status t1 = StatusStopped then t1\<lparr> jt_status := StatusClose \<rparr> else t1)
      in jt_cancel (jt_workerCtx t2) (jt_cancel (jt_leaderCtx t2) t2))"

text \<open>One tick of the goroutine with the given context: the calls it makes to the callers, none once it is cancelled.\<close>

definition runTicker_tick :: "nat \<times> ticker \<Rightarrow> jtracker \<Rightarrow> ticker list" where
  "runTicker_tick tk t = (if fst tk \<in> set (jt_cancelled t) then [] else replicate (jt_callers t) (snd tk))"

section \<open>Consumer of events\<close>

definition consumeEvent :: "event \<Rightarrow> jtracker \<Rightarrow> jtracker" where
  "consumeEvent ev t =
     (case ev_name ev of
        EvSignFollower \<Rightarrow> OnStartedFollowing (ev_leaderName ev) t
      | EvSignMaster \<Rightarrow> OnStartedLeading t
      | EvUnsignMaster \<Rightarrow> OnStoppedLeading t
      | EvUnsignFollower \<Rightarrow> OnStoppedFollowing t
      | _ \<Rightarrow> t)"

section \<open>Paired events\<close>

datatype role = NoRole | Leading | Following string

text \<open>What a sequence of events says about the role; \<open>None\<close> when they are not paired.\<close>

fun ev_role :: "event list \<Rightarrow> role \<Rightarrow> role option" where
  "ev_role [] r = Some r"
| "ev_role (e # es) r =
     (case ev_name e of
        EvSignMaster \<Rightarrow> if r = NoRole then ev_role es Leading else None
      | EvSignFollower \<Rightarrow> if r = NoRole then ev_role es (Following (ev_leaderName e)) else None
      | EvUnsignMaster \<Rightarrow> if r = Leading then ev_role es NoRole else None
      | EvUnsignFollower \<Rightarrow> (case r of Following _ \<Rightarrow> ev_role es NoRole | _ \<Rightarrow> None)
      | _ \<Rightarrow> ev_role es r)"

lemma ev_role_append: "ev_role (es @ es') r = Option.bind (ev_role es r) (ev_role es')"
  by (induction es r rule: ev_role.induct) (auto split: ev_name.splits role.splits)

definition active_tickers :: "jtracker \<Rightarrow> ticker list" where
  "active_tickers t = map snd (filter (\<lambda>(ctx, _). ctx \<notin> set (jt_cancelled t)) (jt_tickers t))"

fun role_tickers :: "role \<Rightarrow> ticker list" where
  "role_tickers NoRole = []"
| "role_tickers Leading = [MasterTicker]"
| "role_tickers (Following l) = [SlaverTicker l]"

text \<open>The tracker runs the ticker of the role \<open>r\<close> and no other, and the context of that ticker is the recorded one.\<close>

definition jt_inv :: "role \<Rightarrow> jtracker \<Rightarrow> bool" where
  "jt_inv r t \<longleftrightarrow>
     jt_status t = (if r = NoRole then StatusStopped else StatusRunning) \<and>
     (\<forall>(x, k) \<in> set (jt_tickers t). x < jt_next t) \<and> (\<forall>x \<in> set (jt_cancelled t). x < jt_next t) \<and>
     (case r of
        NoRole \<Rightarrow> active_tickers t = []
      | Leading \<Rightarrow> (\<exists>x. jt_leaderCtx t = Some x \<and> filter (\<lambda>(ctx, _). ctx \<notin> set (jt_cancelled t)) (jt_tickers t) = [(x, MasterTicker)])
      | Following l \<Rightarrow> (\<exists>x. jt_workerCtx t = Some x \<and> filter (\<lambda>(ctx, _). ctx \<notin> set (jt_cancelled t)) (jt_tickers t) = [(x, SlaverTicker l)]))"

lemma jt_inv_active: "jt_inv r t \<Longrightarrow> active_tickers t = role_tickers r"
  by (auto simp: jt_inv_def active_tickers_def split: role.splits)

lemma jt_inv_new: "jt_inv NoRole (NewJobTracker i b n)"
  by (simp add: jt_inv_def NewJobTracker_def active_tickers_def)

lemma filter_cancel:
  assumes "filter (\<lambda>(c, _). c \<notin> set cs) ts = [(x, k)]"
  shows "filter (\<lambda>(c, _). c \<notin> set (x # cs)) ts = []"
proof -
  have "filter (\<lambda>(c, _). c \<notin> set (x # cs)) ts = filter (\<lambda>(c, _). c \<noteq> x) (filter (\<lambda>(c, _). c \<notin> set cs) ts)"
    by (auto intro!: filter_cong)
  then show ?thesis by (simp add: assms)
qed

lemma jt_started:
  assumes inv: "jt_inv NoRole t"
  shows "jt_inv Leading (OnStartedLeading t)" "jt_inv (Following l) (OnStartedFollowing l t)"
proof -
  have fresh: "jt_next t \<notin> set (jt_cancelled t)" using inv by (auto simp: jt_inv_def)
  have none: "filter (\<lambda>(c, _). c \<notin> set (jt_cancelled t)) (jt_tickers t) = []"
    using inv by (simp add: jt_inv_def active_tickers_def)
  show "jt_inv Leading (OnStartedLeading t)" "jt_inv (Following l) (OnStartedFollowing l t)"
    using inv fresh none
    by (force simp: jt_inv_def OnStartedLeading_def OnStartedFollowing_def jt_notify_def Let_def)+
qed

lemma jt_stopped:
  "jt_inv Leading t \<Longrightarrow> jt_inv NoRole (OnStoppedLeading t)"
  "jt_inv (Following l) t \<Longrightarrow> jt_inv NoRole (OnStoppedFollowing t)"
proof -
  have ctx: "x < jt_next t" if "filter (\<lambda>(c, _). c \<notin> set (jt_cancelled t)) (jt_tickers t) = [(x, k)]"
    "\<forall>(x, k) \<in> set (jt_tickers t). x < jt_next t" for x k
  proof -
    have "(x, k) \<in> set (jt_tickers t)" using that(1) by (metis filter_is_subset list.set_intros(1) subsetD)
    then show ?thesis using that(2) by auto
  qed
  show "jt_inv Leading t \<Longrightarrow> jt_inv NoRole (OnStoppedLeading t)"
    "jt_inv (Following l) t \<Longrightarrow> jt_inv NoRole (OnStoppedFollowing t)"
    by (auto simp: jt_inv_def OnStoppedLeading_def OnStoppedFollowing_def jt_notify_def jt_cancel_def active_tickers_def
        dest: filter_cancel intro: ctx)
qed

lemma consumeEvent_inv:
  assumes "jt_inv r t" and "ev_role [e] r = Some r'"
  shows "jt_inv r' (consumeEvent e t)"
  using assms by (auto simp: consumeEvent_def intro: jt_started jt_stopped split: ev_name.splits role.splits if_splits)

lemma consumeEvents_inv:
  "jt_inv r t \<Longrightarrow> ev_role es r = Some r' \<Longrightarrow> jt_inv r' (fold consumeEvent es t)"
proof (induction es arbitrary: r t)
  case (Cons e es)
  obtain r1 where r1: "ev_role [e] r = Some r1" "ev_role es r1 = Some r'"
    using Cons(3) ev_role_append [of "[e]" es r] by (cases "ev_role [e] r") auto
  show ?case using Cons(1) [OF consumeEvent_inv [OF Cons(2) r1(1)] r1(2)] by simp
qed simp

section \<open>Events of a member\<close>

definition role_of :: "cluster \<Rightarrow> role" where
  "role_of c = (case c_leaderNode c of None \<Rightarrow> NoRole
     | Some a \<Rightarrow> if GetLeaderName c = GetMyName c then Leading else Following (GetLeaderName c))"

text \<open>The member is running, and the events it has sent add up to its role.\<close>

definition ev_open :: "cluster \<Rightarrow> bool" where
  "ev_open c \<longleftrightarrow> c_events c \<noteq> None \<and> \<not> c_eventsClosed c \<and> \<not> c_ctxDone c \<and> \<not> IsClosed c"

definition ev_inv :: "cluster \<Rightarrow> bool" where
  "ev_inv c \<longleftrightarrow> ev_open c \<and> ev_role (the (c_events c)) NoRole = Some (role_of c)"

fun role_after :: "(ev_name \<times> string) list \<Rightarrow> role \<Rightarrow> role option" where
  "role_after [] r = Some r"
| "role_after ((n, l) # es) r =
     Option.bind (ev_role [\<lparr> ev_name = n, ev_clusterStat = StInit, ev_nodeName = [], ev_leaderName = l \<rparr>] r) (role_after es)"

lemma createEvent_open:
  "ev_open c \<Longrightarrow> ev_open (createEvent n l c) \<and> c_events (createEvent n l c) =
     Some (the (c_events c) @ [\<lparr> ev_name = n, ev_clusterStat = c_sate c, ev_nodeName = GetMyName c, ev_leaderName = l \<rparr>])"
  by (auto simp: ev_open_def createEvent_def)

lemma ev_role_single: "ev_role [\<lparr> ev_name = n, ev_clusterStat = s, ev_nodeName = m, ev_leaderName = l \<rparr>] r =
   ev_role [\<lparr> ev_name = n, ev_clusterStat = s', ev_nodeName = m', ev_leaderName = l \<rparr>] r"
  by (simp split: ev_name.splits)

lemma createEvents_role:
  "ev_open c \<Longrightarrow> ev_role (the (c_events c)) NoRole = Some r \<Longrightarrow> role_after es r = Some r' \<Longrightarrow>
   ev_open (createEvents es c) \<and> ev_role (the (c_events (createEvents es c))) NoRole = Some r'"
proof (induction es c arbitrary: r rule: createEvents.induct)
  case (2 name l es c)
  obtain r1 where r1: "ev_role [\<lparr> ev_name = name, ev_clusterStat = c_sate c, ev_nodeName = GetMyName c, ev_leaderName = l \<rparr>] r = Some r1"
    "role_after es r1 = Some r'"
    using 2(4) ev_role_single [of name StInit "[]" l r "c_sate c" "GetMyName c"] by (auto split: bind_splits)
  have o: "ev_open (createEvent name l c)" using createEvent_open 2(2) by blast
  have "ev_role (the (c_events (createEvent name l c))) NoRole = Some r1"
    using createEvent_open [OF 2(2), of name l] 2(3) r1(1) by (simp add: ev_role_append)
  then show ?case using 2(1) [OF o _ r1(2)] by simp
qed simp

lemma role_of_cong:
  "c_leaderNode c' = c_leaderNode c \<Longrightarrow> frame c c' \<Longrightarrow> role_of c' = role_of c"
  using frame_GetMyName [of c c'] by (auto simp: role_of_def GetLeaderName_def frame_def split: option.splits)

lemma ev_inv_same: "role_same c c' \<Longrightarrow> c_events c' = c_events c \<Longrightarrow> c_eventsClosed c' = c_eventsClosed c \<Longrightarrow>
   c_ctxDone c' = c_ctxDone c \<Longrightarrow> ev_inv c' = ev_inv c"
  using role_of_cong [of c' c] by (simp add: ev_inv_def ev_open_def role_same_def)

lemma ev_inv_conn: "conn_frame c c' \<Longrightarrow> ev_inv c' = ev_inv c"
  by (rule ev_inv_same) (simp_all add: conn_frame_def role_same_def)

text \<open>An event that says nothing about the role.\<close>

lemma ev_inv_createEvent:
  assumes "ev_inv c" and "n \<in> {EvStartUp, EvElectionStart, EvElectionFinish, EvClose}"
  shows "ev_inv (createEvent n l c)"
proof -
  have "ev_role (the (c_events (createEvent n l c))) NoRole = Some (role_of c)"
    using createEvent_open [of c n l] assms by (auto simp: ev_inv_def ev_role_append)
  moreover have "role_of (createEvent n l c) = role_of c" by (simp add: role_of_def split: option.splits)
  ultimately show ?thesis using createEvent_open [of c n l] assms(1) by (simp add: ev_inv_def)
qed

lemma drop_leader_role:
  assumes "drop_leader now c = (evs, c')"
  shows "role_after evs (role_of c) = Some NoRole"
  using drop_leader_props(10) [OF assms] by (auto simp: role_of_def split: option.splits)

lemma role_after_append: "role_after (es @ es') r = Option.bind (role_after es r) (role_after es')"
  by (induction es r rule: role_after.induct) (auto split: bind_splits)

lemma signLeader_ev:
  assumes inv: "ev_inv c"
  shows "ev_inv (snd (signLeader now node t c))"
proof (cases "\<exists>a. node = Some a \<and> c_term c \<le> t")
  case False
  then show ?thesis using inv by (cases node) (auto simp: signLeader_eq)
next
  case True
  then obtain a where a: "node = Some a" "c_term c \<le> t" by blast
  obtain evs c1 where d: "drop_leader now c = (evs, c1)" by fastforce
  note dp = drop_leader_props [OF d]
  define name where "name = nd_name (c_node c1 a)"
  define ev where "ev = (if name = GetMyName c1 then EvSignMaster else EvSignFollower)"
  define c2 where "c2 = (if name = GetMyName c1 then c1\<lparr> c_sate := Leader \<rparr>
      else upd_node (c_self c1) (updateHeartbeat now) (c1\<lparr> c_sate := Follower \<rparr>))"
  define c3 where "c3 = c2\<lparr> c_lostLeaderTime := zeroTime, c_leaderNode := Some a, c_term := t \<rparr>"
  have eq: "snd (signLeader now node t c) = createEvents (evs @ [(ev, name)]) c3"
    using a d by (auto simp: signLeader_eq Let_def name_def ev_def c2_def c3_def)
  have fr2: "frame c1 c2" by (simp add: c2_def frame_upd_node)
  then have fr3: "frame c1 c3" by (simp add: c3_def)
  have r3: "role_of c3 = (if name = GetMyName c1 then Leading else Following name)"
    using fr3 frame_GetMyName [OF fr3] by (simp add: role_of_def GetLeaderName_def c3_def name_def frame_def)
  have ra: "role_after (evs @ [(ev, name)]) (role_of c) = Some (role_of c3)"
    using drop_leader_role [OF d] r3 by (simp add: role_after_append ev_def)
  have c2sel: "c_events c2 = c_events c" "c_eventsClosed c2 = c_eventsClosed c" "c_ctxDone c2 = c_ctxDone c" "c_sate c2 \<noteq> StClosed"
    using dp(7-9) by (auto simp: c2_def)
  have "ev_open c3" "ev_role (the (c_events c3)) NoRole = Some (role_of c)"
    using inv c2sel by (auto simp: ev_inv_def ev_open_def c3_def)
  from createEvents_role [OF this ra] have
    "ev_open (createEvents (evs @ [(ev, name)]) c3)"
    "ev_role (the (c_events (createEvents (evs @ [(ev, name)]) c3))) NoRole = Some (role_of c3)" by auto
  moreover have "role_of (createEvents (evs @ [(ev, name)]) c3) = role_of c3"
    by (rule role_of_cong) simp_all
  ultimately show ?thesis using eq by (simp add: ev_inv_def)
qed

lemma releaseLeader_ev:
  assumes inv: "ev_inv c"
  shows "ev_inv (releaseLeader now c)"
proof -
  obtain evs c1 where d: "drop_leader now (c\<lparr> c_sate := Follower \<rparr>) = (evs, c1)" by fastforce
  note dp = drop_leader_props [OF d]
  have rc: "role_of (c\<lparr> c_sate := Follower \<rparr>) = role_of c" by (rule role_of_cong) simp_all
  have "ev_open c1" "ev_role (the (c_events c1)) NoRole = Some (role_of c)"
    using inv dp by (auto simp: ev_inv_def ev_open_def)
  from createEvents_role [OF this drop_leader_role [OF d, unfolded rc]]
  have "ev_open (createEvents evs c1)" "ev_role (the (c_events (createEvents evs c1))) NoRole = Some NoRole" by auto
  moreover have "role_of (releaseLeader now c) = NoRole" by (simp add: role_of_def releaseLeader_props)
  ultimately show ?thesis by (simp add: ev_inv_def release_eqs d)
qed

lemma ev_inv_upd_node: "(\<And>n. nd_name (f n) = nd_name n) \<Longrightarrow> ev_inv (upd_node a f c) = ev_inv c"
  by (rule ev_inv_conn) (simp add: conn_frame_upd_node)

lemma ev_inv_upd [simp]:
  "ev_inv (c\<lparr> c_term := t \<rparr>) = ev_inv c" "ev_inv (c\<lparr> c_fightingState := b \<rparr>) = ev_inv c"
  by (rule ev_inv_same; simp add: role_same_def)+

lemma ev_inv_sate: "ev_inv c \<Longrightarrow> s \<noteq> StClosed \<Longrightarrow> ev_inv (c\<lparr> c_sate := s \<rparr>)"
  using role_of_cong [of "c\<lparr> c_sate := s \<rparr>" c] by (simp add: ev_inv_def ev_open_def)

lemma ev_inv_fight_exit: "ev_inv c \<Longrightarrow> ev_inv (snd (fight_exit k c))"
  by (auto simp: fight_exit_def Let_def ev_inv_sate)

lemma ev_inv_votes:
  assumes "ev_inv c" and "frame c c'" "c_leaderNode c' = c_leaderNode c" "c_sate c' = c_sate c"
    "c_events c' = c_events c" "c_eventsClosed c' = c_eventsClosed c" "c_ctxDone c' = c_ctxDone c"
  shows "ev_inv c'"
  using assms ev_inv_same [of c c'] by (simp add: role_same_def)

lemma vote_events:
  "voteNode t n c = (ok, c') \<Longrightarrow> c_events c' = c_events c \<and> c_eventsClosed c' = c_eventsClosed c \<and> c_ctxDone c' = c_ctxDone c"
  "getVoteNodeName t n c = (v, c') \<Longrightarrow> c_events c' = c_events c \<and> c_eventsClosed c' = c_eventsClosed c \<and> c_ctxDone c' = c_ctxDone c"
  by (auto simp: voteNode_def getVoteNodeName_def split: option.splits)

interpretation events: step_invariant ev_inv
proof
  fix c and n l assume "ev_inv c" "n \<in> {EvElectionStart, EvElectionFinish}"
  then show "ev_inv (createEvent n l c)" by (intro ev_inv_createEvent) auto
next
  fix c v assume "ev_inv c"
  then show "ev_inv (c\<lparr> c_votesMap := v \<rparr>)" by (rule ev_inv_votes) simp_all
qed (auto simp: ev_inv_conn signLeader_ev releaseLeader_ev ev_inv_sate)

text \<open>Once the channel is marked closed, nothing is sent any more.\<close>

definition ev_muted :: "event list option \<Rightarrow> cluster \<Rightarrow> bool" where
  "ev_muted es c \<longleftrightarrow> c_eventsClosed c \<and> c_events c = es"

lemma createEvents_muted: "c_eventsClosed c \<Longrightarrow> createEvents evs c = c"
  by (induction evs c rule: createEvents.induct) (auto simp: createEvent_def split: option.splits)

lemma signLeader_muted:
  assumes "ev_muted es c"
  shows "ev_muted es (snd (signLeader now node t c))"
proof -
  obtain evs c1 where d: "drop_leader now c = (evs, c1)" by fastforce
  have "ev_muted es c1" using drop_leader_props(7,8) [OF d] assms by (simp add: ev_muted_def)
  then show ?thesis
    using assms d by (auto simp: signLeader_eq Let_def ev_muted_def createEvents_muted split: option.splits)
qed

lemma releaseLeader_muted:
  assumes "ev_muted es c"
  shows "ev_muted es (releaseLeader now c)"
proof -
  obtain evs c1 where d: "drop_leader now (c\<lparr> c_sate := Follower \<rparr>) = (evs, c1)" by fastforce
  then show ?thesis
    using drop_leader_props(7,8) [OF d] assms by (simp add: ev_muted_def release_eqs createEvents_muted)
qed

interpretation muted: step_invariant "ev_muted es" for es
proof
  fix c and n l assume "ev_muted es c"
  then show "ev_muted es (createEvent n l c)" by (auto simp: ev_muted_def createEvent_def split: option.splits)
qed (auto simp: ev_muted_def conn_frame_def signLeader_muted [unfolded ev_muted_def] releaseLeader_muted [unfolded ev_muted_def])

section \<open>Properties\<close>

lemma start_ev:
  assumes "c_enable c" "c_sate c = StInit" "c_curNode c \<noteq> None" "c_leaderNode c = None" "\<not> c_eventsClosed c" "c_mode c \<noteq> ModeSingle"
  shows "fst (cluster_Start True dials now c) = None" "ev_inv (snd (cluster_Start True dials now c))"
proof -
  let ?c1 = "c\<lparr> c_term := 0, c_sate := Follower, c_ctxDone := False \<rparr>"
  let ?c2 = "reconnect dials ?c1"
  have eq: "cluster_Start True dials now c = (None, createEvent EvStartUp [] (?c2\<lparr> c_events := Some [] \<rparr>))"
    using assms by (simp add: cluster_Start_def Let_def)
  show "fst (cluster_Start True dials now c) = None" by (simp add: eq)
  have "ev_inv (?c2\<lparr> c_events := Some [] \<rparr>)"
    using conn_reconnect [of ?c1 dials] assms
    by (simp add: ev_inv_def ev_open_def role_of_def conn_frame_def)
  then show "ev_inv (snd (cluster_Start True dials now c))" by (simp add: eq ev_inv_createEvent)
qed

text \<open>When the operations of a member are not interrupted, a tracker that has consumed all events runs exactly the ticker of the role of the member.\<close>

lemma tracker_after_operations:
  assumes "c_enable c0" "c_sate c0 = StInit" "c_curNode c0 \<noteq> None" "c_leaderNode c0 = None" "\<not> c_eventsClosed c0"
    "c_mode c0 \<noteq> ModeSingle" and "any_step\<^sup>*\<^sup>* (snd (cluster_Start True dials now c0)) c"
  shows "active_tickers (fold consumeEvent (the (c_events c)) (NewJobTracker i b n)) = role_tickers (role_of c)"
proof -
  have "ev_inv c" using events.reachable [OF assms(7) start_ev(2) [OF assms(1-6)]] .
  then have "ev_role (the (c_events c)) NoRole = Some (role_of c)" by (simp add: ev_inv_def)
  then show ?thesis using consumeEvents_inv [OF jt_inv_new] jt_inv_active by blast
qed

definition ex_fresh :: cluster where
  "ex_fresh = (ex_member 0)\<lparr> c_sate := StInit, c_events := None \<rparr>"

definition ex_announce :: broadcast_req where
  "ex_announce = \<lparr> bq_NodeName = ''c'', bq_Term = 5, bq_LeaderNodeName = ''c'' \<rparr>"

lemma releaseLeader_events: "c_events (releaseLeader now c) = None \<longleftrightarrow> c_events c = None"
proof -
  have cr: "c_events (createEvents es x) = None \<longleftrightarrow> c_events x = None" for es x
    by (induction es x rule: createEvents.induct) (auto simp: createEvent_def split: option.splits)
  show ?thesis
    using drop_leader_props(7) [of now "c\<lparr> c_sate := Follower \<rparr>"]
    by (cases "drop_leader now (c\<lparr> c_sate := Follower \<rparr>)") (simp add: release_eqs cr)
qed

lemma conn_close_peers: "conn_frame c (close_peers c)"
proof -
  have "conn_frame c (fold (\<lambda>(n, a) c. if nd_name (c_node c a) \<noteq> GetMyName c then upd_node a node_close c else c) ns c)" for ns
  proof (induction ns arbitrary: c)
    case (Cons na ns)
    have "conn_frame c (upd_node (snd na) node_close c)" by (simp add: conn_frame_upd_node)
    then show ?case using Cons conn_frame_trans by (auto split: prod.splits)
  qed simp
  then show ?thesis by (simp add: close_peers_def)
qed

lemma Close_state:
  assumes "c_enable c" "\<not> IsClosed c" "c_events c = Some es"
  shows "frame c (cluster_Close now c)" "IsClosed (cluster_Close now c)" "c_eventsClosed (cluster_Close now c)"
proof -
  define c3 where "c3 = (upd_node (c_self (releaseLeader now c)) node_clean ((releaseLeader now c)\<lparr> c_ctxDone := True \<rparr>))\<lparr> c_sate := StClosed \<rparr>"
  have eq: "cluster_Close now c = close_events (close_peers c3)"
    using assms(1,2) by (simp add: cluster_Close_def Let_def c3_def)
  have c3: "frame c c3" "c_sate c3 = StClosed" "c_events c3 \<noteq> None"
    using assms(3) releaseLeader_events [of now c] by (simp_all add: c3_def frame_upd_node releaseLeader_props)
  have conn: "conn_frame c3 (close_peers c3)" by (rule conn_close_peers)
  have "frame c (close_peers c3)" using frame_trans [OF c3(1)] conn by (simp add: conn_frame_def)
  then show "frame c (cluster_Close now c)" "IsClosed (cluster_Close now c)" "c_eventsClosed (cluster_Close now c)"
    using c3 conn by (auto simp: eq close_events_def conn_frame_def)
qed

lemma Start_muted:
  assumes "c_enable c" "IsClosed c" "c_eventsClosed c" "c_curNode c \<noteq> None" "c_mode c \<noteq> ModeSingle"
  shows "fst (cluster_Start True dials now c) = None \<and> ev_muted (Some []) (snd (cluster_Start True dials now c))"
proof -
  let ?c1 = "c\<lparr> c_term := 0, c_sate := Follower, c_ctxDone := False \<rparr>"
  have "c_eventsClosed (reconnect dials ?c1)" using conn_reconnect [of ?c1 dials] assms(3) by (simp add: conn_frame_def)
  then show ?thesis using assms by (simp add: cluster_Start_def Let_def ev_muted_def createEvent_def)
qed

text \<open>
  a member that is closed and started again sends no events. Close marks the channel as closed and
  Start, which accepts a closed member, makes a new channel but does not clear the mark; whatever the
  member does afterwards, no event is sent and no job tracker learns that it leads or follows.
\<close>

theorem restart_sends_no_events:
  assumes "c_enable c" and "\<not> IsClosed c" and "c_events c = Some es" and "c_curNode c \<noteq> None" and "c_mode c \<noteq> ModeSingle"
    and "any_step\<^sup>*\<^sup>* (snd (cluster_Start True dials t2 (cluster_Close t1 c))) c'"
  shows "fst (cluster_Start True dials t2 (cluster_Close t1 c)) = None \<and> c_events c' = Some []"
proof -
  note close = Close_state [OF assms(1-3), of t1]
  have "fst (cluster_Start True dials t2 (cluster_Close t1 c)) = None \<and>
      ev_muted (Some []) (snd (cluster_Start True dials t2 (cluster_Close t1 c)))"
    by (rule Start_muted) (use close assms(1,4,5) in \<open>auto simp: frame_def\<close>)
  then show ?thesis using muted.reachable [OF assms(6)] by (simp add: ev_muted_def)
qed

theorem restart_sends_no_events_witness:
  "fst (cluster_Start True [] 9 (cluster_Close 7 (ex_member 0))) = None \<and>
   c_events (snd (BroadcastLeader 10 ex_announce (snd (cluster_Start True [] 9 (cluster_Close 7 (ex_member 0)))))) = Some []"
proof -
  have "any_step\<^sup>*\<^sup>* (snd (cluster_Start True [] 9 (cluster_Close 7 (ex_member 0))))
      (snd (BroadcastLeader 10 ex_announce (snd (cluster_Start True [] 9 (cluster_Close 7 (ex_member 0))))))"
    by (rule r_into_rtranclp, rule any_step.member, rule member_step.broadcast)
  from restart_sends_no_events [OF _ _ _ _ _ this] show ?thesis by (simp add: ex_member_def)
qed

text \<open>
  in single mode the follower's work never runs. Start signs the member as leader and then sends the
  event that it follows itself; the tracker, which already leads, ignores the second event, so only the
  master ticker runs.
\<close>

theorem single_mode_never_follows:
  "active_tickers (fold consumeEvent
     (the (c_events (snd (cluster_Start True [] now (ex_fresh\<lparr> c_mode := ModeSingle \<rparr>))))) (NewJobTracker 10 False 1)) =
   [MasterTicker]"
  by (simp add: ex_fresh_def ex_member_def cluster_Start_def Let_def signLeader_eq drop_leader_def createEvent_def
      GetMyName_def GetLeaderName_def newNode_def consumeEvent_def OnStartedLeading_def OnStartedFollowing_def
      NewJobTracker_def jt_notify_def active_tickers_def)

end
