(* ===== verification/Cluster_Interleave.thy ===== *)
theory Cluster_Interleave
  imports Job_Tracker
begin

text \<open>
  The goroutines of one member, interleaved. The handlers of the gRPC server, the election and the heartbeat loop run at the same time. What they share is
  changed in the sections that hold \<open>leaderLock\<close> (\<open>sign_section\<close>, \<open>releaseLeader_locked\<close>, \<open>releaseWithNodeName_locked\<close>), by atomic loads and stores of the term, by
  compare-and-swap of the state, and by sends on the channel of events. A section sends its events after the lock is released, so the sends of two
  goroutines may come in any order.

  A state is a member with the events that its goroutines have still to send, one list for each section that has ended, in the order of the sections. A
  section is one step although the state is also changed by compare-and-swap outside the lock: these only change between follower and candidate and
  commute with the assignments of the section. Guards that a goroutine has evaluated before a step are dropped, and votes and
  connections change at will, so every interleaving of the code is a run here, and more.
\<close>

section \<open>Steps\<close>

type_synonym member = "cluster \<times> (ev_name \<times> string) list list"

text \<open>
  The steps that do not store a term outside the lock. With \<open>ordered\<close> the events of a section are sent only when those of all earlier sections are.
\<close>

inductive lock_step :: "bool \<Rightarrow> member \<Rightarrow> member \<Rightarrow> bool" for ordered where
  sign: "signLeader_locked now node t c = (True, evs, c') \<Longrightarrow> lock_step ordered (c, ps) (c', ps @ [evs])"
| release: "releaseLeader_locked now c = (evs, c') \<Longrightarrow> lock_step ordered (c, ps) (c', ps @ [evs])"
| release_name: "releaseWithNodeName_locked now name c = (evs, c') \<Longrightarrow> lock_step ordered (c, ps) (c', ps @ [evs])"
| send: "i < length ps \<Longrightarrow> ps ! i = (n, l) # es \<Longrightarrow> (ordered \<Longrightarrow> \<forall>j < i. ps ! j = []) \<Longrightarrow>
    lock_step ordered (c, ps) (createEvent n l c, ps[i := es])"
| sent: "lock_step ordered (c, ps @ [] # qs) (c, ps @ qs)"
| event: "n \<in> {EvElectionStart, EvElectionFinish} \<Longrightarrow> lock_step ordered (c, ps) (createEvent n l c, ps)"
| candidate: "c_sate c = Follower \<Longrightarrow> lock_step ordered (c, ps) (c\<lparr> c_sate := Candidate \<rparr>, ps)"
| follower: "c_sate c = Candidate \<Longrightarrow> lock_step ordered (c, ps) (c\<lparr> c_sate := Follower \<rparr>, ps)"
| votes: "lock_step ordered (c, ps) (c\<lparr> c_votesMap := v \<rparr>, ps)"
| conn: "conn_frame c c' \<Longrightarrow> lock_step ordered (c, ps) (c', ps)"

text \<open>
  All steps: the election stores terms without the lock (\<open>fight_store\<close>, \<open>ask_store\<close>), also between the test of the term in \<open>signLeader\<close> and the rest of
  its section.
\<close>

inductive micro_step :: "bool \<Rightarrow> member \<Rightarrow> member \<Rightarrow> bool" for ordered where
  locked: "lock_step ordered m m' \<Longrightarrow> micro_step ordered m m'"
| sign_late: "sign_section now a t c = (evs, c') \<Longrightarrow> micro_step ordered (c, ps) (c', ps @ [evs])"
| store_term: "micro_step ordered (c, ps) (c\<lparr> c_term := t \<rparr>, ps)"

inductive_cases lock_stepE: "lock_step ordered m m'"
inductive_cases micro_stepE: "micro_step ordered m m'"

section \<open>Sections\<close>

lemma sign_section_state:
  assumes "sign_section now a t c = (evs, c')"
  shows "frame c c'" "c_leaderNode c' = Some a" "c_term c' = t" "c_sate c' = (if nd_name (c_node c a) = GetMyName c then Leader else Follower)"
    "c_events c' = c_events c" "c_eventsClosed c' = c_eventsClosed c" "c_ctxDone c' = c_ctxDone c"
    "evs = fst (drop_leader now c) @ [(if nd_name (c_node c a) = GetMyName c then EvSignMaster else EvSignFollower, nd_name (c_node c a))]"
proof -
  obtain evs1 c1 where d: "drop_leader now c = (evs1, c1)" by fastforce
  note dp = drop_leader_props [OF d]
  have nm: "nd_name (c_node c1 a) = nd_name (c_node c a)" "GetMyName c1 = GetMyName c" using dp(1) frame_GetMyName by (auto simp: frame_def)
  show "frame c c'" "c_leaderNode c' = Some a" "c_term c' = t" "c_sate c' = (if nd_name (c_node c a) = GetMyName c then Leader else Follower)"
    "c_events c' = c_events c" "c_eventsClosed c' = c_eventsClosed c" "c_ctxDone c' = c_ctxDone c"
    "evs = fst (drop_leader now c) @ [(if nd_name (c_node c a) = GetMyName c then EvSignMaster else EvSignFollower, nd_name (c_node c a))]"
    using assms d dp nm by (auto simp: sign_section_def Let_def frame_upd_node split: if_splits)
qed

lemma signLeader_locked_True:
  assumes "signLeader_locked now node t c = (True, evs, c')"
  obtains a where "node = Some a" "c_term c \<le> t" "sign_section now a t c = (evs, c')"
  using assms by (auto simp: signLeader_locked_def split: option.splits if_splits)

lemma releaseLeader_locked_state:
  assumes "releaseLeader_locked now c = (evs, c')"
  shows "frame c c'" "c_leaderNode c' = None" "c_term c' = c_term c" "c_sate c' = Follower"
    "c_events c' = c_events c" "c_eventsClosed c' = c_eventsClosed c" "c_ctxDone c' = c_ctxDone c"
    "evs = (if c_leaderNode c = None then [] else [(if GetLeaderName c = GetMyName c then EvUnsignMaster else EvUnsignFollower, [])])"
  using drop_leader_props [of now "c\<lparr> c_sate := Follower \<rparr>" evs c'] assms by (auto simp: releaseLeader_locked_def frame_def)

lemma releaseWithNodeName_locked_state:
  assumes "releaseWithNodeName_locked now name c = (evs, c')"
  shows "(evs = [] \<and> c' = c) \<or> releaseLeader_locked now c = (evs, c')"
  using assms by (auto simp: releaseWithNodeName_locked_def releaseLeader_locked_def split: if_splits)

section \<open>Role and leader agree\<close>

lemma lock_step_role:
  assumes "lock_step ordered m m'" and ok: "role_ok (fst m)"
  shows "role_ok (fst m') \<and> c_term (fst m) \<le> c_term (fst m')"
  using assms(1)
proof cases
  case (sign now node t c evs c' ps)
  obtain a where a: "c_term c \<le> t" "sign_section now a t c = (evs, c')" by (rule signLeader_locked_True [OF sign(3)])
  note s = sign_section_state [OF a(2)]
  have "GetLeaderName c' = nd_name (c_node c a)" "GetMyName c' = GetMyName c" using s(1,2) frame_GetMyName by (auto simp: GetLeaderName_def frame_def)
  then show ?thesis using sign(1,2) a(1) s(2-4) by (auto simp: role_ok_def)
next
  case (release now c evs c' ps)
  then show ?thesis using releaseLeader_locked_state [OF release(3)] by (simp add: role_ok_def)
next
  case (release_name now name c evs c' ps)
  then show ?thesis using releaseWithNodeName_locked_state [OF release_name(3)] releaseLeader_locked_state [of now c evs c'] ok by (auto simp: role_ok_def)
next
  case (send i ps n l es c)
  then show ?thesis using ok by (simp add: role_ok_def)
next
  case (event n c ps l)
  then show ?thesis using ok by (simp add: role_ok_def)
next
  case (conn c c' ps)
  then show ?thesis using ok conn_role_same [OF conn(3)] role_same_ok by auto
next
  case (votes c ps v)
  then show ?thesis using ok by (simp add: role_ok_def)
qed (use ok in \<open>auto simp: role_ok_def\<close>)

lemma micro_step_role:
  assumes "micro_step ordered m m'" and ok: "role_ok (fst m)"
  shows "role_ok (fst m')"
  using assms(1)
proof cases
  case locked
  then show ?thesis using lock_step_role ok by blast
next
  case (sign_late now a t c evs c' ps)
  note s = sign_section_state [OF sign_late(3)]
  have "GetLeaderName c' = nd_name (c_node c a)" "GetMyName c' = GetMyName c" using s(1,2) frame_GetMyName by (auto simp: GetLeaderName_def frame_def)
  then show ?thesis using sign_late(2) s(2,4) by (auto simp: role_ok_def)
qed (use ok in \<open>auto simp: role_ok_def\<close>)

text \<open>
  C4: whatever the goroutines of a member do and however they interleave, the member is leader exactly when the leader it has recorded is itself, whenever
  no goroutine is inside a section that holds the lock. The
  term does not decrease as long as no goroutine stores a term outside the lock (the election does; see below).
\<close>

theorem role_matches_leader:
  assumes "role_ok (fst m)" and "(micro_step ordered)\<^sup>*\<^sup>* m m'"
  shows "role_ok (fst m') \<and> ((lock_step ordered)\<^sup>*\<^sup>* m m' \<longrightarrow> c_term (fst m) \<le> c_term (fst m'))"
proof
  show "role_ok (fst m')" using assms(2,1) by (induction rule: rtranclp_induct) (auto intro: micro_step_role)
  have "role_ok (fst m') \<and> c_term (fst m) \<le> c_term (fst m')" if "(lock_step ordered)\<^sup>*\<^sup>* m m'"
    using that assms(1) by (induction rule: rtranclp_induct) (auto dest: lock_step_role)
  then show "(lock_step ordered)\<^sup>*\<^sup>* m m' \<longrightarrow> c_term (fst m) \<le> c_term (fst m')" by blast
qed

section \<open>Whole operations are runs\<close>

text \<open>An operation that is not interrupted is one of the interleavings: its sections, each followed by its sends.\<close>

lemma run_sends:
  "(micro_step ordered)\<^sup>*\<^sup>* (c, [evs]) (createEvents evs c, [])"
proof (induction evs c rule: createEvents.induct)
  case (1 c)
  then show ?case using lock_step.sent [of ordered c "[]" "[]"] by (auto intro: micro_step.locked)
next
  case (2 n l evs c)
  have "micro_step ordered (c, [(n, l) # evs]) (createEvent n l c, [evs])"
    using lock_step.send [of 0 "[(n, l) # evs]" n l evs ordered c] by (auto intro: micro_step.locked)
  then show ?case using 2 by (simp add: converse_rtranclp_into_rtranclp)
qed

interpretation whole: step_invariant "\<lambda>c. (micro_step ordered)\<^sup>*\<^sup>* m0 (c, [])" for ordered m0
proof
  fix c now node t assume run: "(micro_step ordered)\<^sup>*\<^sup>* m0 (c, [])"
  show "(micro_step ordered)\<^sup>*\<^sup>* m0 (snd (signLeader now node t c), [])"
  proof (cases "signLeader_locked now node t c")
    case (fields ok evs c')
    show ?thesis
    proof (cases ok)
      case True
      then have "micro_step ordered (c, []) (c', [evs])" using lock_step.sign [of now node t c evs c' ordered "[]"] fields by (auto intro: micro_step.locked)
      then show ?thesis using run run_sends [of ordered c' evs] fields by (simp add: signLeader_def)
    next
      case False
      then show ?thesis using run fields by (auto simp: signLeader_def signLeader_locked_def split: option.splits if_splits)
    qed
  qed
next
  fix c now assume run: "(micro_step ordered)\<^sup>*\<^sup>* m0 (c, [])"
  obtain evs c' where d: "releaseLeader_locked now c = (evs, c')" by fastforce
  have "micro_step ordered (c, []) (c', [evs])" using lock_step.release [OF d, of ordered "[]"] by (auto intro: micro_step.locked)
  then show "(micro_step ordered)\<^sup>*\<^sup>* m0 (releaseLeader now c, [])" using run run_sends [of ordered c' evs] by (simp add: releaseLeader_def d)
next
  fix c s assume run: "(micro_step ordered)\<^sup>*\<^sup>* m0 (c, [])" and "c_sate c \<in> {Follower, Candidate}" "s \<in> {Follower, Candidate}"
  then have "micro_step ordered (c, []) (c\<lparr> c_sate := s \<rparr>, []) \<or> c\<lparr> c_sate := s \<rparr> = c"
    using lock_step.candidate [of c ordered "[]"] lock_step.follower [of c ordered "[]"] by (auto intro: micro_step.locked)
  then show "(micro_step ordered)\<^sup>*\<^sup>* m0 (c\<lparr> c_sate := s \<rparr>, [])" using run by (metis rtranclp.rtrancl_into_rtrancl)
qed (blast intro: rtranclp.rtrancl_into_rtrancl micro_step.locked micro_step.store_term lock_step.conn lock_step.event lock_step.votes)+

lemma whole_operations_run: "any_step\<^sup>*\<^sup>* c c' \<Longrightarrow> (micro_step ordered)\<^sup>*\<^sup>* (c, []) (c', [])"
  by (rule whole.reachable) auto

theorem role_matches_leader_witness:
  "role_ok (snd (AskVote 0 \<lparr> rq_NodeName = ''a'', rq_Term = 1 \<rparr> (ex_member 1)))"
proof -
  have "(micro_step False)\<^sup>*\<^sup>* (ex_member 1, []) (snd (AskVote 0 \<lparr> rq_NodeName = ''a'', rq_Term = 1 \<rparr> (ex_member 1)), [])"
    by (intro whole_operations_run r_into_rtranclp any_step.vote)
  from role_matches_leader [OF _ this] show ?thesis by (simp add: role_ok_def ex_member_def)
qed

section \<open>Events sent in order\<close>

text \<open>The events sent lead to a role from which those still to be sent lead to the role of the member.\<close>

definition pend_inv :: "member \<Rightarrow> bool" where
  "pend_inv m \<longleftrightarrow> ev_open (fst m) \<and>
     (\<exists>r. ev_role (the (c_events (fst m))) NoRole = Some r \<and> role_after (concat (snd m)) r = Some (role_of (fst m)))"

lemma pend_inv_cong:
  assumes "pend_inv (c, ps)" "role_of c' = role_of c" "ev_open c'" "c_events c' = c_events c" "concat ps' = concat ps"
  shows "pend_inv (c', ps')"
  using assms by (auto simp: pend_inv_def)

lemma pend_inv_section:
  assumes "pend_inv (c, ps)" "role_after evs (role_of c) = Some (role_of c')" "ev_open c'" "c_events c' = c_events c"
  shows "pend_inv (c', ps @ [evs])"
  using assms by (auto simp: pend_inv_def role_after_append)

lemma sign_section_pend:
  assumes "pend_inv (c, ps)" "sign_section now a t c = (evs, c')"
  shows "pend_inv (c', ps @ [evs])"
proof (rule pend_inv_section [OF assms(1)])
  note s = sign_section_state [OF assms(2)]
  obtain evs1 c1 where d: "drop_leader now c = (evs1, c1)" by fastforce
  have "GetLeaderName c' = nd_name (c_node c a)" "GetMyName c' = GetMyName c" using s(1,2) frame_GetMyName by (auto simp: GetLeaderName_def frame_def)
  then have "role_of c' = (if nd_name (c_node c a) = GetMyName c then Leading else Following (nd_name (c_node c a)))" using s(2) by (simp add: role_of_def)
  then show "role_after evs (role_of c) = Some (role_of c')" using drop_leader_role [OF d] s(8) d by (simp add: role_after_append)
  show "ev_open c'" using assms(1) s(4-7) by (auto simp: pend_inv_def ev_open_def)
  show "c_events c' = c_events c" by (rule s(5))
qed

lemma release_pend:
  assumes "pend_inv (c, ps)" "releaseLeader_locked now c = (evs, c')"
  shows "pend_inv (c', ps @ [evs])"
proof (rule pend_inv_section [OF assms(1)])
  note s = releaseLeader_locked_state [OF assms(2)]
  show "role_after evs (role_of c) = Some (role_of c')" using s(2,8) by (auto simp: role_of_def split: option.splits)
  show "ev_open c'" using assms(1) s(4-7) by (auto simp: pend_inv_def ev_open_def)
  show "c_events c' = c_events c" by (rule s(5))
qed

lemma concat_first:
  assumes "i < length ps" "ps ! i = x # es" "\<forall>j < i. ps ! j = []"
  shows "concat ps = x # concat (ps[i := es])"
proof -
  have "concat (take i ps) = []" using assms(3) by (auto simp: in_set_conv_nth)
  moreover have "ps = take i ps @ (x # es) # drop (Suc i) ps" using id_take_nth_drop [OF assms(1)] assms(2) by simp
  moreover have "ps[i := es] = take i ps @ es # drop (Suc i) ps" using assms(1) by (simp add: upd_conv_take_nth_drop)
  ultimately have "concat ps = concat (take i ps) @ (x # es) @ concat (drop (Suc i) ps)" "concat (ps[i := es]) = concat (take i ps) @ es @ concat (drop (Suc i) ps)"
    by (metis concat.simps(2) concat_append)+
  then show ?thesis using \<open>concat (take i ps) = []\<close> by simp
qed

lemma role_of_event: "role_of (createEvent n l c) = role_of c"
  by (simp add: role_of_def split: option.splits)

lemma send_pend:
  assumes "pend_inv (c, ps)" "concat ps = (n, l) # concat qs"
  shows "pend_inv (createEvent n l c, qs)"
proof -
  obtain r where r: "ev_open c" "ev_role (the (c_events c)) NoRole = Some r" "role_after ((n, l) # concat qs) r = Some (role_of c)"
    using assms by (auto simp: pend_inv_def)
  then obtain r1 where r1: "ev_role [\<lparr> ev_name = n, ev_clusterStat = c_sate c, ev_nodeName = GetMyName c, ev_leaderName = l \<rparr>] r = Some r1"
      "role_after (concat qs) r1 = Some (role_of c)"
    using ev_role_single [of n StInit "[]" l r "c_sate c" "GetMyName c"] by (auto split: bind_splits)
  show ?thesis using createEvent_open [OF r(1), of n l] r(2) r1 by (simp add: pend_inv_def ev_role_append role_of_event)
qed

lemma neutral_pend:
  assumes "pend_inv (c, ps)" "n \<in> {EvElectionStart, EvElectionFinish}"
  shows "pend_inv (createEvent n l c, ps)"
  using assms createEvent_open [of c n l] by (auto simp: pend_inv_def ev_role_append role_of_event)

lemma lock_step_pend:
  assumes "lock_step True m m'" and inv: "pend_inv m"
  shows "pend_inv m'"
  using assms(1)
proof cases
  case (sign now node t c evs c' ps)
  obtain a where "sign_section now a t c = (evs, c')" by (rule signLeader_locked_True [OF sign(3)])
  then show ?thesis using sign_section_pend inv sign(1,2) by blast
next
  case (release now c evs c' ps)
  then show ?thesis using release_pend inv by blast
next
  case (release_name now name c evs c' ps)
  then show ?thesis using releaseWithNodeName_locked_state [OF release_name(3)] release_pend [of c ps now evs c'] pend_inv_cong [of c ps c] inv
    by (auto simp: pend_inv_def)
next
  case (send i ps n l es c)
  then show ?thesis using send_pend [of c ps n l "ps[i := es]"] concat_first [of i ps "(n, l)" es] inv by simp
next
  case (sent c ps qs)
  then show ?thesis using inv by (simp add: pend_inv_def)
next
  case (event n c ps l)
  then show ?thesis using neutral_pend inv by blast
next
  case (conn c c' ps)
  have "role_of c' = role_of c" using role_of_cong [of c' c] conn(3) by (simp add: conn_frame_def)
  then show ?thesis using conn inv pend_inv_cong [of c ps c'] by (auto simp: pend_inv_def ev_open_def conn_frame_def)
next
  case (candidate c ps)
  have "role_of (c\<lparr> c_sate := Candidate \<rparr>) = role_of c" by (rule role_of_cong) simp_all
  then show ?thesis using candidate inv by (simp add: pend_inv_def ev_open_def)
next
  case (follower c ps)
  have "role_of (c\<lparr> c_sate := Follower \<rparr>) = role_of c" by (rule role_of_cong) simp_all
  then show ?thesis using follower inv by (simp add: pend_inv_def ev_open_def)
next
  case (votes c ps v)
  have "role_of (c\<lparr> c_votesMap := v \<rparr>) = role_of c" by (rule role_of_cong) simp_all
  then show ?thesis using votes inv by (simp add: pend_inv_def ev_open_def)
qed

lemma micro_step_pend:
  assumes "micro_step True m m'" and inv: "pend_inv m"
  shows "pend_inv m'"
  using assms(1)
proof cases
  case locked
  then show ?thesis using lock_step_pend inv by blast
next
  case (sign_late now a t c evs c' ps)
  then show ?thesis using sign_section_pend inv by blast
next
  case (store_term c ps t)
  have "role_of (c\<lparr> c_term := t \<rparr>) = role_of c" by (rule role_of_cong) simp_all
  then show ?thesis using store_term inv by (simp add: pend_inv_def ev_open_def)
qed

lemma pend_tracker:
  assumes "pend_inv (c, ps)"
  shows "\<exists>r. active_tickers (fold consumeEvent (the (c_events c)) (NewJobTracker i b n)) = role_tickers r \<and> role_after (concat ps) r = Some (role_of c)"
  using assms consumeEvents_inv [OF jt_inv_new] jt_inv_active by (fastforce simp: pend_inv_def)

text \<open>
  C2: the job tracker runs the work of the role. Let the goroutines of a started member interleave in any way in which the events of the changes of
  its leader are sent in the order of these changes. Then a tracker that has consumed all events sent so far runs exactly the ticker of a
  role (the master ticker, the slave ticker with the name of the leader, or none) from which the events not yet sent lead to the
  role of the member; when all are sent, it is the role of the member. The code does not enforce that order: see the next property.
\<close>

theorem tracker_follows_role:
  assumes "c_enable c0" "c_sate c0 = StInit" "c_curNode c0 \<noteq> None" "c_leaderNode c0 = None" "\<not> c_eventsClosed c0"
    "c_mode c0 \<noteq> ModeSingle" and "(micro_step True)\<^sup>*\<^sup>* (snd (cluster_Start True dials now c0), []) (c, ps)"
  shows "\<exists>r. active_tickers (fold consumeEvent (the (c_events c)) (NewJobTracker i b n)) = role_tickers r \<and>
    role_after (concat ps) r = Some (role_of c) \<and> (concat ps = [] \<longrightarrow> r = role_of c)"
proof -
  have "pend_inv (snd (cluster_Start True dials now c0), [])" using start_ev(2) [OF assms(1-6)] by (simp add: pend_inv_def ev_inv_def)
  with assms(7) have "pend_inv (c, ps)" by (induction rule: rtranclp_induct) (auto intro: micro_step_pend)
  from pend_tracker [OF this, of i b n] show ?thesis by (metis option.inject role_after.simps(1))
qed

theorem tracker_follows_role_witness:
  "active_tickers (fold consumeEvent (the (c_events (snd (BroadcastLeader 5 ex_announce (snd (cluster_Start True [] 0 ex_fresh))))))
     (NewJobTracker 10 False 1)) =
   role_tickers (role_of (snd (BroadcastLeader 5 ex_announce (snd (cluster_Start True [] 0 ex_fresh)))))"
proof -
  have "(micro_step True)\<^sup>*\<^sup>* (snd (cluster_Start True [] 0 ex_fresh), []) (snd (BroadcastLeader 5 ex_announce (snd (cluster_Start True [] 0 ex_fresh))), [])"
    by (intro whole_operations_run r_into_rtranclp any_step.member member_step.broadcast)
  from tracker_follows_role [OF _ _ _ _ _ _ this, of 10 False 1] show ?thesis
    by (simp add: ex_fresh_def ex_member_def)
qed

section \<open>Events that overtake each other\<close>

text \<open>
  C38: the events of two changes of the leader can overtake each other, and then the job tracker does the work of a leader that is none. A running member
  without leader, whose tracker is up to date, wins an election: \<open>signLeader\<close> records it as leader of a term that is not lower than its own. Before it sends its
  event, the handler of \<open>AskVote\<close> for a higher term releases the leader and sends its own. Then all events are sent and the member has no
  leader, but the tracker that consumed them runs the master ticker. This is a run of the interleaved goroutines.
\<close>

theorem overtaken_event_misleads_tracker:
  assumes "ev_inv c" "c_curNode c = Some a" "c_leaderNode c = None" "c_term c \<le> t"
  shows "\<exists>evs1 c1 evs2 c2. signLeader_locked now (c_curNode c) t c = (True, evs1, c1) \<and> c_sate c1 = Leader \<and>
    releaseLeader_locked now c1 = (evs2, c2) \<and>
    (micro_step False)\<^sup>*\<^sup>* (c, []) (createEvents evs1 (createEvents evs2 c2), []) \<and>
    role_of (createEvents evs1 (createEvents evs2 c2)) = NoRole \<and> c_sate (createEvents evs1 (createEvents evs2 c2)) = Follower \<and>
    active_tickers (fold consumeEvent (the (c_events (createEvents evs1 (createEvents evs2 c2)))) (NewJobTracker i b n)) = [MasterTicker]"
proof -
  have me: "nd_name (c_node c a) = GetMyName c" using assms(2) by (simp add: GetMyName_def)
  obtain evs1 c1 where s: "sign_section now a t c = (evs1, c1)" by fastforce
  note p1 = sign_section_state [OF s]
  have e1: "evs1 = [(EvSignMaster, GetMyName c)]" using p1(8) assms(3) me by (simp add: drop_leader_def)
  obtain evs2 c2 where d: "releaseLeader_locked now c1 = (evs2, c2)" by fastforce
  note p2 = releaseLeader_locked_state [OF d]
  have "GetLeaderName c1 = GetMyName c1" using p1(1,2) me frame_GetMyName by (auto simp: GetLeaderName_def frame_def)
  then have e2: "evs2 = [(EvUnsignMaster, [])]" using p2(8) p1(2) by simp
  let ?c3 = "createEvent EvUnsignMaster [] c2" and ?c4 = "createEvent EvSignMaster (GetMyName c) (createEvent EvUnsignMaster [] c2)"
  have lock: "signLeader_locked now (c_curNode c) t c = (True, evs1, c1)" using s assms(2,4) by (simp add: signLeader_locked_def)
  have "lock_step False (c, []) (c1, [evs1])" using lock_step.sign [OF lock, of False "[]"] by simp
  moreover have "lock_step False (c1, [evs1]) (c2, [evs1, evs2])" using lock_step.release [OF d, of False "[evs1]"] by simp
  moreover have "lock_step False (c2, [evs1, evs2]) (?c3, [evs1, []])" using lock_step.send [of 1 "[evs1, evs2]" _ _ "[]" False c2] e2 by simp
  moreover have "lock_step False (?c3, [evs1, []]) (?c4, [[], []])" using lock_step.send [of 0 "[evs1, []]" _ _ "[]" False ?c3] e1 by simp
  moreover have "lock_step False (?c4, [[], []]) (?c4, [[]])" "lock_step False (?c4, [[]]) (?c4, [])"
    using lock_step.sent [of False ?c4 "[]" "[[]]"] lock_step.sent [of False ?c4 "[]" "[]"] by simp_all
  ultimately have run: "(micro_step False)\<^sup>*\<^sup>* (c, []) (?c4, [])" by (meson micro_step.locked rtranclp.rtrancl_into_rtrancl rtranclp.rtrancl_refl)
  have open2: "ev_open c2" "c_events c2 = c_events c" using assms(1) p1(4-7) p2(4-7) by (auto simp: ev_inv_def ev_open_def)
  note o3 = createEvent_open [OF open2(1), of EvUnsignMaster "[]"]
  note o4 = createEvent_open [of ?c3 EvSignMaster "GetMyName c"]
  have "ev_role (the (c_events c)) NoRole = Some NoRole" using assms(1,3) by (simp add: ev_inv_def role_of_def)
  then have "jt_inv NoRole (fold consumeEvent (the (c_events c)) (NewJobTracker i b n))" by (rule consumeEvents_inv [OF jt_inv_new])
  then have "jt_inv Leading (fold consumeEvent (the (c_events ?c4)) (NewJobTracker i b n))"
    using o3 o4 open2(2) jt_started(1) by (auto simp: consumeEvent_def OnStoppedLeading_def jt_inv_def [of NoRole])
  from jt_inv_active [OF this] show ?thesis using lock d run p1(4) me p2(2,4) e1 e2 by (simp add: role_of_def)
qed

theorem overtaken_event_misleads_tracker_witness:
  "\<exists>c. role_of c = NoRole \<and> (micro_step False)\<^sup>*\<^sup>* (snd (cluster_Start True [] 0 ex_fresh), []) (c, []) \<and>
     active_tickers (fold consumeEvent (the (c_events c)) (NewJobTracker 10 False 1)) = [MasterTicker]"
proof -
  have ev: "ev_inv (snd (cluster_Start True [] 0 ex_fresh))" by (rule start_ev(2)) (simp_all add: ex_fresh_def ex_member_def)
  have st: "c_curNode (snd (cluster_Start True [] 0 ex_fresh)) = Some 0" "c_leaderNode (snd (cluster_Start True [] 0 ex_fresh)) = None"
      "c_term (snd (cluster_Start True [] 0 ex_fresh)) \<le> 1"
    by code_simp+
  from overtaken_event_misleads_tracker [OF ev st, of 7 10 False 1] show ?thesis by blast
qed

section \<open>Terms that go back\<close>

text \<open>
  A member that is about to campaign computes the next term; before it stores it, the handler of \<open>BroadcastLeader\<close> makes it follow the leader of a later
  term. The store then takes the term back below the term of that leader, and the member accepts the leader of an older
  term in its place.
\<close>

theorem term_goes_back:
  assumes "fight_next now c = Some nextTerm" "term_in_range c"
    and "gm_get (c_aliveNodes c) p = Some a" "gm_get (c_aliveNodes c) q = Some b" "nextTerm \<le> s" "s < t"
    and "c1 = snd (BroadcastLeader now1 \<lparr> bq_NodeName = p, bq_Term = t, bq_LeaderNodeName = p \<rparr> c)"
    and "BroadcastLeader now2 \<lparr> bq_NodeName = q, bq_Term = s, bq_LeaderNodeName = q \<rparr> (fight_store nextTerm c1) = (resp, c3)"
  shows "c_leaderNode c1 = Some a \<and> c_term c1 = t \<and> c_leaderNode (fight_store nextTerm c1) = Some a \<and> c_term (fight_store nextTerm c1) < t \<and>
    br_Success resp \<and> c_leaderNode c3 = Some b \<and> c_term c3 = s"
proof -
  have n: "nextTerm = c_term c + 1" using assms(1,2) by (auto simp: fight_next_def term_in_range_def wrap64_id split: if_splits)
  obtain c1' where s1: "signLeader now1 (Some a) t c = (True, c1')" using signLeader_True [of c t now1 a] n assms(5,6) by auto
  have c1: "c1 = c1'" using assms(3,7) n assms(5,6) s1 by (simp add: BroadcastLeader_def announced_leader_def Let_def)
  have p1: "c_term c1 = t" "c_leaderNode c1 = Some a" "c_aliveNodes c1 = c_aliveNodes c"
    using signLeader_props [OF s1] c1 by (metis option.inject)+
  let ?c2 = "fight_store nextTerm c1"
  have p2: "c_term ?c2 = nextTerm" "c_leaderNode ?c2 = Some a" "c_aliveNodes ?c2 = c_aliveNodes c" using p1 by (simp_all add: fight_store_def)
  obtain c3' where s3: "signLeader now2 (Some b) s ?c2 = (True, c3')" using signLeader_True [of ?c2 s now2 b] p2(1) assms(5) by auto
  have r: "br_Success resp" "c3 = c3'" using assms(8,4,5) p2 s3 by (auto simp: BroadcastLeader_def announced_leader_def Let_def)
  have "c_term c3 = s" "c_leaderNode c3 = Some b" using signLeader_props [OF s3] r(2) by (metis option.inject)+
  then show ?thesis using p1 p2 r n assms(5,6) by simp
qed

end
