(* ===== verification/Cluster_Network.thy ===== *)
theory Cluster_Network
  imports Cluster_Roles
begin

text \<open>
  Members that really answer each other. In the relations of \<open>Cluster_Election\<close> the answers to \<open>AskLeader\<close> and \<open>BroadcastLeader\<close> are arbitrary, which is what an
  invariant needs; here every answer is made by the handler of another member, so that a run is one that the code can take. A state has
  the members, the answers that have arrived at each candidate, and the variable \<open>nextTerm\<close> of each running attempt. An action happens at a time and is one
  of the points where a member waits for the network or the clock; that an answer is lost or late means that its action does not happen. \<open>None\<close> is an action that the code
  does not take in that state.
\<close>

section \<open>Actions\<close>

datatype net_act =
    Enter string
  | AskRound string "string list"
  | BeginTerm string
  | StartVote string
  | GetVote string string
  | Announce string string
  | FinishVote string
  | ExitAttempt string
  | Beat string string

text \<open>Where the attempt of a member stands.\<close>

datatype phase = Idle | Asking | Breaking | Starting | Collecting | Voted | Leaving

record net =
  nt_member :: "string \<Rightarrow> cluster"
  nt_phase :: "string \<Rightarrow> phase"
  nt_next :: "string \<Rightarrow> int"
  nt_votes :: "string \<Rightarrow> askVote_resp list"
  nt_acks :: "string \<Rightarrow> broadcast_resp list"

definition set_member :: "string \<Rightarrow> cluster \<Rightarrow> net \<Rightarrow> net" where
  "set_member p c w = w\<lparr> nt_member := (nt_member w)(p := c) \<rparr>"

definition set_phase :: "string \<Rightarrow> phase \<Rightarrow> net \<Rightarrow> net" where
  "set_phase p ph w = w\<lparr> nt_phase := (nt_phase w)(p := ph) \<rparr>"

text \<open>\<open>broadcastToNodes\<close> asks the connected nodes other than the member itself.\<close>

definition reaches :: "net \<Rightarrow> string \<Rightarrow> string \<Rightarrow> bool" where
  "reaches w p q \<longleftrightarrow> q \<noteq> p \<and> gm_get (c_aliveNodes (nt_member w p)) q \<noteq> None"

text \<open>The members of a list handle \<open>AskLeader\<close>; the answers in the order of the list.\<close>

fun ask_all :: "int \<Rightarrow> ask_req \<Rightarrow> string list \<Rightarrow> net \<Rightarrow> askLeader_resp list \<times> net" where
  "ask_all now req [] w = ([], w)"
| "ask_all now req (q # qs) w =
     (let (resp, c) = AskLeader now req (nt_member w q); (resps, w1) = ask_all now req qs (set_member q c w) in (resp # resps, w1))"

definition ask_phase :: "ask_outcome \<Rightarrow> phase" where
  "ask_phase out = (case out of AskReturn \<Rightarrow> Leaving | AskBreak \<Rightarrow> Breaking | AskAgain \<Rightarrow> Asking)"

definition vote_phase :: "vote_outcome \<Rightarrow> phase" where
  "vote_phase out = (case out of VoteReturn \<Rightarrow> Voted | VoteWait \<Rightarrow> Starting | Voting \<Rightarrow> Collecting)"

text \<open>All nodes stay connected, so \<open>reconnect\<close> dials nobody. Questions are only asked when a quorum is connected.\<close>

fun net_do :: "int \<Rightarrow> net_act \<Rightarrow> net \<Rightarrow> net option" where
  "net_do now (Enter p) w =
     (if nt_phase w p \<noteq> Idle then None
      else map_option (\<lambda>c. set_phase p Asking (set_member p c w)) (fight_enter now (nt_member w p)))"
| "net_do now (AskRound p qs) w =
     (let c = nt_member w p in
      if nt_phase w p \<noteq> Asking \<or> IsReady now c \<or> IsClosed c \<or> GetAliveNodeCount c < getQuorum c \<or> \<not> list_all (reaches w p) qs \<or> \<not> distinct qs then None
      else let (resps, w1) = ask_all now \<lparr> rq_NodeName = p, rq_Term = wrap32 (c_term c) \<rparr> qs w;
               (out, c1) = ask_round now [] resps (nt_member w1 p)
           in Some (set_phase p (ask_phase out) (set_member p c1 w1)))"
| "net_do now (BeginTerm p) w =
     (if nt_phase w p \<noteq> Breaking then None
      else case fight_begin now (nt_member w p) of
        None \<Rightarrow> Some (set_phase p Leaving w)
      | Some (t, c) \<Rightarrow> Some (set_phase p Starting ((set_member p c w)\<lparr> nt_next := (nt_next w)(p := t) \<rparr>)))"
| "net_do now (StartVote p) w =
     (if nt_phase w p \<noteq> Starting then None
      else let (out, c) = vote_start now [] (nt_next w p) (nt_member w p)
           in Some (set_phase p (vote_phase out) ((set_member p c w)\<lparr> nt_votes := (nt_votes w)(p := []), nt_acks := (nt_acks w)(p := []) \<rparr>)))"
| "net_do now (GetVote p q) w =
     (if nt_phase w p \<noteq> Collecting \<or> \<not> reaches w p q \<or> q \<in> set (map av_NodeName (nt_votes w p)) \<or> nt_acks w p \<noteq> [] then None
      else let (resp, c) = AskVote now \<lparr> rq_NodeName = p, rq_Term = wrap32 (nt_next w p) \<rparr> (nt_member w q)
           in Some ((set_member q c w)\<lparr> nt_votes := (nt_votes w)(p := nt_votes w p @ [resp]) \<rparr>))"
| "net_do now (Announce p q) w =
     (if nt_phase w p \<noteq> Collecting \<or> \<not> reaches w p q \<or> q \<in> set (map br_NodeName (nt_acks w p)) \<or>
         count_votes p (nt_votes w p) < getQuorum (nt_member w p) then None
      else let (resp, c) = BroadcastLeader now \<lparr> bq_NodeName = p, bq_Term = wrap32 (nt_next w p), bq_LeaderNodeName = p \<rparr> (nt_member w q)
           in Some ((set_member q c w)\<lparr> nt_acks := (nt_acks w)(p := nt_acks w p @ [resp]) \<rparr>))"
| "net_do now (FinishVote p) w =
     (if nt_phase w p \<noteq> Collecting then None
      else Some (set_phase p Voted (set_member p
             (vote_finish now (getQuorum (nt_member w p)) (nt_next w p) (nt_votes w p) (nt_acks w p) (nt_member w p)) w)))"
| "net_do now (ExitAttempt p) w =
     (if nt_phase w p = Voted then Some (set_phase p Idle (set_member p (snd (fight_finish 0 (nt_member w p))) w))
      else if nt_phase w p = Leaving then Some (set_phase p Idle (set_member p (snd (fight_exit 0 (nt_member w p))) w))
      else None)"
| "net_do now (Beat p q) w =
     (if c_sate (nt_member w p) \<noteq> Leader \<or> \<not> reaches w p q then None
      else Some (set_member q (snd (Heartbeat now \<lparr> rq_NodeName = p, rq_Term = wrap32 (c_term (nt_member w p)) \<rparr> (nt_member w q))) w))"

fun net_run :: "(int \<times> net_act) list \<Rightarrow> net \<Rightarrow> net option" where
  "net_run [] w = Some w"
| "net_run ((now, act) # acts) w = Option.bind (net_do now act w) (net_run acts)"

text \<open>Three members that have been started.\<close>

definition ex_init :: "addr \<Rightarrow> cluster" where
  "ex_init i = (ex_member i)\<lparr> c_sate := StInit, c_events := None \<rparr>"

definition ex_net :: net where
  "ex_net = \<lparr> nt_member = (\<lambda>p. snd (cluster_Start True [] 0 (ex_init (if p = ''a'' then 0 else if p = ''b'' then 1 else 2)))),
     nt_phase = (\<lambda>_. Idle), nt_next = (\<lambda>_. 0), nt_votes = (\<lambda>_. []), nt_acks = (\<lambda>_. []) \<rparr>"

text \<open>
  The schedule, with the times in nanoseconds (the timeout is five seconds).
\<close>

definition ex_schedule :: "(int \<times> net_act) list" where
  "ex_schedule =
     [(1, Enter ''a''), (2, AskRound ''a'' [''b'', ''c'']), (3, BeginTerm ''a''), (4, StartVote ''a''), (5, GetVote ''a'' ''b''), (6, GetVote ''a'' ''c''),
      (7, Announce ''a'' ''b''), (8, Announce ''a'' ''c''), (9, FinishVote ''a''), (10, ExitAttempt ''a''),
      (4000000000, Beat ''a'' ''b''),
      (6000000000, Enter ''c''), (6000000001, AskRound ''c'' []), (6500000000, BeginTerm ''c''), (6500000001, StartVote ''c''), (6500000002, GetVote ''c'' ''a''),
      (6500000003, Enter ''a''), (6500000004, AskRound ''a'' [''b'', ''c'']), (6500000005, ExitAttempt ''a''),
      (7000000000, Announce ''c'' ''b''), (7000000001, FinishVote ''c''), (7000000002, ExitAttempt ''c'')]"

section \<open>Members take their own steps\<close>

lemma any_step_at:
  assumes "any_step (nt_member w p) c"
  shows "any_step\<^sup>*\<^sup>* (nt_member w q) (nt_member (set_member p c w) q)"
  using assms by (simp add: set_member_def r_into_rtranclp)

lemma set_phase_member [simp]: "nt_member (set_phase p ph w) = nt_member w"
  by (simp add: set_phase_def)

lemma ask_all_steps: "ask_all now req qs w = (resps, w') \<Longrightarrow> any_step\<^sup>*\<^sup>* (nt_member w q) (nt_member w' q)"
proof (induction now req qs w arbitrary: resps w' rule: ask_all.induct)
  case (2 now req q' qs w)
  obtain resp c where a: "AskLeader now req (nt_member w q') = (resp, c)" by fastforce
  obtain rs where r: "ask_all now req qs (set_member q' c w) = (rs, w')" using 2(2) a by (auto simp: Let_def split: prod.splits)
  have "any_step (nt_member w q') c" using any_step.member [OF member_step.ask_leader, of "nt_member w q'" now req] a by simp
  then have "any_step\<^sup>*\<^sup>* (nt_member w q) (nt_member (set_member q' c w) q)" by (rule any_step_at)
  then show ?case using 2(1) [OF a [symmetric] refl r] by simp
qed simp

text \<open>Every run of the network is, for each member, a sequence of the steps of a member.\<close>

lemma net_do_steps:
  assumes "net_do now act w = Some w'"
  shows "any_step\<^sup>*\<^sup>* (nt_member w q) (nt_member w' q)"
proof (cases act)
  case (Enter p)
  then obtain c where "fight_enter now (nt_member w p) = Some c" "w' = set_phase p Asking (set_member p c w)" using assms by (auto split: if_splits)
  then show ?thesis using any_step_at [OF any_step.member [OF member_step.enter]] by simp
next
  case (AskRound p qs)
  obtain resps w1 where a: "ask_all now \<lparr> rq_NodeName = p, rq_Term = wrap32 (c_term (nt_member w p)) \<rparr> qs w = (resps, w1)" by fastforce
  obtain out c1 where r: "ask_round now [] resps (nt_member w1 p) = (out, c1)" by fastforce
  have "w' = set_phase p (ask_phase out) (set_member p c1 w1)" using AskRound assms a r by (auto simp: Let_def split: if_splits)
  moreover have "any_step (nt_member w1 p) c1" using any_step.member [OF member_step.ask, of "nt_member w1 p" now "[]" resps] r by simp
  then have "any_step\<^sup>*\<^sup>* (nt_member w1 q) (nt_member (set_member p c1 w1) q)" by (rule any_step_at)
  ultimately show ?thesis using ask_all_steps [OF a, of q] by simp
next
  case (BeginTerm p)
  show ?thesis
  proof (cases "fight_begin now (nt_member w p)")
    case (Some tc)
    then have "any_step (nt_member w p) (snd tc)" by (cases tc) (auto intro: any_step.member member_step.begin_term)
    from any_step_at [OF this, of q] show ?thesis
      using Some BeginTerm assms by (cases tc) (auto simp: set_member_def split: if_splits)
  qed (use BeginTerm assms in \<open>auto split: if_splits\<close>)
next
  case (StartVote p)
  have "any_step (nt_member w p) (snd (vote_start now [] (nt_next w p) (nt_member w p)))" by (rule any_step.start)
  from any_step_at [OF this, of q] show ?thesis
    using StartVote assms by (auto simp: set_member_def split: if_splits prod.splits)
next
  case (GetVote p r)
  have "any_step (nt_member w r) (snd (AskVote now \<lparr> rq_NodeName = p, rq_Term = wrap32 (nt_next w p) \<rparr> (nt_member w r)))" by (rule any_step.vote)
  from any_step_at [OF this, of q] show ?thesis
    using GetVote assms by (auto simp: set_member_def split: if_splits prod.splits)
next
  case (Announce p r)
  have "any_step (nt_member w r)
      (snd (BroadcastLeader now \<lparr> bq_NodeName = p, bq_Term = wrap32 (nt_next w p), bq_LeaderNodeName = p \<rparr> (nt_member w r)))"
    by (rule any_step.member [OF member_step.broadcast])
  from any_step_at [OF this, of q] show ?thesis
    using Announce assms by (auto simp: set_member_def split: if_splits prod.splits)
next
  case (FinishVote p)
  then show ?thesis using assms any_step_at [OF any_step.member [OF member_step.finish_vote]] by (auto split: if_splits)
next
  case (ExitAttempt p)
  then show ?thesis
    using assms any_step_at [OF any_step.member [OF member_step.finish]]
      any_step_at [OF any_step.member [OF member_step.exit]] by (auto split: if_splits)
next
  case (Beat p r)
  then show ?thesis using assms any_step_at [OF any_step.member [OF member_step.heartbeat]] by (auto split: if_splits)
qed

lemma net_run_steps: "net_run acts w = Some w' \<Longrightarrow> any_step\<^sup>*\<^sup>* (nt_member w q) (nt_member w' q)"
proof (induction acts w rule: net_run.induct)
  case (2 now act acts w)
  then obtain w1 where "net_do now act w = Some w1" "net_run acts w1 = Some w'" by (auto simp: bind_eq_Some_conv)
  then show ?case using 2(1) [of w1] net_do_steps by (metis rtranclp_trans)
qed simp

section \<open>Two leaders in one term\<close>

text \<open>
  C39: two leaders in one term. The choice of a leader takes the name of the leader from one answer and the largest term from another. Three members are started
  and \<open>a\<close> is elected in term 1. Its heartbeats stop reaching \<open>c\<close>, which, after the timeout and questions that nobody answers in time, campaigns in
  term 2 and gets the vote of \<open>a\<close>, which steps down. \<open>a\<close> asks for the leader: \<open>b\<close>, which still follows \<open>a\<close>, names it with term 1, and \<open>c\<close> reports term 2 without a
  leader. So \<open>a\<close> takes itself for the leader of term 2, in which it voted for \<open>c\<close>; and \<open>c\<close>, acknowledged by \<open>b\<close>, becomes leader of term 2 as well.
  All answers in this run are those of the members' handlers.
\<close>

theorem two_leaders_in_one_term:
  "\<exists>w. net_run ex_schedule ex_net = Some w \<and> (\<forall>q. any_step\<^sup>*\<^sup>* (nt_member ex_net q) (nt_member w q)) \<and>
     c_sate (nt_member w ''a'') = Leader \<and> c_term (nt_member w ''a'') = 2 \<and> gm_get (c_votesMap (nt_member w ''a'')) 2 = Some ''c'' \<and>
     c_sate (nt_member w ''c'') = Leader \<and> c_term (nt_member w ''c'') = 2"
proof -
  have "case net_run ex_schedule ex_net of None \<Rightarrow> False
    | Some w \<Rightarrow> c_sate (nt_member w ''a'') = Leader \<and> c_term (nt_member w ''a'') = 2 \<and> gm_get (c_votesMap (nt_member w ''a'')) 2 = Some ''c'' \<and>
        c_sate (nt_member w ''c'') = Leader \<and> c_term (nt_member w ''c'') = 2" by code_simp
  then show ?thesis using net_run_steps by (auto split: option.splits)
qed

end
