(* ===== verification/Heartbeat_Stream.thy ===== *)
theory Heartbeat_Stream
  imports Cluster_Roles
begin

text \<open>
  \<^verbatim>\<open>cluster/heartbeat_stream.go\<close> and the loop \<open>heartbeat\<close> of \<^verbatim>\<open>cluster/cluster.go\<close>. The manager keeps one entry per
  peer; entries live in a store, because the goroutine \<open>runStream\<close> of an entry keeps a pointer to it after
  the table has replaced it. A stream is a number. \<open>runStream\<close> is cut at the points where it waits for the
  network or the clock: opening the stream, handling one response, and the end of a stream.
\<close>

section \<open>Stream manager\<close>

record stream_entry =
  se_node :: addr
  se_stream :: "nat option"
  se_generation :: int
  se_cancelled :: bool

record hb_manager =
  hm_entry :: "addr \<Rightarrow> stream_entry"
  hm_brk :: addr
  hm_streams :: "(string, addr) gomap"
  hm_generation :: int

definition newHeartbeatStreamManager :: hb_manager where
  "newHeartbeatStreamManager = \<lparr> hm_entry = (\<lambda>_. \<lparr> se_node = 0, se_stream = None, se_generation = 0, se_cancelled = True \<rparr>),
     hm_brk = 0, hm_streams = [], hm_generation = 0 \<rparr>"

definition upd_entry :: "addr \<Rightarrow> (stream_entry \<Rightarrow> stream_entry) \<Rightarrow> hb_manager \<Rightarrow> hb_manager" where
  "upd_entry e f m = m\<lparr> hm_entry := (hm_entry m)(e := f (hm_entry m e)) \<rparr>"

text \<open>The generation of the goroutine that starts, if one starts.\<close>

definition startStream :: "string \<Rightarrow> addr \<Rightarrow> hb_manager \<Rightarrow> int option \<times> hb_manager" where
  "startStream name node m =
     (let gen = wrap64 (hm_generation m + 1);
          e = hm_brk m;
          m1 = m\<lparr> hm_generation := gen, hm_brk := Suc e,
                 hm_entry := (hm_entry m)(e := \<lparr> se_node = node, se_stream = None, se_generation = gen, se_cancelled = False \<rparr>) \<rparr>
      in case gm_get (hm_streams m1) name of
           Some _ \<Rightarrow> (None, upd_entry e (\<lambda>x. x\<lparr> se_cancelled := True \<rparr>) m1)
         | None \<Rightarrow> (Some gen, m1\<lparr> hm_streams := gm_put name e (hm_streams m1) \<rparr>))"

definition stopStream :: "string \<Rightarrow> hb_manager \<Rightarrow> hb_manager" where
  "stopStream name m =
     (case gm_get (hm_streams m) name of
        None \<Rightarrow> m
      | Some e \<Rightarrow> upd_entry e (\<lambda>x. x\<lparr> se_cancelled := True \<rparr>) (m\<lparr> hm_streams := gm_del name (hm_streams m) \<rparr>))"

definition stopAll :: "hb_manager \<Rightarrow> hb_manager" where
  "stopAll m = fold (\<lambda>(name, e) m. (upd_entry e (\<lambda>x. x\<lparr> se_cancelled := True \<rparr>) m)\<lparr> hm_streams := gm_del name (hm_streams m) \<rparr>)
     (hm_streams m) m"

text \<open>\<open>send\<close> is whether \<open>Send\<close> on a stream succeeds.\<close>

definition sendHeartbeat :: "(nat \<Rightarrow> bool) \<Rightarrow> string \<Rightarrow> hb_manager \<Rightarrow> bool" where
  "sendHeartbeat send name m =
     (case gm_get (hm_streams m) name of
        None \<Rightarrow> False
      | Some e \<Rightarrow> (case se_stream (hm_entry m e) of None \<Rightarrow> False | Some s \<Rightarrow> send s))"

section \<open>runStream\<close>

definition next_backoff :: "int \<Rightarrow> int" where
  "next_backoff backoff = min (backoff * 2) 30"

datatype stream_phase = RsOpen int | RsRecv addr int | RsDone

text \<open>
  One round of the loop up to the open stream. When the context of the goroutine is cancelled (\<open>cancelled\<close>, checked
  at the top of the loop and again while it waits) it ends. Without a client or with an error of the network (\<open>opened = None\<close>) the peer is marked
  unavailable and the goroutine waits \<open>backoff\<close> seconds; otherwise the stream is recorded in the entry of
  the table, when that is still the entry of this goroutine.
\<close>

definition runStream_open :: "bool \<Rightarrow> nat option \<Rightarrow> int \<Rightarrow> addr \<Rightarrow> int \<Rightarrow> cluster \<times> hb_manager \<Rightarrow> stream_phase \<times> cluster \<times> hb_manager" where
  "runStream_open cancelled opened gen node backoff = (\<lambda>(c, m).
     if cancelled then (RsDone, c, m) else
     let name = nd_name (c_node c node) in
     case (if nd_client (c_node c node) = None then None else opened) of
       None \<Rightarrow> (RsOpen (next_backoff backoff), markNodeUnavailable name c, m)
     | Some s \<Rightarrow>
         (case gm_get (hm_streams m) name of
            None \<Rightarrow> (RsDone, c, m)
          | Some e \<Rightarrow>
              if se_generation (hm_entry m e) \<noteq> gen then (RsDone, c, m)
              else (RsRecv e 1, c, upd_entry e (\<lambda>x. x\<lparr> se_stream := Some s \<rparr>) m)))"

definition runStream_resp :: "int \<Rightarrow> askLeader_resp \<Rightarrow> addr \<Rightarrow> cluster \<Rightarrow> cluster" where
  "runStream_resp now resp node c =
     (if al_Success resp then upd_node node (updateHeartbeat now) c
      else if al_LeaderNodeName resp \<noteq> [] \<and> al_LeaderNodeName resp \<noteq> GetLeaderName c
      then upd_node node resetHeartbeatOnLeaderChange c
      else upd_node node updateHeartbeatFailed c)"

definition runStream_closed :: "int \<Rightarrow> addr \<Rightarrow> addr \<Rightarrow> int \<Rightarrow> cluster \<times> hb_manager \<Rightarrow> stream_phase \<times> cluster \<times> hb_manager" where
  "runStream_closed gen node entry backoff = (\<lambda>(c, m).
     let name = nd_name (c_node c node);
         c1 = markNodeUnavailable name c
     in case gm_get (hm_streams m) name of
          None \<Rightarrow> (RsDone, c1, m)
        | Some e \<Rightarrow>
            if se_generation (hm_entry m e) \<noteq> gen then (RsDone, c1, m)
            else (RsOpen (next_backoff backoff), c1, upd_entry entry (\<lambda>x. x\<lparr> se_stream := None \<rparr>) m))"

section \<open>The heartbeat loop\<close>

text \<open>The peers are the live nodes other than the member itself.\<close>

definition hb_peers :: "cluster \<Rightarrow> (string \<times> addr) list" where
  "hb_peers c = filter (\<lambda>(name, node). name \<noteq> GetMyName c) (c_aliveNodes c)"

fun start_missing :: "(string \<times> addr) list \<Rightarrow> cluster \<Rightarrow> hb_manager \<Rightarrow> hb_manager" where
  "start_missing [] c m = m"
| "start_missing ((name, node) # ps) c m =
     start_missing ps c
       (if gm_get (hm_streams m) name = None then snd (startStream (nd_name (c_node c node)) node m) else m)"

text \<open>
  One tick. The result is the count of consecutive failures, whether an election is started, and the new
  state; \<open>m = None\<close> is a manager that has not been created.
\<close>

definition heartbeat_tick :: "int \<Rightarrow> (nat \<Rightarrow> bool) \<Rightarrow> nat \<Rightarrow> cluster \<times> hb_manager option \<Rightarrow> nat \<times> bool \<times> cluster \<times> hb_manager option" where
  "heartbeat_tick now send consecutiveFailures = (\<lambda>(c, mo).
     if c_sate c = Leader then
       (case mo of
          None \<Rightarrow> (consecutiveFailures, False, c, mo)
        | Some m \<Rightarrow>
            let m1 = start_missing (hb_peers c) c m;
                leastCnt = int (getQuorum c) - 1;
                total = length (hb_peers c);
                success = length (filter (\<lambda>(name, node). sendHeartbeat send name m1) (hb_peers c));
                (fails, c1) =
                  (if int total < leastCnt \<or> int success < leastCnt
                   then (if consecutiveFailures + 1 \<ge> 3 then (0, releaseWithNodeName now (GetMyName c) c)
                         else (consecutiveFailures + 1, c))
                   else (0, c))
            in (fails, False, triggerReconnect c1, Some m1))
     else if c_sate c = Follower then
       (let mo1 = map_option stopAll mo
        in (consecutiveFailures, \<not> IsReady now c \<or> c_leaderNode c = None, triggerReconnect c, mo1))
     else (consecutiveFailures, False, triggerReconnect c, mo))"

section \<open>No stream is lost\<close>

text \<open>
  The entries whose context is not cancelled are exactly those of the table, one per peer, each with a
  generation of its own. The bound keeps the 64-bit counter from wrapping.
\<close>

definition table :: "(string, addr) gomap \<Rightarrow> addr set" where
  "table s = {e. \<exists>name. gm_get s name = Some e}"

definition table_inj :: "(string, addr) gomap \<Rightarrow> bool" where
  "table_inj s \<longleftrightarrow> (\<forall>n n' e. gm_get s n = Some e \<longrightarrow> gm_get s n' = Some e \<longrightarrow> n = n')"

definition live :: "hb_manager \<Rightarrow> addr set" where
  "live m = {e. \<not> se_cancelled (hm_entry m e)}"

definition gens_ok :: "hb_manager \<Rightarrow> bool" where
  "gens_ok m \<longleftrightarrow> 0 \<le> hm_generation m \<and>
     (\<forall>e < hm_brk m. 0 < se_generation (hm_entry m e) \<and> se_generation (hm_entry m e) \<le> hm_generation m) \<and>
     inj_on (\<lambda>e. se_generation (hm_entry m e)) {..<hm_brk m}"

definition hm_inv :: "hb_manager \<Rightarrow> bool" where
  "hm_inv m \<longleftrightarrow> gm_ok (hm_streams m) \<and> table_inj (hm_streams m) \<and> gens_ok m \<and>
     live m = table (hm_streams m) \<and> table (hm_streams m) \<subseteq> {..<hm_brk m}"

lemma table_put:
  assumes "gm_get s n = None"
  shows "table (gm_put n e s) = insert e (table s)" "e \<notin> table s \<Longrightarrow> table_inj s \<Longrightarrow> table_inj (gm_put n e s)"
proof -
  show "table (gm_put n e s) = insert e (table s)"
    unfolding table_def using assms by (auto split: if_splits) (metis option.distinct(1))
  show "e \<notin> table s \<Longrightarrow> table_inj s \<Longrightarrow> table_inj (gm_put n e s)"
    unfolding table_def table_inj_def by auto
qed

lemma table_del:
  assumes "gm_get s n = Some e" "table_inj s"
  shows "table (gm_del n s) = table s - {e}" "table_inj (gm_del n s)"
proof -
  show "table (gm_del n s) = table s - {e}"
    unfolding table_def using assms unfolding table_inj_def
    by (auto split: if_splits) (metis option.inject)
  show "table_inj (gm_del n s)" using assms(2) unfolding table_inj_def by simp
qed

lemma hm_inv_new: "hm_inv newHeartbeatStreamManager"
  by (simp add: hm_inv_def newHeartbeatStreamManager_def table_inj_def table_def live_def gens_ok_def)

text \<open>A new entry at the end of the store with the next generation.\<close>

lemma gens_ok_new:
  assumes g: "gens_ok m" and e: "hm_entry m' = (hm_entry m)(hm_brk m := x)" "hm_brk m' = Suc (hm_brk m)"
    and x: "se_generation x = hm_generation m + 1" "hm_generation m' = hm_generation m + 1"
  shows "gens_ok m'"
proof -
  have old: "se_generation (hm_entry m k) \<le> hm_generation m \<and> 0 < se_generation (hm_entry m k)" if "k < hm_brk m" for k
    using g that by (simp add: gens_ok_def)
  have "inj_on (\<lambda>k. se_generation (hm_entry m' k)) {..<Suc (hm_brk m)}"
  proof (rule inj_onI)
    fix k k' assume k: "k \<in> {..<Suc (hm_brk m)}" "k' \<in> {..<Suc (hm_brk m)}"
      and eq: "se_generation (hm_entry m' k) = se_generation (hm_entry m' k')"
    consider "k = hm_brk m" "k' = hm_brk m" | "k = hm_brk m" "k' < hm_brk m" | "k < hm_brk m" "k' = hm_brk m"
      | "k < hm_brk m" "k' < hm_brk m" using k by fastforce
    then show "k = k'"
    proof cases
      case 2
      then show ?thesis using eq old [of k'] e(1) x(1) by simp
    next
      case 3
      then show ?thesis using eq old [of k] e(1) x(1) by simp
    next
      case 4
      then show ?thesis using eq e(1) g by (auto simp: gens_ok_def inj_on_def)
    qed simp
  qed
  moreover have "0 < se_generation (hm_entry m' k) \<and> se_generation (hm_entry m' k) \<le> hm_generation m'" if "k < Suc (hm_brk m)" for k
    using that old [of k] e(1) x g by (cases "k < hm_brk m") (auto simp: gens_ok_def less_Suc_eq)
  ultimately show ?thesis using e(2) x(2) g by (simp add: gens_ok_def)
qed

lemma startStream_inv:
  assumes inv: "hm_inv m" and b: "hm_generation m < 9223372036854775807"
  shows "hm_inv (snd (startStream name node m))" "hm_generation (snd (startStream name node m)) = hm_generation m + 1"
proof -
  have w: "wrap64 (hm_generation m + 1) = hm_generation m + 1"
    using inv b by (intro wrap64_id) (auto simp: hm_inv_def gens_ok_def)
  show "hm_generation (snd (startStream name node m)) = hm_generation m + 1"
    by (simp add: startStream_def Let_def w upd_entry_def split: option.splits)
  have fresh: "hm_brk m \<notin> table (hm_streams m)" "hm_brk m \<notin> live m" using inv by (auto simp: hm_inv_def)
  have g: "gens_ok m" using inv by (simp add: hm_inv_def)
  let ?x = "\<lambda>c. \<lparr> se_node = node, se_stream = None, se_generation = hm_generation m + 1, se_cancelled = c \<rparr>"
  let ?m = "\<lambda>c s. m\<lparr> hm_generation := hm_generation m + 1, hm_brk := Suc (hm_brk m),
        hm_entry := (hm_entry m)(hm_brk m := ?x c), hm_streams := s \<rparr>"
  have gn: "gens_ok (?m c s)" for c s by (rule gens_ok_new [OF g, where x = "?x c"]) simp_all
  show "hm_inv (snd (startStream name node m))"
  proof (cases "gm_get (hm_streams m) name")
    case None
    have eq: "snd (startStream name node m) = ?m False (gm_put name (hm_brk m) (hm_streams m))"
      using None by (simp add: startStream_def Let_def w)
    have "live (?m False (gm_put name (hm_brk m) (hm_streams m))) = insert (hm_brk m) (live m)" by (auto simp: live_def)
    then show ?thesis
      using inv gn table_put [OF None, of "hm_brk m"] fresh unfolding eq hm_inv_def by auto
  next
    case (Some e)
    have eq: "snd (startStream name node m) = ?m True (hm_streams m)"
      using Some by (simp add: startStream_def Let_def w upd_entry_def)
    have "live (?m True (hm_streams m)) = live m" using fresh(2) by (auto simp: live_def)
    then show ?thesis using inv gn [of "hm_streams m" True] unfolding eq hm_inv_def by auto
  qed
qed

lemma gens_ok_cong:
  "gens_ok m \<Longrightarrow> hm_generation m' = hm_generation m \<Longrightarrow> hm_brk m' = hm_brk m \<Longrightarrow>
   (\<And>k. se_generation (hm_entry m' k) = se_generation (hm_entry m k)) \<Longrightarrow> gens_ok m'"
  by (simp add: gens_ok_def)

lemma stopStream_inv: "hm_inv m \<Longrightarrow> hm_inv (stopStream name m)"
proof (cases "gm_get (hm_streams m) name")
  case (Some e)
  assume inv: "hm_inv m"
  let ?m = "stopStream name m"
  have eq: "?m = m\<lparr> hm_streams := gm_del name (hm_streams m),
      hm_entry := (hm_entry m)(e := (hm_entry m e)\<lparr> se_cancelled := True \<rparr>) \<rparr>"
    using Some by (simp add: stopStream_def upd_entry_def)
  have "gens_ok ?m" by (rule gens_ok_cong [of m]) (use inv in \<open>simp_all add: eq hm_inv_def\<close>)
  moreover have "live ?m = live m - {e}" by (auto simp: live_def eq)
  ultimately show ?thesis
    using inv table_del [OF Some] by (auto simp: hm_inv_def eq)
qed (simp add: stopStream_def)

lemma stopAll_stops:
  assumes "gm_ok (hm_streams m)"
  shows "stopAll m = fold stopStream (gm_keys (hm_streams m)) m"
proof -
  have "fold (\<lambda>(name, e) m. (upd_entry e (\<lambda>x. x\<lparr> se_cancelled := True \<rparr>) m)\<lparr> hm_streams := gm_del name (hm_streams m) \<rparr>) ns m =
      fold stopStream (map fst ns) m"
    if "distinct (map fst ns)" "\<forall>(n, e) \<in> set ns. gm_get (hm_streams m) n = Some e" for ns m
    using that
  proof (induction ns arbitrary: m)
    case (Cons ne ns)
    obtain n e where ne: "ne = (n, e)" by fastforce
    have s: "stopStream n m = (upd_entry e (\<lambda>x. x\<lparr> se_cancelled := True \<rparr>) m)\<lparr> hm_streams := gm_del n (hm_streams m) \<rparr>"
      using Cons(3) ne by (simp add: stopStream_def upd_entry_def)
    have "\<forall>(n', e') \<in> set ns. gm_get (hm_streams (stopStream n m)) n' = Some e'"
      using Cons(2,3) ne s by force
    then show ?case using Cons(1) [of "stopStream n m"] Cons(2) ne s by simp
  qed simp
  moreover have "\<forall>(n, e) \<in> set (hm_streams m). gm_get (hm_streams m) n = Some e"
    using assms by (simp add: gm_defs)
  ultimately show ?thesis using assms by (simp add: stopAll_def gm_keys_def gm_ok_def)
qed

lemma stopAll_inv: "hm_inv m \<Longrightarrow> hm_inv (stopAll m)"
proof -
  have "hm_inv m \<Longrightarrow> hm_inv (fold stopStream ns m)" for ns m
    by (induction ns arbitrary: m) (auto intro: stopStream_inv)
  then show "hm_inv m \<Longrightarrow> hm_inv (stopAll m)" using stopAll_stops by (simp add: hm_inv_def)
qed

datatype hm_op = HStart string addr | HStop string | HStopAll | HStream addr "nat option"

text \<open>The operations on the manager; the last one is a write of a goroutine to the stream of its entry.\<close>

fun hm_step :: "hm_op \<Rightarrow> hb_manager \<Rightarrow> hb_manager" where
  "hm_step (HStart name node) m = snd (startStream name node m)"
| "hm_step (HStop name) m = stopStream name m"
| "hm_step HStopAll m = stopAll m"
| "hm_step (HStream e s) m = upd_entry e (\<lambda>x. x\<lparr> se_stream := s \<rparr>) m"

lemma stopAll_generation: "hm_generation (stopAll m) = hm_generation m"
proof -
  have "hm_generation (fold (\<lambda>(name, e) m. (upd_entry e (\<lambda>x. x\<lparr> se_cancelled := True \<rparr>) m)\<lparr> hm_streams := gm_del name (hm_streams m) \<rparr>) ns m) =
      hm_generation m" for ns
    by (induction ns arbitrary: m) (auto simp: upd_entry_def)
  then show ?thesis by (simp add: stopAll_def)
qed

text \<open>The number of calls of \<open>startStream\<close>, each of which takes a new generation.\<close>

definition hm_starts :: "hm_op list \<Rightarrow> nat" where
  "hm_starts ops = length (filter (\<lambda>op. case op of HStart _ _ \<Rightarrow> True | _ \<Rightarrow> False) ops)"

lemma hm_starts_Cons [simp]:
  "hm_starts [] = 0" "hm_starts (HStart n a # ops) = Suc (hm_starts ops)" "hm_starts (HStop n # ops) = hm_starts ops"
  "hm_starts (HStopAll # ops) = hm_starts ops" "hm_starts (HStream e s # ops) = hm_starts ops"
  by (simp_all add: hm_starts_def)

lemma hm_run_inv:
  "hm_inv m \<Longrightarrow> hm_generation m + int (hm_starts ops) < 9223372036854775807 \<Longrightarrow> hm_inv (fold hm_step ops m)"
proof (induction ops arbitrary: m)
  case (Cons op ops)
  have b: "hm_generation m < 9223372036854775807" if "op = HStart name node" for name node using Cons(3) that by simp
  have "hm_inv (hm_step op m) \<and> hm_generation (hm_step op m) + int (hm_starts ops) \<le> hm_generation m + int (hm_starts (op # ops))"
  proof (cases op)
    case (HStart name node)
    then show ?thesis using startStream_inv [OF Cons(2) b [OF HStart], of name node] HStart by simp
  next
    case (HStop name)
    then show ?thesis using stopStream_inv [OF Cons(2)] by (auto simp: stopStream_def upd_entry_def split: option.splits)
  next
    case HStopAll
    then show ?thesis using stopAll_inv [OF Cons(2)] by (simp add: stopAll_generation)
  next
    case (HStream e s)
    have "live (upd_entry e (\<lambda>x. x\<lparr> se_stream := s \<rparr>) m) = live m" by (auto simp: live_def upd_entry_def)
    moreover have "gens_ok (upd_entry e (\<lambda>x. x\<lparr> se_stream := s \<rparr>) m)"
      by (rule gens_ok_cong [of m]) (use Cons(2) in \<open>simp_all add: hm_inv_def upd_entry_def\<close>)
    ultimately show ?thesis using HStream Cons(2) by (simp add: hm_inv_def upd_entry_def)
  qed
  then show ?case using Cons by simp
qed simp

text \<open>
  C5: no heartbeat stream is lost or doubled. After any sequence of startStream, stopStream and stopAll, mixed with any number of writes of the stream goroutines, in which
  startStream is called fewer than 9223372036854775807 times (its generation is a 64-bit counter, which must not wrap), a stream goroutine is live (its context is
  not cancelled) exactly when its entry is in the table, so there is at most one per peer, and different entries have different generations, by
  which a goroutine recognises its own entry.
\<close>

theorem streams_live_iff_in_table:
  assumes "hm_starts ops < 9223372036854775807"
  shows "(\<not> se_cancelled (hm_entry (fold hm_step ops newHeartbeatStreamManager) e) \<longleftrightarrow>
            (\<exists>name. gm_get (hm_streams (fold hm_step ops newHeartbeatStreamManager)) name = Some e)) \<and>
         (\<forall>e < hm_brk (fold hm_step ops newHeartbeatStreamManager). \<forall>e' < hm_brk (fold hm_step ops newHeartbeatStreamManager).
            se_generation (hm_entry (fold hm_step ops newHeartbeatStreamManager) e) =
            se_generation (hm_entry (fold hm_step ops newHeartbeatStreamManager) e') \<longrightarrow> e = e')"
proof -
  have "hm_inv (fold hm_step ops newHeartbeatStreamManager)"
    using assms by (intro hm_run_inv hm_inv_new) (simp add: newHeartbeatStreamManager_def)
  then show ?thesis unfolding hm_inv_def gens_ok_def live_def table_def inj_on_def by blast
qed

theorem streams_live_iff_in_table_witness:
  "\<not> se_cancelled (hm_entry (fold hm_step [HStart ''b'' 1, HStart ''b'' 1, HStop ''b'', HStart ''b'' 1] newHeartbeatStreamManager) 2)"
  using streams_live_iff_in_table [of "[HStart ''b'' 1, HStart ''b'' 1, HStop ''b'', HStart ''b'' 1]" 2]
  by (simp add: startStream_def stopStream_def newHeartbeatStreamManager_def upd_entry_def Let_def gm_defs wrap_at_def)

section \<open>Stepping down and starting an election\<close>

fun heartbeat_ticks :: "(int \<times> (nat \<Rightarrow> bool)) list \<Rightarrow> nat \<Rightarrow> cluster \<times> hb_manager option \<Rightarrow> nat \<times> cluster \<times> hb_manager option" where
  "heartbeat_ticks [] fails s = (fails, s)"
| "heartbeat_ticks ((now, send) # ts) fails s =
     (let (fails1, _, s1) = heartbeat_tick now send fails s in heartbeat_ticks ts fails1 s1)"

lemma tick_no_answer:
  assumes "c_sate c = Leader" and "2 \<le> getQuorum c"
  obtains m1 where "heartbeat_tick now (\<lambda>_. False) fails (c, Some m) =
     (if 2 \<le> fails then 0 else fails + 1, False,
      triggerReconnect (if 2 \<le> fails then releaseWithNodeName now (GetMyName c) c else c), Some m1)"
proof -
  have none: "sendHeartbeat (\<lambda>_. False) name m1 = False" for name m1
    by (simp add: sendHeartbeat_def split: option.splits)
  have "heartbeat_tick now (\<lambda>_. False) fails (c, Some m) =
     (if 2 \<le> fails then 0 else fails + 1, False,
      triggerReconnect (if 2 \<le> fails then releaseWithNodeName now (GetMyName c) c else c),
      Some (start_missing (hb_peers c) c m))"
    using assms by (auto simp: heartbeat_tick_def none Let_def)
  then show thesis by (rule that)
qed

lemma triggerReconnect_sel [simp]:
  "c_sate (triggerReconnect c) = c_sate c" "c_leaderNode (triggerReconnect c) = c_leaderNode c"
  "GetMyName (triggerReconnect c) = GetMyName c" "GetLeaderName (triggerReconnect c) = GetLeaderName c"
  "getQuorum (triggerReconnect c) = getQuorum c"
  by (auto simp: triggerReconnect_def GetLeaderName_def getQuorum_def GetAllNodeCount_def GetAllNodeNames_def split: option.splits)

text \<open>
  C6: a leader that reaches no peer steps down. In a cluster of two or more nodes, after three ticks of
  the heartbeat in which no heartbeat is sent successfully, and not before, the member is no longer leader
  and has recorded no leader, so its followers and itself can elect a new one.
\<close>

theorem leader_without_peers_steps_down:
  assumes "c_sate c = Leader" and "c_leaderNode c \<noteq> None" and "GetLeaderName c = GetMyName c" and "2 \<le> getQuorum c"
  shows "c_sate (fst (snd (heartbeat_ticks [(t1, \<lambda>_. False), (t2, \<lambda>_. False)] 0 (c, Some m)))) = Leader \<and>
     (case heartbeat_ticks [(t1, \<lambda>_. False), (t2, \<lambda>_. False), (t3, \<lambda>_. False)] 0 (c, Some m) of
        (fails, c', _) \<Rightarrow> fails = 0 \<and> c_sate c' = Follower \<and> c_leaderNode c' = None)"
proof -
  obtain m1 where e1: "heartbeat_tick t1 (\<lambda>_. False) 0 (c, Some m) = (1, False, triggerReconnect c, Some m1)"
    by (rule tick_no_answer [OF assms(1,4), of t1 0 m]) simp
  let ?c1 = "triggerReconnect c"
  obtain m2 where e2: "heartbeat_tick t2 (\<lambda>_. False) 1 (?c1, Some m1) = (2, False, triggerReconnect ?c1, Some m2)"
    by (rule tick_no_answer [of ?c1 t2 1 m1]) (use assms in \<open>simp_all add: numeral_2_eq_2\<close>)
  let ?c2 = "triggerReconnect ?c1"
  obtain m3 where e3: "heartbeat_tick t3 (\<lambda>_. False) 2 (?c2, Some m2) =
      (0, False, triggerReconnect (releaseWithNodeName t3 (GetMyName ?c2) ?c2), Some m3)"
    by (rule tick_no_answer [of ?c2 t3 2 m2]) (use assms in simp_all)
  have "releaseWithNodeName t3 (GetMyName ?c2) ?c2 = releaseLeader t3 ?c2"
    using assms by (simp add: releaseWithNodeName_eq)
  then show ?thesis using e1 e2 e3 assms(1) by (simp add: releaseLeader_props)
qed

text \<open>
  a follower starts an election exactly when its leader has been silent for the timeout. At a tick of
  a follower that knows its leader and whose last heartbeat was good, an election starts if and only if
  the timeout has passed since that heartbeat.
\<close>

theorem follower_starts_election_iff_silent:
  assumes "c_mode c \<noteq> ModeRedis" and "c_sate c = Follower" and "c_leaderNode c \<noteq> None"
    and "c_node c (c_self c) = updateHeartbeat h n" and "h \<noteq> zeroTime"
  shows "fst (snd (heartbeat_tick now send fails (c, mo))) \<longleftrightarrow> h + c_timeout c \<le> now"
  using assms
  by (auto simp: heartbeat_tick_def Let_def IsReady_def isNodeHealthy_def isHeartbeatZero_def node_isReady_def
      getHealthScore_def updateHeartbeat_def)

lemma ex_leader_facts:
  "c_sate ((ex_member 0)\<lparr> c_sate := Leader, c_leaderNode := Some 0 \<rparr>) = Leader"
  "GetLeaderName ((ex_member 0)\<lparr> c_sate := Leader, c_leaderNode := Some 0 \<rparr>) = GetMyName ((ex_member 0)\<lparr> c_sate := Leader, c_leaderNode := Some 0 \<rparr>)"
  "getQuorum ((ex_member 0)\<lparr> c_sate := Leader, c_leaderNode := Some 0 \<rparr>) = 2"
  by (simp_all add: ex_member_def GetLeaderName_def GetMyName_def getQuorum_def GetAllNodeCount_def GetAllNodeNames_def gm_keys_def)

theorem leader_without_peers_steps_down_witness:
  "case heartbeat_ticks [(1, \<lambda>_. False), (2, \<lambda>_. False), (3, \<lambda>_. False)] 0
      ((ex_member 0)\<lparr> c_sate := Leader, c_leaderNode := Some 0 \<rparr>, Some newHeartbeatStreamManager) of
     (fails, c', _) \<Rightarrow> fails = 0 \<and> c_sate c' = Follower \<and> c_leaderNode c' = None"
  by (rule conjunct2 [OF leader_without_peers_steps_down]) (simp_all add: ex_leader_facts)

definition ex_follower :: cluster where
  "ex_follower = upd_node 1 (updateHeartbeat 1000) ((ex_member 1)\<lparr> c_leaderNode := Some 0, c_term := 3 \<rparr>)"

theorem follower_starts_election_iff_silent_witness:
  "fst (snd (heartbeat_tick 5000001000 (\<lambda>_. True) 0 (ex_follower, None)))"
proof -
  have "c_node ex_follower (c_self ex_follower) = updateHeartbeat 1000 (c_node (ex_member 1) 1)"
    by (simp add: ex_follower_def ex_member_def upd_node_def)
  from follower_starts_election_iff_silent [OF _ _ _ this, of 5000001000 "\<lambda>_. True" 0 None]
  show ?thesis by (simp add: ex_follower_def ex_member_def zeroTime_def upd_node_def)
qed

end
