(* ===== verification/Bytes_Conv.thy ===== *)
theory Bytes_Conv
  imports Go_Numbers "HOL-Library.Word"
begin

text \<open>
  \<^verbatim>\<open>pkg/tools/bytesconv\<close>: numbers and quoted text in HTTP messages. A byte slice is a \<open>string\<close>, whose characters
  are the 256 byte values. The lookup tables of \<^verbatim>\<open>bytesconv_table.go\<close> are the functions from which
  \<^verbatim>\<open>bytesconv_table_gen.go\<close> generates them. An \<open>int\<close> of the source is 64 bits wide.
\<close>

unbundle bit_operations_syntax

named_theorems byte_simps \<open>equations on characters and their codes\<close>

section \<open>Tables\<close>

definition Hex2intTable :: "char \<Rightarrow> nat" where
  "Hex2intTable c = (let i = of_char c in
     if 48 \<le> i \<and> i \<le> 57 then i - 48
     else if 97 \<le> i \<and> i \<le> 102 then i - 97 + 10
     else if 65 \<le> i \<and> i \<le> 70 then i - 65 + 10
     else 16)"

definition ToLowerTable :: "char \<Rightarrow> char" where
  "ToLowerTable c = (let i = of_char c :: nat in if 65 \<le> i \<and> i \<le> 90 then char_of (i + 32) else c)"

definition ToUpperTable :: "char \<Rightarrow> char" where
  "ToUpperTable c = (let i = of_char c :: nat in if 97 \<le> i \<and> i \<le> 122 then char_of (i - 32) else c)"

definition QuotedArgShouldEscapeTable :: "char \<Rightarrow> bool" where
  "QuotedArgShouldEscapeTable c = (let i = of_char c :: nat in
     \<not> (97 \<le> i \<and> i \<le> 122 \<or> 65 \<le> i \<and> i \<le> 90 \<or> 48 \<le> i \<and> i \<le> 57 \<or> c \<in> set ''-_.~''))"

definition QuotedPathShouldEscapeTable :: "char \<Rightarrow> bool" where
  "QuotedPathShouldEscapeTable c = (QuotedArgShouldEscapeTable c \<and> c \<notin> set ''$&+,/:;=@'')"

definition upperhex :: string where
  "upperhex = ''0123456789ABCDEF''"

definition lowerhex :: string where
  "lowerhex = ''0123456789abcdef''"

definition LowercaseBytes :: "string \<Rightarrow> string" where
  "LowercaseBytes b = map ToLowerTable b"

section \<open>Quoting\<close>

definition quote_byte :: "char \<Rightarrow> string" where
  "quote_byte c = [CHR ''%'', upperhex ! (drop_bit 4 (of_char c)), upperhex ! (of_char c AND 15)]"

definition quoted_path_byte :: "char \<Rightarrow> string" where
  "quoted_path_byte c = (if QuotedPathShouldEscapeTable c then quote_byte c else [c])"

definition AppendQuotedPath :: "string \<Rightarrow> string \<Rightarrow> string" where
  "AppendQuotedPath dst src =
     (if src = ''*'' then dst @ ''*'' else fold (\<lambda>c dst. dst @ quoted_path_byte c) src dst)"

definition quoted_arg_byte :: "char \<Rightarrow> string" where
  "quoted_arg_byte c =
     (if c = CHR '' '' then ''+'' else if QuotedArgShouldEscapeTable c then quote_byte c else [c])"

definition AppendQuotedArg :: "string \<Rightarrow> string \<Rightarrow> string" where
  "AppendQuotedArg dst src = fold (\<lambda>c dst. dst @ quoted_arg_byte c) src dst"

section \<open>Numbers\<close>

datatype conv_error = ErrEmptyInt | ErrUnexpectedFirstChar | ErrUnexpectedTrailingChar | ErrTooLongInt
  | ErrEmptyHexNum | ErrTooLargeHexNum | ErrRead

lemma drop_nibble_less [termination_simp]: "0 < n \<Longrightarrow> drop_bit 4 n < (n :: nat)"
  by (simp add: drop_bit_eq_div)

fun hex_len_loop :: "nat \<Rightarrow> nat \<Rightarrow> nat" where
  "hex_len_loop i n = (if n > 0 then hex_len_loop (i + 1) (drop_bit 4 n) else i)"

declare hex_len_loop.simps [simp del]

definition EncodedIntHexLen :: "nat \<Rightarrow> nat" where
  "EncodedIntHexLen n = (if n = 0 then 1 else hex_len_loop 0 n)"

text \<open>The digits are written from the end of the array, so each one goes in front of those before.\<close>

fun hex_digits_loop :: "nat \<Rightarrow> string \<Rightarrow> string" where
  "hex_digits_loop n tmp = (if n > 0 then hex_digits_loop (drop_bit 4 n) (lowerhex ! (n AND 15) # tmp) else tmp)"

declare hex_digits_loop.simps [simp del]

definition AppendIntHex :: "string \<Rightarrow> nat \<Rightarrow> string" where
  "AppendIntHex b n = (if n = 0 then b @ ''0'' else b @ hex_digits_loop n [])"

definition maxHexIntChars :: nat where
  "maxHexIntChars = 15"

text \<open>
  The reader is the list of bytes that it still delivers; \<open>Peek\<close> fails at its end. The result is the number
  or an error, and what the reader is left with.
\<close>

fun read_hex_loop :: "nat \<Rightarrow> nat \<Rightarrow> string \<Rightarrow> (conv_error + nat) \<times> string" where
  "read_hex_loop n i [] = (if i > 0 then Inr n else Inl ErrRead, [])"
| "read_hex_loop n i (c # r) =
     (let k = Hex2intTable c in
      if k = 16 then (if i = 0 then (Inl ErrEmptyHexNum, r) else (Inr n, c # r))
      else if i \<ge> maxHexIntChars then (Inl ErrTooLargeHexNum, r)
      else read_hex_loop ((push_bit 4 n) OR k) (i + 1) r)"

definition ReadHexInt :: "string \<Rightarrow> (conv_error + nat) \<times> string" where
  "ReadHexInt r = read_hex_loop 0 0 r"

fun parse_uint_loop :: "int \<Rightarrow> nat \<Rightarrow> string \<Rightarrow> int \<times> nat \<times> conv_error option" where
  "parse_uint_loop v i [] = (v, i, None)"
| "parse_uint_loop v i (c # b) =
     (let k = (of_char c + 208) mod 256 :: nat in
      if k > 9 then (if i = 0 then (- 1, i, Some ErrUnexpectedFirstChar) else (v, i, None))
      else
        let vNew = wrap64 (10 * v + int k) in
        if vNew < v then (- 1, i, Some ErrTooLongInt)
        else parse_uint_loop vNew (i + 1) b)"

definition ParseUintBuf :: "string \<Rightarrow> int \<times> nat \<times> conv_error option" where
  "ParseUintBuf b = (if b = [] then (- 1, 0, Some ErrEmptyInt) else parse_uint_loop 0 0 b)"

definition ParseUint :: "string \<Rightarrow> int \<times> conv_error option" where
  "ParseUint buf =
     (let (v, n, err) = ParseUintBuf buf in
      if n \<noteq> length buf then (- 1, Some ErrUnexpectedTrailingChar) else (v, err))"

fun append_uint_loop :: "nat \<Rightarrow> string \<Rightarrow> string" where
  "append_uint_loop n buf =
     (if n \<ge> 10 then let q = n div 10 in append_uint_loop q (char_of (48 + (n - q * 10)) # buf)
      else char_of (48 + n) # buf)"

declare append_uint_loop.simps [simp del]

text \<open>\<open>None\<close> is the panic.\<close>

definition AppendUint :: "string \<Rightarrow> int \<Rightarrow> string option" where
  "AppendUint dst n = (if n < 0 then None else Some (dst @ append_uint_loop (nat n) []))"

section \<open>Characters\<close>

lemma of_char_less [simp]: "of_char c < (256 :: nat)"
  by (metis of_char_mod_256 mod_less_divisor zero_less_numeral)

lemma char_code_inject [byte_simps]: "(of_char c :: nat) = of_char d \<longleftrightarrow> c = d"
  by simp

lemma nibble_join: "b < 16 \<Longrightarrow> (push_bit 4 a) OR b = 16 * a + (b :: nat)"
proof -
  assume b: "b < 16"
  have "take_bit 4 b = b" using b by (simp add: take_bit_nat_eq_self)
  then have "(push_bit 4 a) AND b = 0" by (metis and.commute bit_eq_iff bit_and_iff bit_push_bit_iff bit_take_bit_iff bit_0_eq bot_apply not_less bot_bool_def)
  then have "(push_bit 4 a) OR b = push_bit 4 a + b" by (simp add: disjunctive_add_eq_or)
  then show ?thesis by (simp add: push_bit_eq_mult)
qed

lemma hex_digit_lookup:
  assumes "k < 16"
  shows "Hex2intTable (upperhex ! k) = k" "Hex2intTable (lowerhex ! k) = k" "upperhex ! k \<notin> set ''%+&= ''"
proof -
  have "\<forall>k \<in> set [0..<16]. Hex2intTable (upperhex ! k) = k \<and> Hex2intTable (lowerhex ! k) = k \<and> upperhex ! k \<notin> set ''%+&= ''"
    by code_simp
  then show "Hex2intTable (upperhex ! k) = k" "Hex2intTable (lowerhex ! k) = k" "upperhex ! k \<notin> set ''%+&= ''"
    using assms by simp_all
qed

lemma nibbles [byte_simps]: "drop_bit 4 n = n div (16 :: nat)" "n AND 15 = n mod (16 :: nat)"
proof -
  show "drop_bit 4 n = n div (16 :: nat)" by (simp add: drop_bit_eq_div)
  have "n AND mask 4 = n mod (16 :: nat)" by (simp add: take_bit_eq_mod flip: take_bit_eq_mask)
  then show "n AND 15 = n mod (16 :: nat)" by (simp add: mask_numeral)
qed

lemma fold_append_map: "fold (\<lambda>c dst. dst @ f c) src dst = dst @ concat (map f src)"
  by (induction src arbitrary: dst) simp_all

lemma AppendQuotedArg_concat: "AppendQuotedArg dst src = dst @ concat (map quoted_arg_byte src)"
  by (simp add: AppendQuotedArg_def fold_append_map)

lemma AppendQuotedPath_concat:
  "AppendQuotedPath dst src = dst @ (if src = ''*'' then ''*'' else concat (map quoted_path_byte src))"
  by (simp add: AppendQuotedPath_def fold_append_map)

section \<open>Decimal numbers\<close>

lemma append_uint_loop_dec: "append_uint_loop n buf = nat_dec n @ buf"
proof (induction n buf rule: append_uint_loop.induct)
  case (1 n buf)
  have "n - n div 10 * 10 = n mod 10" by (simp add: minus_div_mult_eq_mod)
  then show ?case
    using 1 by (cases "n \<ge> 10")
      (simp_all add: append_uint_loop.simps [of n] nat_dec.simps [of n] dec_digit_def Let_def)
qed

definition digit_of :: "char \<Rightarrow> nat" where
  "digit_of c = (of_char c + 208) mod 256"

definition dec_text :: "string \<Rightarrow> bool" where
  "dec_text s \<longleftrightarrow> (\<forall>c \<in> set s. digit_of c \<le> 9)"

definition dec_value :: "int \<Rightarrow> string \<Rightarrow> int" where
  "dec_value v s = foldl (\<lambda>v c. 10 * v + int (digit_of c)) v s"

lemma dec_text_simps [simp]: "dec_text []" "dec_text (c # s) \<longleftrightarrow> digit_of c \<le> 9 \<and> dec_text s"
  "dec_text (s @ t) \<longleftrightarrow> dec_text s \<and> dec_text t"
  by (auto simp: dec_text_def)

lemma dec_value_simps [simp]: "dec_value v [] = v" "dec_value v (c # s) = dec_value (10 * v + int (digit_of c)) s"
  "dec_value v (s @ t) = dec_value (dec_value v s) t"
  by (simp_all add: dec_value_def)

lemma digit_of_dec_digit [simp]: "d < 10 \<Longrightarrow> digit_of (dec_digit d) = d"
  by (simp add: digit_of_def dec_digit_def mod_add_left_eq of_char_of)

lemma nat_dec_value: "dec_text (nat_dec n) \<and> dec_value 0 (nat_dec n) = int n"
proof (induction n rule: nat_dec.induct)
  case (1 n)
  show ?case
  proof (cases "n < 10")
    case True
    then show ?thesis by (simp add: nat_dec.simps [of n])
  next
    case False
    have "10 * int (n div 10) + int (n mod 10) = int n"
      by (metis div_mult_mod_eq mult.commute of_nat_add of_nat_mult of_nat_numeral)
    then show ?thesis using False 1 by (simp add: nat_dec.simps [of n])
  qed
qed

lemma dec_value_mono: "0 \<le> v \<Longrightarrow> v \<le> dec_value v s"
proof (induction s arbitrary: v)
  case (Cons c s)
  then have "10 * v + int (digit_of c) \<le> dec_value (10 * v + int (digit_of c)) s" by simp
  then show ?case using Cons(2) by simp
qed simp

text \<open>A decimal text is read up to the first other byte, as long as its value fits.\<close>

lemma parse_uint_loop_text:
  "\<lbrakk> dec_text s; 0 \<le> v; dec_value v s < 9223372036854775808 \<rbrakk> \<Longrightarrow>
   parse_uint_loop v i (s @ r) = parse_uint_loop (dec_value v s) (i + length s) r"
proof (induction s arbitrary: v i)
  case (Cons c s)
  let ?v = "10 * v + int (digit_of c)"
  have "0 \<le> ?v" "?v \<le> dec_value ?v s" using Cons(3) by (auto intro: dec_value_mono)
  then have "wrap64 ?v = ?v" using Cons(4) by (intro wrap64_id) auto
  then show ?case using Cons \<open>0 \<le> ?v\<close> by (simp add: Let_def digit_of_def)
qed simp

lemma ParseUint_text:
  assumes "s \<noteq> []" "dec_text s" "dec_value 0 s < 9223372036854775808"
  shows "ParseUint s = (dec_value 0 s, None)"
  using parse_uint_loop_text [OF assms(2) _ assms(3), of 0 "[]"] assms(1) by (simp add: ParseUint_def ParseUintBuf_def)

lemma ParseUint_trailing:
  assumes "s \<noteq> []" "dec_text s" "dec_value 0 s < 9223372036854775808" "9 < digit_of c"
  shows "ParseUint (s @ c # r) = (- 1, Some ErrUnexpectedTrailingChar)"
  using parse_uint_loop_text [OF assms(2) _ assms(3), of 0 "c # r"] assms(1,4)
  by (simp add: ParseUint_def ParseUintBuf_def digit_of_def)

lemma digit_of_char: "digit_of c \<le> 9 \<longleftrightarrow> c \<in> set ''0123456789''"
proof
  assume d: "digit_of c \<le> 9"
  have "of_char c = 48 + digit_of c"
  proof (cases "of_char c < (48 :: nat)")
    case True
    then show ?thesis using d by (simp add: digit_of_def)
  next
    case False
    then have "of_char c + 208 = (of_char c - 48 :: nat) + 256" by simp
    then have "digit_of c = (of_char c - 48) mod 256" unfolding digit_of_def by (metis mod_add_self2)
    also have "\<dots> = of_char c - 48" by (simp add: less_imp_diff_less)
    finally show ?thesis using False by simp
  qed
  then have "c = char_of (48 + digit_of c)" by (metis char_of_char)
  moreover have "digit_of c \<in> set [0..<10]" using d by simp
  moreover have "\<forall>d \<in> set [0..<10]. char_of (48 + d) \<in> set ''0123456789''" by code_simp
  ultimately show "c \<in> set ''0123456789''" by metis
qed (auto simp: digit_of_def)

lemma nat_dec_length_le: "n < 10 ^ k \<Longrightarrow> 0 < k \<Longrightarrow> length (nat_dec n) \<le> k"
proof (induction k arbitrary: n)
  case (Suc k)
  show ?case
  proof (cases "n < 10")
    case False
    then have "0 < k" "n div 10 < 10 ^ k" using Suc(2) by (cases k; auto simp: less_mult_imp_div_less)+
    then show ?thesis using Suc(1) False by (simp add: nat_dec.simps [of n])
  qed (simp add: nat_dec.simps)
qed simp

section \<open>Hexadecimal numbers\<close>

fun nat_hex :: "nat \<Rightarrow> string" where
  "nat_hex n = (if n = 0 then [] else nat_hex (n div 16) @ [lowerhex ! (n mod 16)])"

declare nat_hex.simps [simp del]

lemma nat_hex_0 [simp]: "nat_hex 0 = []"
  by (simp add: nat_hex.simps)

lemma hex_digits_loop_eq: "hex_digits_loop n tmp = nat_hex n @ tmp"
  by (induction n tmp rule: hex_digits_loop.induct)
    (simp add: hex_digits_loop.simps nat_hex.simps nibbles)

lemma hex_len_loop_eq: "hex_len_loop i n = i + length (nat_hex n)"
  by (induction i n rule: hex_len_loop.induct) (simp add: hex_len_loop.simps nat_hex.simps nibbles)

lemma AppendIntHex_eq: "AppendIntHex b n = b @ (if n = 0 then ''0'' else nat_hex n)"
  by (simp add: AppendIntHex_def hex_digits_loop_eq)

lemma EncodedIntHexLen_eq: "EncodedIntHexLen n = length (AppendIntHex [] n)"
  by (simp add: EncodedIntHexLen_def hex_len_loop_eq AppendIntHex_eq)

lemma nat_hex_length: "n < 16 ^ k \<Longrightarrow> length (nat_hex n) \<le> k"
proof (induction k arbitrary: n)
  case (Suc k)
  then have "n div 16 < 16 ^ k" by (simp add: less_mult_imp_div_less)
  then show ?case using Suc(1) by (subst nat_hex.simps) simp
qed (simp add: nat_hex.simps)

definition hex_value :: "nat \<Rightarrow> string \<Rightarrow> nat" where
  "hex_value v s = foldl (\<lambda>v c. 16 * v + Hex2intTable c) v s"

lemma hex_value_simps [simp]: "hex_value v [] = v" "hex_value v (c # s) = hex_value (16 * v + Hex2intTable c) s"
  "hex_value v (s @ t) = hex_value (hex_value v s) t"
  by (simp_all add: hex_value_def)

lemma nat_hex_value: "hex_value 0 (nat_hex n) = n \<and> (\<forall>c \<in> set (nat_hex n). Hex2intTable c < 16)"
proof (induction n rule: nat_hex.induct)
  case (1 n)
  then show ?case by (cases "n = 0") (simp_all add: nat_hex.simps [of n] hex_digit_lookup)
qed

lemma read_hex_loop_text:
  "\<lbrakk> \<forall>c \<in> set s. Hex2intTable c < 16; i + length s \<le> maxHexIntChars \<rbrakk> \<Longrightarrow>
   read_hex_loop v i (s @ r) = read_hex_loop (hex_value v s) (i + length s) r"
  by (induction s arbitrary: v i) (simp_all add: Let_def nibble_join)

text \<open>
  hexadecimal chunk sizes survive the way from the writer to the reader. A number of at most 15
  hexadecimal digits that AppendIntHex writes, followed by the end of the input or by a byte that is no hexadecimal
  digit, is read back by ReadHexInt, which leaves the rest of the input in the reader; and
  EncodedIntHexLen is the number of bytes written.
\<close>

theorem hex_int_roundtrip:
  assumes "n < 16 ^ 15" and "r = [] \<or> Hex2intTable (hd r) = 16"
  shows "ReadHexInt (AppendIntHex [] n @ r) = (Inr n, r) \<and> EncodedIntHexLen n = length (AppendIntHex [] n)"
proof -
  let ?s = "if n = 0 then ''0'' else nat_hex n"
  have z: "Hex2intTable (CHR ''0'') = 0" by (simp add: Hex2intTable_def)
  have s: "hex_value 0 ?s = n" "\<forall>c \<in> set ?s. Hex2intTable c < 16" using nat_hex_value [of n] z by auto
  have l: "0 + length ?s \<le> maxHexIntChars" using nat_hex_length [OF assms(1)] by (simp add: maxHexIntChars_def)
  have "?s \<noteq> []" by (auto simp: nat_hex.simps [of n])
  then have pos: "0 < length ?s" by simp
  have "ReadHexInt (?s @ r) = read_hex_loop n (length ?s) r"
    using read_hex_loop_text [OF s(2) l, of 0 r] s(1) by (simp add: ReadHexInt_def)
  also have "\<dots> = (Inr n, r)" using assms(2) pos by (cases r) (auto simp: Let_def)
  finally show ?thesis by (simp add: AppendIntHex_eq EncodedIntHexLen_eq)
qed

theorem hex_int_roundtrip_witness:
  "ReadHexInt (AppendIntHex [] 511 @ [CHR 0x0D, CHR 0x0A]) = (Inr 511, [CHR 0x0D, CHR 0x0A]) \<and> EncodedIntHexLen 511 = 3"
  using hex_int_roundtrip [of 511 "[CHR 0x0D, CHR 0x0A]"]
  by (simp add: Hex2intTable_def AppendIntHex_eq nat_hex.simps)

text \<open>
  decimal numbers survive the way from the writer to the reader. AppendUint writes every non-negative
  int in at most 19 bytes (its array has 20), ParseUint reads it back, and with a byte behind it that is no digit
  ParseUint reports the trailing byte.
\<close>

theorem uint_roundtrip:
  assumes "0 \<le> n" and "n < 9223372036854775808" and "c \<notin> set ''0123456789''"
  shows "(case AppendUint [] n of
     None \<Rightarrow> False
   | Some s \<Rightarrow> length s \<le> 19 \<and> ParseUint s = (n, None) \<and> ParseUint (s @ c # r) = (- 1, Some ErrUnexpectedTrailingChar))"
proof -
  have t: "dec_text (nat_dec (nat n))" "dec_value 0 (nat_dec (nat n)) = n" using nat_dec_value [of "nat n"] assms(1) by simp_all
  have "nat n < 10 ^ 19" using assms by (simp add: nat_less_iff)
  then have "length (nat_dec (nat n)) \<le> 19" by (rule nat_dec_length_le) simp
  moreover have "9 < digit_of c" using assms(3) digit_of_char [of c] by (simp only: not_le [symmetric] not_False_eq_True)
  ultimately show ?thesis
    using ParseUint_text [OF _ t(1)] ParseUint_trailing [OF _ t(1)] assms t(2) by (simp add: AppendUint_def append_uint_loop_dec)
qed

theorem uint_roundtrip_witness:
  "case AppendUint [] 9223372036854775807 of
     None \<Rightarrow> False
   | Some s \<Rightarrow> length s \<le> 19 \<and> ParseUint s = (9223372036854775807, None) \<and>
       ParseUint (s @ CHR '' '' # []) = (- 1, Some ErrUnexpectedTrailingChar)"
  by (rule uint_roundtrip) simp_all

text \<open>
  the overflow test of ParseUint misses overflows. It compares the wrapped product with the number
  read so far, and a product that wraps past zero can still be larger: the text of a number above the largest
  int is accepted, with another value.
\<close>

theorem parse_uint_misses_overflow:
  "ParseUint ''21000000000000000000'' = (2553255926290448384, None)"
  by (simp add: ParseUint_def ParseUintBuf_def Let_def wrap_at_def)

end
