(* ===== verification/Query_Args.thy ===== *)
theory Query_Args
  imports Bytes_Conv
begin

text \<open>
  \<^verbatim>\<open>web/protocol/args.go\<close>: the query arguments of a request. The slice of arguments has spare elements between its
  length and its capacity, which \<open>allocArg\<close> hands out again with their old contents, so the model keeps
  them: \<open>av_args\<close> are the elements in use and \<open>av_spare\<close> those behind them. A missing value is \<open>None\<close> where the
  source returns \<open>nil\<close>.
\<close>

section \<open>Decoding\<close>

fun decode_slow :: "string \<Rightarrow> string" where
  "decode_slow [] = []"
| "decode_slow (c # src) =
     (if c = CHR ''%'' then
        (case src of
           h # l # rest \<Rightarrow>
             let x2 = Hex2intTable l; x1 = Hex2intTable h in
             if x1 = 16 \<or> x2 = 16 then CHR ''%'' # decode_slow src
             else char_of (push_bit 4 x1 OR x2) # decode_slow rest
         | _ \<Rightarrow> c # src)
      else if c = CHR ''+'' then CHR '' '' # decode_slow src
      else c # decode_slow src)"

definition decodeArgAppend :: "string \<Rightarrow> string \<Rightarrow> string" where
  "decodeArgAppend dst src =
     (if CHR ''%'' \<notin> set src \<and> CHR ''+'' \<notin> set src then dst @ src else dst @ decode_slow src)"

fun decode_slow_no_plus :: "string \<Rightarrow> string" where
  "decode_slow_no_plus [] = []"
| "decode_slow_no_plus (c # src) =
     (if c = CHR ''%'' then
        (case src of
           h # l # rest \<Rightarrow>
             let x2 = Hex2intTable l; x1 = Hex2intTable h in
             if x1 = 16 \<or> x2 = 16 then CHR ''%'' # decode_slow_no_plus src
             else char_of (push_bit 4 x1 OR x2) # decode_slow_no_plus rest
         | _ \<Rightarrow> c # src)
      else c # decode_slow_no_plus src)"

definition decodeArgAppendNoPlus :: "string \<Rightarrow> string \<Rightarrow> string" where
  "decodeArgAppendNoPlus dst src =
     (if CHR ''%'' \<notin> set src then dst @ src else dst @ decode_slow_no_plus src)"

section \<open>Arguments\<close>

record argsKV =
  kv_key :: string
  kv_value :: string
  kv_noValue :: bool

record Args =
  av_args :: "argsKV list"
  av_spare :: "argsKV list"

definition new_args :: Args where
  "new_args = \<lparr> av_args = [], av_spare = [] \<rparr>"

definition empty_kv :: argsKV where
  "empty_kv = \<lparr> kv_key = [], kv_value = [], kv_noValue = False \<rparr>"

definition allocArg :: "Args \<Rightarrow> Args" where
  "allocArg h = (case av_spare h of
     kv # sp \<Rightarrow> \<lparr> av_args = av_args h @ [kv], av_spare = sp \<rparr>
   | [] \<Rightarrow> h\<lparr> av_args := av_args h @ [empty_kv] \<rparr>)"

definition releaseArg :: "Args \<Rightarrow> Args" where
  "releaseArg h = \<lparr> av_args = butlast (av_args h), av_spare = last (av_args h) # av_spare h \<rparr>"

definition write_last :: "argsKV \<Rightarrow> Args \<Rightarrow> Args" where
  "write_last kv h = h\<lparr> av_args := butlast (av_args h) @ [kv] \<rparr>"

definition args_Reset :: "Args \<Rightarrow> Args" where
  "args_Reset a = \<lparr> av_args = [], av_spare = av_args a @ av_spare a \<rparr>"

definition set_kv :: "string \<Rightarrow> bool \<Rightarrow> argsKV \<Rightarrow> argsKV" where
  "set_kv v noValue kv = kv\<lparr> kv_value := (if noValue then [] else v), kv_noValue := noValue \<rparr>"

definition appendArg :: "string \<Rightarrow> string \<Rightarrow> bool \<Rightarrow> Args \<Rightarrow> Args" where
  "appendArg key v noValue h =
     (let h1 = allocArg h; kv = last (av_args h1)
      in write_last (set_kv v noValue (kv\<lparr> kv_key := key \<rparr>)) h1)"

fun set_first :: "string \<Rightarrow> (argsKV \<Rightarrow> argsKV) \<Rightarrow> argsKV list \<Rightarrow> argsKV list option" where
  "set_first key f [] = None"
| "set_first key f (kv # h) = (if key = kv_key kv then Some (f kv # h) else map_option ((#) kv) (set_first key f h))"

definition setArg :: "string \<Rightarrow> string \<Rightarrow> bool \<Rightarrow> Args \<Rightarrow> Args" where
  "setArg key v noValue h =
     (case set_first key (set_kv v noValue) (av_args h) of
        Some xs \<Rightarrow> h\<lparr> av_args := xs \<rparr>
      | None \<Rightarrow> appendArg key v noValue h)"

fun updateArgBytes :: "string \<Rightarrow> string \<Rightarrow> argsKV list \<Rightarrow> argsKV list" where
  "updateArgBytes key v [] = []"
| "updateArgBytes key v (kv # h) =
     (if kv_noValue kv \<and> key = kv_key kv then kv\<lparr> kv_value := v, kv_noValue := False \<rparr> # h
      else kv # updateArgBytes key v h)"

text \<open>
  \<open>delAllArgs\<close> walks the slice with an index; a deleted element is moved behind the shortened slice, where
  it becomes the first spare one.
\<close>

fun delAllArgs_loop :: "string \<Rightarrow> argsKV list \<Rightarrow> argsKV list \<Rightarrow> argsKV list \<Rightarrow> Args" where
  "delAllArgs_loop key kept [] sp = \<lparr> av_args = kept, av_spare = sp \<rparr>"
| "delAllArgs_loop key kept (kv # h) sp =
     (if key = kv_key kv then delAllArgs_loop key kept h (kv # sp)
      else delAllArgs_loop key (kept @ [kv]) h sp)"

definition delAllArgs :: "string \<Rightarrow> Args \<Rightarrow> Args" where
  "delAllArgs key a = delAllArgs_loop key [] (av_args a) (av_spare a)"

definition args_Set :: "string \<Rightarrow> string \<Rightarrow> Args \<Rightarrow> Args" where
  "args_Set key v a = setArg key v False a"

definition args_Add :: "string \<Rightarrow> string \<Rightarrow> Args \<Rightarrow> Args" where
  "args_Add key v a = appendArg key v False a"

definition args_Del :: "string \<Rightarrow> Args \<Rightarrow> Args" where
  "args_Del key a = delAllArgs key a"

fun copy_over :: "argsKV list \<Rightarrow> argsKV list \<Rightarrow> argsKV list" where
  "copy_over dst [] = []"
| "copy_over [] (s # src) = set_kv (kv_value s) (kv_noValue s) (empty_kv\<lparr> kv_key := kv_key s \<rparr>) # copy_over [] src"
| "copy_over (d # dst) (s # src) = set_kv (kv_value s) (kv_noValue s) (d\<lparr> kv_key := kv_key s \<rparr>) # copy_over dst src"

text \<open>
  \<open>dst\<close> is given with all the elements of its capacity; when there are too few of them, new ones are allocated
  and the spare elements of the old slice are dropped.
\<close>

definition copyArgs :: "Args \<Rightarrow> argsKV list \<Rightarrow> Args" where
  "copyArgs dst src =
     (let cells = av_args dst @ av_spare dst in
      if length cells < length src
      then \<lparr> av_args = copy_over (av_args dst) src, av_spare = [] \<rparr>
      else \<lparr> av_args = copy_over cells src, av_spare = drop (length src) cells \<rparr>)"

definition args_CopyTo :: "Args \<Rightarrow> Args \<Rightarrow> Args" where
  "args_CopyTo a dst = copyArgs (args_Reset dst) (av_args a)"

fun peekArgStr :: "argsKV list \<Rightarrow> string \<Rightarrow> string option" where
  "peekArgStr [] k = None"
| "peekArgStr (kv # h) k = (if kv_key kv = k then Some (kv_value kv) else peekArgStr h k)"

definition args_Peek :: "Args \<Rightarrow> string \<Rightarrow> string option" where
  "args_Peek a key = peekArgStr (av_args a) key"

fun peekArgStrExists :: "argsKV list \<Rightarrow> string \<Rightarrow> string \<times> bool" where
  "peekArgStrExists [] k = ([], False)"
| "peekArgStrExists (kv # h) k = (if kv_key kv = k then (kv_value kv, True) else peekArgStrExists h k)"

definition args_PeekExists :: "Args \<Rightarrow> string \<Rightarrow> string \<times> bool" where
  "args_PeekExists a key = peekArgStrExists (av_args a) key"

fun hasArg :: "argsKV list \<Rightarrow> string \<Rightarrow> bool" where
  "hasArg [] key = False"
| "hasArg (kv # h) key = (if key = kv_key kv then True else hasArg h key)"

definition args_Has :: "Args \<Rightarrow> string \<Rightarrow> bool" where
  "args_Has a key = hasArg (av_args a) key"

definition visitArgs :: "(string \<Rightarrow> string \<Rightarrow> 's \<Rightarrow> 's) \<Rightarrow> argsKV list \<Rightarrow> 's \<Rightarrow> 's" where
  "visitArgs f args s = fold (\<lambda>kv. f (kv_key kv) (kv_value kv)) args s"

definition args_PeekAll :: "Args \<Rightarrow> string \<Rightarrow> string list" where
  "args_PeekAll a key = visitArgs (\<lambda>k v vals. if k = key then vals @ [v] else vals) (av_args a) []"

definition args_Len :: "Args \<Rightarrow> nat" where
  "args_Len a = length (av_args a)"

section \<open>Printing\<close>

definition append_kv :: "argsKV \<Rightarrow> string \<Rightarrow> string" where
  "append_kv kv dst =
     (let dst1 = AppendQuotedArg dst (kv_key kv) in
      if kv_noValue kv then dst1
      else let dst2 = dst1 @ ''='' in
           if length (kv_value kv) > 0 then AppendQuotedArg dst2 (kv_value kv) else dst2)"

fun AppendBytes_loop :: "argsKV list \<Rightarrow> string \<Rightarrow> string" where
  "AppendBytes_loop [] dst = dst"
| "AppendBytes_loop (kv # h) dst =
     (let dst1 = append_kv kv dst in
      AppendBytes_loop h (if h \<noteq> [] then dst1 @ ''&'' else dst1))"

definition QueryString :: "Args \<Rightarrow> string" where
  "QueryString a = AppendBytes_loop (av_args a) []"

section \<open>Parsing\<close>

text \<open>
  \<open>next_loop b i isKey k kv\<close> is the loop of \<open>argsScanner.next\<close> from index \<open>i\<close> on, with what follows it. The result is
  the rest of the input and the scanned argument.
\<close>

function next_loop :: "string \<Rightarrow> nat \<Rightarrow> bool \<Rightarrow> nat \<Rightarrow> argsKV \<Rightarrow> string \<times> argsKV" where
  "next_loop b i isKey k kv =
     (if i < length b then
        let c = b ! i in
        if c = CHR ''='' then
          (if isKey then next_loop b (i + 1) False (i + 1) (kv\<lparr> kv_key := decodeArgAppend [] (take i b) \<rparr>)
           else next_loop b (i + 1) isKey k kv)
        else if c = CHR ''&'' then
          (drop (i + 1) b,
           if isKey then kv\<lparr> kv_key := decodeArgAppend [] (take i b), kv_value := [], kv_noValue := True \<rparr>
           else kv\<lparr> kv_value := decodeArgAppend [] (drop k (take i b)) \<rparr>)
        else next_loop b (i + 1) isKey k kv
      else
        ([], if isKey then kv\<lparr> kv_key := decodeArgAppend [] b, kv_value := [], kv_noValue := True \<rparr>
             else kv\<lparr> kv_value := decodeArgAppend [] (drop k b) \<rparr>))"
  by pat_completeness auto
termination by (relation "measure (\<lambda>(b, i, _, _, _). length b - i)") auto

declare next_loop.simps [simp del]

definition argsScanner_next :: "string \<Rightarrow> argsKV \<Rightarrow> (string \<times> argsKV) option" where
  "argsScanner_next b kv = (if length b = 0 then None else Some (next_loop b 0 True 0 (kv\<lparr> kv_noValue := False \<rparr>)))"

lemma next_loop_shorter: "b \<noteq> [] \<Longrightarrow> length (fst (next_loop b i isKey k kv)) < length b"
proof (induction b i isKey k kv rule: next_loop.induct)
  case (1 b i isKey k kv)
  then show ?case by (subst next_loop.simps) (simp add: Let_def)
qed

lemma argsScanner_next_shorter [termination_simp]: "argsScanner_next b kv = Some (b', kv') \<Longrightarrow> length b' < length b"
  using next_loop_shorter [of b 0 True 0 "kv\<lparr> kv_noValue := False \<rparr>"] by (auto simp: argsScanner_next_def split: if_splits)

fun ParseBytes_loop :: "string \<Rightarrow> Args \<Rightarrow> Args" where
  "ParseBytes_loop b h =
     (case argsScanner_next b (last (av_args h)) of
        None \<Rightarrow> h
      | Some (b', kv) \<Rightarrow>
          ParseBytes_loop b' (let h1 = write_last kv h in
            if length (kv_key kv) > 0 \<or> length (kv_value kv) > 0 then allocArg h1 else h1))"

declare ParseBytes_loop.simps [simp del]

definition ParseBytes :: "string \<Rightarrow> Args \<Rightarrow> Args" where
  "ParseBytes b a = releaseArg (ParseBytes_loop b (allocArg (args_Reset a)))"

section \<open>Decoding undoes quoting\<close>

text \<open>What a decoder has to do with one quoted byte, and that it then decodes every quoted text.\<close>

locale quoting =
  fixes quote :: "char \<Rightarrow> string" and unquote :: "string \<Rightarrow> string"
  assumes unquote_Nil: "unquote [] = []"
    and unquote_step: "unquote (quote c @ r) = c # unquote r"
begin

lemma unquote_quoted: "unquote (concat (map quote s)) = s"
  by (induction s) (simp_all add: unquote_Nil unquote_step)

lemma quote_inject: "concat (map quote s) = concat (map quote t) \<Longrightarrow> s = t"
  by (metis unquote_quoted)

end

lemma quote_byte_decode:
  "decode_slow (quote_byte c @ r) = c # decode_slow r" "decode_slow_no_plus (quote_byte c @ r) = c # decode_slow_no_plus r"
proof -
  have n: "drop_bit 4 (of_char c) < (16 :: nat)" "of_char c AND 15 < (16 :: nat)"
    using of_char_less [of c] by (simp_all add: nibbles less_mult_imp_div_less)
  have "16 * drop_bit 4 (of_char c) + (of_char c AND 15) = (of_char c :: nat)"
    by (simp add: nibbles)
  then have "char_of (push_bit 4 (drop_bit 4 (of_char c)) OR (of_char c AND 15 :: nat)) = c"
    by (simp add: nibble_join [OF n(2)])
  then show "decode_slow (quote_byte c @ r) = c # decode_slow r" "decode_slow_no_plus (quote_byte c @ r) = c # decode_slow_no_plus r"
    using n by (simp_all add: quote_byte_def Let_def hex_digit_lookup)
qed

lemma quoted_plain:
  "\<not> QuotedArgShouldEscapeTable c \<Longrightarrow> c \<notin> set ''%+&= ''" "\<not> QuotedPathShouldEscapeTable c \<Longrightarrow> c \<noteq> CHR ''%''"
  by (auto simp: QuotedArgShouldEscapeTable_def QuotedPathShouldEscapeTable_def Let_def)

lemma quoted_special [simp]:
  "QuotedArgShouldEscapeTable (CHR ''+'')" "QuotedArgShouldEscapeTable (CHR ''%'')" "QuotedPathShouldEscapeTable (CHR ''%'')"
  by (simp_all add: QuotedArgShouldEscapeTable_def QuotedPathShouldEscapeTable_def)

interpretation arg: quoting quoted_arg_byte decode_slow
  by unfold_locales (auto simp: quoted_arg_byte_def quote_byte_decode dest: quoted_plain)

interpretation path: quoting quoted_path_byte decode_slow_no_plus
  by unfold_locales (auto simp: quoted_path_byte_def quote_byte_decode dest: quoted_plain)

text \<open>The fast paths are special cases of the loops.\<close>

lemma decode_slow_plain: "CHR ''%'' \<notin> set src \<Longrightarrow> CHR ''+'' \<notin> set src \<Longrightarrow> decode_slow src = src"
  by (induction src) auto

lemma decode_slow_no_plus_plain: "CHR ''%'' \<notin> set src \<Longrightarrow> decode_slow_no_plus src = src"
  by (induction src) auto

lemma decodeArgAppend_eq: "decodeArgAppend dst src = dst @ decode_slow src"
  by (simp add: decodeArgAppend_def decode_slow_plain)

lemma decodeArgAppendNoPlus_eq: "decodeArgAppendNoPlus dst src = dst @ decode_slow_no_plus src"
  by (simp add: decodeArgAppendNoPlus_def decode_slow_no_plus_plain)

lemma decode_quoted_path: "decodeArgAppendNoPlus [] (AppendQuotedPath [] s) = s"
  by (simp add: decodeArgAppendNoPlus_eq AppendQuotedPath_concat path.unquote_quoted)

section \<open>What the scanner reads\<close>

definition kv_of :: "string \<Rightarrow> argsKV" where
  "kv_of seg =
     (if CHR ''='' \<in> set seg
      then \<lparr> kv_key = decode_slow (takeWhile (\<lambda>c. c \<noteq> CHR ''='') seg),
             kv_value = decode_slow (tl (dropWhile (\<lambda>c. c \<noteq> CHR ''='') seg)), kv_noValue = False \<rparr>
      else \<lparr> kv_key = decode_slow seg, kv_value = [], kv_noValue = True \<rparr>)"

abbreviation seg_of :: "string \<Rightarrow> string" where
  "seg_of b \<equiv> takeWhile (\<lambda>c. c \<noteq> CHR ''&'') b"

text \<open>The state of the loop at index \<open>i\<close> inside the first segment.\<close>

definition scan_inv :: "string \<Rightarrow> nat \<Rightarrow> bool \<Rightarrow> nat \<Rightarrow> argsKV \<Rightarrow> bool" where
  "scan_inv b i isKey k kv \<longleftrightarrow> i \<le> length (seg_of b) \<and> \<not> kv_noValue kv \<and>
     (isKey \<longleftrightarrow> CHR ''='' \<notin> set (take i b)) \<and>
     (\<not> isKey \<longrightarrow> kv_key kv = decode_slow (takeWhile (\<lambda>c. c \<noteq> CHR ''='') (seg_of b)) \<and>
        k = Suc (length (takeWhile (\<lambda>c. c \<noteq> CHR ''='') (seg_of b))))"

lemma takeWhile_at:
  assumes "i < length b" "\<not> P (b ! i)" "\<forall>j < i. P (b ! j)"
  shows "takeWhile P b = take i b"
  using assms by (metis takeWhile_eq_take_P_nth less_imp_le_nat)

lemma next_loop_reads:
  "scan_inv b i isKey k kv \<Longrightarrow> next_loop b i isKey k kv = (drop (Suc (length (seg_of b))) b, kv_of (seg_of b))"
proof (induction b i isKey k kv rule: next_loop.induct)
  case (1 b i isKey k kv)
  let ?seg = "seg_of b"
  have i: "i \<le> length ?seg" "\<not> kv_noValue kv" "isKey \<longleftrightarrow> CHR ''='' \<notin> set (take i b)"
    and k: "\<not> isKey \<Longrightarrow> kv_key kv = decode_slow (takeWhile (\<lambda>c. c \<noteq> CHR ''='') ?seg) \<and>
        k = Suc (length (takeWhile (\<lambda>c. c \<noteq> CHR ''='') ?seg))"
    using 1(4) by (auto simp: scan_inv_def)
  show ?case
  proof (cases "i = length ?seg")
    case True
    have seg: "?seg = take i b" using True by (metis takeWhile_eq_take)
    have amp: "i < length b \<Longrightarrow> b ! i = CHR ''&''" using True nth_length_takeWhile [of "\<lambda>c. c \<noteq> CHR ''&''" b] by auto
    have d: "drop k (take i b) = tl (dropWhile (\<lambda>c. c \<noteq> CHR ''='') ?seg)" if "\<not> isKey"
      using k [OF that] seg by (metis dropWhile_eq_drop drop_Suc tl_drop)
    have kv: "(if isKey then kv\<lparr> kv_key := decodeArgAppend [] (take i b), kv_value := [], kv_noValue := True \<rparr>
           else kv\<lparr> kv_value := decodeArgAppend [] (drop k (take i b)) \<rparr>) = kv_of ?seg"
      using i(2,3) k d seg by (cases kv) (auto simp: kv_of_def decodeArgAppend_eq)
    show ?thesis
    proof (cases "i < length b")
      case True': True
      then show ?thesis using kv amp True by (subst next_loop.simps) (simp add: Let_def)
    next
      case False
      then have t: "take i b = b" and "drop (Suc (length ?seg)) b = []" using True by simp_all
      moreover have "next_loop b i isKey k kv =
          ([], if isKey then kv\<lparr> kv_key := decodeArgAppend [] b, kv_value := [], kv_noValue := True \<rparr>
               else kv\<lparr> kv_value := decodeArgAppend [] (drop k b) \<rparr>)"
        using False by (subst next_loop.simps) simp
      ultimately show ?thesis using kv unfolding t by simp
    qed
  next
    case False
    then have il: "i < length ?seg" using i by simp
    then have ib: "i < length b" and nb: "b ! i = ?seg ! i"
      by (simp_all add: takeWhile_nth order_less_le_trans [OF _ length_takeWhile_le])
    have na: "b ! i \<noteq> CHR ''&''" using set_takeWhileD [OF nth_mem [OF il]] nb by simp
    have step: "take (Suc i) b = take i b @ [b ! i]" using ib by (simp add: take_Suc_conv_app_nth)
    show ?thesis
    proof (cases "b ! i = CHR ''='' \<and> isKey")
      case True
      have seg: "take i b = take i ?seg" using il by (metis takeWhile_eq_take take_take min.absorb1 less_imp_le_nat)
      have key: "takeWhile (\<lambda>c. c \<noteq> CHR ''='') ?seg = take i ?seg"
      proof (rule takeWhile_at)
        show "\<forall>j < i. ?seg ! j \<noteq> CHR ''=''"
          using True i(3) seg il by (metis in_set_conv_nth length_take min.absorb4 nth_take)
      qed (use True il nb in auto)
      have "scan_inv b (i + 1) False (i + 1) (kv\<lparr> kv_key := decodeArgAppend [] (take i b) \<rparr>)"
        using il i True step key seg by (simp add: scan_inv_def decodeArgAppend_eq)
      from 1(1) [OF ib refl _ _ this] show ?thesis using True ib by (subst next_loop.simps) (simp add: Let_def)
    next
      case False
      have "scan_inv b (i + 1) isKey k kv"
        using il i k False step by (auto simp: scan_inv_def)
      then have "next_loop b (i + 1) isKey k kv = (drop (Suc (length ?seg)) b, kv_of ?seg)"
        using 1(2,3) ib na False by (cases "b ! i = CHR ''=''") auto
      then show ?thesis using False ib na by (subst next_loop.simps) (auto simp: Let_def)
    qed
  qed
qed

lemma argsScanner_next_reads:
  "argsScanner_next b kv = (if b = [] then None else Some (drop (Suc (length (seg_of b))) b, kv_of (seg_of b)))"
  by (simp add: argsScanner_next_def) (intro impI next_loop_reads, simp add: scan_inv_def)

section \<open>What ParseBytes reads\<close>

definition kv_present :: "argsKV \<Rightarrow> bool" where
  "kv_present kv \<longleftrightarrow> kv_key kv \<noteq> [] \<or> kv_value kv \<noteq> []"

fun parsed :: "string \<Rightarrow> argsKV list" where
  "parsed b = (if b = [] then [] else kv_of (seg_of b) # parsed (drop (Suc (length (seg_of b))) b))"

declare parsed.simps [simp del]

lemma allocArg_args: "\<exists>kv. av_args (allocArg h) = av_args h @ [kv]"
  by (simp add: allocArg_def split: list.splits)

text \<open>The stale contents of reused elements never show.\<close>

lemma ParseBytes_loop_reads:
  "av_args h = hs @ [x] \<Longrightarrow> \<exists>y. av_args (ParseBytes_loop b h) = hs @ filter kv_present (parsed b) @ [y]"
proof (induction b arbitrary: h hs x rule: parsed.induct)
  case (1 b)
  show ?case
  proof (cases "b = []")
    case True
    then show ?thesis using 1(2) by (simp add: ParseBytes_loop.simps [of "[]"] argsScanner_next_reads parsed.simps)
  next
    case False
    let ?kv = "kv_of (seg_of b)" and ?r = "drop (Suc (length (seg_of b))) b"
    let ?h1 = "write_last ?kv h"
    have h1: "av_args ?h1 = hs @ [?kv]" using 1(2) by (simp add: write_last_def)
    have loop: "ParseBytes_loop b h = ParseBytes_loop ?r (if kv_present ?kv then allocArg ?h1 else ?h1)"
      using False by (subst ParseBytes_loop.simps) (simp add: argsScanner_next_reads kv_present_def)
    have p: "parsed b = ?kv # parsed ?r" using False by (subst parsed.simps) simp
    show ?thesis
    proof (cases "kv_present ?kv")
      case True
      obtain z where "av_args (allocArg ?h1) = (hs @ [?kv]) @ [z]" using allocArg_args h1 by metis
      from 1(1) [OF False this] show ?thesis using loop p True by simp
    next
      case kv: False
      from 1(1) [OF False h1] show ?thesis using loop p kv by simp
    qed
  qed
qed

lemma ParseBytes_reads: "av_args (ParseBytes b a) = filter kv_present (parsed b)"
proof -
  obtain x where "av_args (allocArg (args_Reset a)) = [] @ [x]" using allocArg_args [of "args_Reset a"] by (auto simp: args_Reset_def)
  from ParseBytes_loop_reads [OF this, of b] show ?thesis by (auto simp: ParseBytes_def releaseArg_def)
qed

section \<open>What AppendBytes prints\<close>

definition kv_ok :: "argsKV \<Rightarrow> bool" where
  "kv_ok kv \<longleftrightarrow> (kv_noValue kv \<longrightarrow> kv_value kv = [])"

definition kv_text :: "argsKV \<Rightarrow> string" where
  "kv_text kv = concat (map quoted_arg_byte (kv_key kv)) @
     (if kv_noValue kv then [] else CHR ''='' # concat (map quoted_arg_byte (kv_value kv)))"

lemma append_kv_text: "append_kv kv dst = dst @ kv_text kv"
  by (simp add: append_kv_def AppendQuotedArg_concat kv_text_def Let_def)

lemma AppendBytes_loop_acc: "AppendBytes_loop h dst = dst @ AppendBytes_loop h []"
proof (induction h arbitrary: dst)
  case (Cons kv h)
  let ?t = "kv_text kv @ (if h \<noteq> [] then ''&'' else [])"
  have "AppendBytes_loop (kv # h) d = AppendBytes_loop h (d @ ?t)" for d by (simp add: append_kv_text)
  then show ?case using Cons [of "dst @ ?t"] Cons [of "[] @ ?t"] by (metis append.assoc append_Nil)
qed simp

lemma AppendBytes_loop_Cons:
  "AppendBytes_loop (kv # h) [] = kv_text kv @ (if h = [] then [] else CHR ''&'' # AppendBytes_loop h [])"
  using AppendBytes_loop_acc [of h "kv_text kv @ ''&''"] by (simp add: append_kv_text)

declare AppendBytes_loop.simps(2) [simp del]

lemma quoted_arg_clean: "c \<in> set (concat (map quoted_arg_byte s)) \<Longrightarrow> c \<noteq> CHR ''&'' \<and> c \<noteq> CHR ''=''"
proof -
  have "set (quoted_arg_byte d) \<inter> {CHR ''&'', CHR ''=''} = {}" for d
  proof -
    have n: "drop_bit 4 (of_char d) < (16 :: nat)" "of_char d AND 15 < (16 :: nat)"
      using of_char_less [of d] by (simp_all add: nibbles less_mult_imp_div_less)
    then show ?thesis
      using hex_digit_lookup(3) [OF n(1)] hex_digit_lookup(3) [OF n(2)] quoted_plain(1) [of d]
      by (auto simp: quoted_arg_byte_def quote_byte_def)
  qed
  then show "c \<in> set (concat (map quoted_arg_byte s)) \<Longrightarrow> ?thesis" by fastforce
qed

lemma kv_text_seg: "seg_of (kv_text kv @ CHR ''&'' # r) = kv_text kv" "seg_of (kv_text kv) = kv_text kv"
proof -
  have "\<forall>c \<in> set (kv_text kv). c \<noteq> CHR ''&''" using quoted_arg_clean by (auto simp: kv_text_def)
  then show "seg_of (kv_text kv @ CHR ''&'' # r) = kv_text kv" "seg_of (kv_text kv) = kv_text kv"
    by (simp_all add: takeWhile_append2)
qed

lemma kv_of_pair: "CHR ''='' \<notin> set k \<Longrightarrow>
    kv_of (k @ CHR ''='' # v) = \<lparr> kv_key = decode_slow k, kv_value = decode_slow v, kv_noValue = False \<rparr>"
proof -
  assume "CHR ''='' \<notin> set k"
  then have "\<And>c. c \<in> set k \<Longrightarrow> c \<noteq> CHR ''=''" by auto
  then have "takeWhile (\<lambda>c. c \<noteq> CHR ''='') (k @ CHR ''='' # v) = k" "dropWhile (\<lambda>c. c \<noteq> CHR ''='') (k @ CHR ''='' # v) = CHR ''='' # v"
    by (simp_all add: takeWhile_append2 dropWhile_append2)
  then show ?thesis by (simp add: kv_of_def)
qed

lemma kv_of_text: "kv_ok kv \<Longrightarrow> kv_of (kv_text kv) = kv"
proof -
  assume ok: "kv_ok kv"
  have key: "CHR ''='' \<notin> set (concat (map quoted_arg_byte (kv_key kv)))" using quoted_arg_clean by blast
  show ?thesis
  proof (cases "kv_noValue kv")
    case True
    then show ?thesis using ok key by (cases kv) (auto simp: kv_of_def kv_text_def arg.unquote_quoted kv_ok_def)
  next
    case False
    then show ?thesis using kv_of_pair [OF key] by (cases kv) (simp add: kv_text_def arg.unquote_quoted)
  qed
qed

lemma kv_text_empty: "kv_ok kv \<Longrightarrow> kv_text kv = [] \<Longrightarrow> \<not> kv_present kv"
  using kv_of_text [of kv] by (auto simp: kv_of_def kv_present_def)

lemma parsed_printed:
  "list_all kv_ok h \<Longrightarrow> filter kv_present (parsed (AppendBytes_loop h [])) = filter kv_present h"
proof (induction h)
  case (Cons kv h)
  then have ok: "kv_ok kv" by simp
  show ?case
  proof (cases "h = []")
    case True
    then show ?thesis
      using ok kv_text_empty [OF ok] by (auto simp: AppendBytes_loop_Cons parsed.simps [of "kv_text kv"] parsed.simps [of "[]"] kv_text_seg kv_of_text)
  next
    case False
    let ?b = "kv_text kv @ CHR ''&'' # AppendBytes_loop h []"
    have "parsed ?b = kv # parsed (AppendBytes_loop h [])"
      using ok by (subst parsed.simps) (simp add: kv_text_seg kv_of_text)
    then show ?thesis using Cons False by (simp add: AppendBytes_loop_Cons)
  qed
qed (simp add: parsed.simps)

section \<open>Round trip\<close>

datatype args_op = OpSet string string | OpAdd string string | OpDel string | OpParse string | OpReset

fun args_step :: "args_op \<Rightarrow> Args \<Rightarrow> Args" where
  "args_step (OpSet k v) a = args_Set k v a"
| "args_step (OpAdd k v) a = args_Add k v a"
| "args_step (OpDel k) a = args_Del k a"
| "args_step (OpParse b) a = ParseBytes b a"
| "args_step OpReset a = args_Reset a"

lemma kv_ok_set_kv [simp]: "kv_ok (set_kv v n kv)"
  by (simp add: kv_ok_def set_kv_def)

lemma appendArg_args: "av_args (appendArg key v n h) = av_args h @ [\<lparr> kv_key = key, kv_value = (if n then [] else v), kv_noValue = n \<rparr>]"
proof -
  obtain x where "av_args (allocArg h) = av_args h @ [x]" using allocArg_args by blast
  then show ?thesis by (simp add: appendArg_def write_last_def Let_def set_kv_def)
qed

lemma set_first_ok: "list_all kv_ok h \<Longrightarrow> set_first key (set_kv v n) h = Some h' \<Longrightarrow> list_all kv_ok h'"
  by (induction h arbitrary: h') (auto split: if_splits)

lemma delAllArgs_args: "av_args (delAllArgs key a) = filter (\<lambda>kv. kv_key kv \<noteq> key) (av_args a)"
proof -
  have "av_args (delAllArgs_loop key before h sp) = before @ filter (\<lambda>kv. kv_key kv \<noteq> key) h" for before h sp
    by (induction key before h sp rule: delAllArgs_loop.induct) auto
  then show ?thesis by (simp add: delAllArgs_def)
qed

lemma kv_of_ok [simp]: "kv_ok (kv_of seg)"
  by (simp add: kv_of_def kv_ok_def)

lemma parsed_ok: "list_all kv_ok (parsed b)"
  by (induction b rule: parsed.induct) (subst parsed.simps, simp)

lemma list_all_filter: "list_all P xs \<Longrightarrow> list_all P (filter Q xs)"
  by (auto simp: list_all_iff)

lemma args_step_ok: "list_all kv_ok (av_args a) \<Longrightarrow> list_all kv_ok (av_args (args_step op a))"
proof (induction op)
  case (OpSet k v)
  have "kv_ok \<lparr> kv_key = k, kv_value = v, kv_noValue = False \<rparr>" by (simp add: kv_ok_def)
  then show ?case
    using OpSet set_first_ok [OF OpSet, of k v False] by (auto simp: args_Set_def setArg_def appendArg_args split: option.splits)
qed (simp_all add: args_Add_def appendArg_args kv_ok_def args_Del_def delAllArgs_args ParseBytes_reads
      list_all_filter parsed_ok args_Reset_def)

lemma args_run_ok: "list_all kv_ok (av_args a) \<Longrightarrow> list_all kv_ok (av_args (fold args_step ops a))"
  by (induction ops arbitrary: a) (simp_all add: args_step_ok)

text \<open>
  C32: a query string keeps the arguments it is made from. Whatever arguments have been set, added, deleted or parsed, parsing the query
  string of an Args, into any other Args with whatever old contents, gives the same list of arguments, in order, duplicates and
  arguments without a value included; only arguments with neither a name nor a value (not \<open>kv_present\<close>) are dropped. So keys and
  values with reserved bytes (percent, plus, ampersand, equals sign, blank) are not confused with the separators.
\<close>

theorem query_string_roundtrip:
  "av_args (ParseBytes (QueryString (fold args_step ops new_args)) old) =
   filter kv_present (av_args (fold args_step ops new_args))"
proof -
  have "list_all kv_ok (av_args (fold args_step ops new_args))" by (rule args_run_ok) (simp add: new_args_def)
  from parsed_printed [OF this] show ?thesis by (simp add: ParseBytes_reads QueryString_def)
qed

section \<open>Lookup after an update\<close>

lemma peek_set_first: "set_first key f h = Some h' \<Longrightarrow> (\<And>kv. kv_key (f kv) = kv_key kv) \<Longrightarrow>
    peekArgStr h' k = (if k = key then map_option (\<lambda>kv. kv_value (f kv)) (find (\<lambda>kv. kv_key kv = key) h) else peekArgStr h k)"
  by (induction h arbitrary: h') (auto split: if_splits)

lemma set_first_None: "set_first key f h = None \<longleftrightarrow> find (\<lambda>kv. kv_key kv = key) h = None"
  by (induction h) auto

lemma peek_append: "peekArgStr (h @ h') k = (case peekArgStr h k of Some v \<Rightarrow> Some v | None \<Rightarrow> peekArgStr h' k)"
  by (induction h) auto

lemma peek_find: "peekArgStr h k = map_option kv_value (find (\<lambda>kv. kv_key kv = k) h)"
  by (induction h) auto

lemma peek_exists: "peekArgStrExists h k = (case peekArgStr h k of Some w \<Rightarrow> (w, True) | None \<Rightarrow> ([], False))"
  by (induction h) auto

lemma has_peek: "hasArg h k \<longleftrightarrow> peekArgStr h k \<noteq> None"
  by (induction h) auto

lemma peek_filter: "peekArgStr (filter (\<lambda>kv. kv_key kv \<noteq> key) h) k = (if k = key then None else peekArgStr h k)"
  by (induction h) auto

lemma peek_setArg: "peekArgStr (av_args (setArg key v n a)) k = (if k = key then Some (if n then [] else v) else peekArgStr (av_args a) k)"
proof (cases "set_first key (set_kv v n) (av_args a)")
  case None
  then have "peekArgStr (av_args a) key = None" by (simp add: set_first_None peek_find)
  then show ?thesis using None by (auto simp: setArg_def appendArg_args peek_append split: option.splits)
next
  case (Some h)
  then obtain kv where "find (\<lambda>kv. kv_key kv = key) (av_args a) = Some kv"
    using set_first_None [of key "set_kv v n" "av_args a"] by auto
  then show ?thesis using Some peek_set_first [OF Some, of k] by (simp add: setArg_def set_kv_def)
qed

text \<open>
  Args is a map from names to lists of values. Peek after Set finds the new value and other names are
  untouched; after Add a name that was there keeps its first value; after Del the name is gone; and Peek, PeekExists and Has agree.
\<close>

theorem args_lookup:
  "args_Peek (args_Set key v a) k = (if k = key then Some v else args_Peek a k) \<and>
   args_Peek (args_Add key v a) k = (if k = key \<and> args_Peek a k = None then Some v else args_Peek a k) \<and>
   args_Peek (args_Del key a) k = (if k = key then None else args_Peek a k) \<and>
   args_PeekAll (args_Add key v a) k = args_PeekAll a k @ (if k = key then [v] else []) \<and>
   args_PeekExists a k = (case args_Peek a k of Some w \<Rightarrow> (w, True) | None \<Rightarrow> ([], False)) \<and>
   (args_Has a k \<longleftrightarrow> args_Peek a k \<noteq> None)"
proof -
  have "args_Peek (args_Set key v a) k = (if k = key then Some v else args_Peek a k)"
    by (simp add: args_Set_def args_Peek_def peek_setArg)
  moreover have "args_PeekExists a k = (case args_Peek a k of Some w \<Rightarrow> (w, True) | None \<Rightarrow> ([], False))"
    by (simp add: args_PeekExists_def args_Peek_def peek_exists)
  moreover have "args_Has a k \<longleftrightarrow> args_Peek a k \<noteq> None"
    by (simp add: args_Has_def args_Peek_def has_peek)
  moreover have "args_PeekAll (args_Add key v a) k = args_PeekAll a k @ (if k = key then [v] else [])"
    by (simp add: args_PeekAll_def args_Add_def appendArg_args visitArgs_def)
  ultimately show ?thesis
    by (auto simp: args_Add_def args_Del_def args_Peek_def appendArg_args peek_append delAllArgs_args peek_filter split: option.splits)
qed

end
