(* ===== verification/Clean_Path.thy ===== *)
theory Clean_Path
  imports Prelude
begin

text \<open>
  \<^verbatim>\<open>web/common/utils/path.go\<close>. \<open>CleanPath\<close> writes the canonical path over a copy of its argument that it only makes when
  the two start to differ. \<open>buf\<close> is that copy, empty as long as there is none; writing out of its bounds
  would be a panic, \<open>None\<close>. The bytes behind the write position are never read, so their initial contents
  do not matter. The reference is \<open>canonical\<close>: split the path at its slashes, push the elements on a stack,
  and join what is left.
\<close>

section \<open>The code\<close>

definition bufApp :: "string \<Rightarrow> string \<Rightarrow> nat \<Rightarrow> char \<Rightarrow> string option" where
  "bufApp buf s w c =
     (if buf = [] then
        (if w < length s then
           (if s ! w = c then Some buf
            else Some ((take w s @ replicate (length s - w) (CHR 0x00)) [w := c]))
         else None)
      else if w < length buf then Some (buf[w := c]) else None)"

text \<open>The loop that moves \<open>w\<close> back to the last slash, over the path or over the buffer.\<close>

fun backtrack :: "string \<Rightarrow> nat \<Rightarrow> nat" where
  "backtrack b w = (if w > 1 \<and> b ! w \<noteq> CHR ''/'' then backtrack b (w - 1) else w)"

declare backtrack.simps [simp del]

function copy_elem :: "string \<Rightarrow> nat \<Rightarrow> nat \<Rightarrow> string \<Rightarrow> (nat \<times> nat \<times> string) option" where
  "copy_elem p r w buf =
     (if r < length p \<and> p ! r \<noteq> CHR ''/'' then
        (case bufApp buf p w (p ! r) of None \<Rightarrow> None | Some buf1 \<Rightarrow> copy_elem p (r + 1) (w + 1) buf1)
      else Some (r, w, buf))"
  by pat_completeness auto
termination by (relation "measure (\<lambda>(p, r, _, _). length p - r)") auto

declare copy_elem.simps [simp del]

lemma copy_elem_mono: "copy_elem p r w buf = Some (r1, w1, buf1) \<Longrightarrow> r \<le> r1"
proof (induction p r w buf rule: copy_elem.induct)
  case (1 p r w buf)
  show ?case
  proof (cases "r < length p \<and> p ! r \<noteq> CHR ''/''")
    case True
    then obtain b where "bufApp buf p w (p ! r) = Some b" "copy_elem p (r + 1) (w + 1) b = Some (r1, w1, buf1)"
      using 1(2) by (subst (asm) copy_elem.simps) (auto split: option.splits)
    then show ?thesis using 1(1) [OF True, of b] by simp
  next
    case False
    then show ?thesis using 1(2) by (subst (asm) copy_elem.simps) auto
  qed
qed

lemma copy_elem_progress:
  "copy_elem p r w buf = Some (r1, w1, buf1) \<Longrightarrow> r < length p \<Longrightarrow> p ! r \<noteq> CHR ''/'' \<Longrightarrow> r < r1"
  by (subst (asm) copy_elem.simps) (auto split: option.splits dest: copy_elem_mono)

function clean_loop :: "string \<Rightarrow> nat \<Rightarrow> nat \<Rightarrow> string \<Rightarrow> bool \<Rightarrow> (nat \<times> string \<times> bool) option" where
  "clean_loop p r w buf trailing =
     (if r < length p then
        if p ! r = CHR ''/'' then clean_loop p (r + 1) w buf trailing
        else if p ! r = CHR ''.'' \<and> r + 1 = length p then clean_loop p (r + 1) w buf True
        else if p ! r = CHR ''.'' \<and> p ! (r + 1) = CHR ''/'' then clean_loop p (r + 2) w buf trailing
        else if p ! r = CHR ''.'' \<and> p ! (r + 1) = CHR ''.'' \<and> (r + 2 = length p \<or> p ! (r + 2) = CHR ''/'') then
          clean_loop p (r + 3) (if w > 1 then backtrack (if length buf = 0 then p else buf) (w - 1) else w) buf trailing
        else
          (case (if w > 1 then map_option (\<lambda>b. (w + 1, b)) (bufApp buf p w (CHR ''/'')) else Some (w, buf)) of
             None \<Rightarrow> None
           | Some (w1, buf1) \<Rightarrow>
               (case copy_elem p r w1 buf1 of
                  None \<Rightarrow> None
                | Some (r2, w2, buf2) \<Rightarrow> clean_loop p r2 w2 buf2 trailing))
      else Some (w, buf, trailing))"
  by pat_completeness auto
termination
  by (relation "measure (\<lambda>(p, r, _, _, _). length p - r)") (auto dest: copy_elem_progress intro: diff_less_mono2)

declare clean_loop.simps [simp del]

definition clean_finish :: "string \<Rightarrow> nat \<times> string \<times> bool \<Rightarrow> string option" where
  "clean_finish p = (\<lambda>(w, buf, trailing).
     case (if trailing \<and> w > 1 then map_option (\<lambda>b. (w + 1, b)) (bufApp buf p w (CHR ''/'')) else Some (w, buf)) of
       None \<Rightarrow> None
     | Some (w1, buf1) \<Rightarrow>
         if length buf1 = 0 then (if w1 \<le> length p then Some (take w1 p) else None)
         else (if w1 \<le> length buf1 then Some (take w1 buf1) else None))"

definition CleanPath :: "string \<Rightarrow> string option" where
  "CleanPath p =
     (if p = [] then Some ''/''
      else
        let n = length p;
            trailing = n > 1 \<and> p ! (n - 1) = CHR ''/''
        in Option.bind
             (if p ! 0 \<noteq> CHR ''/'' then clean_loop p 0 1 ((replicate (n + 1) (CHR 0x00)) [0 := CHR ''/'']) trailing
              else clean_loop p 1 1 [] trailing)
             (clean_finish p))"

section \<open>The reference\<close>

fun segments :: "string \<Rightarrow> string list" where
  "segments [] = [[]]"
| "segments (c # s) =
     (if c = CHR ''/'' then [] # segments s
      else (c # hd (segments s)) # tl (segments s))"

definition push_segment :: "string \<Rightarrow> string list \<Rightarrow> string list" where
  "push_segment s st = (if s = [] \<or> s = ''.'' then st else if s = ''..'' then butlast st else st @ [s])"

definition rooted :: "string list \<Rightarrow> string" where
  "rooted st = (if st = [] then ''/'' else concat (map ((#) (CHR ''/'')) st))"

definition canonical :: "string \<Rightarrow> string" where
  "canonical p =
     (let st = fold push_segment (segments p) [] in
      rooted st @ (if st \<noteq> [] \<and> last (segments p) \<in> {[], ''.''} then ''/'' else []))"

lemma segments_ne [simp]: "segments s \<noteq> []"
  by (cases s) auto

lemma segments_elem: "CHR ''/'' \<notin> set e \<Longrightarrow> segments (e @ CHR ''/'' # t) = e # segments t"
  by (induction e) auto

lemma segments_last: "CHR ''/'' \<notin> set e \<Longrightarrow> segments e = [e]"
  by (induction e) auto

lemma segments_no_slash: "e \<in> set (segments s) \<Longrightarrow> CHR ''/'' \<notin> set e"
proof (induction s arbitrary: e)
  case (Cons c s)
  then show ?case by (cases "segments s") (auto split: if_splits)
qed simp

text \<open>The elements of a path on the stack: not empty, without a slash, and not a dot element.\<close>

definition plain_elem :: "string \<Rightarrow> bool" where
  "plain_elem e \<longleftrightarrow> e \<noteq> [] \<and> CHR ''/'' \<notin> set e \<and> e \<noteq> ''.'' \<and> e \<noteq> ''..''"

lemma push_plain: "CHR ''/'' \<notin> set e \<Longrightarrow> list_all plain_elem st \<Longrightarrow> list_all plain_elem (push_segment e st)"
  by (auto simp: push_segment_def plain_elem_def list_all_iff dest: in_set_butlastD)

lemma fold_push_plain:
  "(\<And>e. e \<in> set es \<Longrightarrow> CHR ''/'' \<notin> set e) \<Longrightarrow> list_all plain_elem st \<Longrightarrow> list_all plain_elem (fold push_segment es st)"
  by (induction es arbitrary: st) (simp_all add: push_plain)

lemma rooted_simps [simp]: "rooted [] = ''/''" "rooted [e] = CHR ''/'' # e"
  "st \<noteq> [] \<Longrightarrow> rooted (st @ [e]) = rooted st @ CHR ''/'' # e"
  by (auto simp: rooted_def)

lemma rooted_ne [simp]: "rooted st \<noteq> []"
  by (auto simp: rooted_def)

lemma rooted_length: "list_all plain_elem st \<Longrightarrow> length (rooted st) = 1 \<longleftrightarrow> st = []" "0 < length (rooted st)"
  by (cases st rule: rev_cases; auto simp: rooted_def plain_elem_def)+

section \<open>The loop\<close>

text \<open>
  At index \<open>r\<close> the text written so far is the rooted path of the stack: the first \<open>w\<close> bytes of the
  buffer, or of the path itself when there is no buffer yet. \<open>off\<close> is 1 when a slash was put in front of the path.
\<close>

definition written :: "string \<Rightarrow> nat \<Rightarrow> string \<Rightarrow> string" where
  "written p w buf = take w (if buf = [] then p else buf)"

definition buf_ok :: "nat \<Rightarrow> string \<Rightarrow> nat \<Rightarrow> string \<Rightarrow> string \<Rightarrow> bool" where
  "buf_ok off p w buf t \<longleftrightarrow> length t = w \<and> written p w buf = t \<and> (buf = [] \<longrightarrow> off = 0) \<and> (buf \<noteq> [] \<longrightarrow> length buf = length p + off)"

lemma buf_ok_app:
  assumes "buf_ok off p w buf t" "w < length p + off"
  obtains buf1 where "bufApp buf p w c = Some buf1" "buf_ok off p (w + 1) buf1 (t @ [c])"
proof (cases "buf = []")
  case True
  then have w: "w < length p" "off = 0" "take w p = t" "length t = w" using assms by (auto simp: buf_ok_def written_def)
  show thesis
  proof (cases "p ! w = c")
    case True': True
    then show thesis
      using w True by (intro that [of buf]) (simp_all add: bufApp_def buf_ok_def written_def take_Suc_conv_app_nth)
  next
    case False
    let ?b = "(take w p @ replicate (length p - w) (CHR 0x00)) [w := c]"
    have "take (w + 1) ?b = t @ [c]"
      using w list_update_length [of t "CHR 0x00" "[]" c] by (simp add: take_Suc_conv_app_nth nth_append take_update_swap)
    moreover have "length ?b = length p" "?b \<noteq> []" using w by auto
    ultimately show thesis
      using w True False by (intro that [of ?b]) (simp_all add: bufApp_def buf_ok_def written_def)
  qed
next
  case False
  then have b: "length buf = length p + off" "take w buf = t" "length t = w" using assms by (auto simp: buf_ok_def written_def)
  have "take (w + 1) (buf[w := c]) = t @ [c]" using b assms(2) by (simp add: take_Suc_conv_app_nth)
  then show thesis
    using False b assms(2) by (intro that [of "buf[w := c]"]) (simp_all add: bufApp_def buf_ok_def written_def)
qed

abbreviation elem_at :: "string \<Rightarrow> nat \<Rightarrow> string" where
  "elem_at p r \<equiv> takeWhile (\<lambda>c. c \<noteq> CHR ''/'') (drop r p)"

lemma copy_elem_writes:
  "buf_ok off p w buf t \<Longrightarrow> w \<le> r + off \<Longrightarrow>
   \<exists>buf1. copy_elem p r w buf = Some (r + length (elem_at p r), w + length (elem_at p r), buf1) \<and>
     buf_ok off p (w + length (elem_at p r)) buf1 (t @ elem_at p r)"
proof (induction "length p - r" arbitrary: r w buf t)
  case 0
  then show ?case by (auto simp: copy_elem.simps)
next
  case (Suc k)
  then have r: "r < length p" and k: "k = length p - Suc r" by simp_all
  then have d: "drop r p = p ! r # drop (Suc r) p" by (simp add: Cons_nth_drop_Suc)
  show ?case
  proof (cases "p ! r = CHR ''/''")
    case True
    then show ?thesis using Suc(3) d by (simp add: copy_elem.simps [of p r])
  next
    case False
    obtain b where b: "bufApp buf p w (p ! r) = Some b" "buf_ok off p (w + 1) b (t @ [p ! r])"
      using buf_ok_app [OF Suc(3), of "p ! r"] Suc(4) r by (metis add_less_mono1 le_less_trans)
    obtain b1 where "copy_elem p (Suc r) (w + 1) b = Some (Suc r + length (elem_at p (Suc r)), w + 1 + length (elem_at p (Suc r)), b1)"
      "buf_ok off p (w + 1 + length (elem_at p (Suc r))) b1 ((t @ [p ! r]) @ elem_at p (Suc r))"
      using Suc(1) [of "Suc r" "w + 1" b "t @ [p ! r]"] k Suc(4) b(2) by auto
    then show ?thesis using False r b(1) d by (simp add: copy_elem.simps [of p r])
  qed
qed

text \<open>Backtracking ends at the slash before the last element.\<close>

lemma backtrack_elem:
  assumes "CHR ''/'' \<notin> set e" "t \<noteq> []" "take (length t + 1 + k) b = t @ CHR ''/'' # take k e" "k \<le> length e"
    "length t + 1 + k \<le> length b"
  shows "backtrack b (length t + k) = length t"
  using assms(3-)
proof (induction k)
  case 0
  then have "b ! length t = CHR ''/''" by (metis add.right_neutral lessI nth_append_length nth_take Suc_eq_plus1 take0)
  then show ?case by (simp add: backtrack.simps)
next
  case (Suc k)
  have at: "b ! (length t + Suc k) = e ! k"
  proof -
    have "b ! (length t + Suc k) = (t @ CHR ''/'' # take (Suc k) e) ! (length t + Suc k)"
      by (metis Suc.prems(1) add_Suc_right lessI nth_take Suc_eq_plus1 add.assoc plus_1_eq_Suc)
    then show ?thesis using Suc.prems(2) by (simp add: nth_append)
  qed
  have ne: "e ! k \<noteq> CHR ''/''" using assms(1) Suc.prems(2) by (metis Suc_le_lessD nth_mem)
  have "take (length t + 1 + k) b = take (length t + 1 + k) (t @ CHR ''/'' # take (Suc k) e)"
    using Suc.prems(1) by (metis add_Suc_right le_add2 min.absorb1 plus_1_eq_Suc take_take Suc_eq_plus1_left)
  then have "take (length t + 1 + k) b = t @ CHR ''/'' # take k e" by simp
  then have "backtrack b (length t + k) = length t" using Suc by simp
  moreover have "1 < length t + Suc k" using assms(2) by (cases t) auto
  ultimately show ?case using at ne by (subst backtrack.simps) simp
qed

lemma backtrack_first: "1 \<le> w \<Longrightarrow> (\<And>i. 1 < i \<Longrightarrow> i \<le> w \<Longrightarrow> b ! i \<noteq> CHR ''/'') \<Longrightarrow> backtrack b w = 1"
proof (induction b w rule: backtrack.induct)
  case (1 b w)
  then show ?case by (cases "w > 1") (simp_all add: backtrack.simps [of b w])
qed

lemma backtrack_rooted:
  assumes "list_all plain_elem st" "st \<noteq> []" "take (length (rooted st)) b = rooted st"
  shows "backtrack b (length (rooted st) - 1) = length (rooted (butlast st))"
    "take (length (rooted (butlast st))) b = rooted (butlast st)"
proof -
  obtain st0 e where st: "st = st0 @ [e]" using assms(2) by (metis rev_exhaust)
  then have e: "e \<noteq> []" "CHR ''/'' \<notin> set e" using assms(1) by (auto simp: plain_elem_def)
  have len: "length (rooted st) \<le> length b" using assms(3) by (metis length_take min.cobounded1 min_def)
  show "backtrack b (length (rooted st) - 1) = length (rooted (butlast st))"
  proof (cases "st0 = []")
    case True
    then have b: "take (Suc (length e)) b = CHR ''/'' # e" using st assms(3) by simp
    have "b ! i \<noteq> CHR ''/''" if "1 < i" "i \<le> length e" for i
    proof -
      have "b ! i = (CHR ''/'' # e) ! i" using b that by (metis le_imp_less_Suc nth_take)
      also have "\<dots> = e ! (i - 1)" using that by (simp add: nth_Cons')
      finally show ?thesis using e(2) that by (metis One_nat_def Suc_le_eq diff_less le_eq_less_or_eq less_trans nth_mem zero_less_one Suc_lessD)
    qed
    then show ?thesis using st True e(1) by (simp add: backtrack_first Suc_le_eq)
  next
    case False
    then have "take (length (rooted st0) + 1 + length e) b = rooted st0 @ CHR ''/'' # take (length e) e"
      using assms(3) st by (simp add: add.assoc)
    from backtrack_elem [OF e(2) _ this] show ?thesis using st False len by simp
  qed
  have "take (length (rooted (butlast st))) (rooted st) = rooted (butlast st)"
    using st by (cases "st0 = []") simp_all
  moreover have "length (rooted (butlast st)) \<le> length (rooted st)" using st by (cases "st0 = []") simp_all
  ultimately show "take (length (rooted (butlast st))) b = rooted (butlast st)"
    using assms(3) by (metis min.absorb1 take_take)
qed

definition clean_inv :: "nat \<Rightarrow> string \<Rightarrow> nat \<Rightarrow> nat \<Rightarrow> string \<Rightarrow> string list \<Rightarrow> bool" where
  "clean_inv off p r w buf st \<longleftrightarrow> buf_ok off p w buf (rooted st) \<and> list_all plain_elem st \<and>
     w \<le> r + off \<and> w \<le> length p + off \<and> (r < length p \<longrightarrow> p ! r \<noteq> CHR ''/'' \<longrightarrow> st \<noteq> [] \<longrightarrow> w < r + off)"

definition clean_post :: "nat \<Rightarrow> string \<Rightarrow> nat \<Rightarrow> string list \<Rightarrow> bool \<Rightarrow> (nat \<times> string \<times> bool) option \<Rightarrow> bool" where
  "clean_post off p r st trailing res \<longleftrightarrow>
     (let st1 = fold push_segment (segments (drop r p)) st; w1 = length (rooted st1) in
      \<exists>buf1. res = Some (w1, buf1, trailing \<or> last (segments (drop r p)) = ''.'') \<and>
        buf_ok off p w1 buf1 (rooted st1) \<and> w1 \<le> length p + off \<and>
        (r < length p \<longrightarrow> last (segments (drop r p)) \<in> {[], ''.''} \<longrightarrow> w1 < length p + off))"

text \<open>A step of the loop reads the next element of the path.\<close>

lemma clean_post_step:
  assumes "clean_post off p r1 st1 trailing1 res" and "segments (drop r p) = e # es"
    and "es = [] \<and> length p \<le> r1 \<or> es = segments (drop r1 p)" and "push_segment e st = st1"
    and "trailing1 = (trailing \<or> (es = [] \<and> e = ''.''))"
    and "length p \<le> r1 \<Longrightarrow> e \<noteq> [] \<or> es \<noteq> [] \<Longrightarrow> last (e # es) \<in> {[], ''.''} \<Longrightarrow> length (rooted st1) < length p + off"
    and "es = [] \<Longrightarrow> e \<noteq> []"
  shows "clean_post off p r st trailing res"
proof (cases "es = []")
  case True
  then have "drop r1 p = []" using assms(3) segments_ne [of "drop r1 p"] by auto
  then show ?thesis
    using assms True by (auto simp: clean_post_def Let_def push_segment_def)
next
  case False
  then have es: "es = segments (drop r1 p)" using assms(3) by simp
  have "length p \<le> r1 \<Longrightarrow> es = [[]]" using es by simp
  then show ?thesis
    using assms(1,4,5,6) False unfolding clean_post_def Let_def assms(2) es by (auto simp: push_segment_def not_less)
qed

lemma clean_inv_skip:
  assumes "clean_inv off p r w buf st" "r < r1" "r < length p"
  shows "clean_inv off p r1 w buf st" "w < length p + off"
  using assms by (auto simp: clean_inv_def)

lemma elem_plain:
  assumes "r < length p" "p ! r \<noteq> CHR ''/''" "\<not> (p ! r = CHR ''.'' \<and> r + 1 = length p)"
    "\<not> (p ! r = CHR ''.'' \<and> p ! (r + 1) = CHR ''/'')"
    "\<not> (p ! r = CHR ''.'' \<and> p ! (r + 1) = CHR ''.'' \<and> (r + 2 = length p \<or> p ! (r + 2) = CHR ''/''))"
  shows "plain_elem (elem_at p r)"
proof -
  let ?e = "elem_at p r"
  have no: "CHR ''/'' \<notin> set ?e" by (metis (mono_tags, lifting) set_takeWhileD)
  have ne: "?e \<noteq> []" using assms(1,2) by (simp add: Cons_nth_drop_Suc [symmetric])
  have stop: "r + length ?e = length p \<or> p ! (r + length ?e) = CHR ''/''"
  proof (cases "r + length ?e < length p")
    case True
    then have "drop r p ! length ?e = CHR ''/''" using nth_length_takeWhile [of "\<lambda>c. c \<noteq> CHR ''/''" "drop r p"] by simp
    then show ?thesis using assms(1) by simp
  next
    case False
    moreover have "length ?e \<le> length p - r" using length_takeWhile_le [of "\<lambda>c. c \<noteq> CHR ''/''" "drop r p"] by simp
    ultimately have "r + length ?e = length p" using assms(1) by linarith
    then show ?thesis by simp
  qed
  have at: "i < length ?e \<Longrightarrow> p ! (r + i) = ?e ! i" for i
    using assms(1) by (metis less_imp_le_nat nth_drop takeWhile_nth)
  have "?e \<noteq> ''.''" using stop at [of 0] assms(3,4) by auto
  moreover have "?e \<noteq> ''..''"
  proof
    assume "?e = ''..''"
    then show False using stop at [of 0] at [of 1] assms(5) by (simp add: numeral_2_eq_2)
  qed
  ultimately show ?thesis using ne no by (simp add: plain_elem_def)
qed

lemma drop_elem: "drop r p = elem_at p r @ drop (r + length (elem_at p r)) p"
  by (metis add.commute drop_drop dropWhile_eq_drop takeWhile_dropWhile_id)

lemma elem_segments:
  assumes "r < length p"
  shows "segments (drop r p) = elem_at p r # (if r + length (elem_at p r) = length p then [] else segments (drop (r + length (elem_at p r) + 1) p))"
    "r + length (elem_at p r) \<noteq> length p \<Longrightarrow> r + length (elem_at p r) < length p \<and> p ! (r + length (elem_at p r)) = CHR ''/''"
proof -
  let ?e = "elem_at p r"
  have no: "CHR ''/'' \<notin> set ?e" by (metis (mono_tags, lifting) set_takeWhileD)
  have le: "r + length ?e \<le> length p" using assms length_takeWhile_le [of "\<lambda>c. c \<noteq> CHR ''/''" "drop r p"] by simp
  have slash: "drop (r + length ?e) p = CHR ''/'' # drop (r + length ?e + 1) p" "p ! (r + length ?e) = CHR ''/''"
    if "r + length ?e < length p"
  proof -
    have "drop r p ! length ?e = CHR ''/''" using that nth_length_takeWhile [of "\<lambda>c. c \<noteq> CHR ''/''" "drop r p"] by simp
    then show "p ! (r + length ?e) = CHR ''/''" using assms by simp
    then show "drop (r + length ?e) p = CHR ''/'' # drop (r + length ?e + 1) p"
      using that by (metis Cons_nth_drop_Suc Suc_eq_plus1)
  qed
  show "segments (drop r p) = ?e # (if r + length ?e = length p then [] else segments (drop (r + length ?e + 1) p))"
  proof (cases "r + length ?e = length p")
    case True
    then have "drop r p = ?e" using drop_elem [of r p] by simp
    then show ?thesis using True segments_last [OF no] by simp
  next
    case False
    then have "drop r p = ?e @ CHR ''/'' # drop (r + length ?e + 1) p" using drop_elem [of r p] slash(1) le by simp
    then show ?thesis using False segments_elem [OF no, of "drop (r + length ?e + 1) p"] by (simp only: if_False)
  qed
  show "r + length ?e \<noteq> length p \<Longrightarrow> r + length ?e < length p \<and> p ! (r + length ?e) = CHR ''/''" using slash le by simp
qed

lemma copy_plain_elem:
  assumes inv: "clean_inv off p r w buf st" and r: "r < length p" and e: "plain_elem (elem_at p r)"
  obtains w1 buf1 buf2 where
    "(if w > 1 then map_option (\<lambda>b. (w + 1, b)) (bufApp buf p w (CHR ''/'')) else Some (w, buf)) = Some (w1, buf1)"
    "copy_elem p r w1 buf1 = Some (r + length (elem_at p r), w1 + length (elem_at p r), buf2)"
    "clean_inv off p (r + length (elem_at p r)) (w1 + length (elem_at p r)) buf2 (st @ [elem_at p r])"
proof -
  let ?e = "elem_at p r"
  have i: "buf_ok off p w buf (rooted st)" "list_all plain_elem st" "w \<le> r + off" "w \<le> length p + off" "w = length (rooted st)"
    using inv by (auto simp: clean_inv_def buf_ok_def)
  have "p ! r \<noteq> CHR ''/''" using e r by (auto simp: plain_elem_def Cons_nth_drop_Suc [symmetric])
  then have lt: "st \<noteq> [] \<Longrightarrow> w < r + off" using inv r by (simp add: clean_inv_def)
  have w1: "w > 1 \<longleftrightarrow> st \<noteq> []" using rooted_length(1) [OF i(2)] rooted_length(2) [of st] i(5) by linarith
  define t where "t = (if st = [] then ''/'' else rooted st @ ''/'')"
  obtain w1 buf1 where a: "(if w > 1 then map_option (\<lambda>b. (w + 1, b)) (bufApp buf p w (CHR ''/'')) else Some (w, buf)) = Some (w1, buf1)"
    "buf_ok off p w1 buf1 t" "w1 \<le> r + off"
  proof (cases "st = []")
    case True
    then show thesis using i w1 by (intro that [of w buf]) (auto simp: t_def)
  next
    case False
    then have "w < length p + off" using lt r by simp
    then obtain b where "bufApp buf p w (CHR ''/'') = Some b" "buf_ok off p (w + 1) b (rooted st @ ''/'')"
      using buf_ok_app [OF i(1)] by metis
    then show thesis using False w1 lt by (intro that [of "w + 1" b]) (auto simp: t_def)
  qed
  obtain buf2 where b: "copy_elem p r w1 buf1 = Some (r + length ?e, w1 + length ?e, buf2)"
    "buf_ok off p (w1 + length ?e) buf2 (t @ ?e)"
    using copy_elem_writes [OF a(2,3)] by blast
  have "t @ ?e = rooted (st @ [?e])" by (simp add: t_def)
  moreover have "r + length ?e \<le> length p" using r length_takeWhile_le [of "\<lambda>c. c \<noteq> CHR ''/''" "drop r p"] by simp
  ultimately have "clean_inv off p (r + length ?e) (w1 + length ?e) buf2 (st @ [?e])"
    using b(2) i(2) e a(3) elem_segments(2) [OF r] by (auto simp: clean_inv_def)
  then show thesis using a(1) b(1) that by blast
qed

lemma drop_step: "r < length p \<Longrightarrow> drop r p = p ! r # drop (r + 1) p"
  by (simp add: Cons_nth_drop_Suc)

lemma clean_post_slash:
  assumes "clean_post off p r st trailing res" "r < length p" "p ! r = CHR ''/''"
  shows "clean_post off p (r + 1) st trailing res"
proof -
  have "segments (drop r p) = [] # segments (drop (r + 1) p)" using assms(2,3) by (simp add: Cons_nth_drop_Suc [symmetric])
  then show ?thesis using assms(1,2) by (auto simp: clean_post_def Let_def push_segment_def)
qed

lemma clean_post_elem:
  assumes "clean_post off p (r + length (elem_at p r)) (st @ [elem_at p r]) trailing res" "r < length p" "plain_elem (elem_at p r)"
  shows "clean_post off p r st trailing res"
proof -
  let ?e = "elem_at p r"
  have e: "push_segment ?e st = st @ [?e]" "?e \<noteq> []" "?e \<noteq> ''.''" using assms(3) by (auto simp: push_segment_def plain_elem_def)
  show ?thesis
  proof (cases "r + length ?e = length p")
    case True
    show ?thesis
      by (rule clean_post_step [OF assms(1), of r ?e "[]"]) (use elem_segments(1) [OF assms(2)] True e in auto)
  next
    case False
    from elem_segments(2) [OF assms(2) this] have s: "r + length ?e < length p" "p ! (r + length ?e) = CHR ''/''" by simp_all
    have post: "clean_post off p (r + length ?e + 1) (st @ [?e]) trailing res" by (rule clean_post_slash [OF assms(1) s])
    have w: "length (rooted (st @ [?e])) < length p + off" if "length p \<le> r + length ?e + 1"
    proof -
      have "drop (r + length ?e) p = ''/''" using drop_step [OF s(1)] s(2) that by (simp only: drop_all)
      then show ?thesis using assms(1) s(1) by (auto simp: clean_post_def push_segment_def Let_def)
    qed
    show ?thesis
      by (rule clean_post_step [OF post, of r ?e "segments (drop (r + length ?e + 1) p)"])
        (use elem_segments(1) [OF assms(2)] False e w in auto)
  qed
qed

lemma dots_segments:
  assumes "r < length p" "p ! r = CHR ''.''" "p ! (r + 1) = CHR ''.''" "r + 1 \<noteq> length p" "r + 2 = length p \<or> p ! (r + 2) = CHR ''/''"
  shows "segments (drop r p) = ''..'' # (if r + 2 = length p then [] else segments (drop (r + 3) p))"
proof -
  have r1: "r + 1 < length p" using assms(1,4) by simp
  have d: "drop r p = CHR ''.'' # CHR ''.'' # drop (r + 2) p"
    using drop_step [OF assms(1)] drop_step [OF r1] assms(2,3) by simp
  show ?thesis
  proof (cases "r + 2 = length p")
    case False
    then have "r + 2 < length p" using r1 by simp
    from drop_step [OF this] have "drop (r + 2) p = CHR ''/'' # drop (r + 3) p" using False assms(5) by (simp add: numeral_3_eq_3)
    then show ?thesis using d False by simp
  qed (use d in simp)
qed

lemma clean_inv_dots:
  assumes inv: "clean_inv off p r w buf st" and r: "r < length p"
  defines "w1 \<equiv> if w > 1 then backtrack (if length buf = 0 then p else buf) (w - 1) else w"
  shows "clean_inv off p (r + 3) w1 buf (butlast st)" "length (rooted (butlast st)) < length p + off"
proof -
  have w: "w = length (rooted st)" "buf_ok off p w buf (rooted st)" "list_all plain_elem st" "w \<le> length p + off"
    using inv by (auto simp: clean_inv_def buf_ok_def)
  have st: "w > 1 \<longleftrightarrow> st \<noteq> []" using rooted_length(1) [OF w(3)] rooted_length(2) [of st] w(1) by linarith
  have src: "take (length (rooted st)) (if buf = [] then p else buf) = rooted st" using w by (simp add: buf_ok_def written_def)
  have bt: "w1 = length (rooted (butlast st)) \<and> take w1 (if buf = [] then p else buf) = rooted (butlast st)"
  proof (cases "st = []")
    case False
    then show ?thesis using backtrack_rooted [OF w(3) False src] st w(1) by (simp add: w1_def)
  qed (use st w(1) src in \<open>simp add: w1_def\<close>)
  have le: "w1 \<le> w"
  proof (cases "st = []")
    case False
    then show ?thesis using bt w(1) by (cases st rule: rev_cases; cases "butlast st = []") auto
  qed (use st in \<open>simp add: w1_def\<close>)
  have "list_all plain_elem (butlast st)" using w(3) by (auto simp: list_all_iff dest: in_set_butlastD)
  moreover have "buf_ok off p w1 buf (rooted (butlast st))" using bt w(2) by (simp only: buf_ok_def written_def) auto
  moreover have "w \<le> r + off" using inv by (simp add: clean_inv_def)
  ultimately show "clean_inv off p (r + 3) w1 buf (butlast st)" using le w(4) by (auto simp: clean_inv_def)
  show "length (rooted (butlast st)) < length p + off"
    using clean_inv_skip(2) [OF inv, of "r + 1"] r le bt by linarith
qed

lemma clean_loop_correct:
  "clean_inv off p r w buf st \<Longrightarrow> clean_post off p r st trailing (clean_loop p r w buf trailing)"
proof (induction p r w buf trailing arbitrary: st rule: clean_loop.induct)
  case (1 p r w buf trailing)
  note inv = 1(6)
  have w: "w = length (rooted st)" "buf_ok off p w buf (rooted st)" "list_all plain_elem st" "w \<le> length p + off"
    using inv by (auto simp: clean_inv_def buf_ok_def)
  show ?case
  proof (cases "r < length p")
    case False
    then show ?thesis using w by (subst clean_loop.simps) (simp add: clean_post_def push_segment_def)
  next
    case r: True
    have d: "drop r p = p ! r # drop (r + 1) p" using r by (simp add: Cons_nth_drop_Suc)
    consider (slash) "p ! r = CHR ''/''"
      | (dot) "p ! r = CHR ''.''" "r + 1 = length p"
      | (dotslash) "p ! r = CHR ''.''" "r + 1 \<noteq> length p" "p ! (r + 1) = CHR ''/''"
      | (dots) "p ! r = CHR ''.''" "r + 1 \<noteq> length p" "p ! (r + 1) = CHR ''.''" "r + 2 = length p \<or> p ! (r + 2) = CHR ''/''"
      | (elem) "p ! r \<noteq> CHR ''/''" "\<not> (p ! r = CHR ''.'' \<and> r + 1 = length p)" "\<not> (p ! r = CHR ''.'' \<and> p ! (r + 1) = CHR ''/'')"
          "\<not> (p ! r = CHR ''.'' \<and> p ! (r + 1) = CHR ''.'' \<and> (r + 2 = length p \<or> p ! (r + 2) = CHR ''/''))"
      by fast
    then show ?thesis
    proof cases
      case slash
      have "clean_post off p (r + 1) st trailing (clean_loop p (r + 1) w buf trailing)"
        using 1(1) r slash clean_inv_skip(1) [OF inv _ r] by simp
      then have "clean_post off p r st trailing (clean_loop p (r + 1) w buf trailing)"
        by (rule clean_post_step [of _ _ _ _ _ _ _ "[]"]) (use d slash clean_inv_skip(2) [OF inv, of "r + 1"] r w in \<open>auto simp: push_segment_def\<close>)
      then show ?thesis using r slash by (subst clean_loop.simps) simp
    next
      case dot
      have "clean_post off p (r + 1) st True (clean_loop p (r + 1) w buf True)"
        using 1(2) r dot clean_inv_skip(1) [OF inv _ r] by simp
      then have "clean_post off p r st trailing (clean_loop p (r + 1) w buf True)"
        by (rule clean_post_step [of _ _ _ _ _ _ _ "''.''" "[]"]) (use d dot clean_inv_skip(2) [OF inv, of "r + 1"] r w in \<open>auto simp: push_segment_def\<close>)
      then show ?thesis using r dot by (subst clean_loop.simps) simp
    next
      case dotslash
      have "r + 1 < length p" using r dotslash by simp
      from drop_step [OF this] have d2: "drop r p = CHR ''.'' # CHR ''/'' # drop (r + 2) p"
        using d dotslash by simp
      have "clean_post off p (r + 2) st trailing (clean_loop p (r + 2) w buf trailing)"
        using 1(3) r dotslash clean_inv_skip(1) [OF inv _ r] by simp
      then have "clean_post off p r st trailing (clean_loop p (r + 2) w buf trailing)"
        by (rule clean_post_step [of _ _ _ _ _ _ _ "''.''" "segments (drop (r + 2) p)"])
          (use d2 clean_inv_skip(2) [OF inv, of "r + 1"] r w in \<open>auto simp: push_segment_def\<close>)
      then show ?thesis using r dotslash by (subst clean_loop.simps) simp
    next
      case dots
      let ?w = "if w > 1 then backtrack (if length buf = 0 then p else buf) (w - 1) else w"
      note up = clean_inv_dots [OF inv r]
      have "clean_post off p (r + 3) (butlast st) trailing (clean_loop p (r + 3) ?w buf trailing)"
        using 1(4) r dots up(1) by simp
      then have "clean_post off p r st trailing (clean_loop p (r + 3) ?w buf trailing)"
        by (rule clean_post_step [OF _ dots_segments [OF r dots(1,3,2,4)]]) (use up(2) in \<open>auto simp: push_segment_def\<close>)
      then show ?thesis using r dots by (subst clean_loop.simps) simp
    next
      case elem
      have e: "plain_elem (elem_at p r)" by (rule elem_plain [OF r elem])
      obtain w1 buf1 buf2 where c: "(if w > 1 then map_option (\<lambda>b. (w + 1, b)) (bufApp buf p w (CHR ''/'')) else Some (w, buf)) = Some (w1, buf1)"
        "copy_elem p r w1 buf1 = Some (r + length (elem_at p r), w1 + length (elem_at p r), buf2)"
        "clean_inv off p (r + length (elem_at p r)) (w1 + length (elem_at p r)) buf2 (st @ [elem_at p r])"
        by (rule copy_plain_elem [OF inv r e])
      have "clean_post off p (r + length (elem_at p r)) (st @ [elem_at p r]) trailing
          (clean_loop p (r + length (elem_at p r)) (w1 + length (elem_at p r)) buf2 trailing)"
        using 1(5) [OF r elem(1,2,3,4) c(1) refl c(2) refl refl c(3)] .
      from clean_post_elem [OF this r e] show ?thesis
        by (subst clean_loop.simps) (simp only: if_P [OF r] if_not_P [OF elem(1)] if_not_P [OF elem(2)] if_not_P [OF elem(3)]
            if_not_P [OF elem(4)] c(1,2) option.case prod.case)
    qed
  qed
qed

section \<open>CleanPath\<close>

lemma last_segments: "last (segments s) = [] \<longleftrightarrow> s = [] \<or> last s = CHR ''/''"
proof (induction s)
  case (Cons c s)
  then show ?case by (cases s; cases "segments s") (auto split: if_splits)
qed simp

lemma buf_ok_result:
  "buf_ok off p w buf t \<Longrightarrow> w \<le> length p + off \<Longrightarrow>
   (if length buf = 0 then (if w \<le> length p then Some (take w p) else None)
    else (if w \<le> length buf then Some (take w buf) else None)) = Some t"
  by (auto simp: buf_ok_def written_def)

lemma clean_finish_correct:
  assumes post: "clean_post off p r [] (length p > 1 \<and> p ! (length p - 1) = CHR ''/'') res"
    and seg: "segments p = (if off = 0 then [[]] else []) @ segments (drop r p)" and p: "p \<noteq> []" and r: "r = 1 - off"
  shows "Option.bind res (clean_finish p) = Some (canonical p)"
proof -
  define st where "st = fold push_segment (segments (drop r p)) []"
  obtain buf where res: "res = Some (length (rooted st), buf, (length p > 1 \<and> p ! (length p - 1) = CHR ''/'') \<or> last (segments (drop r p)) = ''.'')"
    and ok: "buf_ok off p (length (rooted st)) buf (rooted st)" and le: "length (rooted st) \<le> length p + off"
    and lt: "r < length p \<Longrightarrow> last (segments (drop r p)) \<in> {[], ''.''} \<Longrightarrow> length (rooted st) < length p + off"
    using post unfolding clean_post_def Let_def st_def by blast
  have st': "st = fold push_segment (segments p) []" using seg by (simp add: st_def push_segment_def)
  have plain: "list_all plain_elem st" unfolding st_def by (rule fold_push_plain) (auto dest: segments_no_slash)
  have w: "length (rooted st) > 1 \<longleftrightarrow> st \<noteq> []" using rooted_length(1) [OF plain] rooted_length(2) [of st] by linarith
  have lastseg: "last (segments (drop r p)) = last (segments p)" using seg by simp
  have long: "r < length p \<and> 1 < length p" if "st \<noteq> []" "last p = CHR ''/''"
  proof (rule ccontr)
    assume "\<not> ?thesis"
    then have "length p = 1" using p r by (cases p; cases off) auto
    then have "p = ''/''" using that(2) by (cases p) auto
    then show False using that(1) st' by (simp add: push_segment_def)
  qed
  let ?t = "(length p > 1 \<and> p ! (length p - 1) = CHR ''/'') \<or> last (segments (drop r p)) = ''.''"
  have t: "?t \<longleftrightarrow> last (segments p) \<in> {[], ''.''}" if "st \<noteq> []"
    using that long p lastseg last_segments [of p] by (auto simp: last_conv_nth)
  show ?thesis
  proof (cases "?t \<and> st \<noteq> []")
    case True
    have "r < length p" using p r True st_def by (cases "r < length p") (auto simp: push_segment_def)
    then have "length (rooted st) < length p + off" using lt t True lastseg by simp
    then obtain b where b: "bufApp buf p (length (rooted st)) (CHR ''/'') = Some b" "buf_ok off p (length (rooted st) + 1) b (rooted st @ ''/'')"
      using buf_ok_app [OF ok] by metis
    then have "clean_finish p (length (rooted st), buf, ?t) = Some (rooted st @ ''/'')"
      using True w buf_ok_result [OF b(2)] \<open>length (rooted st) < length p + off\<close>
      by (simp only: clean_finish_def prod.case if_True option.map b(1) option.case) (auto split: if_splits)
    then show ?thesis using res True t st' by (simp add: canonical_def Let_def)
  next
    case False
    then have "clean_finish p (length (rooted st), buf, ?t) = Some (rooted st)"
      using w buf_ok_result [OF ok le] by (auto simp: clean_finish_def)
    then show ?thesis using res False t st' by (auto simp: canonical_def Let_def)
  qed
qed

lemma CleanPath_eq: "CleanPath p = Some (canonical p)"
proof (cases "p = []")
  case True
  then show ?thesis by (simp add: CleanPath_def canonical_def push_segment_def)
next
  case False
  show ?thesis
  proof (cases "p ! 0 = CHR ''/''")
    case True
    have seg: "segments p = [] # segments (drop 1 p)" using False True by (cases p) auto
    have "clean_inv 0 p 1 1 [] []" using False True by (auto simp: clean_inv_def buf_ok_def written_def take_Suc_conv_app_nth neq_Nil_conv)
    from clean_finish_correct [OF clean_loop_correct [OF this] _ False] show ?thesis
      using False True seg by (simp add: CleanPath_def Let_def)
  next
    case slash: False
    have "clean_inv 1 p 0 1 ((replicate (length p + 1) (CHR 0x00)) [0 := CHR ''/'']) []"
      by (auto simp: clean_inv_def buf_ok_def written_def)
    from clean_finish_correct [OF clean_loop_correct [OF this] _ False] show ?thesis
      using False slash by (simp add: CleanPath_def Let_def)
  qed
qed

text \<open>
  C33: CleanPath, which rewrites the path in place over a lazily made copy, returns for every path the canonical
  one: the path split at its slashes, empty and dot elements dropped, each dot-dot element removing the one before
  it and nothing at the root, joined with a slash in front and one behind when the path ended in a slash or
  a dot. It always returns and never writes outside its buffer.
\<close>

theorem clean_path_canonical: "CleanPath p = Some (canonical p)"
  by (rule CleanPath_eq)

lemma segments_rooted:
  "list_all plain_elem st \<Longrightarrow> st \<noteq> [] \<Longrightarrow> segments (rooted st) = [] # st"
  "list_all plain_elem st \<Longrightarrow> st \<noteq> [] \<Longrightarrow> segments (rooted st @ ''/'') = [] # st @ [[]]"
proof -
  have "segments (concat (map ((#) (CHR ''/'')) st) @ CHR ''/'' # r) = [] # st @ segments r"
    if "list_all plain_elem st" for st r
    using that
  proof (induction st)
    case (Cons e st)
    then show ?case by (cases st) (simp_all add: segments_elem plain_elem_def)
  qed simp
  then show "list_all plain_elem st \<Longrightarrow> st \<noteq> [] \<Longrightarrow> segments (rooted st @ ''/'') = [] # st @ [[]]"
    by (simp add: rooted_def)
  have "segments (concat (map ((#) (CHR ''/'')) st)) = [] # st" if "list_all plain_elem st" "st \<noteq> []" for st
    using that
  proof (induction st)
    case (Cons e st)
    then show ?case by (cases st) (simp_all add: segments_last segments_elem plain_elem_def)
  qed simp
  then show "list_all plain_elem st \<Longrightarrow> st \<noteq> [] \<Longrightarrow> segments (rooted st) = [] # st" by (simp add: rooted_def)
qed

lemma push_all_plain: "list_all plain_elem es \<Longrightarrow> fold push_segment es st = st @ es"
  by (induction es arbitrary: st) (auto simp: push_segment_def plain_elem_def)

lemma canonical_shape:
  obtains st where "list_all plain_elem st" "canonical p = rooted st \<or> st \<noteq> [] \<and> canonical p = rooted st @ ''/''"
proof
  show "list_all plain_elem (fold push_segment (segments p) [])"
    by (rule fold_push_plain) (auto dest: segments_no_slash)
qed (auto simp: canonical_def Let_def)

text \<open>
  no path escapes its root. The cleaned path starts with a slash, has no dot element and no dot-dot element, no
  empty element inside it, and cleaning it again changes nothing.
\<close>

theorem clean_path_safe:
  "\<exists>q. CleanPath p = Some q \<and> hd q = CHR ''/'' \<and> set (segments q) \<inter> {''.'', ''..''} = {} \<and>
       [] \<notin> set (butlast (tl (segments q))) \<and> CleanPath q = Some q"
proof -
  obtain st where st: "list_all plain_elem st" "canonical p = rooted st \<or> st \<noteq> [] \<and> canonical p = rooted st @ ''/''"
    by (rule canonical_shape)
  have hd: "hd (rooted st @ t) = CHR ''/''" for t by (cases st) (auto simp: rooted_def)
  have ok: "set st \<inter> {[], ''.'', ''..''} = {}" using st(1) by (auto simp: list_all_iff plain_elem_def)
  show ?thesis
  proof (cases "st = []")
    case True
    then show ?thesis using st(2) by (simp add: CleanPath_eq canonical_def push_segment_def)
  next
    case False
    note seg = segments_rooted [OF st(1) False]
    have "last st \<in> set st" using False by simp
    then have l: "last st \<notin> {[], ''.''}" using ok by auto
    have c: "canonical (rooted st) = rooted st" "canonical (rooted st @ ''/'') = rooted st @ ''/''"
      using False l by (simp_all add: canonical_def seg push_segment_def push_all_plain [OF st(1)] Let_def)
    show ?thesis
    proof (cases "canonical p = rooted st")
      case True
      then show ?thesis using c ok seg hd [of "[]"] by (auto simp: CleanPath_eq dest: in_set_butlastD)
    next
      case no: False
      then have "canonical p = rooted st @ ''/''" using st(2) by simp
      then show ?thesis using c ok seg hd [of "''/''"] by (auto simp: CleanPath_eq butlast_append dest: in_set_butlastD)
    qed
  qed
qed

end
