(* ===== verification/Http_Trailer.thy ===== *)
theory Http_Trailer
  imports Query_Args
begin

text \<open>
  Names of header fields (\<^verbatim>\<open>web/common/utils/utils.go\<close>), trailers (\<^verbatim>\<open>web/protocol/trailer.go\<close>) and the cookies of a request (\<^verbatim>\<open>web/protocol/cookie.go\<close>), on the
  argument slices of \<open>Query_Args\<close>. A panic is \<open>None\<close>. The buffer \<open>bufKV\<close> that methods use as scratch space is left out.
\<close>

section \<open>Field names\<close>

definition fold20 :: "char \<Rightarrow> nat" where
  "fold20 c = of_char c OR 32"

definition CaseInsensitiveCompare :: "string \<Rightarrow> string \<Rightarrow> bool" where
  "CaseInsensitiveCompare a b \<longleftrightarrow> list_all2 (\<lambda>x y. fold20 x = fold20 y) a b"

fun normalize_rest :: "string \<Rightarrow> string" where
  "normalize_rest [] = []"
| "normalize_rest (c # cs) =
     (if c = CHR ''-'' then c # (case cs of [] \<Rightarrow> [] | d # ds \<Rightarrow> ToUpperTable d # normalize_rest ds)
      else ToLowerTable c # normalize_rest cs)"

definition NormalizeHeaderKey :: "string \<Rightarrow> bool \<Rightarrow> string" where
  "NormalizeHeaderKey b disableNormalizing =
     (if disableNormalizing then b else case b of [] \<Rightarrow> [] | c # cs \<Rightarrow> ToUpperTable c # normalize_rest cs)"

section \<open>Trailers\<close>

record Trailer =
  tr_h :: Args
  tr_disableNormalizing :: bool

definition new_trailer :: Trailer where
  "new_trailer = \<lparr> tr_h = new_args, tr_disableNormalizing = False \<rparr>"

definition skip_prefix :: "nat \<Rightarrow> string \<Rightarrow> string \<Rightarrow> bool" where
  "skip_prefix n key name = CaseInsensitiveCompare (drop n key) (drop n name)"

definition IsBadTrailer :: "string \<Rightarrow> bool option" where
  "IsBadTrailer key =
     (case key of
        [] \<Rightarrow> None
      | k # _ \<Rightarrow> Some (
          let c = fold20 k; is = CaseInsensitiveCompare key in
          if c = of_char CHR ''a'' then is ''Authorization''
          else if c = of_char CHR ''c'' then
            (if length key \<ge> length ''Content-Type'' \<and> CaseInsensitiveCompare (take 8 key) (take 8 ''Content-Type'')
             then skip_prefix 8 key ''Content-Encoding'' \<or> skip_prefix 8 key ''Content-Length'' \<or>
                  skip_prefix 8 key ''Content-Type'' \<or> skip_prefix 8 key ''Content-Range''
             else is ''Connection'')
          else if c = of_char CHR ''e'' then is ''Expect''
          else if c = of_char CHR ''h'' then is ''Host''
          else if c = of_char CHR ''k'' then is ''keep-alive''
          else if c = of_char CHR ''m'' then is ''Max-Forwards''
          else if c = of_char CHR ''p'' then
            (length key \<ge> length ''Proxy-Connection'' \<and> CaseInsensitiveCompare (take 6 key) (take 6 ''Proxy-Connection'') \<and>
             (skip_prefix 6 key ''Proxy-Connection'' \<or> skip_prefix 6 key ''Proxy-Authenticate'' \<or> skip_prefix 6 key ''Proxy-Authorization''))
          else if c = of_char CHR ''r'' then is ''Range''
          else if c = of_char CHR ''t'' then is ''TE'' \<or> is ''Trailer'' \<or> is ''Transfer-Encoding''
          else if c = of_char CHR ''w'' then is ''WWW-Authenticate''
          else False))"

text \<open>The first component of a result is whether the method returns an error.\<close>

definition unless_bad :: "string \<Rightarrow> (Args \<Rightarrow> Args) \<Rightarrow> Trailer \<Rightarrow> (bool \<times> Trailer) option" where
  "unless_bad key f t = map_option (\<lambda>bad. if bad then (True, t) else (False, t\<lparr> tr_h := f (tr_h t) \<rparr>)) (IsBadTrailer key)"

definition tr_addArgBytes :: "string \<Rightarrow> string \<Rightarrow> bool \<Rightarrow> Trailer \<Rightarrow> (bool \<times> Trailer) option" where
  "tr_addArgBytes key v noValue t = unless_bad key (appendArg key v noValue) t"

definition tr_setArgBytes :: "string \<Rightarrow> string \<Rightarrow> bool \<Rightarrow> Trailer \<Rightarrow> (bool \<times> Trailer) option" where
  "tr_setArgBytes key v noValue t = unless_bad key (setArg key v noValue) t"

definition tr_UpdateArgBytes :: "string \<Rightarrow> string \<Rightarrow> Trailer \<Rightarrow> (bool \<times> Trailer) option" where
  "tr_UpdateArgBytes key v t = unless_bad key (\<lambda>h. h\<lparr> av_args := updateArgBytes key v (av_args h) \<rparr>) t"

definition opt_string :: "string option \<Rightarrow> string" where
  "opt_string v = (case v of None \<Rightarrow> [] | Some s \<Rightarrow> s)"

definition tr_Peek :: "string \<Rightarrow> Trailer \<Rightarrow> string" where
  "tr_Peek key t = opt_string (peekArgStr (av_args (tr_h t)) (NormalizeHeaderKey key (tr_disableNormalizing t)))"

definition tr_Del :: "string \<Rightarrow> Trailer \<Rightarrow> Trailer" where
  "tr_Del key t = t\<lparr> tr_h := delAllArgs (NormalizeHeaderKey key (tr_disableNormalizing t)) (tr_h t) \<rparr>"

definition tr_Set :: "string \<Rightarrow> string \<Rightarrow> Trailer \<Rightarrow> (bool \<times> Trailer) option" where
  "tr_Set key v t = tr_setArgBytes (NormalizeHeaderKey key (tr_disableNormalizing t)) v False t"

definition tr_Add :: "string \<Rightarrow> string \<Rightarrow> Trailer \<Rightarrow> (bool \<times> Trailer) option" where
  "tr_Add key v t = tr_addArgBytes (NormalizeHeaderKey key (tr_disableNormalizing t)) v False t"

definition tr_Empty :: "Trailer \<Rightarrow> bool" where
  "tr_Empty t \<longleftrightarrow> av_args (tr_h t) = []"

fun join_keys :: "argsKV list \<Rightarrow> string" where
  "join_keys [] = []"
| "join_keys [kv] = kv_key kv"
| "join_keys (kv # h) = kv_key kv @ '', '' @ join_keys h"

definition tr_GetBytes :: "Trailer \<Rightarrow> string" where
  "tr_GetBytes t = join_keys (av_args (tr_h t))"

definition tr_ResetSkipNormalize :: "Trailer \<Rightarrow> Trailer" where
  "tr_ResetSkipNormalize t = t\<lparr> tr_h := args_Reset (tr_h t) \<rparr>"

definition tr_Reset :: "Trailer \<Rightarrow> Trailer" where
  "tr_Reset t = tr_ResetSkipNormalize (t\<lparr> tr_disableNormalizing := False \<rparr>)"

definition tr_CopyTo :: "Trailer \<Rightarrow> Trailer \<Rightarrow> Trailer" where
  "tr_CopyTo t dst =
     (let d = (tr_Reset dst)\<lparr> tr_disableNormalizing := tr_disableNormalizing t \<rparr>
      in d\<lparr> tr_h := copyArgs (tr_h d) (av_args (tr_h t)) \<rparr>)"

definition trim_spaces :: "string \<Rightarrow> string" where
  "trim_spaces s = rev (dropWhile (\<lambda>c. c = CHR '' '') (rev (dropWhile (\<lambda>c. c = CHR '' '') s)))"

text \<open>One round of the loop takes the text up to the next comma; \<open>err\<close> is the error of the last round.\<close>

function setTrailers_loop :: "string \<Rightarrow> bool \<Rightarrow> Trailer \<Rightarrow> (bool \<times> Trailer) option" where
  "setTrailers_loop trailers err t =
     (if trailers = [] then Some (err, t)
      else
        let item = takeWhile (\<lambda>c. c \<noteq> CHR '','') trailers;
            key = NormalizeHeaderKey (trim_spaces item) (tr_disableNormalizing t)
        in case tr_addArgBytes key [] True t of
             None \<Rightarrow> None
           | Some (e, t1) \<Rightarrow> setTrailers_loop (drop (Suc (length item)) trailers) e t1)"
  by pat_completeness auto
termination by (relation "measure (\<lambda>(s, e, t). length s)") auto

declare setTrailers_loop.simps [simp del]

definition SetTrailers :: "string \<Rightarrow> Trailer \<Rightarrow> (bool \<times> Trailer) option" where
  "SetTrailers trailers t = setTrailers_loop trailers False (tr_ResetSkipNormalize t)"

section \<open>Cookies of a request\<close>

definition decodeCookieArg :: "string \<Rightarrow> bool \<Rightarrow> string" where
  "decodeCookieArg src skipQuotes =
     (let s = trim_spaces src in
      if skipQuotes \<and> length s > 1 \<and> hd s = CHR 0x22 \<and> last s = CHR 0x22 then butlast (tl s) else s)"

definition getCookieKey :: "string \<Rightarrow> string" where
  "getCookieKey src = decodeCookieArg (takeWhile (\<lambda>c. c \<noteq> CHR ''='') src) False"

text \<open>One cookie: the text up to the next semicolon, split at its first equals sign.\<close>

definition cookieScanner_next :: "string \<Rightarrow> argsKV \<Rightarrow> (string \<times> argsKV) option" where
  "cookieScanner_next b kv =
     (if b = [] then None
      else
        let item = takeWhile (\<lambda>c. c \<noteq> CHR '';'') b;
            key = takeWhile (\<lambda>c. c \<noteq> CHR ''='') item
        in Some (drop (Suc (length item)) b,
             if length key < length item
             then kv\<lparr> kv_key := decodeCookieArg key False, kv_value := decodeCookieArg (drop (Suc (length key)) item) True \<rparr>
             else kv\<lparr> kv_key := [], kv_value := decodeCookieArg item True \<rparr>))"

lemma cookieScanner_next_shorter [termination_simp]: "cookieScanner_next b kv = Some (b', kv') \<Longrightarrow> length b' < length b"
  by (auto simp: cookieScanner_next_def Let_def split: if_splits)

fun parse_cookies_loop :: "string \<Rightarrow> Args \<Rightarrow> Args" where
  "parse_cookies_loop b h =
     (case cookieScanner_next b (last (av_args h)) of
        None \<Rightarrow> h
      | Some (b', kv) \<Rightarrow>
          parse_cookies_loop b' (let h1 = write_last kv h in
            if length (kv_key kv) > 0 \<or> length (kv_value kv) > 0 then allocArg h1 else h1))"

declare parse_cookies_loop.simps [simp del]

definition parseRequestCookies :: "Args \<Rightarrow> string \<Rightarrow> Args" where
  "parseRequestCookies cookies src = releaseArg (parse_cookies_loop src (allocArg cookies))"

fun appendRequestCookieBytes :: "string \<Rightarrow> argsKV list \<Rightarrow> string" where
  "appendRequestCookieBytes dst [] = dst"
| "appendRequestCookieBytes dst (kv # cookies) =
     appendRequestCookieBytes
       (dst @ (if kv_key kv \<noteq> [] then kv_key kv @ ''='' else []) @ kv_value kv @ (if cookies \<noteq> [] then ''; '' else [])) cookies"

fun appendResponseCookieBytes :: "string \<Rightarrow> argsKV list \<Rightarrow> string" where
  "appendResponseCookieBytes dst [] = dst"
| "appendResponseCookieBytes dst (kv # cookies) =
     appendResponseCookieBytes (dst @ kv_value kv @ (if cookies \<noteq> [] then ''; '' else [])) cookies"

section \<open>Which trailer headers panic\<close>

function trailer_items :: "string \<Rightarrow> string list" where
  "trailer_items s =
     (if s = [] then []
      else let item = takeWhile (\<lambda>c. c \<noteq> CHR '','') s in trim_spaces item # trailer_items (drop (Suc (length item)) s))"
  by pat_completeness auto
termination by (relation "measure length") auto

declare trailer_items.simps [simp del]

lemma NormalizeHeaderKey_Nil [simp]: "NormalizeHeaderKey key d = [] \<longleftrightarrow> key = []"
  by (simp add: NormalizeHeaderKey_def split: list.split)

lemma tr_addArgBytes_None: "tr_addArgBytes key v n t = None \<longleftrightarrow> key = []"
  by (simp add: tr_addArgBytes_def unless_bad_def IsBadTrailer_def split: list.split)

lemma tr_addArgBytes_cases:
  "tr_addArgBytes key v n t = Some (e, t1) \<Longrightarrow> tr_disableNormalizing t1 = tr_disableNormalizing t \<and>
     av_args (tr_h t1) = av_args (tr_h t) @ (if e then [] else [\<lparr> kv_key = key, kv_value = (if n then [] else v), kv_noValue = n \<rparr>]) \<and>
     IsBadTrailer key = Some e"
  by (auto simp: tr_addArgBytes_def unless_bad_def appendArg_args split: if_splits)

lemma setTrailers_step:
  assumes "s \<noteq> []" and "item = takeWhile (\<lambda>c. c \<noteq> CHR '','') s" and "key = NormalizeHeaderKey (trim_spaces item) (tr_disableNormalizing t)"
  shows "setTrailers_loop s err t =
      (case tr_addArgBytes key [] True t of None \<Rightarrow> None | Some (e, t1) \<Rightarrow> setTrailers_loop (drop (Suc (length item)) s) e t1)"
    "trailer_items s = trim_spaces item # trailer_items (drop (Suc (length item)) s)"
  unfolding assms(3) unfolding assms(2) using assms(1)
  by (simp_all add: setTrailers_loop.simps [of s] trailer_items.simps [of s] Let_def)

lemma setTrailers_loop_None: "setTrailers_loop s err t = None \<longleftrightarrow> [] \<in> set (trailer_items s)"
proof (induction s err t rule: setTrailers_loop.induct)
  case (1 s err t)
  show ?case
  proof (cases "s = []")
    case False
    define item where "item = takeWhile (\<lambda>c. c \<noteq> CHR '','') s"
    define key where "key = NormalizeHeaderKey (trim_spaces item) (tr_disableNormalizing t)"
    note step = setTrailers_step [OF False item_def key_def]
    show ?thesis
    proof (cases "tr_addArgBytes key [] True t")
      case None
      moreover have "trim_spaces item = []" using None by (simp add: tr_addArgBytes_None key_def)
      ultimately show ?thesis by (simp only: step list.set option.case) simp
    next
      case (Some r)
      obtain e t1 where r: "r = (e, t1)" by (cases r)
      have "trim_spaces item \<noteq> []" using Some tr_addArgBytes_None [of key "[]" True t] by (auto simp: key_def)
      moreover have "setTrailers_loop s err t = setTrailers_loop (drop (Suc (length item)) s) e t1" using Some r by (simp add: step(1))
      ultimately show ?thesis using 1 [OF False item_def key_def Some r [symmetric]] by (simp add: step(2))
    qed
  qed (simp add: setTrailers_loop.simps trailer_items.simps)
qed

lemma setTrailers_loop_keys:
  "setTrailers_loop s err t = Some (e, t1) \<Longrightarrow>
     map kv_key (av_args (tr_h t1)) = map kv_key (av_args (tr_h t)) @
       filter (\<lambda>k. IsBadTrailer k = Some False) (map (\<lambda>k. NormalizeHeaderKey k (tr_disableNormalizing t)) (trailer_items s))"
proof (induction s err t rule: setTrailers_loop.induct)
  case (1 s err t)
  show ?case
  proof (cases "s = []")
    case True
    then show ?thesis using "1.prems" by (simp add: setTrailers_loop.simps trailer_items.simps)
  next
    case False
    define item where "item = takeWhile (\<lambda>c. c \<noteq> CHR '','') s"
    define key where "key = NormalizeHeaderKey (trim_spaces item) (tr_disableNormalizing t)"
    note step = setTrailers_step [OF False item_def key_def]
    obtain e1 t2 where r: "tr_addArgBytes key [] True t = Some (e1, t2)" "setTrailers_loop (drop (Suc (length item)) s) e1 t2 = Some (e, t1)"
      using "1.prems" by (auto simp: step split: option.splits)
    show ?thesis using "1.IH" [OF False item_def key_def r(1) refl r(2)] tr_addArgBytes_cases [OF r(1)]
      by (simp add: step key_def [symmetric])
  qed
qed

text \<open>
  A \<^verbatim>\<open>Trailer\<close> header with an empty item panics. \<open>SetTrailers\<close> returns exactly when no comma-separated item of its text is empty or blank (a trailing comma is harmless);
  otherwise \<open>IsBadTrailer\<close> reads the first byte of an empty name. When it returns, the names it holds are the items that may be trailers, in their order, normalised.
\<close>

theorem set_trailers_panics_on_empty_item:
  "(SetTrailers s t = None \<longleftrightarrow> [] \<in> set (trailer_items s)) \<and>
   (\<forall>e t1. SetTrailers s t = Some (e, t1) \<longrightarrow>
      map kv_key (av_args (tr_h t1)) =
      filter (\<lambda>k. IsBadTrailer k = Some False) (map (\<lambda>k. NormalizeHeaderKey k (tr_disableNormalizing t)) (trailer_items s)))"
  using setTrailers_loop_None [of s False "tr_ResetSkipNormalize t"] setTrailers_loop_keys [of s False "tr_ResetSkipNormalize t"]
  by (simp add: SetTrailers_def tr_ResetSkipNormalize_def args_Reset_def)

theorem set_trailers_panics_on_empty_item_witness:
  "SetTrailers ''Expires,,X-Sum'' new_trailer = None \<and>
   map kv_key (av_args (tr_h (snd (the (SetTrailers ''host, x-sum,'' new_trailer))))) = [''X-Sum'']"
proof -
  have i: "trailer_items ''Expires,,X-Sum'' = [''Expires'', [], ''X-Sum'']" "trailer_items ''host, x-sum,'' = [''host'', ''x-sum'']"
    by code_simp+
  have "SetTrailers ''host, x-sum,'' new_trailer \<noteq> None"
    using set_trailers_panics_on_empty_item [of "''host, x-sum,''" new_trailer] by (simp add: i)
  then obtain e t1 where r: "SetTrailers ''host, x-sum,'' new_trailer = Some (e, t1)" by auto
  have "map kv_key (av_args (tr_h t1)) =
      filter (\<lambda>k. IsBadTrailer k = Some False) (map (\<lambda>k. NormalizeHeaderKey k (tr_disableNormalizing new_trailer)) [''host'', ''x-sum''])"
    using set_trailers_panics_on_empty_item [of "''host, x-sum,''" new_trailer] r by (simp add: i)
  also have "\<dots> = [''X-Sum'']" by code_simp
  finally have "map kv_key (av_args (tr_h t1)) = [''X-Sum'']" .
  moreover have "SetTrailers ''Expires,,X-Sum'' new_trailer = None"
    using set_trailers_panics_on_empty_item [of "''Expires,,X-Sum''" new_trailer] by (simp add: i)
  ultimately show ?thesis using r by simp
qed

section \<open>Cookies are read as they are printed\<close>

definition cookie_pair :: "string \<Rightarrow> string \<times> string" where
  "cookie_pair item =
     (let key = takeWhile (\<lambda>c. c \<noteq> CHR ''='') item in
      if length key < length item then (decodeCookieArg key False, decodeCookieArg (drop (Suc (length key)) item) True)
      else ([], decodeCookieArg item True))"

function cookie_pairs :: "string \<Rightarrow> (string \<times> string) list" where
  "cookie_pairs b =
     (if b = [] then []
      else let item = takeWhile (\<lambda>c. c \<noteq> CHR '';'') b in cookie_pair item # cookie_pairs (drop (Suc (length item)) b))"
  by pat_completeness auto
termination by (relation "measure length") auto

declare cookie_pairs.simps [simp del]

lemma cookie_pairs_step:
  "b \<noteq> [] \<Longrightarrow> takeWhile (\<lambda>c. c \<noteq> CHR '';'') b = item \<Longrightarrow> cookie_pairs b = cookie_pair item # cookie_pairs (drop (Suc (length item)) b)"
  by (simp add: cookie_pairs.simps [of b] Let_def)

definition kv_pair :: "argsKV \<Rightarrow> string \<times> string" where
  "kv_pair kv = (kv_key kv, kv_value kv)"

lemma cookieScanner_next_reads:
  assumes "b \<noteq> []" and "item = takeWhile (\<lambda>c. c \<noteq> CHR '';'') b"
  obtains kv1 where "cookieScanner_next b kv = Some (drop (Suc (length item)) b, kv1)" "kv_pair kv1 = cookie_pair item"
  using assms by (auto simp: cookieScanner_next_def cookie_pair_def kv_pair_def Let_def intro: that)

lemma parse_cookies_loop_reads:
  "av_args h = hs @ [x] \<Longrightarrow>
     \<exists>y. map kv_pair (av_args (parse_cookies_loop b h)) = map kv_pair hs @ filter (\<lambda>p. p \<noteq> ([], [])) (cookie_pairs b) @ [y]"
proof (induction b arbitrary: h hs x rule: cookie_pairs.induct)
  case (1 b)
  show ?case
  proof (cases "b = []")
    case True
    then show ?thesis using "1.prems" by (simp add: parse_cookies_loop.simps [of "[]"] cookieScanner_next_def cookie_pairs.simps)
  next
    case False
    define item where "item = takeWhile (\<lambda>c. c \<noteq> CHR '';'') b"
    let ?r = "drop (Suc (length item)) b"
    obtain kv where kv: "cookieScanner_next b (last (av_args h)) = Some (?r, kv)" "kv_pair kv = cookie_pair item"
      using cookieScanner_next_reads [OF False item_def] by metis
    let ?h1 = "write_last kv h"
    have h1: "av_args ?h1 = hs @ [kv]" using "1.prems" by (simp add: write_last_def)
    have p: "cookie_pairs b = cookie_pair item # cookie_pairs ?r"
      using cookie_pairs_step [OF False item_def [symmetric]] .
    have loop: "parse_cookies_loop b h = parse_cookies_loop ?r (if kv_pair kv \<noteq> ([], []) then allocArg ?h1 else ?h1)"
      using kv(1) by (subst parse_cookies_loop.simps) (simp add: kv_pair_def)
    show ?thesis
    proof (cases "kv_pair kv = ([], [])")
      case True
      with "1.IH" [OF False item_def h1] loop p kv(2) show ?thesis by simp
    next
      case present: False
      obtain z where "av_args (allocArg ?h1) = (hs @ [kv]) @ [z]" using allocArg_args h1 by metis
      from "1.IH" [OF False item_def this] loop p kv(2) present show ?thesis by simp
    qed
  qed
qed

lemma parseRequestCookies_reads:
  "map kv_pair (av_args (parseRequestCookies old b)) = map kv_pair (av_args old) @ filter (\<lambda>p. p \<noteq> ([], [])) (cookie_pairs b)"
proof -
  obtain x where "av_args (allocArg old) = av_args old @ [x]" using allocArg_args by blast
  from parse_cookies_loop_reads [OF this, of b] show ?thesis by (auto simp: parseRequestCookies_def releaseArg_def map_butlast butlast_append)
qed

definition cookie_ok :: "argsKV \<Rightarrow> bool" where
  "cookie_ok kv \<longleftrightarrow> kv_key kv \<noteq> [] \<and> trim_spaces (kv_key kv) = kv_key kv \<and> CHR '';'' \<notin> set (kv_key kv) \<and> CHR ''='' \<notin> set (kv_key kv) \<and>
     CHR '';'' \<notin> set (kv_value kv) \<and> decodeCookieArg (kv_value kv) True = kv_value kv"

definition cookie_text :: "argsKV \<Rightarrow> string" where
  "cookie_text kv = kv_key kv @ ''='' @ kv_value kv"

lemma takeWhile_sep: "c \<notin> set xs \<Longrightarrow> takeWhile (\<lambda>x. x \<noteq> c) (xs @ c # ys) = xs" "c \<notin> set xs \<Longrightarrow> takeWhile (\<lambda>x. x \<noteq> c) xs = xs"
  by (induction xs) auto

lemma trim_leading_space: "trim_spaces (CHR '' '' # s) = trim_spaces s"
  by (simp add: trim_spaces_def)

lemma cookie_pair_text:
  assumes "cookie_ok kv" and "sp = [] \<or> sp = '' ''"
  shows "cookie_pair (sp @ cookie_text kv) = kv_pair kv" "CHR '';'' \<notin> set (sp @ cookie_text kv)"
proof -
  have k: "CHR ''='' \<notin> set (sp @ kv_key kv)" using assms by (auto simp: cookie_ok_def)
  have tk: "takeWhile (\<lambda>c. c \<noteq> CHR ''='') (sp @ cookie_text kv) = sp @ kv_key kv"
    using takeWhile_sep(1) [OF k, of "kv_value kv"] by (simp add: cookie_text_def)
  have "trim_spaces (sp @ kv_key kv) = kv_key kv" using assms by (auto simp: cookie_ok_def trim_leading_space)
  then show "cookie_pair (sp @ cookie_text kv) = kv_pair kv"
    unfolding cookie_pair_def Let_def tk using assms(1)
    by (simp add: cookie_text_def cookie_ok_def kv_pair_def decodeCookieArg_def [of _ False] Let_def)
  show "CHR '';'' \<notin> set (sp @ cookie_text kv)" using assms by (auto simp: cookie_ok_def cookie_text_def)
qed

lemma appendRequestCookieBytes_acc: "appendRequestCookieBytes dst cs = dst @ appendRequestCookieBytes [] cs"
proof (induction cs arbitrary: dst)
  case (Cons kv cs)
  show ?case by (subst (1 2) appendRequestCookieBytes.simps(2), subst (1 2) Cons) simp
qed simp

lemma cookie_pairs_printed:
  "list_all cookie_ok cs \<Longrightarrow> cs \<noteq> [] \<Longrightarrow> sp = [] \<or> sp = '' '' \<Longrightarrow> cookie_pairs (sp @ appendRequestCookieBytes [] cs) = map kv_pair cs"
proof (induction cs arbitrary: sp)
  case (Cons kv cs)
  then have ok: "cookie_ok kv" by simp
  have t: "appendRequestCookieBytes [] (kv # cs) = cookie_text kv @ (if cs \<noteq> [] then ''; '' @ appendRequestCookieBytes [] cs else [])"
    using ok by (subst appendRequestCookieBytes.simps, subst appendRequestCookieBytes_acc) (simp add: cookie_text_def cookie_ok_def)
  note pair = cookie_pair_text [OF ok Cons.prems(3)]
  show ?case
  proof (cases "cs = []")
    case True
    have "cookie_pairs (sp @ cookie_text kv) = [cookie_pair (sp @ cookie_text kv)]"
      using cookie_pairs_step [OF _ takeWhile_sep(2) [OF pair(2)]] by (simp add: cookie_pairs.simps [of "[]"] cookie_text_def)
    then show ?thesis using True t pair(1) by simp
  next
    case False
    let ?b = "sp @ cookie_text kv @ CHR '';'' # '' '' @ appendRequestCookieBytes [] cs"
    have "takeWhile (\<lambda>c. c \<noteq> CHR '';'') ?b = sp @ cookie_text kv"
      using takeWhile_sep(1) [OF pair(2), of "'' '' @ appendRequestCookieBytes [] cs"] by simp
    then have "cookie_pairs ?b = cookie_pair (sp @ cookie_text kv) # cookie_pairs ('' '' @ appendRequestCookieBytes [] cs)"
      using cookie_pairs_step [of ?b "sp @ cookie_text kv"] by simp
    then show ?thesis using Cons.IH [of "'' ''"] Cons.prems(1) False t pair(1) by simp
  qed
qed simp

text \<open>
  The cookies of a request are read as they are printed. For cookies with a name, without semicolons, without an equals sign in the name and
  with neither blanks nor quotes around name and value, parsing the \<^verbatim>\<open>Cookie\<close> header that they print adds exactly these cookies, in order, to the cookies that are already there, whatever
  the reused elements of the slice held before.
\<close>

theorem cookies_roundtrip:
  assumes "list_all cookie_ok cs"
  shows "map kv_pair (av_args (parseRequestCookies old (appendRequestCookieBytes [] cs))) = map kv_pair (av_args old) @ map kv_pair cs"
proof (cases "cs = []")
  case True
  then show ?thesis by (simp add: parseRequestCookies_reads cookie_pairs.simps)
next
  case False
  have "filter (\<lambda>p. p \<noteq> ([], [])) (map kv_pair cs) = map kv_pair cs"
    using assms by (auto simp: filter_id_conv list_all_iff kv_pair_def cookie_ok_def)
  then show ?thesis using cookie_pairs_printed [OF assms False, of "[]"] by (simp add: parseRequestCookies_reads)
qed

definition ex_cookies :: "argsKV list" where
  "ex_cookies = [\<lparr> kv_key = ''sid'', kv_value = ''a=b'', kv_noValue = False \<rparr>, \<lparr> kv_key = ''lang'', kv_value = ''de'', kv_noValue = False \<rparr>]"

theorem cookies_roundtrip_witness:
  "map kv_pair (av_args (parseRequestCookies new_args (appendRequestCookieBytes [] ex_cookies))) = [(''sid'', ''a=b''), (''lang'', ''de'')] \<and>
   appendRequestCookieBytes [] ex_cookies = ''sid=a=b; lang=de''"
proof -
  have "list_all cookie_ok ex_cookies" by code_simp
  then show ?thesis using cookies_roundtrip [of ex_cookies new_args] by (simp add: ex_cookies_def kv_pair_def new_args_def)
qed

end
