(* ===== verification/Http_Header.thy ===== *)
theory Http_Header
  imports Http_Trailer
begin

text \<open>
  \<^verbatim>\<open>web/protocol/header.go\<close>: the headers of requests and responses. A few fields have a place of their own in the struct (host, content type and length, user agent,
  server, connection, cookies, trailer), all others are arguments. A panic is \<open>None\<close>. Byte slices and strings are \<open>string\<close>, so a method and its twin for the
  other type are one definition; a trailer that is allocated on first use is always there. Scratch buffers, pools and the server's clock (an argument) are left out.
\<close>

definition ValidHeaderFieldNameTable :: "char \<Rightarrow> bool" where
  "ValidHeaderFieldNameTable c = (let i = of_char c :: nat in
     97 \<le> i \<and> i \<le> 122 \<or> 65 \<le> i \<and> i \<le> 90 \<or> 48 \<le> i \<and> i \<le> 57 \<or> c \<in> set ''!#$%&'' \<or> i = 39 \<or> c \<in> set ''*+-.^_'' \<or> i = 96 \<or> c \<in> set ''|~'')"

definition crlf :: string where
  "crlf = [CHR 0x0D, CHR 0x0A]"

definition ParseContentLength :: "string \<Rightarrow> int option" where
  "ParseContentLength b =
     (let (v, n, err) = ParseUintBuf b in
      if err \<noteq> None then None else if n \<noteq> length b then None else Some v)"

definition appendHeaderValue :: "string \<Rightarrow> string \<Rightarrow> string" where
  "appendHeaderValue dst v = dst @ map (\<lambda>c. if c = CHR 0x0D \<or> c = CHR 0x0A then CHR '' '' else c) v"

definition appendHeaderLine :: "string \<Rightarrow> string \<Rightarrow> string \<Rightarrow> string" where
  "appendHeaderLine dst key v =
     (if list_all ValidHeaderFieldNameTable key then appendHeaderValue (dst @ key @ '': '') v @ crlf else dst)"

fun append_lines :: "string \<Rightarrow> argsKV list \<Rightarrow> string" where
  "append_lines dst [] = dst"
| "append_lines dst (kv # h) = append_lines (appendHeaderLine dst (kv_key kv) (kv_value kv)) h"

definition append_if :: "bool \<Rightarrow> string \<Rightarrow> string \<Rightarrow> string \<Rightarrow> string" where
  "append_if b key v dst = (if b then appendHeaderLine dst key v else dst)"

section \<open>Requests\<close>

record RequestHeader =
  rq_disableNormalizing :: bool
  rq_connectionClose :: bool
  rq_noDefaultContentType :: bool
  rq_cookiesCollected :: bool
  rq_contentLength :: int
  rq_contentLengthBytes :: string
  rq_method :: string
  rq_requestURI :: string
  rq_host :: string
  rq_contentType :: string
  rq_userAgent :: string
  rq_protocol :: string
  rq_h :: Args
  rq_trailer :: Trailer
  rq_cookies :: Args
  rq_rawHeaders :: string

definition new_request_header :: RequestHeader where
  "new_request_header = \<lparr> rq_disableNormalizing = False, rq_connectionClose = False, rq_noDefaultContentType = False, rq_cookiesCollected = False,
     rq_contentLength = 0, rq_contentLengthBytes = [], rq_method = [], rq_requestURI = [], rq_host = [], rq_contentType = [], rq_userAgent = [],
     rq_protocol = [], rq_h = new_args, rq_trailer = new_trailer, rq_cookies = new_args, rq_rawHeaders = [] \<rparr>"

definition rq_ResetConnectionClose :: "RequestHeader \<Rightarrow> RequestHeader" where
  "rq_ResetConnectionClose h =
     (if rq_connectionClose h then h\<lparr> rq_connectionClose := False, rq_h := delAllArgs ''Connection'' (rq_h h) \<rparr> else h)"

text \<open>The loop of \<open>collectCookies\<close>: the arguments before the index, those at and behind it, the spare ones, and the cookies so far.\<close>

fun collect_loop :: "argsKV list \<Rightarrow> argsKV list \<Rightarrow> argsKV list \<Rightarrow> Args \<Rightarrow> Args \<times> Args" where
  "collect_loop kept [] sp cookies = (\<lparr> av_args = kept, av_spare = sp \<rparr>, cookies)"
| "collect_loop kept (kv # h) sp cookies =
     (if kv_key kv = ''Cookie'' then collect_loop kept h (kv # sp) (parseRequestCookies cookies (kv_value kv))
      else collect_loop (kept @ [kv]) h sp cookies)"

definition collectCookies :: "RequestHeader \<Rightarrow> RequestHeader" where
  "collectCookies h =
     (if rq_cookiesCollected h then h
      else let (a, c) = collect_loop [] (av_args (rq_h h)) (av_spare (rq_h h)) (rq_cookies h)
           in h\<lparr> rq_h := a, rq_cookies := c, rq_cookiesCollected := True \<rparr>)"

text \<open>The first component of the result of \<open>setSpecialHeader\<close> is whether the header has been processed.\<close>

definition rq_setSpecialHeader :: "string \<Rightarrow> string \<Rightarrow> RequestHeader \<Rightarrow> (bool \<times> RequestHeader) option" where
  "rq_setSpecialHeader key v h =
     (case key of
        [] \<Rightarrow> Some (False, h)
      | k # _ \<Rightarrow>
          let c = fold20 k in
          if c = of_char CHR ''c'' \<and> CaseInsensitiveCompare ''Content-Type'' key then Some (True, h\<lparr> rq_contentType := v \<rparr>)
          else if c = of_char CHR ''c'' \<and> CaseInsensitiveCompare ''Content-Length'' key then
            (case ParseContentLength v of
               Some n \<Rightarrow> Some (True, h\<lparr> rq_contentLength := n, rq_contentLengthBytes := v \<rparr>)
             | None \<Rightarrow> Some (True, h))
          else if c = of_char CHR ''c'' \<and> CaseInsensitiveCompare ''Connection'' key then
            (if v = ''close'' then Some (True, h\<lparr> rq_connectionClose := True \<rparr>)
             else let h1 = rq_ResetConnectionClose h in Some (True, h1\<lparr> rq_h := setArg key v False (rq_h h1) \<rparr>))
          else if c = of_char CHR ''c'' \<and> CaseInsensitiveCompare ''Cookie'' key then
            (let h1 = collectCookies h in Some (True, h1\<lparr> rq_cookies := parseRequestCookies (rq_cookies h1) v \<rparr>))
          else if c = of_char CHR ''t'' \<and> CaseInsensitiveCompare ''Transfer-Encoding'' key then Some (True, h)
          else if c = of_char CHR ''t'' \<and> CaseInsensitiveCompare ''Trailer'' key then
            map_option (\<lambda>(_, t). (True, h\<lparr> rq_trailer := t \<rparr>)) (SetTrailers v (rq_trailer h))
          else if c = of_char CHR ''h'' \<and> CaseInsensitiveCompare ''Host'' key then Some (True, h\<lparr> rq_host := v \<rparr>)
          else if c = of_char CHR ''u'' \<and> CaseInsensitiveCompare ''User-Agent'' key then Some (True, h\<lparr> rq_userAgent := v \<rparr>)
          else Some (False, h))"

definition rq_SetCanonical :: "string \<Rightarrow> string \<Rightarrow> RequestHeader \<Rightarrow> RequestHeader option" where
  "rq_SetCanonical key v h =
     (case rq_setSpecialHeader key v h of
        None \<Rightarrow> None
      | Some (done, h1) \<Rightarrow> Some (if done then h1 else h1\<lparr> rq_h := setArg key v False (rq_h h1) \<rparr>))"

definition rq_Set :: "string \<Rightarrow> string \<Rightarrow> RequestHeader \<Rightarrow> RequestHeader option" where
  "rq_Set key v h = rq_SetCanonical (NormalizeHeaderKey key (rq_disableNormalizing h)) v h"

definition rq_Add :: "string \<Rightarrow> string \<Rightarrow> RequestHeader \<Rightarrow> RequestHeader option" where
  "rq_Add key v h =
     (case rq_setSpecialHeader key v h of
        None \<Rightarrow> None
      | Some (done, h1) \<Rightarrow>
          Some (if done then h1
                else h1\<lparr> rq_h := appendArg (NormalizeHeaderKey key (rq_disableNormalizing h1)) v False (rq_h h1) \<rparr>))"

definition rq_peek :: "string \<Rightarrow> RequestHeader \<Rightarrow> string" where
  "rq_peek key h =
     (if key = ''Host'' then rq_host h
      else if key = ''Content-Type'' then rq_contentType h
      else if key = ''User-Agent'' then rq_userAgent h
      else if key = ''Connection'' \<and> rq_connectionClose h then ''close''
      else if key = ''Content-Length'' then rq_contentLengthBytes h
      else if key = ''Cookie'' \<and> rq_cookiesCollected h then appendRequestCookieBytes [] (av_args (rq_cookies h))
      else if key = ''Trailer'' then tr_GetBytes (rq_trailer h)
      else opt_string (peekArgStr (av_args (rq_h h)) key))"

definition rq_Peek :: "string \<Rightarrow> RequestHeader \<Rightarrow> string" where
  "rq_Peek key h = rq_peek (NormalizeHeaderKey key (rq_disableNormalizing h)) h"

definition all_args :: "string \<Rightarrow> argsKV list \<Rightarrow> string list" where
  "all_args key h = map kv_value (filter (\<lambda>kv. kv_key kv = key) h)"

definition rq_peekAll :: "string \<Rightarrow> RequestHeader \<Rightarrow> string list" where
  "rq_peekAll key h =
     (if key = ''Host'' then (if rq_host h \<noteq> [] then [rq_host h] else [])
      else if key = ''Content-Type'' then (if rq_contentType h \<noteq> [] then [rq_contentType h] else [])
      else if key = ''User-Agent'' then (if rq_userAgent h \<noteq> [] then [rq_userAgent h] else [])
      else if key = ''Connection'' \<and> rq_connectionClose h then [''close'']
      else if key = ''Content-Length'' then [rq_contentLengthBytes h]
      else if key = ''Cookie'' \<and> rq_cookiesCollected h then [appendRequestCookieBytes [] (av_args (rq_cookies h))]
      else all_args key (av_args (rq_h h)))"

definition rq_del :: "string \<Rightarrow> RequestHeader \<Rightarrow> RequestHeader" where
  "rq_del key h =
     (let h1 = (if key = ''Host'' then h\<lparr> rq_host := [] \<rparr>
                else if key = ''Content-Type'' then h\<lparr> rq_contentType := [] \<rparr>
                else if key = ''User-Agent'' then h\<lparr> rq_userAgent := [] \<rparr>
                else if key = ''Cookie'' then h\<lparr> rq_cookies := args_Reset (rq_cookies h) \<rparr>
                else if key = ''Content-Length'' then h\<lparr> rq_contentLength := 0, rq_contentLengthBytes := [] \<rparr>
                else if key = ''Connection'' then h\<lparr> rq_connectionClose := False \<rparr>
                else if key = ''Trailer'' then h\<lparr> rq_trailer := tr_ResetSkipNormalize (rq_trailer h) \<rparr>
                else h)
      in h1\<lparr> rq_h := delAllArgs key (rq_h h1) \<rparr>)"

definition rq_Del :: "string \<Rightarrow> RequestHeader \<Rightarrow> RequestHeader" where
  "rq_Del key h = rq_del (NormalizeHeaderKey key (rq_disableNormalizing h)) h"

definition rq_SetContentLength :: "int \<Rightarrow> RequestHeader \<Rightarrow> RequestHeader option" where
  "rq_SetContentLength n h =
     (let h1 = h\<lparr> rq_contentLength := n \<rparr> in
      if n \<ge> 0 then
        map_option (\<lambda>b. h1\<lparr> rq_contentLengthBytes := b, rq_h := delAllArgs ''Transfer-Encoding'' (rq_h h1) \<rparr>) (AppendUint [] n)
      else Some (h1\<lparr> rq_contentLengthBytes := [], rq_h := setArg ''Transfer-Encoding'' ''chunked'' False (rq_h h1) \<rparr>))"

definition rq_ResetSkipNormalize :: "RequestHeader \<Rightarrow> RequestHeader" where
  "rq_ResetSkipNormalize h = h\<lparr> rq_connectionClose := False, rq_protocol := [], rq_noDefaultContentType := False, rq_contentLength := 0,
     rq_contentLengthBytes := [], rq_method := [], rq_requestURI := [], rq_host := [], rq_contentType := [], rq_userAgent := [],
     rq_h := args_Reset (rq_h h), rq_cookies := args_Reset (rq_cookies h), rq_cookiesCollected := False, rq_rawHeaders := [],
     rq_trailer := tr_ResetSkipNormalize (rq_trailer h) \<rparr>"

definition rq_Reset :: "RequestHeader \<Rightarrow> RequestHeader" where
  "rq_Reset h = rq_ResetSkipNormalize (h\<lparr> rq_disableNormalizing := False, rq_trailer := (rq_trailer h)\<lparr> tr_disableNormalizing := False \<rparr> \<rparr>)"

definition rq_Method :: "RequestHeader \<Rightarrow> string" where
  "rq_Method h = (if rq_method h = [] then ''GET'' else rq_method h)"

definition rq_RequestURI :: "RequestHeader \<Rightarrow> string" where
  "rq_RequestURI h = (if rq_requestURI h = [] then ''/'' else rq_requestURI h)"

definition rq_IgnoreBody :: "RequestHeader \<Rightarrow> bool" where
  "rq_IgnoreBody h \<longleftrightarrow> rq_Method h = ''GET'' \<or> rq_Method h = ''HEAD''"

definition rq_AppendBytes :: "string \<Rightarrow> RequestHeader \<Rightarrow> string" where
  "rq_AppendBytes dst h =
     (let d0 = dst @ rq_Method h @ '' '' @ rq_RequestURI h @ '' '' @ ''HTTP/1.1'' @ crlf;
          d1 = append_if (rq_userAgent h \<noteq> []) ''User-Agent'' (rq_userAgent h) d0;
          d2 = append_if (rq_host h \<noteq> []) ''Host'' (rq_host h) d1;
          ct = (if rq_contentType h = [] \<and> \<not> rq_IgnoreBody h \<and> \<not> rq_noDefaultContentType h
                then ''application/x-www-form-urlencoded'' else rq_contentType h);
          d3 = append_if (ct \<noteq> []) ''Content-Type'' ct d2;
          d4 = append_if (rq_contentLengthBytes h \<noteq> []) ''Content-Length'' (rq_contentLengthBytes h) d3;
          d5 = append_lines d4 (av_args (rq_h h));
          d6 = append_if (\<not> tr_Empty (rq_trailer h)) ''Trailer'' (tr_GetBytes (rq_trailer h)) d5;
          d7 = (if av_args (rq_cookies h) \<noteq> [] then appendRequestCookieBytes (d6 @ ''Cookie'' @ '': '') (av_args (rq_cookies h)) @ crlf else d6);
          d8 = append_if (rq_connectionClose h) ''Connection'' ''close'' d7
      in d8 @ crlf)"

definition rq_SetCookie :: "string \<Rightarrow> string \<Rightarrow> RequestHeader \<Rightarrow> RequestHeader" where
  "rq_SetCookie key v h = (let h1 = collectCookies h in h1\<lparr> rq_cookies := setArg key v False (rq_cookies h1) \<rparr>)"

definition rq_Cookie :: "string \<Rightarrow> RequestHeader \<Rightarrow> string \<times> RequestHeader" where
  "rq_Cookie key h = (let h1 = collectCookies h in (opt_string (peekArgStr (av_args (rq_cookies h1)) key), h1))"

definition rq_DelCookie :: "string \<Rightarrow> RequestHeader \<Rightarrow> RequestHeader" where
  "rq_DelCookie key h = (let h1 = collectCookies h in h1\<lparr> rq_cookies := delAllArgs key (rq_cookies h1) \<rparr>)"

definition rq_DelAllCookies :: "RequestHeader \<Rightarrow> RequestHeader" where
  "rq_DelAllCookies h = (let h1 = collectCookies h in h1\<lparr> rq_cookies := args_Reset (rq_cookies h1) \<rparr>)"

section \<open>Responses\<close>

record ResponseHeader =
  rs_disableNormalizing :: bool
  rs_connectionClose :: bool
  rs_noDefaultContentType :: bool
  rs_noDefaultDate :: bool
  rs_statusCode :: int
  rs_contentLength :: int
  rs_contentLengthBytes :: string
  rs_contentEncoding :: string
  rs_contentType :: string
  rs_server :: string
  rs_protocol :: string
  rs_h :: Args
  rs_trailer :: Trailer
  rs_cookies :: Args

definition rs_ResetConnectionClose :: "ResponseHeader \<Rightarrow> ResponseHeader" where
  "rs_ResetConnectionClose h =
     (if rs_connectionClose h then h\<lparr> rs_connectionClose := False, rs_h := delAllArgs ''Connection'' (rs_h h) \<rparr> else h)"

definition rs_ParseSetCookie :: "string \<Rightarrow> ResponseHeader \<Rightarrow> ResponseHeader" where
  "rs_ParseSetCookie v h =
     (let c = allocArg (rs_cookies h)
      in h\<lparr> rs_cookies := write_last ((last (av_args c))\<lparr> kv_key := getCookieKey v, kv_value := v \<rparr>) c \<rparr>)"

definition rs_setSpecialHeader :: "string \<Rightarrow> string \<Rightarrow> ResponseHeader \<Rightarrow> (bool \<times> ResponseHeader) option" where
  "rs_setSpecialHeader key v h =
     (case key of
        [] \<Rightarrow> Some (False, h)
      | k # _ \<Rightarrow>
          let c = fold20 k in
          if c = of_char CHR ''c'' \<and> CaseInsensitiveCompare ''Content-Type'' key then Some (True, h\<lparr> rs_contentType := v \<rparr>)
          else if c = of_char CHR ''c'' \<and> CaseInsensitiveCompare ''Content-Length'' key then
            (case ParseContentLength v of
               Some n \<Rightarrow> Some (True, h\<lparr> rs_contentLength := n, rs_contentLengthBytes := v \<rparr>)
             | None \<Rightarrow> Some (True, h))
          else if c = of_char CHR ''c'' \<and> CaseInsensitiveCompare ''Content-Encoding'' key then Some (True, h\<lparr> rs_contentEncoding := v \<rparr>)
          else if c = of_char CHR ''c'' \<and> CaseInsensitiveCompare ''Connection'' key then
            (if v = ''close'' then Some (True, h\<lparr> rs_connectionClose := True \<rparr>)
             else let h1 = rs_ResetConnectionClose h in Some (True, h1\<lparr> rs_h := setArg key v False (rs_h h1) \<rparr>))
          else if c = of_char CHR ''s'' \<and> CaseInsensitiveCompare ''Server'' key then Some (True, h\<lparr> rs_server := v \<rparr>)
          else if c = of_char CHR ''s'' \<and> CaseInsensitiveCompare ''Set-Cookie'' key then Some (True, rs_ParseSetCookie v h)
          else if c = of_char CHR ''t'' \<and> CaseInsensitiveCompare ''Transfer-Encoding'' key then Some (True, h)
          else if c = of_char CHR ''t'' \<and> CaseInsensitiveCompare ''Trailer'' key then
            map_option (\<lambda>(_, t). (True, h\<lparr> rs_trailer := t \<rparr>)) (SetTrailers v (rs_trailer h))
          else if c = of_char CHR ''d'' \<and> CaseInsensitiveCompare ''Date'' key then Some (True, h)
          else Some (False, h))"

definition rs_SetCanonical :: "string \<Rightarrow> string \<Rightarrow> ResponseHeader \<Rightarrow> ResponseHeader option" where
  "rs_SetCanonical key v h =
     (case rs_setSpecialHeader key v h of
        None \<Rightarrow> None
      | Some (done, h1) \<Rightarrow> Some (if done then h1 else h1\<lparr> rs_h := setArg key v False (rs_h h1) \<rparr>))"

definition rs_Set :: "string \<Rightarrow> string \<Rightarrow> ResponseHeader \<Rightarrow> ResponseHeader option" where
  "rs_Set key v h = rs_SetCanonical (NormalizeHeaderKey key (rs_disableNormalizing h)) v h"

definition rs_Add :: "string \<Rightarrow> string \<Rightarrow> ResponseHeader \<Rightarrow> ResponseHeader option" where
  "rs_Add key v h =
     (case rs_setSpecialHeader key v h of
        None \<Rightarrow> None
      | Some (done, h1) \<Rightarrow>
          Some (if done then h1
                else h1\<lparr> rs_h := appendArg (NormalizeHeaderKey key (rs_disableNormalizing h1)) v False (rs_h h1) \<rparr>))"

definition rs_ContentType :: "ResponseHeader \<Rightarrow> string" where
  "rs_ContentType h = (if \<not> rs_noDefaultContentType h \<and> rs_contentType h = [] then ''text/plain; charset=utf-8'' else rs_contentType h)"

definition rs_peek :: "string \<Rightarrow> ResponseHeader \<Rightarrow> string" where
  "rs_peek key h =
     (if key = ''Content-Type'' then rs_ContentType h
      else if key = ''Content-Encoding'' then rs_contentEncoding h
      else if key = ''Server'' then rs_server h
      else if key = ''Connection'' \<and> rs_connectionClose h then ''close''
      else if key = ''Content-Length'' then rs_contentLengthBytes h
      else if key = ''Set-Cookie'' then appendResponseCookieBytes [] (av_args (rs_cookies h))
      else if key = ''Trailer'' then tr_GetBytes (rs_trailer h)
      else opt_string (peekArgStr (av_args (rs_h h)) key))"

definition rs_Peek :: "string \<Rightarrow> ResponseHeader \<Rightarrow> string" where
  "rs_Peek key h = rs_peek (NormalizeHeaderKey key (rs_disableNormalizing h)) h"

definition rs_peekAll :: "string \<Rightarrow> ResponseHeader \<Rightarrow> string list" where
  "rs_peekAll key h =
     (if key = ''Content-Type'' then (if rs_ContentType h \<noteq> [] then [rs_ContentType h] else [])
      else if key = ''Content-Encoding'' then (if rs_contentEncoding h \<noteq> [] then [rs_contentEncoding h] else [])
      else if key = ''Server'' then (if rs_server h \<noteq> [] then [rs_server h] else [])
      else if key = ''Connection'' \<and> rs_connectionClose h then [''close'']
      else if key = ''Content-Length'' then [rs_contentLengthBytes h]
      else if key = ''Set-Cookie'' then [appendResponseCookieBytes [] (av_args (rs_cookies h))]
      else all_args key (av_args (rs_h h)))"

definition rs_del :: "string \<Rightarrow> ResponseHeader \<Rightarrow> ResponseHeader" where
  "rs_del key h =
     (let h1 = (if key = ''Content-Type'' then h\<lparr> rs_contentType := [] \<rparr>
                else if key = ''Content-Encoding'' then h\<lparr> rs_contentEncoding := [] \<rparr>
                else if key = ''Server'' then h\<lparr> rs_server := [] \<rparr>
                else if key = ''Set-Cookie'' then h\<lparr> rs_cookies := args_Reset (rs_cookies h) \<rparr>
                else if key = ''Content-Length'' then h\<lparr> rs_contentLength := 0, rs_contentLengthBytes := [] \<rparr>
                else if key = ''Connection'' then h\<lparr> rs_connectionClose := False \<rparr>
                else if key = ''Trailer'' then h\<lparr> rs_trailer := tr_ResetSkipNormalize (rs_trailer h) \<rparr>
                else h)
      in h1\<lparr> rs_h := delAllArgs key (rs_h h1) \<rparr>)"

definition rs_Del :: "string \<Rightarrow> ResponseHeader \<Rightarrow> ResponseHeader" where
  "rs_Del key h = rs_del (NormalizeHeaderKey key (rs_disableNormalizing h)) h"

definition rs_StatusCode :: "ResponseHeader \<Rightarrow> int" where
  "rs_StatusCode h = (if rs_statusCode h = 0 then 200 else rs_statusCode h)"

definition MustSkipContentLength :: "ResponseHeader \<Rightarrow> bool" where
  "MustSkipContentLength h =
     (let s = rs_StatusCode h in
      if s < 100 \<or> s = 200 then False else s = 304 \<or> s = 204 \<or> s < 200)"

definition rs_SetContentLength :: "int \<Rightarrow> ResponseHeader \<Rightarrow> ResponseHeader option" where
  "rs_SetContentLength n h =
     (if MustSkipContentLength h then Some h
      else
        let h1 = h\<lparr> rs_contentLength := n \<rparr> in
        if n \<ge> 0 then
          map_option (\<lambda>b. h1\<lparr> rs_contentLengthBytes := b, rs_h := delAllArgs ''Transfer-Encoding'' (rs_h h1) \<rparr>) (AppendUint [] n)
        else
          let h2 = h1\<lparr> rs_contentLengthBytes := [] \<rparr>
          in Some (if n = - 2 then h2\<lparr> rs_connectionClose := True, rs_h := setArg ''Transfer-Encoding'' ''identity'' False (rs_h h2) \<rparr>
                   else h2\<lparr> rs_h := setArg ''Transfer-Encoding'' ''chunked'' False (rs_h h2) \<rparr>))"

definition statusMessages :: "(int \<times> string) list" where
  "statusMessages = [
     (100, ''Continue''), (101, ''Switching Protocols''), (102, ''Processing''), (200, ''OK''), (201, ''Created''), (202, ''Accepted''),
     (203, ''Non-Authoritative Information''), (204, ''No Content''), (205, ''Reset Content''), (206, ''Partial Content''), (207, ''Multi-Status''),
     (208, ''Already Reported''), (226, ''IM Used''), (300, ''Multiple Choices''), (301, ''Moved Permanently''), (302, ''Found''),
     (303, ''See Other''), (304, ''Not Modified''), (305, ''Use Proxy''), (307, ''Temporary Redirect''), (308, ''Permanent Redirect''),
     (400, ''Bad Request''), (401, ''Unauthorized''), (402, ''Payment Required''), (403, ''Forbidden''), (404, ''Not Found''),
     (405, ''Method Not Allowed''), (406, ''Not Acceptable''), (407, ''Proxy Authentication Required''), (408, ''Request Timeout''),
     (409, ''Conflict''), (410, ''Gone''), (411, ''Length Required''), (412, ''Precondition Failed''), (413, ''Request Entity Too Large''),
     (414, ''Request URI Too Long''), (415, ''Unsupported Media Type''), (416, ''Requested Range Not Satisfiable''), (417, ''Expectation Failed''),
     (418, ''I'' @ [CHR 0x27] @ ''m a teapot''), (422, ''Unprocessable Entity''), (423, ''Locked''), (424, ''Failed Dependency''),
     (426, ''Upgrade Required''), (428, ''Precondition Required''), (429, ''Too Many Requests''), (431, ''Request Header Fields Too Large''),
     (451, ''Unavailable For Legal Reasons''), (500, ''Internal Server Error''), (501, ''Not Implemented''), (502, ''Bad Gateway''),
     (503, ''Service Unavailable''), (504, ''Gateway Timeout''), (505, ''HTTP Version Not Supported''), (506, ''Variant Also Negotiates''),
     (507, ''Insufficient Storage''), (508, ''Loop Detected''), (510, ''Not Extended''), (511, ''Network Authentication Required'')]"

definition StatusMessage :: "int \<Rightarrow> string" where
  "StatusMessage statusCode =
     (if statusCode < 100 \<or> statusCode > 511 then ''Unknown Status Code''
      else case map_of statusMessages statusCode of None \<Rightarrow> ''Unknown Status Code'' | Some s \<Rightarrow> s)"

definition StatusLine :: "int \<Rightarrow> string" where
  "StatusLine statusCode = ''HTTP/1.1 '' @ int_dec statusCode @ '' '' @ StatusMessage statusCode @ crlf"

fun set_cookie_lines :: "string \<Rightarrow> argsKV list \<Rightarrow> string" where
  "set_cookie_lines dst [] = dst"
| "set_cookie_lines dst (kv # cs) = set_cookie_lines (appendHeaderLine dst ''Set-Cookie'' (kv_value kv)) cs"

definition rs_AppendBytes :: "string \<Rightarrow> string \<Rightarrow> ResponseHeader \<Rightarrow> string" where
  "rs_AppendBytes date dst h =
     (let statusCode = (if rs_StatusCode h < 0 then 200 else rs_StatusCode h);
          d0 = dst @ StatusLine statusCode;
          d1 = append_if (rs_server h \<noteq> []) ''Server'' (rs_server h) d0;
          d2 = append_if (\<not> rs_noDefaultDate h) ''Date'' date d1;
          d3 = append_if ((rs_contentLength h \<noteq> 0 \<or> rs_contentType h \<noteq> []) \<and> rs_ContentType h \<noteq> []) ''Content-Type'' (rs_ContentType h) d2;
          d4 = append_if (rs_contentEncoding h \<noteq> []) ''Content-Encoding'' (rs_contentEncoding h) d3;
          d5 = append_if (rs_contentLengthBytes h \<noteq> []) ''Content-Length'' (rs_contentLengthBytes h) d4;
          d6 = append_lines d5 (filter (\<lambda>kv. rs_noDefaultDate h \<or> kv_key kv \<noteq> ''Date'') (av_args (rs_h h)));
          d7 = append_if (\<not> tr_Empty (rs_trailer h)) ''Trailer'' (tr_GetBytes (rs_trailer h)) d6;
          d8 = set_cookie_lines d7 (av_args (rs_cookies h));
          d9 = append_if (rs_connectionClose h) ''Connection'' ''close'' d8
      in d9 @ crlf)"

section \<open>Fields are a map\<close>

datatype field_op = FSet string string | FDel string

fun op_key :: "field_op \<Rightarrow> string" where
  "op_key (FSet k v) = k"
| "op_key (FDel k) = k"

fun field_run :: "(string \<Rightarrow> string \<Rightarrow> 'h \<Rightarrow> 'h option) \<Rightarrow> (string \<Rightarrow> 'h \<Rightarrow> 'h) \<Rightarrow> field_op list \<Rightarrow> 'h \<Rightarrow> 'h option" where
  "field_run fset fdel [] h = Some h"
| "field_run fset fdel (FSet k v # ops) h = (case fset k v h of None \<Rightarrow> None | Some h1 \<Rightarrow> field_run fset fdel ops h1)"
| "field_run fset fdel (FDel k # ops) h = field_run fset fdel ops (fdel k h)"

text \<open>The map from names to values that the operations describe, up to a normal form \<open>nf\<close> of names.\<close>

fun field_update :: "(string \<Rightarrow> string) \<Rightarrow> field_op \<Rightarrow> (string \<Rightarrow> string) \<Rightarrow> string \<Rightarrow> string" where
  "field_update nf (FSet k v) m j = (if nf j = nf k then v else m j)"
| "field_update nf (FDel k) m j = (if nf j = nf k then [] else m j)"

locale field_map =
  fixes norm :: "'h \<Rightarrow> string \<Rightarrow> string" and fset :: "string \<Rightarrow> string \<Rightarrow> 'h \<Rightarrow> 'h option" and fdel :: "string \<Rightarrow> 'h \<Rightarrow> 'h"
    and fpeek :: "string \<Rightarrow> 'h \<Rightarrow> string" and special :: "string \<Rightarrow> bool"
  assumes fset_law: "\<not> special (norm h k) \<Longrightarrow>
      \<exists>h1. fset k v h = Some h1 \<and> norm h1 = norm h \<and> (\<forall>j. fpeek j h1 = (if norm h j = norm h k then v else fpeek j h))"
    and fdel_law: "\<not> special (norm h k) \<Longrightarrow>
      norm (fdel k h) = norm h \<and> fpeek j (fdel k h) = (if norm h j = norm h k then [] else fpeek j h)"
begin

lemma run_refines:
  assumes "list_all (\<lambda>op. \<not> special (norm h (op_key op))) ops"
  shows "\<exists>h1. field_run fset fdel ops h = Some h1 \<and> norm h1 = norm h \<and>
     (\<forall>j. fpeek j h1 = fold (field_update (norm h)) ops (\<lambda>j. fpeek j h) j)"
  using assms
proof (induction ops arbitrary: h)
  case (Cons op ops)
  obtain h1 where h1: "field_run fset fdel (op # ops) h = field_run fset fdel ops h1" "norm h1 = norm h"
    "\<And>j. fpeek j h1 = field_update (norm h) op (\<lambda>j. fpeek j h) j"
  proof (cases op)
    case (FSet k v)
    then show thesis using that fset_law [of h k v] Cons.prems by auto
  next
    case (FDel k)
    then show thesis using that fdel_law [of h k] Cons.prems by auto
  qed
  have "(\<lambda>j. fpeek j h1) = field_update (norm h) op (\<lambda>j. fpeek j h)" using h1(3) by (rule ext)
  then show ?case using Cons.IH [of h1] Cons.prems h1 by simp
qed simp

end

lemma CaseInsensitiveCompare_refl [simp]: "CaseInsensitiveCompare s s"
  by (simp add: CaseInsensitiveCompare_def list_all2_refl)

definition rq_names :: "string list" where
  "rq_names = [''Content-Type'', ''Content-Length'', ''Connection'', ''Cookie'', ''Transfer-Encoding'', ''Trailer'', ''Host'', ''User-Agent'']"

definition rs_names :: "string list" where
  "rs_names = [''Content-Type'', ''Content-Length'', ''Content-Encoding'', ''Connection'', ''Server'', ''Set-Cookie'', ''Transfer-Encoding'', ''Trailer'', ''Date'']"

definition is_named :: "string list \<Rightarrow> string \<Rightarrow> bool" where
  "is_named names key \<longleftrightarrow> list_ex (\<lambda>n. CaseInsensitiveCompare n key) names"

lemma rq_regular: "\<not> is_named rq_names key \<Longrightarrow> rq_setSpecialHeader key v h = Some (False, h)"
  by (cases key) (simp_all add: rq_setSpecialHeader_def is_named_def rq_names_def Let_def)

lemma rs_regular: "\<not> is_named rs_names key \<Longrightarrow> rs_setSpecialHeader key v h = Some (False, h)"
  by (cases key) (simp_all add: rs_setSpecialHeader_def is_named_def rs_names_def Let_def)

lemma named_self: "k \<in> set names \<Longrightarrow> is_named names k"
  by (auto simp: is_named_def list_ex_iff intro!: bexI [of _ k])

lemma rq_regular_ne:
  assumes "\<not> is_named rq_names k"
  shows "k \<noteq> ''Host'' \<and> k \<noteq> ''Content-Type'' \<and> k \<noteq> ''User-Agent'' \<and> k \<noteq> ''Connection'' \<and> k \<noteq> ''Content-Length'' \<and> k \<noteq> ''Cookie'' \<and> k \<noteq> ''Trailer''"
proof -
  have "k \<notin> set rq_names" using assms named_self by blast
  then show ?thesis by (simp add: rq_names_def)
qed

lemma rs_regular_ne:
  assumes "\<not> is_named rs_names k"
  shows "k \<noteq> ''Content-Type'' \<and> k \<noteq> ''Content-Encoding'' \<and> k \<noteq> ''Server'' \<and> k \<noteq> ''Connection'' \<and> k \<noteq> ''Content-Length'' \<and> k \<noteq> ''Set-Cookie'' \<and> k \<noteq> ''Trailer''"
proof -
  have "k \<notin> set rs_names" using assms named_self by blast
  then show ?thesis by (simp add: rs_names_def)
qed

lemma rq_peek_regular:
  assumes "\<not> is_named rq_names k"
  shows "rq_peek j (h\<lparr> rq_h := setArg k v False a \<rparr>) = (if j = k then v else rq_peek j (h\<lparr> rq_h := a \<rparr>))"
    "rq_peek j (h\<lparr> rq_h := delAllArgs k a \<rparr>) = (if j = k then [] else rq_peek j (h\<lparr> rq_h := a \<rparr>))"
  using rq_regular_ne [OF assms] by (simp_all add: rq_peek_def opt_string_def peek_setArg delAllArgs_args peek_filter)

lemma rs_peek_regular:
  assumes "\<not> is_named rs_names k"
  shows "rs_peek j (h\<lparr> rs_h := setArg k v False a \<rparr>) = (if j = k then v else rs_peek j (h\<lparr> rs_h := a \<rparr>))"
    "rs_peek j (h\<lparr> rs_h := delAllArgs k a \<rparr>) = (if j = k then [] else rs_peek j (h\<lparr> rs_h := a \<rparr>))"
  using rs_regular_ne [OF assms] by (simp_all add: rs_peek_def rs_ContentType_def opt_string_def peek_setArg delAllArgs_args peek_filter)

interpretation rq: field_map "\<lambda>h k. NormalizeHeaderKey k (rq_disableNormalizing h)" rq_Set rq_Del rq_Peek "is_named rq_names"
proof
  fix h :: RequestHeader and k j v :: string
  let ?k = "NormalizeHeaderKey k (rq_disableNormalizing h)"
  assume r: "\<not> is_named rq_names ?k"
  have s: "rq_Set k v h = Some (h\<lparr> rq_h := setArg ?k v False (rq_h h) \<rparr>)"
    using rq_regular [OF r, of v h] by (simp add: rq_Set_def rq_SetCanonical_def)
  show "\<exists>h1. rq_Set k v h = Some h1 \<and> (\<lambda>k. NormalizeHeaderKey k (rq_disableNormalizing h1)) = (\<lambda>k. NormalizeHeaderKey k (rq_disableNormalizing h)) \<and>
      (\<forall>j. rq_Peek j h1 = (if NormalizeHeaderKey j (rq_disableNormalizing h) = ?k then v else rq_Peek j h))"
    using rq_peek_regular(1) [OF r, where h = h and v = v and a = "rq_h h"] by (simp add: s rq_Peek_def)
  have "rq_Del k h = h\<lparr> rq_h := delAllArgs ?k (rq_h h) \<rparr>" using rq_regular_ne [OF r] by (simp add: rq_Del_def rq_del_def)
  then show "(\<lambda>k'. NormalizeHeaderKey k' (rq_disableNormalizing (rq_Del k h))) = (\<lambda>k. NormalizeHeaderKey k (rq_disableNormalizing h)) \<and>
      rq_Peek j (rq_Del k h) = (if NormalizeHeaderKey j (rq_disableNormalizing h) = ?k then [] else rq_Peek j h)"
    using rq_peek_regular(2) [OF r, where h = h and a = "rq_h h"] by (simp add: rq_Peek_def)
qed

interpretation rs: field_map "\<lambda>h k. NormalizeHeaderKey k (rs_disableNormalizing h)" rs_Set rs_Del rs_Peek "is_named rs_names"
proof
  fix h :: ResponseHeader and k j v :: string
  let ?k = "NormalizeHeaderKey k (rs_disableNormalizing h)"
  assume r: "\<not> is_named rs_names ?k"
  have s: "rs_Set k v h = Some (h\<lparr> rs_h := setArg ?k v False (rs_h h) \<rparr>)"
    using rs_regular [OF r, of v h] by (simp add: rs_Set_def rs_SetCanonical_def)
  show "\<exists>h1. rs_Set k v h = Some h1 \<and> (\<lambda>k. NormalizeHeaderKey k (rs_disableNormalizing h1)) = (\<lambda>k. NormalizeHeaderKey k (rs_disableNormalizing h)) \<and>
      (\<forall>j. rs_Peek j h1 = (if NormalizeHeaderKey j (rs_disableNormalizing h) = ?k then v else rs_Peek j h))"
    using rs_peek_regular(1) [OF r, where h = h and v = v and a = "rs_h h"] by (simp add: s rs_Peek_def)
  have "rs_Del k h = h\<lparr> rs_h := delAllArgs ?k (rs_h h) \<rparr>" using rs_regular_ne [OF r] by (simp add: rs_Del_def rs_del_def)
  then show "(\<lambda>k'. NormalizeHeaderKey k' (rs_disableNormalizing (rs_Del k h))) = (\<lambda>k. NormalizeHeaderKey k (rs_disableNormalizing h)) \<and>
      rs_Peek j (rs_Del k h) = (if NormalizeHeaderKey j (rs_disableNormalizing h) = ?k then [] else rs_Peek j h)"
    using rs_peek_regular(2) [OF r, where h = h and a = "rs_h h"] by (simp add: rs_Peek_def)
qed

text \<open>
  C37: The header of a request is a map from names to values. After any sequence of Set and Del of ordinary fields, none of which panics, Peek returns for every name, up to the
  normal form of names, what was set last, nothing if it was deleted since, and what it returned before if the name was not touched; fields with a place of their own are not disturbed.
\<close>

theorem request_fields_last_write_wins:
  assumes "list_all (\<lambda>op. \<not> is_named rq_names (NormalizeHeaderKey (op_key op) (rq_disableNormalizing h))) ops"
  shows "\<exists>h1. field_run rq_Set rq_Del ops h = Some h1 \<and>
     rq_Peek j h1 = fold (field_update (\<lambda>k. NormalizeHeaderKey k (rq_disableNormalizing h))) ops (\<lambda>j. rq_Peek j h) j"
  using rq.run_refines [OF assms] by blast

theorem request_fields_last_write_wins_witness:
  "\<exists>h1. field_run rq_Set rq_Del [FSet ''x-a'' ''1'', FSet ''X-B'' ''2'', FSet ''X-A'' ''3''] new_request_header = Some h1 \<and> rq_Peek ''x-A'' h1 = ''3''"
proof -
  let ?ops = "[FSet ''x-a'' ''1'', FSet ''X-B'' ''2'', FSet ''X-A'' ''3'']"
  have "list_all (\<lambda>op. \<not> is_named rq_names (NormalizeHeaderKey (op_key op) (rq_disableNormalizing new_request_header))) ?ops" by code_simp
  from request_fields_last_write_wins [OF this, of "''x-A''"]
  obtain h1 where h1: "field_run rq_Set rq_Del ?ops new_request_header = Some h1"
    "rq_Peek ''x-A'' h1 = fold (field_update (\<lambda>k. NormalizeHeaderKey k (rq_disableNormalizing new_request_header))) ?ops (\<lambda>j. rq_Peek j new_request_header) ''x-A''"
    by blast
  have "NormalizeHeaderKey ''x-A'' False = ''X-A'' \<and> NormalizeHeaderKey ''X-A'' False = ''X-A''" by code_simp
  then have "rq_Peek ''x-A'' h1 = ''3''" using h1(2) by (simp add: new_request_header_def)
  then show ?thesis using h1(1) by blast
qed

text \<open>The same holds for responses.\<close>

lemma response_fields_last_write_wins:
  assumes "list_all (\<lambda>op. \<not> is_named rs_names (NormalizeHeaderKey (op_key op) (rs_disableNormalizing h))) ops"
  shows "\<exists>h1. field_run rs_Set rs_Del ops h = Some h1 \<and>
     rs_Peek j h1 = fold (field_update (\<lambda>k. NormalizeHeaderKey k (rs_disableNormalizing h))) ops (\<lambda>j. rs_Peek j h) j"
  using rs.run_refines [OF assms] by blast

section \<open>The printed header\<close>

definition line_ok :: "string \<Rightarrow> bool" where
  "line_ok l \<longleftrightarrow> l \<noteq> [] \<and> CHR 0x0D \<notin> set l \<and> CHR 0x0A \<notin> set l"

text \<open>\<open>dst1\<close> is \<open>dst\<close> and some complete lines.\<close>

definition adds_lines :: "string \<Rightarrow> string \<Rightarrow> bool" where
  "adds_lines dst dst1 \<longleftrightarrow> (\<exists>ls. dst1 = dst @ concat (map (\<lambda>l. l @ crlf) ls) \<and> list_all line_ok ls)"

lemma adds_lines_refl [simp]: "adds_lines dst dst"
  by (auto simp: adds_lines_def intro!: exI [of _ "[]"])

lemma adds_lines_trans: "adds_lines d0 d1 \<Longrightarrow> adds_lines d1 d2 \<Longrightarrow> adds_lines d0 d2"
proof -
  assume "adds_lines d0 d1" "adds_lines d1 d2"
  then obtain l1 l2 where "d1 = d0 @ concat (map (\<lambda>l. l @ crlf) l1)" "list_all line_ok l1" "d2 = d1 @ concat (map (\<lambda>l. l @ crlf) l2)" "list_all line_ok l2"
    by (auto simp: adds_lines_def)
  then show ?thesis by (auto simp: adds_lines_def intro!: exI [of _ "l1 @ l2"])
qed

lemma line_ok_line: "line_ok l \<Longrightarrow> adds_lines dst (dst @ l @ crlf)"
  by (auto simp: adds_lines_def intro!: exI [of _ "[l]"])

lemma valid_name_chars: "ValidHeaderFieldNameTable c \<Longrightarrow> c \<noteq> CHR 0x0D \<and> c \<noteq> CHR 0x0A"
  by (auto simp: ValidHeaderFieldNameTable_def)

lemma appendHeaderLine_adds: "adds_lines dst (appendHeaderLine dst key v)"
proof (cases "list_all ValidHeaderFieldNameTable key")
  case True
  then have k: "CHR 0x0D \<notin> set key" "CHR 0x0A \<notin> set key" using valid_name_chars by (auto simp: list_all_iff)
  let ?l = "key @ '': '' @ map (\<lambda>c. if c = CHR 0x0D \<or> c = CHR 0x0A then CHR '' '' else c) v"
  have "line_ok ?l" using k by (auto simp: line_ok_def)
  from line_ok_line [OF this, of dst] True show ?thesis by (simp add: appendHeaderLine_def appendHeaderValue_def)
next
  case False
  then show ?thesis by (simp add: appendHeaderLine_def)
qed

lemma append_if_adds: "adds_lines dst (append_if b key v dst)"
  by (simp add: append_if_def appendHeaderLine_adds)

lemma append_lines_adds: "adds_lines dst (append_lines dst h)"
  by (induction dst h rule: append_lines.induct) (auto intro: adds_lines_trans appendHeaderLine_adds)

lemma set_cookie_lines_adds: "adds_lines dst (set_cookie_lines dst cs)"
  by (induction dst cs rule: set_cookie_lines.induct) (auto intro: adds_lines_trans appendHeaderLine_adds)

lemma nat_dec_clean: "c \<in> set (nat_dec n) \<Longrightarrow> c \<noteq> CHR 0x0D \<and> c \<noteq> CHR 0x0A"
proof (induction n rule: nat_dec.induct)
  case (1 n)
  have d: "dec_digit m \<noteq> CHR 0x0D \<and> dec_digit m \<noteq> CHR 0x0A" if "m < 10" for m
  proof -
    have o: "(of_char (dec_digit m) :: nat) = 48 + m" using that by (simp add: dec_digit_def)
    have "dec_digit m \<noteq> c" if "of_char c < (48 :: nat)" for c using o that by auto
    then show ?thesis by simp
  qed
  show ?case using 1 d [of n] d [of "n mod 10"] by (subst (asm) nat_dec.simps) (auto split: if_splits)
qed

lemma StatusLine_adds: "adds_lines dst (dst @ StatusLine code)"
proof -
  have m: "list_all (\<lambda>(c, s). CHR 0x0D \<notin> set s \<and> CHR 0x0A \<notin> set s) statusMessages" by code_simp
  have "CHR 0x0D \<notin> set (StatusMessage code) \<and> CHR 0x0A \<notin> set (StatusMessage code)"
  proof (cases "map_of statusMessages code")
    case (Some s)
    then have "(code, s) \<in> set statusMessages" by (rule map_of_SomeD)
    then show ?thesis using m Some by (auto simp: StatusMessage_def list_all_iff)
  qed (simp add: StatusMessage_def)
  moreover have "CHR 0x0D \<notin> set (int_dec code) \<and> CHR 0x0A \<notin> set (int_dec code)" using nat_dec_clean by (auto simp: int_dec_def)
  ultimately have "line_ok (''HTTP/1.1 '' @ int_dec code @ '' '' @ StatusMessage code)" by (simp add: line_ok_def)
  from line_ok_line [OF this, of dst] show ?thesis by (simp add: StatusLine_def)
qed

text \<open>
  C40: A response header cannot be split. Whatever names and values its fields, cookies and trailers hold, and whatever the status code is, the printed header is a list of
  non-empty lines, none of which contains a carriage return or a line feed, each ended by CRLF, and one empty line at its end: a value never ends the header or starts another field.
\<close>

theorem response_header_not_split:
  "\<exists>ls. rs_AppendBytes date [] h = concat (map (\<lambda>l. l @ crlf) ls) @ crlf \<and> list_all line_ok ls"
proof -
  have "\<exists>d. rs_AppendBytes date [] h = d @ crlf \<and> adds_lines [] d"
    unfolding rs_AppendBytes_def Let_def
    by (rule exI, rule conjI, rule refl)
      (rule adds_lines_trans [OF _ append_if_adds] adds_lines_trans [OF _ set_cookie_lines_adds] adds_lines_trans [OF _ append_lines_adds] StatusLine_adds)+
  then show ?thesis by (auto simp: adds_lines_def)
qed

text \<open>The cookies of a request are printed as they are: a value with CRLF in it adds a field.\<close>

lemma request_cookie_splits_header:
  "rq_AppendBytes [] (rq_SetCookie ''a'' (''x'' @ crlf @ ''Evil: 1'') new_request_header) =
     ''GET / HTTP/1.1'' @ crlf @ ''Cookie: a=x'' @ crlf @ ''Evil: 1'' @ crlf @ crlf"
  by code_simp

text \<open>
  \<open>Add\<close> hands the name to \<open>setSpecialHeader\<close> before it normalises it, which stores a connection option under the name as it was given; \<open>Peek\<close> looks for the normalised one.
\<close>

lemma added_connection_is_lost:
  "map_option (rq_Peek ''connection'') (rq_Add ''connection'' ''upgrade'' new_request_header) = Some []"
  "map_option (rq_Peek ''connection'') (rq_Set ''connection'' ''upgrade'' new_request_header) = Some ''upgrade''"
  by code_simp+

text \<open>Setting the cookie header again adds cookies, it does not overwrite them.\<close>

lemma second_cookie_header_adds:
  "map_option (rq_Peek ''Cookie'') (Option.bind (rq_Set ''Cookie'' ''a=1'' new_request_header) (rq_Set ''Cookie'' ''b=2'')) = Some ''a=1; b=2''"
  by code_simp

text \<open>A transfer encoding is dropped, so a later look for it finds nothing.\<close>

lemma transfer_encoding_is_dropped: "rq_Set ''transfer-encoding'' v new_request_header = Some new_request_header"
proof -
  have k: "NormalizeHeaderKey ''transfer-encoding'' False = ''Transfer-Encoding''" by code_simp
  have "rq_setSpecialHeader ''Transfer-Encoding'' v new_request_header = Some (True, new_request_header)"
    by (simp add: rq_setSpecialHeader_def CaseInsensitiveCompare_def fold20_def)
  then show ?thesis by (simp add: rq_Set_def rq_SetCanonical_def k new_request_header_def)
qed

end
