(* ===== verification/Net_Conn.thy ===== *)
theory Net_Conn
  imports Go_Numbers
begin

text \<open>
  The buffered connection of the standard transport (\<^verbatim>\<open>web/network/standard/connection.go\<close> and \<^verbatim>\<open>buffer.go\<close>)
  and the interface \<open>network.Reader\<close> that the HTTP/1 code reads from (\<^verbatim>\<open>web/network/connection.go\<close>).

  A node of a linked buffer keeps its whole array, so a slice of it may reach up to the capacity. The chain from \<open>head\<close> to
  \<open>write\<close> is a list, and the pointer \<open>read\<close> is a position in it. The socket is what the calls of \<open>Read\<close> on
  it return from now on, in order: some bytes and perhaps an error; a result longer than the slice that is read into is delivered in
  parts. A call that never returns, because the socket delivers nothing more, is \<open>None\<close>, and so is a panic. The allocator
  of the package \<open>mcache\<close>, which is not part of the repository, is the parameter \<open>alloc\<close>.
\<close>

section \<open>Nodes\<close>

datatype io_error = EOF | UnexpectedEOF | SockError string | SkipNotEnough nat

record linkBufferNode =
  nd_buf :: string
  nd_off :: nat
  nd_malloc :: nat
  nd_readOnly :: bool

definition block1k :: nat where "block1k = 1024"
definition block4k :: nat where "block4k = 4096"
definition block8k :: nat where "block8k = 8192"
definition mallocMax :: nat where "mallocMax = 524288"
definition defaultMallocSize :: nat where "defaultMallocSize = block4k"

lemmas block_defs = block1k_def block4k_def block8k_def mallocMax_def defaultMallocSize_def

definition go_malloc :: "(nat \<Rightarrow> string) \<Rightarrow> nat \<Rightarrow> string" where
  "go_malloc alloc n = (if n > mallocMax then replicate n (CHR 0x00) else alloc n)"

definition newBufferNode :: "(nat \<Rightarrow> string) \<Rightarrow> nat \<Rightarrow> linkBufferNode" where
  "newBufferNode alloc n = \<lparr> nd_buf = go_malloc alloc n, nd_off = 0, nd_malloc = 0, nd_readOnly = False \<rparr>"

definition nd_Reset :: "linkBufferNode \<Rightarrow> linkBufferNode" where
  "nd_Reset b = b\<lparr> nd_off := 0, nd_malloc := 0, nd_readOnly := False \<rparr>"

definition nd_Len :: "linkBufferNode \<Rightarrow> nat" where
  "nd_Len b = nd_malloc b - nd_off b"

definition nd_cap :: "linkBufferNode \<Rightarrow> nat" where
  "nd_cap b = length (nd_buf b)"

definition recyclable :: "linkBufferNode \<Rightarrow> bool" where
  "recyclable b \<longleftrightarrow> nd_cap b \<le> block8k \<and> \<not> nd_readOnly b"

text \<open>\<open>buf[off:off+n]\<close>, and \<open>copy(buf[at:], d)\<close>.\<close>

definition nd_slice :: "nat \<Rightarrow> linkBufferNode \<Rightarrow> string" where
  "nd_slice n b = take n (drop (nd_off b) (nd_buf b))"

definition store_at :: "nat \<Rightarrow> string \<Rightarrow> linkBufferNode \<Rightarrow> linkBufferNode" where
  "store_at i d b = b\<lparr> nd_buf := take i (nd_buf b) @ d @ drop (i + length d) (nd_buf b) \<rparr>"

section \<open>The connection\<close>

record linkBuffer =
  lb_nodes :: "linkBufferNode list"
  lb_read :: nat
  lb_len :: nat

type_synonym socket = "(string \<times> io_error option) list"

record Conn =
  cn_sock :: socket
  cn_writes :: "(nat \<times> io_error) option list"
  cn_sent :: string
  cn_input :: linkBuffer
  cn_output :: linkBuffer
  cn_caches :: "string list"
  cn_maxSize :: nat
  cn_err :: "io_error option"

definition newConn :: "(nat \<Rightarrow> string) \<Rightarrow> socket \<Rightarrow> (nat \<times> io_error) option list \<Rightarrow> nat \<Rightarrow> Conn" where
  "newConn alloc sock writes sz =
     (let maxSize = (if sz > defaultMallocSize then sz else defaultMallocSize) in
      \<lparr> cn_sock = sock, cn_writes = writes, cn_sent = [],
        cn_input = \<lparr> lb_nodes = [newBufferNode alloc maxSize], lb_read = 0, lb_len = 0 \<rparr>,
        cn_output = \<lparr> lb_nodes = [newBufferNode alloc 0], lb_read = 0, lb_len = 0 \<rparr>,
        cn_caches = [], cn_maxSize = maxSize, cn_err = None \<rparr>)"

definition cn_Len :: "Conn \<Rightarrow> nat" where
  "cn_Len c = lb_len (cn_input c)"

definition set_input :: "linkBufferNode list \<Rightarrow> nat \<Rightarrow> nat \<Rightarrow> Conn \<Rightarrow> Conn" where
  "set_input ns rd n c = c\<lparr> cn_input := \<lparr> lb_nodes = ns, lb_read = rd, lb_len = n \<rparr> \<rparr>"

subsection \<open>Reading from the socket\<close>

fun sock_read :: "nat \<Rightarrow> socket \<Rightarrow> (string \<times> io_error option \<times> socket) option" where
  "sock_read k [] = None"
| "sock_read k ((d, e) # s) = Some (if k < length d then (take k d, None, (drop k d, e) # s) else (d, e, s))"

definition sock_size :: "socket \<Rightarrow> nat" where
  "sock_size s = length s + sum_list (map (length \<circ> fst) s)"

lemma sock_read_smaller: "sock_read k s = Some (d, e, s') \<Longrightarrow> 0 < k \<Longrightarrow> sock_size s' < sock_size s"
  by (cases "(k, s)" rule: sock_read.cases) (auto simp: sock_size_def split: if_splits)

text \<open>
  The loop of \<open>fill\<close>, on the node that is written to and the number of bytes in the buffer. A read into an empty slice returns at
  once with nothing, so that the loop would spin. The result has the error that is returned and the error that is kept.
\<close>

function (sequential) fill_loop :: "nat \<Rightarrow> linkBufferNode \<Rightarrow> nat \<Rightarrow> socket \<Rightarrow>
    (io_error option \<times> io_error option \<times> linkBufferNode \<times> nat \<times> socket) option" where
  "fill_loop 0 node len s = Some (None, None, node, len, s)"
| "fill_loop i node len s =
     (if nd_cap node - nd_malloc node = 0 then None else
      case sock_read (nd_cap node - nd_malloc node) s of
        None \<Rightarrow> None
      | Some (d, e, s') \<Rightarrow>
          let node' = (store_at (nd_malloc node) d node)\<lparr> nd_malloc := nd_malloc node + length d \<rparr>;
              len' = len + length d
          in (if e \<noteq> None then Some (if d \<noteq> [] then (None, e, node', len', s') else (e, None, node', len', s'))
              else fill_loop (i - length d) node' len' s'))"
  by pat_completeness auto
termination
  by (relation "measure (\<lambda>(i, node, len, s). sock_size s)") (auto dest: sock_read_smaller)

text \<open>The nodes with the one that \<open>fill\<close> reads into at the end: a new one, when the last has no room or holds an older request.\<close>

definition fill_nodes :: "(nat \<Rightarrow> string) \<Rightarrow> nat \<Rightarrow> Conn \<Rightarrow> linkBufferNode list" where
  "fill_nodes alloc i c =
     (let ns = lb_nodes (cn_input c); node = last ns
      in if nd_cap node - nd_malloc node < i - cn_Len c \<or> nd_readOnly node
         then butlast ns @ [node\<lparr> nd_readOnly := False \<rparr>, newBufferNode alloc (if i < cn_maxSize c then cn_maxSize c else i)] else ns)"

definition fill :: "(nat \<Rightarrow> string) \<Rightarrow> nat \<Rightarrow> Conn \<Rightarrow> (io_error option \<times> Conn) option" where
  "fill alloc i c =
     (if cn_Len c \<ge> i then Some (None, c)
      else if cn_err c \<noteq> None then
        (if cn_Len c > 0 then Some (None, c) else Some (cn_err c, c\<lparr> cn_err := None \<rparr>))
      else let ns' = fill_nodes alloc i c
           in (case fill_loop (i - cn_Len c) (last ns') (cn_Len c) (cn_sock c) of
                 None \<Rightarrow> None
               | Some (e, kept, node', len', s') \<Rightarrow>
                   Some (e, (set_input (butlast ns' @ [node']) (lb_read (cn_input c)) len' c)\<lparr> cn_sock := s', cn_err := kept \<rparr>)))"

text \<open>Loading a buffer from the nodes that start at the read pointer.\<close>

fun peekBuffer :: "nat \<Rightarrow> linkBufferNode list \<Rightarrow> string option" where
  "peekBuffer 0 ns = Some []"
| "peekBuffer ack [] = None"
| "peekBuffer ack (node # ns) =
     (if nd_Len node \<ge> ack then Some (nd_slice ack node)
      else map_option (\<lambda>d. nd_slice (nd_Len node) node @ d) (peekBuffer (ack - nd_Len node) ns))"

definition from_read :: "Conn \<Rightarrow> linkBufferNode list" where
  "from_read c = drop (lb_read (cn_input c)) (lb_nodes (cn_input c))"

definition cn_Peek :: "(nat \<Rightarrow> string) \<Rightarrow> nat \<Rightarrow> Conn \<Rightarrow> (string \<times> io_error option \<times> Conn) option" where
  "cn_Peek alloc i c =
     (case fill alloc i c of
        None \<Rightarrow> None
      | Some (Some e, c') \<Rightarrow> Some ([], Some e, c')
      | Some (None, c') \<Rightarrow>
          let short = cn_Len c' < i;
              n = (if short then cn_Len c' else i);
              e = (if short then cn_err c' else None);
              c'' = (if short then c'\<lparr> cn_err := None \<rparr> else c')
          in (case from_read c'' of
                [] \<Rightarrow> None
              | node # _ \<Rightarrow>
                  if nd_Len node \<ge> n then Some (nd_slice n node, e, c'')
                  else map_option (\<lambda>p. (p, e, if block1k < n \<and> n \<le> mallocMax then c''\<lparr> cn_caches := cn_caches c'' @ [p] \<rparr> else c''))
                         (peekBuffer n (from_read c''))))"

function (sequential) skip_loop :: "nat \<Rightarrow> nat \<Rightarrow> linkBufferNode list \<Rightarrow> (nat \<times> linkBufferNode list) option" where
  "skip_loop 0 rd ns = Some (rd, ns)"
| "skip_loop ack rd ns =
     (if rd \<ge> length ns then None
      else let node = ns ! rd in
        if nd_Len node \<ge> ack then Some (rd, ns[rd := node\<lparr> nd_off := nd_off node + ack \<rparr>])
        else skip_loop (ack - nd_Len node) (rd + 1) ns)"
  by pat_completeness auto
termination
  by (relation "measure (\<lambda>(ack, rd, ns). length ns - rd)") auto

definition cn_Skip :: "nat \<Rightarrow> Conn \<Rightarrow> (io_error option \<times> Conn) option" where
  "cn_Skip n c =
     (if cn_Len c < n then Some (Some (SkipNotEnough n), c)
      else map_option (\<lambda>(rd, ns). (None, set_input ns rd (cn_Len c - n) c))
             (skip_loop n (lb_read (cn_input c)) (lb_nodes (cn_input c))))"

definition handleTail :: "(nat \<Rightarrow> string) \<Rightarrow> nat \<Rightarrow> linkBufferNode \<Rightarrow> linkBufferNode" where
  "handleTail alloc maxSize node = (if nd_cap node > mallocMax then newBufferNode alloc maxSize else nd_Reset node)"

definition grow_maxSize :: "nat \<Rightarrow> nat \<Rightarrow> nat" where
  "grow_maxSize sz maxSize = (let m = (if sz > mallocMax then mallocMax else sz) in if m > maxSize then m else maxSize)"

definition cn_Release :: "(nat \<Rightarrow> string) \<Rightarrow> Conn \<Rightarrow> Conn" where
  "cn_Release alloc c =
     (let ns = lb_nodes (cn_input c); rd = lb_read (cn_input c) in
      if cn_Len c = 0 \<and> length ns = 1 then set_input [nd_Reset (hd ns)] rd 0 c
      else if cn_Len c = 0 \<and> length ns = 2 then
        let m = grow_maxSize (nd_malloc (hd ns) + nd_malloc (last ns)) (cn_maxSize c)
        in (set_input [handleTail alloc m (last ns)] 0 0 c)\<lparr> cn_maxSize := m, cn_caches := [] \<rparr>
      else
        let sz = sum_list (map nd_malloc (take rd (tl ns)));
            ns' = drop rd ns
        in (set_input (butlast ns' @ [(last ns')\<lparr> nd_readOnly := True \<rparr>]) 0 (cn_Len c) c)
             \<lparr> cn_maxSize := grow_maxSize sz (cn_maxSize c), cn_caches := [] \<rparr>)"

definition cn_next :: "(nat \<Rightarrow> string) \<Rightarrow> nat \<Rightarrow> Conn \<Rightarrow> (string \<times> io_error option \<times> Conn) option" where
  "cn_next alloc n c =
     (case peekBuffer n (from_read c) of
        None \<Rightarrow> None
      | Some b \<Rightarrow>
          (case cn_Skip n c of
             None \<Rightarrow> None
           | Some (Some e, c') \<Rightarrow> Some (b, Some e, c')
           | Some (None, c') \<Rightarrow> Some (b, None, cn_Release alloc c')))"

text \<open>\<open>Read\<close> into a slice of \<open>k\<close> bytes.\<close>

definition cn_Read :: "(nat \<Rightarrow> string) \<Rightarrow> nat \<Rightarrow> Conn \<Rightarrow> (string \<times> io_error option \<times> Conn) option" where
  "cn_Read alloc k c =
     (if cn_Len c > 0 then cn_next alloc (min (cn_Len c) k) c
      else if k \<le> block4k then
        (case fill alloc 1 c of
           None \<Rightarrow> None
         | Some (Some e, c') \<Rightarrow> Some ([], Some e, c')
         | Some (None, c') \<Rightarrow> cn_next alloc (min (cn_Len c') k) c')
      else map_option (\<lambda>(d, e, s'). (d, e, c\<lparr> cn_sock := s' \<rparr>)) (sock_read k (cn_sock c)))"

definition cn_ReadByte :: "(nat \<Rightarrow> string) \<Rightarrow> Conn \<Rightarrow> (char \<times> io_error option \<times> Conn) option" where
  "cn_ReadByte alloc c =
     (case cn_Peek alloc 1 c of
        None \<Rightarrow> None
      | Some (_, Some e, c') \<Rightarrow> Some (CHR '' '', Some e, c')
      | Some (b, None, c') \<Rightarrow>
          (case cn_Skip 1 c' of
             None \<Rightarrow> None
           | Some (Some e, c'') \<Rightarrow> Some (CHR '' '', Some e, c'')
           | Some (None, c'') \<Rightarrow> (case b of [] \<Rightarrow> None | x # _ \<Rightarrow> Some (x, None, c''))))"

definition cn_ReadBinary :: "(nat \<Rightarrow> string) \<Rightarrow> nat \<Rightarrow> Conn \<Rightarrow> (string \<times> io_error option \<times> Conn) option" where
  "cn_ReadBinary alloc i c =
     (case cn_Peek alloc i c of
        None \<Rightarrow> None
      | Some (_, Some e, c') \<Rightarrow> Some ([], Some e, c')
      | Some (b, None, c') \<Rightarrow> map_option (\<lambda>(e, c''). (b, e, c'')) (cn_Skip i c'))"

text \<open>
  The slice that \<open>Peek\<close> returns is part of the array of the node when the node has all its bytes, and a copy otherwise. \<open>poke\<close>
  is what becomes of the connection when a caller overwrites that slice with \<open>d\<close>.
\<close>

definition cn_poke :: "string \<Rightarrow> Conn \<Rightarrow> Conn" where
  "cn_poke d c =
     (let ns = lb_nodes (cn_input c); rd = lb_read (cn_input c); node = ns ! rd
      in if rd < length ns \<and> length d \<le> nd_Len node then set_input (ns[rd := store_at (nd_off node) d node]) rd (cn_Len c) c else c)"

subsection \<open>Writing\<close>

definition set_output :: "linkBufferNode list \<Rightarrow> nat \<Rightarrow> Conn \<Rightarrow> Conn" where
  "set_output ns n c = c\<lparr> cn_output := \<lparr> lb_nodes = ns, lb_read = 0, lb_len = n \<rparr> \<rparr>"

text \<open>\<open>Malloc\<close> reserves \<open>n\<close> bytes at the end of the last node; \<open>put_last\<close> is what the caller then stores there.\<close>

definition cn_Malloc :: "(nat \<Rightarrow> string) \<Rightarrow> nat \<Rightarrow> Conn \<Rightarrow> Conn" where
  "cn_Malloc alloc n c =
     (let ns = lb_nodes (cn_output c); len = lb_len (cn_output c) in
      if n = 0 then c
      else if len > n then
        set_output (butlast ns @ [(last ns)\<lparr> nd_malloc := nd_malloc (last ns) + n \<rparr>]) (len - n) c
      else
        let node = (newBufferNode alloc (if n < defaultMallocSize then defaultMallocSize else n))\<lparr> nd_malloc := n \<rparr>
        in set_output (ns @ [node]) (nd_cap node - n) c)"

definition put_last :: "string \<Rightarrow> Conn \<Rightarrow> Conn" where
  "put_last d c =
     (let ns = lb_nodes (cn_output c); node = last ns
      in set_output (butlast ns @ [store_at (nd_malloc node - length d) d node]) (lb_len (cn_output c)) c)"

definition cn_WriteBinary :: "(nat \<Rightarrow> string) \<Rightarrow> string \<Rightarrow> Conn \<Rightarrow> Conn" where
  "cn_WriteBinary alloc b c =
     (if length b < block4k then (if b = [] then cn_Malloc alloc 0 c else put_last b (cn_Malloc alloc (length b) c))
      else set_output (lb_nodes (cn_output c) @ [\<lparr> nd_buf = b, nd_off = 0, nd_malloc = length b, nd_readOnly = True \<rparr>]) 0 c)"

text \<open>A write on the socket: the whole slice, or some bytes of it and an error.\<close>

definition sock_write :: "string \<Rightarrow> Conn \<Rightarrow> io_error option \<times> Conn" where
  "sock_write d c =
     (case cn_writes c of
        Some (n, e) # w \<Rightarrow> (Some e, c\<lparr> cn_sent := cn_sent c @ take n d, cn_writes := w \<rparr>)
      | w \<Rightarrow> (None, c\<lparr> cn_sent := cn_sent c @ d, cn_writes := tl w \<rparr>))"

fun flush_loop :: "linkBufferNode list \<Rightarrow> Conn \<Rightarrow> (io_error option \<times> Conn) option" where
  "flush_loop [] c = None"
| "flush_loop (node # rest) c =
     (case sock_write (nd_slice (nd_Len node) node) c of
        (Some e, c') \<Rightarrow> Some (Some e, set_output (node # rest) (lb_len (cn_output c)) c')
      | (None, c') \<Rightarrow>
          let node' = node\<lparr> nd_off := nd_off node + nd_Len node \<rparr> in
          if rest = [] then
            Some (None, if recyclable node' then set_output [nd_Reset node'] (nd_cap node') c'
                        else set_output [node'] (lb_len (cn_output c)) c')
          else flush_loop rest c')"

definition cn_Flush :: "Conn \<Rightarrow> (io_error option \<times> Conn) option" where
  "cn_Flush c =
     (let ns = lb_nodes (cn_output c) in
      if length ns = 1 \<and> nd_Len (hd ns) = 0 then Some (None, c)
      else flush_loop (if nd_Len (hd ns) = 0 then tl ns else ns) c)"

definition cn_Write :: "string \<Rightarrow> Conn \<Rightarrow> (io_error option \<times> Conn) option" where
  "cn_Write b c =
     (case cn_Flush c of
        None \<Rightarrow> None
      | Some (Some e, c') \<Rightarrow> Some (Some e, c')
      | Some (None, c') \<Rightarrow> Some (sock_write b c'))"

section \<open>What the reading side keeps\<close>

text \<open>
  The bytes that the socket delivers before its first error, and that error. The stream of a connection is what it has buffered and, unless
  an error is waiting to be reported, what the socket still delivers.
\<close>

fun sock_bytes :: "socket \<Rightarrow> string" where
  "sock_bytes [] = []"
| "sock_bytes ((d, e) # s) = d @ (if e = None then sock_bytes s else [])"

fun sock_err :: "socket \<Rightarrow> io_error option" where
  "sock_err [] = None"
| "sock_err ((d, e) # s) = (if e = None then sock_err s else e)"

definition nd_ok :: "linkBufferNode \<Rightarrow> bool" where
  "nd_ok b \<longleftrightarrow> nd_off b \<le> nd_malloc b \<and> nd_malloc b \<le> nd_cap b"

definition nd_data :: "linkBufferNode \<Rightarrow> string" where
  "nd_data b = nd_slice (nd_Len b) b"

definition buffered_bytes :: "Conn \<Rightarrow> string" where
  "buffered_bytes c = concat (map nd_data (from_read c))"

definition input_ok :: "Conn \<Rightarrow> bool" where
  "input_ok c \<longleftrightarrow> lb_read (cn_input c) < length (lb_nodes (cn_input c)) \<and> list_all nd_ok (lb_nodes (cn_input c)) \<and>
     cn_Len c = length (buffered_bytes c)"

definition stream_bytes :: "Conn \<Rightarrow> string" where
  "stream_bytes c = buffered_bytes c @ (if cn_err c = None then sock_bytes (cn_sock c) else [])"

definition stream_err :: "Conn \<Rightarrow> io_error option" where
  "stream_err c = (if cn_err c = None then sock_err (cn_sock c) else cn_err c)"

definition alloc_ok :: "(nat \<Rightarrow> string) \<Rightarrow> bool" where
  "alloc_ok alloc \<longleftrightarrow> (\<forall>n. n \<le> length (alloc n))"

named_theorems conn_simps \<open>reading off the parts of a connection\<close>

lemma set_input_parts [conn_simps, simp]:
  "lb_nodes (cn_input (set_input ns rd n c)) = ns" "lb_read (cn_input (set_input ns rd n c)) = rd"
  "cn_Len (set_input ns rd n c) = n" "from_read (set_input ns rd n c) = drop rd ns"
  "cn_sock (set_input ns rd n c) = cn_sock c" "cn_err (set_input ns rd n c) = cn_err c"
  "buffered_bytes (set_input ns rd n c) = concat (map nd_data (drop rd ns))"
  by (simp_all add: set_input_def cn_Len_def from_read_def buffered_bytes_def)

lemma input_frame [conn_simps, simp]:
  "cn_Len (c\<lparr> cn_err := e \<rparr>) = cn_Len c" "from_read (c\<lparr> cn_err := e \<rparr>) = from_read c"
  "buffered_bytes (c\<lparr> cn_err := e \<rparr>) = buffered_bytes c" "input_ok (c\<lparr> cn_err := e \<rparr>) = input_ok c"
  "cn_Len (c\<lparr> cn_sock := s \<rparr>) = cn_Len c" "from_read (c\<lparr> cn_sock := s \<rparr>) = from_read c"
  "buffered_bytes (c\<lparr> cn_sock := s \<rparr>) = buffered_bytes c" "input_ok (c\<lparr> cn_sock := s \<rparr>) = input_ok c"
  "cn_Len (c\<lparr> cn_caches := q \<rparr>) = cn_Len c" "from_read (c\<lparr> cn_caches := q \<rparr>) = from_read c"
  "buffered_bytes (c\<lparr> cn_caches := q \<rparr>) = buffered_bytes c" "input_ok (c\<lparr> cn_caches := q \<rparr>) = input_ok c"
  "cn_Len (c\<lparr> cn_maxSize := m \<rparr>) = cn_Len c" "from_read (c\<lparr> cn_maxSize := m \<rparr>) = from_read c"
  "buffered_bytes (c\<lparr> cn_maxSize := m \<rparr>) = buffered_bytes c" "input_ok (c\<lparr> cn_maxSize := m \<rparr>) = input_ok c"
  by (simp_all add: cn_Len_def from_read_def buffered_bytes_def input_ok_def)

lemma nd_data_length [simp]: "nd_ok b \<Longrightarrow> length (nd_data b) = nd_Len b"
  by (auto simp: nd_data_def nd_slice_def nd_Len_def nd_ok_def nd_cap_def)

lemma newBufferNode_parts [simp]:
  "nd_off (newBufferNode alloc n) = 0" "nd_malloc (newBufferNode alloc n) = 0" "nd_readOnly (newBufferNode alloc n) = False"
  "nd_Len (newBufferNode alloc n) = 0" "nd_data (newBufferNode alloc n) = []" "nd_ok (newBufferNode alloc n)"
  by (simp_all add: newBufferNode_def nd_Len_def nd_data_def nd_slice_def nd_ok_def)

lemma newBufferNode_cap: "alloc_ok alloc \<Longrightarrow> n \<le> nd_cap (newBufferNode alloc n)"
  by (simp add: newBufferNode_def nd_cap_def go_malloc_def alloc_ok_def)

lemma nd_Reset_parts [simp]: "nd_Len (nd_Reset b) = 0" "nd_cap (nd_Reset b) = nd_cap b" "nd_malloc (nd_Reset b) = 0" "nd_data (nd_Reset b) = []" "nd_ok (nd_Reset b)"
  by (simp_all add: nd_Reset_def nd_Len_def nd_cap_def nd_data_def nd_slice_def nd_ok_def)

lemma nd_cap_frame [simp]: "nd_cap (b\<lparr> nd_off := x \<rparr>) = nd_cap b" "nd_cap (b\<lparr> nd_malloc := x \<rparr>) = nd_cap b"
  by (simp_all add: nd_cap_def)

lemma nd_readOnly_frame [simp]: "nd_data (b\<lparr> nd_readOnly := x \<rparr>) = nd_data b" "nd_ok (b\<lparr> nd_readOnly := x \<rparr>) = nd_ok b"
  by (simp_all add: nd_data_def nd_ok_def nd_Len_def nd_slice_def nd_cap_def)

text \<open>Bytes that are stored behind those of a node are the last ones of its data.\<close>

lemma nd_append:
  assumes "nd_ok b" and "length d \<le> nd_cap b - nd_malloc b"
  defines "b' \<equiv> (store_at (nd_malloc b) d b)\<lparr> nd_malloc := nd_malloc b + length d \<rparr>"
  shows "nd_ok b'" "nd_data b' = nd_data b @ d" "nd_cap b' = nd_cap b" "nd_malloc b' = nd_malloc b + length d"
proof -
  have m: "nd_off b \<le> nd_malloc b" "nd_malloc b \<le> length (nd_buf b)" using assms(1) by (simp_all add: nd_ok_def nd_cap_def)
  show "nd_cap b' = nd_cap b" using assms(1,2) by (auto simp: b'_def store_at_def nd_cap_def nd_ok_def)
  show "nd_ok b'" "nd_malloc b' = nd_malloc b + length d"
    using assms(1,2) by (auto simp: b'_def store_at_def nd_cap_def nd_ok_def)
  have "nd_data b' = take (nd_malloc b - nd_off b + length d) (drop (nd_off b) (take (nd_malloc b) (nd_buf b)) @ d @
          drop (nd_malloc b + length d) (nd_buf b))"
    using m by (simp add: nd_data_def nd_slice_def nd_Len_def b'_def store_at_def)
  also have "\<dots> = drop (nd_off b) (take (nd_malloc b) (nd_buf b)) @ d" using m by simp
  also have "\<dots> = nd_data b @ d" by (simp add: nd_data_def nd_slice_def nd_Len_def drop_take)
  finally show "nd_data b' = nd_data b @ d" .
qed

lemma sock_read_reads:
  "sock_read k s = Some (d, e, s') \<Longrightarrow>
   length d \<le> k \<and> sock_bytes s = d @ (if e = None then sock_bytes s' else []) \<and> sock_err s = (if e = None then sock_err s' else e)"
  by (cases "(k, s)" rule: sock_read.cases) (auto split: if_splits)

lemma sock_read_None [simp]: "sock_read k s = None \<longleftrightarrow> s = []"
  by (cases "(k, s)" rule: sock_read.cases) auto

text \<open>What the loop of \<open>fill\<close> reads goes to the end of the node; it ends with enough bytes, or with the error of the socket.\<close>

lemma fill_loop_reads:
  "\<lbrakk> fill_loop i node len s = Some (e, kept, node', len', s'); nd_ok node \<rbrakk> \<Longrightarrow>
   \<exists>d. nd_ok node' \<and> nd_data node' = nd_data node @ d \<and> len' = len + length d \<and>
     sock_bytes s = d @ (if e = None \<and> kept = None then sock_bytes s' else []) \<and>
     (if e = None \<and> kept = None then i \<le> length d \<and> sock_err s = sock_err s'
      else if e = None then d \<noteq> [] \<and> sock_err s = kept else kept = None \<and> sock_err s = e \<and> length d < i)"
proof (induction i node len s arbitrary: e kept node' len' s' rule: fill_loop.induct)
  case (2 i node len s)
  let ?k = "nd_cap node - nd_malloc node"
  obtain d x s1 where r: "sock_read ?k s = Some (d, x, s1)" and k: "?k \<noteq> 0"
    using "2.prems"(1) by (auto split: if_splits option.splits)
  define n1 where "n1 = (store_at (nd_malloc node) d node)\<lparr> nd_malloc := nd_malloc node + length d \<rparr>"
  note rr = sock_read_reads [OF r]
  have d: "length d \<le> ?k" using rr by simp
  note n1 = nd_append [OF "2.prems"(2) d, folded n1_def]
  show ?case
  proof (cases x)
    case None
    have run: "fill_loop (Suc i - length d) n1 (len + length d) s1 = Some (e, kept, node', len', s')"
      using "2.prems"(1) k r None by (simp add: n1_def Let_def)
    have "\<exists>d'. nd_ok node' \<and> nd_data node' = nd_data n1 @ d' \<and> len' = len + length d + length d' \<and>
       sock_bytes s1 = d' @ (if e = None \<and> kept = None then sock_bytes s' else []) \<and>
       (if e = None \<and> kept = None then Suc i - length d \<le> length d' \<and> sock_err s1 = sock_err s'
        else if e = None then d' \<noteq> [] \<and> sock_err s1 = kept else kept = None \<and> sock_err s1 = e \<and> length d' < Suc i - length d)"
      using "2.IH" [OF k r refl refl refl refl, folded n1_def, OF _ run n1(1)] None by simp
    then obtain d' where d': "nd_ok node' \<and> nd_data node' = nd_data n1 @ d' \<and> len' = len + length d + length d' \<and>
       sock_bytes s1 = d' @ (if e = None \<and> kept = None then sock_bytes s' else []) \<and>
       (if e = None \<and> kept = None then Suc i - length d \<le> length d' \<and> sock_err s1 = sock_err s'
        else if e = None then d' \<noteq> [] \<and> sock_err s1 = kept else kept = None \<and> sock_err s1 = e \<and> length d' < Suc i - length d)" by blast
    show ?thesis
      by (rule exI [of _ "d @ d'"]) (use d' rr n1 None in \<open>auto split: if_splits\<close>)
  next
    case (Some err)
    have end_err: "sock_bytes s = d" "sock_err s = Some err" using rr Some by simp_all
    have "(e, kept, node', len', s') = (if d \<noteq> [] then (None, Some err, n1, len + length d, s1) else (Some err, None, n1, len + length d, s1))"
      using "2.prems"(1) k r Some by (simp add: n1_def Let_def split: if_splits)
    then show ?thesis using end_err n1 by (intro exI [of _ d]) (simp split: if_splits)
  qed
qed simp

lemma fill_loop_returns:
  "\<lbrakk> i \<le> nd_cap node - nd_malloc node; nd_ok node; i \<le> length (sock_bytes s) \<or> sock_err s \<noteq> None \<rbrakk> \<Longrightarrow>
   fill_loop i node len s \<noteq> None"
proof (induction i node len s rule: fill_loop.induct)
  case (2 i node len s)
  let ?k = "nd_cap node - nd_malloc node"
  have k: "?k \<noteq> 0" using "2.prems"(1) by simp
  have "s \<noteq> []" using "2.prems"(3) by auto
  then obtain d x s1 where r: "sock_read ?k s = Some (d, x, s1)" by (metis not_None_eq prod_cases3 sock_read_None)
  define n1 where "n1 = (store_at (nd_malloc node) d node)\<lparr> nd_malloc := nd_malloc node + length d \<rparr>"
  note rr = sock_read_reads [OF r]
  have d: "length d \<le> ?k" using rr by simp
  note n1 = nd_append [OF "2.prems"(2) d, folded n1_def]
  show ?case
  proof (cases x)
    case None
    have "Suc i - length d \<le> nd_cap n1 - nd_malloc n1" using "2.prems"(1) n1(3,4) by simp
    moreover have "Suc i - length d \<le> length (sock_bytes s1) \<or> sock_err s1 \<noteq> None" using "2.prems"(3) rr None by auto
    ultimately have "fill_loop (Suc i - length d) n1 (len + length d) s1 \<noteq> None"
      using "2.IH" [OF k r refl refl refl refl, folded n1_def, OF _ _ n1(1)] None by simp
    then show ?thesis using k r None by (simp add: n1_def Let_def)
  qed (use k r in \<open>simp add: Let_def\<close>)
qed simp

lemma fill_loop_blocks:
  "\<lbrakk> length (sock_bytes s) < i; sock_err s = None \<rbrakk> \<Longrightarrow> fill_loop i node len s = None"
proof (induction i node len s rule: fill_loop.induct)
  case (2 i node len s)
  let ?k = "nd_cap node - nd_malloc node"
  show ?case
  proof (cases "?k = 0 \<or> s = []")
    case False
    then obtain d x s1 where r: "sock_read ?k s = Some (d, x, s1)" by (metis not_None_eq prod_cases3 sock_read_None)
    have rr: "sock_bytes s = d @ sock_bytes s1" "sock_err s1 = None" "x = None"
      using sock_read_reads [OF r] "2.prems"(2) by (auto split: if_splits)
    show ?thesis using "2.IH" [OF _ r refl refl refl refl] False rr "2.prems" r by (simp add: Let_def)
  qed auto
qed simp

lemma drop_last: "rd < length ns \<Longrightarrow> drop rd ns = butlast (drop rd ns) @ [last ns]"
  by (metis append_butlast_last_id drop_eq_Nil last_drop leD)

lemma concat_drop_last:
  "rd < length ns \<Longrightarrow> concat (map f (drop rd ns)) = concat (map f (butlast (drop rd ns))) @ f (last ns)"
  by (subst drop_last) simp_all

lemma drop_set_last: "rd < length ns \<Longrightarrow> drop rd (butlast ns @ xs) = butlast (drop rd ns) @ xs"
  by (simp add: butlast_drop)

lemma list_all_butlast: "list_all P ns \<Longrightarrow> list_all P (butlast ns)"
  by (auto simp: list_all_iff dest: in_set_butlastD)

lemma list_all_last: "list_all P ns \<Longrightarrow> rd < length ns \<Longrightarrow> P (last ns)"
  by (cases "ns = []") (simp_all add: list_all_iff)

text \<open>The node that \<open>fill\<close> reads into has room for what is missing, and no byte moves when it is chosen.\<close>

lemma fill_nodes_ok:
  fixes i :: nat
  assumes "input_ok c" and "alloc_ok alloc"
  defines "ns \<equiv> fill_nodes alloc i c" and "rd \<equiv> lb_read (cn_input c)"
  shows "rd < length ns" "list_all nd_ok ns" "concat (map nd_data (drop rd ns)) = buffered_bytes c"
    "i - cn_Len c \<le> nd_cap (last ns) - nd_malloc (last ns)"
proof -
  let ?ns = "lb_nodes (cn_input c)"
  have r: "rd < length ?ns" and ok: "list_all nd_ok ?ns" using assms(1) by (simp_all add: input_ok_def rd_def)
  have b: "buffered_bytes c = concat (map nd_data (butlast (drop rd ?ns))) @ nd_data (last ?ns)"
    using concat_drop_last [OF r, of nd_data] by (simp add: buffered_bytes_def from_read_def rd_def)
  show "rd < length ns" using r by (auto simp: ns_def fill_nodes_def Let_def)
  show "list_all nd_ok ns" using ok list_all_last [OF ok r] list_all_butlast [OF ok]
    by (auto simp: ns_def fill_nodes_def Let_def)
  show "concat (map nd_data (drop rd ns)) = buffered_bytes c"
    using b drop_set_last [OF r] by (simp add: ns_def fill_nodes_def Let_def buffered_bytes_def from_read_def rd_def)
  show "i - cn_Len c \<le> nd_cap (last ns) - nd_malloc (last ns)"
    using newBufferNode_cap [OF assms(2), of "if i < cn_maxSize c then cn_maxSize c else i"]
    by (auto simp: ns_def fill_nodes_def Let_def)
qed

text \<open>Reading on from there keeps the stream of the connection.\<close>

lemma fill_step:
  assumes ok: "input_ok c" "alloc_ok alloc" and i: "cn_Len c < i" and err: "cn_err c = None"
    and f: "fill alloc i c = Some (e, c')"
  shows "input_ok c' \<and> (if e = None then stream_bytes c' = stream_bytes c \<and> stream_err c' = stream_err c
            else buffered_bytes c' = stream_bytes c \<and> cn_err c' = None \<and> stream_err c = e \<and> cn_Len c' < i) \<and>
         (e = None \<longrightarrow> cn_err c' = None \<longrightarrow> i \<le> cn_Len c') \<and> (cn_err c' \<noteq> None \<longrightarrow> 0 < cn_Len c')"
proof -
  let ?ns = "fill_nodes alloc i c" and ?rd = "lb_read (cn_input c)"
  note ns = fill_nodes_ok [OF ok, of i]
  have nsok: "nd_ok (last ?ns)" by (rule list_all_last [OF ns(2,1)])
  obtain kept node' len' s' where l: "fill_loop (i - cn_Len c) (last ?ns) (cn_Len c) (cn_sock c) = Some (e, kept, node', len', s')"
    and c': "c' = (set_input (butlast ?ns @ [node']) ?rd len' c)\<lparr> cn_sock := s', cn_err := kept \<rparr>"
    using f i err by (auto simp: fill_def Let_def split: option.splits)
  obtain d where d: "nd_ok node'" "nd_data node' = nd_data (last ?ns) @ d" "len' = cn_Len c + length d"
     "sock_bytes (cn_sock c) = d @ (if e = None \<and> kept = None then sock_bytes s' else [])"
     "if e = None \<and> kept = None then i - cn_Len c \<le> length d \<and> sock_err (cn_sock c) = sock_err s'
      else if e = None then d \<noteq> [] \<and> sock_err (cn_sock c) = kept else kept = None \<and> sock_err (cn_sock c) = e \<and> length d < i - cn_Len c"
    using fill_loop_reads [OF l nsok] by blast
  have b: "buffered_bytes c' = buffered_bytes c @ d"
    using concat_drop_last [OF ns(1), of nd_data] drop_set_last [OF ns(1)] ns(3) d(2) by (simp add: c')
  have len: "cn_Len c = length (buffered_bytes c)" using ok(1) by (simp add: input_ok_def)
  have parts: "cn_Len c' = len'" "cn_err c' = kept" "cn_sock c' = s'" "lb_read (cn_input c') = ?rd" "lb_nodes (cn_input c') = butlast ?ns @ [node']"
    by (simp_all add: c')
  have "input_ok c'"
    using ns(1) list_all_butlast [OF ns(2)] d(1,3) b len by (auto simp: input_ok_def parts)
  then show ?thesis using d(4,5) b d(3) len err i by (auto simp: parts stream_bytes_def stream_err_def split: if_splits)
qed

lemma fill_returns:
  assumes "input_ok c" "alloc_ok alloc" "cn_Len c < i" "cn_err c = None" and "i \<le> length (stream_bytes c) \<or> stream_err c \<noteq> None"
  shows "fill alloc i c \<noteq> None"
proof -
  note ns = fill_nodes_ok [OF assms(1,2), of i]
  have "i - cn_Len c \<le> length (sock_bytes (cn_sock c)) \<or> sock_err (cn_sock c) \<noteq> None"
    using assms by (auto simp: stream_bytes_def stream_err_def input_ok_def)
  from fill_loop_returns [OF ns(4) list_all_last [OF ns(2,1)] this, of "cn_Len c"]
  show ?thesis using assms(3,4) by (auto simp: fill_def Let_def split: option.splits)
qed

text \<open>\<open>fill\<close> has the bytes that are asked for when the stream has them; when it has not, the error of the stream comes out, or nothing does.\<close>

lemma fill_enough:
  assumes "input_ok c" "alloc_ok alloc" "i \<le> length (stream_bytes c)"
  shows "\<exists>c'. fill alloc i c = Some (None, c') \<and> input_ok c' \<and> stream_bytes c' = stream_bytes c \<and> stream_err c' = stream_err c \<and>
    i \<le> cn_Len c'"
proof (cases "cn_Len c < i")
  case True
  then have err: "cn_err c = None" using assms by (auto simp: stream_bytes_def input_ok_def split: if_splits)
  obtain e c' where f: "fill alloc i c = Some (e, c')" using fill_returns [OF assms(1,2) True err] assms(3) by auto
  note st = fill_step [OF assms(1,2) True err f]
  have len: "cn_Len c' = length (buffered_bytes c')" using st by (simp add: input_ok_def)
  show ?thesis
  proof (cases e)
    case None
    then have "i \<le> cn_Len c'" using st len assms(3) by (cases "cn_err c'") (auto simp: stream_bytes_def)
    then show ?thesis using f st None by auto
  qed (use st len assms(3) in auto)
qed (use assms in \<open>auto simp: fill_def\<close>)

lemma fill_short:
  assumes "input_ok c" "alloc_ok alloc" "length (stream_bytes c) < i"
  shows "case stream_err c of None \<Rightarrow> fill alloc i c = None
         | Some e \<Rightarrow> (\<exists>c'. fill alloc i c = Some (Some e, c') \<and> input_ok c') \<or>
                   (\<exists>c'. fill alloc i c = Some (None, c') \<and> input_ok c' \<and> cn_Len c' < i \<and> cn_err c' = Some e)"
proof (cases "cn_err c")
  case None
  have less: "cn_Len c < i" using assms(1,3) by (auto simp: stream_bytes_def input_ok_def)
  show ?thesis
  proof (cases "stream_err c")
    case N: None
    have "length (sock_bytes (cn_sock c)) < i - cn_Len c" "sock_err (cn_sock c) = None"
      using assms None N by (auto simp: stream_bytes_def stream_err_def input_ok_def)
    then show ?thesis using less None N by (simp add: fill_def Let_def fill_loop_blocks)
  next
    case (Some e)
    then obtain x c' where f: "fill alloc i c = Some (x, c')" using fill_returns [OF assms(1,2) less None] by auto
    note st = fill_step [OF assms(1,2) less None f]
    have len: "cn_Len c' = length (buffered_bytes c')" using st by (simp add: input_ok_def)
    show ?thesis
    proof (cases x)
      case N: None
      then have s: "stream_bytes c' = stream_bytes c" "stream_err c' = Some e" using st Some by simp_all
      have "length (buffered_bytes c') \<le> length (stream_bytes c)" unfolding s(1) [symmetric] by (simp add: stream_bytes_def)
      then have "cn_Len c' < i" using len assms(3) by simp
      then have "cn_err c' \<noteq> None" using st N by auto
      then have "cn_err c' = Some e" using s(2) by (simp add: stream_err_def split: if_splits)
      then show ?thesis using f N st Some \<open>cn_Len c' < i\<close> by simp
    qed (use f st Some in auto)
  qed
next
  case (Some e)
  then show ?thesis using assms by (auto simp: fill_def stream_err_def stream_bytes_def input_ok_def)
qed

lemma nd_slice_data: "n \<le> nd_Len b \<Longrightarrow> nd_slice n b = take n (nd_data b)"
  by (simp add: nd_data_def nd_slice_def min_absorb1)

lemma peekBuffer_reads:
  "list_all nd_ok ns \<Longrightarrow> n \<le> length (concat (map nd_data ns)) \<Longrightarrow> peekBuffer n ns = Some (take n (concat (map nd_data ns)))"
proof (induction n ns rule: peekBuffer.induct)
  case (3 n node ns)
  then show ?case by (auto simp: nd_slice_data)
qed simp_all

lemma from_read_ok: "input_ok c \<Longrightarrow> list_all nd_ok (from_read c) \<and> from_read c \<noteq> []"
  by (auto simp: input_ok_def from_read_def list_all_iff dest: in_set_dropD)

lemma Peek_enough:
  assumes "input_ok c" "alloc_ok alloc" "i \<le> length (stream_bytes c)"
  shows "\<exists>c'. cn_Peek alloc i c = Some (take i (stream_bytes c), None, c') \<and> input_ok c' \<and> stream_bytes c' = stream_bytes c \<and>
    stream_err c' = stream_err c \<and> i \<le> cn_Len c'"
proof -
  obtain c' where f: "fill alloc i c = Some (None, c')" and ok: "input_ok c'"
    and s: "stream_bytes c' = stream_bytes c" "stream_err c' = stream_err c" and l: "i \<le> cn_Len c'"
    using fill_enough [OF assms] by blast
  obtain node ns where fr: "from_read c' = node # ns" using from_read_ok [OF ok] by (cases "from_read c'") auto
  have nok: "nd_ok node" "list_all nd_ok (node # ns)" using from_read_ok [OF ok] fr by auto
  have b: "buffered_bytes c' = nd_data node @ concat (map nd_data ns)" by (simp add: buffered_bytes_def fr)
  have il: "i \<le> length (buffered_bytes c')" using ok l by (simp add: input_ok_def)
  have t: "take i (stream_bytes c) = take i (buffered_bytes c')" unfolding s(1) [symmetric] using il by (simp add: stream_bytes_def)
  show ?thesis
  proof (cases "i \<le> nd_Len node")
    case True
    then show ?thesis using f l ok s t b nok by (auto simp: cn_Peek_def fr nd_slice_data)
  next
    case False
    have "peekBuffer i (node # ns) = Some (take i (stream_bytes c))"
      using peekBuffer_reads [OF nok(2), of i] il t b by simp
    then show ?thesis using f l ok s False by (auto simp: cn_Peek_def fr stream_bytes_def stream_err_def)
  qed
qed

lemma Peek_short:
  assumes "input_ok c" "alloc_ok alloc" "length (stream_bytes c) < i"
  shows "case stream_err c of None \<Rightarrow> cn_Peek alloc i c = None
         | Some e \<Rightarrow> \<exists>b c'. cn_Peek alloc i c = Some (b, Some e, c') \<and> input_ok c'"
proof (cases "stream_err c")
  case None
  then show ?thesis using fill_short [OF assms] by (simp add: cn_Peek_def)
next
  case (Some e)
  then consider c' where "fill alloc i c = Some (Some e, c')" "input_ok c'"
    | c' where "fill alloc i c = Some (None, c')" "input_ok c'" "cn_Len c' < i" "cn_err c' = Some e"
    using fill_short [OF assms] by auto
  then show ?thesis
  proof cases
    case 1
    then show ?thesis using Some by (simp add: cn_Peek_def)
  next
    case (2 c')
    obtain node ns where fr: "from_read c' = node # ns" using from_read_ok [OF 2(2)] by (cases "from_read c'") auto
    have "\<exists>p. peekBuffer (cn_Len c') (node # ns) = Some p"
      using peekBuffer_reads [of "from_read c'" "cn_Len c'"] from_read_ok [OF 2(2)] 2(2) fr
      by (auto simp: input_ok_def buffered_bytes_def)
    then obtain p where "peekBuffer (cn_Len c') (node # ns) = Some p" by blast
    then show ?thesis using 2 Some fr by (cases "cn_Len c' \<le> nd_Len node") (simp_all add: cn_Peek_def Let_def)
  qed
qed

lemma nd_advance:
  assumes "nd_ok b" "n \<le> nd_Len b"
  shows "nd_ok (b\<lparr> nd_off := nd_off b + n \<rparr>)" "nd_data (b\<lparr> nd_off := nd_off b + n \<rparr>) = drop n (nd_data b)"
  using assms by (auto simp: nd_ok_def nd_Len_def nd_cap_def nd_data_def nd_slice_def drop_take add.commute)

lemma skip_loop_skips:
  "\<lbrakk> list_all nd_ok ns; rd < length ns; n \<le> length (concat (map nd_data (drop rd ns))) \<rbrakk> \<Longrightarrow>
   \<exists>rd' ns'. skip_loop n rd ns = Some (rd', ns') \<and> rd' < length ns' \<and> list_all nd_ok ns' \<and>
     concat (map nd_data (drop rd' ns')) = drop n (concat (map nd_data (drop rd ns)))"
proof (induction n rd ns rule: skip_loop.induct)
  case (2 n rd ns)
  let ?node = "ns ! rd"
  have d: "drop rd ns = ?node # drop (Suc rd) ns" using "2.prems"(2) by (simp add: Cons_nth_drop_Suc)
  have ok: "nd_ok ?node" using "2.prems"(1,2) by (simp add: list_all_iff)
  show ?case
  proof (cases "Suc n \<le> nd_Len ?node")
    case True
    have "drop rd (ns[rd := x]) = x # drop (Suc rd) ns" for x using "2.prems"(2)
      by (simp add: drop_update_swap d)
    moreover have "list_all nd_ok (ns[rd := ?node\<lparr> nd_off := nd_off ?node + Suc n \<rparr>])"
      using "2.prems"(1) nd_advance(1) [OF ok True] by (auto simp: list_all_iff dest: set_update_subset_insert [THEN subsetD])
    ultimately show ?thesis using True "2.prems"(2) nd_advance(2) [OF ok True] ok by (simp add: d Let_def)
  next
    case False
    have "Suc n - nd_Len ?node \<le> length (concat (map nd_data (drop (rd + 1) ns)))" using "2.prems"(3) ok by (simp add: d)
    moreover from this False have "rd + 1 < length ns" by (cases "rd + 1 < length ns") auto
    ultimately show ?thesis using "2.IH" [OF _ refl] False "2.prems" ok by (simp add: d Let_def)
  qed
qed auto

lemma Skip_enough:
  assumes "input_ok c" "n \<le> cn_Len c"
  shows "\<exists>c'. cn_Skip n c = Some (None, c') \<and> input_ok c' \<and> stream_bytes c' = drop n (stream_bytes c) \<and> stream_err c' = stream_err c \<and>
    cn_Len c' = cn_Len c - n"
proof -
  have l: "cn_Len c = length (concat (map nd_data (drop (lb_read (cn_input c)) (lb_nodes (cn_input c)))))"
    using assms(1) by (simp add: input_ok_def buffered_bytes_def from_read_def)
  obtain rd' ns' where "skip_loop n (lb_read (cn_input c)) (lb_nodes (cn_input c)) = Some (rd', ns')" "rd' < length ns'"
      "list_all nd_ok ns'" "concat (map nd_data (drop rd' ns')) = drop n (buffered_bytes c)"
    using skip_loop_skips [of "lb_nodes (cn_input c)" "lb_read (cn_input c)" n] assms l
    by (auto simp: input_ok_def buffered_bytes_def from_read_def)
  then show ?thesis using assms by (auto simp: cn_Skip_def input_ok_def stream_bytes_def stream_err_def)
qed

lemma Skip_short: "cn_Len c < n \<Longrightarrow> cn_Skip n c = Some (Some (SkipNotEnough n), c)"
  by (simp add: cn_Skip_def)

lemma Release_keeps:
  assumes "input_ok c"
  shows "input_ok (cn_Release alloc c) \<and> stream_bytes (cn_Release alloc c) = stream_bytes c \<and>
    stream_err (cn_Release alloc c) = stream_err c \<and> cn_Len (cn_Release alloc c) = cn_Len c"
proof -
  let ?ns = "lb_nodes (cn_input c)" and ?rd = "lb_read (cn_input c)"
  have ok: "?rd < length ?ns" "list_all nd_ok ?ns" "cn_Len c = length (buffered_bytes c)" using assms by (auto simp: input_ok_def)
  consider "cn_Len c = 0" "length ?ns = 1" | "cn_Len c = 0" "length ?ns = 2" | "\<not> (cn_Len c = 0 \<and> (length ?ns = 1 \<or> length ?ns = 2))" by metis
  then show ?thesis
  proof cases
    case 3
    let ?t = "drop ?rd ?ns"
    have t: "?t \<noteq> []" "list_all nd_ok ?t" using ok by (auto simp: list_all_iff dest: in_set_dropD)
    have l: "nd_ok (last ?t)" "nd_ok (last ?ns)" "last ?t = last ?ns" using t ok list_all_last [OF ok(2,1)] by (auto simp: last_drop)
    have b: "buffered_bytes c = concat (map nd_data (butlast ?t)) @ nd_data (last ?ns)"
      using concat_drop_last [OF ok(1), of nd_data] by (simp add: buffered_bytes_def from_read_def)
    have "cn_Release alloc c = (set_input (butlast ?t @ [(last ?t)\<lparr> nd_readOnly := True \<rparr>]) 0 (cn_Len c) c)
        \<lparr> cn_maxSize := grow_maxSize (sum_list (map nd_malloc (take ?rd (tl ?ns)))) (cn_maxSize c), cn_caches := [] \<rparr>"
      using 3 by (auto simp: cn_Release_def Let_def)
    then show ?thesis using ok b l list_all_butlast [OF t(2)] by (simp add: input_ok_def stream_bytes_def stream_err_def)
  qed (use ok in \<open>auto simp: cn_Release_def Let_def handleTail_def input_ok_def stream_bytes_def stream_err_def\<close>)
qed

lemma nd_overwrite:
  assumes "nd_ok b" "length d \<le> nd_Len b"
  shows "nd_ok (store_at (nd_off b) d b)" "nd_data (store_at (nd_off b) d b) = d @ drop (length d) (nd_data b)"
proof -
  have m: "nd_off b + length d \<le> nd_malloc b" "nd_malloc b \<le> length (nd_buf b)" using assms by (auto simp: nd_ok_def nd_Len_def nd_cap_def)
  show "nd_ok (store_at (nd_off b) d b)" using assms(1) m by (auto simp: nd_ok_def store_at_def nd_cap_def)
  have "nd_malloc b - nd_off b - length d = nd_malloc b - (nd_off b + length d)" by simp
  then show "nd_data (store_at (nd_off b) d b) = d @ drop (length d) (nd_data b)"
    using m by (simp add: nd_data_def nd_slice_def nd_Len_def store_at_def drop_take add.commute)
qed

lemma poke_keeps:
  assumes "input_ok c"
  shows "input_ok (cn_poke d c) \<and> stream_err (cn_poke d c) = stream_err c \<and> cn_Len (cn_poke d c) = cn_Len c \<and>
    (stream_bytes (cn_poke d c) = stream_bytes c \<or> stream_bytes (cn_poke d c) = d @ drop (length d) (stream_bytes c))"
proof (cases "length d \<le> nd_Len (lb_nodes (cn_input c) ! lb_read (cn_input c))")
  case True
  let ?ns = "lb_nodes (cn_input c)" and ?rd = "lb_read (cn_input c)"
  let ?b = "?ns ! ?rd" and ?n = "store_at (nd_off (?ns ! ?rd)) d (?ns ! ?rd)"
  have ok: "?rd < length ?ns" "list_all nd_ok ?ns" "cn_Len c = length (buffered_bytes c)" "nd_ok ?b"
    using assms by (auto simp: input_ok_def list_all_length)
  note o = nd_overwrite [OF ok(4) True]
  have c': "cn_poke d c = set_input (?ns[?rd := ?n]) ?rd (cn_Len c) c" using True ok(1) by (simp add: cn_poke_def Let_def)
  have d1: "drop ?rd ?ns = ?b # drop (Suc ?rd) ?ns" using ok(1) by (simp add: Cons_nth_drop_Suc)
  have d2: "drop ?rd (?ns[?rd := ?n]) = ?n # drop (Suc ?rd) ?ns" using ok(1) by (simp add: drop_update_swap d1)
  note d = d1 d2
  have b: "buffered_bytes c = nd_data ?b @ concat (map nd_data (drop (Suc ?rd) ?ns))" by (simp add: buffered_bytes_def from_read_def d)
  have l: "length d \<le> length (nd_data ?b)" using True ok(4) by simp
  have b': "buffered_bytes (cn_poke d c) = d @ drop (length d) (buffered_bytes c)" using l by (simp add: c' d o(2) b)
  have "list_all nd_ok (?ns[?rd := ?n])" using ok(2) o(1) by (auto simp: list_all_iff dest: set_update_subset_insert [THEN subsetD])
  then have "input_ok (cn_poke d c)" using ok b' l b by (simp add: input_ok_def c')
  moreover have "stream_bytes (cn_poke d c) = d @ drop (length d) (stream_bytes c)" using b' l b by (simp add: stream_bytes_def c')
  ultimately show ?thesis by (simp add: c' stream_err_def)
qed (use assms in \<open>simp add: cn_poke_def Let_def\<close>)

section \<open>The interface of a reader\<close>

text \<open>
  The methods of the interface \<open>network.Reader\<close>, and the effect of writing into the slice that \<open>Peek\<close> returned. \<open>reader_laws\<close> is what a reader promises: as long as the stream has
  the bytes that are asked for, \<open>Peek\<close> shows them and moves nothing, and what \<open>Peek\<close> has shown is buffered; \<open>Skip\<close>
  drops buffered bytes and refuses to drop more; beyond the end of the stream the error of the stream comes out. A write
  into a peeked slice changes the bytes that it shows, or none at all.
\<close>

record 'r Reader =
  Peek :: "nat \<Rightarrow> 'r \<Rightarrow> (string \<times> io_error option \<times> 'r) option"
  Skip :: "nat \<Rightarrow> 'r \<Rightarrow> (io_error option \<times> 'r) option"
  Release :: "'r \<Rightarrow> 'r"
  Len :: "'r \<Rightarrow> nat"
  ReadByte :: "'r \<Rightarrow> (char \<times> io_error option \<times> 'r) option"
  ReadBinary :: "nat \<Rightarrow> 'r \<Rightarrow> (string \<times> io_error option \<times> 'r) option"
  poke :: "string \<Rightarrow> 'r \<Rightarrow> 'r"

definition conn_reader :: "(nat \<Rightarrow> string) \<Rightarrow> Conn Reader" where
  "conn_reader alloc = \<lparr> Peek = cn_Peek alloc, Skip = cn_Skip, Release = cn_Release alloc, Len = cn_Len,
     ReadByte = cn_ReadByte alloc, ReadBinary = cn_ReadBinary alloc, poke = cn_poke \<rparr>"

locale reader_laws =
  fixes R :: "'r Reader" and ok :: "'r \<Rightarrow> bool" and bytes :: "'r \<Rightarrow> string" and final :: "'r \<Rightarrow> io_error option"
  assumes Peek_has: "\<lbrakk> ok r; i \<le> length (bytes r) \<rbrakk> \<Longrightarrow>
      \<exists>r'. Peek R i r = Some (take i (bytes r), None, r') \<and> ok r' \<and> bytes r' = bytes r \<and> final r' = final r \<and> i \<le> Len R r'"
    and Peek_ends: "\<lbrakk> ok r; length (bytes r) < i; final r = Some e \<rbrakk> \<Longrightarrow> \<exists>b r'. Peek R i r = Some (b, Some e, r') \<and> ok r'"
    and Skip_has: "\<lbrakk> ok r; n \<le> Len R r \<rbrakk> \<Longrightarrow>
      \<exists>r'. Skip R n r = Some (None, r') \<and> ok r' \<and> bytes r' = drop n (bytes r) \<and> final r' = final r \<and> Len R r' = Len R r - n"
    and Skip_refuses: "\<lbrakk> ok r; Len R r < n \<rbrakk> \<Longrightarrow> Skip R n r = Some (Some (SkipNotEnough n), r)"
    and Release_same: "ok r \<Longrightarrow> ok (Release R r) \<and> bytes (Release R r) = bytes r \<and> final (Release R r) = final r \<and> Len R (Release R r) = Len R r"
    and Len_le: "ok r \<Longrightarrow> Len R r \<le> length (bytes r)"
    and ReadByte_has: "\<lbrakk> ok r; bytes r = x # xs \<rbrakk> \<Longrightarrow>
      \<exists>r'. ReadByte R r = Some (x, None, r') \<and> ok r' \<and> bytes r' = xs \<and> final r' = final r"
    and ReadByte_ends: "\<lbrakk> ok r; bytes r = []; final r = Some e \<rbrakk> \<Longrightarrow> \<exists>x r'. ReadByte R r = Some (x, Some e, r') \<and> ok r'"
    and ReadBinary_has: "\<lbrakk> ok r; i \<le> length (bytes r) \<rbrakk> \<Longrightarrow>
      \<exists>r'. ReadBinary R i r = Some (take i (bytes r), None, r') \<and> ok r' \<and> bytes r' = drop i (bytes r) \<and> final r' = final r"
    and poke_cases: "\<lbrakk> ok r; length d \<le> Len R r \<rbrakk> \<Longrightarrow>
      ok (poke R d r) \<and> final (poke R d r) = final r \<and> Len R (poke R d r) = Len R r \<and>
      (bytes (poke R d r) = bytes r \<or> bytes (poke R d r) = d @ drop (length d) (bytes r))"

interpretation conn: reader_laws "conn_reader alloc" "\<lambda>c. alloc_ok alloc \<and> input_ok c" stream_bytes stream_err for alloc
proof unfold_locales
  fix c :: Conn and i n :: nat and e x xs
  let ?R = "conn_reader alloc" and ?ok = "\<lambda>c. alloc_ok alloc \<and> input_ok c"
  show P: "\<exists>r'. Peek ?R i c = Some (take i (stream_bytes c), None, r') \<and> ?ok r' \<and> stream_bytes r' = stream_bytes c \<and>
      stream_err r' = stream_err c \<and> i \<le> Len ?R r'" if "?ok c" "i \<le> length (stream_bytes c)" for c and i :: nat
    using Peek_enough [of c alloc i] that by (auto simp: conn_reader_def)
  show E: "\<exists>b r'. Peek ?R i c = Some (b, Some e, r') \<and> ?ok r'" if "?ok c" "length (stream_bytes c) < i" "stream_err c = Some e" for c i e
    using Peek_short [of c alloc i] that by (auto simp: conn_reader_def)
  show S: "\<exists>r'. Skip ?R n c = Some (None, r') \<and> ?ok r' \<and> stream_bytes r' = drop n (stream_bytes c) \<and> stream_err r' = stream_err c \<and>
      Len ?R r' = Len ?R c - n" if "?ok c" "n \<le> Len ?R c" for c n
    using Skip_enough [of c n] that by (auto simp: conn_reader_def)
  show "Skip ?R n c = Some (Some (SkipNotEnough n), c)" if "?ok c" "Len ?R c < n" for c n
    using Skip_short [of c n] that by (simp add: conn_reader_def)
  show "?ok (Release ?R c) \<and> stream_bytes (Release ?R c) = stream_bytes c \<and> stream_err (Release ?R c) = stream_err c \<and>
      Len ?R (Release ?R c) = Len ?R c" if "?ok c" for c
    using Release_keeps [of c alloc] that by (simp add: conn_reader_def)
  show "Len ?R c \<le> length (stream_bytes c)" if "?ok c" for c
    using that by (simp add: conn_reader_def input_ok_def stream_bytes_def)
  show "\<exists>r'. ReadByte ?R c = Some (x, None, r') \<and> ?ok r' \<and> stream_bytes r' = xs \<and> stream_err r' = stream_err c"
    if a: "?ok c" "stream_bytes c = x # xs" for c x xs
  proof -
    obtain c1 where "cn_Peek alloc 1 c = Some ([x], None, c1)" "?ok c1" "stream_bytes c1 = x # xs" "stream_err c1 = stream_err c" "1 \<le> cn_Len c1"
      using P [of c 1] a by (auto simp: conn_reader_def)
    then show ?thesis using S [of c1 1] by (auto simp: conn_reader_def cn_ReadByte_def)
  qed
  show "\<exists>x r'. ReadByte ?R c = Some (x, Some e, r') \<and> ?ok r'" if "?ok c" "stream_bytes c = []" "stream_err c = Some e" for c e
    using E [of c 1 e] that by (auto simp: conn_reader_def cn_ReadByte_def)
  show "\<exists>r'. ReadBinary ?R i c = Some (take i (stream_bytes c), None, r') \<and> ?ok r' \<and> stream_bytes r' = drop i (stream_bytes c) \<and>
      stream_err r' = stream_err c" if a: "?ok c" "i \<le> length (stream_bytes c)" for c and i :: nat
  proof -
    obtain c1 where "cn_Peek alloc i c = Some (take i (stream_bytes c), None, c1)" "?ok c1" "stream_bytes c1 = stream_bytes c"
        "stream_err c1 = stream_err c" "i \<le> cn_Len c1"
      using P [of c i] a by (auto simp: conn_reader_def)
    then show ?thesis using S [of c1 i] by (auto simp: conn_reader_def cn_ReadBinary_def)
  qed
  show "?ok (poke ?R d c) \<and> stream_err (poke ?R d c) = stream_err c \<and> Len ?R (poke ?R d c) = Len ?R c \<and>
      (stream_bytes (poke ?R d c) = stream_bytes c \<or> stream_bytes (poke ?R d c) = d @ drop (length d) (stream_bytes c))"
    if "?ok c" "length d \<le> Len ?R c" for d c
    using poke_keeps [of c d] that by (simp add: conn_reader_def)
qed

section \<open>What the writing side keeps\<close>

text \<open>
  The bytes that wait to be sent are those of all nodes. The length of an output buffer is at most the room that its last node has
  left, so that \<open>Malloc\<close> stays within the array, and a node that only borrows a slice of the caller leaves no room.
\<close>

definition unsent :: "Conn \<Rightarrow> string" where
  "unsent c = concat (map nd_data (lb_nodes (cn_output c)))"

definition output_ok :: "Conn \<Rightarrow> bool" where
  "output_ok c \<longleftrightarrow> (let ns = lb_nodes (cn_output c) in ns \<noteq> [] \<and> list_all nd_ok ns \<and> lb_len (cn_output c) \<le> nd_cap (last ns) - nd_malloc (last ns))"

lemma set_output_parts [simp]:
  "lb_nodes (cn_output (set_output ns n c)) = ns" "lb_len (cn_output (set_output ns n c)) = n" "cn_sent (set_output ns n c) = cn_sent c"
  "cn_writes (set_output ns n c) = cn_writes c" "unsent (set_output ns n c) = concat (map nd_data ns)"
  by (simp_all add: set_output_def unsent_def)

lemma sock_write_parts: "sock_write d c = (e, c') \<Longrightarrow> cn_output c' = cn_output c"
  by (auto simp: sock_write_def split: list.splits option.splits)

lemma store_at_malloc: "store_at i d (b\<lparr> nd_malloc := m \<rparr>) = (store_at i d b)\<lparr> nd_malloc := m \<rparr>"
  by (cases b) (simp add: store_at_def)

text \<open>\<open>Malloc\<close> and the copy into what it returns append to the last node, or to a new one.\<close>

lemma put_Malloc:
  assumes "output_ok c" "alloc_ok alloc" "d \<noteq> []"
  defines "c' \<equiv> put_last d (cn_Malloc alloc (length d) c)"
  shows "output_ok c'" "unsent c' = unsent c @ d" "cn_sent c' = cn_sent c" "cn_writes c' = cn_writes c"
proof -
  let ?ns = "lb_nodes (cn_output c)" and ?len = "lb_len (cn_output c)"
  have ok: "?ns \<noteq> []" "list_all nd_ok ?ns" "?len \<le> nd_cap (last ?ns) - nd_malloc (last ?ns)"
    using assms(1) by (auto simp: output_ok_def Let_def)
  have lok: "nd_ok (last ?ns)" using ok by (simp add: list_all_iff)
  have u: "unsent c = concat (map nd_data (butlast ?ns)) @ nd_data (last ?ns)"
    using concat_drop_last [of 0 ?ns nd_data] ok(1) by (simp add: unsent_def)
  have "output_ok c' \<and> unsent c' = unsent c @ d \<and> cn_sent c' = cn_sent c \<and> cn_writes c' = cn_writes c"
  proof (cases "length d < ?len")
    case True
    define b where "b = (store_at (nd_malloc (last ?ns)) d (last ?ns))\<lparr> nd_malloc := nd_malloc (last ?ns) + length d \<rparr>"
    have fit: "length d \<le> nd_cap (last ?ns) - nd_malloc (last ?ns)" using True ok(3) by simp
    note b = nd_append [OF lok fit, folded b_def]
    have "c' = set_output (butlast ?ns @ [b]) (?len - length d) (cn_Malloc alloc (length d) c)"
      using True assms(3) by (simp add: c'_def put_last_def cn_Malloc_def Let_def b_def store_at_malloc)
    then show ?thesis using b u ok(3) list_all_butlast [OF ok(2)] True assms(3)
      by (simp add: output_ok_def Let_def cn_Malloc_def)
  next
    case False
    let ?n = "if length d < defaultMallocSize then defaultMallocSize else length d"
    let ?new = "newBufferNode alloc ?n"
    have fit: "length d \<le> nd_cap ?new - nd_malloc ?new" using newBufferNode_cap [OF assms(2), of ?n] by (simp split: if_splits)
    define b where "b = (store_at (nd_malloc ?new) d ?new)\<lparr> nd_malloc := nd_malloc ?new + length d \<rparr>"
    note b = nd_append [OF newBufferNode_parts(6) fit, folded b_def]
    have "c' = set_output (?ns @ [b]) (nd_cap ?new - length d) (cn_Malloc alloc (length d) c)"
      using False assms(3) by (simp add: c'_def put_last_def cn_Malloc_def Let_def b_def store_at_malloc)
    then show ?thesis using b ok(2) False assms(3) by (simp add: output_ok_def Let_def cn_Malloc_def unsent_def)
  qed
  then show "output_ok c'" "unsent c' = unsent c @ d" "cn_sent c' = cn_sent c" "cn_writes c' = cn_writes c" by auto
qed

lemma WriteBinary_appends:
  fixes d :: string
  assumes "output_ok c" "alloc_ok alloc"
  defines "c' \<equiv> cn_WriteBinary alloc d c"
  shows "output_ok c' \<and> unsent c' = unsent c @ d \<and> cn_sent c' = cn_sent c \<and> cn_writes c' = cn_writes c"
proof (cases "length d < block4k")
  case True
  then show ?thesis using put_Malloc [OF assms(1,2), of d] assms(1) by (auto simp: c'_def cn_WriteBinary_def cn_Malloc_def)
next
  case False
  then show ?thesis using assms(1)
    by (auto simp: c'_def cn_WriteBinary_def output_ok_def Let_def unsent_def nd_ok_def nd_cap_def nd_data_def nd_slice_def nd_Len_def)
qed

text \<open>Sending the nodes one after the other: all of them, or those before the one whose write fails.\<close>

lemma sock_write_cases:
  assumes "sock_write d c = (e, c')"
  shows "cn_output c' = cn_output c \<and> set (cn_writes c') \<subseteq> set (cn_writes c) \<and>
    (if e = None then cn_sent c' = cn_sent c @ d else \<exists>n. cn_sent c' = cn_sent c @ take n d \<and> Some (n, the e) \<in> set (cn_writes c))"
  using assms by (auto simp: sock_write_def split: list.splits option.splits prod.splits dest: list.set_sel(2))

lemma flush_loop_sends:
  "\<lbrakk> ns \<noteq> []; list_all nd_ok ns; lb_len (cn_output c) \<le> nd_cap (last ns) - nd_malloc (last ns) \<rbrakk> \<Longrightarrow>
   \<exists>e c'. flush_loop ns c = Some (e, c') \<and> output_ok c' \<and> set (cn_writes c') \<subseteq> set (cn_writes c) \<and>
     (if e = None then unsent c' = [] \<and> cn_sent c' = cn_sent c @ concat (map nd_data ns)
      else \<exists>p d q n. cn_sent c' = cn_sent c @ p @ d \<and> unsent c' = d @ q \<and> concat (map nd_data ns) = p @ unsent c' \<and>
             Some (n, the e) \<in> set (cn_writes c))"
proof (induction ns c rule: flush_loop.induct)
  case (2 node rest c)
  obtain x c1 where w: "sock_write (nd_data node) c = (x, c1)" by force
  note wc = sock_write_cases [OF w]
  let ?n = "node\<lparr> nd_off := nd_off node + nd_Len node \<rparr>"
  have nok: "nd_ok node" "list_all nd_ok rest" using "2.prems"(2) by auto
  have adv: "nd_ok ?n" "nd_data ?n = []" using nd_advance [OF nok(1) order_refl] nok(1) by simp_all
  show ?case
  proof (cases x)
    case (Some e)
    then obtain n where n: "cn_sent c1 = cn_sent c @ take n (nd_data node)" "Some (n, e) \<in> set (cn_writes c)" using wc by auto
    let ?c = "set_output (node # rest) (lb_len (cn_output c)) c1"
    have "flush_loop (node # rest) c = Some (Some e, ?c)" using w Some by (simp add: nd_data_def)
    moreover have "output_ok ?c" using "2.prems" by (simp add: output_ok_def Let_def)
    moreover have "unsent ?c = take n (nd_data node) @ drop n (nd_data node) @ concat (map nd_data rest)" by simp
    ultimately have "flush_loop (node # rest) c = Some (Some e, ?c) \<and> output_ok ?c \<and> set (cn_writes ?c) \<subseteq> set (cn_writes c) \<and>
        cn_sent ?c = cn_sent c @ [] @ take n (nd_data node) \<and> unsent ?c = take n (nd_data node) @ drop n (nd_data node) @ concat (map nd_data rest) \<and>
        concat (map nd_data (node # rest)) = [] @ unsent ?c \<and> Some (n, the (Some e)) \<in> set (cn_writes c)" using n wc by simp
    then show ?thesis by (metis option.distinct(1))
  next
    case None
    then have sent: "cn_sent c1 = cn_sent c @ nd_data node" "cn_output c1 = cn_output c" "set (cn_writes c1) \<subseteq> set (cn_writes c)"
      using wc by auto
    show ?thesis
    proof (cases "rest = []")
      case True
      then show ?thesis using w None sent adv "2.prems"(3)
        by (auto simp: nd_data_def [of node, symmetric] output_ok_def Let_def)
    next
      case False
      have run: "flush_loop (node # rest) c = flush_loop rest c1" using w None False by (simp add: nd_data_def)
      obtain e c' where f: "flush_loop rest c1 = Some (e, c')" "output_ok c'" "set (cn_writes c') \<subseteq> set (cn_writes c1)"
         "if e = None then unsent c' = [] \<and> cn_sent c' = cn_sent c1 @ concat (map nd_data rest)
          else \<exists>p d q n. cn_sent c' = cn_sent c1 @ p @ d \<and> unsent c' = d @ q \<and> concat (map nd_data rest) = p @ unsent c' \<and>
             Some (n, the e) \<in> set (cn_writes c1)"
        using "2.IH" [of x c1] w None False nok sent "2.prems"(3) by (auto simp: nd_data_def)
      show ?thesis
      proof (cases e)
        case N: None
        then show ?thesis using f sent run by auto
      next
        case S: (Some y)
        then obtain p d q n where "cn_sent c' = cn_sent c1 @ p @ d" "unsent c' = d @ q" "concat (map nd_data rest) = p @ unsent c'"
            "Some (n, y) \<in> set (cn_writes c1)" using f(4) by auto
        then have "cn_sent c' = cn_sent c @ (nd_data node @ p) @ d \<and> unsent c' = d @ q \<and> concat (map nd_data (node # rest)) =
            (nd_data node @ p) @ unsent c' \<and> Some (n, the e) \<in> set (cn_writes c)" using sent S by auto
        then show ?thesis using f(1-3) run sent S by (intro exI [of _ e] exI [of _ c'] conjI) (auto simp del: append_assoc)
      qed
    qed
  qed
qed simp

lemma Flush_sends:
  assumes "output_ok c"
  shows "\<exists>e c'. cn_Flush c = Some (e, c') \<and> output_ok c' \<and> set (cn_writes c') \<subseteq> set (cn_writes c) \<and>
     (if e = None then unsent c' = [] \<and> cn_sent c' = cn_sent c @ unsent c
      else \<exists>p d q n. cn_sent c' = cn_sent c @ p @ d \<and> unsent c' = d @ q \<and> unsent c = p @ unsent c' \<and> Some (n, the e) \<in> set (cn_writes c))"
proof -
  obtain b ns where ns: "lb_nodes (cn_output c) = b # ns" using assms by (cases "lb_nodes (cn_output c)") (auto simp: output_ok_def)
  have ok: "list_all nd_ok (b # ns)" "lb_len (cn_output c) \<le> nd_cap (last (b # ns)) - nd_malloc (last (b # ns))"
    using assms by (auto simp: output_ok_def ns)
  have u: "unsent c = nd_data b @ concat (map nd_data ns)" by (simp add: unsent_def ns)
  show ?thesis
  proof (cases "nd_Len b = 0")
    case True
    then have "nd_data b = []" using nd_data_length [of b] ok(1) by (simp add: nd_data_def nd_slice_def)
    then have f: "cn_Flush c = (if ns = [] then Some (None, c) else flush_loop ns c)" and u': "unsent c = concat (map nd_data ns)"
      using True by (simp_all add: cn_Flush_def ns u)
    show ?thesis
    proof (cases "ns = []")
      case False
      then show ?thesis unfolding u' f if_not_P [OF False] by (intro flush_loop_sends) (use ok in simp_all)
    qed (use f u' assms in simp)
  next
    case False
    then have f: "cn_Flush c = flush_loop (b # ns) c" and u': "unsent c = concat (map nd_data (b # ns))" by (simp_all add: cn_Flush_def ns u)
    show ?thesis unfolding u' f by (rule flush_loop_sends) (use ok in simp_all)
  qed
qed

section \<open>Properties\<close>

lemma newConn_ok:
  "input_ok (newConn alloc sock w n)" "output_ok (newConn alloc sock w n)" "stream_bytes (newConn alloc sock w n) = sock_bytes sock"
  "stream_err (newConn alloc sock w n) = sock_err sock" "unsent (newConn alloc sock w n) = []" "cn_sent (newConn alloc sock w n) = []"
  "cn_writes (newConn alloc sock w n) = w"
  by (simp_all add: newConn_def Let_def input_ok_def output_ok_def stream_bytes_def stream_err_def buffered_bytes_def from_read_def cn_Len_def unsent_def)

text \<open>Operations of a reader one after the other, and the same on a text: what they deliver, and what they leave.\<close>

datatype read_op = RPeek nat | RTake nat | RByte | RRelease

fun reader_run :: "'r Reader \<Rightarrow> read_op list \<Rightarrow> 'r \<Rightarrow> (string list \<times> 'r) option" where
  "reader_run R [] r = Some ([], r)"
| "reader_run R (RPeek n # ops) r =
     (case Peek R n r of Some (b, None, r') \<Rightarrow> map_option (apfst (Cons b)) (reader_run R ops r') | _ \<Rightarrow> None)"
| "reader_run R (RTake n # ops) r =
     (case ReadBinary R n r of Some (b, None, r') \<Rightarrow> map_option (apfst (Cons b)) (reader_run R ops r') | _ \<Rightarrow> None)"
| "reader_run R (RByte # ops) r =
     (case ReadByte R r of Some (x, None, r') \<Rightarrow> map_option (apfst (Cons [x])) (reader_run R ops r') | _ \<Rightarrow> None)"
| "reader_run R (RRelease # ops) r = reader_run R ops (Release R r)"

fun text_run :: "read_op list \<Rightarrow> string \<Rightarrow> (string list \<times> string) option" where
  "text_run [] s = Some ([], s)"
| "text_run (RPeek n # ops) s = (if n \<le> length s then map_option (apfst (Cons (take n s))) (text_run ops s) else None)"
| "text_run (RTake n # ops) s = (if n \<le> length s then map_option (apfst (Cons (take n s))) (text_run ops (drop n s)) else None)"
| "text_run (RByte # ops) s = (case s of [] \<Rightarrow> None | x # s' \<Rightarrow> map_option (apfst (Cons [x])) (text_run ops s'))"
| "text_run (RRelease # ops) s = text_run ops s"

context reader_laws
begin

lemma run_follows_text:
  "ok r \<Longrightarrow> text_run ops (bytes r) = Some (outs, rest) \<Longrightarrow> \<exists>r'. reader_run R ops r = Some (outs, r') \<and> ok r' \<and> bytes r' = rest \<and> final r' = final r"
proof (induction ops arbitrary: r outs)
  case (Cons op ops)
  note IH = Cons.IH
  show ?case
  proof (cases op)
    case (RPeek n)
    then obtain o' where "n \<le> length (bytes r)" "text_run ops (bytes r) = Some (o', rest)" "outs = take n (bytes r) # o'"
      using Cons.prems(2) by (auto split: if_splits)
    then show ?thesis using Peek_has [OF Cons.prems(1), of n] IH RPeek by fastforce
  next
    case (RTake n)
    then obtain o' where "n \<le> length (bytes r)" "text_run ops (drop n (bytes r)) = Some (o', rest)" "outs = take n (bytes r) # o'"
      using Cons.prems(2) by (auto split: if_splits)
    then show ?thesis using ReadBinary_has [OF Cons.prems(1), of n] IH RTake by fastforce
  next
    case RByte
    then obtain x xs o' where "bytes r = x # xs" "text_run ops xs = Some (o', rest)" "outs = [x] # o'"
      using Cons.prems(2) by (auto split: list.splits)
    then show ?thesis using ReadByte_has [OF Cons.prems(1), of x xs] IH RByte by fastforce
  next
    case RRelease
    then show ?thesis using Release_same [OF Cons.prems(1)] IH [of "Release R r" outs] Cons.prems(2) by auto
  qed
qed auto

end

text \<open>
  C15: a connection delivers the bytes of the stream in their order, however the network splits them. For every script of the
  socket (pieces of any size, empty ones too, and perhaps an error at the end) and every sequence of \<open>Peek\<close>, \<open>ReadBinary\<close>,
  \<open>ReadByte\<close> and \<open>Release\<close> that the bytes before the first error suffice for, the calls on a new connection return, with what the same
  calls deliver on the text of the stream, and leave the rest of that text to be read. The allocator has only to return arrays of the size that is
  asked for.
\<close>

theorem reads_follow_stream:
  assumes "\<And>n. n \<le> length (alloc n)" and "text_run ops (sock_bytes sock) = Some (outs, rest)"
  shows "\<exists>c. reader_run (conn_reader alloc) ops (newConn alloc sock w n) = Some (outs, c) \<and> stream_bytes c = rest"
  using conn.run_follows_text [of alloc "newConn alloc sock w n" ops outs rest] assms by (auto simp: newConn_ok alloc_ok_def)

theorem reads_follow_stream_witness:
  "\<exists>c. reader_run (conn_reader (\<lambda>n. replicate n CHR ''?'')) [RPeek 4, RByte, RRelease, RTake 5]
     (newConn (\<lambda>n. replicate n CHR ''?'') [(''GE'', None), ([], None), (''T /a'', None), (''b'', Some EOF)] [] 0) =
     Some ([''GET '', ''G'', ''ET /a''], c) \<and> stream_bytes c = ''b''"
  by (rule reads_follow_stream) simp_all

text \<open>Writing: what was sent and what still waits is all that was written.\<close>

datatype write_op = WBinary string | WMalloc string | WFlush | WDirect string

fun op_bytes :: "write_op \<Rightarrow> string" where
  "op_bytes (WBinary d) = d"
| "op_bytes (WMalloc d) = d"
| "op_bytes WFlush = []"
| "op_bytes (WDirect d) = d"

fun write_step :: "(nat \<Rightarrow> string) \<Rightarrow> write_op \<Rightarrow> Conn \<Rightarrow> (io_error option \<times> Conn) option" where
  "write_step alloc (WBinary d) c = Some (None, cn_WriteBinary alloc d c)"
| "write_step alloc (WMalloc d) c = Some (None, if d = [] then cn_Malloc alloc 0 c else put_last d (cn_Malloc alloc (length d) c))"
| "write_step alloc WFlush c = cn_Flush c"
| "write_step alloc (WDirect d) c = cn_Write d c"

fun write_run :: "(nat \<Rightarrow> string) \<Rightarrow> write_op list \<Rightarrow> Conn \<Rightarrow> (io_error option \<times> Conn) option" where
  "write_run alloc [] c = Some (None, c)"
| "write_run alloc (op # ops) c =
     (case write_step alloc op c of Some (None, c') \<Rightarrow> write_run alloc ops c' | r \<Rightarrow> r)"

lemma write_step_appends:
  assumes "output_ok c" "alloc_ok alloc" "\<forall>x \<in> set (cn_writes c). x = None"
  shows "\<exists>c'. write_step alloc op c = Some (None, c') \<and> output_ok c' \<and> (\<forall>x \<in> set (cn_writes c'). x = None) \<and>
    cn_sent c' @ unsent c' = cn_sent c @ unsent c @ op_bytes op \<and> (op = WFlush \<longrightarrow> unsent c' = [])"
proof (cases op)
  case (WMalloc d)
  then show ?thesis using put_Malloc [OF assms(1,2), of d] assms by (cases "d = []") (simp_all add: cn_Malloc_def)
next
  case (WDirect d)
  obtain c' where "cn_Flush c = Some (None, c')" "output_ok c'" "set (cn_writes c') \<subseteq> set (cn_writes c)" "unsent c' = []" "cn_sent c' = cn_sent c @ unsent c"
    using Flush_sends [OF assms(1)] assms(3) by (auto split: if_splits)
  moreover have "sock_write d c' = (None, c'\<lparr> cn_sent := cn_sent c' @ d, cn_writes := tl (cn_writes c') \<rparr>)"
    using calculation assms(3) by (cases "cn_writes c'") (auto simp: sock_write_def split: option.splits)
  moreover have "\<forall>x \<in> set (tl (cn_writes c')). x = None" using calculation(3) assms(3) by (cases "cn_writes c'") auto
  ultimately show ?thesis using WDirect by (simp add: cn_Write_def output_ok_def unsent_def)
next
  case WFlush
  obtain c' where "cn_Flush c = Some (None, c')" "output_ok c'" "set (cn_writes c') \<subseteq> set (cn_writes c)" "unsent c' = []" "cn_sent c' = cn_sent c @ unsent c"
    using Flush_sends [OF assms(1)] assms(3) by (auto split: if_splits)
  then show ?thesis using WFlush assms(3) by auto
qed (use WriteBinary_appends [OF assms(1,2)] assms(3) in simp)

lemma write_run_appends:
  "\<lbrakk> output_ok c; alloc_ok alloc; \<forall>x \<in> set (cn_writes c). x = None \<rbrakk> \<Longrightarrow>
   \<exists>c'. write_run alloc ops c = Some (None, c') \<and> output_ok c' \<and> (\<forall>x \<in> set (cn_writes c'). x = None) \<and>
     cn_sent c' @ unsent c' = cn_sent c @ unsent c @ concat (map op_bytes ops)"
proof (induction ops arbitrary: c)
  case (Cons op ops)
  obtain c1 where "write_step alloc op c = Some (None, c1)" "output_ok c1" "\<forall>x \<in> set (cn_writes c1). x = None"
      "cn_sent c1 @ unsent c1 = cn_sent c @ unsent c @ op_bytes op" using write_step_appends [OF Cons.prems] by blast
  then show ?case using Cons.IH [of c1] Cons.prems(2) by auto
qed simp

text \<open>
  C16: a connection sends what is written to it, in the order of the calls. For every sequence of \<open>WriteBinary\<close>, \<open>Malloc\<close> with the
  bytes that the caller stores, \<open>Write\<close> and \<open>Flush\<close> on a new connection whose socket accepts every write, followed by a
  \<open>Flush\<close>, all calls succeed and the bytes on the socket are those of the calls one after the other, whether they were
  copied into a node, written through a new node, or borrowed from the caller.
\<close>

theorem writes_arrive_in_order:
  assumes "\<And>n. n \<le> length (alloc n)"
  shows "\<exists>c. write_run alloc (ops @ [WFlush]) (newConn alloc sock [] n) = Some (None, c) \<and> cn_sent c = concat (map op_bytes ops) \<and> unsent c = []"
proof -
  have a: "alloc_ok alloc" using assms by (simp add: alloc_ok_def)
  obtain c1 where c1: "write_run alloc ops (newConn alloc sock [] n) = Some (None, c1)" "output_ok c1" "\<forall>x \<in> set (cn_writes c1). x = None"
      "cn_sent c1 @ unsent c1 = concat (map op_bytes ops)"
    using write_run_appends [OF newConn_ok(2) a, of alloc sock "[]" n ops] by (auto simp: newConn_ok)
  have app: "write_run alloc (xs @ ys) c = (case write_run alloc xs c of Some (None, c') \<Rightarrow> write_run alloc ys c' | r \<Rightarrow> r)" for xs ys c
    by (induction xs arbitrary: c) (auto split: option.splits)
  show ?thesis using write_step_appends [OF c1(2) a c1(3), of WFlush] c1 by (auto simp: app)
qed

theorem writes_arrive_in_order_witness:
  "\<exists>c. write_run (\<lambda>n. replicate n CHR ''?'') ([WBinary ''HTTP/1.1 200 OK'', WMalloc ''0'', WFlush, WDirect ''x''] @ [WFlush])
     (newConn (\<lambda>n. replicate n CHR ''?'') [] [] 0) = Some (None, c) \<and>
     cn_sent c = concat (map op_bytes [WBinary ''HTTP/1.1 200 OK'', WMalloc ''0'', WFlush, WDirect ''x'']) \<and> unsent c = []"
  by (rule writes_arrive_in_order) simp

text \<open>
  A flush whose write fails after some bytes does not record how many: the bytes went out and still wait, so that the next flush
  sends them again.
\<close>

lemma failed_flush_repeats:
  "\<exists>c1 c2. cn_Flush (cn_WriteBinary (\<lambda>n. replicate n CHR ''?'') ''abc'' (newConn (\<lambda>n. replicate n CHR ''?'') [] [Some (2, SockError ''timeout'')] 0)) =
      Some (Some (SockError ''timeout''), c1) \<and> cn_sent c1 = ''ab'' \<and> cn_Flush c1 = Some (None, c2) \<and> cn_sent c2 = ''ababc''"
  by (simp add: newConn_def Let_def cn_WriteBinary_def cn_Malloc_def put_last_def set_output_def newBufferNode_def go_malloc_def block_defs
      store_at_def cn_Flush_def nd_Len_def nd_slice_def nd_cap_def sock_write_def recyclable_def)

text \<open>What \<open>Read\<close> returns is the next part of the stream.\<close>

lemma next_takes:
  assumes "input_ok c" "n \<le> cn_Len c"
  shows "\<exists>c'. cn_next alloc n c = Some (take n (stream_bytes c), None, c') \<and> input_ok c' \<and> stream_bytes c' = drop n (stream_bytes c) \<and>
    stream_err c' = stream_err c"
proof -
  have l: "n \<le> length (buffered_bytes c)" using assms by (simp add: input_ok_def)
  then have p: "peekBuffer n (from_read c) = Some (take n (stream_bytes c))"
    using peekBuffer_reads [of "from_read c" n] from_read_ok [OF assms(1)] by (simp add: buffered_bytes_def stream_bytes_def)
  obtain c1 where c1: "cn_Skip n c = Some (None, c1)" "input_ok c1" "stream_bytes c1 = drop n (stream_bytes c)" "stream_err c1 = stream_err c"
    using Skip_enough [OF assms] by blast
  show ?thesis using p c1 Release_keeps [OF c1(2), of alloc] by (simp add: cn_next_def)
qed

lemma Read_delivers:
  assumes "input_ok c" "alloc_ok alloc" "stream_bytes c \<noteq> []"
  shows "\<exists>d e c'. cn_Read alloc k c = Some (d, e, c') \<and> length d \<le> k \<and> input_ok c' \<and>
    stream_bytes c = d @ (if e = None then stream_bytes c' else [])"
proof -
  consider (buf) "0 < cn_Len c" | (fill) "cn_Len c = 0" "k \<le> block4k" | (direct) "cn_Len c = 0" "\<not> k \<le> block4k" by linarith
  then show ?thesis
  proof cases
    case buf
    then obtain c' where "cn_Read alloc k c = Some (take (min (cn_Len c) k) (stream_bytes c), None, c')" "input_ok c'"
        "stream_bytes c' = drop (min (cn_Len c) k) (stream_bytes c)"
      using next_takes [OF assms(1), of "min (cn_Len c) k" alloc] by (auto simp: cn_Read_def)
    then show ?thesis by simp
  next
    case fill
    have "1 \<le> length (stream_bytes c)" using assms(3) by (cases "stream_bytes c") auto
    then obtain c1 where c1: "fill alloc 1 c = Some (None, c1)" "input_ok c1" "stream_bytes c1 = stream_bytes c" "1 \<le> cn_Len c1"
      using fill_enough [OF assms(1,2)] by blast
    then obtain c' where "cn_Read alloc k c = Some (take (min (cn_Len c1) k) (stream_bytes c), None, c')" "input_ok c'"
        "stream_bytes c' = drop (min (cn_Len c1) k) (stream_bytes c)"
      using fill next_takes [OF c1(2), of "min (cn_Len c1) k" alloc] by (auto simp: cn_Read_def)
    then show ?thesis by simp
  next
    case direct
    then have b: "buffered_bytes c = []" "cn_err c = None" "sock_bytes (cn_sock c) \<noteq> []"
      using assms by (auto simp: input_ok_def stream_bytes_def split: if_splits)
    then obtain d e s' where r: "sock_read k (cn_sock c) = Some (d, e, s')" by (cases "sock_read k (cn_sock c)") auto
    show ?thesis using direct b r sock_read_reads [OF r] assms(1) by (auto simp: cn_Read_def stream_bytes_def)
  qed
qed

end
