(* ===== verification/Http1_Body.thy ===== *)
theory Http1_Body
  imports Net_Conn Http_Header
begin

text \<open>
  Bodies of HTTP/1 messages (\<^verbatim>\<open>web/protocol/ext/common.go\<close>, \<^verbatim>\<open>web/common/utils/chunk.go\<close> and \<open>ReadHexInt\<close> of
  \<^verbatim>\<open>pkg/tools/bytesconv/bytesconv.go\<close>), over any \<open>network.Reader\<close>. A call that does not return, or panics, is \<open>None\<close>;
  the loops whose end depends on what the reader delivers are partial functions. Sizes of a body as the caller limits them are \<open>maxBodySize\<close>,
  where zero is no limit. The array that a body is collected in is left out but for its capacity where the code branches on it.
\<close>

datatype http_error = NetError io_error | ConvError conv_error | ErrChunkSize | ErrBrokenChunk | ErrBodyTooLarge | ErrChunkedStream
  | ErrNeedMore | ErrInvalidName | ErrInvalidKey | ErrInvalidValue | ErrContentLength | ErrBadTrailer | ErrMalformedRequest | ErrMalformedResponse
  | ErrHeaderTooLarge | ErrNothingRead | ErrEOFReadHeader | ErrTimeout | ErrReadHeader http_error | ErrWrittenSize

section \<open>Chunk sizes\<close>

function hex_loop :: "'r Reader \<Rightarrow> nat \<Rightarrow> nat \<Rightarrow> 'r \<Rightarrow> ((http_error + nat) \<times> 'r) option" where
  "hex_loop R n i r =
     (case Peek R 1 r of
        None \<Rightarrow> None
      | Some (_, Some e, r1) \<Rightarrow> map_option (\<lambda>(_, r2). (if i > 0 then Inr n else Inl (NetError e), r2)) (Skip R 1 r1)
      | Some ([], None, r1) \<Rightarrow> None
      | Some (c # _, None, r1) \<Rightarrow>
          let k = Hex2intTable c in
          if k = 16 then
            (if i = 0 then map_option (\<lambda>(_, r2). (Inl (ConvError ErrEmptyHexNum), r2)) (Skip R 1 r1) else Some (Inr n, r1))
          else if i \<ge> maxHexIntChars then map_option (\<lambda>(_, r2). (Inl (ConvError ErrTooLargeHexNum), r2)) (Skip R 1 r1)
          else (case Skip R 1 r1 of None \<Rightarrow> None | Some (_, r2) \<Rightarrow> hex_loop R ((push_bit 4 n) OR k) (i + 1) r2))"
  by pat_completeness auto
termination
  by (relation "measure (\<lambda>(R, n, i, r). maxHexIntChars - i)") auto

declare hex_loop.simps [simp del]

definition rd_ReadHexInt :: "'r Reader \<Rightarrow> 'r \<Rightarrow> ((http_error + nat) \<times> 'r) option" where
  "rd_ReadHexInt R r = hex_loop R 0 0 r"

text \<open>The blanks behind a chunk size and the end of its line.\<close>

partial_function (option) size_end :: "'r Reader \<Rightarrow> 'r \<Rightarrow> (http_error option \<times> 'r) option" where
  "size_end R r =
     Option.bind (ReadByte R r) (\<lambda>(c, e, r1).
       if e \<noteq> None then Some (Some ErrChunkSize, r1)
       else if c = CHR '' '' then size_end R r1
       else if c \<noteq> CHR 0x0D then Some (Some ErrChunkSize, r1)
       else Option.bind (ReadByte R r1) (\<lambda>(c', e', r2).
         Some (if e' \<noteq> None \<or> c' \<noteq> CHR 0x0A then Some ErrChunkSize else None, r2)))"

definition ParseChunkSize :: "'r Reader \<Rightarrow> 'r \<Rightarrow> ((http_error + nat) \<times> 'r) option" where
  "ParseChunkSize R r =
     (case rd_ReadHexInt R r of
        None \<Rightarrow> None
      | Some (Inl e, r1) \<Rightarrow> Some (Inl (if e = NetError EOF then NetError UnexpectedEOF else e), r1)
      | Some (Inr n, r1) \<Rightarrow> map_option (\<lambda>(e, r2). (case e of None \<Rightarrow> Inr n | Some x \<Rightarrow> Inl x, r2)) (size_end R r1))"

definition SkipCRLF :: "'r Reader \<Rightarrow> 'r \<Rightarrow> (http_error option \<times> 'r) option" where
  "SkipCRLF R r =
     (case Peek R (length crlf) r of
        None \<Rightarrow> None
      | Some (_, Some e, r1) \<Rightarrow> Some (Some (NetError e), r1)
      | Some (p, None, r1) \<Rightarrow>
          if p \<noteq> crlf then Some (Some ErrBrokenChunk, r1) else map_option (\<lambda>(_, r2). (None, r2)) (Skip R (length p) r1))"

section \<open>Reading bodies\<close>

definition eof_unexpected :: "io_error \<Rightarrow> io_error" where
  "eof_unexpected e = (if e = EOF then UnexpectedEOF else e)"

definition appendBodyFixedSize :: "'r Reader \<Rightarrow> string \<Rightarrow> nat \<Rightarrow> 'r \<Rightarrow> (string \<times> http_error option \<times> 'r) option" where
  "appendBodyFixedSize R dst n r =
     (if n = 0 then Some (dst, None, r)
      else case Peek R n r of
        None \<Rightarrow> None
      | Some (_, Some e, r1) \<Rightarrow> Some (dst, Some (NetError (eof_unexpected e)), r1)
      | Some (buf, None, r1) \<Rightarrow> map_option (\<lambda>(_, r2). (dst @ buf, None, r2)) (Skip R (length buf) r1))"

partial_function (option) chunks_loop :: "'r Reader \<Rightarrow> nat \<Rightarrow> string \<Rightarrow> 'r \<Rightarrow> (string \<times> http_error option \<times> 'r) option" where
  "chunks_loop R maxBodySize dst r =
     Option.bind (ParseChunkSize R r) (\<lambda>(size, r1).
       case size of
         Inl e \<Rightarrow> Some (dst, Some e, r1)
       | Inr chunkSize \<Rightarrow>
           if chunkSize = 0 then Some (dst, None, r1)
           else if maxBodySize > 0 \<and> length dst + chunkSize > maxBodySize then Some (dst, Some ErrBodyTooLarge, r1)
           else Option.bind (appendBodyFixedSize R dst (chunkSize + length crlf) r1) (\<lambda>(dst1, e, r2).
             if e \<noteq> None then Some (dst1, e, r2)
             else if drop (length dst1 - length crlf) dst1 \<noteq> crlf then Some (dst1, Some ErrBrokenChunk, r2)
             else chunks_loop R maxBodySize (take (length dst1 - length crlf) dst1) r2))"

definition readBodyChunked :: "'r Reader \<Rightarrow> nat \<Rightarrow> string \<Rightarrow> 'r \<Rightarrow> (string \<times> http_error option \<times> 'r) option" where
  "readBodyChunked R maxBodySize dst r = (if dst \<noteq> [] then None else chunks_loop R maxBodySize dst r)"

lemma drop_one_less [termination_simp]: "0 < n \<Longrightarrow> drop_bit (Suc 0) n < (n :: nat)"
  by (simp add: drop_bit_eq_div)

fun bit_length :: "nat \<Rightarrow> nat" where
  "bit_length n = (if n > 0 then Suc (bit_length (drop_bit 1 n)) else 0)"

declare bit_length.simps [simp del]

definition round2 :: "nat \<Rightarrow> nat" where
  "round2 n = (if n = 0 then 0 else push_bit (bit_length (n - 1)) 1)"

text \<open>The body up to the end of the connection; \<open>cp\<close> is the length of the array, which starts at the capacity of the buffer or at 1024.\<close>

partial_function (option) identity_loop :: "'r Reader \<Rightarrow> nat \<Rightarrow> nat \<Rightarrow> string \<Rightarrow> 'r \<Rightarrow> (string \<times> http_error option \<times> 'r) option" where
  "identity_loop R maxBodySize cp dst r =
     Option.bind (if Len R r = 0 then Peek R 1 r else Some ([], None, r)) (\<lambda>(_, e0, r0).
       if e0 \<noteq> None then Some (dst, None, r0)
       else
         let nn = min (Len R r0) (cp - length dst) in
         Option.bind (Peek R nn r0) (\<lambda>(buf, e, r1).
           case e of
             Some x \<Rightarrow> Some (dst, Some (NetError x), r1)
           | None \<Rightarrow>
               Option.bind (Skip R nn r1) (\<lambda>(_, r2).
                 let dst1 = dst @ buf in
                 if maxBodySize > 0 \<and> length dst1 > maxBodySize then Some (dst1, Some ErrBodyTooLarge, r2)
                 else
                   let n = round2 (2 * length dst1);
                       cp' = (if cp = length dst1 then (if maxBodySize > 0 \<and> n > maxBodySize then maxBodySize + 1 else n) else cp)
                   in identity_loop R maxBodySize cp' dst1 r2)))"

definition readBodyIdentity :: "'r Reader \<Rightarrow> nat \<Rightarrow> nat \<Rightarrow> 'r \<Rightarrow> (string \<times> http_error option \<times> 'r) option" where
  "readBodyIdentity R maxBodySize cp r = identity_loop R maxBodySize (if cp = 0 then 1024 else cp) [] r"

text \<open>The length of a body is its number of bytes, \<open>-1\<close> for chunks, or another negative number for a body that ends with the connection.\<close>

definition ReadBody :: "'r Reader \<Rightarrow> int \<Rightarrow> nat \<Rightarrow> nat \<Rightarrow> 'r \<Rightarrow> (string \<times> http_error option \<times> 'r) option" where
  "ReadBody R contentLength maxBodySize cp r =
     (if contentLength \<ge> 0 then
        (if maxBodySize > 0 \<and> contentLength > int maxBodySize then Some ([], Some ErrBodyTooLarge, r)
         else appendBodyFixedSize R [] (nat contentLength) r)
      else if contentLength = -1 then readBodyChunked R maxBodySize [] r
      else readBodyIdentity R maxBodySize cp r)"

section \<open>Writing chunks\<close>

definition chunk_text :: "string \<Rightarrow> string" where
  "chunk_text b = AppendIntHex [] (length b) @ crlf @ (if b = [] then [] else b @ crlf)"

definition WriteChunk :: "(nat \<Rightarrow> string) \<Rightarrow> string \<Rightarrow> bool \<Rightarrow> Conn \<Rightarrow> (io_error option \<times> Conn) option" where
  "WriteChunk alloc b withFlush c =
     (let n = length b;
          sz = EncodedIntHexLen n + 2 + (if n > 0 then n + 2 else 0);
          wb = chunk_text b;
          c1 = put_last wb (cn_Malloc alloc sz c)
      in if length wb \<noteq> sz then None else if \<not> withFlush then Some (None, c1) else cn_Flush c1)"

text \<open>The source is what its calls of \<open>Read\<close> return, in order. A read without bytes and without an error is a panic.\<close>

fun WriteBodyChunked :: "(nat \<Rightarrow> string) \<Rightarrow> socket \<Rightarrow> Conn \<Rightarrow> (io_error option \<times> Conn) option" where
  "WriteBodyChunked alloc [] c = None"
| "WriteBodyChunked alloc ((d, e) # src) c =
     (if d = [] then (if e = None then None else WriteChunk alloc [] True c)
      else case WriteChunk alloc d True c of
        None \<Rightarrow> None
      | Some (Some x, c') \<Rightarrow> Some (Some x, c')
      | Some (None, c') \<Rightarrow> WriteBodyChunked alloc src c')"

section \<open>What a lawful reader makes of a body\<close>

lemma read_hex_loop_Inr:
  assumes "read_hex_loop n i (c # s) = (Inr m, d # rest)" and "Hex2intTable c \<noteq> 16"
  shows "i < maxHexIntChars \<and> read_hex_loop ((push_bit 4 n) OR Hex2intTable c) (i + 1) s = (Inr m, d # rest)"
  using assms by (auto simp: Let_def split: if_splits)

context reader_laws
begin

lemma Peek_byte:
  assumes "ok r" "bytes r = x # xs"
  shows "\<exists>r'. Peek R 1 r = Some ([x], None, r') \<and> ok r' \<and> bytes r' = x # xs \<and> final r' = final r \<and> 1 \<le> Len R r'"
  using Peek_has [of r 1] assms by auto

lemma Skip_byte:
  assumes "ok r" "bytes r = x # xs" "1 \<le> Len R r"
  shows "\<exists>r'. Skip R 1 r = Some (None, r') \<and> ok r' \<and> bytes r' = xs \<and> final r' = final r"
  using Skip_has [of r 1] assms by auto

lemma hex_reads:
  "ok r \<Longrightarrow> read_hex_loop n i (bytes r) = (Inr m, d # rest) \<Longrightarrow>
   \<exists>r'. hex_loop R n i r = Some (Inr m, r') \<and> ok r' \<and> bytes r' = d # rest \<and> final r' = final r"
proof (induction "bytes r" arbitrary: n i r)
  case (Cons x xs)
  have b: "bytes r = x # xs" using Cons.hyps(2) by simp
  obtain r1 where r1: "Peek R 1 r = Some ([x], None, r1)" "ok r1" "bytes r1 = x # xs" "final r1 = final r" "1 \<le> Len R r1"
    using Peek_byte [OF Cons.prems(1) b] by blast
  show ?case
  proof (cases "Hex2intTable x = 16")
    case True
    then show ?thesis using Cons.prems(2) r1 by (auto simp: b hex_loop.simps [of R n i r] Let_def split: if_splits)
  next
    case False
    obtain r2 where r2: "Skip R 1 r1 = Some (None, r2)" "ok r2" "bytes r2 = xs" "final r2 = final r1" using Skip_byte [OF r1(2,3,5)] by blast
    note nx = read_hex_loop_Inr [OF Cons.prems(2) [unfolded b] False]
    have "hex_loop R n i r = hex_loop R ((push_bit 4 n) OR Hex2intTable x) (i + 1) r2"
      using r1 r2 False nx by (simp add: hex_loop.simps [of R n i r] Let_def)
    then show ?thesis using Cons.hyps(1) [of r2] r2 nx r1(4) by auto
  qed
qed simp

lemma size_end_reads:
  "ok r \<Longrightarrow> bytes r = replicate k (CHR '' '') @ crlf @ rest \<Longrightarrow>
   \<exists>r'. size_end R r = Some (None, r') \<and> ok r' \<and> bytes r' = rest \<and> final r' = final r"
proof (induction k arbitrary: r)
  case 0
  then obtain r1 where "ReadByte R r = Some (CHR 0x0D, None, r1)" "ok r1" "bytes r1 = CHR 0x0A # rest" "final r1 = final r"
    using ReadByte_has [of r] by (auto simp: crlf_def)
  then show ?case using ReadByte_has [of r1] by (auto simp: size_end.simps [of R r])
next
  case (Suc k)
  then obtain r1 where "ReadByte R r = Some (CHR '' '', None, r1)" "ok r1" "bytes r1 = replicate k (CHR '' '') @ crlf @ rest" "final r1 = final r"
    using ReadByte_has [of r] by auto
  then show ?case using Suc.IH [of r1] by (auto simp: size_end.simps [of R r])
qed

lemma ParseChunkSize_reads:
  assumes "ok r" "n < 16 ^ 15" "bytes r = AppendIntHex [] n @ replicate k (CHR '' '') @ crlf @ rest"
  shows "\<exists>r'. ParseChunkSize R r = Some (Inr n, r') \<and> ok r' \<and> bytes r' = rest \<and> final r' = final r"
proof -
  let ?t = "replicate k (CHR '' '') @ crlf @ rest"
  have "?t = [] \<or> Hex2intTable (hd ?t) = 16" by (cases k) (simp_all add: crlf_def Hex2intTable_def)
  then have "read_hex_loop 0 0 (bytes r) = (Inr n, ?t)" using hex_int_roundtrip [OF assms(2), of ?t] assms(3) by (simp add: ReadHexInt_def)
  moreover obtain d t where t: "?t = d # t" by (cases k) (auto simp: crlf_def)
  ultimately obtain r1 where "rd_ReadHexInt R r = Some (Inr n, r1)" "ok r1" "bytes r1 = ?t" "final r1 = final r"
    using hex_reads [OF assms(1), of 0 0 n d t] unfolding rd_ReadHexInt_def t by blast
  then show ?thesis using size_end_reads [of r1 k rest] by (auto simp: ParseChunkSize_def)
qed

lemma appendBody_reads:
  assumes "ok r" "n \<le> length (bytes r)"
  shows "\<exists>r'. appendBodyFixedSize R dst n r = Some (dst @ take n (bytes r), None, r') \<and> ok r' \<and> bytes r' = drop n (bytes r) \<and> final r' = final r"
proof (cases "n = 0")
  case False
  obtain r1 where r1: "Peek R n r = Some (take n (bytes r), None, r1)" "ok r1" "bytes r1 = bytes r" "final r1 = final r" "n \<le> Len R r1"
    using Peek_has [OF assms] by blast
  have "length (take n (bytes r)) = n" using assms(2) by simp
  then show ?thesis using False r1 Skip_has [OF r1(2,5)] by (auto simp: appendBodyFixedSize_def)
qed (use assms in \<open>auto simp: appendBodyFixedSize_def\<close>)

lemma chunk_reads:
  assumes "ok r" "b \<noteq> []" "length b < 16 ^ 15" "bytes r = chunk_text b @ rest" and "mx = 0 \<or> length dst + length b \<le> mx"
  shows "\<exists>r'. chunks_loop R mx dst r = chunks_loop R mx (dst @ b) r' \<and> ok r' \<and> bytes r' = rest \<and> final r' = final r"
proof -
  have "bytes r = AppendIntHex [] (length b) @ replicate 0 (CHR '' '') @ crlf @ b @ crlf @ rest" using assms(2,4) by (simp add: chunk_text_def)
  from ParseChunkSize_reads [OF assms(1,3) this] obtain r1
    where r1: "ParseChunkSize R r = Some (Inr (length b), r1)" "ok r1" "bytes r1 = b @ crlf @ rest" "final r1 = final r" by blast
  have l: "length b + length crlf \<le> length (bytes r1)" using r1(3) by simp
  obtain r2 where r2: "appendBodyFixedSize R dst (length b + length crlf) r1 = Some (dst @ b @ crlf, None, r2)" "ok r2" "bytes r2 = rest"
      "final r2 = final r1" using appendBody_reads [OF r1(2) l, of dst] r1(3) by auto
  have "chunks_loop R mx dst r = chunks_loop R mx (dst @ b) r2"
    using r1 r2 assms(2,5) by (subst chunks_loop.simps) auto
  then show ?thesis using r1 r2 by auto
qed

lemma chunks_read:
  "\<lbrakk> ok r; \<forall>b \<in> set cs. b \<noteq> [] \<and> length b < 16 ^ 15; bytes r = concat (map chunk_text cs) @ chunk_text [] @ rest;
     mx = 0 \<or> length dst + length (concat cs) \<le> mx \<rbrakk> \<Longrightarrow>
   \<exists>r'. chunks_loop R mx dst r = Some (dst @ concat cs, None, r') \<and> ok r' \<and> bytes r' = rest \<and> final r' = final r"
proof (induction cs arbitrary: r dst)
  case Nil
  have "bytes r = AppendIntHex [] 0 @ replicate 0 (CHR '' '') @ crlf @ rest" using Nil.prems(3) by (simp add: chunk_text_def)
  from ParseChunkSize_reads [OF Nil.prems(1) _ this] obtain r1
    where "ParseChunkSize R r = Some (Inr 0, r1)" "ok r1" "bytes r1 = rest" "final r1 = final r" by auto
  then show ?case by (subst chunks_loop.simps) auto
next
  case (Cons b cs)
  have "b \<noteq> []" "length b < 16 ^ 15" "bytes r = chunk_text b @ concat (map chunk_text cs) @ chunk_text [] @ rest"
    "mx = 0 \<or> length dst + length b \<le> mx" using Cons.prems(2-4) by auto
  from chunk_reads [OF Cons.prems(1) this] obtain r1 where r1: "chunks_loop R mx dst r = chunks_loop R mx (dst @ b) r1" "ok r1"
      "bytes r1 = concat (map chunk_text cs) @ chunk_text [] @ rest" "final r1 = final r" by blast
  have "mx = 0 \<or> length (dst @ b) + length (concat cs) \<le> mx" using Cons.prems(4) by auto
  from Cons.IH [OF r1(2) _ r1(3) this] show ?case using Cons.prems(2) r1(1,4) by auto
qed

lemma chunks_too_large:
  "\<lbrakk> ok r; \<forall>b \<in> set cs. b \<noteq> [] \<and> length b < 16 ^ 15; bytes r = concat (map chunk_text cs) @ rest; length dst \<le> mx; 0 < mx;
     mx < length dst + length (concat cs) \<rbrakk> \<Longrightarrow>
   \<exists>d r'. chunks_loop R mx dst r = Some (d, Some ErrBodyTooLarge, r') \<and> length d \<le> mx"
proof (induction cs arbitrary: r dst)
  case (Cons b cs)
  have b: "b \<noteq> []" "length b < 16 ^ 15" "bytes r = chunk_text b @ concat (map chunk_text cs) @ rest" using Cons.prems(2,3) by auto
  show ?case
  proof (cases "length dst + length b \<le> mx")
    case True
    from chunk_reads [OF Cons.prems(1) b] True obtain r1 where r1: "chunks_loop R mx dst r = chunks_loop R mx (dst @ b) r1" "ok r1"
        "bytes r1 = concat (map chunk_text cs) @ rest" by blast
    from Cons.IH [OF r1(2) _ r1(3), of "dst @ b"] show ?thesis using Cons.prems r1(1) True by auto
  next
    case False
    have "bytes r = AppendIntHex [] (length b) @ replicate 0 (CHR '' '') @ crlf @ b @ crlf @ concat (map chunk_text cs) @ rest"
      using b by (simp add: chunk_text_def)
    from ParseChunkSize_reads [OF Cons.prems(1) b(2) this] obtain r1 where "ParseChunkSize R r = Some (Inr (length b), r1)" by blast
    then show ?thesis using False b(1) Cons.prems(4,5) by (subst chunks_loop.simps) auto
  qed
qed auto

end

lemma bit_length_bound: "n < 2 ^ bit_length n"
proof (induction n rule: bit_length.induct)
  case (1 n)
  show ?case
  proof (cases "n > 0")
    case True
    then have "n div 2 < 2 ^ bit_length (n div 2)" using 1 by (simp add: drop_bit_eq_div)
    then have "n < 2 * 2 ^ bit_length (n div 2)" by linarith
    then show ?thesis using True by (simp add: bit_length.simps [of n] drop_bit_eq_div)
  qed (simp add: bit_length.simps)
qed

lemma round2_bound: "n \<le> round2 n"
  using bit_length_bound [of "n - 1"] by (cases n) (auto simp: round2_def push_bit_eq_mult Suc_le_eq)

lemma identity_step:
  assumes "(if Len R r = 0 then Peek R 1 r else Some ([], None, r)) = Some (b, None, r0)"
    and "Peek R (min (Len R r0) (cp - length dst)) r0 = Some (buf, None, r1)" and "Skip R (min (Len R r0) (cp - length dst)) r1 = Some (x, r2)"
    and "mx = 0 \<or> length (dst @ buf) \<le> mx"
  shows "identity_loop R mx cp dst r = identity_loop R mx
      (if cp = length (dst @ buf) then (if mx > 0 \<and> round2 (2 * length (dst @ buf)) > mx then mx + 1 else round2 (2 * length (dst @ buf))) else cp)
      (dst @ buf) r2"
proof -
  have "\<not> (mx > 0 \<and> length (dst @ buf) > mx)" using assms(4) by auto
  then show ?thesis
    by (subst identity_loop.simps) (simp only: assms(1-3) bind.simps prod.case Let_def option.case simp_thms if_False)
qed

context reader_laws
begin

lemma identity_reads:
  "\<lbrakk> ok r; final r = Some e; length dst < cp; mx = 0 \<or> length dst + length (bytes r) \<le> mx \<rbrakk> \<Longrightarrow>
   \<exists>r'. identity_loop R mx cp dst r = Some (dst @ bytes r, None, r')"
proof (induction "length (bytes r)" arbitrary: r dst cp rule: less_induct)
  case less
  show ?case
  proof (cases "bytes r = []")
    case True
    then have "Len R r = 0" using Len_le [OF less.prems(1)] by simp
    moreover obtain b r' where "Peek R 1 r = Some (b, Some e, r')" using Peek_ends [OF less.prems(1) _ less.prems(2), of 1] True by auto
    ultimately show ?thesis using True by (subst identity_loop.simps) auto
  next
    case False
    then have l1: "1 \<le> length (bytes r)" by (cases "bytes r") auto
    obtain b r0 where r0: "(if Len R r = 0 then Peek R 1 r else Some ([], None, r)) = Some (b, None, r0)" "ok r0" "bytes r0 = bytes r"
        "final r0 = Some e" "1 \<le> Len R r0"
      using Peek_has [OF less.prems(1) l1] less.prems(1,2) by (cases "Len R r = 0") auto
    let ?nn = "min (Len R r0) (cp - length dst)" and ?d = "dst @ take (min (Len R r0) (cp - length dst)) (bytes r)"
    have nn: "?nn \<le> length (bytes r0)" "0 < ?nn" using Len_le [OF r0(2)] r0(5) less.prems(3) by auto
    obtain r1 where r1: "Peek R ?nn r0 = Some (take ?nn (bytes r), None, r1)" "ok r1" "bytes r1 = bytes r" "final r1 = Some e" "?nn \<le> Len R r1"
      using Peek_has [OF r0(2) nn(1)] r0(3,4) by auto
    obtain r2 where r2: "Skip R ?nn r1 = Some (None, r2)" "ok r2" "bytes r2 = drop ?nn (bytes r)" "final r2 = Some e"
      using Skip_has [OF r1(2,5)] r1(3,4) by auto
    have ld: "length ?d = length dst + ?nn" using nn r0(3) by simp
    let ?n = "round2 (2 * length ?d)"
    let ?cp = "if cp = length ?d then (if mx > 0 \<and> ?n > mx then mx + 1 else ?n) else cp"
    have mx: "mx = 0 \<or> length ?d + length (bytes r2) \<le> mx" using less.prems(4) ld nn r0(3) r2(3) by auto
    have grown: "m < (if cp = m then (if mx > 0 \<and> round2 (2 * m) > mx then mx + 1 else round2 (2 * m)) else cp)"
      if "0 < m" "m \<le> cp" "mx = 0 \<or> m \<le> mx" for m
      using that round2_bound [of "2 * m"] by auto
    have cp: "length ?d < ?cp"
      by (rule grown) (use ld nn less.prems(3) mx in linarith)+
    have "identity_loop R mx cp dst r = identity_loop R mx ?cp ?d r2"
      by (rule identity_step [OF r0(1) r1(1) r2(1)]) (use mx in linarith)
    moreover have "length (bytes r2) = length (bytes r) - ?nn" using r2(3) by simp
    then have "length (bytes r2) < length (bytes r)" using nn(1) [unfolded r0(3)] nn(2) by linarith
    ultimately show ?thesis using less.hyps [OF _ r2(2,4) cp mx] r2(3) by (auto simp del: length_append)
  qed
qed

end

section \<open>What is written\<close>

lemma chunk_text_length: "length (chunk_text b) = EncodedIntHexLen (length b) + 2 + (if length b > 0 then length b + 2 else 0)"
  by (simp add: chunk_text_def EncodedIntHexLen_eq crlf_def)

lemma WriteChunk_appends:
  fixes b :: string
  assumes "output_ok c" "alloc_ok alloc"
  defines "c1 \<equiv> put_last (chunk_text b) (cn_Malloc alloc (length (chunk_text b)) c)"
  shows "WriteChunk alloc b fl c = (if fl then cn_Flush c1 else Some (None, c1)) \<and> output_ok c1 \<and> unsent c1 = unsent c @ chunk_text b \<and>
    cn_sent c1 = cn_sent c \<and> cn_writes c1 = cn_writes c"
proof -
  have "chunk_text b \<noteq> []" by (simp add: chunk_text_def crlf_def)
  note p = put_Malloc [OF assms(1,2) this, folded c1_def]
  have "WriteChunk alloc b fl c = (if fl then cn_Flush c1 else Some (None, c1))"
    by (simp add: WriteChunk_def Let_def c1_def chunk_text_length)
  then show ?thesis using p by simp
qed

lemma WriteChunk_sends:
  assumes "output_ok c" "alloc_ok alloc" "\<forall>x \<in> set (cn_writes c). x = None" "unsent c = []"
  shows "\<exists>c'. WriteChunk alloc b True c = Some (None, c') \<and> output_ok c' \<and> (\<forall>x \<in> set (cn_writes c'). x = None) \<and> unsent c' = [] \<and>
    cn_sent c' = cn_sent c @ chunk_text b"
proof -
  let ?c = "put_last (chunk_text b) (cn_Malloc alloc (length (chunk_text b)) c)"
  have w: "WriteChunk alloc b True c = cn_Flush ?c" "output_ok ?c" "unsent ?c = chunk_text b" "cn_sent ?c = cn_sent c" "cn_writes ?c = cn_writes c"
    using WriteChunk_appends [OF assms(1,2), of b True] assms(4) by simp_all
  then show ?thesis using write_step_appends [OF w(2) assms(2), of WFlush] assms(3) by auto
qed

lemma WriteBodyChunked_sends:
  "\<lbrakk> output_ok c; alloc_ok alloc; \<forall>x \<in> set (cn_writes c). x = None; unsent c = []; [] \<notin> set cs \<rbrakk> \<Longrightarrow>
   \<exists>c'. WriteBodyChunked alloc (map (\<lambda>d. (d, None)) cs @ [([], Some e)]) c = Some (None, c') \<and>
     cn_sent c' = cn_sent c @ concat (map chunk_text cs) @ chunk_text [] \<and> unsent c' = []"
proof (induction cs arbitrary: c)
  case Nil
  then show ?case using WriteChunk_sends [of c alloc "[]"] by auto
next
  case (Cons b cs)
  obtain c1 where c1: "WriteChunk alloc b True c = Some (None, c1)" "output_ok c1" "\<forall>x \<in> set (cn_writes c1). x = None" "unsent c1 = []"
      "cn_sent c1 = cn_sent c @ chunk_text b" using WriteChunk_sends [OF Cons.prems(1-4), of b] by blast
  show ?case using Cons.IH [OF c1(2) Cons.prems(2) c1(3,4)] c1(1,5) Cons.prems(5) by auto
qed

section \<open>Properties\<close>

text \<open>
  C18: a body that is sent in chunks arrives. \<open>WriteBodyChunked\<close> on a connection whose socket accepts every write sends the
  chunks that the source delivers and the last, empty one; and whenever these bytes are what another connection receives, followed by any others, in
  pieces of any size, \<open>readBodyChunked\<close> returns the body, without an error when the limit admits it, and leaves to the connection
  exactly what follows the last chunk.
\<close>

theorem chunked_body_arrives:
  assumes "\<And>n. n \<le> length (alloc n)" and "\<forall>d \<in> set cs. d \<noteq> [] \<and> length d < 16 ^ 15" and "mx = 0 \<or> length (concat cs) \<le> mx"
  shows "\<exists>c. WriteBodyChunked alloc (map (\<lambda>d. (d, None)) cs @ [([], Some e)]) (newConn alloc s [] k) = Some (None, c) \<and>
    (\<forall>sock rest. sock_bytes sock = cn_sent c @ rest \<longrightarrow>
      (\<exists>c'. readBodyChunked (conn_reader alloc) mx [] (newConn alloc sock w n) = Some (concat cs, None, c') \<and> stream_bytes c' = rest))"
proof -
  have a: "alloc_ok alloc" using assms(1) by (simp add: alloc_ok_def)
  obtain c where c: "WriteBodyChunked alloc (map (\<lambda>d. (d, None)) cs @ [([], Some e)]) (newConn alloc s [] k) = Some (None, c)"
      "cn_sent c = concat (map chunk_text cs) @ chunk_text []"
    using WriteBodyChunked_sends [of "newConn alloc s [] k" alloc cs e] a assms(2) by (auto simp: newConn_ok)
  have "\<exists>c'. readBodyChunked (conn_reader alloc) mx [] (newConn alloc sock w n) = Some (concat cs, None, c') \<and> stream_bytes c' = rest"
    if "sock_bytes sock = cn_sent c @ rest" for sock rest
    using conn.chunks_read [of alloc "newConn alloc sock w n" cs rest mx "[]"] a assms(2,3) c(2) that
    by (auto simp: newConn_ok readBodyChunked_def)
  then show ?thesis using c(1) by blast
qed

theorem chunked_body_arrives_witness:
  "\<exists>c. WriteBodyChunked (\<lambda>n. replicate n CHR ''?'') (map (\<lambda>d. (d, None)) [''hello '', ''world''] @ [([], Some EOF)])
      (newConn (\<lambda>n. replicate n CHR ''?'') [] [] 0) = Some (None, c) \<and>
    (\<forall>sock rest. sock_bytes sock \<noteq> cn_sent c @ rest \<or>
      (\<exists>c'. readBodyChunked (conn_reader (\<lambda>n. replicate n CHR ''?'')) 11 [] (newConn (\<lambda>n. replicate n CHR ''?'') sock [] 0) =
         Some (''hello world'', None, c') \<and> stream_bytes c' = rest))"
  using chunked_body_arrives [of "\<lambda>n. replicate n CHR ''?''" "[''hello '', ''world'']" 11 EOF "[]" 0 "[]" 0] by auto

text \<open>
  The limit on a body holds. When the chunks of a body exceed \<open>maxBodySize\<close>, \<open>readBodyChunked\<close> reports that the body is
  too large, having collected no more than \<open>maxBodySize\<close> bytes, however the network splits the chunks and whatever follows them.
\<close>

theorem chunked_body_limited:
  assumes "\<And>n. n \<le> length (alloc n)" and "\<forall>d \<in> set cs. d \<noteq> [] \<and> length d < 16 ^ 15"
    and "0 < mx" and "mx < length (concat cs)" and "sock_bytes sock = concat (map chunk_text cs) @ rest"
  shows "\<exists>d c. readBodyChunked (conn_reader alloc) mx [] (newConn alloc sock w n) = Some (d, Some ErrBodyTooLarge, c) \<and> length d \<le> mx"
  using conn.chunks_too_large [of alloc "newConn alloc sock w n" cs rest "[]" mx] assms
  by (auto simp: newConn_ok readBodyChunked_def alloc_ok_def)

theorem chunked_body_limited_witness:
  "\<exists>d c. readBodyChunked (conn_reader (\<lambda>n. replicate n CHR ''?'')) 8 []
     (newConn (\<lambda>n. replicate n CHR ''?'') [(chunk_text ''hello '', None), (chunk_text ''world'', None)] [] 0) =
     Some (d, Some ErrBodyTooLarge, c) \<and> length d \<le> 8"
  by (rule chunked_body_limited [of _ "[''hello '', ''world'']" _ _ "[]"]) simp_all

text \<open>
  A body that ends with the connection is taken to be complete whatever ends the connection: after a reset or a timeout the bytes that came
  are returned without an error.
\<close>

lemma identity_body_hides_errors:
  assumes "\<And>n. n \<le> length (alloc n)" and "sock_err sock = Some e" and "mx = 0 \<or> length (sock_bytes sock) \<le> mx"
  shows "\<exists>c. ReadBody (conn_reader alloc) (-2) mx cp (newConn alloc sock w n) = Some (sock_bytes sock, None, c)"
  using conn.identity_reads [of alloc "newConn alloc sock w n" e "[]" "if cp = 0 then 1024 else cp" mx] assms
  by (auto simp: newConn_ok ReadBody_def readBodyIdentity_def alloc_ok_def)

text \<open>A body of known length is read whole from the connection, or the call says why not: the connection that ends before is an unexpected end.\<close>

lemma fixed_body_read:
  assumes "\<And>n. n \<le> length (alloc n)" and "mx = 0 \<or> len \<le> mx"
  shows "len \<le> length (sock_bytes sock) \<Longrightarrow>
      \<exists>c. ReadBody (conn_reader alloc) (int len) mx cp (newConn alloc sock w n) = Some (take len (sock_bytes sock), None, c) \<and>
        stream_bytes c = drop len (sock_bytes sock)"
    and "length (sock_bytes sock) < len \<Longrightarrow> sock_err sock = Some e \<Longrightarrow>
      \<exists>c. ReadBody (conn_reader alloc) (int len) mx cp (newConn alloc sock w n) = Some ([], Some (NetError (eof_unexpected e)), c)"
  using conn.appendBody_reads [of alloc "newConn alloc sock w n" len "[]"] conn.Peek_ends [of alloc "newConn alloc sock w n" len e] assms
  by (auto simp: newConn_ok ReadBody_def alloc_ok_def appendBodyFixedSize_def)

end
