(* ===== verification/Http1_Header.thy ===== *)
theory Http1_Header
  imports Http1_Body "HOL-Library.Sublist"
begin

text \<open>
  Reading the headers of HTTP/1 messages: the scanner of header lines (\<^verbatim>\<open>web/protocol/ext/headerscanner.go\<close>), trailers and errors
  (\<^verbatim>\<open>ext/common.go\<close>, \<^verbatim>\<open>ext/error.go\<close>), and the parsers of requests and responses
  (\<^verbatim>\<open>http1/req/header.go\<close>, \<^verbatim>\<open>http1/resp/header.go\<close>).

  The scanner works in place on the slice that \<open>Peek\<close> returned: it rewrites names of fields, and it moves bytes when a value spans several lines.
  So its state has the whole array: what is behind it, the slice \<open>B\<close>, and what is beyond the end of \<open>B\<close>. A parser returns the array as it
  leaves it, and the loops over the reader write it back with \<open>poke\<close>. Texts of errors are left out.
\<close>

definition IndexByte :: "char \<Rightarrow> string \<Rightarrow> nat option" where
  "IndexByte c s = (if c \<in> set s then Some (length (takeWhile (\<lambda>x. x \<noteq> c) s)) else None)"

lemma IndexByte_less: "IndexByte c s = Some n \<Longrightarrow> n < length s"
proof (induction s arbitrary: n)
  case (Cons x s)
  then show ?case by (cases "x = c") (auto simp: IndexByte_def split: if_splits)
qed (simp add: IndexByte_def)

abbreviation lf :: char where "lf \<equiv> CHR 0x0A"
abbreviation cr :: char where "cr \<equiv> CHR 0x0D"
abbreviation ht :: char where "ht \<equiv> CHR 0x09"

definition NextLine :: "string \<Rightarrow> (string \<times> string) option" where
  "NextLine b =
     map_option (\<lambda>nNext. let n = (if nNext > 0 \<and> b ! (nNext - 1) = cr then nNext - 1 else nNext) in (take n b, drop (nNext + 1) b))
       (IndexByte lf b)"

section \<open>Scanning header lines\<close>

record HeaderScanner =
  sc_behind :: string
  sc_B :: string
  sc_beyond :: string
  sc_Key :: string
  sc_Value :: string
  sc_Err :: "http_error option"
  sc_HLen :: int
  sc_disableNormalizing :: bool
  sc_nextColon :: int
  sc_nextNewLine :: int
  sc_initialized :: bool

definition new_scanner :: "string \<Rightarrow> bool \<Rightarrow> HeaderScanner" where
  "new_scanner buf dis = \<lparr> sc_behind = [], sc_B = buf, sc_beyond = [], sc_Key = [], sc_Value = [], sc_Err = None, sc_HLen = 0,
     sc_disableNormalizing = dis, sc_nextColon = 0, sc_nextNewLine = 0, sc_initialized = False \<rparr>"

definition sc_array :: "HeaderScanner \<Rightarrow> string" where
  "sc_array s = sc_behind s @ sc_B s @ sc_beyond s"

definition sc_fail :: "http_error \<Rightarrow> HeaderScanner \<Rightarrow> bool \<times> HeaderScanner" where
  "sc_fail e s = (False, s\<lparr> sc_Err := Some e \<rparr>)"

text \<open>The position of the colon: the one that was seen before, or the next one, with no line end in front of it.\<close>

definition find_colon :: "HeaderScanner \<Rightarrow> (http_error + nat) \<times> HeaderScanner" where
  "find_colon s =
     (if sc_nextColon s \<ge> 0 then (Inr (nat (sc_nextColon s)), s\<lparr> sc_nextColon := -1 \<rparr>)
      else case (IndexByte lf (sc_B s), IndexByte CHR '':'' (sc_B s)) of
        (None, _) \<Rightarrow> (Inl ErrNeedMore, s)
      | (Some x, None) \<Rightarrow> (Inl ErrNeedMore, s)
      | (Some x, Some n) \<Rightarrow> (if x < n then Inl ErrInvalidName else Inr n, s))"

text \<open>The name of the field, up to the colon at \<open>n\<close>, and the blanks behind the colon.\<close>

definition take_key :: "nat \<Rightarrow> HeaderScanner \<Rightarrow> HeaderScanner" where
  "take_key n s =
     (let key = NormalizeHeaderKey (take n (sc_B s)) (sc_disableNormalizing s);
          blanks = length (takeWhile (\<lambda>c. c = CHR '' '') (drop (n + 1) (sc_B s)));
          m = n + 1 + blanks
      in s\<lparr> sc_Key := key, sc_behind := sc_behind s @ key @ drop n (take m (sc_B s)), sc_B := drop m (sc_B s),
            sc_HLen := sc_HLen s + int m, sc_nextNewLine := sc_nextNewLine s - int blanks \<rparr>)"

text \<open>The line end at \<open>n\<close>, moved over the lines that continue the value; a continuation with a colon is the next field, and its positions are kept.\<close>

function fold_lines :: "string \<Rightarrow> nat \<Rightarrow> bool \<Rightarrow> nat \<times> bool \<times> (nat \<times> nat) option" where
  "fold_lines B n multi =
     (if n + 1 \<ge> length B then (n, multi, None)
      else if B ! (n + 1) \<noteq> CHR '' '' \<and> B ! (n + 1) \<noteq> ht then (n, multi, None)
      else case IndexByte lf (drop (n + 1) B) of
        None \<Rightarrow> (n, multi, None)
      | Some d \<Rightarrow>
          if d = 0 \<or> d = 1 \<and> B ! (n + 1) = cr then (n, multi, None)
          else case IndexByte CHR '':'' (take d (drop (n + 1) B)) of
            Some c \<Rightarrow> (n, multi, Some (c, d - c - 1))
          | None \<Rightarrow> fold_lines B (n + d + 1) True)"
  by pat_completeness auto
termination
  by (relation "measure (\<lambda>(B, n, multi). length B - n)") auto

declare fold_lines.simps [simp del]

text \<open>The bytes of a value that spans several lines without the line ends, and with blanks for the tabs at the start of a line.\<close>

fun compact_value :: "bool \<Rightarrow> string \<Rightarrow> string" where
  "compact_value lineStart [] = []"
| "compact_value lineStart (c # ov) =
     (if c = cr \<or> c = lf then compact_value (lineStart \<or> c = lf) ov
      else if lineStart \<and> c = ht then CHR '' '' # compact_value lineStart ov
      else c # compact_value False ov)"

text \<open>
  \<open>normalizeHeaderValue\<close> on the value \<open>ov\<close>, which is the start of \<open>ob\<close>: the new value, the array \<open>ob\<close> as it is left, how many of its bytes the
  value and its line end take, how many bytes were cut, and the length of the header.
\<close>

definition normalizeHeaderValue :: "string \<Rightarrow> string \<Rightarrow> int \<Rightarrow> string \<times> string \<times> nat \<times> nat \<times> int" where
  "normalizeHeaderValue ov ob headerLength =
     (if ov = [] then ([], ob, length ob, 0, 0)
      else
        let nv = compact_value False ov;
            shrunk = length ov - length nv;
            rest = drop (length ov) ob;
            ob' = nv @ rest @ drop (length ob - shrunk) ob;
            skip = (case rest of [] \<Rightarrow> 0 | c # t \<Rightarrow>
                      if c = cr then (case t of [] \<Rightarrow> 1 | c' # _ \<Rightarrow> if c' = lf then 2 else 1) else if c = lf then 1 else 0)
        in (nv, ob', length nv + skip, shrunk, headerLength - int shrunk))"

definition trim_value :: "string \<Rightarrow> string" where
  "trim_value v =
     (let v1 = (if v \<noteq> [] \<and> last v = cr then butlast v else v)
      in rev (dropWhile (\<lambda>c. c = CHR '' '') (rev v1)))"

text \<open>The value, whose first line ends at \<open>n\<close>.\<close>

definition take_value :: "nat \<Rightarrow> HeaderScanner \<Rightarrow> bool \<times> HeaderScanner" where
  "take_value n s =
     (let oldB = sc_B s; (n', multi, nxt) = fold_lines oldB n False;
          s1 = (case nxt of None \<Rightarrow> s | Some (c, l) \<Rightarrow> s\<lparr> sc_nextColon := int c, sc_nextNewLine := int l \<rparr>)
      in if n' \<ge> length oldB then sc_fail ErrNeedMore s1
         else
           let v = trim_value (take n' oldB);
               hlen = sc_HLen s1 + int (n' + 1)
           in if \<not> multi then
                (True, s1\<lparr> sc_Value := v, sc_behind := sc_behind s1 @ take (n' + 1) oldB, sc_B := drop (n' + 1) oldB, sc_HLen := hlen \<rparr>)
              else
                let (nv, ob, used, shrunk, nhl) = normalizeHeaderValue v oldB hlen;
                    e = length oldB - shrunk
                in (True, s1\<lparr> sc_Value := nv, sc_behind := sc_behind s1 @ take used ob, sc_B := drop used (take e ob),
                              sc_beyond := drop e ob @ sc_beyond s1, sc_HLen := nhl \<rparr>))"

definition sc_Next :: "HeaderScanner \<Rightarrow> bool \<times> HeaderScanner" where
  "sc_Next s0 =
     (let s = (if sc_initialized s0 then s0 else s0\<lparr> sc_nextColon := -1, sc_nextNewLine := -1, sc_initialized := True \<rparr>) in
      if take 2 (sc_B s) = crlf then (False, s\<lparr> sc_behind := sc_behind s @ crlf, sc_B := drop 2 (sc_B s), sc_HLen := sc_HLen s + 2 \<rparr>)
      else if take 1 (sc_B s) = [lf] then (False, s\<lparr> sc_behind := sc_behind s @ [lf], sc_B := drop 1 (sc_B s), sc_HLen := sc_HLen s + 1 \<rparr>)
      else case find_colon s of
        (Inl e, s1) \<Rightarrow> sc_fail e s1
      | (Inr n, s1) \<Rightarrow>
          let s2 = take_key n s1 in
          if sc_nextNewLine s2 \<ge> 0 then take_value (nat (sc_nextNewLine s2)) (s2\<lparr> sc_nextNewLine := -1 \<rparr>)
          else case IndexByte lf (sc_B s2) of None \<Rightarrow> sc_fail ErrNeedMore s2 | Some x \<Rightarrow> take_value x s2)"

lemma fold_lines_ge: "n \<le> fst (fold_lines B n multi)"
proof (induction B n multi rule: fold_lines.induct)
  case (1 B n multi)
  then show ?case by (subst fold_lines.simps) (fastforce split: option.splits)
qed

lemma take_value_shorter: "take_value n s = (True, s') \<Longrightarrow> length (sc_B s') \<le> length (sc_B s) \<and> sc_B s \<noteq> []"
  by (auto simp: take_value_def Let_def sc_fail_def normalizeHeaderValue_def split: prod.splits if_splits option.splits)

text \<open>Every field that the scanner finds takes bytes from the slice.\<close>

lemma sc_Next_shorter: "sc_Next s = (True, s') \<Longrightarrow> length (sc_B s') < length (sc_B s)"
proof -
  assume a: "sc_Next s = (True, s')"
  obtain n s1 k s2 where s: "sc_B s1 = sc_B s" "take_value k s2 = (True, s')" "sc_B s2 = sc_B (take_key n s1)"
  proof -
    let ?s = "if sc_initialized s then s else s\<lparr> sc_nextColon := -1, sc_nextNewLine := -1, sc_initialized := True \<rparr>"
    obtain n s1 where f: "find_colon ?s = (Inr n, s1)" using a by (auto simp: sc_Next_def Let_def sc_fail_def split: if_splits prod.splits sum.splits)
    then have "sc_B s1 = sc_B s" by (auto simp: find_colon_def split: if_splits option.splits)
    moreover obtain k s2 where "take_value k s2 = (True, s')" "sc_B s2 = sc_B (take_key n s1)"
      using a f by (auto simp: sc_Next_def Let_def sc_fail_def split: if_splits option.splits)
    ultimately show thesis using that by blast
  qed
  have "sc_B s2 \<noteq> []" "length (sc_B s') \<le> length (sc_B s2)" using take_value_shorter [OF s(2)] by auto
  then show ?thesis using s(1,3) by (auto simp: take_key_def Let_def)
qed

text \<open>The values of a list that commas separate.\<close>

definition stripSpace :: "string \<Rightarrow> string" where
  "stripSpace b = rev (dropWhile (\<lambda>c. c = CHR '' '') (rev (dropWhile (\<lambda>c. c = CHR '' '') b)))"

function HasHeaderValue :: "string \<Rightarrow> string \<Rightarrow> bool" where
  "HasHeaderValue s v =
     (if s = [] then False
      else case IndexByte CHR '','' s of
        None \<Rightarrow> CaseInsensitiveCompare (stripSpace s) v
      | Some n \<Rightarrow> CaseInsensitiveCompare (stripSpace (take n s)) v \<or> HasHeaderValue (drop (n + 1) s) v)"
  by pat_completeness auto
termination
  by (relation "measure (\<lambda>(s, v). length s)") auto

declare HasHeaderValue.simps [simp del]

text \<open>The raw text of the headers, up to the empty line.\<close>

function raw_loop :: "string \<Rightarrow> nat \<Rightarrow> nat option" where
  "raw_loop buf n =
     (case IndexByte lf (drop n buf) of
        None \<Rightarrow> None
      | Some m \<Rightarrow> if m = 1 \<and> buf ! n = cr \<or> m = 0 then Some (n + m + 1) else raw_loop buf (n + m + 1))"
  by pat_completeness auto
termination
  by (relation "measure (\<lambda>(buf, n). length buf - n)") (auto dest!: IndexByte_less)

declare raw_loop.simps [simp del]

definition ReadRawHeaders :: "string \<Rightarrow> string \<Rightarrow> string \<times> (http_error + nat)" where
  "ReadRawHeaders dst buf =
     (case IndexByte lf buf of
        None \<Rightarrow> ([], Inl ErrNeedMore)
      | Some n \<Rightarrow>
          if n = 1 \<and> buf ! 0 = cr \<or> n = 0 then (dst, Inr (n + 1))
          else (case raw_loop buf (n + 1) of None \<Rightarrow> (dst, Inl ErrNeedMore) | Some k \<Rightarrow> (dst @ take k buf, Inr k)))"

definition isOnlyCRLF :: "string \<Rightarrow> bool" where
  "isOnlyCRLF b \<longleftrightarrow> list_all (\<lambda>c. c = cr \<or> c = lf) b"

definition HeaderError :: "io_error option \<Rightarrow> http_error \<Rightarrow> string \<Rightarrow> http_error" where
  "HeaderError err errParse b =
     (if errParse \<noteq> ErrNeedMore then ErrReadHeader errParse
      else case err of
        None \<Rightarrow> ErrNeedMore
      | Some e \<Rightarrow> if isOnlyCRLF b then NetError EOF else ErrReadHeader (NetError e))"

text \<open>What the reader has buffered; none, or an error, is a panic. Bytes that cannot be discarded are a panic too.\<close>

definition MustPeekBuffered :: "'r Reader \<Rightarrow> 'r \<Rightarrow> (string \<times> 'r) option" where
  "MustPeekBuffered R r =
     (case Peek R (Len R r) r of
        Some (b, None, r') \<Rightarrow> if b = [] then None else Some (b, r')
      | _ \<Rightarrow> None)"

definition MustDiscard :: "'r Reader \<Rightarrow> 'r \<Rightarrow> nat \<Rightarrow> 'r option" where
  "MustDiscard R r n = (case Skip R n r of Some (None, r') \<Rightarrow> Some r' | _ \<Rightarrow> None)"

section \<open>Requests\<close>

definition ValidHeaderFieldValueTable :: "char \<Rightarrow> bool" where
  "ValidHeaderFieldValueTable c \<longleftrightarrow> (let i = of_char c :: nat in i = 9 \<or> 32 \<le> i \<and> i \<noteq> 127)"

definition validHeaderFieldValue :: "string \<Rightarrow> bool" where
  "validHeaderFieldValue v \<longleftrightarrow> list_all ValidHeaderFieldValueTable v"

definition maxCheckMethodLen :: nat where
  "maxCheckMethodLen = 10"

text \<open>The bytes that are checked while the first line is not complete: those before a blank, and no more than eleven.\<close>

definition method_prefix_ok :: "string \<Rightarrow> bool" where
  "method_prefix_ok buf \<longleftrightarrow> list_all ValidHeaderFieldNameTable (takeWhile (\<lambda>c. c \<noteq> CHR '' '') (take (maxCheckMethodLen + 1) buf))"

definition rq_parseFirstLine :: "string \<Rightarrow> RequestHeader \<Rightarrow> (http_error + nat) \<times> RequestHeader" where
  "rq_parseFirstLine buf h =
     (case NextLine buf of
        None \<Rightarrow> (Inl (if method_prefix_ok buf then ErrNeedMore else ErrMalformedRequest), h)
      | Some (b, leftb) \<Rightarrow>
          (case IndexByte CHR '' '' b of
             None \<Rightarrow> (Inl ErrMalformedRequest, h)
           | Some n \<Rightarrow>
               if n = 0 then (Inl ErrMalformedRequest, h)
               else
                 let h1 = h\<lparr> rq_method := take n b \<rparr>; b1 = drop (n + 1) b in
                 (case IndexByte CHR '' '' b1 of
                    None \<Rightarrow> (Inl ErrMalformedRequest, h1)
                  | Some n1 \<Rightarrow>
                      if n1 = 0 then (Inl ErrMalformedRequest, h1)
                      else
                        let h2 = h1\<lparr> rq_requestURI := take n1 b1 \<rparr>; b2 = drop (n1 + 1) b1 in
                        if b2 = ''HTTP/1.1'' then (Inr (length buf - length leftb), h2\<lparr> rq_protocol := ''HTTP/1.1'' \<rparr>)
                        else if b2 = ''HTTP/1.0'' then (Inr (length buf - length leftb), h2\<lparr> rq_protocol := ''HTTP/1.0'' \<rparr>)
                        else if take 5 b2 \<noteq> ''HTTP/'' then (Inl ErrMalformedRequest, h2)
                        else (Inr (length buf - length leftb), h2\<lparr> rq_protocol := ''HTTP/1.0'' \<rparr>))))"

definition rq_AddArgBytes :: "string \<Rightarrow> string \<Rightarrow> RequestHeader \<Rightarrow> RequestHeader" where
  "rq_AddArgBytes key v h = h\<lparr> rq_h := appendArg key v False (rq_h h) \<rparr>"

text \<open>One field of a request: an error that ends the parser at once, or the header and the error so far.\<close>

definition rq_field :: "string \<Rightarrow> string \<Rightarrow> http_error option \<times> RequestHeader \<Rightarrow> http_error + (http_error option \<times> RequestHeader)" where
  "rq_field key v st =
     (case st of (err, h) \<Rightarrow>
      case key of
        [] \<Rightarrow> Inr (err, rq_AddArgBytes key v h)
      | k # _ \<Rightarrow>
          let c = fold20 k; is = CaseInsensitiveCompare key in
          if CHR '' '' \<in> set key \<or> ht \<in> set key then Inl ErrInvalidKey
          else if \<not> validHeaderFieldValue v then Inl ErrInvalidValue
          else if c = of_char CHR ''h'' \<and> is ''Host'' then Inr (err, h\<lparr> rq_host := v \<rparr>)
          else if c = of_char CHR ''u'' \<and> is ''User-Agent'' then Inr (err, h\<lparr> rq_userAgent := v \<rparr>)
          else if c = of_char CHR ''c'' \<and> is ''Content-Type'' then Inr (err, h\<lparr> rq_contentType := v \<rparr>)
          else if c = of_char CHR ''c'' \<and> is ''Content-Length'' then
            Inr (if rq_contentLength h = -1 then (err, h)
                 else case ParseContentLength v of
                   None \<Rightarrow> (if err = None then Some ErrContentLength else err, h\<lparr> rq_contentLength := -2 \<rparr>)
                 | Some n \<Rightarrow> (err, h\<lparr> rq_contentLength := n, rq_contentLengthBytes := v \<rparr>))
          else if c = of_char CHR ''c'' \<and> is ''Connection'' then
            Inr (err, if v = ''close'' then h\<lparr> rq_connectionClose := True \<rparr> else rq_AddArgBytes key v (h\<lparr> rq_connectionClose := False \<rparr>))
          else if c = of_char CHR ''t'' \<and> is ''Transfer-Encoding'' then
            Inr (err, if v = ''identity'' then h
                      else h\<lparr> rq_contentLength := -1, rq_h := setArg ''Transfer-Encoding'' ''chunked'' False (rq_h h) \<rparr>)
          else if c = of_char CHR ''t'' \<and> is ''Trailer'' then Inr (err, h)
          else Inr (err, rq_AddArgBytes key v h))"

function rq_fields :: "HeaderScanner \<Rightarrow> http_error option \<times> RequestHeader \<Rightarrow> (http_error + http_error option) \<times> RequestHeader \<times> HeaderScanner" where
  "rq_fields s st =
     (case sc_Next s of
        (False, s') \<Rightarrow> (Inr (fst st), snd st, s')
      | (True, s') \<Rightarrow>
          (case rq_field (sc_Key s') (sc_Value s') st of
             Inl e \<Rightarrow> (Inl e, snd st, s')
           | Inr st' \<Rightarrow> rq_fields s' st'))"
  by pat_completeness auto
termination
  by (relation "measure (\<lambda>(s, st). length (sc_B s))") (auto dest: sym [THEN sc_Next_shorter])

declare rq_fields.simps [simp del]

definition rq_finish :: "RequestHeader \<Rightarrow> RequestHeader" where
  "rq_finish h =
     (let h1 = (if rq_contentLength h < 0 then h\<lparr> rq_contentLengthBytes := [] \<rparr> else h)
      in if rq_protocol h1 \<noteq> ''HTTP/1.1'' \<and> \<not> rq_connectionClose h1
         then h1\<lparr> rq_connectionClose := \<not> HasHeaderValue (opt_string (peekArgStr (av_args (rq_h h1)) ''Connection'')) ''keep-alive'' \<rparr>
         else h1)"

definition rq_parseHeaders :: "string \<Rightarrow> RequestHeader \<Rightarrow> (http_error + nat) \<times> RequestHeader \<times> string" where
  "rq_parseHeaders buf h0 =
     (let h = h0\<lparr> rq_contentLength := -2 \<rparr>;
          (res, h1, s) = rq_fields (new_scanner buf (rq_disableNormalizing h)) (None, h)
      in case res of
           Inl e \<Rightarrow> (Inl e, h1, sc_array s)
         | Inr err \<Rightarrow>
             (case (if err = None then sc_Err s else err) of
                Some e \<Rightarrow> (Inl e, h1\<lparr> rq_connectionClose := True \<rparr>, sc_array s)
              | None \<Rightarrow> (Inr (nat (sc_HLen s)), rq_finish h1, sc_array s)))"

definition rq_parse :: "string \<Rightarrow> RequestHeader \<Rightarrow> (http_error + nat) \<times> RequestHeader \<times> string" where
  "rq_parse buf h =
     (case rq_parseFirstLine buf h of
        (Inl e, h1) \<Rightarrow> (Inl e, h1, buf)
      | (Inr m, h1) \<Rightarrow>
          (case ReadRawHeaders [] (drop m buf) of
             (raw, Inl e) \<Rightarrow> (Inl e, h1\<lparr> rq_rawHeaders := raw \<rparr>, buf)
           | (raw, Inr _) \<Rightarrow>
               let (res, h2, arr) = rq_parseHeaders (drop m buf) (h1\<lparr> rq_rawHeaders := raw \<rparr>)
               in (case res of Inl e \<Rightarrow> Inl e | Inr n \<Rightarrow> Inr (m + n), h2, take m buf @ arr)))"

definition tryReadWithLimit :: "'r Reader \<Rightarrow> nat \<Rightarrow> nat \<Rightarrow> RequestHeader \<Rightarrow> 'r \<Rightarrow> (http_error option \<times> RequestHeader \<times> 'r) option" where
  "tryReadWithLimit R n maxHeaderBytes h0 r0 =
     (let h = rq_ResetSkipNormalize h0 in
      case Peek R n r0 of
        None \<Rightarrow> None
      | Some (b0, err, r1) \<Rightarrow>
          if b0 = [] then
            Some (if err \<noteq> Some EOF then map_option NetError err else if n = 1 then Some ErrNothingRead else Some ErrEOFReadHeader, h, r1)
          else
            (case MustPeekBuffered R r1 of
               None \<Rightarrow> None
             | Some (b1, r2) \<Rightarrow>
                 let b = (if maxHeaderBytes > 0 \<and> length b1 > maxHeaderBytes then take maxHeaderBytes b1 else b1) in
                 (case rq_parse b h of
                    (Inl e, h1, arr) \<Rightarrow>
                      Some (Some (if maxHeaderBytes > 0 \<and> length b \<ge> maxHeaderBytes \<and> e = ErrNeedMore then ErrHeaderTooLarge
                                  else HeaderError err e b), h1, poke R arr r2)
                  | (Inr headersLen, h1, arr) \<Rightarrow> map_option (\<lambda>r3. (None, h1, r3)) (MustDiscard R (poke R arr r2) headersLen))))"

partial_function (option) read_header_loop ::
    "'r Reader \<Rightarrow> nat \<Rightarrow> nat \<Rightarrow> RequestHeader \<Rightarrow> 'r \<Rightarrow> (http_error option \<times> RequestHeader \<times> 'r) option" where
  "read_header_loop R maxHeaderBytes n h r =
     Option.bind (tryReadWithLimit R n maxHeaderBytes h r) (\<lambda>(err, h1, r1).
       if err = None then Some (None, h1, r1)
       else if err \<noteq> Some ErrNeedMore then Some (err, rq_ResetSkipNormalize h1, r1)
       else read_header_loop R maxHeaderBytes (if n = Len R r1 then n + 1 else Len R r1) h1 r1)"

definition ReadHeaderWithLimit :: "'r Reader \<Rightarrow> nat \<Rightarrow> RequestHeader \<Rightarrow> 'r \<Rightarrow> (http_error option \<times> RequestHeader \<times> 'r) option" where
  "ReadHeaderWithLimit R maxHeaderBytes h r = read_header_loop R maxHeaderBytes 1 h r"

section \<open>Responses\<close>

definition rs_ResetSkipNormalize :: "ResponseHeader \<Rightarrow> ResponseHeader" where
  "rs_ResetSkipNormalize h = h\<lparr> rs_protocol := [], rs_connectionClose := False, rs_statusCode := 0, rs_contentLength := 0, rs_contentLengthBytes := [],
     rs_contentEncoding := [], rs_contentType := [], rs_server := [], rs_h := args_Reset (rs_h h), rs_cookies := args_Reset (rs_cookies h),
     rs_trailer := tr_ResetSkipNormalize (rs_trailer h) \<rparr>"

definition ConnectionUpgrade :: "ResponseHeader \<Rightarrow> bool" where
  "ConnectionUpgrade h = HasHeaderValue (rs_Peek ''Connection'' h) ''keep-alive''"

text \<open>The first line that is not empty.\<close>

function first_line :: "string \<Rightarrow> (string \<times> string) option" where
  "first_line buf = (case NextLine buf of None \<Rightarrow> None | Some (b, rest) \<Rightarrow> if b = [] then first_line rest else Some (b, rest))"
  by pat_completeness auto
termination
  by (relation "measure length") (auto simp: NextLine_def Let_def dest!: IndexByte_less)

declare first_line.simps [simp del]

definition rs_parseFirstLine :: "string \<Rightarrow> ResponseHeader \<Rightarrow> (http_error + nat) \<times> ResponseHeader" where
  "rs_parseFirstLine buf h =
     (case first_line buf of
        None \<Rightarrow> (Inl ErrNeedMore, h)
      | Some (b, rest) \<Rightarrow>
          (case IndexByte CHR '' '' b of
             None \<Rightarrow> (Inl ErrMalformedResponse, h)
           | Some n \<Rightarrow>
               let h1 = h\<lparr> rs_protocol := (if take n b = ''HTTP/1.1'' then ''HTTP/1.1'' else ''HTTP/1.0'') \<rparr>;
                   b1 = drop (n + 1) b;
                   (code, m, err) = ParseUintBuf b1;
                   h2 = h1\<lparr> rs_statusCode := code \<rparr>
               in if err \<noteq> None then (Inl ErrMalformedResponse, h2)
                  else if length b1 > m \<and> b1 ! m \<noteq> CHR '' '' then (Inl ErrMalformedResponse, h2)
                  else (Inr (length buf - length rest), h2)))"

definition rs_AddArgBytes :: "string \<Rightarrow> string \<Rightarrow> ResponseHeader \<Rightarrow> ResponseHeader" where
  "rs_AddArgBytes key v h = h\<lparr> rs_h := appendArg key v False (rs_h h) \<rparr>"

text \<open>One field of a response, with the error of the last field that can fail. An empty name of a trailer is a panic.\<close>

definition rs_field :: "string \<Rightarrow> string \<Rightarrow> http_error option \<times> ResponseHeader \<Rightarrow> (http_error option \<times> ResponseHeader) option" where
  "rs_field key v st =
     (case st of (err, h) \<Rightarrow>
      case key of
        [] \<Rightarrow> Some (err, h)
      | k # _ \<Rightarrow>
          let c = fold20 k; is = CaseInsensitiveCompare key in
          if c = of_char CHR ''c'' \<and> is ''Content-Type'' then Some (err, h\<lparr> rs_contentType := v \<rparr>)
          else if c = of_char CHR ''c'' \<and> is ''Content-Encoding'' then Some (err, h\<lparr> rs_contentEncoding := v \<rparr>)
          else if c = of_char CHR ''c'' \<and> is ''Content-Length'' then
            Some (if rs_contentLength h = -1 then (err, h)
                  else case ParseContentLength v of
                    None \<Rightarrow> (Some ErrContentLength, h\<lparr> rs_contentLength := -2 \<rparr>)
                  | Some n \<Rightarrow> (None, h\<lparr> rs_contentLength := n, rs_contentLengthBytes := v \<rparr>))
          else if c = of_char CHR ''c'' \<and> is ''Connection'' then
            Some (err, if v = ''close'' then h\<lparr> rs_connectionClose := True \<rparr> else rs_AddArgBytes key v (h\<lparr> rs_connectionClose := False \<rparr>))
          else if c = of_char CHR ''s'' \<and> is ''Server'' then Some (err, h\<lparr> rs_server := v \<rparr>)
          else if c = of_char CHR ''s'' \<and> is ''Set-Cookie'' then Some (err, rs_ParseSetCookie v h)
          else if c = of_char CHR ''t'' \<and> is ''Transfer-Encoding'' then
            Some (err, if v = ''identity'' then h
                       else h\<lparr> rs_contentLength := -1, rs_h := setArg ''Transfer-Encoding'' ''chunked'' False (rs_h h) \<rparr>)
          else if c = of_char CHR ''t'' \<and> is ''Trailer'' then
            map_option (\<lambda>(bad, t). (if bad then Some ErrBadTrailer else None, h\<lparr> rs_trailer := t \<rparr>)) (SetTrailers v (rs_trailer h))
          else Some (err, rs_AddArgBytes key v h))"

function rs_fields :: "HeaderScanner \<Rightarrow> http_error option \<times> ResponseHeader \<Rightarrow> (http_error option \<times> ResponseHeader \<times> HeaderScanner) option" where
  "rs_fields s st =
     (case sc_Next s of
        (False, s') \<Rightarrow> Some (fst st, snd st, s')
      | (True, s') \<Rightarrow> (case rs_field (sc_Key s') (sc_Value s') st of None \<Rightarrow> None | Some st' \<Rightarrow> rs_fields s' st'))"
  by pat_completeness auto
termination
  by (relation "measure (\<lambda>(s, st). length (sc_B s))") (auto dest: sym [THEN sc_Next_shorter])

declare rs_fields.simps [simp del]

definition rs_finish :: "ResponseHeader \<Rightarrow> ResponseHeader" where
  "rs_finish h =
     (let h1 = (if rs_contentLength h < 0 then h\<lparr> rs_contentLengthBytes := [] \<rparr> else h);
          h2 = (if rs_contentLength h1 = -2 \<and> \<not> ConnectionUpgrade h1 \<and> \<not> MustSkipContentLength h1
                then h1\<lparr> rs_h := setArg ''Transfer-Encoding'' ''identity'' False (rs_h h1), rs_connectionClose := True \<rparr> else h1)
      in if rs_protocol h2 \<noteq> ''HTTP/1.1'' \<and> \<not> rs_connectionClose h2
         then h2\<lparr> rs_connectionClose := \<not> HasHeaderValue (opt_string (peekArgStr (av_args (rs_h h2)) ''Connection'')) ''keep-alive'' \<rparr>
         else h2)"

definition rs_parseHeaders :: "string \<Rightarrow> ResponseHeader \<Rightarrow> ((http_error + nat) \<times> ResponseHeader \<times> string) option" where
  "rs_parseHeaders buf h0 =
     map_option (\<lambda>(err, h1, s).
         case sc_Err s of
           Some e \<Rightarrow> (Inl e, h1\<lparr> rs_connectionClose := True \<rparr>, sc_array s)
         | None \<Rightarrow> (case err of None \<Rightarrow> Inr (length buf - length (sc_B s)) | Some e \<Rightarrow> Inl e, rs_finish h1, sc_array s))
       (rs_fields (new_scanner buf (rs_disableNormalizing h0)) (None, h0\<lparr> rs_contentLength := -2 \<rparr>))"

definition rs_parse :: "string \<Rightarrow> ResponseHeader \<Rightarrow> ((http_error + nat) \<times> ResponseHeader \<times> string) option" where
  "rs_parse buf h =
     (case rs_parseFirstLine buf h of
        (Inl e, h1) \<Rightarrow> Some (Inl e, h1, buf)
      | (Inr m, h1) \<Rightarrow>
          map_option (\<lambda>(res, h2, arr). (case res of Inl e \<Rightarrow> Inl e | Inr n \<Rightarrow> Inr (m + n), h2, take m buf @ arr))
            (rs_parseHeaders (drop m buf) h1))"

text \<open>Whether an error of the reader says \<open>timeout\<close> is read off its text.\<close>

fun is_timeout :: "io_error \<Rightarrow> bool" where
  "is_timeout (SockError t) = sublist ''timeout'' t"
| "is_timeout _ = False"

definition rs_tryRead :: "'r Reader \<Rightarrow> nat \<Rightarrow> ResponseHeader \<Rightarrow> 'r \<Rightarrow> (http_error option \<times> ResponseHeader \<times> 'r) option" where
  "rs_tryRead R n h0 r0 =
     (let h = rs_ResetSkipNormalize h0 in
      case Peek R n r0 of
        None \<Rightarrow> None
      | Some (b0, err, r1) \<Rightarrow>
          if b0 = [] then
            Some (Some (case err of
                          Some e \<Rightarrow> if is_timeout e then ErrTimeout else if n = 1 \<or> e = EOF then NetError EOF else ErrReadHeader (NetError e)
                        | None \<Rightarrow> if n = 1 then NetError EOF else ErrReadHeader ErrNothingRead), h, r1)
          else
            (case MustPeekBuffered R r1 of
               None \<Rightarrow> None
             | Some (b, r2) \<Rightarrow>
                 (case rs_parse b h of
                    None \<Rightarrow> None
                  | Some (Inl e, h1, arr) \<Rightarrow> Some (Some (HeaderError err e b), h1, poke R arr r2)
                  | Some (Inr headersLen, h1, arr) \<Rightarrow> map_option (\<lambda>r3. (None, h1, r3)) (MustDiscard R (poke R arr r2) headersLen))))"

partial_function (option) rs_ReadHeader :: "'r Reader \<Rightarrow> nat \<Rightarrow> ResponseHeader \<Rightarrow> 'r \<Rightarrow> (http_error option \<times> ResponseHeader \<times> 'r) option" where
  "rs_ReadHeader R n h r =
     Option.bind (rs_tryRead R n h r) (\<lambda>(err, h1, r1).
       if err = None then Some (None, h1, r1)
       else if err \<noteq> Some ErrNeedMore then Some (err, rs_ResetSkipNormalize h1, r1)
       else rs_ReadHeader R (if n = Len R r1 then n + 1 else Len R r1) h1 r1)"

section \<open>Trailers\<close>

text \<open>One field of a trailer; an empty name is skipped, and the error is that of the last field.\<close>

definition tr_field :: "string \<Rightarrow> string \<Rightarrow> http_error option \<times> Trailer \<Rightarrow> http_error option \<times> Trailer" where
  "tr_field key v st =
     (case st of (err, t) \<Rightarrow>
      if key = [] then (err, t)
      else if CHR '' '' \<in> set key \<or> ht \<in> set key then (Some ErrInvalidKey, t)
      else case tr_UpdateArgBytes key v t of
        None \<Rightarrow> (err, t)
      | Some (bad, t') \<Rightarrow> (if bad then Some ErrBadTrailer else None, t'))"

function tr_fields :: "HeaderScanner \<Rightarrow> http_error option \<times> Trailer \<Rightarrow> http_error option \<times> Trailer \<times> HeaderScanner" where
  "tr_fields s st =
     (case sc_Next s of
        (False, s') \<Rightarrow> (fst st, snd st, s')
      | (True, s') \<Rightarrow> tr_fields s' (tr_field (sc_Key s') (sc_Value s') st))"
  by pat_completeness auto
termination
  by (relation "measure (\<lambda>(s, st). length (sc_B s))") (auto dest: sym [THEN sc_Next_shorter])

declare tr_fields.simps [simp del]

definition parseTrailer :: "string \<Rightarrow> Trailer \<Rightarrow> ((http_error + nat) \<times> Trailer \<times> string) option" where
  "parseTrailer buf t =
     (case buf of
        [] \<Rightarrow> None
      | c # _ \<Rightarrow>
          let k = (if c = CHR ''0'' then 3 else 0) in
          if length buf < k then Some (Inl (NetError EOF), t, buf)
          else
            let (err, t', s) = tr_fields (new_scanner (drop k buf) (tr_disableNormalizing t)) (None, t)
            in Some (case (if sc_Err s \<noteq> None then sc_Err s else err) of Some e \<Rightarrow> Inl e | None \<Rightarrow> Inr (nat (sc_HLen s)), t', take k buf @ sc_array s))"

definition tryReadTrailer :: "'r Reader \<Rightarrow> nat \<Rightarrow> Trailer \<Rightarrow> 'r \<Rightarrow> (http_error option \<times> Trailer \<times> 'r) option" where
  "tryReadTrailer R n t r0 =
     (case Peek R n r0 of
        None \<Rightarrow> None
      | Some (b0, err, r1) \<Rightarrow>
          if b0 = [] then
            Some (Some (case err of
                          Some e \<Rightarrow> if is_timeout e then ErrTimeout else if n = 1 \<or> e = EOF then NetError EOF else ErrReadHeader (NetError e)
                        | None \<Rightarrow> if n = 1 then NetError EOF else ErrReadHeader ErrNothingRead), t, r1)
          else
            (case MustPeekBuffered R r1 of
               None \<Rightarrow> None
             | Some (b, r2) \<Rightarrow>
                 (case parseTrailer b t of
                    None \<Rightarrow> None
                  | Some (Inl e, t1, arr) \<Rightarrow> Some (Some (if err = Some EOF then NetError EOF else HeaderError err e b), t1, poke R arr r2)
                  | Some (Inr headersLen, t1, arr) \<Rightarrow> map_option (\<lambda>r3. (None, t1, r3)) (MustDiscard R (poke R arr r2) headersLen))))"

partial_function (option) ReadTrailer :: "'r Reader \<Rightarrow> nat \<Rightarrow> Trailer \<Rightarrow> 'r \<Rightarrow> (http_error option \<times> Trailer \<times> 'r) option" where
  "ReadTrailer R n t r =
     Option.bind (tryReadTrailer R n t r) (\<lambda>(err, t1, r1).
       if err = None then Some (None, t1, r1)
       else if err \<noteq> Some ErrNeedMore then Some (err, tr_ResetSkipNormalize t1, r1)
       else ReadTrailer R (if n = Len R r1 then n + 1 else Len R r1) t1 r1)"

text \<open>The length of the lines up to the empty one.\<close>

fun index_crlf :: "string \<Rightarrow> nat option" where
  "index_crlf (a # b # s) = (if a = cr \<and> b = lf then Some 0 else map_option Suc (index_crlf (b # s)))"
| "index_crlf _ = None"

lemma index_crlf_less: "index_crlf s = Some i \<Longrightarrow> i < length s"
  by (induction s arbitrary: i rule: index_crlf.induct) (auto split: if_splits)

function skipTrailer :: "string \<Rightarrow> nat \<Rightarrow> nat option" where
  "skipTrailer buf skip =
     (case index_crlf buf of
        None \<Rightarrow> None
      | Some i \<Rightarrow> if i = 0 then Some (skip + i + 2) else skipTrailer (drop (i + 2) buf) (skip + i + 2))"
  by pat_completeness auto
termination
  by (relation "measure (\<lambda>(buf, skip). length buf)") (auto dest!: index_crlf_less)

declare skipTrailer.simps [simp del]

section \<open>Well-formed heads\<close>

text \<open>
  The text of a head: the first line, a line for each field, and the empty line. A name is a token; a value has no line ends, and no blanks at its
  ends.
\<close>

definition field_line :: "string \<times> string \<Rightarrow> string" where
  "field_line f = fst f @ '': '' @ snd f @ crlf"

definition name_ok :: "string \<Rightarrow> bool" where
  "name_ok k \<longleftrightarrow> k \<noteq> [] \<and> list_all ValidHeaderFieldNameTable k"

definition value_ok :: "string \<Rightarrow> bool" where
  "value_ok v \<longleftrightarrow> list_all ValidHeaderFieldValueTable v \<and> (v \<noteq> [] \<longrightarrow> hd v \<noteq> CHR '' '' \<and> last v \<noteq> CHR '' '')"

definition request_line :: "string \<Rightarrow> string \<Rightarrow> string" where
  "request_line m u = m @ '' '' @ u @ '' '' @ ''HTTP/1.1'' @ crlf"

definition request_head :: "string \<Rightarrow> string \<Rightarrow> (string \<times> string) list \<Rightarrow> string" where
  "request_head m u fs = request_line m u @ concat (map field_line fs) @ crlf"

definition head_ok :: "string \<Rightarrow> string \<Rightarrow> (string \<times> string) list \<Rightarrow> bool" where
  "head_ok m u fs \<longleftrightarrow> name_ok m \<and> u \<noteq> [] \<and> CHR '' '' \<notin> set u \<and> lf \<notin> set u \<and> list_all (\<lambda>(k, v). name_ok k \<and> value_ok v) fs"

lemma IndexByte_at: "c \<notin> set xs \<Longrightarrow> IndexByte c (xs @ c # ys) = Some (length xs)"
  by (simp add: IndexByte_def takeWhile_sep)

lemma IndexByte_none [simp]: "IndexByte c s = None \<longleftrightarrow> c \<notin> set s"
  by (simp add: IndexByte_def)

lemma name_chars: "name_ok k \<Longrightarrow> c \<in> set k \<Longrightarrow> c \<noteq> lf \<and> c \<noteq> cr \<and> c \<noteq> CHR '':'' \<and> c \<noteq> CHR '' '' \<and> c \<noteq> ht"
  by (auto simp: name_ok_def list_all_iff ValidHeaderFieldNameTable_def Let_def)

lemma value_chars: "value_ok v \<Longrightarrow> c \<in> set v \<Longrightarrow> c \<noteq> lf \<and> c \<noteq> cr"
  by (auto simp: value_ok_def list_all_iff ValidHeaderFieldValueTable_def Let_def)

lemma NormalizeHeaderKey_length [simp]: "length (NormalizeHeaderKey k d) = length k"
proof -
  have "length (normalize_rest s) = length s" for s
    by (induction s rule: normalize_rest.induct) (auto split: list.splits)
  then show ?thesis by (simp add: NormalizeHeaderKey_def split: list.splits)
qed

definition scanner_ready :: "HeaderScanner \<Rightarrow> bool" where
  "scanner_ready s \<longleftrightarrow> sc_initialized s \<and> sc_nextColon s = -1 \<and> sc_nextNewLine s < 0 \<and> sc_Err s = None"

definition not_folded :: "string \<Rightarrow> bool" where
  "not_folded rest \<longleftrightarrow> (case rest of [] \<Rightarrow> False | c # _ \<Rightarrow> c \<noteq> CHR '' '' \<and> c \<noteq> ht)"

lemma trim_value_line: "value_ok v \<Longrightarrow> trim_value (v @ [cr]) = v"
proof -
  assume "value_ok v"
  then have "dropWhile (\<lambda>c. c = CHR '' '') (rev v) = rev v" by (cases v rule: rev_cases) (auto simp: value_ok_def)
  then show ?thesis by (simp add: trim_value_def)
qed

text \<open>The scanner reads one line, and the next one does not continue it.\<close>

lemma sc_Next_line:
  assumes r: "scanner_ready s" and k: "name_ok k" and v: "value_ok v" and b: "sc_B s = field_line (k, v) @ rest" and nf: "not_folded rest"
  shows "\<exists>s'. sc_Next s = (True, s') \<and> scanner_ready s' \<and> sc_Key s' = NormalizeHeaderKey k (sc_disableNormalizing s) \<and> sc_Value s' = v \<and>
    sc_B s' = rest \<and> sc_HLen s' = sc_HLen s + int (length (field_line (k, v))) \<and> sc_beyond s' = sc_beyond s \<and>
    length (sc_behind s') = length (sc_behind s) + length (field_line (k, v)) \<and> sc_disableNormalizing s' = sc_disableNormalizing s"
proof -
  have kc: "lf \<notin> set k" "CHR '':'' \<notin> set k" using name_chars [OF k] by auto
  have vc: "lf \<notin> set v" "cr \<notin> set v" using value_chars [OF v] by auto
  obtain k0 ks where k0: "k = k0 # ks" "k0 \<noteq> cr" "k0 \<noteq> lf" using k name_chars [OF k] by (cases k) (auto simp: name_ok_def)
  have b': "sc_B s = k @ CHR '':'' # CHR '' '' # v @ [cr, lf] @ rest" using b by (simp add: field_line_def crlf_def)
  have colon: "find_colon s = (Inr (length k), s)"
  proof -
    have "IndexByte lf (sc_B s) = Some (length (k @ CHR '':'' # CHR '' '' # v @ [cr]))"
      using IndexByte_at [of lf "k @ CHR '':'' # CHR '' '' # v @ [cr]" rest] kc vc by (simp add: b')
    moreover have "IndexByte CHR '':'' (sc_B s) = Some (length k)" using IndexByte_at [OF kc(2)] by (simp add: b')
    ultimately show ?thesis using r by (simp add: find_colon_def scanner_ready_def)
  qed
  have blanks: "takeWhile (\<lambda>c. c = CHR '' '') (CHR '' '' # v @ [cr, lf] @ rest) = [CHR '' '']"
    using v by (cases v) (auto simp: value_ok_def)
  define s2 where "s2 = take_key (length k) s"
  have s2: "sc_B s2 = v @ [cr, lf] @ rest" "sc_Key s2 = NormalizeHeaderKey k (sc_disableNormalizing s)"
    "sc_HLen s2 = sc_HLen s + int (length k + 2)" "sc_nextNewLine s2 < 0" "sc_beyond s2 = sc_beyond s" "sc_nextColon s2 = -1" "sc_Err s2 = None"
    "sc_initialized s2" "length (sc_behind s2) = length (sc_behind s) + length k + 2" "sc_disableNormalizing s2 = sc_disableNormalizing s"
    using r blanks by (simp_all add: s2_def take_key_def Let_def b' scanner_ready_def NormalizeHeaderKey_length)
  have i: "IndexByte lf (sc_B s2) = Some (length v + 1)" using IndexByte_at [of lf "v @ [cr]" rest] vc by (simp add: s2)
  have f: "fold_lines (sc_B s2) (length v + 1) False = (length v + 1, False, None)"
    using nf by (subst fold_lines.simps) (auto simp: s2 not_folded_def nth_append split: list.splits)
  have t: "trim_value (take (length v + 1) (sc_B s2)) = v" using trim_value_line [OF v] by (simp add: s2)
  have more: "take 2 (sc_B s) \<noteq> crlf" "take 1 (sc_B s) \<noteq> [lf]" by (simp_all add: b' k0 crlf_def)
  have "sc_Next s = take_value (length v + 1) s2"
    using r colon i s2(4) more by (simp add: sc_Next_def Let_def scanner_ready_def s2_def [symmetric])
  also have "\<dots> = (True, s2\<lparr> sc_Value := v, sc_behind := sc_behind s2 @ take (length v + 2) (sc_B s2), sc_B := drop (length v + 2) (sc_B s2),
      sc_HLen := sc_HLen s2 + int (length v + 2) \<rparr>)"
    using f t by (simp add: take_value_def Let_def) (simp add: s2(1))
  finally show ?thesis using s2 by (simp add: scanner_ready_def field_line_def crlf_def)
qed

end
