(* ===== verification/Http1_Request.thy ===== *)
theory Http1_Request
  imports Http1_Header
begin

text \<open>
  What the reader of request heads makes of a well-formed head: the parser finds its fields, a part of the head makes it ask for more, and so the loop over the
  connection finds the same however the network splits the bytes. With the printer of \<open>Http_Header\<close> this is a round trip.
\<close>

section \<open>The fields\<close>

fun rq_apply :: "bool \<Rightarrow> (string \<times> string) list \<Rightarrow> http_error option \<times> RequestHeader \<Rightarrow> http_error + (http_error option \<times> RequestHeader)" where
  "rq_apply d [] st = Inr st"
| "rq_apply d ((k, v) # fs) st =
     (case rq_field (NormalizeHeaderKey k d) v st of Inl e \<Rightarrow> Inl e | Inr st' \<Rightarrow> rq_apply d fs st')"

abbreviation fields_ok :: "(string \<times> string) list \<Rightarrow> bool" where
  "fields_ok fs \<equiv> list_all (\<lambda>(k, v). name_ok k \<and> value_ok v) fs"

abbreviation field_lines :: "(string \<times> string) list \<Rightarrow> string" where
  "field_lines fs \<equiv> concat (map field_line fs)"

lemma not_folded_lines: "fields_ok fs \<Longrightarrow> not_folded (field_lines fs @ crlf @ rest)"
proof (cases fs)
  case (Cons f fs')
  assume "fields_ok fs"
  then obtain c k where "fst f = c # k" "c \<noteq> CHR '' ''" "c \<noteq> ht" using Cons name_chars [of "fst f"] by (cases "fst f") (auto simp: name_ok_def)
  then show ?thesis using Cons by (simp add: not_folded_def field_line_def)
qed (simp add: not_folded_def crlf_def)

lemma rq_fields_lines:
  "\<lbrakk> scanner_ready s; fields_ok fs; sc_B s = field_lines fs @ crlf @ rest; rq_apply (sc_disableNormalizing s) fs st = Inr st' \<rbrakk> \<Longrightarrow>
   \<exists>s'. rq_fields s st = (Inr (fst st'), snd st', s') \<and> sc_Err s' = None \<and> sc_B s' = rest \<and> sc_beyond s' = sc_beyond s \<and>
     sc_HLen s' = sc_HLen s + int (length (field_lines fs) + 2) \<and> length (sc_behind s') = length (sc_behind s) + length (field_lines fs) + 2"
proof (induction fs arbitrary: s st)
  case Nil
  then have "sc_Next s = (False, s\<lparr> sc_behind := sc_behind s @ crlf, sc_B := rest, sc_HLen := sc_HLen s + 2 \<rparr>)"
    by (simp add: sc_Next_def Let_def scanner_ready_def crlf_def)
  then show ?case using Nil by (subst rq_fields.simps) (auto simp: scanner_ready_def crlf_def)
next
  case (Cons f fs)
  obtain k v where f: "f = (k, v)" by force
  have ok: "name_ok k" "value_ok v" "fields_ok fs" using Cons.prems(2) f by auto
  have b: "sc_B s = field_line (k, v) @ field_lines fs @ crlf @ rest" using Cons.prems(3) f by simp
  from sc_Next_line [OF Cons.prems(1) ok(1,2) b not_folded_lines [OF ok(3)]] obtain s1
    where s1: "sc_Next s = (True, s1)" "scanner_ready s1" "sc_Key s1 = NormalizeHeaderKey k (sc_disableNormalizing s)" "sc_Value s1 = v"
      "sc_B s1 = field_lines fs @ crlf @ rest" "sc_HLen s1 = sc_HLen s + int (length (field_line (k, v)))" "sc_beyond s1 = sc_beyond s"
      "length (sc_behind s1) = length (sc_behind s) + length (field_line (k, v))" "sc_disableNormalizing s1 = sc_disableNormalizing s" by blast
  obtain st1 where st1: "rq_field (NormalizeHeaderKey k (sc_disableNormalizing s)) v st = Inr st1" "rq_apply (sc_disableNormalizing s1) fs st1 = Inr st'"
    using Cons.prems(4) f s1(9) by (auto split: sum.splits)
  have "rq_fields s st = rq_fields s1 st1" using s1(1,3,4) st1(1) by (subst rq_fields.simps) simp
  then show ?case using Cons.IH [OF s1(2) ok(3) s1(5) st1(2)] s1(6,7,8) f by auto
qed

text \<open>The first field of a fresh scanner.\<close>

lemma rq_fields_fresh:
  assumes "fields_ok fs" "rq_apply d fs st = Inr st'"
  shows "\<exists>s'. rq_fields (new_scanner (field_lines fs @ crlf @ rest) d) st = (Inr (fst st'), snd st', s') \<and> sc_Err s' = None \<and>
    sc_HLen s' = int (length (field_lines fs) + 2) \<and> (\<exists>x. sc_array s' = x @ rest \<and> length x = length (field_lines fs) + 2)"
proof -
  let ?s = "new_scanner (field_lines fs @ crlf @ rest) d"
  let ?i = "?s\<lparr> sc_nextColon := -1, sc_nextNewLine := -1, sc_initialized := True \<rparr>"
  have "sc_Next ?s = sc_Next ?i" by (simp add: sc_Next_def new_scanner_def)
  then have eq: "rq_fields ?s st = rq_fields ?i st" by (simp add: rq_fields.simps [of ?s st] rq_fields.simps [of ?i st])
  have "scanner_ready ?i" "sc_B ?i = field_lines fs @ crlf @ rest" "sc_disableNormalizing ?i = d" "sc_beyond ?i = []" "sc_HLen ?i = 0" "sc_behind ?i = []"
    by (simp_all add: scanner_ready_def new_scanner_def)
  then show ?thesis using rq_fields_lines [of ?i fs rest st st'] assms unfolding eq by (auto simp: sc_array_def)
qed

section \<open>The raw text\<close>

lemma IndexByte_absent [simp]: "c \<notin> set s \<Longrightarrow> IndexByte c s = None"
  by simp

lemma field_line_ends:
  assumes "name_ok k" "value_ok v"
  shows "\<exists>x. field_line (k, v) = x @ [lf] \<and> lf \<notin> set x \<and> 2 \<le> length x"
  using name_chars [OF assms(1)] value_chars [OF assms(2)]
  by (intro exI [of _ "k @ '': '' @ v @ [cr]"]) (auto simp: field_line_def crlf_def)

lemma raw_loop_line:
  assumes "lf \<notin> set x" "2 \<le> length x"
  shows "raw_loop (pre @ x @ lf # t) (length pre) = raw_loop (pre @ x @ lf # t) (length pre + length x + 1)"
  using assms IndexByte_at [OF assms(1), of t] by (subst raw_loop.simps) auto

lemma raw_loop_head: "fields_ok fs \<Longrightarrow> raw_loop (pre @ field_lines fs @ crlf @ rest) (length pre) = Some (length pre + length (field_lines fs) + 2)"
proof (induction fs arbitrary: pre)
  case Nil
  have "IndexByte lf (crlf @ rest) = Some 1" using IndexByte_at [of lf "[cr]" rest] by (simp add: crlf_def)
  then show ?case by (subst raw_loop.simps) (simp add: crlf_def nth_append)
next
  case (Cons f fs)
  obtain k v where f: "f = (k, v)" by force
  obtain x where x: "field_line f = x @ [lf]" "lf \<notin> set x" "2 \<le> length x" using field_line_ends [of k v] Cons.prems f by auto
  show ?case using raw_loop_line [OF x(2,3), of pre "field_lines fs @ crlf @ rest"] Cons.IH [of "pre @ field_line f"] Cons.prems x(1)
    by (simp add: f)
qed

text \<open>A part of the lines has no empty line.\<close>

lemma raw_loop_part:
  "fields_ok fs \<Longrightarrow> strict_prefix p (field_lines fs @ crlf) \<Longrightarrow> raw_loop (pre @ p) (length pre) = None"
proof (induction fs arbitrary: pre p)
  case Nil
  then have "p = [] \<or> p = [cr]" by (auto simp: crlf_def strict_prefix_def prefix_Cons)
  then show ?case by (subst raw_loop.simps) auto
next
  case (Cons f fs)
  obtain k v where f: "f = (k, v)" by force
  obtain x where x: "field_line f = x @ [lf]" "lf \<notin> set x" "2 \<le> length x" using field_line_ends [of k v] Cons.prems f by auto
  have p: "strict_prefix p (x @ lf # field_lines fs @ crlf)" using Cons.prems(2) x(1) by simp
  show ?case
  proof (cases "prefix p x")
    case True
    then have "lf \<notin> set p" using x(2) set_mono_prefix by blast
    then show ?thesis by (subst raw_loop.simps) simp
  next
    case False
    then obtain t where t: "p = x @ t" "t \<noteq> []" using p by (auto simp: strict_prefix_def prefix_append)
    then obtain t' where t': "t = lf # t'" using p by (cases t) (auto simp: strict_prefix_def)
    have "strict_prefix t' (field_lines fs @ crlf)" using p t t' by (auto simp: strict_prefix_def)
    from Cons.IH [OF _ this, of "pre @ field_line f"] show ?thesis
      using raw_loop_line [OF x(2,3), of pre t'] Cons.prems(1) t t' x(1) by simp
  qed
qed

lemma ReadRawHeaders_loop:
  assumes "fields_ok fs" "fs \<noteq> []" "p = field_lines fs @ crlf @ rest \<or> strict_prefix p (field_lines fs @ crlf)"
  shows "ReadRawHeaders [] p = (case raw_loop p 0 of None \<Rightarrow> ([], Inl ErrNeedMore) | Some k \<Rightarrow> (take k p, Inr k))"
proof -
  obtain f fs' where fs: "fs = f # fs'" using assms(2) by (cases fs) auto
  obtain x where x: "field_line f = x @ [lf]" "lf \<notin> set x" "2 \<le> length x" using field_line_ends [of "fst f" "snd f"] assms(1) fs by (cases f) auto
  show ?thesis
  proof (cases "IndexByte lf p")
    case None
    then show ?thesis by (subst raw_loop.simps) (auto simp: ReadRawHeaders_def)
  next
    case (Some n)
    have "\<exists>t. p = x @ lf # t"
    proof (cases "prefix p x")
      case True
      then show ?thesis using Some x(2) set_mono_prefix [OF True] by (auto simp: IndexByte_def split: if_splits)
    next
      case False
      have "prefix p ((field_lines fs @ crlf) @ rest)"
        using assms(3) by (metis append.assoc prefix_order.less_imp_le prefix_order.order_refl prefix_prefix)
      with False have "prefix p (x @ lf # field_lines fs' @ crlf @ rest)" "\<not> prefix p x" using fs x(1) by simp_all
      then obtain t where "p = x @ t" "t \<noteq> []" "prefix t (lf # field_lines fs' @ crlf @ rest)" by (auto simp: prefix_append)
      then show ?thesis by (cases t) auto
    qed
    then obtain t where t: "p = x @ lf # t" by blast
    have "IndexByte lf p = Some (length x)" using IndexByte_at [OF x(2)] t by simp
    moreover have "length x \<noteq> 0" "length x \<noteq> 1" using x(3) by auto
    ultimately show ?thesis using raw_loop_line [OF x(2,3), of "[]" t] t by (auto simp: ReadRawHeaders_def split: option.splits)
  qed
qed

lemma ReadRawHeaders_head:
  assumes "fields_ok fs"
  shows "\<exists>raw k. ReadRawHeaders [] (field_lines fs @ crlf @ rest) = (raw, Inr k) \<and> (\<forall>rest'. ReadRawHeaders [] (field_lines fs @ crlf @ rest') = (raw, Inr k))"
proof (cases "fs = []")
  case True
  have "IndexByte lf (crlf @ r) = Some 1" for r using IndexByte_at [of lf "[cr]" r] by (simp add: crlf_def)
  then show ?thesis using True by (simp add: ReadRawHeaders_def) (simp add: crlf_def)
next
  case False
  have "ReadRawHeaders [] (field_lines fs @ crlf @ r) = (field_lines fs @ crlf, Inr (length (field_lines fs) + 2))" for r
    using ReadRawHeaders_loop [OF assms False, of "field_lines fs @ crlf @ r" r] raw_loop_head [OF assms, of "[]" r] by (simp add: crlf_def)
  then show ?thesis by blast
qed

lemma ReadRawHeaders_part:
  assumes "fields_ok fs" "strict_prefix p (field_lines fs @ crlf)"
  shows "ReadRawHeaders [] p = ([], Inl ErrNeedMore)"
proof (cases "fs = []")
  case True
  then have "p = [] \<or> p = [cr]" using assms(2) by (auto simp: crlf_def strict_prefix_def prefix_Cons)
  then show ?thesis by (auto simp: ReadRawHeaders_def IndexByte_def)
next
  case False
  then show ?thesis using ReadRawHeaders_loop [OF assms(1) False, of p] raw_loop_part [OF assms, of "[]"] assms(2) by simp
qed

section \<open>The first line\<close>

lemma NextLine_line: "lf \<notin> set x \<Longrightarrow> x = [] \<or> last x \<noteq> cr \<Longrightarrow> NextLine (x @ crlf @ t) = Some (x, t)"
  using IndexByte_at [of lf "x @ [cr]" t] by (auto simp: NextLine_def crlf_def Let_def nth_append)

lemma request_line_text: "request_line m u = (m @ '' '' @ u @ '' '' @ ''HTTP/1.1'') @ crlf"
  by (simp add: request_line_def)

lemma first_line_head:
  assumes "head_ok m u fs"
  shows "rq_parseFirstLine (request_line m u @ t) h = (Inr (length (request_line m u)), h\<lparr> rq_method := m, rq_requestURI := u, rq_protocol := ''HTTP/1.1'' \<rparr>)"
proof -
  let ?x = "m @ '' '' @ u @ '' '' @ ''HTTP/1.1''"
  have m: "name_ok m" "u \<noteq> []" "CHR '' '' \<notin> set u" "lf \<notin> set u" using assms by (auto simp: head_ok_def)
  have mc: "CHR '' '' \<notin> set m" "lf \<notin> set m" "m \<noteq> []" using name_chars [OF m(1)] m(1) by (auto simp: name_ok_def)
  have nl: "NextLine (request_line m u @ t) = Some (?x, t)"
    using NextLine_line [of ?x t] mc(2) m(4) by (simp add: request_line_text)
  have i1: "IndexByte CHR '' '' ?x = Some (length m)" using IndexByte_at [OF mc(1)] by simp
  have i2: "IndexByte CHR '' '' (u @ '' '' @ ''HTTP/1.1'') = Some (length u)" using IndexByte_at [OF m(3)] by simp
  show ?thesis using nl i1 i2 mc(3) m(2) by (simp add: rq_parseFirstLine_def Let_def)
qed

lemma set_takeWhile_take: "set (takeWhile P (take n s)) \<subseteq> set (takeWhile P s)"
proof (induction s arbitrary: n)
  case (Cons x s)
  then show ?case by (cases n) auto
qed simp

lemma first_line_part:
  assumes "head_ok m u fs" "strict_prefix p (request_line m u)"
  shows "rq_parseFirstLine p h = (Inl ErrNeedMore, h)"
proof -
  let ?x = "m @ '' '' @ u @ '' '' @ ''HTTP/1.1'' @ [cr]"
  have m: "name_ok m" "lf \<notin> set u" using assms(1) by (auto simp: head_ok_def)
  have p: "prefix p ?x" using assms(2) by (auto simp: request_line_def crlf_def strict_prefix_def prefix_append prefix_Cons)
  have "lf \<notin> set ?x" using name_chars [OF m(1)] m(2) by auto
  then have "lf \<notin> set p" using set_mono_prefix [OF p] by blast
  then have nl: "NextLine p = None" by (simp add: NextLine_def)
  have blank: "CHR '' '' \<notin> set m" using name_chars [OF m(1)] by auto
  have "set (takeWhile (\<lambda>c. c \<noteq> CHR '' '') p) \<subseteq> set m"
  proof (cases "prefix p m")
    case True
    then show ?thesis using set_mono_prefix [OF True] by (auto dest: set_takeWhileD)
  next
    case False
    then obtain q where "p = m @ CHR '' '' # q" using p by (auto simp: prefix_append prefix_Cons)
    then show ?thesis using blank by (auto simp: takeWhile_sep)
  qed
  then have "method_prefix_ok p" using m(1) set_takeWhile_take [of "\<lambda>c. c \<noteq> CHR '' ''" _ p] by (auto simp: method_prefix_ok_def list_all_iff name_ok_def)
  then show ?thesis using nl by (simp add: rq_parseFirstLine_def)
qed

section \<open>The whole head\<close>

definition head_start :: "string \<Rightarrow> string \<Rightarrow> (string \<times> string) list \<Rightarrow> RequestHeader \<Rightarrow> RequestHeader" where
  "head_start m u fs h = h\<lparr> rq_method := m, rq_requestURI := u, rq_protocol := ''HTTP/1.1'',
     rq_rawHeaders := fst (ReadRawHeaders [] (field_lines fs @ crlf)), rq_contentLength := -2 \<rparr>"

lemma head_start_dis [simp]: "rq_disableNormalizing (head_start m u fs h) = rq_disableNormalizing h"
  by (simp add: head_start_def)

lemma parse_head:
  assumes ok: "head_ok m u fs" and ap: "rq_apply (rq_disableNormalizing h) fs (None, head_start m u fs h) = Inr (None, h1)"
  shows "\<exists>arr. rq_parse (request_head m u fs @ rest) h = (Inr (length (request_head m u fs)), rq_finish h1, arr) \<and>
    length arr = length (request_head m u fs @ rest) \<and> drop (length (request_head m u fs)) arr = rest"
proof -
  let ?l = "request_line m u" and ?t = "field_lines fs @ crlf @ rest"
  have fs: "fields_ok fs" using ok by (auto simp: head_ok_def)
  obtain raw k where raw: "ReadRawHeaders [] ?t = (raw, Inr k)" "ReadRawHeaders [] (field_lines fs @ crlf) = (raw, Inr k)"
    using ReadRawHeaders_head [OF fs, of rest] by (metis append_Nil2)
  let ?h = "h\<lparr> rq_method := m, rq_requestURI := u, rq_protocol := ''HTTP/1.1'', rq_rawHeaders := raw \<rparr>"
  have hs: "?h\<lparr> rq_contentLength := -2 \<rparr> = head_start m u fs h" by (simp add: head_start_def raw)
  obtain s' x where s': "rq_fields (new_scanner ?t (rq_disableNormalizing h)) (None, head_start m u fs h) = (Inr None, h1, s')"
      "sc_Err s' = None" "sc_HLen s' = int (length (field_lines fs) + 2)" "sc_array s' = x @ rest" "length x = length (field_lines fs) + 2"
    using rq_fields_fresh [OF fs ap, of rest] by auto
  have "rq_parseHeaders ?t ?h = (Inr (length (field_lines fs) + 2), rq_finish h1, x @ rest)"
    using s' hs by (simp add: rq_parseHeaders_def Let_def)
  then have "rq_parse (request_head m u fs @ rest) h = (Inr (length (request_head m u fs)), rq_finish h1, ?l @ x @ rest)"
    using first_line_head [OF ok, of ?t h] raw(1) by (simp add: rq_parse_def request_head_def crlf_def)
  then show ?thesis using s'(5) by (simp add: request_head_def crlf_def)
qed

text \<open>A part of a head asks for more, and leaves nothing behind that the next round does not clear.\<close>

lemma parse_part:
  assumes ok: "head_ok m u fs" and p: "strict_prefix p (request_head m u fs)"
  shows "\<exists>h'. rq_parse p h = (Inl ErrNeedMore, h', p) \<and> rq_ResetSkipNormalize h' = rq_ResetSkipNormalize h \<and>
    rq_disableNormalizing h' = rq_disableNormalizing h"
proof (cases "strict_prefix p (request_line m u)")
  case True
  then show ?thesis using first_line_part [OF ok True] by (simp add: rq_parse_def)
next
  case False
  have fs: "fields_ok fs" using ok by (auto simp: head_ok_def)
  obtain q where q: "p = request_line m u @ q" "strict_prefix q (field_lines fs @ crlf)"
    using p False by (fastforce simp: request_head_def strict_prefix_def prefix_append crlf_def)
  show ?thesis using first_line_head [OF ok, of q h] ReadRawHeaders_part [OF fs q(2)] q(1)
    by (simp add: rq_parse_def rq_ResetSkipNormalize_def)
qed

lemma reset_twice [simp]: "rq_ResetSkipNormalize (rq_ResetSkipNormalize h) = rq_ResetSkipNormalize h"
  by (simp add: rq_ResetSkipNormalize_def args_Reset_def tr_ResetSkipNormalize_def)

lemma take_head:
  assumes "l \<le> length (hd' @ rest)" "l < length hd'"
  shows "strict_prefix (take l (hd' @ rest)) hd'"
  using assms by (auto simp: strict_prefix_def take_is_prefix dest: arg_cong [of _ _ length])

context reader_laws
begin

lemma peek_buffered:
  assumes "ok r" "1 \<le> Len R r"
  shows "\<exists>r'. MustPeekBuffered R r = Some (take (Len R r) (bytes r), r') \<and> ok r' \<and> bytes r' = bytes r \<and> final r' = final r \<and> Len R r \<le> Len R r'"
proof -
  have "Len R r \<le> length (bytes r)" by (rule Len_le [OF assms(1)])
  then show ?thesis using Peek_has [OF assms(1), of "Len R r"] assms(2) by (auto simp: MustPeekBuffered_def)
qed

lemma discard_poked:
  assumes "ok r" "l \<le> Len R r" "length arr = l" "hl \<le> l" "drop hl arr = drop hl (take l (bytes r))"
  shows "\<exists>r'. MustDiscard R (poke R arr r) hl = Some r' \<and> ok r' \<and> bytes r' = drop hl (bytes r)"
proof -
  have p: "ok (poke R arr r)" "Len R (poke R arr r) = Len R r"
    "bytes (poke R arr r) = bytes r \<or> bytes (poke R arr r) = arr @ drop l (bytes r)" using poke_cases [OF assms(1), of arr] assms(2,3) by auto
  have "l \<le> length (bytes r)" using Len_le [OF assms(1)] assms(2) by simp
  then have "drop hl (arr @ drop l (bytes r)) = drop hl (bytes r)"
    using assms(3-5) by (metis append_take_drop_id diff_is_0_eq' drop_0 drop_append length_take min.absorb2)
  then have d: "drop hl (bytes (poke R arr r)) = drop hl (bytes r)" using p(3) by auto
  have hl: "hl \<le> Len R (poke R arr r)" using p(2) assms(2,4) by simp
  show ?thesis using Skip_has [OF p(1) hl] d by (auto simp: MustDiscard_def)
qed

text \<open>One round of the loop: the head is there, or the reader is asked for more.\<close>

lemma try_head:
  assumes r: "ok r" "bytes r = request_head m u fs @ rest" and n: "1 \<le> n" "n \<le> length (bytes r)"
    and head: "head_ok m u fs" "mx = 0 \<or> length (request_head m u fs) \<le> mx"
    and ap: "rq_apply (rq_disableNormalizing h) fs (None, head_start m u fs (rq_ResetSkipNormalize h)) = Inr (None, h1)"
  shows "(\<exists>r'. tryReadWithLimit R n mx h r = Some (None, rq_finish h1, r') \<and> ok r' \<and> bytes r' = rest) \<or>
    (\<exists>h' r'. tryReadWithLimit R n mx h r = Some (Some ErrNeedMore, h', r') \<and> ok r' \<and> bytes r' = bytes r \<and> n \<le> Len R r' \<and>
       (n = Len R r' \<longrightarrow> n < length (bytes r)) \<and> rq_ResetSkipNormalize h' = rq_ResetSkipNormalize h \<and> rq_disableNormalizing h' = rq_disableNormalizing h)"
proof -
  let ?hd = "request_head m u fs" and ?h = "rq_ResetSkipNormalize h"
  obtain r1 where r1: "Peek R n r = Some (take n (bytes r), None, r1)" "ok r1" "bytes r1 = bytes r" "n \<le> Len R r1"
    using Peek_has [OF r(1) n(2)] by blast
  have ne: "take n (bytes r) \<noteq> []" using n by auto
  have "1 \<le> Len R r1" using r1(4) n(1) by simp
  from peek_buffered [OF r1(2) this] obtain r2 where r2: "MustPeekBuffered R r1 = Some (take (Len R r1) (bytes r), r2)" "ok r2" "bytes r2 = bytes r"
      "Len R r1 \<le> Len R r2" using r1(3) by auto
  have l1: "Len R r1 \<le> length (bytes r)" using Len_le [OF r1(2)] r1(3) by simp
  define l where "l = (if mx > 0 \<and> Len R r1 > mx then mx else Len R r1)"
  have b: "(if mx > 0 \<and> length (take (Len R r1) (bytes r)) > mx then take mx (take (Len R r1) (bytes r)) else take (Len R r1) (bytes r)) = take l (bytes r)"
    using l1 by (auto simp: l_def min_def)
  have l: "l \<le> Len R r1" "l \<le> length (bytes r)" using l1 by (auto simp: l_def)
  note tr = tryReadWithLimit_def [of R n mx h r, unfolded Let_def r1(1) option.case prod.case if_not_P [OF ne] r2(1) b]
  have dis: "rq_disableNormalizing ?h = rq_disableNormalizing h" by (simp add: rq_ResetSkipNormalize_def)
  show ?thesis
  proof (cases "length ?hd \<le> l")
    case True
    then have tl: "take l (bytes r) = ?hd @ take (l - length ?hd) rest" using r(2) by simp
    have hl: "length (?hd @ take (l - length ?hd) rest) = l" using True l(2) r(2) by simp
    obtain arr where arr: "rq_parse (take l (bytes r)) ?h = (Inr (length ?hd), rq_finish h1, arr)" "length arr = l"
        "drop (length ?hd) arr = take (l - length ?hd) rest"
      using parse_head [OF head(1) ap [folded dis], of "take (l - length ?hd) rest"] hl unfolding tl by auto
    obtain r3 where "MustDiscard R (poke R arr r2) (length ?hd) = Some r3" "ok r3" "bytes r3 = drop (length ?hd) (bytes r2)"
      using discard_poked [OF r2(2) _ arr(2) True] l(1) r2(3,4) arr(3) tl by auto
    then show ?thesis using arr(1) r2(3) r(2) by (simp add: tr)
  next
    case False
    then have small: "l < length ?hd" by simp
    then have lr: "l = Len R r1" "\<not> (mx > 0 \<and> mx \<le> l)" using head(2) by (auto simp: l_def split: if_splits)
    have sp: "strict_prefix (take l (bytes r)) ?hd" using take_head [of l ?hd rest] small l(2) r(2) by simp
    from parse_part [OF head(1) sp, of ?h] obtain h' where h': "rq_parse (take l (bytes r)) ?h = (Inl ErrNeedMore, h', take l (bytes r))"
      "rq_ResetSkipNormalize h' = ?h" "rq_disableNormalizing h' = rq_disableNormalizing h" using dis by auto
    have le: "length (take l (bytes r)) = l" using l(2) by simp
    let ?r = "poke R (take l (bytes r)) r2"
    have pk: "ok ?r" "Len R ?r = Len R r2" "bytes ?r = bytes r"
      using poke_cases [OF r2(2), of "take l (bytes r)"] l(1) r2(3,4) le by auto
    have "tryReadWithLimit R n mx h r = Some (Some ErrNeedMore, h', ?r)"
      using h'(1) lr(2) le by (simp add: tr HeaderError_def)
    moreover have "n \<le> Len R ?r" "n = Len R ?r \<longrightarrow> n < length (bytes r)" using pk(2) r1(4) r2(4) lr(1) small r(2) by auto
    ultimately show ?thesis using pk h' by blast
  qed
qed

lemma read_head:
  "\<lbrakk> ok r; bytes r = request_head m u fs @ rest; 1 \<le> n; n \<le> length (bytes r); head_ok m u fs; mx = 0 \<or> length (request_head m u fs) \<le> mx;
     rq_apply (rq_disableNormalizing h) fs (None, head_start m u fs (rq_ResetSkipNormalize h)) = Inr (None, h1) \<rbrakk> \<Longrightarrow>
   \<exists>r'. read_header_loop R mx n h r = Some (None, rq_finish h1, r') \<and> ok r' \<and> bytes r' = rest"
proof (induction "length (bytes r) - n" arbitrary: n h r rule: less_induct)
  case less
  from try_head [OF less.prems] consider
    r' where "tryReadWithLimit R n mx h r = Some (None, rq_finish h1, r')" "ok r'" "bytes r' = rest"
  | h' r' where "tryReadWithLimit R n mx h r = Some (Some ErrNeedMore, h', r')" "ok r'" "bytes r' = bytes r" "n \<le> Len R r'"
      "n = Len R r' \<longrightarrow> n < length (bytes r)" "rq_ResetSkipNormalize h' = rq_ResetSkipNormalize h" "rq_disableNormalizing h' = rq_disableNormalizing h"
    by blast
  then show ?case
  proof cases
    case 1
    then show ?thesis by (subst read_header_loop.simps) auto
  next
    case (2 h' r')
    let ?n = "if n = Len R r' then n + 1 else Len R r'"
    have n: "n < ?n" "?n \<le> length (bytes r')" using 2(3-5) Len_le [OF 2(2)] by auto
    have "length (bytes r') - ?n < length (bytes r) - n" using n 2(3) by simp
    from less.hyps [OF this 2(2)] have "\<exists>r''. read_header_loop R mx ?n h' r' = Some (None, rq_finish h1, r'') \<and> ok r'' \<and> bytes r'' = rest"
      using 2(3,6,7) n less.prems by auto
    then show ?thesis using 2(1) by (subst read_header_loop.simps) auto
  qed
qed

end

section \<open>Printing and reading\<close>

definition opt_field :: "string \<Rightarrow> string \<Rightarrow> (string \<times> string) list" where
  "opt_field k v = (if v = [] then [] else [(k, v)])"

definition printed_type :: "RequestHeader \<Rightarrow> string" where
  "printed_type h = (if rq_contentType h = [] \<and> \<not> rq_IgnoreBody h \<and> \<not> rq_noDefaultContentType h
     then ''application/x-www-form-urlencoded'' else rq_contentType h)"

text \<open>The fields after the special ones: cookies are printed as one more field.\<close>

definition cookie_fields :: "RequestHeader \<Rightarrow> argsKV list" where
  "cookie_fields h = (if av_args (rq_cookies h) = [] then []
     else [\<lparr> kv_key = ''Cookie'', kv_value = appendRequestCookieBytes [] (av_args (rq_cookies h)), kv_noValue = False \<rparr>])"

definition other_fields :: "RequestHeader \<Rightarrow> argsKV list" where
  "other_fields h = av_args (rq_h h) @ cookie_fields h"

definition printed_fields :: "RequestHeader \<Rightarrow> (string \<times> string) list" where
  "printed_fields h = opt_field ''User-Agent'' (rq_userAgent h) @ opt_field ''Host'' (rq_host h) @ opt_field ''Content-Type'' (printed_type h) @
     opt_field ''Content-Length'' (rq_contentLengthBytes h) @ map kv_pair (other_fields h) @
     (if rq_connectionClose h then [(''Connection'', ''close'')] else [])"

definition parsed_names :: "string list" where
  "parsed_names = [''Host'', ''User-Agent'', ''Content-Type'', ''Content-Length'', ''Connection'', ''Transfer-Encoding'', ''Trailer'']"

definition arg_plain :: "argsKV \<Rightarrow> bool" where
  "arg_plain kv \<longleftrightarrow> name_ok (kv_key kv) \<and> value_ok (kv_value kv) \<and> \<not> kv_noValue kv \<and> NormalizeHeaderKey (kv_key kv) False = kv_key kv \<and>
     list_all (\<lambda>n. \<not> CaseInsensitiveCompare (kv_key kv) n) parsed_names"

text \<open>
  A header whose texts are those of a head: names and values without line ends, a length that is a number, no trailer, and among the other fields none with the name
  of a field that the parser treats in a special way (a transfer encoding or an option of the connection other than \<open>close\<close>, for example, which \<open>AppendBytes\<close> prints if they were set).
\<close>

definition header_plain :: "RequestHeader \<Rightarrow> bool" where
  "header_plain h \<longleftrightarrow> name_ok (rq_Method h) \<and> CHR '' '' \<notin> set (rq_RequestURI h) \<and> lf \<notin> set (rq_RequestURI h) \<and>
     value_ok (rq_userAgent h) \<and> value_ok (rq_host h) \<and> value_ok (rq_contentType h) \<and> value_ok (rq_contentLengthBytes h) \<and>
     (rq_contentLengthBytes h \<noteq> [] \<longrightarrow> (case ParseContentLength (rq_contentLengthBytes h) of None \<Rightarrow> False | Some n \<Rightarrow> 0 \<le> n)) \<and>
     list_all arg_plain (other_fields h) \<and> tr_Empty (rq_trailer h)"

lemma std_names:
  "name_ok ''User-Agent''" "name_ok ''Host''" "name_ok ''Content-Type''" "name_ok ''Content-Length''" "name_ok ''Connection''"
  "value_ok ''close''" "value_ok ''application/x-www-form-urlencoded''"
  "NormalizeHeaderKey ''User-Agent'' False = ''User-Agent''" "NormalizeHeaderKey ''Host'' False = ''Host''"
  "NormalizeHeaderKey ''Content-Type'' False = ''Content-Type''" "NormalizeHeaderKey ''Content-Length'' False = ''Content-Length''"
  "NormalizeHeaderKey ''Connection'' False = ''Connection''"
  by code_simp+

lemma printed_type_ok: "value_ok (rq_contentType h) \<Longrightarrow> value_ok (printed_type h)"
  using std_names(7) by (simp add: printed_type_def)

lemma appendHeaderLine_plain: "name_ok k \<Longrightarrow> value_ok v \<Longrightarrow> appendHeaderLine dst k v = dst @ field_line (k, v)"
proof -
  assume k: "name_ok k" and v: "value_ok v"
  have "map (\<lambda>c. if c = CHR 0x0D \<or> c = CHR 0x0A then CHR '' '' else c) v = v" using value_chars [OF v] by (intro map_idI) auto
  then show ?thesis using k by (simp add: appendHeaderLine_def appendHeaderValue_def name_ok_def field_line_def)
qed

lemma append_if_plain: "name_ok k \<Longrightarrow> value_ok v \<Longrightarrow> append_if (v \<noteq> []) k v dst = dst @ field_lines (opt_field k v)"
  by (simp add: append_if_def opt_field_def appendHeaderLine_plain)

lemma append_lines_plain: "list_all arg_plain as \<Longrightarrow> append_lines dst as = dst @ field_lines (map kv_pair as)"
  by (induction "as" arbitrary: dst) (auto simp: arg_plain_def appendHeaderLine_plain kv_pair_def)

lemma AppendBytes_head:
  assumes "header_plain h"
  shows "rq_AppendBytes [] h = request_head (rq_Method h) (rq_RequestURI h) (printed_fields h)"
proof -
  have h: "value_ok (rq_userAgent h)" "value_ok (rq_host h)" "value_ok (printed_type h)" "value_ok (rq_contentLengthBytes h)"
    "list_all arg_plain (av_args (rq_h h))" "tr_Empty (rq_trailer h)" "list_all arg_plain (cookie_fields h)"
    using assms printed_type_ok [of h] by (auto simp: header_plain_def other_fields_def)
  have cookies: "(if av_args (rq_cookies h) \<noteq> [] then appendRequestCookieBytes (d @ ''Cookie'' @ '': '') (av_args (rq_cookies h)) @ crlf else d) =
      d @ field_lines (map kv_pair (cookie_fields h))" for d
    by (subst appendRequestCookieBytes_acc) (simp add: cookie_fields_def kv_pair_def field_line_def)
  have close: "append_if (rq_connectionClose h) ''Connection'' ''close'' d =
      d @ field_lines (if rq_connectionClose h then [(''Connection'', ''close'')] else [])" for d
    using appendHeaderLine_plain [OF std_names(5,6)] by (simp add: append_if_def)
  show ?thesis
    unfolding rq_AppendBytes_def Let_def printed_type_def [symmetric] append_if_plain [OF std_names(1) h(1)] append_if_plain [OF std_names(2) h(2)]
      append_if_plain [OF std_names(3) h(3)] append_if_plain [OF std_names(4) h(4)] append_lines_plain [OF h(5)] cookies close
    using h(6) by (simp add: append_if_def request_head_def request_line_def printed_fields_def other_fields_def)
qed

lemma rq_apply_append:
  "rq_apply d (xs @ ys) st = (case rq_apply d xs st of Inl e \<Rightarrow> Inl e | Inr st' \<Rightarrow> rq_apply d ys st')"
  by (induction xs arbitrary: st) (auto split: sum.splits)

lemma rq_apply_seq: "rq_apply d xs st = Inr st' \<Longrightarrow> rq_apply d (xs @ ys) st = rq_apply d ys st'"
  by (simp add: rq_apply_append)

lemma value_valid: "value_ok v \<Longrightarrow> validHeaderFieldValue v"
  by (simp add: value_ok_def validHeaderFieldValue_def)

lemma names_differ:
  "\<not> CaseInsensitiveCompare ''Content-Length'' ''Content-Type''" "\<not> CaseInsensitiveCompare ''Connection'' ''Content-Type''"
  "\<not> CaseInsensitiveCompare ''Connection'' ''Content-Length''"
  "fold20 CHR ''U'' = of_char CHR ''u''" "fold20 CHR ''H'' = of_char CHR ''h''" "fold20 CHR ''C'' = of_char CHR ''c''"
  by code_simp+

lemma apply_fields:
  assumes "value_ok v"
  shows "rq_apply False (opt_field ''User-Agent'' v) (e, h) = Inr (e, if v = [] then h else h\<lparr> rq_userAgent := v \<rparr>)"
    "rq_apply False (opt_field ''Host'' v) (e, h) = Inr (e, if v = [] then h else h\<lparr> rq_host := v \<rparr>)"
    "rq_apply False (opt_field ''Content-Type'' v) (e, h) = Inr (e, if v = [] then h else h\<lparr> rq_contentType := v \<rparr>)"
    "rq_contentLength h = -2 \<Longrightarrow> ParseContentLength v = Some n \<Longrightarrow>
       rq_apply False (opt_field ''Content-Length'' v) (e, h) = Inr (e, if v = [] then h else h\<lparr> rq_contentLength := n, rq_contentLengthBytes := v \<rparr>)"
    "rq_apply False [(''Connection'', ''close'')] (e, h) = Inr (e, h\<lparr> rq_connectionClose := True \<rparr>)"
  using value_valid [OF assms] value_valid [OF std_names(6)]
  by (simp_all add: opt_field_def std_names rq_field_def names_differ Let_def)

lemma apply_args:
  "list_all arg_plain as \<Longrightarrow> rq_apply False (map kv_pair as) (e, h) = Inr (e, fold (\<lambda>kv h. rq_AddArgBytes (kv_key kv) (kv_value kv) h) as h)"
proof (induction "as" arbitrary: h)
  case (Cons kv "as")
  obtain c k where key: "kv_key kv = c # k" using Cons.prems by (cases "kv_key kv") (auto simp: arg_plain_def name_ok_def)
  have "rq_field (kv_key kv) (kv_value kv) (e, h) = Inr (e, rq_AddArgBytes (kv_key kv) (kv_value kv) h)"
    using Cons.prems name_chars [of "kv_key kv"] value_valid [of "kv_value kv"] key
    by (auto simp: rq_field_def arg_plain_def parsed_names_def Let_def)
  then show ?case using Cons by (auto simp: kv_pair_def arg_plain_def)
qed simp

lemma fold_args_parts:
  "rq_h (fold (\<lambda>kv h. rq_AddArgBytes (kv_key kv) (kv_value kv) h) as h) = fold (\<lambda>kv a. appendArg (kv_key kv) (kv_value kv) False a) as (rq_h h)"
  "fold (\<lambda>kv h. rq_AddArgBytes (kv_key kv) (kv_value kv) h) as h =
     h\<lparr> rq_h := fold (\<lambda>kv a. appendArg (kv_key kv) (kv_value kv) False a) as (rq_h h) \<rparr>"
  by (induction "as" arbitrary: h) (simp_all add: rq_AddArgBytes_def)

lemma fold_args_plain:
  "list_all arg_plain as \<Longrightarrow> av_args (fold (\<lambda>kv a. appendArg (kv_key kv) (kv_value kv) False a) as a) = av_args a @ as"
  by (induction "as" arbitrary: a) (auto simp: appendArg_args arg_plain_def)

text \<open>What the parser makes of a printed header.\<close>

definition reads_as :: "RequestHeader \<Rightarrow> RequestHeader \<Rightarrow> bool" where
  "reads_as h h' \<longleftrightarrow> rq_method h' = rq_Method h \<and> rq_requestURI h' = rq_RequestURI h \<and> rq_protocol h' = ''HTTP/1.1'' \<and> rq_host h' = rq_host h \<and>
     rq_userAgent h' = rq_userAgent h \<and> rq_contentType h' = printed_type h \<and> rq_contentLengthBytes h' = rq_contentLengthBytes h \<and>
     av_args (rq_h h') = other_fields h \<and> rq_connectionClose h' = rq_connectionClose h"

lemma apply_length:
  assumes "header_plain h" "rq_contentLength g = -2" "rq_contentLengthBytes g = []"
  shows "\<exists>n. rq_apply False (opt_field ''Content-Length'' (rq_contentLengthBytes h)) (e, g) =
      Inr (e, g\<lparr> rq_contentLength := n, rq_contentLengthBytes := rq_contentLengthBytes h \<rparr>) \<and> (rq_contentLengthBytes h \<noteq> [] \<longrightarrow> 0 \<le> n)"
proof (cases "rq_contentLengthBytes h = []")
  case True
  then have "rq_apply False (opt_field ''Content-Length'' (rq_contentLengthBytes h)) (e, g) =
      Inr (e, g\<lparr> rq_contentLength := -2, rq_contentLengthBytes := rq_contentLengthBytes h \<rparr>)"
    using assms(2,3) by (simp add: opt_field_def)
  then show ?thesis using True by blast
next
  case False
  then obtain n where n: "ParseContentLength (rq_contentLengthBytes h) = Some n" "0 \<le> n"
    using assms(1) by (auto simp: header_plain_def split: option.splits)
  have "value_ok (rq_contentLengthBytes h)" using assms(1) by (simp add: header_plain_def)
  from apply_fields(4) [OF this assms(2) n(1), of e] show ?thesis using False n(2) by auto
qed

lemma printed_fields_read:
  assumes "header_plain h"
  shows "\<exists>h1. rq_apply False (printed_fields h) (None, head_start (rq_Method h) (rq_RequestURI h) fs new_request_header) = Inr (None, h1) \<and>
    reads_as h (rq_finish h1)"
proof -
  have v: "value_ok (rq_userAgent h)" "value_ok (rq_host h)" "value_ok (printed_type h)" "list_all arg_plain (other_fields h)"
    using assms printed_type_ok [of h] by (auto simp: header_plain_def)
  let ?h0 = "head_start (rq_Method h) (rq_RequestURI h) fs new_request_header"
  let ?h3 = "?h0\<lparr> rq_userAgent := rq_userAgent h, rq_host := rq_host h, rq_contentType := printed_type h \<rparr>"
  have a3: "rq_apply False (opt_field ''User-Agent'' (rq_userAgent h) @ opt_field ''Host'' (rq_host h) @ opt_field ''Content-Type'' (printed_type h)) (None, ?h0) =
      Inr (None, ?h3)"
    by (simp add: rq_apply_append apply_fields v head_start_def new_request_header_def)
  obtain n where n: "rq_apply False (opt_field ''Content-Length'' (rq_contentLengthBytes h)) (None, ?h3) =
      Inr (None, ?h3\<lparr> rq_contentLength := n, rq_contentLengthBytes := rq_contentLengthBytes h \<rparr>)" "rq_contentLengthBytes h \<noteq> [] \<longrightarrow> 0 \<le> n"
    using apply_length [OF assms, of ?h3 None] by (auto simp: head_start_def new_request_header_def)
  let ?h4 = "?h3\<lparr> rq_contentLength := n, rq_contentLengthBytes := rq_contentLengthBytes h \<rparr>"
  let ?a = "fold (\<lambda>kv a. appendArg (kv_key kv) (kv_value kv) False a) (other_fields h) (rq_h ?h4)"
  have a5: "rq_apply False (map kv_pair (other_fields h)) (None, ?h4) = Inr (None, ?h4\<lparr> rq_h := ?a \<rparr>)"
    unfolding apply_args [OF v(4)] fold_args_parts(2) ..
  have a6: "rq_apply False (if rq_connectionClose h then [(''Connection'', ''close'')] else []) (None, g) =
      Inr (None, if rq_connectionClose h then g\<lparr> rq_connectionClose := True \<rparr> else g)" for g
    using apply_fields(5) [OF v(1)] by simp
  have pf: "printed_fields h = (opt_field ''User-Agent'' (rq_userAgent h) @ opt_field ''Host'' (rq_host h) @ opt_field ''Content-Type'' (printed_type h)) @
      opt_field ''Content-Length'' (rq_contentLengthBytes h) @ map kv_pair (other_fields h) @
      (if rq_connectionClose h then [(''Connection'', ''close'')] else [])" by (simp add: printed_fields_def)
  have "rq_apply False (printed_fields h) (None, ?h0) =
      Inr (None, if rq_connectionClose h then ?h4\<lparr> rq_h := ?a, rq_connectionClose := True \<rparr> else ?h4\<lparr> rq_h := ?a \<rparr>)"
    unfolding pf rq_apply_seq [OF a3] rq_apply_seq [OF n(1)] rq_apply_seq [OF a5] a6 ..
  moreover have "av_args ?a = other_fields h" using fold_args_plain [OF v(4)] by (simp add: head_start_def new_request_header_def new_args_def)
  ultimately show ?thesis using n(2)
    by (auto simp: reads_as_def rq_finish_def Let_def head_start_def new_request_header_def)
qed

lemma printed_head_ok: "header_plain h \<Longrightarrow> head_ok (rq_Method h) (rq_RequestURI h) (printed_fields h)"
  using printed_type_ok [of h] std_names
  by (auto simp: header_plain_def head_ok_def printed_fields_def opt_field_def rq_RequestURI_def list_all_iff arg_plain_def kv_pair_def)

lemma reset_new: "rq_ResetSkipNormalize new_request_header = new_request_header"
  by (simp add: rq_ResetSkipNormalize_def new_request_header_def args_Reset_def tr_ResetSkipNormalize_def new_trailer_def new_args_def)

text \<open>
  C17: the head of a request survives the way from the client to the server. What \<open>AppendBytes\<close> prints of a header (one with names and values that a head can
  hold, without a trailer, and whose other fields do not include a transfer encoding, another special field, or an option of the connection besides \<open>close\<close>) is read back by \<open>ReadHeaderWithLimit\<close> from a connection, however the network splits the bytes and whatever follows them: the call returns without an
  error and without waiting for more than the head, the method, the target, the host, the user agent, the content type and length, all other fields in their
  order with the cookies as one field after them, and the mark that the connection closes are those of the header, and the connection is left with exactly what follows the head.
\<close>

theorem request_head_roundtrip:
  assumes "\<And>n. n \<le> length (alloc n)" and "header_plain h" and "sock_bytes sock = rq_AppendBytes [] h @ rest"
    and "mx = 0 \<or> length (rq_AppendBytes [] h) \<le> mx"
  shows "\<exists>h' c. ReadHeaderWithLimit (conn_reader alloc) mx new_request_header (newConn alloc sock w n) = Some (None, h', c) \<and>
    stream_bytes c = rest \<and> reads_as h h'"
proof -
  have a: "alloc_ok alloc" using assms(1) by (simp add: alloc_ok_def)
  let ?m = "rq_Method h" and ?u = "rq_RequestURI h" and ?fs = "printed_fields h" and ?c = "newConn alloc sock w n"
  obtain h1 where h1: "rq_apply False ?fs (None, head_start ?m ?u ?fs new_request_header) = Inr (None, h1)" "reads_as h (rq_finish h1)"
    using printed_fields_read [OF assms(2)] by blast
  have hd: "rq_AppendBytes [] h = request_head ?m ?u ?fs" by (rule AppendBytes_head [OF assms(2)])
  have b: "stream_bytes ?c = request_head ?m ?u ?fs @ rest" using assms(3) hd by (simp add: newConn_ok)
  have one: "1 \<le> length (stream_bytes ?c)" using b by (simp add: request_head_def crlf_def)
  have ap: "rq_apply (rq_disableNormalizing new_request_header) ?fs (None, head_start ?m ?u ?fs (rq_ResetSkipNormalize new_request_header)) = Inr (None, h1)"
    using h1(1) by (simp add: reset_new) (simp add: new_request_header_def)
  have "alloc_ok alloc \<and> input_ok ?c" "mx = 0 \<or> length (request_head ?m ?u ?fs) \<le> mx" using a assms(4) hd by (auto simp: newConn_ok)
  from conn.read_head [OF this(1) b order_refl one printed_head_ok [OF assms(2)] this(2) ap]
  show ?thesis using h1(2) by (auto simp: ReadHeaderWithLimit_def)
qed

definition ex_request :: RequestHeader where
  "ex_request = new_request_header\<lparr> rq_method := ''POST'', rq_requestURI := ''/v1/node'', rq_host := ''a.example'', rq_contentLength := 5,
     rq_contentLengthBytes := ''5'', rq_h := \<lparr> av_args = [\<lparr> kv_key = ''X-Trace'', kv_value = ''t 1'', kv_noValue = False \<rparr>], av_spare = [] \<rparr>,
     rq_cookies := \<lparr> av_args = [\<lparr> kv_key = ''sid'', kv_value = ''a1'', kv_noValue = False \<rparr>], av_spare = [] \<rparr>,
     rq_connectionClose := True \<rparr>"

theorem request_head_roundtrip_witness:
  "\<exists>h' c. ReadHeaderWithLimit (conn_reader (\<lambda>n. replicate n CHR ''?'')) 0 new_request_header
      (newConn (\<lambda>n. replicate n CHR ''?'') [(take 20 (rq_AppendBytes [] ex_request), None), (drop 20 (rq_AppendBytes [] ex_request) @ ''hello'', None)] [] 0) =
      Some (None, h', c) \<and> stream_bytes c = ''hello'' \<and> reads_as ex_request h'"
proof (rule request_head_roundtrip)
  show "header_plain ex_request" by code_simp
qed simp_all

section \<open>Where the readers go wrong\<close>

text \<open>A connection whose buffer holds a text already.\<close>

definition conn_holding :: "string \<Rightarrow> Conn" where
  "conn_holding t = \<lparr> cn_sock = [], cn_writes = [], cn_sent = [],
     cn_input = \<lparr> lb_nodes = [\<lparr> nd_buf = t, nd_off = 0, nd_malloc = length t, nd_readOnly = False \<rparr>], lb_read = 0, lb_len = length t \<rparr>,
     cn_output = \<lparr> lb_nodes = [], lb_read = 0, lb_len = 0 \<rparr>, cn_caches = [], cn_maxSize = 4096, cn_err = None \<rparr>"

text \<open>
  A value that spans two lines, the last of which ends with a blank: the line end is not skipped, and the parser asks for more although the head is complete.
\<close>

lemma folded_value_with_blank_waits:
  "fst (rq_parse (''GET / HTTP/1.1'' @ crlf @ ''A: b'' @ crlf @ '' c '' @ crlf @ crlf) new_request_header) = Inl ErrNeedMore"
  by code_simp

text \<open>
  A value that spans two lines is closed up in the buffer of the connection, and the length of the head is counted after that. The bytes behind the head move
  down, and as many of them as were cut stay in the buffer twice: the next request starts behind \<open>next\<close> with bytes that nobody sent.
\<close>

lemma folded_value_repeats_bytes:
  "map_option (\<lambda>(e, h, c). (e, map kv_value (av_args (rq_h h)), stream_bytes c))
     (ReadHeaderWithLimit (conn_reader (\<lambda>n. replicate n CHR ''?'')) 0 new_request_header
        (conn_holding (''GET / HTTP/1.1'' @ crlf @ ''A: b'' @ crlf @ '' c'' @ crlf @ crlf @ ''next''))) = Some (None, [''b c''], ''nextxt'')"
proof -
  let ?R = "conn_reader (\<lambda>n. replicate n CHR ''?'')"
  let ?c = "conn_holding (''GET / HTTP/1.1'' @ crlf @ ''A: b'' @ crlf @ '' c'' @ crlf @ crlf @ ''next'')"
  have "map_option (\<lambda>(e, h, c). (e, map kv_value (av_args (rq_h h)), stream_bytes c)) (tryReadWithLimit ?R 1 0 new_request_header ?c) =
      Some (None, [''b c''], ''nextxt'')" by code_simp
  then obtain h c where "tryReadWithLimit ?R 1 0 new_request_header ?c = Some (None, h, c)" "map kv_value (av_args (rq_h h)) = [''b c'']"
      "stream_bytes c = ''nextxt''" by auto
  then show ?thesis unfolding ReadHeaderWithLimit_def by (subst read_header_loop.simps) simp
qed

text \<open>The bytes of a method are only checked while its line is incomplete, so whether a request is refused depends on how the network splits it.\<close>

lemma method_checked_in_part_only:
  "fst (rq_parse (''G@T / HTTP/1.1'' @ crlf @ crlf) new_request_header) = Inr 18"
  "fst (rq_parse ''G@T / HT'' new_request_header) = Inl ErrMalformedRequest"
  by code_simp+

text \<open>Of two different lengths the last one counts.\<close>

lemma last_content_length_counts:
  "map_prod id (\<lambda>(h, _). rq_contentLength h)
     (rq_parse (''GET / HTTP/1.1'' @ crlf @ ''Content-Length: 5'' @ crlf @ ''Content-Length: 7'' @ crlf @ crlf) new_request_header) = (Inr 56, 7)"
  by code_simp

definition ex_response :: ResponseHeader where
  "ex_response = \<lparr> rs_disableNormalizing = False, rs_connectionClose = False, rs_noDefaultContentType = False, rs_noDefaultDate = False, rs_statusCode = 0,
     rs_contentLength = 0, rs_contentLengthBytes = [], rs_contentEncoding = [], rs_contentType = [], rs_server = [], rs_protocol = [], rs_h = new_args,
     rs_trailer = new_trailer, rs_cookies = new_args \<rparr>"

text \<open>The error of a length that is no number is lost when a later field of the response can fail and does not.\<close>

lemma response_length_error_lost:
  "map_option fst (rs_parse (''HTTP/1.1 200 OK'' @ crlf @ ''Content-Length: x'' @ crlf @ ''Trailer: X'' @ crlf @ crlf) ex_response) = Some (Inr 50)"
  "map_option fst (rs_parse (''HTTP/1.1 200 OK'' @ crlf @ ''Content-Length: x'' @ crlf @ crlf) ex_response) = Some (Inl ErrContentLength)"
  by code_simp+

text \<open>\<open>ConnectionUpgrade\<close> looks for \<open>keep-alive\<close>.\<close>

lemma upgrade_is_keep_alive:
  "\<not> ConnectionUpgrade (rs_AddArgBytes ''Connection'' ''Upgrade'' ex_response)"
  "ConnectionUpgrade (rs_AddArgBytes ''Connection'' ''keep-alive'' ex_response)"
  by code_simp+

text \<open>
  The last chunk in front of a trailer is skipped but not counted, and an error in one field of a trailer is lost when the next field has none.
\<close>

lemma trailer_length_misses_chunk:
  "map_option fst (parseTrailer (''0'' @ crlf @ ''X: y'' @ crlf @ crlf) new_trailer) = Some (Inr 8)"
  "length (''0'' @ crlf @ ''X: y'' @ crlf @ crlf) = 11"
  by code_simp+

lemma trailer_error_lost:
  "map_option fst (parseTrailer (''A b: 1'' @ crlf @ crlf) new_trailer) = Some (Inl ErrInvalidKey)"
  "map_option fst (parseTrailer (''A b: 1'' @ crlf @ ''X: y'' @ crlf @ crlf) new_trailer) = Some (Inr 16)"
  by code_simp+

end
