(* ===== verification/Http1_Stream.thy ===== *)
theory Http1_Stream
  imports Http1_Request
begin

text \<open>
  Bodies that a handler reads while they arrive (\<^verbatim>\<open>web/protocol/ext/stream.go\<close>): the part that was read ahead, then the connection; and what
  the server skips of a body that the handler left. The fixed part of the code that skips trailers is from \<^verbatim>\<open>ext/common.go\<close>. The reader of a stream may
  also be an \<open>io.Reader\<close>: then \<open>rdRead\<close> is its method \<open>Read\<close>. A call that never returns, or panics, is \<open>None\<close>.
\<close>

section \<open>Skipping a trailer\<close>

definition trySkipTrailer :: "'r Reader \<Rightarrow> nat \<Rightarrow> 'r \<Rightarrow> (http_error option \<times> 'r) option" where
  "trySkipTrailer R n r0 =
     (case Peek R n r0 of
        None \<Rightarrow> None
      | Some (b0, err, r1) \<Rightarrow>
          if b0 = [] then
            Some (Some (case err of
                          Some e \<Rightarrow> if is_timeout e then ErrTimeout else if n = 1 \<or> e = EOF then NetError EOF else ErrReadHeader (NetError e)
                        | None \<Rightarrow> if n = 1 then NetError EOF else ErrReadHeader ErrNothingRead), r1)
          else
            (case MustPeekBuffered R r1 of
               None \<Rightarrow> None
             | Some (b, r2) \<Rightarrow>
                 (case skipTrailer b 0 of
                    None \<Rightarrow> Some (Some (if err = Some EOF then NetError EOF else HeaderError err ErrNeedMore b), r2)
                  | Some headersLen \<Rightarrow> map_option (\<lambda>r3. (None, r3)) (MustDiscard R r2 headersLen))))"

partial_function (option) SkipTrailer :: "'r Reader \<Rightarrow> nat \<Rightarrow> 'r \<Rightarrow> (http_error option \<times> 'r) option" where
  "SkipTrailer R n r =
     Option.bind (trySkipTrailer R n r) (\<lambda>(err, r1).
       if err = None then Some (None, r1)
       else if err \<noteq> Some ErrNeedMore then Some (err, r1)
       else SkipTrailer R (if n = Len R r1 then n + 1 else Len R r1) r1)"

section \<open>The part of a body that is read ahead\<close>

definition maxContentLengthInStream :: int where
  "maxContentLengthInStream = 8 * 1024"

definition ReadBodyWithStreaming :: "'r Reader \<Rightarrow> int \<Rightarrow> int \<Rightarrow> nat \<Rightarrow> 'r \<Rightarrow> (string \<times> http_error option \<times> 'r) option" where
  "ReadBodyWithStreaming R contentLength maxBodySize0 cp r =
     (if contentLength = -1 then Some ([], Some ErrChunkedStream, r)
      else
        let maxBodySize = (if maxBodySize0 \<le> 0 then maxContentLengthInStream else maxBodySize0);
            readN0 = (if maxBodySize > contentLength then contentLength else maxBodySize);
            readN = (if readN0 > maxContentLengthInStream then maxContentLengthInStream else readN0)
        in (case (if contentLength \<ge> 0 \<and> maxBodySize \<ge> contentLength then appendBodyFixedSize R [] (nat readN) r
                  else readBodyIdentity R (nat readN) cp r) of
              None \<Rightarrow> None
            | Some (b, Some e, r1) \<Rightarrow> Some (b, Some e, r1)
            | Some (b, None, r1) \<Rightarrow> Some (b, if contentLength > maxBodySize then Some ErrBodyTooLarge else None, r1)))"

section \<open>The stream\<close>

record 'r bodyStream =
  bs_prefetched :: "string option"
  bs_prePos :: nat
  bs_reader :: 'r
  bs_trailer :: Trailer
  bs_offset :: int
  bs_contentLength :: int
  bs_chunkLeft :: nat
  bs_chunkEOF :: bool

text \<open>A stream from the pool is a reset one.\<close>

definition AcquireBodyStream :: "string \<Rightarrow> 'r \<Rightarrow> Trailer \<Rightarrow> int \<Rightarrow> 'r bodyStream" where
  "AcquireBodyStream b r t contentLength = \<lparr> bs_prefetched = Some b, bs_prePos = 0, bs_reader = r, bs_trailer = t, bs_offset = 0,
     bs_contentLength = contentLength, bs_chunkLeft = 0, bs_chunkEOF = False \<rparr>"

definition set_reader :: "'r Reader \<Rightarrow> 'r \<Rightarrow> 'r bodyStream \<Rightarrow> 'r bodyStream" where
  "set_reader R r rs = rs\<lparr> bs_reader := Release R r \<rparr>"

text \<open>The chunk that a read is in: the one before, or the next one; \<open>Inl\<close> ends the read.\<close>

definition next_chunk :: "'r Reader \<Rightarrow> 'r bodyStream \<Rightarrow> (http_error option \<times> 'r bodyStream) option" where
  "next_chunk R rs =
     (if bs_chunkLeft rs \<noteq> 0 then Some (None, rs)
      else case ParseChunkSize R (bs_reader rs) of
        None \<Rightarrow> None
      | Some (Inl e, r1) \<Rightarrow> Some (Some e, rs\<lparr> bs_reader := r1 \<rparr>)
      | Some (Inr 0, r1) \<Rightarrow>
          map_option (\<lambda>(e, t, r2).
              let rs1 = rs\<lparr> bs_reader := r2, bs_trailer := t \<rparr>
              in if e = None then (Some (NetError EOF), rs1\<lparr> bs_chunkEOF := True \<rparr>) else (e, rs1))
            (ReadTrailer R 1 (bs_trailer rs) r1)
      | Some (Inr (Suc n), r1) \<Rightarrow> Some (None, rs\<lparr> bs_reader := r1, bs_chunkLeft := Suc n \<rparr>))"

definition read_chunked :: "'r Reader \<Rightarrow> nat \<Rightarrow> 'r bodyStream \<Rightarrow> (string \<times> http_error option \<times> 'r bodyStream) option" where
  "read_chunked R k rs0 =
     (if bs_chunkEOF rs0 then Some ([], Some (NetError EOF), rs0)
      else case next_chunk R rs0 of
        None \<Rightarrow> None
      | Some (Some e, rs) \<Rightarrow> Some ([], Some e, rs)
      | Some (None, rs) \<Rightarrow>
          (case Peek R (min k (bs_chunkLeft rs)) (bs_reader rs) of
             None \<Rightarrow> None
           | Some (src, err, r1) \<Rightarrow>
               let copied = take k src in
               (case Skip R (length copied) r1 of
                  None \<Rightarrow> None
                | Some (_, r2) \<Rightarrow>
                    let rs1 = rs\<lparr> bs_reader := r2, bs_chunkLeft := bs_chunkLeft rs - length copied \<rparr> in
                    (case err of
                       Some e \<Rightarrow> Some (copied, Some (NetError (eof_unexpected e)), rs1)
                     | None \<Rightarrow>
                         if bs_chunkLeft rs1 = 0 then
                           map_option (\<lambda>(e, r3). (copied, if e = Some (NetError EOF) then Some (NetError UnexpectedEOF) else e, rs1\<lparr> bs_reader := r3 \<rparr>))
                             (SkipCRLF R r2)
                         else Some (copied, None, rs1)))))"

text \<open>The bytes that come from the connection, into a slice of \<open>k\<close> bytes of which \<open>m\<close> belong to the body.\<close>

definition read_wire :: "'r Reader \<Rightarrow> (nat \<Rightarrow> 'r \<Rightarrow> (string \<times> io_error option \<times> 'r) option) option \<Rightarrow> nat \<Rightarrow> nat \<Rightarrow> 'r \<Rightarrow>
    (string \<times> io_error option \<times> 'r) option" where
  "read_wire R rdRead k m r =
     (case rdRead of
        Some f \<Rightarrow> f k r
      | None \<Rightarrow>
          (case Peek R m r of
             None \<Rightarrow> None
           | Some (tmp, err, r1) \<Rightarrow> let d = take k tmp in map_option (\<lambda>(_, r2). (d, err, r2)) (Skip R (length d) r1)))"

definition read_fixed :: "'r Reader \<Rightarrow> (nat \<Rightarrow> 'r \<Rightarrow> (string \<times> io_error option \<times> 'r) option) option \<Rightarrow> nat \<Rightarrow> 'r bodyStream \<Rightarrow>
    (string \<times> http_error option \<times> 'r bodyStream) option" where
  "read_fixed R rdRead k rs =
     (case bs_prefetched rs of None \<Rightarrow> None | Some pre \<Rightarrow>
      if bs_offset rs = bs_contentLength rs then Some ([], Some (NetError EOF), rs)
      else
        let ahead = int (length pre) > bs_offset rs;
            d = (if ahead then take k (drop (bs_prePos rs) pre) else []);
            preErr = ahead \<and> bs_prePos rs \<ge> length pre;
            rs1 = rs\<lparr> bs_prePos := bs_prePos rs + length d, bs_offset := bs_offset rs + int (length d) \<rparr>
        in if ahead \<and> bs_offset rs1 = bs_contentLength rs then Some (d, Some (NetError EOF), rs1)
           else if ahead \<and> (preErr \<or> length d = k) then Some (d, if preErr then Some (NetError EOF) else None, rs1)
           else
             let m = min (int (k - length d)) (bs_contentLength rs - bs_offset rs1) in
             (case read_wire R rdRead (k - length d) (nat m) (bs_reader rs) of
                None \<Rightarrow> None
              | Some (w, err, r1) \<Rightarrow>
                  let off = bs_offset rs1 + int (length w); rs2 = rs1\<lparr> bs_reader := r1, bs_offset := off \<rparr> in
                  Some (d @ w,
                    (case err of
                       None \<Rightarrow> if off = bs_contentLength rs then Some (NetError EOF) else None
                     | Some EOF \<Rightarrow> Some (NetError (if off \<noteq> bs_contentLength rs \<and> bs_contentLength rs \<noteq> -2 then UnexpectedEOF else EOF))
                     | Some e \<Rightarrow> Some (NetError e)),
                    if err = Some EOF then rs2\<lparr> bs_offset := bs_contentLength rs \<rparr> else rs2)))"

definition bs_Read :: "'r Reader \<Rightarrow> (nat \<Rightarrow> 'r \<Rightarrow> (string \<times> io_error option \<times> 'r) option) option \<Rightarrow> nat \<Rightarrow> 'r bodyStream \<Rightarrow>
    (string \<times> http_error option \<times> 'r bodyStream) option" where
  "bs_Read R rdRead k rs =
     map_option (\<lambda>(d, e, rs'). (d, e, set_reader R (bs_reader rs') rs'))
       (if bs_contentLength rs = -1 then read_chunked R k rs else read_fixed R rdRead k rs)"

section \<open>Skipping the rest\<close>

partial_function (option) skip_chunks :: "'r Reader \<Rightarrow> 'r \<Rightarrow> (http_error option \<times> bool \<times> 'r) option" where
  "skip_chunks R r =
     Option.bind (ParseChunkSize R r) (\<lambda>(size, r1).
       case size of
         Inl e \<Rightarrow> Some (Some e, False, r1)
       | Inr n \<Rightarrow>
           if n = 0 then map_option (\<lambda>(e, r2). (e, True, r2)) (SkipTrailer R 1 r1)
           else Option.bind (Skip R n r1) (\<lambda>(e1, r2).
             if e1 \<noteq> None then Some (map_option NetError e1, False, r2)
             else Option.bind (Peek R (length crlf) r2) (\<lambda>(p, e2, r3).
               if e2 \<noteq> None then Some (map_option NetError e2, False, r3)
               else if p \<noteq> crlf then Some (Some ErrBrokenChunk, False, r3)
               else Option.bind (Skip R (length crlf) r3) (\<lambda>(e3, r4).
                 if e3 \<noteq> None then Some (map_option NetError e3, False, r4)
                 else skip_chunks R (Release R r4)))))"

partial_function (option) skip_bytes :: "'r Reader \<Rightarrow> nat \<Rightarrow> 'r \<Rightarrow> (http_error option \<times> 'r) option" where
  "skip_bytes R need r =
     Option.bind (if Len R r = 0 then Peek R 1 r else Some ([], None, r)) (\<lambda>(_, e0, r0).
       if e0 \<noteq> None then Some (map_option NetError e0, r0)
       else
         let skip = min (Len R r0) need in
         Option.bind (Skip R skip r0) (\<lambda>(e1, r1).
           if e1 \<noteq> None then Some (map_option NetError e1, r1)
           else if need - skip = 0 then Some (None, Release R r1) else skip_bytes R (need - skip) (Release R r1)))"

text \<open>
  When more than the body was read, the number of bytes to skip is negative, and \<open>Skip\<close> adds them to the count of the connection; that case is left out as \<open>None\<close>.
\<close>

definition skipRest :: "'r Reader \<Rightarrow> 'r bodyStream \<Rightarrow> (http_error option \<times> 'r bodyStream) option" where
  "skipRest R rs =
     (case bs_prefetched rs of
        None \<Rightarrow> Some (None, rs)
      | Some pre \<Rightarrow>
          if bs_contentLength rs = -1 then
            (if bs_chunkEOF rs then Some (None, rs)
             else map_option (\<lambda>(e, eof, r). (e, rs\<lparr> bs_reader := r, bs_chunkEOF := bs_chunkEOF rs \<or> eof \<rparr>)) (skip_chunks R (bs_reader rs)))
          else
            let pSize = int (length pre) in
            if bs_contentLength rs \<le> pSize \<or> bs_offset rs = bs_contentLength rs then Some (None, rs)
            else
              let need = (if bs_offset rs > pSize then bs_contentLength rs - bs_offset rs else bs_contentLength rs - pSize)
              in if need < 0 then None else map_option (\<lambda>(e, r). (e, rs\<lparr> bs_reader := r \<rparr>)) (skip_bytes R (nat need) (bs_reader rs)))"

definition bs_reset :: "'r bodyStream \<Rightarrow> 'r bodyStream" where
  "bs_reset rs = rs\<lparr> bs_prefetched := None, bs_prePos := 0, bs_offset := 0, bs_trailer := new_trailer, bs_chunkEOF := False, bs_chunkLeft := 0,
     bs_contentLength := 0 \<rparr>"

text \<open>The error of \<open>skipRest\<close>, the reader as it leaves it, and the stream for the pool.\<close>

definition ReleaseBodyStream :: "'r Reader \<Rightarrow> 'r bodyStream \<Rightarrow> (http_error option \<times> 'r \<times> 'r bodyStream) option" where
  "ReleaseBodyStream R rs = map_option (\<lambda>(e, rs'). (e, bs_reader rs', bs_reset rs')) (skipRest R rs)"

section \<open>Reading a chunked stream\<close>

lemma skipTrailer_none: "skipTrailer [] n = None" "skipTrailer [c] n = None" "skipTrailer (cr # lf # t) n = Some (n + 2)"
  by (simp_all add: skipTrailer.simps)

lemma tr_fields_none: "tr_fields (new_scanner (cr # lf # t) d) st =
    (fst st, snd st, \<lparr> sc_behind = crlf, sc_B = t, sc_beyond = [], sc_Key = [], sc_Value = [], sc_Err = None, sc_HLen = 2, sc_disableNormalizing = d,
       sc_nextColon = -1, sc_nextNewLine = -1, sc_initialized = True \<rparr>)"
  by (subst tr_fields.simps) (simp add: sc_Next_def Let_def new_scanner_def crlf_def)

lemma tr_fields_part: "tr_fields (new_scanner [cr] d) st =
    (fst st, snd st, (new_scanner [cr] d)\<lparr> sc_Err := Some ErrNeedMore, sc_nextColon := -1, sc_nextNewLine := -1, sc_initialized := True \<rparr>)"
  by (subst tr_fields.simps) (simp add: sc_Next_def Let_def new_scanner_def crlf_def find_colon_def sc_fail_def IndexByte_def)

lemma parseTrailer_none:
  "parseTrailer (cr # lf # t) tr = Some (Inr 2, tr, cr # lf # t)"
  "parseTrailer [cr] tr = Some (Inl ErrNeedMore, tr, [cr])"
  by (simp_all add: parseTrailer_def tr_fields_none tr_fields_part sc_array_def crlf_def) (simp add: new_scanner_def)

context reader_laws
begin

text \<open>One round over the end of a body without a trailer.\<close>

lemma end_buffered:
  assumes "ok r" "bytes r = crlf @ t" "1 \<le> n" "n \<le> length (bytes r)"
  shows "\<exists>b0 b r1 r2. Peek R n r = Some (b0, None, r1) \<and> b0 \<noteq> [] \<and> MustPeekBuffered R r1 = Some (b, r2) \<and> ok r2 \<and> bytes r2 = bytes r \<and>
    n \<le> Len R r2 \<and> final r2 = final r \<and> length b \<le> Len R r2 \<and> n \<le> length b \<and> b = take (length b) (bytes r)"
proof -
  obtain r1 where r1: "Peek R n r = Some (take n (bytes r), None, r1)" "ok r1" "bytes r1 = bytes r" "n \<le> Len R r1" "final r1 = final r"
    using Peek_has [OF assms(1,4)] by blast
  have "1 \<le> Len R r1" using r1(4) assms(3) by simp
  from peek_buffered [OF r1(2) this] obtain r2 where r2: "MustPeekBuffered R r1 = Some (take (Len R r1) (bytes r), r2)" "ok r2" "bytes r2 = bytes r"
      "Len R r1 \<le> Len R r2" "final r2 = final r" using r1(3,5) by auto
  have "Len R r1 \<le> length (bytes r)" using Len_le [OF r1(2)] r1(3) by simp
  then show ?thesis using r1 r2 assms(2-4) by (auto simp: crlf_def)
qed

lemma end_prefix: "b = take (length b) (crlf @ t) \<Longrightarrow> b \<noteq> [] \<Longrightarrow> b = [cr] \<or> (\<exists>t'. b = cr # lf # t')"
  by (cases b rule: list.exhaust) (auto simp: crlf_def take_Cons' split: if_splits nat.splits list.splits)

lemma SkipTrailer_none:
  "\<lbrakk> ok r; bytes r = crlf @ t; 1 \<le> n; n \<le> length (bytes r) \<rbrakk> \<Longrightarrow> \<exists>r'. SkipTrailer R n r = Some (None, r') \<and> ok r' \<and> bytes r' = t"
proof (induction "length (bytes r) - n" arbitrary: n r rule: less_induct)
  case less
  obtain b0 b r1 r2 where p: "Peek R n r = Some (b0, None, r1)" "b0 \<noteq> []" "MustPeekBuffered R r1 = Some (b, r2)" "ok r2" "bytes r2 = bytes r"
      "n \<le> Len R r2" "length b \<le> Len R r2" "n \<le> length b" "b = take (length b) (bytes r)" using end_buffered [OF less.prems] by blast
  have "b \<noteq> []" using p(8) less.prems(3) by auto
  then consider "b = [cr]" | t' where "b = cr # lf # t'" using end_prefix [of b t] p(9) less.prems(2) by auto
  then show ?case
  proof cases
    case 1
    let ?n = "if n = Len R r2 then n + 1 else Len R r2"
    have round: "trySkipTrailer R n r = Some (Some ErrNeedMore, r2)" using p(1-3) 1 by (simp add: trySkipTrailer_def skipTrailer_none HeaderError_def)
    have n1: "n = 1" using p(8) 1 less.prems(3) by simp
    have n: "n < ?n" "?n \<le> length (bytes r2)" using Len_le [OF p(4)] p(5,6) less.prems(2) n1 by (auto simp: crlf_def)
    have "length (bytes r2) - ?n < length (bytes r) - n" using n p(5) by simp
    from less.hyps [OF this p(4)] show ?thesis using p(5) n less.prems(2,3) round by (subst SkipTrailer.simps) auto
  next
    case 2
    have l: "2 \<le> Len R r2" using p(7) 2 by simp
    obtain r3 where "Skip R 2 r2 = Some (None, r3)" "ok r3" "bytes r3 = t" using Skip_has [OF p(4) l] p(5) less.prems(2) by (auto simp: crlf_def)
    then have "trySkipTrailer R n r = Some (None, r3)" using p(1-3) 2 by (simp add: trySkipTrailer_def skipTrailer_none MustDiscard_def numeral_2_eq_2)
    then show ?thesis using \<open>ok r3\<close> \<open>bytes r3 = t\<close> by (subst SkipTrailer.simps) auto
  qed
qed

lemma ReadTrailer_none:
  "\<lbrakk> ok r; bytes r = crlf @ t; 1 \<le> n; n \<le> length (bytes r) \<rbrakk> \<Longrightarrow> \<exists>r'. ReadTrailer R n tr r = Some (None, tr, r') \<and> ok r' \<and> bytes r' = t"
proof (induction "length (bytes r) - n" arbitrary: n r rule: less_induct)
  case less
  obtain b0 b r1 r2 where p: "Peek R n r = Some (b0, None, r1)" "b0 \<noteq> []" "MustPeekBuffered R r1 = Some (b, r2)" "ok r2" "bytes r2 = bytes r"
      "n \<le> Len R r2" "length b \<le> Len R r2" "n \<le> length b" "b = take (length b) (bytes r)" using end_buffered [OF less.prems] by blast
  have "b \<noteq> []" using p(8) less.prems(3) by auto
  then consider "b = [cr]" | t' where "b = cr # lf # t'" using end_prefix [of b t] p(9) less.prems(2) by auto
  then show ?case
  proof cases
    case 1
    let ?r = "poke R [cr] r2"
    have pk: "ok ?r" "Len R ?r = Len R r2" "bytes ?r = bytes r" using poke_cases [OF p(4), of "[cr]"] p(5,7) 1 less.prems(2) by (auto simp: crlf_def)
    let ?n = "if n = Len R ?r then n + 1 else Len R ?r"
    have round: "tryReadTrailer R n tr r = Some (Some ErrNeedMore, tr, ?r)"
      using p(1-3) 1 parseTrailer_none(2) [of tr] by (simp add: tryReadTrailer_def HeaderError_def)
    have n1: "n = 1" using p(8) 1 less.prems(3) by simp
    have n: "n < ?n" "?n \<le> length (bytes ?r)" using Len_le [OF pk(1)] pk(2,3) p(6) less.prems(2) n1 by (auto simp: crlf_def)
    have "length (bytes ?r) - ?n < length (bytes r) - n" using n pk(3) by simp
    from less.hyps [OF this pk(1)] show ?thesis using pk(3) n less.prems(2,3) round by (subst ReadTrailer.simps) auto
  next
    case 2
    have "drop 2 b = drop 2 (take (length b) (bytes r2))" using p(5,9) by simp
    from discard_poked [OF p(4,7) refl _ this] obtain r3 where r3: "MustDiscard R (poke R b r2) 2 = Some r3" "ok r3" "bytes r3 = t"
      using 2 p(5) less.prems(2) by (auto simp: crlf_def)
    then have "tryReadTrailer R n tr r = Some (None, tr, r3)" using p(1-3) 2 by (simp add: tryReadTrailer_def parseTrailer_none(1))
    then show ?thesis using r3(2,3) by (subst ReadTrailer.simps) auto
  qed
qed

end

text \<open>
  What a chunked stream still has to deliver: the rest \<open>y\<close> of the chunk that it is in, the chunks \<open>cs\<close> behind it, the last chunk, and the line end of a trailer
  without fields.
\<close>

definition chunked_text :: "string \<Rightarrow> string list \<Rightarrow> string \<Rightarrow> string" where
  "chunked_text y cs rest = (if y = [] then [] else y @ crlf) @ concat (map chunk_text cs) @ chunk_text [] @ crlf @ rest"

definition chunks_ok :: "string list \<Rightarrow> bool" where
  "chunks_ok cs \<longleftrightarrow> (\<forall>b \<in> set cs. b \<noteq> [] \<and> length b < 16 ^ 15)"

text \<open>Reads into slices of the given sizes, up to the first error.\<close>

fun stream_run :: "'r Reader \<Rightarrow> (nat \<Rightarrow> 'r \<Rightarrow> (string \<times> io_error option \<times> 'r) option) option \<Rightarrow> nat list \<Rightarrow> 'r bodyStream \<Rightarrow>
    (string \<times> http_error option \<times> 'r bodyStream) option" where
  "stream_run R f [] rs = Some ([], None, rs)"
| "stream_run R f (k # ks) rs =
     (case bs_Read R f k rs of
        None \<Rightarrow> None
      | Some (d, Some e, rs') \<Rightarrow> Some (d, Some e, rs')
      | Some (d, None, rs') \<Rightarrow> map_option (apfst ((@) d)) (stream_run R f ks rs'))"

context reader_laws
begin

definition stream_at :: "'r bodyStream \<Rightarrow> string \<Rightarrow> string list \<Rightarrow> string \<Rightarrow> bool" where
  "stream_at rs y cs rest \<longleftrightarrow> bs_contentLength rs = -1 \<and> \<not> bs_chunkEOF rs \<and> ok (bs_reader rs) \<and> bs_chunkLeft rs = length y \<and> chunks_ok cs \<and>
     bytes (bs_reader rs) = chunked_text y cs rest"

lemma chunk_text_size: "b \<noteq> [] \<Longrightarrow> chunk_text b = AppendIntHex [] (length b) @ replicate 0 (CHR '' '') @ crlf @ b @ crlf"
  by (simp add: chunk_text_def)

lemma next_chunk_data:
  assumes "stream_at rs y (b # cs) rest \<and> y = []"
  shows "\<exists>rs'. next_chunk R rs = Some (None, rs') \<and> stream_at rs' b cs rest"
proof -
  have b: "b \<noteq> []" "length b < 16 ^ 15" "ok (bs_reader rs)" "bs_chunkLeft rs = 0"
    "bytes (bs_reader rs) = AppendIntHex [] (length b) @ replicate 0 (CHR '' '') @ crlf @ b @ crlf @ concat (map chunk_text cs) @ chunk_text [] @ crlf @ rest"
    using assms by (auto simp: stream_at_def chunks_ok_def chunked_text_def chunk_text_size)
  obtain r1 where r1: "ParseChunkSize R (bs_reader rs) = Some (Inr (length b), r1)" "ok r1"
      "bytes r1 = b @ crlf @ concat (map chunk_text cs) @ chunk_text [] @ crlf @ rest" using ParseChunkSize_reads [OF b(3,2,5)] by blast
  obtain n where n: "length b = Suc n" using b(1) by (cases b) auto
  then have "next_chunk R rs = Some (None, rs\<lparr> bs_reader := r1, bs_chunkLeft := length b \<rparr>)" using r1(1) b(4) by (simp add: next_chunk_def)
  then show ?thesis using r1(2,3) b(1) assms by (auto simp: stream_at_def chunks_ok_def chunked_text_def)
qed

lemma next_chunk_end:
  assumes "stream_at rs [] [] rest"
  shows "\<exists>rs'. next_chunk R rs = Some (Some (NetError EOF), rs') \<and> bs_chunkEOF rs' \<and> bs_contentLength rs' = -1 \<and> ok (bs_reader rs') \<and> bytes (bs_reader rs') = rest"
proof -
  have b: "ok (bs_reader rs)" "bs_chunkLeft rs = 0" "bytes (bs_reader rs) = AppendIntHex [] 0 @ replicate 0 (CHR '' '') @ crlf @ crlf @ rest"
    using assms by (auto simp: stream_at_def chunked_text_def chunk_text_def)
  have "(0 :: nat) < 16 ^ 15" by simp
  from ParseChunkSize_reads [OF b(1) this b(3)] obtain r1 where r1: "ParseChunkSize R (bs_reader rs) = Some (Inr 0, r1)" "ok r1" "bytes r1 = crlf @ rest" by blast
  have "1 \<le> length (bytes r1)" using r1(3) by (simp add: crlf_def)
  from ReadTrailer_none [OF r1(2,3) order_refl this] obtain r2 where "ReadTrailer R 1 (bs_trailer rs) r1 = Some (None, bs_trailer rs, r2)" "ok r2" "bytes r2 = rest"
    by blast
  then show ?thesis using r1(1) b(2) assms by (simp add: next_chunk_def Let_def stream_at_def)
qed

lemma SkipCRLF_reads:
  assumes "ok r" "bytes r = crlf @ t"
  shows "\<exists>r'. SkipCRLF R r = Some (None, r') \<and> ok r' \<and> bytes r' = t"
proof -
  have l: "length crlf \<le> length (bytes r)" using assms(2) by simp
  obtain r1 where r1: "Peek R (length crlf) r = Some (crlf, None, r1)" "ok r1" "bytes r1 = bytes r" "length crlf \<le> Len R r1"
    using Peek_has [OF assms(1) l] assms(2) by auto
  show ?thesis using Skip_has [OF r1(2,4)] r1 assms(2) by (auto simp: SkipCRLF_def)
qed

text \<open>A read inside a chunk delivers its next bytes, and passes the line end of the chunk when they are the last.\<close>

lemma read_in_chunk:
  assumes st: "stream_at rs y cs rest" and y: "y \<noteq> []" and k: "0 < k" and nx: "next_chunk R rs0 = Some (None, rs)" "\<not> bs_chunkEOF rs0"
  shows "\<exists>rs'. read_chunked R k rs0 = Some (take k y, None, rs') \<and> stream_at rs' (drop k y) cs rest"
proof -
  let ?t = "concat (map chunk_text cs) @ chunk_text [] @ crlf @ rest" and ?n = "min k (length y)"
  have s: "ok (bs_reader rs)" "bytes (bs_reader rs) = y @ crlf @ ?t" "bs_chunkLeft rs = length y" "chunks_ok cs" "bs_contentLength rs = -1" "\<not> bs_chunkEOF rs"
    using st y by (auto simp: stream_at_def chunked_text_def)
  have l: "?n \<le> length (bytes (bs_reader rs))" using s(2) by simp
  have tk: "take ?n (y @ crlf @ ?t) = take k y" by (simp add: min_def)
  obtain r1 where r1: "Peek R ?n (bs_reader rs) = Some (take k y, None, r1)" "ok r1" "bytes r1 = y @ crlf @ ?t" "?n \<le> Len R r1"
    using Peek_has [OF s(1) l] s(2) tk by auto
  have len: "length (take k y) = ?n" by simp
  obtain r2 where r2: "Skip R ?n r1 = Some (None, r2)" "ok r2" "bytes r2 = drop k y @ crlf @ ?t"
    using Skip_has [OF r1(2,4)] r1(3) by (auto simp: min_def split: if_splits)
  let ?rs = "rs\<lparr> bs_reader := r2, bs_chunkLeft := length y - ?n \<rparr>"
  have run: "read_chunked R k rs0 = (if length y - ?n = 0
      then map_option (\<lambda>(e, r3). (take k y, if e = Some (NetError EOF) then Some (NetError UnexpectedEOF) else e, ?rs\<lparr> bs_reader := r3 \<rparr>)) (SkipCRLF R r2)
      else Some (take k y, None, ?rs))"
    using nx r1(1) r2(1) s(3) len by (simp add: read_chunked_def Let_def)
  show ?thesis
  proof (cases "length y \<le> k")
    case True
    then obtain r3 where "SkipCRLF R r2 = Some (None, r3)" "ok r3" "bytes r3 = ?t" using SkipCRLF_reads [OF r2(2)] r2(3) by auto
    then show ?thesis using run True s by (simp add: stream_at_def chunked_text_def)
  next
    case False
    then have "length y - ?n \<noteq> 0" "drop k y \<noteq> []" by auto
    then show ?thesis using run False s r2 by (simp add: stream_at_def chunked_text_def)
  qed
qed

lemma released_at: "stream_at rs y cs rest \<Longrightarrow> stream_at (set_reader R (bs_reader rs) rs) y cs rest"
  using Release_same [of "bs_reader rs"] by (auto simp: stream_at_def set_reader_def)

lemma stream_read_data:
  assumes "stream_at rs y cs rest" "0 < k" "y @ concat cs \<noteq> []"
  shows "\<exists>d y' cs' rs'. bs_Read R f k rs = Some (d, None, rs') \<and> d \<noteq> [] \<and> stream_at rs' y' cs' rest \<and> y @ concat cs = d @ y' @ concat cs'"
proof -
  have cl: "bs_contentLength rs = -1" "\<not> bs_chunkEOF rs" using assms(1) by (auto simp: stream_at_def)
  obtain z cs1 rs1 where z: "next_chunk R rs = Some (None, rs1)" "stream_at rs1 z cs1 rest" "z \<noteq> []" "y @ concat cs = z @ concat cs1"
  proof (cases "y = []")
    case False
    then have "next_chunk R rs = Some (None, rs)" using assms(1) by (simp add: next_chunk_def stream_at_def)
    then show ?thesis using that [of rs y cs] assms(1) False by simp
  next
    case True
    then obtain b cs1 where cs: "cs = b # cs1" using assms(3) by (cases cs) auto
    have "b \<noteq> []" using assms(1) cs by (auto simp: stream_at_def chunks_ok_def)
    then show ?thesis using next_chunk_data [of rs y b cs1 rest] that [of _ b cs1] assms(1) cs True by auto
  qed
  obtain rs2 where rs2: "read_chunked R k rs = Some (take k z, None, rs2)" "stream_at rs2 (drop k z) cs1 rest"
    using read_in_chunk [OF z(2,3) assms(2) z(1) cl(2)] by blast
  have "bs_Read R f k rs = Some (take k z, None, set_reader R (bs_reader rs2) rs2)" using rs2(1) cl(1) by (simp add: bs_Read_def)
  moreover have "take k z \<noteq> []" using z(3) assms(2) by simp
  moreover have "y @ concat cs = take k z @ drop k z @ concat cs1" using z(4) by (metis append.assoc append_take_drop_id)
  ultimately show ?thesis using released_at [OF rs2(2)] by blast
qed

lemma stream_read_end:
  assumes "stream_at rs [] [] rest"
  shows "\<exists>rs'. bs_Read R f k rs = Some ([], Some (NetError EOF), rs') \<and> bytes (bs_reader rs') = rest"
proof -
  obtain rs1 where rs1: "next_chunk R rs = Some (Some (NetError EOF), rs1)" "ok (bs_reader rs1)" "bytes (bs_reader rs1) = rest"
    using next_chunk_end [OF assms] by blast
  then have "bs_Read R f k rs = Some ([], Some (NetError EOF), set_reader R (bs_reader rs1) rs1)"
    using assms by (simp add: bs_Read_def read_chunked_def stream_at_def)
  then show ?thesis using Release_same [OF rs1(2)] rs1(3) by (simp add: set_reader_def)
qed

lemma stream_run_reads:
  "\<lbrakk> stream_at rs y cs rest; \<forall>k \<in> set ks. 0 < k; length (y @ concat cs) < length ks \<rbrakk> \<Longrightarrow>
   \<exists>rs'. stream_run R f ks rs = Some (y @ concat cs, Some (NetError EOF), rs') \<and> bytes (bs_reader rs') = rest"
proof (induction ks arbitrary: rs y cs)
  case (Cons k ks)
  show ?case
  proof (cases "y @ concat cs = []")
    case True
    then have "cs = []" using Cons.prems(1) by (cases cs) (auto simp: stream_at_def chunks_ok_def)
    then show ?thesis using stream_read_end [of rs rest f k] Cons.prems(1) True by auto
  next
    case False
    have "0 < k" using Cons.prems(2) by simp
    from stream_read_data [OF Cons.prems(1) this False, of f] obtain d y' cs' rs'
      where d: "bs_Read R f k rs = Some (d, None, rs')" "d \<noteq> []" "stream_at rs' y' cs' rest" "y @ concat cs = d @ y' @ concat cs'" by blast
    have "length (y' @ concat cs') < length ks" using Cons.prems(3) d(2,4) by (cases d) auto
    from Cons.IH [OF d(3) _ this] show ?thesis using Cons.prems(2) d(1,4) by auto
  qed
qed simp

text \<open>Skipping the rest of a stream that stands inside a chunk takes the bytes there for the size of a chunk.\<close>

lemma skip_reads_data:
  assumes "ok (bs_reader rs)" "bs_contentLength rs = -1" "\<not> bs_chunkEOF rs" "bs_prefetched rs \<noteq> None"
    and "bytes (bs_reader rs) = ''0'' @ crlf @ crlf @ rest"
  shows "\<exists>r rs'. ReleaseBodyStream R rs = Some (None, r, rs') \<and> bytes r = rest"
proof -
  have "bytes (bs_reader rs) = AppendIntHex [] 0 @ replicate 0 (CHR '' '') @ crlf @ crlf @ rest" using assms(5) by (simp add: AppendIntHex_def)
  moreover have "(0 :: nat) < 16 ^ 15" by simp
  ultimately obtain r1 where r1: "ParseChunkSize R (bs_reader rs) = Some (Inr 0, r1)" "ok r1" "bytes r1 = crlf @ rest"
    using ParseChunkSize_reads [OF assms(1)] by blast
  have "1 \<le> length (bytes r1)" using r1(3) by (simp add: crlf_def)
  from SkipTrailer_none [OF r1(2,3) order_refl this] obtain r2 where r2: "SkipTrailer R 1 r1 = Some (None, r2)" "bytes r2 = rest" by blast
  have "skip_chunks R (bs_reader rs) = Some (None, True, r2)" using r1(1) r2(1) by (subst skip_chunks.simps) simp
  then show ?thesis using assms(2-4) r2(2) by (auto simp: ReleaseBodyStream_def skipRest_def)
qed

end

section \<open>Properties\<close>

text \<open>
  C19: a handler that reads a chunked body to its end gets the body. On a connection that receives the chunks, the last one and an empty trailer, followed by any
  other bytes, in pieces of any size, reads into slices of any sizes deliver the bytes of the body in their order and then the end of the body, after at most one read
  for each byte; and the connection is left with exactly what follows the body.
\<close>

theorem stream_delivers_body:
  assumes "\<And>n. n \<le> length (alloc n)" and "\<forall>b \<in> set cs. b \<noteq> [] \<and> length b < 16 ^ 15" and "\<forall>k \<in> set ks. 0 < k" and "length (concat cs) < length ks"
    and "sock_bytes sock = concat (map chunk_text cs) @ chunk_text [] @ crlf @ rest"
  shows "\<exists>rs. stream_run (conn_reader alloc) (Some (cn_Read alloc)) ks (AcquireBodyStream [] (newConn alloc sock w n) t (-1)) =
      Some (concat cs, Some (NetError EOF), rs) \<and> stream_bytes (bs_reader rs) = rest"
proof -
  have "conn.stream_at alloc (AcquireBodyStream [] (newConn alloc sock w n) t (-1)) [] cs rest"
    unfolding conn.stream_at_def using assms(1,2,5) by (simp add: AcquireBodyStream_def newConn_ok alloc_ok_def chunks_ok_def chunked_text_def)
  from conn.stream_run_reads [OF this assms(3), of "Some (cn_Read alloc)"] show ?thesis using assms(4) by simp
qed

theorem stream_delivers_body_witness:
  "\<exists>rs. stream_run (conn_reader (\<lambda>n. replicate n CHR ''?'')) (Some (cn_Read (\<lambda>n. replicate n CHR ''?''))) (replicate 12 4)
      (AcquireBodyStream [] (newConn (\<lambda>n. replicate n CHR ''?'')
         [(chunk_text ''hello '', None), (chunk_text ''world'' @ chunk_text [], None), (crlf @ ''GET /'', None)] [] 0) new_trailer (-1)) =
      Some (''hello world'', Some (NetError EOF), rs) \<and> stream_bytes (bs_reader rs) = ''GET /''"
proof -
  let ?alloc = "\<lambda>n. replicate n CHR ''?''"
  have "\<exists>rs. stream_run (conn_reader ?alloc) (Some (cn_Read ?alloc)) (replicate 12 4)
      (AcquireBodyStream [] (newConn ?alloc
         [(chunk_text ''hello '', None), (chunk_text ''world'' @ chunk_text [], None), (crlf @ ''GET /'', None)] [] 0) new_trailer (-1)) =
      Some (concat [''hello '', ''world''], Some (NetError EOF), rs) \<and> stream_bytes (bs_reader rs) = ''GET /''"
    by (rule stream_delivers_body) simp_all
  then show ?thesis by simp
qed

text \<open>
  C20: a body that a handler leaves in the middle of a chunk can smuggle a request. When the stream stands inside a chunk whose next bytes are a zero and two line
  ends, releasing the stream succeeds, and the connection goes on with the bytes behind them, which are still bytes of the body: the server
  takes them for the next request. This holds for any position in the chunk and whatever the bytes are.
\<close>

theorem partly_read_chunk_smuggles:
  assumes "\<And>n. n \<le> length (alloc n)" and "input_ok (bs_reader rs)" and "bs_contentLength rs = -1" and "\<not> bs_chunkEOF rs" and "bs_prefetched rs \<noteq> None"
    and "bs_chunkLeft rs = length (''0'' @ crlf @ crlf @ evil)" and "stream_bytes (bs_reader rs) = (''0'' @ crlf @ crlf @ evil) @ crlf @ rest"
  shows "\<exists>c rs'. ReleaseBodyStream (conn_reader alloc) rs = Some (None, c, rs') \<and> stream_bytes c = evil @ crlf @ rest"
  using conn.skip_reads_data [of alloc rs "evil @ crlf @ rest"] assms by (auto simp: alloc_ok_def)

text \<open>A stream that has delivered the first four bytes of a chunk of twenty-two.\<close>

definition ex_stream :: "Conn bodyStream" where
  "ex_stream = (AcquireBodyStream [] (conn_holding (''0'' @ crlf @ crlf @ ''DELETE /x HTT'' @ crlf @ ''0'' @ crlf @ crlf)) new_trailer (-1))\<lparr> bs_chunkLeft := 18 \<rparr>"

theorem partly_read_chunk_smuggles_witness:
  "\<exists>c rs'. ReleaseBodyStream (conn_reader (\<lambda>n. replicate n CHR ''?'')) ex_stream = Some (None, c, rs') \<and>
     stream_bytes c = ''DELETE /x HTT'' @ crlf @ ''0'' @ crlf @ crlf"
  by (rule partly_read_chunk_smuggles)
    (simp_all add: ex_stream_def AcquireBodyStream_def conn_holding_def input_ok_def nd_ok_def nd_cap_def cn_Len_def buffered_bytes_def from_read_def
      nd_data_def nd_slice_def nd_Len_def stream_bytes_def crlf_def)

text \<open>
  A read of a body of known length that goes on from the part that was read ahead to the connection does not stop at the end of the body, when the reader
  is a connection: the bytes of the next request are delivered as bytes of the body.
\<close>

lemma stream_reads_beyond_body:
  "map_option (\<lambda>(d, e, rs). (d, e, stream_bytes (bs_reader rs)))
     (bs_Read (conn_reader (\<lambda>n. replicate n CHR ''?'')) (Some (cn_Read (\<lambda>n. replicate n CHR ''?''))) 20
        (AcquireBodyStream ''he'' (conn_holding ''lloGET /next'') new_trailer 5)) = Some (''helloGET /next'', None, [])"
  by code_simp

end
