(* ===== verification/Http2_Sched.thy ===== *)
theory Http2_Sched
  imports Go_Numbers "HOL-Library.Word"
begin

text \<open>
  \<^verbatim>\<open>web/protocol/http2\<close>: flow control windows (\<^verbatim>\<open>flow.go\<close>), frame write requests and their queues
  (\<^verbatim>\<open>writesched.go\<close>) and the write scheduler (\<^verbatim>\<open>writesched_random.go\<close>). The flow of a stream points to the flow of its
  connection, which all streams share, so flows live in a store. An int32 is an \<open>int\<close> with its wrap-around.
  A panic is \<open>None\<close>. The order in which Go ranges over the map of queues is an argument of \<open>Pop\<close>.
\<close>

type_synonym byte = "8 word"

section \<open>Windows\<close>

record flow =
  fl_n :: int
  fl_conn :: ptr

type_synonym flows = "addr \<Rightarrow> flow"

definition setConnFlow :: "addr \<Rightarrow> addr \<Rightarrow> flows \<Rightarrow> flows" where
  "setConnFlow f cf fs = fs(f := (fs f)\<lparr> fl_conn := Some cf \<rparr>)"

definition available :: "addr \<Rightarrow> flows \<Rightarrow> int" where
  "available f fs =
     (let n = fl_n (fs f) in
      case fl_conn (fs f) of
        None \<Rightarrow> n
      | Some c \<Rightarrow> if fl_n (fs c) < n then fl_n (fs c) else n)"

definition sub_window :: "int \<Rightarrow> addr \<Rightarrow> flows \<Rightarrow> flows" where
  "sub_window n f fs = fs(f := (fs f)\<lparr> fl_n := wrap32 (fl_n (fs f) - n) \<rparr>)"

definition flow_take :: "addr \<Rightarrow> int \<Rightarrow> flows \<Rightarrow> flows option" where
  "flow_take f n fs =
     (if n > available f fs then None
      else let fs1 = sub_window n f fs in
           Some (case fl_conn (fs1 f) of None \<Rightarrow> fs1 | Some c \<Rightarrow> sub_window n c fs1))"

definition flow_add :: "addr \<Rightarrow> int \<Rightarrow> flows \<Rightarrow> bool \<times> flows" where
  "flow_add f n fs =
     (let sum = wrap32 (fl_n (fs f) + n) in
      if (sum > n) = (fl_n (fs f) > 0) then (True, fs(f := (fs f)\<lparr> fl_n := sum \<rparr>)) else (False, fs))"

section \<open>Write requests\<close>

text \<open>
  The values of the interface \<open>writeFramer\<close> (\<^verbatim>\<open>write.go\<close>) that the server uses. The fields of a response header
  other than its stream and its end flag, and the ids of settings, play no part in scheduling and are left out.
\<close>

datatype write_framer =
    WriteData nat "byte list" bool
  | WriteStreamError nat "32 word"
  | WriteResHeaders nat bool
  | WriteHandlerPanicRST nat
  | Write100Continue nat
  | WriteWindowUpd nat int
  | WritePingAckFrame "byte list"
  | WriteSettingsList nat
  | WriteAckSettings
  | WriteGoAwayTo nat "32 word"
  | FlushFrameWriter

record stream_ref =
  st_id :: nat
  st_flow :: addr

record write_req =
  wr_write :: "write_framer option"
  wr_stream :: "stream_ref option"
  wr_done :: "nat option"

definition empty_req :: write_req where
  "empty_req = \<lparr> wr_write = None, wr_stream = None, wr_done = None \<rparr>"

definition StreamID :: "write_req \<Rightarrow> nat" where
  "StreamID wr =
     (case wr_stream wr of
        None \<Rightarrow> (case wr_write wr of Some (WriteStreamError i code) \<Rightarrow> i | _ \<Rightarrow> 0)
      | Some s \<Rightarrow> st_id s)"

definition isControl :: "write_req \<Rightarrow> bool" where
  "isControl wr \<longleftrightarrow> wr_stream wr = None"

definition DataSize :: "write_req \<Rightarrow> nat" where
  "DataSize wr = (case wr_write wr of Some (WriteData i p es) \<Rightarrow> length p | _ \<Rightarrow> 0)"

definition allowed_bytes :: "int \<Rightarrow> int \<Rightarrow> addr \<Rightarrow> flows \<Rightarrow> int" where
  "allowed_bytes maxFrameSize n f fs =
     (let a = available f fs;
          a1 = (if n < a then n else a)
      in if maxFrameSize < a1 then maxFrameSize else a1)"

text \<open>The result of \<open>Consume\<close>: the consumed request, the rest, their number, and the windows.\<close>

definition Consume :: "int \<Rightarrow> write_req \<Rightarrow> int \<Rightarrow> flows \<Rightarrow> (write_req \<times> write_req \<times> nat \<times> flows) option" where
  "Consume maxFrameSize wr n fs =
     (case wr_write wr of
        Some (WriteData i p es) \<Rightarrow>
          if length p = 0 then Some (wr, empty_req, 1, fs)
          else
            (case wr_stream wr of
               None \<Rightarrow> None
             | Some s \<Rightarrow>
                 let allowed = allowed_bytes maxFrameSize n (st_flow s) fs in
                 if allowed \<le> 0 then Some (empty_req, empty_req, 0, fs)
                 else if int (length p) > allowed then
                   map_option (\<lambda>fs1.
                     (\<lparr> wr_write = Some (WriteData i (take (nat allowed) p) False), wr_stream = Some s, wr_done = None \<rparr>,
                      \<lparr> wr_write = Some (WriteData i (drop (nat allowed) p) es), wr_stream = Some s, wr_done = wr_done wr \<rparr>,
                      2, fs1)) (flow_take (st_flow s) allowed fs)
                 else map_option (\<lambda>fs1. (wr, empty_req, 1, fs1)) (flow_take (st_flow s) (int (length p)) fs))
      | _ \<Rightarrow> Some (wr, empty_req, 1, fs))"

section \<open>Queues\<close>

type_synonym write_queue = "write_req list"

definition wq_push :: "write_req \<Rightarrow> write_queue \<Rightarrow> write_queue" where
  "wq_push wr q = q @ [wr]"

definition wq_shift :: "write_queue \<Rightarrow> (write_req \<times> write_queue) option" where
  "wq_shift q = (case q of [] \<Rightarrow> None | wr # q1 \<Rightarrow> Some (wr, q1))"

text \<open>\<open>None\<close> in the second component is the result \<open>false\<close> of the source.\<close>

definition wq_consume :: "int \<Rightarrow> int \<Rightarrow> write_queue \<Rightarrow> flows \<Rightarrow> (write_req option \<times> write_queue \<times> flows) option" where
  "wq_consume maxFrameSize n q fs =
     (case q of
        [] \<Rightarrow> Some (None, q, fs)
      | wr # q1 \<Rightarrow>
          (case Consume maxFrameSize wr n fs of
             None \<Rightarrow> None
           | Some (consumed, rest, numresult, fs1) \<Rightarrow>
               if numresult = 0 then Some (None, q, fs1)
               else if numresult = 1 then map_option (\<lambda>(_, q2). (Some consumed, q2, fs1)) (wq_shift q)
               else Some (Some consumed, rest # q1, fs1)))"

definition pool_put :: "write_queue \<Rightarrow> write_queue list \<Rightarrow> write_queue list" where
  "pool_put q p = p @ [take 0 (map (\<lambda>_. empty_req) q)]"

definition pool_get :: "write_queue list \<Rightarrow> write_queue \<times> write_queue list" where
  "pool_get p = (if p = [] then ([], p) else (last p, butlast p))"

section \<open>The scheduler\<close>

record write_sched =
  ws_zero :: write_queue
  ws_sq :: "(nat, write_queue) gomap"
  ws_pool :: "write_queue list"

definition NewRandomWriteScheduler :: write_sched where
  "NewRandomWriteScheduler = \<lparr> ws_zero = [], ws_sq = [], ws_pool = [] \<rparr>"

definition CloseStream :: "nat \<Rightarrow> write_sched \<Rightarrow> write_sched" where
  "CloseStream streamID ws =
     (case gm_get (ws_sq ws) streamID of
        None \<Rightarrow> ws
      | Some q \<Rightarrow> ws\<lparr> ws_sq := gm_del streamID (ws_sq ws), ws_pool := pool_put q (ws_pool ws) \<rparr>)"

definition ws_Push :: "write_req \<Rightarrow> write_sched \<Rightarrow> write_sched" where
  "ws_Push wr ws =
     (let i = StreamID wr in
      if i = 0 then ws\<lparr> ws_zero := wq_push wr (ws_zero ws) \<rparr>
      else case gm_get (ws_sq ws) i of
             Some q \<Rightarrow> ws\<lparr> ws_sq := gm_put i (wq_push wr q) (ws_sq ws) \<rparr>
           | None \<Rightarrow>
               let (q, pool) = pool_get (ws_pool ws)
               in ws\<lparr> ws_sq := gm_put i (wq_push wr q) (ws_sq ws), ws_pool := pool \<rparr>)"

text \<open>\<open>order\<close> is the order in which the loop visits the streams.\<close>

fun pop_loop :: "int \<Rightarrow> nat list \<Rightarrow> write_sched \<Rightarrow> flows \<Rightarrow> (write_req option \<times> write_sched \<times> flows) option" where
  "pop_loop maxFrameSize [] ws fs = Some (None, ws, fs)"
| "pop_loop maxFrameSize (i # order) ws fs =
     (case gm_get (ws_sq ws) i of
        None \<Rightarrow> pop_loop maxFrameSize order ws fs
      | Some q \<Rightarrow>
          (case wq_consume maxFrameSize 2147483647 q fs of
             None \<Rightarrow> None
           | Some (None, q1, fs1) \<Rightarrow> pop_loop maxFrameSize order (ws\<lparr> ws_sq := gm_put i q1 (ws_sq ws) \<rparr>) fs1
           | Some (Some wr, q1, fs1) \<Rightarrow>
               Some (Some wr,
                 if q1 = [] then ws\<lparr> ws_sq := gm_del i (ws_sq ws), ws_pool := pool_put q1 (ws_pool ws) \<rparr>
                 else ws\<lparr> ws_sq := gm_put i q1 (ws_sq ws) \<rparr>,
                 fs1)))"

definition ws_Pop :: "int \<Rightarrow> nat list \<Rightarrow> write_sched \<Rightarrow> flows \<Rightarrow> (write_req option \<times> write_sched \<times> flows) option" where
  "ws_Pop maxFrameSize order ws fs =
     (if ws_zero ws \<noteq> [] then map_option (\<lambda>(wr, z). (Some wr, ws\<lparr> ws_zero := z \<rparr>, fs)) (wq_shift (ws_zero ws))
      else pop_loop maxFrameSize order ws fs)"

section \<open>Windows do not overflow\<close>

definition int32 :: "int \<Rightarrow> bool" where
  "int32 x \<longleftrightarrow> - 2147483648 \<le> x \<and> x < 2147483648"

definition windows_ok :: "flows \<Rightarrow> bool" where
  "windows_ok fs \<longleftrightarrow> (\<forall>f. int32 (fl_n (fs f)) \<and> fl_conn (fs f) \<noteq> Some f)"

lemma wrap32_cases:
  assumes "- 4294967296 \<le> x" "x < 4294967296"
  shows "wrap32 x = (if x < - 2147483648 then x + 4294967296 else if x < 2147483648 then x else x - 4294967296)"
proof -
  have "wrap32 x = (x + 2147483648) mod 4294967296 - 2147483648" by (simp add: wrap_at_def)
  moreover have "x < - 2147483648 \<Longrightarrow> (x + 2147483648) mod 4294967296 = x + 6442450944"
    using assms by (intro int_mod_pos_eq [where q = "- 1"]) simp_all
  moreover have "\<not> x < 2147483648 \<Longrightarrow> (x + 2147483648) mod 4294967296 = x - 2147483648"
    using assms by (intro int_mod_pos_eq [where q = 1]) simp_all
  ultimately show ?thesis by auto
qed

lemma flow_add_cases:
  assumes "windows_ok fs" "int32 n"
  shows "flow_add f n fs =
     (if int32 (fl_n (fs f) + n) then (True, fs(f := (fs f)\<lparr> fl_n := fl_n (fs f) + n \<rparr>)) else (False, fs))"
proof -
  have r: "int32 (fl_n (fs f))" using assms(1) by (simp add: windows_ok_def)
  have "wrap32 (fl_n (fs f) + n) = (let x = fl_n (fs f) + n in
      if x < - 2147483648 then x + 4294967296 else if x < 2147483648 then x else x - 4294967296)"
    using r assms(2) unfolding int32_def Let_def by (intro wrap32_cases) auto
  then show ?thesis using r assms(2) by (auto simp: flow_add_def int32_def Let_def)
qed

text \<open>\<open>charge n f fs\<close>: the window of a stream and that of its connection, less \<open>n\<close>.\<close>

definition charge :: "int \<Rightarrow> addr \<Rightarrow> flows \<Rightarrow> flows" where
  "charge n f fs = (\<lambda>g. if g = f \<or> fl_conn (fs f) = Some g then (fs g)\<lparr> fl_n := fl_n (fs g) - n \<rparr> else fs g)"

lemma available_le: "available f fs \<le> fl_n (fs f)" "fl_conn (fs f) = Some c \<Longrightarrow> available f fs \<le> fl_n (fs c)"
  by (auto simp: available_def Let_def split: option.splits)

lemma charge_ok:
  assumes "windows_ok fs" "0 \<le> n" "n \<le> available f fs"
  shows "windows_ok (charge n f fs)"
proof -
  have "int32 (fl_n (fs g)) \<Longrightarrow> available f fs \<le> fl_n (fs g) \<Longrightarrow> int32 (fl_n (fs g) - n)" for g
    using assms(2,3) by (simp add: int32_def)
  then show ?thesis using assms(1) available_le(1) [of f fs] available_le(2) [of fs f] by (auto simp: windows_ok_def charge_def)
qed

lemma flow_take_charges:
  assumes "windows_ok fs" "0 \<le> n" "n \<le> available f fs"
  shows "flow_take f n fs = Some (charge n f fs)"
proof -
  have w: "wrap32 (fl_n (fs g) - n) = fl_n (fs g) - n" if "available f fs \<le> fl_n (fs g)" for g
  proof (rule wrap32_id)
    have "int32 (fl_n (fs g))" using assms(1) by (simp add: windows_ok_def)
    then show "- 2147483648 \<le> fl_n (fs g) - n" "fl_n (fs g) - n < 2147483648" using assms(2,3) that by (simp_all add: int32_def)
  qed
  have "fl_conn (fs f) \<noteq> Some f" using assms(1) by (simp add: windows_ok_def)
  then show ?thesis
    using assms(3) w available_le(1) [of f fs] available_le(2) [of fs f]
    by (auto simp: flow_take_def sub_window_def charge_def Let_def fun_eq_iff split: option.splits)
qed

section \<open>What one Consume does\<close>

datatype sched_unit = UByte byte | UEnd bool "nat option" | UFrame write_req

definition units :: "write_req \<Rightarrow> sched_unit list" where
  "units wr =
     (case wr_write wr of
        Some (WriteData i p es) \<Rightarrow>
          if p = [] then [UFrame wr] else map UByte p @ (if es \<or> wr_done wr \<noteq> None then [UEnd es (wr_done wr)] else [])
      | _ \<Rightarrow> [UFrame wr])"

definition queue_units :: "write_queue \<Rightarrow> sched_unit list" where
  "queue_units q = concat (map units q)"

lemma queue_units_simps [simp]: "queue_units [] = []" "queue_units (wr # q) = units wr @ queue_units q"
  "queue_units (q @ r) = queue_units q @ queue_units r"
  by (simp_all add: queue_units_def)

definition wr_ok :: "write_req \<Rightarrow> bool" where
  "wr_ok wr \<longleftrightarrow> (DataSize wr > 0 \<longrightarrow> (case wr_stream wr of None \<Rightarrow> False | Some s \<Rightarrow> st_id s \<noteq> 0))"

definition flow_of :: "write_req \<Rightarrow> addr" where
  "flow_of wr = (case wr_stream wr of None \<Rightarrow> 0 | Some s \<Rightarrow> st_flow s)"

definition spend :: "write_req \<Rightarrow> flows \<Rightarrow> flows" where
  "spend wr fs = (if DataSize wr > 0 then charge (int (DataSize wr)) (flow_of wr) fs else fs)"

definition blocked :: "int \<Rightarrow> flows \<Rightarrow> write_req \<Rightarrow> bool" where
  "blocked maxFrameSize fs wr \<longleftrightarrow> DataSize wr > 0 \<and> (available (flow_of wr) fs \<le> 0 \<or> maxFrameSize \<le> 0)"

text \<open>A frame that \<open>c\<close> was cut from the front of: same stream, and no more bytes than the limits allow.\<close>

definition cut_ok :: "int \<Rightarrow> flows \<Rightarrow> write_req \<Rightarrow> write_req \<Rightarrow> bool" where
  "cut_ok maxFrameSize fs wr c \<longleftrightarrow> StreamID c = StreamID wr \<and> wr_ok c \<and>
     (DataSize c > 0 \<longrightarrow> int (DataSize c) \<le> available (flow_of c) fs \<and> int (DataSize c) \<le> maxFrameSize \<and> wr_stream c = wr_stream wr)"

lemma wq_consume_nonempty:
  assumes ok: "wr_ok wr" and w: "windows_ok fs"
  shows "blocked maxFrameSize fs wr \<and> wq_consume maxFrameSize 2147483647 (wr # q) fs = Some (None, wr # q, fs) \<or>
    \<not> blocked maxFrameSize fs wr \<and>
    (\<exists>c q1. wq_consume maxFrameSize 2147483647 (wr # q) fs = Some (Some c, q1, spend c fs) \<and> cut_ok maxFrameSize fs wr c \<and>
       units c @ queue_units q1 = queue_units (wr # q) \<and> windows_ok (spend c fs) \<and>
       (q1 = q \<or> (\<exists>r. q1 = r # q \<and> wr_ok r \<and> StreamID r = StreamID wr)))"
proof (cases "DataSize wr = 0")
  case True
  then have "Consume maxFrameSize wr 2147483647 fs = Some (wr, empty_req, 1, fs)"
    by (auto simp: Consume_def DataSize_def split: option.splits write_framer.splits)
  then show ?thesis
    using True ok w by (auto simp: wq_consume_def wq_shift_def spend_def blocked_def cut_ok_def)
next
  case False
  then obtain i p es where d: "wr_write wr = Some (WriteData i p es)" "p \<noteq> []"
    by (auto simp: DataSize_def split: option.splits write_framer.splits)
  obtain s where st: "wr_stream wr = Some s" "st_id s \<noteq> 0" using ok False by (auto simp: wr_ok_def split: option.splits)
  have size: "DataSize wr = length p" "flow_of wr = st_flow s" using d st by (auto simp: DataSize_def flow_of_def)
  define a where "a = allowed_bytes maxFrameSize 2147483647 (st_flow s) fs"
  have av: "available (st_flow s) fs < 2147483648"
    using available_le(1) [of "st_flow s" fs] w by (metis int32_def order_le_less_trans windows_ok_def)
  then have a: "a = min maxFrameSize (available (st_flow s) fs)" by (auto simp: a_def allowed_bytes_def Let_def)
  have le: "a \<le> available (st_flow s) fs" using a by simp
  consider "a \<le> 0" | "0 < a" "int (length p) > a" | "0 < a" "int (length p) \<le> a" by linarith
  then show ?thesis
  proof cases
    case 1
    then have "Consume maxFrameSize wr 2147483647 fs = Some (empty_req, empty_req, 0, fs)"
      using d st by (simp add: Consume_def a_def [symmetric] Let_def)
    then show ?thesis using 1 size d a by (auto simp: wq_consume_def blocked_def)
  next
    case 2
    let ?c = "\<lparr> wr_write = Some (WriteData i (take (nat a) p) False), wr_stream = Some s, wr_done = None \<rparr>"
    let ?r = "\<lparr> wr_write = Some (WriteData i (drop (nat a) p) es), wr_stream = Some s, wr_done = wr_done wr \<rparr>"
    have sz: "int (DataSize ?c) = a" "flow_of ?c = st_flow s" using 2 by (auto simp: DataSize_def flow_of_def)
    have "Consume maxFrameSize wr 2147483647 fs = Some (?c, ?r, 2, charge a (st_flow s) fs)"
      using 2 d st le flow_take_charges [OF w, of a "st_flow s"] by (simp add: Consume_def a_def [symmetric] Let_def)
    moreover have sp: "spend ?c fs = charge a (st_flow s) fs" using sz 2 by (simp add: spend_def)
    moreover have "windows_ok (charge a (st_flow s) fs)" using charge_ok [OF w] 2 a by simp
    moreover have "units ?c @ units ?r = units wr"
    proof -
      have "take (nat a) p \<noteq> []" "drop (nat a) p \<noteq> []" "map UByte (take (nat a) p) @ map UByte (drop (nat a) p) = map UByte p"
        using 2 d(2) by (auto simp flip: map_append)
      then show ?thesis using d by (simp add: units_def flip: append_assoc)
    qed
    moreover have "cut_ok maxFrameSize fs wr ?c" "wr_ok ?r" "StreamID ?r = StreamID wr"
      using sz a st 2 by (auto simp: cut_ok_def wr_ok_def StreamID_def)
    ultimately show ?thesis using 2 size a by (auto simp: wq_consume_def blocked_def simp flip: append_assoc)
  next
    case 3
    then have "Consume maxFrameSize wr 2147483647 fs = Some (wr, empty_req, 1, charge (int (length p)) (st_flow s) fs)"
      using d st le flow_take_charges [OF w, of "int (length p)" "st_flow s"] by (simp add: Consume_def a_def [symmetric] Let_def)
    moreover have "spend wr fs = charge (int (length p)) (st_flow s) fs" using size d by (simp add: spend_def)
    moreover have "windows_ok (charge (int (length p)) (st_flow s) fs)" using charge_ok [OF w] 3 a by simp
    moreover have "cut_ok maxFrameSize fs wr wr" using 3 a size ok by (simp add: cut_ok_def)
    ultimately show ?thesis using 3 size a by (auto simp: wq_consume_def wq_shift_def blocked_def)
  qed
qed

section \<open>What one Pop does\<close>

definition queue_of :: "nat \<Rightarrow> write_sched \<Rightarrow> write_queue" where
  "queue_of i ws = (if i = 0 then ws_zero ws else case gm_get (ws_sq ws) i of None \<Rightarrow> [] | Some q \<Rightarrow> q)"

definition sched_ok :: "write_sched \<Rightarrow> bool" where
  "sched_ok ws \<longleftrightarrow> gm_get (ws_sq ws) 0 = None \<and> (\<forall>q \<in> set (ws_pool ws). q = []) \<and>
     (\<forall>i. \<forall>wr \<in> set (queue_of i ws). StreamID wr = i \<and> wr_ok wr)"

lemma queue_of_put [simp]: "i \<noteq> 0 \<Longrightarrow> queue_of j (ws\<lparr> ws_sq := gm_put i q (ws_sq ws) \<rparr>) = (if j = i then q else queue_of j ws)"
  by (simp add: queue_of_def)

lemma queue_of_del [simp]: "i \<noteq> 0 \<Longrightarrow> queue_of j (ws\<lparr> ws_sq := gm_del i (ws_sq ws) \<rparr>) = (if j = i then [] else queue_of j ws)"
  by (simp add: queue_of_def)

lemma queue_of_pool [simp]: "queue_of j (ws\<lparr> ws_pool := p \<rparr>) = queue_of j ws" "queue_of j (ws\<lparr> ws_sq := m, ws_pool := p \<rparr>) = queue_of j (ws\<lparr> ws_sq := m \<rparr>)"
  by (simp_all add: queue_of_def)

text \<open>
  The outcome of a Pop: nothing, with everything unchanged; or a frame cut from the front of the queue of its stream,
  for whose bytes the windows are charged.
\<close>

definition popped :: "int \<Rightarrow> write_req option \<Rightarrow> write_sched \<times> flows \<Rightarrow> write_sched \<times> flows \<Rightarrow> bool" where
  "popped maxFrameSize r s s1 \<longleftrightarrow> (case (s, s1) of ((ws, fs), (ws1, fs1)) \<Rightarrow>
     sched_ok ws1 \<and> windows_ok fs1 \<and>
     (case r of
        None \<Rightarrow> fs1 = fs \<and> (\<forall>j. queue_of j ws1 = queue_of j ws)
      | Some c \<Rightarrow> fs1 = spend c fs \<and> wr_ok c \<and>
          (DataSize c > 0 \<longrightarrow> int (DataSize c) \<le> available (flow_of c) fs \<and> int (DataSize c) \<le> maxFrameSize) \<and>
          units c @ queue_units (queue_of (StreamID c) ws1) = queue_units (queue_of (StreamID c) ws) \<and>
          (\<forall>j. j \<noteq> StreamID c \<longrightarrow> queue_of j ws1 = queue_of j ws)))"

lemma sched_okD: "sched_ok ws \<Longrightarrow> wr \<in> set (queue_of i ws) \<Longrightarrow> StreamID wr = i \<and> wr_ok wr"
  by (simp add: sched_ok_def)

lemma sched_okI:
  "sched_ok ws \<Longrightarrow> gm_get (ws_sq ws1) 0 = None \<Longrightarrow> set (ws_pool ws1) \<subseteq> insert [] (set (ws_pool ws)) \<Longrightarrow>
   (\<And>j. j \<noteq> i \<Longrightarrow> queue_of j ws1 = queue_of j ws) \<Longrightarrow> (\<forall>wr \<in> set (queue_of i ws1). StreamID wr = i \<and> wr_ok wr) \<Longrightarrow> sched_ok ws1"
  unfolding sched_ok_def by (metis (no_types, lifting) insert_iff subset_iff)

lemma set_pool_put: "set (pool_put q p) = insert [] (set p)"
  by (auto simp: pool_put_def)

lemma pop_loop_popped:
  assumes "sched_ok ws" "windows_ok fs"
  obtains r ws1 fs1 where "pop_loop maxFrameSize order ws fs = Some (r, ws1, fs1)" "popped maxFrameSize r (ws, fs) (ws1, fs1)"
    "r = None \<Longrightarrow> \<forall>i \<in> set order. queue_of i ws = [] \<or> i = 0 \<or> blocked maxFrameSize fs (hd (queue_of i ws))"
proof -
  have "\<exists>r ws1 fs1. pop_loop maxFrameSize order ws fs = Some (r, ws1, fs1) \<and> popped maxFrameSize r (ws, fs) (ws1, fs1) \<and>
      (r = None \<longrightarrow> (\<forall>i \<in> set order. queue_of i ws = [] \<or> i = 0 \<or> blocked maxFrameSize fs (hd (queue_of i ws))))"
    using assms
  proof (induction order arbitrary: ws)
    case Nil
    then show ?case by (simp add: popped_def)
  next
    case (Cons i order)
    show ?case
    proof (cases "gm_get (ws_sq ws) i")
      case None
      then have "queue_of i ws = [] \<or> i = 0" by (simp add: queue_of_def)
      then show ?thesis using Cons.IH [OF Cons.prems] None by auto
    next
      case (Some q)
      have i: "i \<noteq> 0" using Some Cons.prems(1) by (metis option.distinct(1) sched_ok_def)
      then have q: "queue_of i ws = q" using Some by (simp add: queue_of_def)
      have same: "queue_of j (ws\<lparr> ws_sq := gm_put i q (ws_sq ws) \<rparr>) = queue_of j ws" for j using i q by simp
      have ok: "sched_ok (ws\<lparr> ws_sq := gm_put i q (ws_sq ws) \<rparr>)"
        using Cons.prems(1) i same by (simp add: sched_ok_def)
      have skip: ?thesis if "wq_consume maxFrameSize 2147483647 q fs = Some (None, q, fs)" "q = [] \<or> blocked maxFrameSize fs (hd q)"
        using Cons.IH [OF ok Cons.prems(2)] that Some same q by (auto simp: popped_def cong: option.case_cong)
      show ?thesis
      proof (cases q)
        case Nil
        then show ?thesis using skip by (simp add: wq_consume_def)
      next
        case q': (Cons wr q0)
        have wr: "StreamID wr = i" "wr_ok wr" and q0: "\<forall>x \<in> set q0. StreamID x = i \<and> wr_ok x"
          using sched_okD [OF Cons.prems(1), of _ i] q q' by auto
        from wq_consume_nonempty [OF wr(2) Cons.prems(2), of maxFrameSize q0] consider
          (blocked) "blocked maxFrameSize fs wr" "wq_consume maxFrameSize 2147483647 q fs = Some (None, q, fs)"
        | (cut) c q1 where "wq_consume maxFrameSize 2147483647 q fs = Some (Some c, q1, spend c fs)" "cut_ok maxFrameSize fs wr c"
            "units c @ queue_units q1 = queue_units q" "windows_ok (spend c fs)"
            "q1 = q0 \<or> (\<exists>r. q1 = r # q0 \<and> wr_ok r \<and> StreamID r = i)"
          unfolding q' wr(1) by blast
        then show ?thesis
        proof cases
          case blocked
          then show ?thesis using skip q' by simp
        next
          case cut
          define ws1 where "ws1 = (if q1 = [] then ws\<lparr> ws_sq := gm_del i (ws_sq ws), ws_pool := pool_put q1 (ws_pool ws) \<rparr>
                 else ws\<lparr> ws_sq := gm_put i q1 (ws_sq ws) \<rparr>)"
          have qs: "queue_of j ws1 = (if j = i then q1 else queue_of j ws)" for j using i by (simp add: ws1_def)
          have c: "StreamID c = i" "wr_ok c" using cut(2) wr by (auto simp: cut_ok_def)
          have "sched_ok ws1"
          proof (rule sched_okI [OF Cons.prems(1), of ws1 i])
            show "gm_get (ws_sq ws1) 0 = None" using Cons.prems(1) i by (simp add: ws1_def sched_ok_def)
            show "set (ws_pool ws1) \<subseteq> insert [] (set (ws_pool ws))" by (simp add: ws1_def set_pool_put subset_insertI)
            show "\<forall>wr \<in> set (queue_of i ws1). StreamID wr = i \<and> wr_ok wr" using cut(5) q0 qs by auto
          qed (simp add: qs)
          then have "popped maxFrameSize (Some c) (ws, fs) (ws1, spend c fs)"
            using cut c qs q by (simp add: popped_def cut_ok_def)
          then show ?thesis using Some cut(1) by (auto simp: ws1_def)
        qed
      qed
    qed
  qed
  then show thesis using that by blast
qed

lemma ws_Pop_popped:
  assumes "sched_ok ws" "windows_ok fs"
  obtains r ws1 fs1 where "ws_Pop maxFrameSize order ws fs = Some (r, ws1, fs1)" "popped maxFrameSize r (ws, fs) (ws1, fs1)"
    "r = None \<Longrightarrow> ws_zero ws = [] \<and> (\<forall>i \<in> set order. queue_of i ws = [] \<or> i = 0 \<or> blocked maxFrameSize fs (hd (queue_of i ws)))"
proof (cases "ws_zero ws")
  case Nil
  then show thesis
    using pop_loop_popped [OF assms, of maxFrameSize order] that by (simp add: ws_Pop_def) blast
next
  case (Cons wr z)
  have wr: "StreamID wr = 0" "wr_ok wr" and z: "\<forall>x \<in> set z. StreamID x = 0 \<and> wr_ok x"
    using sched_okD [OF assms(1), of _ 0] Cons by (auto simp: queue_of_def)
  have d: "DataSize wr = 0" using wr by (auto simp: wr_ok_def StreamID_def split: option.splits)
  have qs: "queue_of j (ws\<lparr> ws_zero := z \<rparr>) = (if j = 0 then z else queue_of j ws)" for j by (simp add: queue_of_def)
  have "sched_ok (ws\<lparr> ws_zero := z \<rparr>)"
    by (rule sched_okI [OF assms(1), of _ 0]) (use assms(1) z qs in \<open>auto simp: sched_ok_def\<close>)
  then have "popped maxFrameSize (Some wr) (ws, fs) (ws\<lparr> ws_zero := z \<rparr>, fs)"
    using assms(2) wr d qs Cons by (auto simp: popped_def spend_def queue_of_def)
  then show thesis using Cons that [of "Some wr" "ws\<lparr> ws_zero := z \<rparr>" fs] by (simp add: ws_Pop_def wq_shift_def)
qed

section \<open>Runs\<close>

datatype sched_op = SPush write_req | SClose nat | SPop "nat list" | SAdd addr int

fun sched_step :: "int \<Rightarrow> sched_op \<Rightarrow> write_req list \<times> write_sched \<times> flows \<Rightarrow> (write_req list \<times> write_sched \<times> flows) option" where
  "sched_step m (SPush wr) (out, ws, fs) = Some (out, ws_Push wr ws, fs)"
| "sched_step m (SClose i) (out, ws, fs) = Some (out, CloseStream i ws, fs)"
| "sched_step m (SPop order) (out, ws, fs) =
     map_option (\<lambda>(r, ws1, fs1). (case r of None \<Rightarrow> out | Some c \<Rightarrow> out @ [c], ws1, fs1)) (ws_Pop m order ws fs)"
| "sched_step m (SAdd f n) (out, ws, fs) = Some (out, ws, snd (flow_add f n fs))"

fun sched_run :: "int \<Rightarrow> sched_op list \<Rightarrow> write_req list \<times> write_sched \<times> flows \<Rightarrow> (write_req list \<times> write_sched \<times> flows) option" where
  "sched_run m [] s = Some s"
| "sched_run m (op # ops) s = Option.bind (sched_step m op s) (sched_run m ops)"

fun pushed_to :: "nat \<Rightarrow> sched_op list \<Rightarrow> write_req list" where
  "pushed_to i [] = []"
| "pushed_to i (SPush wr # ops) = (if StreamID wr = i then wr # pushed_to i ops else pushed_to i ops)"
| "pushed_to i (_ # ops) = pushed_to i ops"

fun op_ok :: "sched_op \<Rightarrow> bool" where
  "op_ok (SPush wr) = wr_ok wr"
| "op_ok (SAdd f n) = (0 \<le> n \<and> n < 2147483648)"
| "op_ok _ = True"

fun granted :: "addr \<Rightarrow> sched_op list \<Rightarrow> int" where
  "granted f [] = 0"
| "granted f (SAdd g n # ops) = (if g = f then n else 0) + granted f ops"
| "granted f (_ # ops) = granted f ops"

lemma ws_Push_queue: "sched_ok ws \<Longrightarrow> queue_of j (ws_Push wr ws) = queue_of j ws @ (if j = StreamID wr then [wr] else [])"
  by (auto simp: ws_Push_def Let_def wq_push_def queue_of_def pool_get_def sched_ok_def split: option.splits)

lemma ws_Push_ok: "sched_ok ws \<Longrightarrow> wr_ok wr \<Longrightarrow> sched_ok (ws_Push wr ws)"
proof (rule sched_okI [of ws _ "StreamID wr"])
  assume ok: "sched_ok ws" "wr_ok wr"
  show "gm_get (ws_sq (ws_Push wr ws)) 0 = None"
    using ok by (auto simp: ws_Push_def Let_def sched_ok_def pool_get_def split: option.splits)
  show "set (ws_pool (ws_Push wr ws)) \<subseteq> insert [] (set (ws_pool ws))"
    by (auto simp: ws_Push_def Let_def pool_get_def dest: in_set_butlastD split: option.splits)
  show "\<forall>x \<in> set (queue_of (StreamID wr) (ws_Push wr ws)). StreamID x = StreamID wr \<and> wr_ok x"
    using ok by (auto simp: ws_Push_queue) (auto simp: sched_ok_def)
qed (simp_all add: ws_Push_queue)

lemma CloseStream_ok: "sched_ok ws \<Longrightarrow> sched_ok (CloseStream i ws) \<and> (\<forall>j. j \<noteq> i \<longrightarrow> queue_of j (CloseStream i ws) = queue_of j ws)"
proof (cases "gm_get (ws_sq ws) i")
  case (Some q)
  assume ok: "sched_ok ws"
  then have i: "i \<noteq> 0" using Some by (metis option.distinct(1) sched_ok_def)
  have eq: "CloseStream i ws = ws\<lparr> ws_sq := gm_del i (ws_sq ws), ws_pool := pool_put q (ws_pool ws) \<rparr>"
    using Some by (simp add: CloseStream_def)
  have qs: "queue_of j (CloseStream i ws) = (if j = i then [] else queue_of j ws)" for j using i by (simp add: eq)
  have "sched_ok (CloseStream i ws)"
    by (rule sched_okI [OF ok, of _ i]) (use ok qs in \<open>auto simp: eq sched_ok_def set_pool_put\<close>)
  then show ?thesis using qs by simp
qed (simp add: CloseStream_def)

lemma flow_add_ok: "windows_ok fs \<Longrightarrow> 0 \<le> n \<Longrightarrow> n < 2147483648 \<Longrightarrow> windows_ok (snd (flow_add f n fs))"
  by (subst flow_add_cases) (auto simp: windows_ok_def int32_def)

text \<open>The bytes of the frames that count against the window \<open>f\<close>, of a stream or of the connection.\<close>

definition data_bytes :: "flows \<Rightarrow> addr \<Rightarrow> write_req list \<Rightarrow> int" where
  "data_bytes fs f out =
     sum_list (map (\<lambda>wr. if flow_of wr = f \<or> fl_conn (fs (flow_of wr)) = Some f then int (DataSize wr) else 0) out)"

lemma data_bytes_simps [simp]: "data_bytes fs f [] = 0" "data_bytes fs f (out @ out1) = data_bytes fs f out + data_bytes fs f out1"
  by (simp_all add: data_bytes_def)

lemma data_bytes_conn: "(\<And>g. fl_conn (fs1 g) = fl_conn (fs g)) \<Longrightarrow> data_bytes fs1 f out = data_bytes fs f out"
  by (simp add: data_bytes_def)

text \<open>What a run or a step does, from the state before to the frames written and the state after.\<close>

definition sched_effect :: "int \<Rightarrow> sched_op list \<Rightarrow> write_sched \<times> flows \<Rightarrow> write_req list \<Rightarrow> write_sched \<times> flows \<Rightarrow> bool" where
  "sched_effect m ops s out s1 \<longleftrightarrow> (case (s, s1) of ((ws, fs), (ws1, fs1)) \<Rightarrow>
     sched_ok ws1 \<and> windows_ok fs1 \<and> (\<forall>g. fl_conn (fs1 g) = fl_conn (fs g)) \<and>
     (\<forall>i. SClose i \<notin> set ops \<longrightarrow>
        queue_units (filter (\<lambda>wr. StreamID wr = i) out) @ queue_units (queue_of i ws1) =
        queue_units (queue_of i ws) @ queue_units (pushed_to i ops)) \<and>
     (\<forall>f. data_bytes fs f out + fl_n (fs1 f) \<le> fl_n (fs f) + granted f ops) \<and>
     ((\<forall>f. 0 \<le> fl_n (fs f)) \<longrightarrow> (\<forall>f. 0 \<le> fl_n (fs1 f))) \<and>
     (\<forall>wr \<in> set out. DataSize wr > 0 \<longrightarrow> int (DataSize wr) \<le> m))"

lemma charge_effect:
  "fl_conn (charge n f fs g) = fl_conn (fs g)"
  "fl_n (charge n f fs g) = fl_n (fs g) - (if g = f \<or> fl_conn (fs f) = Some g then n else 0)"
  by (simp_all add: charge_def)

lemma spend_effect:
  assumes "DataSize c > 0 \<longrightarrow> int (DataSize c) \<le> available (flow_of c) fs" "\<forall>f. 0 \<le> fl_n (fs f)"
  shows "0 \<le> fl_n (spend c fs g)"
  using assms available_le(1) [of "flow_of c" fs] available_le(2) [of fs "flow_of c" g]
  by (auto simp: spend_def charge_effect)

lemma pop_effect:
  assumes "popped m r (ws, fs) (ws1, fs1)"
  shows "sched_effect m [SPop order] (ws, fs) (case r of None \<Rightarrow> [] | Some c \<Rightarrow> [c]) (ws1, fs1)"
proof (cases r)
  case None
  then show ?thesis using assms by (auto simp: popped_def sched_effect_def)
next
  case (Some c)
  then have c: "fs1 = spend c fs" "DataSize c > 0 \<longrightarrow> int (DataSize c) \<le> available (flow_of c) fs \<and> int (DataSize c) \<le> m"
      "units c @ queue_units (queue_of (StreamID c) ws1) = queue_units (queue_of (StreamID c) ws)"
      "\<And>j. j \<noteq> StreamID c \<Longrightarrow> queue_of j ws1 = queue_of j ws" "sched_ok ws1" "windows_ok fs1"
    using assms by (auto simp: popped_def)
  have "fl_conn (fs1 g) = fl_conn (fs g)" "data_bytes fs g [c] + fl_n (fs1 g) = fl_n (fs g)" for g
    by (auto simp: c(1) spend_def charge_effect data_bytes_def)
  moreover have "0 \<le> fl_n (fs1 g)" if "\<forall>f. 0 \<le> fl_n (fs f)" for g using spend_effect [of c fs g] c(1,2) that by simp
  ultimately show ?thesis using Some c by (auto simp: sched_effect_def)
qed

lemma sched_step_effect:
  assumes "sched_ok ws" "windows_ok fs" "op_ok op"
  obtains out1 ws1 fs1 where "sched_step m op (out, ws, fs) = Some (out @ out1, ws1, fs1)" "sched_effect m [op] (ws, fs) out1 (ws1, fs1)"
proof (cases op)
  case (SPush wr)
  have "sched_effect m [op] (ws, fs) [] (ws_Push wr ws, fs)"
    using assms SPush by (auto simp: sched_effect_def ws_Push_ok ws_Push_queue)
  then show thesis using SPush that [of "[]"] by simp
next
  case (SClose i)
  have "sched_effect m [op] (ws, fs) [] (CloseStream i ws, fs)"
    using assms SClose CloseStream_ok [OF assms(1), of i] by (auto simp: sched_effect_def)
  then show thesis using SClose that [of "[]"] by simp
next
  case (SPop order)
  obtain r ws1 fs1 where "ws_Pop m order ws fs = Some (r, ws1, fs1)" "popped m r (ws, fs) (ws1, fs1)"
    using ws_Pop_popped [OF assms(1,2)] by metis
  then show thesis using SPop pop_effect [of m r ws fs ws1 fs1 order] that [of "case r of None \<Rightarrow> [] | Some c \<Rightarrow> [c]"]
    by (auto split: option.splits)
next
  case (SAdd f n)
  then have n: "0 \<le> n" "n < 2147483648" using assms(3) by simp_all
  have add: "flow_add f n fs = (if int32 (fl_n (fs f) + n) then (True, fs(f := (fs f)\<lparr> fl_n := fl_n (fs f) + n \<rparr>)) else (False, fs))"
    using n assms(2) by (intro flow_add_cases) (simp_all add: int32_def)
  have "sched_effect m [op] (ws, fs) [] (ws, snd (flow_add f n fs))"
    using assms(1) n SAdd flow_add_ok [OF assms(2) n, of f] by (auto simp: sched_effect_def add)
  then show thesis using SAdd that [of "[]"] by simp
qed

lemma pushed_to_Cons: "pushed_to i (op # ops) = pushed_to i [op] @ pushed_to i ops"
  by (cases op) auto

lemma granted_Cons: "granted f (op # ops) = granted f [op] + granted f ops"
  by (cases op) auto

lemma sched_effect_trans:
  assumes "sched_effect m [op] (ws, fs) out1 (ws1, fs1)" "sched_effect m ops (ws1, fs1) out2 (ws2, fs2)"
  shows "sched_effect m (op # ops) (ws, fs) (out1 @ out2) (ws2, fs2)"
proof -
  have conn: "\<And>g. fl_conn (fs1 g) = fl_conn (fs g)" using assms(1) by (simp add: sched_effect_def)
  have bytes: "data_bytes fs f (out1 @ out2) + fl_n (fs2 f) \<le> fl_n (fs f) + granted f (op # ops)" for f
  proof -
    have db: "data_bytes fs1 f out2 = data_bytes fs f out2" by (rule data_bytes_conn) (rule conn)
    have "data_bytes fs f out1 + fl_n (fs1 f) \<le> fl_n (fs f) + granted f [op]"
      "data_bytes fs1 f out2 + fl_n (fs2 f) \<le> fl_n (fs1 f) + granted f ops"
      using assms by (simp_all add: sched_effect_def)
    then show ?thesis unfolding granted_Cons [of f op ops] db data_bytes_simps by linarith
  qed
  have units: "queue_units (filter (\<lambda>wr. StreamID wr = i) (out1 @ out2)) @ queue_units (queue_of i ws2) =
      queue_units (queue_of i ws) @ queue_units (pushed_to i (op # ops))" if "SClose i \<notin> set (op # ops)" for i
  proof -
    have "queue_units (filter (\<lambda>wr. StreamID wr = i) out1) @ queue_units (queue_of i ws1) = queue_units (queue_of i ws) @ queue_units (pushed_to i [op])"
      "queue_units (filter (\<lambda>wr. StreamID wr = i) out2) @ queue_units (queue_of i ws2) = queue_units (queue_of i ws1) @ queue_units (pushed_to i ops)"
      using assms that by (auto simp: sched_effect_def)
    then show ?thesis unfolding pushed_to_Cons [of i op ops] by simp
  qed
  show ?thesis using assms bytes units by (auto simp: sched_effect_def)
qed

lemma sched_run_effect:
  assumes "sched_ok ws" "windows_ok fs" "list_all op_ok ops"
  shows "\<exists>out1 ws1 fs1. sched_run m ops (out, ws, fs) = Some (out @ out1, ws1, fs1) \<and> sched_effect m ops (ws, fs) out1 (ws1, fs1)"
  using assms
proof (induction ops arbitrary: out ws fs)
  case Nil
  then show ?case by (simp add: sched_effect_def)
next
  case (Cons op ops)
  obtain out1 ws1 fs1 where s: "sched_step m op (out, ws, fs) = Some (out @ out1, ws1, fs1)" "sched_effect m [op] (ws, fs) out1 (ws1, fs1)"
    using sched_step_effect [OF Cons.prems(1,2)] Cons.prems(3) by (metis list.pred_inject(2))
  then have ok: "sched_ok ws1" "windows_ok fs1" by (simp_all add: sched_effect_def)
  obtain out2 ws2 fs2 where "sched_run m ops (out @ out1, ws1, fs1) = Some ((out @ out1) @ out2, ws2, fs2)" "sched_effect m ops (ws1, fs1) out2 (ws2, fs2)"
    using Cons.IH [OF ok, of "out @ out1"] Cons.prems(3) by auto
  then show ?case using s(1) sched_effect_trans [OF s(2)] by auto
qed

lemma sched_new_ok: "sched_ok NewRandomWriteScheduler"
  by (simp add: sched_ok_def NewRandomWriteScheduler_def queue_of_def)

text \<open>
  C7: the scheduler keeps the order of every stream and loses nothing. After any run of pushes, pops, window updates and
  closings of other streams, in whatever order Go ranges over the queues, no call has panicked, and the frames
  written on a stream, followed by those still queued for it, are the frames pushed to it: the same bytes of DATA in the same
  order, with each end of a message behind its last byte, although DATA frames have been cut at the window and the frame size.
\<close>

theorem sched_fifo_per_stream:
  assumes "windows_ok fs" and "list_all op_ok ops" and "SClose i \<notin> set ops"
  shows "\<exists>out ws1 fs1. sched_run maxFrameSize ops ([], NewRandomWriteScheduler, fs) = Some (out, ws1, fs1) \<and>
     queue_units (filter (\<lambda>wr. StreamID wr = i) out) @ queue_units (queue_of i ws1) = queue_units (pushed_to i ops)"
proof -
  obtain out ws1 fs1 where r: "sched_run maxFrameSize ops ([], NewRandomWriteScheduler, fs) = Some (out, ws1, fs1)"
    and e: "sched_effect maxFrameSize ops (NewRandomWriteScheduler, fs) out (ws1, fs1)"
    using sched_run_effect [OF sched_new_ok assms(1,2), of maxFrameSize "[]"] by auto
  have "queue_of i NewRandomWriteScheduler = []" by (simp add: queue_of_def NewRandomWriteScheduler_def)
  then show ?thesis using r e assms(3) by (auto simp: sched_effect_def)
qed

text \<open>
  C8: no more DATA is written than the peer allows. Starting with windows that are not negative, after any run
  with window updates, the bytes written against a window, that of a stream or that of the connection for all its
  streams, are at most the initial window and the updates granted to it, and no frame is larger than the maximal frame size.
\<close>

theorem data_within_windows:
  assumes "windows_ok fs" and "\<And>g. 0 \<le> fl_n (fs g)" and "list_all op_ok ops"
  shows "\<exists>out ws1 fs1. sched_run maxFrameSize ops ([], NewRandomWriteScheduler, fs) = Some (out, ws1, fs1) \<and>
     data_bytes fs f out \<le> fl_n (fs f) + granted f ops \<and> 0 \<le> fl_n (fs1 f) \<and>
     list_all (\<lambda>wr. DataSize wr = 0 \<or> int (DataSize wr) \<le> maxFrameSize) out"
proof -
  obtain out ws1 fs1 where r: "sched_run maxFrameSize ops ([], NewRandomWriteScheduler, fs) = Some (out, ws1, fs1)"
    and e: "sched_effect maxFrameSize ops (NewRandomWriteScheduler, fs) out (ws1, fs1)"
    using sched_run_effect [OF sched_new_ok assms(1,3), of maxFrameSize "[]"] by auto
  have b: "data_bytes fs f out + fl_n (fs1 f) \<le> fl_n (fs f) + granted f ops" and n: "0 \<le> fl_n (fs1 f)"
    using e assms(2) by (auto simp: sched_effect_def)
  have "data_bytes fs f out \<le> fl_n (fs f) + granted f ops" using b n by linarith
  then show ?thesis using r e n by (auto simp: sched_effect_def list_all_iff)
qed

text \<open>
  C9: Pop gives up only when nothing can be written. When it returns no frame although it has looked at every stream, no frame is
  queued outside the streams, and the next frame of each stream with queued frames carries data that its own window
  or that of the connection does not allow.
\<close>

theorem pop_none_only_when_blocked:
  assumes "windows_ok fs" and "list_all op_ok ops" and "0 < maxFrameSize"
    and "sched_run maxFrameSize ops ([], NewRandomWriteScheduler, fs) = Some (out, ws, fs1)"
    and "set order = set (gm_keys (ws_sq ws))" and "ws_Pop maxFrameSize order ws fs1 = Some (None, ws2, fs2)"
    and "queue_of i ws = wr # q"
  shows "i \<noteq> 0 \<and> DataSize wr > 0 \<and> available (flow_of wr) fs1 \<le> 0"
proof -
  have ok: "sched_ok ws" "windows_ok fs1"
    using sched_run_effect [OF sched_new_ok assms(1,2), of maxFrameSize "[]"] assms(4) by (auto simp: sched_effect_def)
  obtain r ws1 fs3 where p: "ws_Pop maxFrameSize order ws fs1 = Some (r, ws1, fs3)"
    "r = None \<Longrightarrow> ws_zero ws = [] \<and> (\<forall>i \<in> set order. queue_of i ws = [] \<or> i = 0 \<or> blocked maxFrameSize fs1 (hd (queue_of i ws)))"
    using ws_Pop_popped [OF ok] by metis
  then have b: "ws_zero ws = []" "\<forall>i \<in> set order. queue_of i ws = [] \<or> i = 0 \<or> blocked maxFrameSize fs1 (hd (queue_of i ws))"
    using assms(6) by auto
  have i: "i \<noteq> 0" using b(1) assms(7) by (intro notI) (simp add: queue_of_def)
  then have "i \<in> set order" using assms(5,7) by (auto simp: queue_of_def gm_keys_iff split: option.splits)
  then show ?thesis using b(2) i assms(3,7) by (fastforce simp: blocked_def)
qed

section \<open>Example\<close>

text \<open>Flow 0 is the connection, flow 1 a stream of it with a window of four bytes.\<close>

definition ex_flows :: flows where
  "ex_flows = (\<lambda>f. if f = 1 then \<lparr> fl_n = 4, fl_conn = Some 0 \<rparr> else \<lparr> fl_n = 100, fl_conn = None \<rparr>)"

definition ex_req :: write_req where
  "ex_req = \<lparr> wr_write = Some (WriteData 1 [1, 2, 3, 4, 5, 6] True), wr_stream = Some \<lparr> st_id = 1, st_flow = 1 \<rparr>, wr_done = Some 7 \<rparr>"

lemma ex_flows_ok: "windows_ok ex_flows" "0 \<le> fl_n (ex_flows g)"
  by (auto simp: windows_ok_def ex_flows_def int32_def)

lemma ex_ops_ok: "list_all op_ok [SPush ex_req, SPop [1], SAdd 1 3, SPop [1]]" "list_all op_ok [SPush ex_req, SPop [1]]"
  by (simp_all add: ex_req_def wr_ok_def)

theorem sched_fifo_per_stream_witness:
  "\<exists>out ws1 fs1. sched_run 16384 [SPush ex_req, SPop [1], SAdd 1 3, SPop [1]] ([], NewRandomWriteScheduler, ex_flows) = Some (out, ws1, fs1) \<and>
     queue_units (filter (\<lambda>wr. StreamID wr = 1) out) @ queue_units (queue_of 1 ws1) =
     [UByte 1, UByte 2, UByte 3, UByte 4, UByte 5, UByte 6, UEnd True (Some 7)]"
  using sched_fifo_per_stream [OF ex_flows_ok(1) ex_ops_ok(1), of 1 16384]
  by (simp del: sched_run.simps add: ex_req_def units_def StreamID_def)

theorem data_within_windows_witness:
  "\<exists>out ws1 fs1. sched_run 16384 [SPush ex_req, SPop [1], SAdd 1 3, SPop [1]] ([], NewRandomWriteScheduler, ex_flows) = Some (out, ws1, fs1) \<and>
     data_bytes ex_flows 1 out \<le> 7 \<and> 0 \<le> fl_n (fs1 1) \<and> list_all (\<lambda>wr. DataSize wr = 0 \<or> int (DataSize wr) \<le> 16384) out"
  using data_within_windows [OF ex_flows_ok ex_ops_ok(1), of 16384 1]
  by (simp del: sched_run.simps add: ex_flows_def)

definition ex_closed :: flows where
  "ex_closed = (\<lambda>f. if f = 1 then \<lparr> fl_n = 0, fl_conn = Some 0 \<rparr> else \<lparr> fl_n = 100, fl_conn = None \<rparr>)"

theorem pop_none_only_when_blocked_witness:
  "1 \<noteq> (0 :: nat) \<and> DataSize ex_req > 0 \<and> available (flow_of ex_req) ex_closed \<le> 0"
proof (rule pop_none_only_when_blocked [where ops = "[SPush ex_req]" and maxFrameSize = 16384 and order = "[1]" and fs = ex_closed
      and ws = "ws_Push ex_req NewRandomWriteScheduler" and ?ws2.0 = "ws_Push ex_req NewRandomWriteScheduler" and ?fs2.0 = ex_closed and q = "[]" and out = "[]"])
  show "windows_ok ex_closed" by (auto simp: windows_ok_def ex_closed_def int32_def)
  show "list_all op_ok [SPush ex_req]" using ex_ops_ok by simp
qed (simp_all add: ws_Pop_def ws_Push_def ex_req_def NewRandomWriteScheduler_def StreamID_def pool_get_def wq_push_def gm_defs wq_consume_def
    Consume_def allowed_bytes_def available_def ex_closed_def queue_of_def)

end
