(* ===== verification/Http2_Frame.thy ===== *)
theory Http2_Frame
  imports Http2_Sched
begin

text \<open>
  \<^verbatim>\<open>web/protocol/http2/frame.go\<close>: the frames of HTTP/2, written by the \<open>Write\<close> methods of a Framer and read by \<open>ReadFrame\<close>.
  Bytes, flags, stream identifiers and error codes are words of the width of the source. A writer returns the
  bytes that it hands to the underlying \<open>Write\<close> in one call, or an error; a reader takes the bytes that the connection
  still delivers. \<open>ReadMetaHeaders\<close> (the HPACK decoder, a third-party package) is nil; the texts of errors, the logging
  and the ownership flag of a frame are left out.
\<close>

unbundle bit_operations_syntax

type_synonym uint32 = "32 word"
type_synonym flags = "8 word"

section \<open>Big-endian integers\<close>

definition be_uint16 :: "byte list \<Rightarrow> 16 word" where
  "be_uint16 b = (ucast (b ! 1)) OR (push_bit 8 (ucast (b ! 0)))"

definition be_uint32 :: "byte list \<Rightarrow> uint32" where
  "be_uint32 b = ucast (b ! 3) OR push_bit 8 (ucast (b ! 2)) OR push_bit 16 (ucast (b ! 1)) OR push_bit 24 (ucast (b ! 0))"

definition put_uint16 :: "16 word \<Rightarrow> byte list" where
  "put_uint16 v = [ucast (drop_bit 8 v), ucast v]"

definition put_uint32 :: "uint32 \<Rightarrow> byte list" where
  "put_uint32 v = [ucast (drop_bit 24 v), ucast (drop_bit 16 v), ucast (drop_bit 8 v), ucast v]"

definition put_uint24 :: "nat \<Rightarrow> byte list" where
  "put_uint24 n = [word_of_nat (drop_bit 16 n), word_of_nat (drop_bit 8 n), word_of_nat n]"

definition be_uint24 :: "byte list \<Rightarrow> uint32" where
  "be_uint24 b = push_bit 16 (ucast (b ! 0)) OR push_bit 8 (ucast (b ! 1)) OR ucast (b ! 2)"

section \<open>Headers, flags and errors\<close>

definition frameHeaderLen :: nat where
  "frameHeaderLen = 9"

definition FrameData :: byte where "FrameData = 0"
definition FrameHeaders :: byte where "FrameHeaders = 1"
definition FramePriority :: byte where "FramePriority = 2"
definition FrameRSTStream :: byte where "FrameRSTStream = 3"
definition FrameSettings :: byte where "FrameSettings = 4"
definition FramePushPromise :: byte where "FramePushPromise = 5"
definition FramePing :: byte where "FramePing = 6"
definition FrameGoAway :: byte where "FrameGoAway = 7"
definition FrameWindowUpdate :: byte where "FrameWindowUpdate = 8"
definition FrameContinuation :: byte where "FrameContinuation = 9"

lemmas frame_types = FrameData_def FrameHeaders_def FramePriority_def FrameRSTStream_def FrameSettings_def
  FramePushPromise_def FramePing_def FrameGoAway_def FrameWindowUpdate_def FrameContinuation_def

definition flag_has :: "flags \<Rightarrow> flags \<Rightarrow> bool" where
  "flag_has f v \<longleftrightarrow> f AND v = v"

definition FlagEndStream :: flags where "FlagEndStream = 1"
definition FlagAck :: flags where "FlagAck = 1"
definition FlagEndHeaders :: flags where "FlagEndHeaders = 4"
definition FlagPadded :: flags where "FlagPadded = 8"
definition FlagPriority :: flags where "FlagPriority = 32"

lemmas frame_flags = FlagEndStream_def FlagAck_def FlagEndHeaders_def FlagPadded_def FlagPriority_def

definition ErrCodeProtocol :: uint32 where "ErrCodeProtocol = 1"
definition ErrCodeFlowControl :: uint32 where "ErrCodeFlowControl = 3"
definition ErrCodeFrameSize :: uint32 where "ErrCodeFrameSize = 6"

datatype h2_error = ConnectionError uint32 | ConnError uint32 | StreamErr uint32 uint32 | ErrFrameTooLarge
  | ErrEOF | ErrUnexpectedEOF | GoAwayFlowError | ErrStreamID | ErrDepStreamID | ErrPadLength | ErrPadBytes | ErrWindowIncrement

record frame_header =
  fh_Type :: byte
  fh_Flags :: flags
  fh_Length :: uint32
  fh_StreamID :: uint32

record priority_param =
  pr_StreamDep :: uint32
  pr_Exclusive :: bool
  pr_Weight :: byte

definition prio_zero :: priority_param where
  "prio_zero = \<lparr> pr_StreamDep = 0, pr_Exclusive = False, pr_Weight = 0 \<rparr>"

datatype h2_frame =
    DataFrame (frame_hdr: frame_header) "byte list"
  | HeadersFrame (frame_hdr: frame_header) priority_param "byte list"
  | PriorityFrame (frame_hdr: frame_header) priority_param
  | RSTStreamFrame (frame_hdr: frame_header) uint32
  | SettingsFrame (frame_hdr: frame_header) "byte list"
  | PushPromiseFrame (frame_hdr: frame_header) uint32 "byte list"
  | PingFrame (frame_hdr: frame_header) "byte list"
  | GoAwayFrame (frame_hdr: frame_header) uint32 uint32 "byte list"
  | WindowUpdateFrame (frame_hdr: frame_header) uint32
  | ContinuationFrame (frame_hdr: frame_header) "byte list"
  | UnknownFrame (frame_hdr: frame_header) "byte list"

record framer =
  fr_lastFrame :: "h2_frame option"
  fr_lastHeaderStream :: uint32
  fr_maxReadSize :: uint32
  fr_AllowIllegalWrites :: bool
  fr_AllowIllegalReads :: bool

definition max_frame_size :: uint32 where
  "max_frame_size = 16777215"

definition SetMaxReadFrameSize :: "uint32 \<Rightarrow> framer \<Rightarrow> framer" where
  "SetMaxReadFrameSize v fr = fr\<lparr> fr_maxReadSize := (if v > max_frame_size then max_frame_size else v) \<rparr>"

definition NewFramer :: framer where
  "NewFramer = SetMaxReadFrameSize max_frame_size
     \<lparr> fr_lastFrame = None, fr_lastHeaderStream = 0, fr_maxReadSize = 0, fr_AllowIllegalWrites = False, fr_AllowIllegalReads = False \<rparr>"

section \<open>Writing\<close>

definition startWrite :: "byte \<Rightarrow> flags \<Rightarrow> uint32 \<Rightarrow> byte list" where
  "startWrite ftype flgs streamID = [0, 0, 0, ftype, flgs] @ put_uint32 streamID"

definition endWrite :: "byte list \<Rightarrow> h2_error + byte list" where
  "endWrite wbuf =
     (let n = length wbuf - frameHeaderLen in
      if n \<ge> 2 ^ 24 then Inl ErrFrameTooLarge else Inr (put_uint24 n @ drop 3 wbuf))"

definition validStreamIDOrZero :: "uint32 \<Rightarrow> bool" where
  "validStreamIDOrZero streamID \<longleftrightarrow> streamID AND push_bit 31 1 = 0"

definition validStreamID :: "uint32 \<Rightarrow> bool" where
  "validStreamID streamID \<longleftrightarrow> streamID \<noteq> 0 \<and> streamID AND push_bit 31 1 = 0"

text \<open>\<open>pad = None\<close> is a nil slice.\<close>

definition WriteDataPadded :: "framer \<Rightarrow> uint32 \<Rightarrow> bool \<Rightarrow> byte list \<Rightarrow> byte list option \<Rightarrow> h2_error + byte list" where
  "WriteDataPadded fr streamID endStream data pad =
     (let ps = (case pad of None \<Rightarrow> [] | Some p \<Rightarrow> p) in
      if \<not> validStreamID streamID \<and> \<not> fr_AllowIllegalWrites fr then Inl ErrStreamID
      else if length ps > 255 then Inl ErrPadLength
      else if \<not> fr_AllowIllegalWrites fr \<and> (\<exists>b \<in> set ps. b \<noteq> 0) then Inl ErrPadBytes
      else
        let flgs = (if endStream then FlagEndStream else 0) OR (if pad \<noteq> None then FlagPadded else 0);
            wbuf = startWrite FrameData flgs streamID;
            wbuf1 = (if pad \<noteq> None then wbuf @ [word_of_nat (length ps)] else wbuf)
        in endWrite (wbuf1 @ data @ ps))"

record setting =
  set_ID :: "16 word"
  set_Val :: uint32

definition WriteSettings :: "setting list \<Rightarrow> h2_error + byte list" where
  "WriteSettings settings =
     endWrite (fold (\<lambda>s wbuf. wbuf @ put_uint16 (set_ID s) @ put_uint32 (set_Val s)) settings (startWrite FrameSettings 0 0))"

definition WriteSettingsAck :: "h2_error + byte list" where
  "WriteSettingsAck = endWrite (startWrite FrameSettings FlagAck 0)"

definition WritePing :: "bool \<Rightarrow> byte list \<Rightarrow> h2_error + byte list" where
  "WritePing ack data = endWrite (startWrite FramePing (if ack then FlagAck else 0) 0 @ data)"

definition WriteGoAway :: "uint32 \<Rightarrow> uint32 \<Rightarrow> byte list \<Rightarrow> h2_error + byte list" where
  "WriteGoAway maxStreamID code debugData =
     endWrite (startWrite FrameGoAway 0 0 @ put_uint32 (maxStreamID AND mask 31) @ put_uint32 code @ debugData)"

definition WriteWindowUpdate :: "framer \<Rightarrow> uint32 \<Rightarrow> uint32 \<Rightarrow> h2_error + byte list" where
  "WriteWindowUpdate fr streamID incr =
     (if (incr < 1 \<or> incr > 2147483647) \<and> \<not> fr_AllowIllegalWrites fr then Inl ErrWindowIncrement
      else endWrite (startWrite FrameWindowUpdate 0 streamID @ put_uint32 incr))"

record headers_param =
  hp_StreamID :: uint32
  hp_BlockFragment :: "byte list"
  hp_EndStream :: bool
  hp_EndHeaders :: bool
  hp_PadLength :: byte
  hp_Priority :: priority_param

definition put_priority :: "priority_param \<Rightarrow> byte list" where
  "put_priority p =
     put_uint32 (if pr_Exclusive p then pr_StreamDep p OR push_bit 31 1 else pr_StreamDep p) @ [pr_Weight p]"

definition WriteHeaders :: "framer \<Rightarrow> headers_param \<Rightarrow> h2_error + byte list" where
  "WriteHeaders fr p =
     (if \<not> validStreamID (hp_StreamID p) \<and> \<not> fr_AllowIllegalWrites fr then Inl ErrStreamID
      else
        let flgs = (if hp_PadLength p \<noteq> 0 then FlagPadded else 0) OR (if hp_EndStream p then FlagEndStream else 0) OR
                   (if hp_EndHeaders p then FlagEndHeaders else 0) OR (if hp_Priority p \<noteq> prio_zero then FlagPriority else 0);
            wbuf = startWrite FrameHeaders flgs (hp_StreamID p);
            wbuf1 = (if hp_PadLength p \<noteq> 0 then wbuf @ [hp_PadLength p] else wbuf);
            pads = replicate (unat (hp_PadLength p)) 0
        in if hp_Priority p \<noteq> prio_zero then
             if \<not> validStreamIDOrZero (pr_StreamDep (hp_Priority p)) \<and> \<not> fr_AllowIllegalWrites fr then Inl ErrDepStreamID
             else endWrite (wbuf1 @ put_priority (hp_Priority p) @ hp_BlockFragment p @ pads)
           else endWrite (wbuf1 @ hp_BlockFragment p @ pads))"

definition WritePriority :: "framer \<Rightarrow> uint32 \<Rightarrow> priority_param \<Rightarrow> h2_error + byte list" where
  "WritePriority fr streamID p =
     (if \<not> validStreamID streamID \<and> \<not> fr_AllowIllegalWrites fr then Inl ErrStreamID
      else if \<not> validStreamIDOrZero (pr_StreamDep p) then Inl ErrDepStreamID
      else endWrite (startWrite FramePriority 0 streamID @ put_priority p))"

definition WriteRSTStream :: "framer \<Rightarrow> uint32 \<Rightarrow> uint32 \<Rightarrow> h2_error + byte list" where
  "WriteRSTStream fr streamID code =
     (if \<not> validStreamID streamID \<and> \<not> fr_AllowIllegalWrites fr then Inl ErrStreamID
      else endWrite (startWrite FrameRSTStream 0 streamID @ put_uint32 code))"

definition WriteContinuation :: "framer \<Rightarrow> uint32 \<Rightarrow> bool \<Rightarrow> byte list \<Rightarrow> h2_error + byte list" where
  "WriteContinuation fr streamID endHeaders headerBlockFragment =
     (if \<not> validStreamID streamID \<and> \<not> fr_AllowIllegalWrites fr then Inl ErrStreamID
      else endWrite (startWrite FrameContinuation (if endHeaders then FlagEndHeaders else 0) streamID @ headerBlockFragment))"

record push_param =
  pp_StreamID :: uint32
  pp_PromiseID :: uint32
  pp_BlockFragment :: "byte list"
  pp_EndHeaders :: bool
  pp_PadLength :: byte

definition WritePushPromise :: "framer \<Rightarrow> push_param \<Rightarrow> h2_error + byte list" where
  "WritePushPromise fr p =
     (if \<not> validStreamID (pp_StreamID p) \<and> \<not> fr_AllowIllegalWrites fr then Inl ErrStreamID
      else
        let flgs = (if pp_PadLength p \<noteq> 0 then FlagPadded else 0) OR (if pp_EndHeaders p then FlagEndHeaders else 0);
            wbuf = startWrite FramePushPromise flgs (pp_StreamID p);
            wbuf1 = (if pp_PadLength p \<noteq> 0 then wbuf @ [pp_PadLength p] else wbuf)
        in if \<not> validStreamID (pp_PromiseID p) \<and> \<not> fr_AllowIllegalWrites fr then Inl ErrStreamID
           else endWrite (wbuf1 @ put_uint32 (pp_PromiseID p) @ pp_BlockFragment p @ replicate (unat (pp_PadLength p)) 0))"

definition WriteRawFrame :: "byte \<Rightarrow> flags \<Rightarrow> uint32 \<Rightarrow> byte list \<Rightarrow> h2_error + byte list" where
  "WriteRawFrame t flgs streamID payload = endWrite (startWrite t flgs streamID @ payload)"

section \<open>Reading\<close>

text \<open>\<open>io.ReadFull\<close>: the first \<open>n\<close> bytes, or an error when the connection ends before.\<close>

definition readFull :: "nat \<Rightarrow> byte list \<Rightarrow> (h2_error + byte list) \<times> byte list" where
  "readFull n r = (if length r < n then (Inl (if r = [] then ErrEOF else ErrUnexpectedEOF), []) else (Inr (take n r), drop n r))"

definition decode_header :: "byte list \<Rightarrow> frame_header" where
  "decode_header buf = \<lparr> fh_Type = buf ! 3, fh_Flags = buf ! 4, fh_Length = be_uint24 buf, fh_StreamID = be_uint32 (drop 5 buf) AND mask 31 \<rparr>"

definition readFrameHeader :: "byte list \<Rightarrow> (h2_error + frame_header) \<times> byte list" where
  "readFrameHeader r = (case readFull frameHeaderLen r of (Inl e, r1) \<Rightarrow> (Inl e, r1) | (Inr buf, r1) \<Rightarrow> (Inr (decode_header buf), r1))"

definition readByte :: "byte list \<Rightarrow> h2_error + byte list \<times> byte" where
  "readByte p = (case p of [] \<Rightarrow> Inl ErrUnexpectedEOF | b # q \<Rightarrow> Inr (q, b))"

definition readUint32 :: "byte list \<Rightarrow> h2_error + byte list \<times> uint32" where
  "readUint32 p = (if length p < 4 then Inl ErrUnexpectedEOF else Inr (drop 4 p, be_uint32 (take 4 p)))"

text \<open>The length of the padding, when the frame has the flag for it.\<close>

definition readPad :: "frame_header \<Rightarrow> byte list \<Rightarrow> h2_error + byte list \<times> byte" where
  "readPad fh p = (if flag_has (fh_Flags fh) FlagPadded then readByte p else Inr (p, 0))"

definition parseDataFrame :: "frame_header \<Rightarrow> byte list \<Rightarrow> h2_error + h2_frame" where
  "parseDataFrame fh payload =
     (if fh_StreamID fh = 0 then Inl (ConnError ErrCodeProtocol)
      else case readPad fh payload of
        Inl e \<Rightarrow> Inl e
      | Inr (p, padSize) \<Rightarrow>
          if unat padSize > length p then Inl (ConnError ErrCodeProtocol)
          else Inr (DataFrame fh (take (length p - unat padSize) p)))"

definition NumSettings :: "byte list \<Rightarrow> nat" where
  "NumSettings p = length p div 6"

definition frame_Setting :: "byte list \<Rightarrow> nat \<Rightarrow> setting" where
  "frame_Setting p i = \<lparr> set_ID = be_uint16 (take 2 (drop (i * 6) p)), set_Val = be_uint32 (take 4 (drop (i * 6 + 2) p)) \<rparr>"

definition settings_Value :: "byte list \<Rightarrow> 16 word \<Rightarrow> uint32 option" where
  "settings_Value p sid = map_option set_Val (find (\<lambda>s. set_ID s = sid) (map (frame_Setting p) [0..<NumSettings p]))"

definition SettingInitialWindowSize :: "16 word" where
  "SettingInitialWindowSize = 4"

definition parseSettingsFrame :: "frame_header \<Rightarrow> byte list \<Rightarrow> h2_error + h2_frame" where
  "parseSettingsFrame fh p =
     (if flag_has (fh_Flags fh) FlagAck \<and> fh_Length fh > 0 then Inl (ConnectionError ErrCodeFrameSize)
      else if fh_StreamID fh \<noteq> 0 then Inl (ConnectionError ErrCodeProtocol)
      else if length p mod 6 \<noteq> 0 then Inl (ConnectionError ErrCodeFrameSize)
      else case settings_Value p SettingInitialWindowSize of
             Some v \<Rightarrow> if v > mask 31 then Inl (ConnectionError ErrCodeFlowControl) else Inr (SettingsFrame fh p)
           | None \<Rightarrow> Inr (SettingsFrame fh p))"

definition parsePingFrame :: "frame_header \<Rightarrow> byte list \<Rightarrow> h2_error + h2_frame" where
  "parsePingFrame fh payload =
     (if length payload \<noteq> 8 then Inl (ConnectionError ErrCodeFrameSize)
      else if fh_StreamID fh \<noteq> 0 then Inl (ConnectionError ErrCodeProtocol)
      else Inr (PingFrame fh payload))"

definition parseGoAwayFrame :: "frame_header \<Rightarrow> byte list \<Rightarrow> h2_error + h2_frame" where
  "parseGoAwayFrame fh p =
     (if fh_StreamID fh \<noteq> 0 then Inl (ConnectionError ErrCodeProtocol)
      else if length p < 8 then Inl (ConnectionError ErrCodeFrameSize)
      else Inr (GoAwayFrame fh (be_uint32 (take 4 p) AND mask 31) (be_uint32 (take 4 (drop 4 p))) (drop 8 p)))"

definition parseUnknownFrame :: "frame_header \<Rightarrow> byte list \<Rightarrow> h2_error + h2_frame" where
  "parseUnknownFrame fh p = Inr (UnknownFrame fh p)"

definition parseWindowUpdateFrame :: "frame_header \<Rightarrow> byte list \<Rightarrow> h2_error + h2_frame" where
  "parseWindowUpdateFrame fh p =
     (if length p \<noteq> 4 then Inl (ConnectionError ErrCodeFrameSize)
      else let inc = be_uint32 (take 4 p) AND 0x7fffffff in
           if inc = 0 then
             (if fh_StreamID fh = 0 then Inl (ConnectionError ErrCodeProtocol) else Inl (StreamErr (fh_StreamID fh) ErrCodeProtocol))
           else Inr (WindowUpdateFrame fh inc))"

text \<open>The five bytes of a priority.\<close>

definition readPriority :: "byte list \<Rightarrow> h2_error + byte list \<times> priority_param" where
  "readPriority p =
     (case readUint32 p of
        Inl e \<Rightarrow> Inl e
      | Inr (p1, v) \<Rightarrow>
          (case readByte p1 of
             Inl e \<Rightarrow> Inl e
           | Inr (p2, w) \<Rightarrow>
               let dep = v AND 0x7fffffff
               in Inr (p2, \<lparr> pr_StreamDep = dep, pr_Exclusive = (v \<noteq> dep), pr_Weight = w \<rparr>)))"

definition parseHeadersFrame :: "frame_header \<Rightarrow> byte list \<Rightarrow> h2_error + h2_frame" where
  "parseHeadersFrame fh p =
     (if fh_StreamID fh = 0 then Inl (ConnError ErrCodeProtocol)
      else case readPad fh p of
        Inl e \<Rightarrow> Inl e
      | Inr (p1, padLength) \<Rightarrow>
          (case (if flag_has (fh_Flags fh) FlagPriority then readPriority p1 else Inr (p1, prio_zero)) of
             Inl e \<Rightarrow> Inl e
           | Inr (p2, prio) \<Rightarrow>
               if int (length p2) - int (unat padLength) \<le> 0 then Inl (StreamErr (fh_StreamID fh) ErrCodeProtocol)
               else Inr (HeadersFrame fh prio (take (length p2 - unat padLength) p2))))"

definition parsePriorityFrame :: "frame_header \<Rightarrow> byte list \<Rightarrow> h2_error + h2_frame" where
  "parsePriorityFrame fh payload =
     (if fh_StreamID fh = 0 then Inl (ConnError ErrCodeProtocol)
      else if length payload \<noteq> 5 then Inl (ConnError ErrCodeFrameSize)
      else let v = be_uint32 (take 4 payload); streamID = v AND 0x7fffffff
           in Inr (PriorityFrame fh \<lparr> pr_StreamDep = streamID, pr_Exclusive = (streamID \<noteq> v), pr_Weight = payload ! 4 \<rparr>))"

definition parseRSTStreamFrame :: "frame_header \<Rightarrow> byte list \<Rightarrow> h2_error + h2_frame" where
  "parseRSTStreamFrame fh p =
     (if length p \<noteq> 4 then Inl (ConnectionError ErrCodeFrameSize)
      else if fh_StreamID fh = 0 then Inl (ConnectionError ErrCodeProtocol)
      else Inr (RSTStreamFrame fh (be_uint32 (take 4 p))))"

definition parseContinuationFrame :: "frame_header \<Rightarrow> byte list \<Rightarrow> h2_error + h2_frame" where
  "parseContinuationFrame fh p =
     (if fh_StreamID fh = 0 then Inl (ConnError ErrCodeProtocol) else Inr (ContinuationFrame fh p))"

definition parsePushPromise :: "frame_header \<Rightarrow> byte list \<Rightarrow> h2_error + h2_frame" where
  "parsePushPromise fh p =
     (if fh_StreamID fh = 0 then Inl (ConnectionError ErrCodeProtocol)
      else case readPad fh p of
        Inl e \<Rightarrow> Inl e
      | Inr (p1, padLength) \<Rightarrow>
          (case readUint32 p1 of
             Inl e \<Rightarrow> Inl e
           | Inr (p2, promiseID) \<Rightarrow>
               if unat padLength > length p2 then Inl (ConnectionError ErrCodeProtocol)
               else Inr (PushPromiseFrame fh (promiseID AND mask 31) (take (length p2 - unat padLength) p2))))"

definition typeFrameParser :: "byte \<Rightarrow> frame_header \<Rightarrow> byte list \<Rightarrow> h2_error + h2_frame" where
  "typeFrameParser t =
     (if t = FrameData then parseDataFrame
      else if t = FrameHeaders then parseHeadersFrame
      else if t = FramePriority then parsePriorityFrame
      else if t = FrameRSTStream then parseRSTStreamFrame
      else if t = FrameSettings then parseSettingsFrame
      else if t = FramePushPromise then parsePushPromise
      else if t = FramePing then parsePingFrame
      else if t = FrameGoAway then parseGoAwayFrame
      else if t = FrameWindowUpdate then parseWindowUpdateFrame
      else if t = FrameContinuation then parseContinuationFrame
      else parseUnknownFrame)"

definition checkFrameOrder :: "h2_frame \<Rightarrow> framer \<Rightarrow> h2_error option \<times> framer" where
  "checkFrameOrder f fr =
     (let fr1 = fr\<lparr> fr_lastFrame := Some f \<rparr>; fh = frame_hdr f in
      if fr_AllowIllegalReads fr1 then (None, fr1)
      else if fr_lastHeaderStream fr1 \<noteq> 0 \<and> (fh_Type fh \<noteq> FrameContinuation \<or> fh_StreamID fh \<noteq> fr_lastHeaderStream fr1)
      then (Some (ConnectionError ErrCodeProtocol), fr1)
      else if fr_lastHeaderStream fr1 = 0 \<and> fh_Type fh = FrameContinuation then (Some (ConnectionError ErrCodeProtocol), fr1)
      else if fh_Type fh = FrameHeaders \<or> fh_Type fh = FrameContinuation then
        (None, fr1\<lparr> fr_lastHeaderStream := (if flag_has (fh_Flags fh) FlagEndHeaders then 0 else fh_StreamID fh) \<rparr>)
      else (None, fr1))"

definition ReadFrame :: "framer \<Rightarrow> byte list \<Rightarrow> (h2_error + h2_frame) \<times> framer \<times> byte list" where
  "ReadFrame fr r =
     (case readFrameHeader r of
        (Inl e, r1) \<Rightarrow> (Inl e, fr, r1)
      | (Inr fh, r1) \<Rightarrow>
          if fh_Length fh > fr_maxReadSize fr then (Inl ErrFrameTooLarge, fr, r1)
          else
            (case readFull (unat (fh_Length fh)) r1 of
               (Inl e, r2) \<Rightarrow> (Inl e, fr, r2)
             | (Inr payload, r2) \<Rightarrow>
                 (case typeFrameParser (fh_Type fh) fh payload of
                    Inl (ConnError code) \<Rightarrow> (Inl (ConnectionError code), fr, r2)
                  | Inl e \<Rightarrow> (Inl e, fr, r2)
                  | Inr f \<Rightarrow>
                      (case checkFrameOrder f fr of
                         (Some e, fr1) \<Rightarrow> (Inl e, fr1, r2)
                       | (None, fr1) \<Rightarrow> (Inr f, fr1, r2)))))"

section \<open>Bytes\<close>

lemma put_uint32_length [simp]: "length (put_uint32 v) = 4" "length (put_uint16 w) = 2" "length (put_uint24 n) = 3"
  by (simp_all add: put_uint32_def put_uint16_def put_uint24_def)

lemma be_put_uint32: "be_uint32 (put_uint32 v) = v"
proof (rule bit_word_eqI)
  fix n assume "n < LENGTH(32)"
  then consider "n < 8" | "8 \<le> n" "n < 16" | "16 \<le> n" "n < 24" | "24 \<le> n" "n < 32" by fastforce
  then show "bit (be_uint32 (put_uint32 v)) n \<longleftrightarrow> bit v n"
    by cases (auto simp: be_uint32_def put_uint32_def bit_simps not_less)
qed

lemma be_put_uint16: "be_uint16 (put_uint16 v) = v"
  unfolding be_uint16_def put_uint16_def
  by (rule bit_word_eqI) (auto simp: bit_simps not_less)

lemma be_put_uint24: "n < 2 ^ 24 \<Longrightarrow> be_uint24 (put_uint24 n @ r) = word_of_nat n"
proof (rule bit_word_eqI)
  fix k assume n: "n < 2 ^ 24" and "k < LENGTH(32)"
  have "take_bit 24 n = n" using n by (simp add: take_bit_nat_eq_self)
  then have hi: "24 \<le> k \<Longrightarrow> \<not> bit n k" by (metis bit_take_bit_iff not_less)
  consider "k < 8" | "8 \<le> k" "k < 16" | "16 \<le> k" "k < 24" | "24 \<le> k" "k < 32" using \<open>k < LENGTH(32)\<close> by fastforce
  then show "bit (be_uint24 (put_uint24 n @ r)) k \<longleftrightarrow> bit (word_of_nat n :: uint32) k"
    by cases (auto simp: be_uint24_def put_uint24_def bit_simps not_less hi)
qed

section \<open>A frame comes back as it was written\<close>

definition mk_header :: "byte \<Rightarrow> flags \<Rightarrow> byte list \<Rightarrow> uint32 \<Rightarrow> frame_header" where
  "mk_header t flgs p streamID = \<lparr> fh_Type = t, fh_Flags = flgs, fh_Length = word_of_nat (length p), fh_StreamID = streamID \<rparr>"

definition deliver :: "h2_error + h2_frame \<Rightarrow> framer \<Rightarrow> byte list \<Rightarrow> (h2_error + h2_frame) \<times> framer \<times> byte list" where
  "deliver res fr r =
     (case res of
        Inl (ConnError code) \<Rightarrow> (Inl (ConnectionError code), fr, r)
      | Inl e \<Rightarrow> (Inl e, fr, r)
      | Inr f \<Rightarrow> (case checkFrameOrder f fr of (Some e, fr1) \<Rightarrow> (Inl e, fr1, r) | (None, fr1) \<Rightarrow> (Inr f, fr1, r)))"

lemma mask31: "(0x7fffffff :: uint32) = mask 31"
  by (simp add: mask_eq_exp_minus_1)

lemma high_bit: "(s :: uint32) AND 2147483648 = 0 \<longleftrightarrow> \<not> bit s 31"
  using and_exp_eq_0_iff_not_bit [of s 31] by simp

lemma valid_mask: "validStreamIDOrZero s \<Longrightarrow> s AND mask 31 = s"
proof (rule bit_word_eqI)
  fix n assume "validStreamIDOrZero s" "n < LENGTH(32)"
  then show "bit (s AND mask 31) n \<longleftrightarrow> bit s n"
    by (cases "n = 31") (auto simp: validStreamIDOrZero_def high_bit bit_simps)
qed

lemma valid_nonzero: "validStreamID s \<longleftrightarrow> s \<noteq> 0 \<and> validStreamIDOrZero s"
  by (simp add: validStreamID_def validStreamIDOrZero_def)

lemma decode_put_header:
  assumes "length p < 2 ^ 24" "validStreamIDOrZero streamID"
  shows "decode_header (put_uint24 (length p) @ [t, flgs] @ put_uint32 streamID) = mk_header t flgs p streamID"
  using assms be_put_uint24 [OF assms(1)]
  by (simp add: decode_header_def mk_header_def be_put_uint32 valid_mask nth_append)

lemma read_written:
  assumes p: "length p < 2 ^ 24" "length p \<le> unat (fr_maxReadSize fr)" and s: "validStreamIDOrZero streamID"
  obtains b where "endWrite (startWrite t flgs streamID @ p) = Inr b"
    "ReadFrame fr (b @ r) = deliver (typeFrameParser t (mk_header t flgs p streamID) p) fr r"
proof -
  let ?h = "put_uint24 (length p) @ [t, flgs] @ put_uint32 streamID"
  have w: "endWrite (startWrite t flgs streamID @ p) = Inr (?h @ p)"
    using p(1) by (simp add: endWrite_def startWrite_def frameHeaderLen_def Let_def)
  have h: "readFrameHeader ((?h @ p) @ r) = (Inr (mk_header t flgs p streamID), p @ r)"
    using decode_put_header [OF p(1) s] by (simp add: readFrameHeader_def readFull_def frameHeaderLen_def)
  have u: "unat (word_of_nat (length p) :: uint32) = length p" using p(1) by (simp add: unsigned_of_nat take_bit_nat_eq_self)
  then have "\<not> fr_maxReadSize fr < (word_of_nat (length p) :: uint32)" using p(2) by (simp add: word_less_nat_alt not_less)
  then have "ReadFrame fr ((?h @ p) @ r) = deliver (typeFrameParser t (mk_header t flgs p streamID) p) fr r"
    unfolding ReadFrame_def h using u by (simp add: mk_header_def readFull_def deliver_def)
  then show thesis using w that by blast
qed

text \<open>Flags are single bits, so each is seen whatever the others are.\<close>

lemma flag_has_bits [simp]:
  "flag_has f FlagEndStream \<longleftrightarrow> bit f 0" "flag_has f FlagAck \<longleftrightarrow> bit f 0" "flag_has f FlagEndHeaders \<longleftrightarrow> bit f 2"
  "flag_has f FlagPadded \<longleftrightarrow> bit f 3" "flag_has f FlagPriority \<longleftrightarrow> bit f 5"
proof -
  have "f AND push_bit k 1 = push_bit k 1 \<longleftrightarrow> bit f k" if "k < 8" for k
  proof
    assume "f AND push_bit k 1 = push_bit k 1"
    then have "bit (f AND push_bit k 1) k" using that by (simp add: bit_simps)
    then show "bit f k" by (simp add: bit_simps)
  next
    assume "bit f k"
    then show "f AND push_bit k 1 = push_bit k 1" by (intro bit_word_eqI) (auto simp: bit_simps)
  qed
  from this [of 0] this [of 2] this [of 3] this [of 5]
  show "flag_has f FlagEndStream \<longleftrightarrow> bit f 0" "flag_has f FlagAck \<longleftrightarrow> bit f 0" "flag_has f FlagEndHeaders \<longleftrightarrow> bit f 2"
    "flag_has f FlagPadded \<longleftrightarrow> bit f 3" "flag_has f FlagPriority \<longleftrightarrow> bit f 5"
    by (simp_all add: flag_has_def frame_flags push_bit_eq_mult)
qed

lemma flag_bits [simp]:
  "bit FlagEndStream n \<longleftrightarrow> n = 0" "bit FlagAck n \<longleftrightarrow> n = 0" "bit FlagEndHeaders n \<longleftrightarrow> n = 2"
  "bit FlagPadded n \<longleftrightarrow> n = 3" "bit FlagPriority n \<longleftrightarrow> n = 5"
proof -
  have k: "bit (push_bit k 1 :: flags) n \<longleftrightarrow> n = k" if "k < 8" for k using that by (auto simp: bit_simps)
  show "bit FlagEndStream n \<longleftrightarrow> n = 0" "bit FlagAck n \<longleftrightarrow> n = 0" "bit FlagEndHeaders n \<longleftrightarrow> n = 2"
    "bit FlagPadded n \<longleftrightarrow> n = 3" "bit FlagPriority n \<longleftrightarrow> n = 5"
    using k [of 0] k [of 2] k [of 3] k [of 5] by (simp_all add: frame_flags push_bit_eq_mult)
qed

section \<open>Every kind of frame\<close>

datatype frame_cmd =
    CData uint32 bool "byte list" "byte list option"
  | CSettings "setting list"
  | CSettingsAck
  | CPing bool "byte list"
  | CGoAway uint32 uint32 "byte list"
  | CWindowUpdate uint32 uint32
  | CHeaders headers_param
  | CPriority uint32 priority_param
  | CRSTStream uint32 uint32
  | CContinuation uint32 bool "byte list"
  | CPushPromise push_param

fun write_cmd :: "framer \<Rightarrow> frame_cmd \<Rightarrow> h2_error + byte list" where
  "write_cmd fr (CData i es d pad) = WriteDataPadded fr i es d pad"
| "write_cmd fr (CSettings ss) = WriteSettings ss"
| "write_cmd fr CSettingsAck = WriteSettingsAck"
| "write_cmd fr (CPing ack d) = WritePing ack d"
| "write_cmd fr (CGoAway i code d) = WriteGoAway i code d"
| "write_cmd fr (CWindowUpdate i n) = WriteWindowUpdate fr i n"
| "write_cmd fr (CHeaders p) = WriteHeaders fr p"
| "write_cmd fr (CPriority i p) = WritePriority fr i p"
| "write_cmd fr (CRSTStream i code) = WriteRSTStream fr i code"
| "write_cmd fr (CContinuation i eh d) = WriteContinuation fr i eh d"
| "write_cmd fr (CPushPromise p) = WritePushPromise fr p"

text \<open>Type, flags, stream and payload of the frame that a command writes.\<close>

fun cmd_parts :: "frame_cmd \<Rightarrow> byte \<times> flags \<times> uint32 \<times> byte list" where
  "cmd_parts (CData i es d pad) =
     (FrameData, (if es then FlagEndStream else 0) OR (if pad \<noteq> None then FlagPadded else 0), i,
      (case pad of None \<Rightarrow> d | Some ps \<Rightarrow> word_of_nat (length ps) # d @ ps))"
| "cmd_parts (CSettings ss) = (FrameSettings, 0, 0, concat (map (\<lambda>s. put_uint16 (set_ID s) @ put_uint32 (set_Val s)) ss))"
| "cmd_parts CSettingsAck = (FrameSettings, FlagAck, 0, [])"
| "cmd_parts (CPing ack d) = (FramePing, if ack then FlagAck else 0, 0, d)"
| "cmd_parts (CGoAway i code d) = (FrameGoAway, 0, 0, put_uint32 (i AND mask 31) @ put_uint32 code @ d)"
| "cmd_parts (CWindowUpdate i n) = (FrameWindowUpdate, 0, i, put_uint32 n)"
| "cmd_parts (CHeaders p) =
     (FrameHeaders, (if hp_PadLength p \<noteq> 0 then FlagPadded else 0) OR (if hp_EndStream p then FlagEndStream else 0) OR
        (if hp_EndHeaders p then FlagEndHeaders else 0) OR (if hp_Priority p \<noteq> prio_zero then FlagPriority else 0),
      hp_StreamID p,
      (if hp_PadLength p \<noteq> 0 then [hp_PadLength p] else []) @
      (if hp_Priority p \<noteq> prio_zero then put_priority (hp_Priority p) else []) @
      hp_BlockFragment p @ replicate (unat (hp_PadLength p)) 0)"
| "cmd_parts (CPriority i p) = (FramePriority, 0, i, put_priority p)"
| "cmd_parts (CRSTStream i code) = (FrameRSTStream, 0, i, put_uint32 code)"
| "cmd_parts (CContinuation i eh d) = (FrameContinuation, if eh then FlagEndHeaders else 0, i, d)"
| "cmd_parts (CPushPromise p) =
     (FramePushPromise, (if pp_PadLength p \<noteq> 0 then FlagPadded else 0) OR (if pp_EndHeaders p then FlagEndHeaders else 0),
      pp_StreamID p,
      (if pp_PadLength p \<noteq> 0 then [pp_PadLength p] else []) @
      put_uint32 (pp_PromiseID p) @ pp_BlockFragment p @ replicate (unat (pp_PadLength p)) 0)"

definition cmd_header :: "frame_cmd \<Rightarrow> frame_header" where
  "cmd_header c = (case cmd_parts c of (t, flgs, i, p) \<Rightarrow> mk_header t flgs p i)"

definition cmd_payload :: "frame_cmd \<Rightarrow> byte list" where
  "cmd_payload c = snd (snd (snd (cmd_parts c)))"

text \<open>The frame that the reader should see.\<close>

fun cmd_frame :: "frame_cmd \<Rightarrow> h2_frame" where
  "cmd_frame (CData i es d pad) = DataFrame (cmd_header (CData i es d pad)) d"
| "cmd_frame (CSettings ss) = SettingsFrame (cmd_header (CSettings ss)) (cmd_payload (CSettings ss))"
| "cmd_frame CSettingsAck = SettingsFrame (cmd_header CSettingsAck) []"
| "cmd_frame (CPing ack d) = PingFrame (cmd_header (CPing ack d)) d"
| "cmd_frame (CGoAway i code d) = GoAwayFrame (cmd_header (CGoAway i code d)) (i AND mask 31) code d"
| "cmd_frame (CWindowUpdate i n) = WindowUpdateFrame (cmd_header (CWindowUpdate i n)) n"
| "cmd_frame (CHeaders p) = HeadersFrame (cmd_header (CHeaders p)) (hp_Priority p) (hp_BlockFragment p)"
| "cmd_frame (CPriority i p) = PriorityFrame (cmd_header (CPriority i p)) p"
| "cmd_frame (CRSTStream i code) = RSTStreamFrame (cmd_header (CRSTStream i code)) code"
| "cmd_frame (CContinuation i eh d) = ContinuationFrame (cmd_header (CContinuation i eh d)) d"
| "cmd_frame (CPushPromise p) = PushPromiseFrame (cmd_header (CPushPromise p)) (pp_PromiseID p) (pp_BlockFragment p)"

fun cmd_ok :: "frame_cmd \<Rightarrow> bool" where
  "cmd_ok (CData i es d pad) = (validStreamID i \<and> (case pad of None \<Rightarrow> True | Some ps \<Rightarrow> length ps \<le> 255 \<and> list_all (\<lambda>b. b = 0) ps))"
| "cmd_ok (CSettings ss) = list_all (\<lambda>s. set_ID s = SettingInitialWindowSize \<longrightarrow> set_Val s \<le> mask 31) ss"
| "cmd_ok CSettingsAck = True"
| "cmd_ok (CPing ack d) = (length d = 8)"
| "cmd_ok (CGoAway i code d) = True"
| "cmd_ok (CWindowUpdate i n) = (validStreamIDOrZero i \<and> 0 < n \<and> n \<le> 0x7fffffff)"
| "cmd_ok (CHeaders p) = (validStreamID (hp_StreamID p) \<and> validStreamIDOrZero (pr_StreamDep (hp_Priority p)) \<and> hp_BlockFragment p \<noteq> [])"
| "cmd_ok (CPriority i p) = (validStreamID i \<and> validStreamIDOrZero (pr_StreamDep p))"
| "cmd_ok (CRSTStream i code) = validStreamID i"
| "cmd_ok (CContinuation i eh d) = validStreamID i"
| "cmd_ok (CPushPromise p) = (validStreamID (pp_StreamID p) \<and> validStreamID (pp_PromiseID p))"

lemma write_cmd_parts:
  "cmd_ok c \<Longrightarrow> write_cmd fr c = (case cmd_parts c of (t, flgs, i, p) \<Rightarrow> endWrite (startWrite t flgs i @ p))"
proof (cases c)
  case (CData i es d pad)
  moreover assume "cmd_ok c"
  ultimately show ?thesis by (cases pad) (auto simp: WriteDataPadded_def Let_def list_all_iff)
next
  case (CSettings ss)
  have "fold (\<lambda>s wbuf. wbuf @ put_uint16 (set_ID s) @ put_uint32 (set_Val s)) ss w =
      w @ concat (map (\<lambda>s. put_uint16 (set_ID s) @ put_uint32 (set_Val s)) ss)" for w
    by (induction ss arbitrary: w) simp_all
  then show ?thesis using CSettings by (simp add: WriteSettings_def)
next
  case (CWindowUpdate i n)
  moreover assume "cmd_ok c"
  ultimately show ?thesis by (auto simp: WriteWindowUpdate_def word_less_nat_alt word_le_nat_alt)
qed (auto simp: WriteSettingsAck_def WritePing_def WriteGoAway_def WriteHeaders_def WritePriority_def
    WriteRSTStream_def WriteContinuation_def WritePushPromise_def Let_def)

lemma take_put_uint32 [simp]: "take 4 (put_uint32 v @ r) = put_uint32 v" "drop 4 (put_uint32 v @ r) = r"
  by (simp_all add: put_uint32_def numeral_eq_Suc)

lemma readUint32_put [simp]: "readUint32 (put_uint32 v @ r) = Inr (r, v)"
  by (simp add: readUint32_def be_put_uint32)

lemma readPad_put:
  "bit (fh_Flags fh) 3 \<Longrightarrow> readPad fh (b # p) = Inr (p, b)" "\<not> bit (fh_Flags fh) 3 \<Longrightarrow> readPad fh p = Inr (p, 0)"
  by (simp_all add: readPad_def readByte_def)

lemma bit_if_flag [simp]: "bit (if b then f else (0 :: flags)) k \<longleftrightarrow> b \<and> bit f k"
  by simp

lemma bit_high [simp]: "bit (2147483648 :: uint32) n \<longleftrightarrow> n = 31"
  using bit_exp_iff [of 31 n, where 'a = "32 word"] by auto

text \<open>The exclusive flag is the high bit of the dependency.\<close>

lemma prio_word:
  assumes "validStreamIDOrZero d" and v_def: "v = (if e then d OR push_bit 31 1 else d)"
  shows "v AND 0x7fffffff = d" "(v \<noteq> d) = e" "(d \<noteq> v) = e"
proof -
  have h: "\<not> bit d 31" using assms(1) by (simp add: validStreamIDOrZero_def high_bit)
  show "v AND 0x7fffffff = d"
  proof (rule bit_word_eqI)
    fix n assume "n < LENGTH(32)"
    then show "bit (v AND 0x7fffffff) n \<longleftrightarrow> bit d n"
      unfolding mask31 v_def using h bit_high [of n] by (cases "n = 31") (auto simp: bit_or_iff bit_and_iff bit_mask_iff)
  qed
  have "bit v 31 = e" using h by (auto simp: v_def bit_or_iff bit_push_bit_iff)
  then show "(v \<noteq> d) = e" "(d \<noteq> v) = e" using h by (auto simp: v_def)
qed

lemma readPriority_put:
  assumes "validStreamIDOrZero (pr_StreamDep p)"
  shows "readPriority (put_priority p @ r) = Inr (r, p)"
  using prio_word [OF assms refl, of "pr_Exclusive p"]
  by (simp add: readPriority_def put_priority_def readByte_def Let_def)

abbreviation put_settings :: "setting list \<Rightarrow> byte list" where
  "put_settings ss \<equiv> concat (map (\<lambda>s. put_uint16 (set_ID s) @ put_uint32 (set_Val s)) ss)"

lemma put_settings_length [simp]: "length (put_settings ss) = 6 * length ss"
  by (induction ss) simp_all

lemma frame_Setting_put: "map (frame_Setting (put_settings ss @ r)) [0..<length ss] = ss"
proof (induction ss)
  case (Cons s ss)
  let ?x = "put_uint16 (set_ID s) @ put_uint32 (set_Val s)" and ?p = "put_settings ss @ r"
  have d: "drop (6 + k) (?x @ ?p) = drop k ?p" "drop (8 + k) (?x @ ?p) = drop (2 + k) ?p" for k by simp_all
  have shift: "frame_Setting (?x @ ?p) (Suc i) = frame_Setting ?p i" for i
    using d(1) [of "i * 6"] d(2) [of "i * 6"] by (simp add: frame_Setting_def add.commute)
  have "take 2 ?x = put_uint16 (set_ID s)" "drop 2 ?x = put_uint32 (set_Val s)" by simp_all
  then have "frame_Setting (?x @ ?p) 0 = s" by (simp add: frame_Setting_def be_put_uint32 be_put_uint16)
  then show ?case using Cons shift by (simp add: upt_conv_Cons map_Suc_upt [symmetric] comp_def del: upt_Suc)
qed simp

lemma settings_Value_put:
  "list_all (\<lambda>s. set_ID s = i \<longrightarrow> set_Val s \<le> b) ss \<Longrightarrow> settings_Value (put_settings ss) i = Some v \<Longrightarrow> v \<le> b"
  using frame_Setting_put [of ss "[]"] by (auto simp: settings_Value_def NumSettings_def find_Some_iff list_all_iff)

lemma unat_pad: "n \<le> 255 \<Longrightarrow> unat (word_of_nat n :: byte) = n"
  by (simp add: unsigned_of_nat take_bit_nat_eq_self)

lemma parse_cmd:
  assumes "cmd_ok c" "cmd_parts c = (t, flgs, i, p)"
  shows "typeFrameParser t (mk_header t flgs p i) p = Inr (cmd_frame c)"
proof (cases c)
  case (CData i' es d pad)
  have "flgs = (if es then FlagEndStream else 0) OR (if pad \<noteq> None then FlagPadded else 0)" using assms CData by auto
  then have f: "bit flgs 3 \<longleftrightarrow> pad \<noteq> None" by (simp add: bit_or_iff)
  show ?thesis
  proof (cases pad)
    case None
    then show ?thesis
      using assms CData f readPad_put(2) [of "mk_header t flgs p i" p]
      by (auto simp: typeFrameParser_def parseDataFrame_def cmd_header_def valid_nonzero mk_header_def)
  next
    case (Some ps)
    then show ?thesis
      using assms CData f readPad_put(1) [of "mk_header t flgs p i" "word_of_nat (length ps)" "d @ ps"]
      by (auto simp: typeFrameParser_def parseDataFrame_def cmd_header_def valid_nonzero mk_header_def unat_pad)
  qed
next
  case (CSettings ss)
  have "v \<le> mask 31" if "settings_Value (put_settings ss) SettingInitialWindowSize = Some v" for v
    by (rule settings_Value_put [OF _ that]) (use assms(1) CSettings in simp)
  then show ?thesis using assms CSettings
    by (auto simp: typeFrameParser_def frame_types parseSettingsFrame_def cmd_header_def cmd_payload_def mk_header_def not_less split: option.splits)
next
  case CSettingsAck
  then show ?thesis using assms
    by (auto simp: typeFrameParser_def frame_types parseSettingsFrame_def cmd_header_def mk_header_def settings_Value_def NumSettings_def)
next
  case (CHeaders h)
  let ?h = "mk_header t flgs p i"
  have f: "bit flgs 3 \<longleftrightarrow> hp_PadLength h \<noteq> 0" "bit flgs 5 \<longleftrightarrow> hp_Priority h \<noteq> prio_zero"
    using assms(2) CHeaders by (auto simp: bit_or_iff)
  let ?q = "hp_BlockFragment h @ replicate (unat (hp_PadLength h)) 0"
  have pad: "readPad ?h p = Inr ((if hp_Priority h \<noteq> prio_zero then put_priority (hp_Priority h) else []) @ ?q, hp_PadLength h)"
    using assms(2) CHeaders f(1) readPad_put [of ?h] by (auto simp: mk_header_def)
  have prio: "(if flag_has (fh_Flags ?h) FlagPriority
        then readPriority ((if hp_Priority h \<noteq> prio_zero then put_priority (hp_Priority h) else []) @ ?q)
        else Inr ((if hp_Priority h \<noteq> prio_zero then put_priority (hp_Priority h) else []) @ ?q, prio_zero)) = Inr (?q, hp_Priority h)"
    using f(2) assms(1) CHeaders by (auto simp: mk_header_def readPriority_put)
  show ?thesis
    using assms CHeaders pad prio
    by (auto simp: typeFrameParser_def frame_types parseHeadersFrame_def cmd_header_def valid_nonzero mk_header_def)
next
  case (CPushPromise h)
  let ?h = "mk_header t flgs p i"
  have f: "bit flgs 3 \<longleftrightarrow> pp_PadLength h \<noteq> 0" using assms(2) CPushPromise by (auto simp: bit_or_iff)
  have "readPad ?h p = Inr (put_uint32 (pp_PromiseID h) @ pp_BlockFragment h @ replicate (unat (pp_PadLength h)) 0, pp_PadLength h)"
    using assms(2) CPushPromise f readPad_put [of ?h] by (auto simp: mk_header_def)
  then show ?thesis
    using assms CPushPromise
    by (auto simp: typeFrameParser_def frame_types parsePushPromise_def cmd_header_def valid_nonzero valid_mask mk_header_def)
next
  case (CPriority i' q)
  have v: "validStreamIDOrZero (pr_StreamDep q)" using assms(1) CPriority by simp
  then show ?thesis
    using assms CPriority prio_word [OF v refl, of "pr_Exclusive q"] be_put_uint32
    by (auto simp: typeFrameParser_def frame_types parsePriorityFrame_def cmd_header_def valid_nonzero mk_header_def put_priority_def Let_def
        nth_append)
next
  case (CWindowUpdate i' n)
  have "n < 2 ^ 31" using assms(1) CWindowUpdate by (simp add: word_less_nat_alt word_le_nat_alt)
  then have "n AND 0x7fffffff = n" by (simp only: mask31 less_mask_eq)
  moreover have e: "t = FrameWindowUpdate" "flgs = 0" "i = i'" "p = put_uint32 n" using assms(2) CWindowUpdate by auto
  moreover have "n \<noteq> 0" using assms(1) CWindowUpdate by auto
  ultimately show ?thesis
    unfolding e CWindowUpdate
    by (simp add: typeFrameParser_def frame_types parseWindowUpdateFrame_def cmd_header_def mk_header_def be_put_uint32)
qed (use assms be_put_uint32 in \<open>auto simp: typeFrameParser_def frame_types parsePingFrame_def parseGoAwayFrame_def parseRSTStreamFrame_def
      parseContinuationFrame_def cmd_header_def valid_nonzero mk_header_def\<close>)

section \<open>A connection\<close>

text \<open>The order of frames that a reader accepts: between HEADERS and the end of the headers only CONTINUATION of the same stream.\<close>

fun order_ok :: "uint32 \<Rightarrow> frame_cmd list \<Rightarrow> bool" where
  "order_ok l [] = True"
| "order_ok l (c # cs) =
     (let fh = cmd_header c; cont = (fh_Type fh = FrameContinuation) in
      (if l = 0 then \<not> cont else cont \<and> fh_StreamID fh = l) \<and>
      order_ok (if fh_Type fh = FrameHeaders \<or> cont then (if flag_has (fh_Flags fh) FlagEndHeaders then 0 else fh_StreamID fh) else l) cs)"

fun write_all :: "framer \<Rightarrow> frame_cmd list \<Rightarrow> h2_error + byte list" where
  "write_all fr [] = Inr []"
| "write_all fr (c # cs) =
     (case write_cmd fr c of
        Inl e \<Rightarrow> Inl e
      | Inr b \<Rightarrow> (case write_all fr cs of Inl e \<Rightarrow> Inl e | Inr bs \<Rightarrow> Inr (b @ bs)))"

fun read_all :: "nat \<Rightarrow> framer \<Rightarrow> byte list \<Rightarrow> h2_error + h2_frame list \<times> byte list" where
  "read_all 0 fr r = Inr ([], r)"
| "read_all (Suc n) fr r =
     (case ReadFrame fr r of
        (Inl e, _, _) \<Rightarrow> Inl e
      | (Inr f, fr1, r1) \<Rightarrow> (case read_all n fr1 r1 of Inl e \<Rightarrow> Inl e | Inr (fs, r2) \<Rightarrow> Inr (f # fs, r2)))"

lemma cmd_frame_header: "frame_hdr (cmd_frame c) = cmd_header c"
  by (cases c) simp_all

lemma cmd_stream_valid: "cmd_ok c \<Longrightarrow> cmd_parts c = (t, flgs, i, p) \<Longrightarrow> validStreamIDOrZero i"
  by (cases c) (auto simp: valid_nonzero validStreamIDOrZero_def)

lemma read_cmd:
  assumes ok: "cmd_ok c" and len: "length (cmd_payload c) \<le> unat (fr_maxReadSize rd)" and m: "fr_maxReadSize rd \<le> max_frame_size"
    and ord: "order_ok (fr_lastHeaderStream rd) (c # cs)" and strict: "\<not> fr_AllowIllegalReads rd"
  obtains b rd1 where "write_cmd wr c = Inr b" "\<And>r. ReadFrame rd (b @ r) = (Inr (cmd_frame c), rd1, r)"
    "order_ok (fr_lastHeaderStream rd1) cs" "fr_maxReadSize rd1 = fr_maxReadSize rd" "\<not> fr_AllowIllegalReads rd1"
proof -
  obtain t flgs i p where parts: "cmd_parts c = (t, flgs, i, p)" by (cases "cmd_parts c") auto
  have p: "p = cmd_payload c" and h: "mk_header t flgs p i = cmd_header c" using parts by (simp_all add: cmd_payload_def cmd_header_def)
  have "unat (fr_maxReadSize rd) < 2 ^ 24" using m by (simp add: max_frame_size_def word_le_nat_alt)
  then have l: "length p < 2 ^ 24" "length p \<le> unat (fr_maxReadSize rd)" using len p by simp_all
  define rd1 where "rd1 = snd (checkFrameOrder (cmd_frame c) rd)"
  have chk: "checkFrameOrder (cmd_frame c) rd = (None, rd1)" "order_ok (fr_lastHeaderStream rd1) cs"
      "fr_maxReadSize rd1 = fr_maxReadSize rd" "\<not> fr_AllowIllegalReads rd1"
    using ord strict by (auto simp: rd1_def checkFrameOrder_def Let_def cmd_frame_header split: if_splits)
  obtain b where b: "endWrite (startWrite t flgs i @ p) = Inr b"
    using read_written [OF l cmd_stream_valid [OF ok parts], of t flgs] by metis
  have "ReadFrame rd (b @ r) = (Inr (cmd_frame c), rd1, r)" for r
    using read_written [OF l cmd_stream_valid [OF ok parts], of t flgs r] b parse_cmd [OF ok parts] chk(1)
    by (auto simp: deliver_def)
  then show thesis using that [of b rd1] write_cmd_parts [OF ok, of wr] parts b chk by simp
qed

text \<open>
  C13: what one side of a connection writes, the other side reads. Take any sequence of DATA (with or without padding), HEADERS (with or without
  padding and priority), PRIORITY, RST_STREAM, SETTINGS, PING, GOAWAY, WINDOW_UPDATE, CONTINUATION and PUSH_PROMISE frames with
  legal arguments, within the reader's frame size and in an order the protocol allows: every write succeeds, and the reader, given the
  bytes written and whatever follows them, returns these frames with the same contents, one by one, and leaves what follows.
\<close>

theorem frames_roundtrip:
  assumes "list_all cmd_ok cs" and "list_all (\<lambda>c. length (cmd_payload c) \<le> unat (fr_maxReadSize rd)) cs"
    and "fr_maxReadSize rd \<le> max_frame_size" and "order_ok (fr_lastHeaderStream rd) cs" and "\<not> fr_AllowIllegalReads rd"
  shows "\<exists>b. write_all wr cs = Inr b \<and> read_all (length cs) rd (b @ rest) = Inr (map cmd_frame cs, rest)"
  using assms
proof (induction cs arbitrary: rd)
  case (Cons c cs)
  obtain b rd1 where b: "write_cmd wr c = Inr b" "\<And>r. ReadFrame rd (b @ r) = (Inr (cmd_frame c), rd1, r)"
    "order_ok (fr_lastHeaderStream rd1) cs" "fr_maxReadSize rd1 = fr_maxReadSize rd" "\<not> fr_AllowIllegalReads rd1"
    by (rule read_cmd [of c rd cs wr]) (use Cons.prems in simp_all)
  then obtain bs where "write_all wr cs = Inr bs" "read_all (length cs) rd1 (bs @ rest) = Inr (map cmd_frame cs, rest)"
    using Cons.IH [of rd1] Cons.prems by auto
  then show ?case using b(1,2) by simp
qed simp

section \<open>What a reader returns is well formed\<close>

text \<open>
  The size of the data of a frame that may be padded and has \<open>n\<close> other bytes: all of the payload, or what the length byte and at most 255 bytes of padding leave.
\<close>

definition padded_size :: "frame_header \<Rightarrow> nat \<Rightarrow> byte list \<Rightarrow> bool" where
  "padded_size h n d \<longleftrightarrow>
     (if flag_has (fh_Flags h) FlagPadded then length d + n + 1 \<le> unat (fh_Length h) \<and> unat (fh_Length h) \<le> length d + n + 256
      else length d + n = unat (fh_Length h))"

fun body_wf :: "h2_frame \<Rightarrow> bool" where
  "body_wf (DataFrame h d) = (fh_Type h = FrameData \<and> fh_StreamID h \<noteq> 0 \<and> padded_size h 0 d)"
| "body_wf (HeadersFrame h p d) = (fh_Type h = FrameHeaders \<and> fh_StreamID h \<noteq> 0 \<and> pr_StreamDep p \<le> mask 31 \<and> d \<noteq> [] \<and>
     padded_size h (if flag_has (fh_Flags h) FlagPriority then 5 else 0) d)"
| "body_wf (PriorityFrame h p) = (fh_Type h = FramePriority \<and> fh_StreamID h \<noteq> 0 \<and> pr_StreamDep p \<le> mask 31 \<and> unat (fh_Length h) = 5)"
| "body_wf (RSTStreamFrame h code) = (fh_Type h = FrameRSTStream \<and> fh_StreamID h \<noteq> 0 \<and> unat (fh_Length h) = 4)"
| "body_wf (SettingsFrame h d) = (fh_Type h = FrameSettings \<and> fh_StreamID h = 0 \<and> length d = unat (fh_Length h) \<and> length d mod 6 = 0 \<and>
     (flag_has (fh_Flags h) FlagAck \<longrightarrow> d = []) \<and>
     (case settings_Value d SettingInitialWindowSize of None \<Rightarrow> True | Some v \<Rightarrow> v \<le> mask 31))"
| "body_wf (PushPromiseFrame h i d) = (fh_Type h = FramePushPromise \<and> fh_StreamID h \<noteq> 0 \<and> i \<le> mask 31 \<and> padded_size h 4 d)"
| "body_wf (PingFrame h d) = (fh_Type h = FramePing \<and> fh_StreamID h = 0 \<and> length d = 8 \<and> unat (fh_Length h) = 8)"
| "body_wf (GoAwayFrame h i code d) = (fh_Type h = FrameGoAway \<and> fh_StreamID h = 0 \<and> i \<le> mask 31 \<and> length d + 8 = unat (fh_Length h))"
| "body_wf (WindowUpdateFrame h n) = (fh_Type h = FrameWindowUpdate \<and> 0 < n \<and> n \<le> mask 31 \<and> unat (fh_Length h) = 4)"
| "body_wf (ContinuationFrame h d) = (fh_Type h = FrameContinuation \<and> fh_StreamID h \<noteq> 0 \<and> length d = unat (fh_Length h))"
| "body_wf (UnknownFrame h d) = (9 < unat (fh_Type h) \<and> length d = unat (fh_Length h))"

definition frame_wf :: "h2_frame \<Rightarrow> bool" where
  "frame_wf f \<longleftrightarrow> body_wf f \<and> fh_StreamID (frame_hdr f) \<le> mask 31"

lemma and_mask31_le: "(v :: uint32) AND mask 31 \<le> mask 31" "v AND 0x7fffffff \<le> mask 31"
  by (simp_all only: mask31 word_and_le1)

lemma readPad_length:
  "readPad fh p = Inr (q, b) \<Longrightarrow> length p = length q + (if flag_has (fh_Flags fh) FlagPadded then 1 else 0) \<and>
     (\<not> flag_has (fh_Flags fh) FlagPadded \<longrightarrow> b = 0) \<and> unat b \<le> 255"
  using unsigned_less [of b, where 'a = nat] by (auto simp: readPad_def readByte_def split: if_splits list.splits)

lemma readPriority_facts: "readPriority p = Inr (q, pr) \<Longrightarrow> length p = length q + 5 \<and> pr_StreamDep pr \<le> mask 31"
proof -
  assume a: "readPriority p = Inr (q, pr)"
  then obtain p1 v w where p: "readUint32 p = Inr (p1, v)" "readByte p1 = Inr (q, w)" "pr_StreamDep pr = v AND 0x7fffffff"
    by (auto simp: readPriority_def Let_def split: sum.splits prod.splits)
  have "length p = length p1 + 4" using p(1) by (auto simp: readUint32_def split: if_splits)
  moreover have "length p1 = Suc (length q)" using p(2) by (auto simp: readByte_def split: list.splits)
  ultimately show ?thesis using p(3) by (simp add: and_mask31_le)
qed

lemma padded_size_take:
  assumes "length p = unat (fh_Length fh)" "length p = length q + n + (if flag_has (fh_Flags fh) FlagPadded then 1 else 0)"
    "\<not> flag_has (fh_Flags fh) FlagPadded \<longrightarrow> b = 0" "unat (b :: byte) \<le> 255" "unat b \<le> length q"
  shows "padded_size fh n (take (length q - unat b) q)"
  using assms by (auto simp: padded_size_def min_def split: if_splits)

lemma pad_rest: "int (length p) - int (unat b) \<le> 0 \<longleftrightarrow> length p \<le> unat (b :: byte)"
  by linarith

lemma small_types: "9 < unat (t :: byte)" if "t \<noteq> FrameData" "t \<noteq> FrameHeaders" "t \<noteq> FramePriority" "t \<noteq> FrameRSTStream" "t \<noteq> FrameSettings"
  "t \<noteq> FramePushPromise" "t \<noteq> FramePing" "t \<noteq> FrameGoAway" "t \<noteq> FrameWindowUpdate" "t \<noteq> FrameContinuation"
proof -
  have "unat t \<noteq> 0" "unat t \<noteq> 1" "unat t \<noteq> 2" "unat t \<noteq> 3" "unat t \<noteq> 4" "unat t \<noteq> 5" "unat t \<noteq> 6" "unat t \<noteq> 7" "unat t \<noteq> 8" "unat t \<noteq> 9"
    using that by (simp_all add: frame_types word_unat_eq_iff)
  then show ?thesis by presburger
qed

lemma parse_wf:
  assumes "typeFrameParser t fh p = Inr f" "fh_Type fh = t" "length p = unat (fh_Length fh)"
  shows "body_wf f \<and> frame_hdr f = fh"
proof -
  note ty = typeFrameParser_def
  consider "t = FrameData" | "t = FrameHeaders" | "t = FramePriority" | "t = FrameRSTStream" | "t = FrameSettings" | "t = FramePushPromise"
    | "t = FramePing" | "t = FrameGoAway" | "t = FrameWindowUpdate" | "t = FrameContinuation" | "9 < unat t" "parseUnknownFrame fh p = Inr f"
    using assms(1) small_types [of t] unfolding ty by metis
  then show ?thesis
  proof cases
    case 1
    then have "parseDataFrame fh p = Inr f" using assms(1) by (simp add: ty frame_types)
    then obtain q b where q: "readPad fh p = Inr (q, b)" "unat b \<le> length q" "f = DataFrame fh (take (length q - unat b) q)" "fh_StreamID fh \<noteq> 0"
      by (auto simp: parseDataFrame_def not_less split: if_splits sum.splits prod.splits)
    then show ?thesis using padded_size_take [OF assms(3), of q 0 b] readPad_length [OF q(1)] assms(2) 1 by simp
  next
    case 2
    then have "parseHeadersFrame fh p = Inr f" using assms(1) by (simp add: ty frame_types)
    then obtain p1 b q pr where q: "readPad fh p = Inr (p1, b)" "(if flag_has (fh_Flags fh) FlagPriority then readPriority p1 else Inr (p1, prio_zero)) = Inr (q, pr)"
        "unat b < length q" "f = HeadersFrame fh pr (take (length q - unat b) q)" "fh_StreamID fh \<noteq> 0"
      unfolding parseHeadersFrame_def pad_rest by (auto simp: not_le split: if_splits sum.splits prod.splits)
    then have l: "length p1 = length q + (if flag_has (fh_Flags fh) FlagPriority then 5 else 0)" "pr_StreamDep pr \<le> mask 31"
      using readPriority_facts [of p1 q pr] by (auto simp: prio_zero_def split: if_splits)
    have "take (length q - unat b) q \<noteq> []" using q(3) by auto
    then show ?thesis
      using padded_size_take [OF assms(3), of q "if flag_has (fh_Flags fh) FlagPriority then 5 else 0" b] readPad_length [OF q(1)] l q(3-5) assms(2) 2 by simp
  next
    case 3
    then have "parsePriorityFrame fh p = Inr f" using assms(1) by (simp add: ty frame_types)
    then show ?thesis using assms(2,3) 3 by (auto simp: parsePriorityFrame_def Let_def and_mask31_le split: if_splits)
  next
    case 4
    then have "parseRSTStreamFrame fh p = Inr f" using assms(1) by (simp add: ty frame_types)
    then show ?thesis using assms(2,3) 4 by (auto simp: parseRSTStreamFrame_def split: if_splits)
  next
    case 5
    then have "parseSettingsFrame fh p = Inr f" using assms(1) by (simp add: ty frame_types)
    then show ?thesis using assms(2,3) 5
      by (auto simp: parseSettingsFrame_def word_neq_0_conv [symmetric] not_less split: if_splits option.splits)
  next
    case 6
    then have "parsePushPromise fh p = Inr f" using assms(1) by (simp add: ty frame_types)
    then obtain p1 b q v where q: "readPad fh p = Inr (p1, b)" "readUint32 p1 = Inr (q, v)" "unat b \<le> length q"
        "f = PushPromiseFrame fh (v AND mask 31) (take (length q - unat b) q)" "fh_StreamID fh \<noteq> 0"
      by (auto simp: parsePushPromise_def not_less split: if_splits sum.splits prod.splits)
    then have "length p1 = length q + 4" by (auto simp: readUint32_def split: if_splits)
    then show ?thesis using padded_size_take [OF assms(3), of q 4 b] readPad_length [OF q(1)] q(3-5) assms(2) 6 by (simp add: and_mask31_le)
  next
    case 7
    then have "parsePingFrame fh p = Inr f" using assms(1) by (simp add: ty frame_types)
    then show ?thesis using assms(2,3) 7 by (auto simp: parsePingFrame_def split: if_splits)
  next
    case 8
    then have "parseGoAwayFrame fh p = Inr f" using assms(1) by (simp add: ty frame_types)
    then show ?thesis using assms(2,3) 8 by (auto simp: parseGoAwayFrame_def and_mask31_le split: if_splits)
  next
    case 9
    then have "parseWindowUpdateFrame fh p = Inr f" using assms(1) by (simp add: ty frame_types)
    then show ?thesis using assms(2,3) 9 by (auto simp: parseWindowUpdateFrame_def Let_def and_mask31_le word_neq_0_conv split: if_splits)
  next
    case 10
    then have "parseContinuationFrame fh p = Inr f" using assms(1) by (simp add: ty frame_types)
    then show ?thesis using assms(2,3) 10 by (auto simp: parseContinuationFrame_def split: if_splits)
  next
    case 11
    then show ?thesis using assms(2,3) by (auto simp: parseUnknownFrame_def)
  qed
qed

lemma readFull_Inr: "readFull n r = (Inr b, r1) \<Longrightarrow> length b = n \<and> r = b @ r1"
  by (auto simp: readFull_def split: if_splits)

lemma checkFrameOrder_None:
  "checkFrameOrder f fr = (None, fr1) \<Longrightarrow> \<not> fr_AllowIllegalReads fr \<Longrightarrow>
   (if fr_lastHeaderStream fr = 0 then fh_Type (frame_hdr f) \<noteq> FrameContinuation
    else fh_Type (frame_hdr f) = FrameContinuation \<and> fh_StreamID (frame_hdr f) = fr_lastHeaderStream fr)"
  by (auto simp: checkFrameOrder_def Let_def split: if_splits)

text \<open>
  C14: ReadFrame only returns well-formed frames, whatever bytes arrive. A returned frame has a 31-bit stream identifier, which is zero for SETTINGS, PING and GOAWAY and not
  zero for the other known types except WINDOW\_UPDATE; a payload of the size its type asks for (5 bytes for PRIORITY, 4 for RST\_STREAM and WINDOW\_UPDATE, 8 for PING, at least
  8 for GOAWAY, a multiple of 6 for SETTINGS and none for its acknowledgement, and for the others exactly the data, the fixed fields and the padding that the flags announce); a
  window increment from 1 to 2147483647, an initial window size of at most 2147483647, and a HEADERS fragment that is not empty. Its
  payload is within the size limit, it consumed exactly its nine header bytes and its payload, and, unless illegal reads are allowed, a CONTINUATION frame is returned if and only
  if a header block of that stream is open.
\<close>

theorem read_frame_wf:
  assumes "ReadFrame fr r = (Inr f, fr1, r1)" and "\<not> fr_AllowIllegalReads fr"
  shows "frame_wf f \<and> fh_Length (frame_hdr f) \<le> fr_maxReadSize fr \<and>
     length r = 9 + unat (fh_Length (frame_hdr f)) + length r1 \<and>
     (if fr_lastHeaderStream fr = 0 then fh_Type (frame_hdr f) \<noteq> FrameContinuation
      else fh_Type (frame_hdr f) = FrameContinuation \<and> fh_StreamID (frame_hdr f) = fr_lastHeaderStream fr)"
proof -
  obtain buf r2 where h: "readFull frameHeaderLen r = (Inr buf, r2)" "readFrameHeader r = (Inr (decode_header buf), r2)"
    using assms(1) by (auto simp: ReadFrame_def readFrameHeader_def split: prod.splits sum.splits)
  define fh where "fh = decode_header buf"
  have le: "fh_Length fh \<le> fr_maxReadSize fr"
    using assms(1) h(2) by (auto simp: ReadFrame_def fh_def not_less split: if_splits)
  obtain p where p: "readFull (unat (fh_Length fh)) r2 = (Inr p, r1)" "typeFrameParser (fh_Type fh) fh p = Inr f" "checkFrameOrder f fr = (None, fr1)"
    using assms(1) h(2) le
    by (auto simp: ReadFrame_def fh_def not_less [symmetric] split: prod.splits sum.splits h2_error.splits option.splits)
  have l: "length p = unat (fh_Length fh)" "r2 = p @ r1" "length buf = 9" "r = buf @ r2"
    using readFull_Inr [OF p(1)] readFull_Inr [OF h(1)] by (simp_all add: frameHeaderLen_def)
  have wf: "body_wf f" "frame_hdr f = fh" using parse_wf [OF p(2) refl l(1)] by simp_all
  moreover have "fh_StreamID fh \<le> mask 31" by (simp add: fh_def decode_header_def and_mask31_le)
  ultimately show ?thesis using le l checkFrameOrder_None [OF p(3) assms(2)] by (simp add: frame_wf_def)
qed

section \<open>Examples\<close>

definition ex_frames :: "frame_cmd list" where
  "ex_frames =
     [CSettings [\<lparr> set_ID = 4, set_Val = 65535 \<rparr>],
      CHeaders \<lparr> hp_StreamID = 1, hp_BlockFragment = [130], hp_EndStream = False, hp_EndHeaders = False, hp_PadLength = 2,
        hp_Priority = \<lparr> pr_StreamDep = 0, pr_Exclusive = True, pr_Weight = 15 \<rparr> \<rparr>,
      CContinuation 1 True [132],
      CData 1 True [104, 105] (Some [0, 0, 0])]"

theorem frames_roundtrip_witness:
  "\<exists>b. write_all NewFramer ex_frames = Inr b \<and> read_all 4 NewFramer (b @ [1, 2, 3]) = Inr (map cmd_frame ex_frames, [1, 2, 3])"
proof -
  have size: "unat (fr_maxReadSize NewFramer) = 16777215"
    by (simp add: NewFramer_def SetMaxReadFrameSize_def max_frame_size_def)
  have "list_all cmd_ok ex_frames"
    by (simp add: ex_frames_def validStreamID_def validStreamIDOrZero_def SettingInitialWindowSize_def mask_eq_exp_minus_1)
  moreover have "list_all (\<lambda>c. length (cmd_payload c) \<le> unat (fr_maxReadSize NewFramer)) ex_frames"
    unfolding size by (simp add: ex_frames_def cmd_payload_def put_priority_def)
  moreover have "order_ok (fr_lastHeaderStream NewFramer) ex_frames"
    by (simp add: ex_frames_def NewFramer_def SetMaxReadFrameSize_def cmd_header_def mk_header_def frame_types Let_def bit_or_iff)
  moreover have "fr_maxReadSize NewFramer \<le> max_frame_size" "\<not> fr_AllowIllegalReads NewFramer"
    by (simp_all add: NewFramer_def SetMaxReadFrameSize_def max_frame_size_def)
  moreover have "length ex_frames = 4" by (simp add: ex_frames_def)
  ultimately show ?thesis
    using frames_roundtrip [of ex_frames NewFramer NewFramer "[1, 2, 3]"] by (simp del: write_all.simps read_all.simps)
qed

theorem read_frame_wf_witness:
  "frame_wf (WindowUpdateFrame \<lparr> fh_Type = 8, fh_Flags = 0, fh_Length = 4, fh_StreamID = 0 \<rparr> 512)"
proof -
  have "ReadFrame NewFramer [0, 0, 4, 8, 0, 0, 0, 0, 0, 0, 0, 2, 0, 77] =
      (Inr (WindowUpdateFrame \<lparr> fh_Type = 8, fh_Flags = 0, fh_Length = 4, fh_StreamID = 0 \<rparr> 512),
       NewFramer\<lparr> fr_lastFrame := Some (WindowUpdateFrame \<lparr> fh_Type = 8, fh_Flags = 0, fh_Length = 4, fh_StreamID = 0 \<rparr> 512) \<rparr>, [77])"
    by (simp add: ReadFrame_def readFrameHeader_def readFull_def frameHeaderLen_def decode_header_def be_uint24_def be_uint32_def
        NewFramer_def SetMaxReadFrameSize_def max_frame_size_def typeFrameParser_def frame_types parseWindowUpdateFrame_def
        checkFrameOrder_def Let_def)
  from conjunct1 [OF read_frame_wf [OF this]] show ?thesis by (simp add: NewFramer_def SetMaxReadFrameSize_def)
qed

end
