(* ===== verification/Http2_Pipe.thy ===== *)
theory Http2_Pipe
  imports Http2_Sched
begin

text \<open>
  \<^verbatim>\<open>web/protocol/http2/pipe.go\<close> and \<^verbatim>\<open>databuffer.go\<close>: the pipe that carries the body of a request from the serve loop to
  the handler. Each method holds the mutex of the pipe for its whole body, so methods are atomic steps; a reader that waits on the
  condition variable is the result \<open>Wait\<close>. \<open>None\<close> is a panic. The function that a reader runs before it sees the
  error is a value that the read returns. Errors are those that the server closes a body with.
\<close>

section \<open>The buffer\<close>

record dataBuffer =
  db_buf :: "byte list"
  db_offset :: nat

definition newDataBuffer :: "byte list \<Rightarrow> dataBuffer" where
  "newDataBuffer buf = \<lparr> db_buf = buf, db_offset = 0 \<rparr>"

definition db_Len :: "dataBuffer \<Rightarrow> nat" where
  "db_Len b = length (db_buf b) - db_offset b"

text \<open>A read into a slice of \<open>n\<close> bytes; \<open>None\<close> is the error \<open>io.EOF\<close>.\<close>

definition db_Read :: "nat \<Rightarrow> dataBuffer \<Rightarrow> byte list option \<times> dataBuffer" where
  "db_Read n b =
     (if db_Len b = 0 then (None, b)
      else let d = take n (drop (db_offset b) (db_buf b))
           in (Some d, b\<lparr> db_offset := db_offset b + length d \<rparr>))"

definition db_Write :: "byte list \<Rightarrow> dataBuffer \<Rightarrow> dataBuffer" where
  "db_Write d b = b\<lparr> db_buf := db_buf b @ d \<rparr>"

section \<open>The pipe\<close>

datatype body_error = IoEOF | ErrClosedBody | ErrClientDisconnected | ErrHandlerComplete | ErrHandlerPanicked
  | BodyStreamError nat "32 word" | TooManyBytes int | TooFewBytes int int

record 'f pipe =
  p_b :: "dataBuffer option"
  p_unread :: nat
  p_err :: "body_error option"
  p_breakErr :: "body_error option"
  p_donec :: "bool option"
  p_readFn :: "'f option"

definition new_pipe :: "byte list \<Rightarrow> 'f pipe" where
  "new_pipe buf = \<lparr> p_b = Some (newDataBuffer buf), p_unread = 0, p_err = None, p_breakErr = None, p_donec = None, p_readFn = None \<rparr>"

definition setBuffer :: "dataBuffer \<Rightarrow> 'f pipe \<Rightarrow> 'f pipe" where
  "setBuffer b p = (if p_err p \<noteq> None \<or> p_breakErr p \<noteq> None then p else p\<lparr> p_b := Some b \<rparr>)"

definition pipe_Len :: "'f pipe \<Rightarrow> nat" where
  "pipe_Len p = (case p_b p of None \<Rightarrow> p_unread p | Some b \<Rightarrow> db_Len b)"

datatype 'f read_result = Wait | Data "byte list" | ReadError body_error "'f option"

definition buffered :: "'f pipe \<Rightarrow> nat" where
  "buffered p = (case p_b p of None \<Rightarrow> 0 | Some b \<Rightarrow> db_Len b)"

definition pipe_Read :: "nat \<Rightarrow> 'f pipe \<Rightarrow> 'f read_result \<times> 'f pipe" where
  "pipe_Read n p =
     (case p_breakErr p of
        Some e \<Rightarrow> (ReadError e None, p)
      | None \<Rightarrow>
          if buffered p > 0 then
            (case db_Read n (the (p_b p)) of
               (Some d, b) \<Rightarrow> (Data d, p\<lparr> p_b := Some b \<rparr>)
             | (None, b) \<Rightarrow> (ReadError IoEOF None, p\<lparr> p_b := Some b \<rparr>))
          else case p_err p of
            Some e \<Rightarrow> (ReadError e (p_readFn p), p\<lparr> p_readFn := None, p_b := None \<rparr>)
          | None \<Rightarrow> (Wait, p))"

text \<open>The result of \<open>Write\<close>: \<open>False\<close> is the error \<open>errClosedPipeWrite\<close>, otherwise all bytes have been taken.\<close>

definition pipe_Write :: "byte list \<Rightarrow> 'f pipe \<Rightarrow> (bool \<times> 'f pipe) option" where
  "pipe_Write d p =
     (if p_err p \<noteq> None then Some (False, p)
      else if p_breakErr p \<noteq> None then Some (True, p\<lparr> p_unread := p_unread p + length d \<rparr>)
      else case p_b p of
        None \<Rightarrow> None
      | Some b \<Rightarrow> Some (True, p\<lparr> p_b := Some (db_Write d b) \<rparr>))"

definition closeDoneLocked :: "'f pipe \<Rightarrow> 'f pipe" where
  "closeDoneLocked p = (case p_donec p of None \<Rightarrow> p | Some _ \<Rightarrow> p\<lparr> p_donec := Some True \<rparr>)"

definition closeWithErrorAndCode :: "body_error \<Rightarrow> 'f option \<Rightarrow> 'f pipe \<Rightarrow> 'f pipe" where
  "closeWithErrorAndCode e fn p =
     (if p_err p \<noteq> None then p else closeDoneLocked (p\<lparr> p_readFn := fn, p_err := Some e \<rparr>))"

definition CloseWithError :: "body_error \<Rightarrow> 'f pipe \<Rightarrow> 'f pipe" where
  "CloseWithError e p = closeWithErrorAndCode e None p"

definition BreakWithError :: "body_error \<Rightarrow> 'f pipe \<Rightarrow> 'f pipe" where
  "BreakWithError e p =
     (if p_breakErr p \<noteq> None then p
      else closeDoneLocked
        (p\<lparr> p_readFn := None, p_unread := p_unread p + buffered p, p_b := None, p_breakErr := Some e \<rparr>))"

definition pipe_Err :: "'f pipe \<Rightarrow> body_error option" where
  "pipe_Err p = (if p_breakErr p \<noteq> None then p_breakErr p else p_err p)"

definition pipe_Done :: "'f pipe \<Rightarrow> bool \<times> 'f pipe" where
  "pipe_Done p =
     (let p1 = (if p_donec p = None then
                  let p2 = p\<lparr> p_donec := Some False \<rparr>
                  in if p_err p \<noteq> None \<or> p_breakErr p \<noteq> None then closeDoneLocked p2 else p2
                else p)
      in (p_donec p1 = Some True, p1))"

section \<open>Runs\<close>

datatype 'f pipe_op = PWrite "byte list" | PRead nat | PClose body_error "'f option" | PBreak body_error | PDone

text \<open>What the two ends have seen: the bytes that \<open>Write\<close> took, the results of the reads.\<close>

record 'f pipe_log =
  pl_taken :: "byte list"
  pl_reads :: "'f read_result list"

fun pipe_step :: "'f pipe_op \<Rightarrow> 'f pipe_log \<times> 'f pipe \<Rightarrow> ('f pipe_log \<times> 'f pipe) option" where
  "pipe_step (PWrite d) (l, p) =
     (case pipe_Write d p of
        None \<Rightarrow> None
      | Some (ok, p1) \<Rightarrow> Some (if ok then l\<lparr> pl_taken := pl_taken l @ d \<rparr> else l, p1))"
| "pipe_step (PRead n) (l, p) = (let (r, p1) = pipe_Read n p in Some (l\<lparr> pl_reads := pl_reads l @ [r] \<rparr>, p1))"
| "pipe_step (PClose e fn) (l, p) = Some (l, closeWithErrorAndCode e fn p)"
| "pipe_step (PBreak e) (l, p) = Some (l, BreakWithError e p)"
| "pipe_step PDone (l, p) = Some (l, snd (pipe_Done p))"

fun pipe_run :: "'f pipe_op list \<Rightarrow> 'f pipe_log \<times> 'f pipe \<Rightarrow> ('f pipe_log \<times> 'f pipe) option" where
  "pipe_run [] s = Some s"
| "pipe_run (op # ops) s = (case pipe_step op s of None \<Rightarrow> None | Some s1 \<Rightarrow> pipe_run ops s1)"

fun data_of :: "'f read_result \<Rightarrow> byte list" where
  "data_of (Data d) = d"
| "data_of Wait = []"
| "data_of (ReadError e fn) = []"

definition bytes_read :: "'f pipe_log \<Rightarrow> byte list" where
  "bytes_read l = concat (map data_of (pl_reads l))"

definition pending :: "'f pipe \<Rightarrow> byte list" where
  "pending p = (case p_b p of None \<Rightarrow> [] | Some b \<Rightarrow> drop (db_offset b) (db_buf b))"

definition pipe_empty_log :: "'f pipe_log" where
  "pipe_empty_log = \<lparr> pl_taken = [], pl_reads = [] \<rparr>"

definition pipe_ok :: "'f pipe \<Rightarrow> bool" where
  "pipe_ok p \<longleftrightarrow>
     (case p_b p of None \<Rightarrow> p_err p \<noteq> None \<or> p_breakErr p \<noteq> None
      | Some b \<Rightarrow> db_offset b \<le> length (db_buf b) \<and> p_breakErr p = None) \<and>
     (p_breakErr p = None \<longrightarrow> p_unread p = 0) \<and>
     (case p_donec p of None \<Rightarrow> True | Some c \<Rightarrow> c = (p_err p \<noteq> None \<or> p_breakErr p \<noteq> None))"

text \<open>How the log and the pipe fit together.\<close>

definition pipe_fits :: "'f pipe_log \<times> 'f pipe \<Rightarrow> bool" where
  "pipe_fits s \<longleftrightarrow> (case s of (l, p) \<Rightarrow> pipe_ok p \<and>
     length (pl_taken l) = length (bytes_read l) + pipe_Len p \<and>
     (if p_breakErr p = None then pl_taken l = bytes_read l @ pending p
      else take (length (bytes_read l)) (pl_taken l) = bytes_read l))"

lemma length_pending: "pipe_ok p \<Longrightarrow> length (pending p) = buffered p"
  by (auto simp: pending_def buffered_def db_Len_def split: option.split)

lemma pipe_Len_buffered: "pipe_ok p \<Longrightarrow> pipe_Len p = (if p_breakErr p = None then buffered p else p_unread p)"
  by (auto simp: pipe_Len_def buffered_def pipe_ok_def split: option.splits)

lemma bytes_read_snoc [simp]: "bytes_read (l\<lparr> pl_reads := pl_reads l @ [r] \<rparr>) = bytes_read l @ data_of r"
  "bytes_read (l\<lparr> pl_taken := d \<rparr>) = bytes_read l" "bytes_read pipe_empty_log = []"
  by (simp_all add: bytes_read_def pipe_empty_log_def)

lemma pipe_Read_cases:
  assumes "pipe_ok p"
  obtains (broken) e where "p_breakErr p = Some e" "pipe_Read n p = (ReadError e None, p)"
  | (data) b where "p_breakErr p = None" "p_b p = Some b" "db_offset b < length (db_buf b)"
      "pipe_Read n p = (Data (take n (pending p)), p\<lparr> p_b := Some (b\<lparr> db_offset := db_offset b + length (take n (pending p)) \<rparr>) \<rparr>)"
  | (error) e where "p_breakErr p = None" "pending p = []" "p_err p = Some e"
      "pipe_Read n p = (ReadError e (p_readFn p), p\<lparr> p_readFn := None, p_b := None \<rparr>)"
  | (wait) "p_breakErr p = None" "pending p = []" "p_err p = None" "pipe_Read n p = (Wait, p)"
proof (cases "p_breakErr p")
  case (Some e)
  then show thesis by (intro broken) (simp_all add: pipe_Read_def)
next
  case brk: None
  show thesis
  proof (cases "buffered p > 0")
    case True
    then obtain b where b: "p_b p = Some b" "db_offset b < length (db_buf b)"
      by (auto simp: buffered_def db_Len_def split: option.splits)
    then show thesis using brk True
      by (intro data) (simp_all add: pipe_Read_def db_Read_def db_Len_def pending_def Let_def buffered_def)
  next
    case False
    then have p: "pending p = []" using length_pending [OF assms] by simp
    show thesis
    proof (cases "p_err p")
      case None
      then show thesis using brk False p by (intro wait) (simp_all add: pipe_Read_def)
    next
      case (Some e)
      then show thesis using brk False p by (intro error) (simp_all add: pipe_Read_def)
    qed
  qed
qed

lemma pipe_step_fits:
  assumes "pipe_fits s"
  shows "\<exists>s1. pipe_step op s = Some s1 \<and> pipe_fits s1"
proof -
  obtain l p where s: "s = (l, p)" by (cases s)
  have f: "pipe_ok p" "length (pl_taken l) = length (bytes_read l) + pipe_Len p"
    "p_breakErr p = None \<Longrightarrow> pl_taken l = bytes_read l @ pending p"
    "p_breakErr p \<noteq> None \<Longrightarrow> take (length (bytes_read l)) (pl_taken l) = bytes_read l"
    using assms by (auto simp: pipe_fits_def s split: if_splits)
  show ?thesis
  proof (cases op)
    case (PWrite d)
    then show ?thesis using f
      by (cases "p_err p"; cases "p_breakErr p"; cases "p_b p")
        (auto simp: s pipe_fits_def pipe_Write_def pipe_ok_def pipe_Len_def db_Len_def db_Write_def pending_def split: option.splits)
  next
    case (PRead n)
    from f(1) show ?thesis
    proof (cases rule: pipe_Read_cases [where n = n])
      case (broken e)
      then show ?thesis using PRead f by (simp add: s pipe_fits_def)
    next
      case (data b)
      have "take n q @ drop (db_offset b + n) (db_buf b) = q" if "q = drop (db_offset b) (db_buf b)" for q
        using append_take_drop_id [of n q] that by (simp add: add.commute)
      then show ?thesis using PRead f data
        by (auto simp: s pipe_fits_def pipe_ok_def pipe_Len_def db_Len_def pending_def min_def split: option.splits)
    next
      case (error e)
      then show ?thesis using PRead f length_pending [OF f(1)]
        by (auto simp: s pipe_fits_def pipe_ok_def pipe_Len_def db_Len_def pending_def split: option.splits)
    next
      case wait
      then show ?thesis using PRead f by (simp add: s pipe_fits_def)
    qed
  next
    case (PClose e fn)
    then show ?thesis using f
      by (cases "p_donec p") (auto simp: s pipe_fits_def closeWithErrorAndCode_def closeDoneLocked_def pipe_ok_def pipe_Len_def pending_def split: option.splits)
  next
    case (PBreak e)
    then show ?thesis using f length_pending [OF f(1)] pipe_Len_buffered [OF f(1)]
      by (cases "p_donec p") (auto simp: s pipe_fits_def BreakWithError_def closeDoneLocked_def pipe_ok_def pipe_Len_def pending_def split: option.splits)
  next
    case PDone
    then show ?thesis using f
      by (cases "p_donec p") (auto simp: s pipe_fits_def pipe_Done_def closeDoneLocked_def pipe_ok_def pipe_Len_def pending_def Let_def split: option.splits)
  qed
qed

lemma pipe_run_fits: "pipe_fits s \<Longrightarrow> \<exists>s1. pipe_run ops s = Some s1 \<and> pipe_fits s1"
proof (induction ops arbitrary: s)
  case (Cons op ops)
  then show ?case using pipe_step_fits [of s op] by auto
qed simp

lemma new_pipe_fits: "pipe_fits (pipe_empty_log, new_pipe [])"
  by (simp add: pipe_fits_def new_pipe_def pipe_ok_def newDataBuffer_def pipe_Len_def db_Len_def pending_def pipe_empty_log_def bytes_read_def)

text \<open>
  C34: The pipe carries the body in order and never loses count. Over any run of writes, reads, closings, breaks and
  waits for the end, no call panics; the bytes that the reader has received are a prefix of the bytes that \<open>Write\<close> has taken, and \<open>Len\<close> is
  exactly the number of the others, also after the reader has broken the pipe and writes are discarded. While it is not
  broken, a reader that meets the error of the end has received every byte before, and it waits only when nothing is pending and nobody has closed the pipe.
\<close>

theorem pipe_delivers:
  "\<exists>l p. pipe_run ops (pipe_empty_log, new_pipe []) = Some (l, p) \<and>
     take (length (bytes_read l)) (pl_taken l) = bytes_read l \<and> length (pl_taken l) = length (bytes_read l) + pipe_Len p \<and>
     (p_breakErr p = None \<longrightarrow>
        (case fst (pipe_Read n p) of
           Data d \<Rightarrow> d = take n (drop (length (bytes_read l)) (pl_taken l)) \<and> bytes_read l \<noteq> pl_taken l
         | ReadError e fn \<Rightarrow> bytes_read l = pl_taken l \<and> p_err p = Some e
         | Wait \<Rightarrow> bytes_read l = pl_taken l \<and> p_err p = None))"
proof -
  obtain l p where r: "pipe_run ops (pipe_empty_log, new_pipe []) = Some (l, p)" and f: "pipe_fits (l, p)"
    using pipe_run_fits [OF new_pipe_fits, of ops] by auto
  have ok: "pipe_ok p" using f by (simp add: pipe_fits_def)
  have t: "pl_taken l = bytes_read l @ pending p" if "p_breakErr p = None" using f that by (simp add: pipe_fits_def)
  from ok have "p_breakErr p = None \<longrightarrow>
        (case fst (pipe_Read n p) of
           Data d \<Rightarrow> d = take n (drop (length (bytes_read l)) (pl_taken l)) \<and> bytes_read l \<noteq> pl_taken l
         | ReadError e fn \<Rightarrow> bytes_read l = pl_taken l \<and> p_err p = Some e
         | Wait \<Rightarrow> bytes_read l = pl_taken l \<and> p_err p = None)"
  proof (cases rule: pipe_Read_cases [where n = n])
    case (data b)
    then have "pending p \<noteq> []" by (simp add: pending_def)
    then show ?thesis using data t by simp
  qed (use t in simp_all)
  moreover have "take (length (bytes_read l)) (pl_taken l) = bytes_read l" using f by (auto simp: pipe_fits_def split: if_splits)
  ultimately show ?thesis using r f by (auto simp: pipe_fits_def)
qed

theorem pipe_delivers_witness:
  "\<exists>l p. pipe_run [PWrite [1, 2, 3], PRead 2, PClose IoEOF (Some ())] (pipe_empty_log, new_pipe []) = Some (l, p) \<and>
     fst (pipe_Read 8 p) = Data [3]"
proof -
  obtain l p where lp: "pipe_run [PWrite [1, 2, 3], PRead 2, PClose IoEOF (Some ())] (pipe_empty_log, new_pipe []) = Some (l, p)"
    and c: "p_breakErr p = None \<longrightarrow>
        (case fst (pipe_Read 8 p) of
           Data d \<Rightarrow> d = take 8 (drop (length (bytes_read l)) (pl_taken l)) \<and> bytes_read l \<noteq> pl_taken l
         | ReadError e fn \<Rightarrow> bytes_read l = pl_taken l \<and> p_err p = Some e
         | Wait \<Rightarrow> bytes_read l = pl_taken l \<and> p_err p = None)"
    using pipe_delivers [of "[PWrite [1, 2, 3], PRead 2, PClose IoEOF (Some ())]" 8] by (elim exE conjE) (rule that)
  have v: "p_breakErr p = None" "bytes_read l = [1, 2]" "pl_taken l = [1, 2, 3]"
    using lp by (auto simp: pipe_empty_log_def new_pipe_def newDataBuffer_def pipe_Write_def pipe_Read_def buffered_def db_Len_def
        db_Read_def db_Write_def closeWithErrorAndCode_def closeDoneLocked_def bytes_read_def)
  have "fst (pipe_Read 8 p) = Data [3]" using c v by (cases "fst (pipe_Read 8 p)") simp_all
  then show ?thesis using lp by blast
qed

text \<open>
  The comment in \<^verbatim>\<open>databuffer.go\<close> says that the buffer is divided into chunks to limit the memory of a connection. It is one buffer that only grows: after any
  run that does not break the pipe, it holds every byte of the body, also those that the reader has long received.
\<close>

definition whole_body :: "'f pipe_log \<times> 'f pipe \<Rightarrow> bool" where
  "whole_body s \<longleftrightarrow> (case s of (l, p) \<Rightarrow> case p_b p of None \<Rightarrow> True | Some b \<Rightarrow> db_buf b = pl_taken l \<and> p_breakErr p = None)"

lemma pipe_step_whole: "whole_body s \<Longrightarrow> pipe_step op s = Some s1 \<Longrightarrow> whole_body s1"
  by (cases s; cases op) (auto simp: whole_body_def pipe_Write_def pipe_Read_def db_Read_def db_Write_def buffered_def closeWithErrorAndCode_def
      closeDoneLocked_def BreakWithError_def pipe_Done_def Let_def split: option.splits if_splits)

lemma pipe_run_whole: "whole_body s \<Longrightarrow> pipe_run ops s = Some s1 \<Longrightarrow> whole_body s1"
  by (induction ops arbitrary: s) (auto dest: pipe_step_whole split: option.splits)

lemma body_buffer_never_shrinks:
  assumes "pipe_run ops (pipe_empty_log, new_pipe []) = Some (l, p)" and "p_b p = Some b"
  shows "db_buf b = pl_taken l"
  using pipe_run_whole [OF _ assms(1)] assms(2) by (simp add: whole_body_def new_pipe_def newDataBuffer_def pipe_empty_log_def)

end
