(* ===== verification/Http2_Conn.thy ===== *)
theory Http2_Conn
  imports Http2_Frame Http2_Pipe Http_Header "HOL-Library.Monad_Syntax"
begin

text \<open>
  \<^verbatim>\<open>web/protocol/http2/server.go\<close> and \<^verbatim>\<open>stream.go\<close>, the state of a connection and its writing side: the functions of the serve loop that schedule and
  write frames, and those that close streams and return flow-control tokens, which call each other. A stream object is named by its
  id, which a connection uses once; \<open>sc_objs\<close> is the store of stream objects (handlers keep theirs when the stream is closed) and \<open>sc_streams\<close> are the keys
  of the map \<open>sc.streams\<close>. The windows of stream \<open>i\<close> are the flows \<open>flow_addr i\<close> and \<open>inflow_addr i\<close>, those of the connection the flows of 0.

  A frame is written on the serve goroutine when it fits the buffer, otherwise on a goroutine of its own, whose result arrives later as an event. How much room
  the buffer has at a write and in which order Go ranges over a map are given by a \<open>world\<close>. The functions that call \<open>scheduleFrameWrite\<close> take it as an argument: inside the scheduling
  loop that call returns at once, because of \<open>inFrameScheduleLoop\<close>. \<open>None\<close> is a panic. Not modelled: timers other than the flag for the shutdown timer, push, logging,
  and the errors of the network connection, which only reach handlers.
\<close>

section \<open>State\<close>

definition ErrCodeNo :: uint32 where "ErrCodeNo = 0"
definition ErrCodeStreamClosed :: uint32 where "ErrCodeStreamClosed = 5"
definition ErrCodeRefusedStream :: uint32 where "ErrCodeRefusedStream = 7"

datatype stream_state = StateIdle | StateOpen | StateHalfClosedLocal | StateHalfClosedRemote | StateClosed

datatype req_handler = CoreServe | HandleHeaderListTooLong | Handler400

record h2_stream =
  ss_state :: stream_state
  ss_body :: "unit pipe option"
  ss_bodyBytes :: int
  ss_declBodyBytes :: int
  ss_resetQueued :: bool
  ss_gotTrailerHeader :: bool
  ss_wroteHeaders :: bool
  ss_cw :: bool
  ss_trailer :: "(string \<times> string) list"
  ss_header :: RequestHeader
  ss_handler :: "req_handler option"
  ss_released :: bool
  rb_needsContinue :: bool
  rb_sawEOF :: bool
  rb_closed :: bool

definition zero_stream :: h2_stream where
  "zero_stream = \<lparr> ss_state = StateIdle, ss_body = None, ss_bodyBytes = 0, ss_declBodyBytes = 0, ss_resetQueued = False, ss_gotTrailerHeader = False,
     ss_wroteHeaders = False, ss_cw = False, ss_trailer = [], ss_header = new_request_header, ss_handler = None, ss_released = False,
     rb_needsContinue = False, rb_sawEOF = False, rb_closed = False \<rparr>"

record serverConn =
  sc_streams :: "nat list"
  sc_objs :: "nat \<Rightarrow> h2_stream"
  sc_fs :: flows
  sc_ws :: write_sched
  sc_pushEnabled :: bool
  sc_sawFirstSettings :: bool
  sc_needToSendSettingsAck :: bool
  sc_unackedSettings :: int
  sc_queuedControlFrames :: int
  sc_clientMaxStreams :: uint32
  sc_advMaxStreams :: uint32
  sc_curClientStreams :: uint32
  sc_curPushedStreams :: uint32
  sc_maxClientStreamID :: nat
  sc_maxPushPromiseID :: nat
  sc_initialStreamSendWindowSize :: int
  sc_maxFrameSize :: int
  sc_headerTableSize :: uint32
  sc_peerMaxHeaderListSize :: uint32
  sc_writingFrame :: bool
  sc_writingFrameAsync :: bool
  sc_needsFrameFlush :: bool
  sc_inGoAway :: bool
  sc_inFrameScheduleLoop :: bool
  sc_needToSendGoAway :: bool
  sc_goAwayCode :: uint32
  sc_shutdownTimer :: bool
  sc_keepAlivesDisabled :: bool
  sc_connClosed :: bool
  sc_inflight :: "write_req option"
  sc_sent :: "write_req list"
  sc_replies :: "nat list"
  sc_handlers :: "nat list"
  sc_clock :: nat

record world =
  w_avail :: "nat \<Rightarrow> nat"
  w_order :: "nat \<Rightarrow> nat list \<Rightarrow> nat list"

type_synonym sched = "serverConn \<Rightarrow> serverConn option"

definition flow_addr :: "nat \<Rightarrow> addr" where
  "flow_addr i = 2 * i"

definition inflow_addr :: "nat \<Rightarrow> addr" where
  "inflow_addr i = 2 * i + 1"

definition upd_obj :: "nat \<Rightarrow> (h2_stream \<Rightarrow> h2_stream) \<Rightarrow> serverConn \<Rightarrow> serverConn" where
  "upd_obj i f sc = sc\<lparr> sc_objs := (sc_objs sc)(i := f (sc_objs sc i)) \<rparr>"

text \<open>The state of a stream, and whether \<open>sc.streams\<close> has an object for it.\<close>

definition sc_state :: "nat \<Rightarrow> serverConn \<Rightarrow> stream_state \<times> bool" where
  "sc_state streamID sc =
     (if streamID \<in> set (sc_streams sc) then (ss_state (sc_objs sc streamID), True)
      else if streamID mod 2 = 1 then
        (if streamID \<le> sc_maxClientStreamID sc then (StateClosed, False) else (StateIdle, False))
      else (if streamID \<le> sc_maxPushPromiseID sc then (StateClosed, False) else (StateIdle, False)))"

section \<open>Frames to write\<close>

fun staysWithinBuffer :: "write_framer \<Rightarrow> nat \<Rightarrow> bool" where
  "staysWithinBuffer (WriteData i p es) mx \<longleftrightarrow> frameHeaderLen + length p \<le> mx"
| "staysWithinBuffer (WriteStreamError i code) mx \<longleftrightarrow> frameHeaderLen + 4 \<le> mx"
| "staysWithinBuffer (WriteResHeaders i es) mx \<longleftrightarrow> False"
| "staysWithinBuffer (WriteHandlerPanicRST i) mx \<longleftrightarrow> frameHeaderLen + 4 \<le> mx"
| "staysWithinBuffer (Write100Continue i) mx \<longleftrightarrow> 9 + 2 * (7 + 3) \<le> mx"
| "staysWithinBuffer (WriteWindowUpd i n) mx \<longleftrightarrow> frameHeaderLen + 4 \<le> mx"
| "staysWithinBuffer (WritePingAckFrame d) mx \<longleftrightarrow> frameHeaderLen + length d \<le> mx"
| "staysWithinBuffer (WriteSettingsList n) mx \<longleftrightarrow> frameHeaderLen + 6 * n \<le> mx"
| "staysWithinBuffer WriteAckSettings mx \<longleftrightarrow> frameHeaderLen \<le> mx"
| "staysWithinBuffer (WriteGoAwayTo i code) mx \<longleftrightarrow> False"
| "staysWithinBuffer FlushFrameWriter mx \<longleftrightarrow> False"

fun writeEndsStream :: "write_framer \<Rightarrow> bool" where
  "writeEndsStream (WriteData i p es) = es"
| "writeEndsStream (WriteResHeaders i es) = es"
| "writeEndsStream _ = False"

definition control_req :: "write_framer \<Rightarrow> write_req" where
  "control_req f = \<lparr> wr_write = Some f, wr_stream = None, wr_done = None \<rparr>"

definition stream_req :: "nat \<Rightarrow> write_framer \<Rightarrow> nat option \<Rightarrow> write_req" where
  "stream_req i f d = \<lparr> wr_write = Some f, wr_stream = Some \<lparr> st_id = i, st_flow = flow_addr i \<rparr>, wr_done = d \<rparr>"

definition push_unless :: "bool \<Rightarrow> write_req \<Rightarrow> serverConn \<Rightarrow> serverConn" where
  "push_unless ignoreWrite wr sc =
     (if ignoreWrite then sc
      else
        let sc1 = (if isControl wr then
                     let q = wrap64 (sc_queuedControlFrames sc + 1)
                     in sc\<lparr> sc_queuedControlFrames := q, sc_connClosed := sc_connClosed sc \<or> q < 0 \<rparr>
                   else sc)
        in sc1\<lparr> sc_ws := ws_Push wr (sc_ws sc1) \<rparr>)"

definition queue_frame :: "write_req \<Rightarrow> serverConn \<Rightarrow> serverConn option" where
  "queue_frame wr sc =
     (let isReset = (case wr_write wr of Some (WriteStreamError i code) \<Rightarrow> True | _ \<Rightarrow> False);
          closed = (StreamID wr \<noteq> 0 \<and> fst (sc_state (StreamID wr) sc) = StateClosed \<and> \<not> isReset)
      in case wr_write wr of
           Some (WriteResHeaders i es) \<Rightarrow>
             (case wr_stream wr of
                None \<Rightarrow> None
              | Some s \<Rightarrow> Some (push_unless closed wr (upd_obj (st_id s) (ss_wroteHeaders_update (\<lambda>_. True)) sc)))
         | Some (Write100Continue i) \<Rightarrow>
             (case wr_stream wr of
                None \<Rightarrow> None
              | Some s \<Rightarrow>
                  if ss_wroteHeaders (sc_objs sc (st_id s)) then
                    (if wr_done wr \<noteq> None then None else Some (push_unless True wr sc))
                  else Some (push_unless closed wr sc))
         | _ \<Rightarrow> Some (push_unless closed wr sc))"

definition writeFrame :: "sched \<Rightarrow> write_req \<Rightarrow> serverConn \<Rightarrow> serverConn option" where
  "writeFrame scheduleFW wr sc = do { sc1 \<leftarrow> queue_frame wr sc; scheduleFW sc1 }"

definition resetStream :: "sched \<Rightarrow> nat \<Rightarrow> uint32 \<Rightarrow> serverConn \<Rightarrow> serverConn option" where
  "resetStream scheduleFW i code sc = do {
     sc1 \<leftarrow> writeFrame scheduleFW (control_req (WriteStreamError i code)) sc;
     Some (if i \<in> set (sc_streams sc1) then upd_obj i (ss_resetQueued_update (\<lambda>_. True)) sc1 else sc1) }"

definition goAway :: "sched \<Rightarrow> uint32 \<Rightarrow> serverConn \<Rightarrow> serverConn option" where
  "goAway scheduleFW code sc =
     (if sc_inGoAway sc then Some (if sc_goAwayCode sc = ErrCodeNo then sc\<lparr> sc_goAwayCode := code \<rparr> else sc)
      else scheduleFW (sc\<lparr> sc_inGoAway := True, sc_needToSendGoAway := True, sc_goAwayCode := code \<rparr>))"

text \<open>\<open>i = 0\<close> is a nil stream: the update is for the connection.\<close>

definition window_req :: "nat \<Rightarrow> int \<Rightarrow> write_req" where
  "window_req i n = (if i = 0 then control_req (WriteWindowUpd 0 n) else stream_req i (WriteWindowUpd i n) None)"

definition sendWindowUpdate32 :: "sched \<Rightarrow> nat \<Rightarrow> int \<Rightarrow> serverConn \<Rightarrow> serverConn option" where
  "sendWindowUpdate32 scheduleFW i n sc =
     (if n = 0 then Some sc
      else if n < 0 then None
      else do {
        sc1 \<leftarrow> writeFrame scheduleFW (window_req i n) sc;
        case flow_add (inflow_addr i) n (sc_fs sc1) of
          (True, fs) \<Rightarrow> Some (sc1\<lparr> sc_fs := fs \<rparr>)
        | (False, _) \<Rightarrow> None })"

definition maxUint31 :: int where
  "maxUint31 = 2147483647"

function sendWindowUpdate :: "sched \<Rightarrow> nat \<Rightarrow> int \<Rightarrow> serverConn \<Rightarrow> serverConn option" where
  "sendWindowUpdate scheduleFW i n sc =
     (if n \<ge> maxUint31 then do {
        sc1 \<leftarrow> sendWindowUpdate32 scheduleFW i maxUint31 sc;
        sendWindowUpdate scheduleFW i (n - maxUint31) sc1 }
      else sendWindowUpdate32 scheduleFW i (wrap32 n) sc)"
  by pat_completeness auto

termination sendWindowUpdate
  by (relation "measure (\<lambda>(s, i, n, sc). nat n)") (simp_all add: maxUint31_def)

declare sendWindowUpdate.simps [simp del]

section \<open>Closing a stream\<close>

definition isPushed :: "nat \<Rightarrow> bool" where
  "isPushed i \<longleftrightarrow> i mod 2 = 0"

text \<open>The bookkeeping of \<open>closeStream\<close>: state, counters, map, request context.\<close>

definition forget_stream :: "nat \<Rightarrow> bool \<Rightarrow> serverConn \<Rightarrow> serverConn" where
  "forget_stream i dirty sc =
     (let sc1 = upd_obj i (ss_state_update (\<lambda>_. StateClosed)) sc;
          sc2 = (if isPushed i then sc1\<lparr> sc_curPushedStreams := sc_curPushedStreams sc1 - 1 \<rparr>
                 else sc1\<lparr> sc_curClientStreams := sc_curClientStreams sc1 - 1 \<rparr>);
          sc3 = sc2\<lparr> sc_streams := filter (\<lambda>j. j \<noteq> i) (sc_streams sc2) \<rparr>
      in if dirty then sc3 else upd_obj i (ss_released_update (\<lambda>_. True)) sc3)"

definition closeStream :: "sched \<Rightarrow> nat \<Rightarrow> body_error \<Rightarrow> bool \<Rightarrow> serverConn \<Rightarrow> serverConn option" where
  "closeStream scheduleFW i err dirty sc =
     (if ss_state (sc_objs sc i) = StateIdle \<or> ss_state (sc_objs sc i) = StateClosed then None
      else do {
        let sc1 = forget_stream i dirty sc;
        sc2 \<leftarrow> (if sc_streams sc1 = [] \<and> sc_keepAlivesDisabled sc1 then goAway scheduleFW ErrCodeNo sc1 else Some sc1);
        sc3 \<leftarrow> (case ss_body (sc_objs sc2 i) of
                  None \<Rightarrow> Some sc2
                | Some p \<Rightarrow> do {
                    sc3 \<leftarrow> sendWindowUpdate scheduleFW 0 (int (pipe_Len p)) sc2;
                    Some (upd_obj i (ss_body_update (map_option (CloseWithError err))) sc3) });
        if ss_cw (sc_objs sc3 i) then None
        else Some ((upd_obj i (ss_cw_update (\<lambda>_. True)) sc3)\<lparr> sc_ws := CloseStream i (sc_ws sc3) \<rparr>) })"

section \<open>Writing\<close>

definition replyToWriter :: "write_req \<Rightarrow> serverConn \<Rightarrow> serverConn" where
  "replyToWriter wr sc = (case wr_done wr of None \<Rightarrow> sc | Some d \<Rightarrow> sc\<lparr> sc_replies := sc_replies sc @ [d] \<rparr>)"

text \<open>What a written frame does to its stream.\<close>

definition frame_written :: "sched \<Rightarrow> write_req \<Rightarrow> write_framer \<Rightarrow> serverConn \<Rightarrow> serverConn option" where
  "frame_written scheduleFW wr f sc =
     (if writeEndsStream f then
        (case wr_stream wr of
           None \<Rightarrow> None
         | Some s \<Rightarrow>
             (case ss_state (sc_objs sc (st_id s)) of
                StateOpen \<Rightarrow> resetStream scheduleFW (st_id s) ErrCodeNo (upd_obj (st_id s) (ss_state_update (\<lambda>_. StateHalfClosedLocal)) sc)
              | StateHalfClosedRemote \<Rightarrow> closeStream scheduleFW (st_id s) ErrHandlerComplete False sc
              | _ \<Rightarrow> Some sc))
      else
        (case f of
           WriteStreamError j code \<Rightarrow>
             if j \<in> set (sc_streams sc) then closeStream scheduleFW j (BodyStreamError j code) (code \<noteq> ErrCodeNo) sc else Some sc
         | WriteHandlerPanicRST _ \<Rightarrow>
             (case wr_stream wr of None \<Rightarrow> None | Some s \<Rightarrow> closeStream scheduleFW (st_id s) ErrHandlerPanicked False sc)
         | _ \<Rightarrow> Some sc))"

definition wroteFrame :: "sched \<Rightarrow> write_req \<Rightarrow> serverConn \<Rightarrow> serverConn option" where
  "wroteFrame scheduleFW wr sc =
     (if \<not> sc_writingFrame sc then None
      else case wr_write wr of
        None \<Rightarrow> None
      | Some f \<Rightarrow> do {
          sc1 \<leftarrow> frame_written scheduleFW wr f (sc\<lparr> sc_writingFrame := False, sc_writingFrameAsync := False \<rparr>);
          scheduleFW (replyToWriter wr sc1) })"

text \<open>The test for frames that must not be sent on their stream any more.\<close>

definition may_send :: "stream_state \<Rightarrow> write_framer \<Rightarrow> bool" where
  "may_send st f =
     (case st of
        StateHalfClosedLocal \<Rightarrow>
          (case f of WriteStreamError _ _ \<Rightarrow> True | WriteHandlerPanicRST _ \<Rightarrow> True | WriteWindowUpd _ _ \<Rightarrow> True | _ \<Rightarrow> False)
      | StateClosed \<Rightarrow> False
      | _ \<Rightarrow> True)"

definition startFrameWrite :: "world \<Rightarrow> write_req \<Rightarrow> serverConn \<Rightarrow> serverConn option" where
  "startFrameWrite w wr sc =
     (case wr_write wr of
        None \<Rightarrow> None
      | Some f \<Rightarrow>
          if sc_writingFrame sc then None
          else if (case wr_stream wr of None \<Rightarrow> False | Some s \<Rightarrow> \<not> may_send (ss_state (sc_objs sc (st_id s))) f) then None
          else
            let sc1 = sc\<lparr> sc_writingFrame := True, sc_needsFrameFlush := True, sc_sent := sc_sent sc @ [wr], sc_clock := Suc (sc_clock sc) \<rparr>
            in if staysWithinBuffer f (w_avail w (sc_clock sc)) then wroteFrame Some wr (sc1\<lparr> sc_writingFrameAsync := False \<rparr>)
               else Some (sc1\<lparr> sc_writingFrameAsync := True, sc_inflight := Some wr \<rparr>))"

text \<open>The next frame of the scheduler, unless the connection is going away with an error.\<close>

definition next_frame :: "world \<Rightarrow> serverConn \<Rightarrow> (write_req option \<times> serverConn) option" where
  "next_frame w sc =
     (if \<not> sc_inGoAway sc \<or> sc_goAwayCode sc = ErrCodeNo then
        (case ws_Pop (sc_maxFrameSize sc) (w_order w (sc_clock sc) (gm_keys (ws_sq (sc_ws sc)))) (sc_ws sc) (sc_fs sc) of
           None \<Rightarrow> None
         | Some (None, ws, fs) \<Rightarrow> Some (None, sc\<lparr> sc_ws := ws, sc_fs := fs \<rparr>)
         | Some (Some wr, ws, fs) \<Rightarrow>
             let sc1 = sc\<lparr> sc_ws := ws, sc_fs := fs \<rparr>
             in Some (Some wr, if isControl wr then sc1\<lparr> sc_queuedControlFrames := wrap64 (sc_queuedControlFrames sc1 - 1) \<rparr> else sc1))
      else Some (None, sc))"

function schedule_loop :: "world \<Rightarrow> serverConn \<Rightarrow> serverConn option" where
  "schedule_loop w sc =
     (if sc_writingFrameAsync sc then Some sc
      else if sc_needToSendGoAway sc then
        (case startFrameWrite w (control_req (WriteGoAwayTo (sc_maxClientStreamID sc) (sc_goAwayCode sc))) (sc\<lparr> sc_needToSendGoAway := False \<rparr>) of
           None \<Rightarrow> None
         | Some sc1 \<Rightarrow> schedule_loop w sc1)
      else if sc_needToSendSettingsAck sc then
        (case startFrameWrite w (control_req WriteAckSettings) (sc\<lparr> sc_needToSendSettingsAck := False \<rparr>) of
           None \<Rightarrow> None
         | Some sc1 \<Rightarrow> schedule_loop w sc1)
      else
        (case next_frame w sc of
           None \<Rightarrow> None
         | Some (Some wr, sc1) \<Rightarrow>
             (case startFrameWrite w wr sc1 of
                None \<Rightarrow> None
              | Some sc2 \<Rightarrow> schedule_loop w sc2)
         | Some (None, sc1) \<Rightarrow>
             if sc_needsFrameFlush sc1 then
               (case startFrameWrite w (control_req FlushFrameWriter) sc1 of
                  None \<Rightarrow> None
                | Some sc2 \<Rightarrow> schedule_loop w (sc2\<lparr> sc_needsFrameFlush := False \<rparr>))
             else Some sc1))"
  by pat_completeness auto

section \<open>The loop ends\<close>

text \<open>
  Every frame that is written is worth more than the frames that writing it can queue: the end of a response queues a reset,
  a reset queues the window updates for the unread part \<open>L i\<close> of the body.
\<close>

definition updates :: "nat \<Rightarrow> nat" where
  "updates n = Suc (n div nat maxUint31)"

definition aftermath :: "(nat \<Rightarrow> nat) \<Rightarrow> write_req \<Rightarrow> nat" where
  "aftermath L wr =
     (case wr_write wr of
        None \<Rightarrow> 0
      | Some (WriteStreamError j code) \<Rightarrow> updates (L j)
      | Some f \<Rightarrow>
          (case wr_stream wr of
             None \<Rightarrow> 0
           | Some s \<Rightarrow>
               if writeEndsStream f then Suc (updates (L (st_id s)))
               else case f of WriteHandlerPanicRST _ \<Rightarrow> updates (L (st_id s)) | _ \<Rightarrow> 0))"

definition req_weight :: "(nat \<Rightarrow> nat) \<Rightarrow> write_req \<Rightarrow> nat" where
  "req_weight L wr = Suc (DataSize wr + aftermath L wr)"

definition queue_weight :: "(nat \<Rightarrow> nat) \<Rightarrow> write_queue \<Rightarrow> nat" where
  "queue_weight L q = sum_list (map (req_weight L) q)"

definition queues_weight :: "(nat \<Rightarrow> nat) \<Rightarrow> (nat, write_queue) gomap \<Rightarrow> nat" where
  "queues_weight L m = sum_list (map (queue_weight L \<circ> snd) m)"

definition sched_weight :: "(nat \<Rightarrow> nat) \<Rightarrow> write_sched \<Rightarrow> nat" where
  "sched_weight L ws = queue_weight L (ws_zero ws) + queues_weight L (ws_sq ws) + sum_list (map (queue_weight L) (ws_pool ws))"

definition unread :: "serverConn \<Rightarrow> nat \<Rightarrow> nat" where
  "unread sc i = (case ss_body (sc_objs sc i) of None \<Rightarrow> 0 | Some p \<Rightarrow> pipe_Len p)"

definition loop_measure :: "serverConn \<Rightarrow> nat" where
  "loop_measure sc =
     (if sc_writingFrameAsync sc then 0
      else Suc ((if sc_needToSendSettingsAck sc then 1 else 0) + sched_weight (unread sc) (sc_ws sc)))"

lemma queue_weight_simps [simp]: "queue_weight L [] = 0" "queue_weight L (wr # q) = req_weight L wr + queue_weight L q"
  "queue_weight L (q @ r) = queue_weight L q + queue_weight L r"
  by (simp_all add: queue_weight_def)

lemma queues_weight_put:
  "queues_weight L (gm_put i q m) + (case gm_get m i of None \<Rightarrow> 0 | Some q0 \<Rightarrow> queue_weight L q0) = queues_weight L m + queue_weight L q"
  by (induction m) (auto simp: queues_weight_def gm_defs split: option.splits)

lemma queues_weight_del:
  "queues_weight L (gm_del i m) + (case gm_get m i of None \<Rightarrow> 0 | Some q0 \<Rightarrow> queue_weight L q0) \<le> queues_weight L m"
  by (induction m) (auto simp: queues_weight_def gm_defs AList.delete_eq split: option.splits)

lemma pool_get_weight:
  "pool_get p = (q, p1) \<Longrightarrow> queue_weight L q + sum_list (map (queue_weight L) p1) = sum_list (map (queue_weight L) p)"
  by (cases p rule: rev_cases) (auto simp: pool_get_def)

lemma ws_Push_weight: "sched_weight L (ws_Push wr ws) = sched_weight L ws + req_weight L wr"
proof (cases "StreamID wr = 0")
  case True
  then show ?thesis by (simp add: ws_Push_def sched_weight_def wq_push_def)
next
  case False
  show ?thesis
  proof (cases "gm_get (ws_sq ws) (StreamID wr)")
    case None
    obtain q p1 where p: "pool_get (ws_pool ws) = (q, p1)" by (cases "pool_get (ws_pool ws)")
    show ?thesis using False None p pool_get_weight [OF p, of L] queues_weight_put [of L "StreamID wr" "q @ [wr]" "ws_sq ws"]
      by (simp add: ws_Push_def sched_weight_def wq_push_def)
  next
    case (Some q)
    then show ?thesis using False queues_weight_put [of L "StreamID wr" "q @ [wr]" "ws_sq ws"]
      by (simp add: ws_Push_def sched_weight_def wq_push_def)
  qed
qed

lemma CloseStream_weight: "sched_weight L (CloseStream i ws) \<le> sched_weight L ws"
  using queues_weight_del [of L i "ws_sq ws"]
  by (auto simp: CloseStream_def sched_weight_def pool_put_def split: option.split)

lemma wq_consume_weight:
  assumes "wq_consume m n q fs = Some (r, q1, fs1)"
  shows "(case r of None \<Rightarrow> q1 = q | Some c \<Rightarrow> queue_weight L q1 + aftermath L c < queue_weight L q)"
proof (cases q)
  case Nil
  then show ?thesis using assms by (auto simp: wq_consume_def)
next
  case (Cons wr q0)
  show ?thesis
  proof (cases "DataSize wr = 0")
    case True
    then have "Consume m wr n fs = Some (wr, empty_req, 1, fs)"
      by (auto simp: Consume_def DataSize_def split: option.split write_framer.split)
    then show ?thesis using assms Cons by (auto simp: wq_consume_def wq_shift_def req_weight_def)
  next
    case False
    then obtain i p es where w: "wr_write wr = Some (WriteData i p es)" "p \<noteq> []"
      by (auto simp: DataSize_def split: option.splits write_framer.splits)
    show ?thesis using assms Cons w
      by (auto simp: wq_consume_def Consume_def wq_shift_def req_weight_def aftermath_def DataSize_def Let_def split: option.splits if_splits)
  qed
qed

lemma pop_loop_weight:
  "pop_loop m order ws fs = Some (Some c, ws1, fs1) \<Longrightarrow> sched_weight L ws1 + aftermath L c < sched_weight L ws"
proof (induction m order ws fs rule: pop_loop.induct)
  case (2 m i order ws fs)
  show ?case
  proof (cases "gm_get (ws_sq ws) i")
    case None
    then show ?thesis using 2 by simp
  next
    case (Some q)
    obtain r q1 fs2 where c: "wq_consume m 2147483647 q fs = Some (r, q1, fs2)"
      using "2.prems" Some by (auto split: option.splits)
    show ?thesis
    proof (cases r)
      case None
      then have "q1 = q" using wq_consume_weight [OF c, of L] by simp
      moreover have "sched_weight L (ws\<lparr> ws_sq := gm_put i q (ws_sq ws) \<rparr>) = sched_weight L ws"
        using queues_weight_put [of L i q "ws_sq ws"] Some by (simp add: sched_weight_def)
      moreover have "pop_loop m order (ws\<lparr> ws_sq := gm_put i q1 (ws_sq ws) \<rparr>) fs2 = Some (Some c, ws1, fs1)"
        using "2.prems" Some c None by simp
      ultimately show ?thesis using "2.IH"(2) [OF Some c refl None refl] by simp
    next
      case (Some d)
      then show ?thesis using "2.prems" \<open>gm_get (ws_sq ws) i = Some q\<close> c wq_consume_weight [OF c, of L] queues_weight_put [of L i q1 "ws_sq ws"]
          queues_weight_del [of L i "ws_sq ws"]
        by (auto simp: sched_weight_def pool_put_def split: if_splits)
    qed
  qed
qed simp

lemma ws_Pop_weight:
  assumes "ws_Pop m order ws fs = Some (Some c, ws1, fs1)"
  shows "sched_weight L ws1 + aftermath L c < sched_weight L ws"
proof (cases "ws_zero ws")
  case Nil
  then show ?thesis using assms pop_loop_weight by (simp add: ws_Pop_def)
next
  case (Cons wr q)
  then show ?thesis using assms by (auto simp: ws_Pop_def wq_shift_def sched_weight_def req_weight_def)
qed

definition is_reset :: "write_req \<Rightarrow> bool" where
  "is_reset wr = (case wr_write wr of Some (WriteStreamError i code) \<Rightarrow> True | _ \<Rightarrow> False)"

lemma upd_obj_id: "upd_obj i (\<lambda>st. st) sc = sc"
  by (simp add: upd_obj_def)

lemma queue_frameE:
  assumes "queue_frame wr sc = Some sc1"
  obtains b i f where "sc1 = push_unless b wr (upd_obj i f sc)" "f = (\<lambda>st. st) \<or> f = ss_wroteHeaders_update (\<lambda>_. True)"
    "b \<or> StreamID wr = 0 \<or> fst (sc_state (StreamID wr) sc) \<noteq> StateClosed \<or> is_reset wr"
    "b \<Longrightarrow> (StreamID wr \<noteq> 0 \<and> fst (sc_state (StreamID wr) sc) = StateClosed \<and> \<not> is_reset wr) \<or> (\<exists>i. wr_write wr = Some (Write100Continue i))"
proof -
  define closed where "closed = (StreamID wr \<noteq> 0 \<and> fst (sc_state (StreamID wr) sc) = StateClosed \<and> \<not> is_reset wr)"
  have "(\<exists>i. sc1 = push_unless closed wr (upd_obj i (ss_wroteHeaders_update (\<lambda>_. True)) sc)) \<or>
      sc1 = push_unless closed wr sc \<or> sc1 = push_unless True wr sc \<and> (\<exists>i. wr_write wr = Some (Write100Continue i))"
    using assms by (auto simp: queue_frame_def closed_def is_reset_def Let_def split: option.splits write_framer.splits if_splits)
  then consider i where "sc1 = push_unless closed wr (upd_obj i (ss_wroteHeaders_update (\<lambda>_. True)) sc)"
    | "sc1 = push_unless closed wr sc" | "sc1 = push_unless True wr sc" "\<exists>i. wr_write wr = Some (Write100Continue i)" by blast
  then show thesis
  proof cases
    case 1
    then show thesis by (intro that [of closed]) (auto simp: closed_def)
  next
    case 2
    then show thesis by (intro that [of closed 0 "\<lambda>st. st"]) (auto simp: closed_def upd_obj_id)
  next
    case 3
    then show thesis by (intro that [of True 0 "\<lambda>st. st"]) (auto simp: upd_obj_id)
  qed
qed

text \<open>What the functions do to the weight of the queues when they only queue: \<open>sched_grows n sc sc1\<close> bounds it by \<open>n\<close>.\<close>

definition sched_grows :: "nat \<Rightarrow> serverConn \<Rightarrow> serverConn \<Rightarrow> bool" where
  "sched_grows n sc sc1 \<longleftrightarrow> unread sc1 = unread sc \<and> sched_weight (unread sc) (sc_ws sc1) \<le> sched_weight (unread sc) (sc_ws sc) + n \<and>
     sc_needToSendSettingsAck sc1 = sc_needToSendSettingsAck sc"

lemma sched_grows_trans: "sched_grows m sc sc1 \<Longrightarrow> sched_grows n sc1 sc2 \<Longrightarrow> m + n \<le> k \<Longrightarrow> sched_grows k sc sc2"
  by (auto simp: sched_grows_def)

lemma sched_grows_same:
  "unread sc1 = unread sc \<Longrightarrow> sc_ws sc1 = sc_ws sc \<Longrightarrow> sc_needToSendSettingsAck sc1 = sc_needToSendSettingsAck sc \<Longrightarrow> sched_grows 0 sc sc1"
  by (simp add: sched_grows_def)

lemma unread_upd_obj [simp]: "(\<And>st. ss_body (f st) = ss_body st) \<Longrightarrow> unread (upd_obj i f sc) = unread sc"
  by (auto simp: unread_def upd_obj_def fun_eq_iff)

lemma upd_obj_simps [simp]: "sc_ws (upd_obj i f sc) = sc_ws sc" "sc_fs (upd_obj i f sc) = sc_fs sc" "sc_streams (upd_obj i f sc) = sc_streams sc"
  "sc_needToSendSettingsAck (upd_obj i f sc) = sc_needToSendSettingsAck sc" "sc_maxClientStreamID (upd_obj i f sc) = sc_maxClientStreamID sc"
  "sc_curClientStreams (upd_obj i f sc) = sc_curClientStreams sc" "sc_curPushedStreams (upd_obj i f sc) = sc_curPushedStreams sc"
  "sc_writingFrame (upd_obj i f sc) = sc_writingFrame sc" "sc_writingFrameAsync (upd_obj i f sc) = sc_writingFrameAsync sc"
  "sc_keepAlivesDisabled (upd_obj i f sc) = sc_keepAlivesDisabled sc" "sc_inGoAway (upd_obj i f sc) = sc_inGoAway sc"
  "sc_maxPushPromiseID (upd_obj i f sc) = sc_maxPushPromiseID sc" "sc_queuedControlFrames (upd_obj i f sc) = sc_queuedControlFrames sc"
  "sc_objs (upd_obj i f sc) = (sc_objs sc)(i := f (sc_objs sc i))"
  by (simp_all add: upd_obj_def)

lemma pipe_Len_CloseWithError [simp]: "pipe_Len (CloseWithError e p) = pipe_Len p"
  by (simp add: CloseWithError_def closeWithErrorAndCode_def closeDoneLocked_def pipe_Len_def split: option.split)

lemma queue_frame_grows: "queue_frame wr sc = Some sc1 \<Longrightarrow> sched_grows (req_weight (unread sc) wr) sc sc1"
proof (erule queue_frameE)
  fix b i f
  assume sc1: "sc1 = push_unless b wr (upd_obj i f sc)" and f: "f = (\<lambda>st. st) \<or> f = ss_wroteHeaders_update (\<lambda>_. True)"
  then have u: "unread (upd_obj i f sc) = unread sc" by auto
  have "unread (push_unless b wr sc2) = unread sc2 \<and> sc_needToSendSettingsAck (push_unless b wr sc2) = sc_needToSendSettingsAck sc2 \<and>
      sc_ws (push_unless b wr sc2) = (if b then sc_ws sc2 else ws_Push wr (sc_ws sc2))" for sc2
    by (auto simp: push_unless_def Let_def unread_def fun_eq_iff)
  then show ?thesis using u by (simp add: sc1 sched_grows_def ws_Push_weight)
qed

lemma writeFrame_grows: "writeFrame Some wr sc = Some sc1 \<Longrightarrow> sched_grows (req_weight (unread sc) wr) sc sc1"
  by (auto simp: writeFrame_def dest: queue_frame_grows split: bind_splits)

lemma resetStream_grows: "resetStream Some i code sc = Some sc1 \<Longrightarrow> sched_grows (Suc (updates (unread sc i))) sc sc1"
  by (auto simp: resetStream_def sched_grows_def req_weight_def control_req_def DataSize_def aftermath_def split: bind_splits if_splits
      dest!: writeFrame_grows)

lemma window_req_weight: "req_weight L (window_req i n) = 1"
  by (simp add: window_req_def req_weight_def control_req_def stream_req_def aftermath_def DataSize_def)

lemma sendWindowUpdate32_grows: "sendWindowUpdate32 Some i n sc = Some sc1 \<Longrightarrow> sched_grows 1 sc sc1"
  by (auto simp: sendWindowUpdate32_def sched_grows_def window_req_weight unread_def fun_eq_iff split: bind_splits if_splits prod.splits bool.splits
      dest!: writeFrame_grows)

lemma sendWindowUpdate_grows: "sendWindowUpdate Some i n sc = Some sc1 \<Longrightarrow> sched_grows (updates (nat n)) sc sc1"
proof (induction "Some :: sched" i n sc rule: sendWindowUpdate.induct)
  case (1 i n sc)
  show ?case
  proof (cases "n \<ge> maxUint31")
    case True
    then obtain sc2 where s: "sendWindowUpdate32 Some i maxUint31 sc = Some sc2" "sendWindowUpdate Some i (n - maxUint31) sc2 = Some sc1"
      using "1.prems" by (subst (asm) sendWindowUpdate.simps) (auto split: bind_splits)
    have n: "Suc (updates (nat (n - maxUint31))) = updates (nat n)"
      using True by (simp add: updates_def maxUint31_def nat_diff_distrib' div_if)
    show ?thesis
      by (rule sched_grows_trans [OF sendWindowUpdate32_grows [OF s(1)] "1.hyps" [OF True s]]) (simp add: n)
  next
    case False
    then have "sendWindowUpdate32 Some i (wrap32 n) sc = Some sc1" using "1.prems" by (subst (asm) sendWindowUpdate.simps) simp
    then show ?thesis using sendWindowUpdate32_grows by (force simp: sched_grows_def updates_def)
  qed
qed

lemma forget_stream_grows: "sched_grows 0 sc (forget_stream i dirty sc)"
  by (auto simp: forget_stream_def Let_def sched_grows_def unread_def fun_eq_iff upd_obj_def)

lemma goAway_grows: "goAway Some code sc = Some sc1 \<Longrightarrow> sched_grows 0 sc sc1"
  by (auto simp: goAway_def sched_grows_def unread_def fun_eq_iff split: if_splits)

text \<open>\<open>closeStream\<close> in steps, for any scheduling function.\<close>

lemma closeStreamE:
  assumes "closeStream scheduleFW i err dirty sc = Some sc1"
  obtains sc2 sc3 where "ss_state (sc_objs sc i) \<noteq> StateIdle" "ss_state (sc_objs sc i) \<noteq> StateClosed"
    "(if sc_streams (forget_stream i dirty sc) = [] \<and> sc_keepAlivesDisabled (forget_stream i dirty sc)
      then goAway scheduleFW ErrCodeNo (forget_stream i dirty sc) else Some (forget_stream i dirty sc)) = Some sc2"
    "ss_body (sc_objs sc2 i) = None \<and> sc3 = sc2 \<or>
     (\<exists>p sc4. ss_body (sc_objs sc2 i) = Some p \<and> sendWindowUpdate scheduleFW 0 (int (pipe_Len p)) sc2 = Some sc4 \<and>
        sc3 = upd_obj i (ss_body_update (map_option (CloseWithError err))) sc4)"
    "\<not> ss_cw (sc_objs sc3 i)" "sc1 = (upd_obj i (ss_cw_update (\<lambda>_. True)) sc3)\<lparr> sc_ws := CloseStream i (sc_ws sc3) \<rparr>"
  using assms by (auto simp: closeStream_def Let_def split: bind_splits if_splits option.splits)

lemma closeStream_grows: "closeStream Some i err dirty sc = Some sc1 \<Longrightarrow> sched_grows (updates (unread sc i)) sc sc1"
proof (erule closeStreamE)
  fix sc2 sc3
  let ?f = "forget_stream i dirty sc"
  assume 2: "(if sc_streams ?f = [] \<and> sc_keepAlivesDisabled ?f then goAway Some ErrCodeNo ?f else Some ?f) = Some sc2"
    and 3: "ss_body (sc_objs sc2 i) = None \<and> sc3 = sc2 \<or>
     (\<exists>p sc4. ss_body (sc_objs sc2 i) = Some p \<and> sendWindowUpdate Some 0 (int (pipe_Len p)) sc2 = Some sc4 \<and>
        sc3 = upd_obj i (ss_body_update (map_option (CloseWithError err))) sc4)"
    and 1: "sc1 = (upd_obj i (ss_cw_update (\<lambda>_. True)) sc3)\<lparr> sc_ws := CloseStream i (sc_ws sc3) \<rparr>"
  have g2: "sched_grows 0 sc sc2"
    using 2 sched_grows_trans [OF forget_stream_grows goAway_grows, of _ i dirty sc sc2 0] forget_stream_grows [of sc i dirty]
    by (auto split: if_splits)
  then have u: "unread sc2 = unread sc" by (simp add: sched_grows_def)
  have g3: "sched_grows (updates (unread sc i)) sc2 sc3"
  proof (cases "ss_body (sc_objs sc2 i)")
    case None
    then show ?thesis using 3 by (auto simp: sched_grows_def)
  next
    case (Some p)
    then obtain sc4 where s: "sendWindowUpdate Some 0 (int (pipe_Len p)) sc2 = Some sc4" "sc3 = upd_obj i (ss_body_update (map_option (CloseWithError err))) sc4"
      using 3 by auto
    have "pipe_Len p = unread sc2 i" using Some by (simp add: unread_def)
    then have "sched_grows (updates (unread sc i)) sc2 sc4" using sendWindowUpdate_grows [OF s(1)] u by simp
    moreover have "unread sc3 = unread sc4" by (auto simp: s(2) unread_def fun_eq_iff split: option.splits)
    ultimately show ?thesis by (simp add: s(2) sched_grows_def)
  qed
  have "unread sc1 = unread sc3" by (auto simp: 1 unread_def fun_eq_iff)
  then have "sched_grows 0 sc3 sc1" using CloseStream_weight [of "unread sc3" i "sc_ws sc3"] by (simp add: 1 sched_grows_def)
  then show ?thesis using g2 g3 by (auto simp: sched_grows_def)
qed

lemma frame_written_grows:
  assumes "frame_written Some wr f sc = Some sc1" and "wr_write wr = Some f"
  shows "sched_grows (aftermath (unread sc) wr) sc sc1"
proof (cases "writeEndsStream f")
  case True
  then obtain s where s: "wr_stream wr = Some s" using assms(1) by (auto simp: frame_written_def split: option.splits)
  then have a: "aftermath (unread sc) wr = Suc (updates (unread sc (st_id s)))"
    using True assms(2) by (cases f) (auto simp: aftermath_def)
  let ?sc = "upd_obj (st_id s) (ss_state_update (\<lambda>_. StateHalfClosedLocal)) sc"
  have "sched_grows 0 sc ?sc" by (rule sched_grows_same) simp_all
  then have "sched_grows (Suc (updates (unread sc (st_id s)))) sc sc1" if "resetStream Some (st_id s) ErrCodeNo ?sc = Some sc1"
    using sched_grows_trans [OF _ resetStream_grows [OF that]] by simp
  moreover have "sched_grows (Suc (updates (unread sc (st_id s)))) sc sc1" if "closeStream Some (st_id s) ErrHandlerComplete False sc = Some sc1"
    using closeStream_grows [OF that] by (auto simp: sched_grows_def)
  ultimately show ?thesis using assms(1) True s a by (auto simp: frame_written_def sched_grows_def split: stream_state.splits)
next
  case False
  have same: "sched_grows n sc sc" for n by (simp add: sched_grows_def)
  show ?thesis
  proof (cases "\<exists>j code. f = WriteStreamError j code")
    case True
    then show ?thesis using assms closeStream_grows same by (auto simp: frame_written_def aftermath_def split: if_splits)
  next
    case not_reset: False
    show ?thesis
    proof (cases "\<exists>j. f = WriteHandlerPanicRST j")
      case True
      then show ?thesis using assms closeStream_grows by (auto simp: frame_written_def aftermath_def split: option.splits)
    next
      case no_panic: False
      then have "sc1 = sc" using assms(1) False not_reset by (cases f) (auto simp: frame_written_def)
      then show ?thesis using same by simp
    qed
  qed
qed

lemma unread_flags [simp]: "unread (sc\<lparr> sc_writingFrame := a \<rparr>) = unread sc" "unread (sc\<lparr> sc_writingFrameAsync := a \<rparr>) = unread sc"
  "unread (sc\<lparr> sc_needsFrameFlush := a \<rparr>) = unread sc" "unread (sc\<lparr> sc_sent := d \<rparr>) = unread sc" "unread (sc\<lparr> sc_clock := n \<rparr>) = unread sc"
  "unread (sc\<lparr> sc_needToSendSettingsAck := a \<rparr>) = unread sc" "unread (sc\<lparr> sc_needToSendGoAway := a \<rparr>) = unread sc"
  "unread (replyToWriter wr sc) = unread sc"
  by (auto simp: unread_def replyToWriter_def fun_eq_iff split: option.split)

lemma replyToWriter_simps [simp]: "sc_ws (replyToWriter wr sc) = sc_ws sc" "sc_fs (replyToWriter wr sc) = sc_fs sc"
  "sc_streams (replyToWriter wr sc) = sc_streams sc" "sc_objs (replyToWriter wr sc) = sc_objs sc"
  "sc_needToSendSettingsAck (replyToWriter wr sc) = sc_needToSendSettingsAck sc"
  by (auto simp: replyToWriter_def split: option.split)

lemma wroteFrame_grows:
  assumes "wroteFrame Some wr sc = Some sc1"
  shows "sched_grows (aftermath (unread sc) wr) sc sc1"
proof -
  let ?sc = "sc\<lparr> sc_writingFrame := False, sc_writingFrameAsync := False \<rparr>"
  obtain f sc2 where f: "wr_write wr = Some f" and 2: "frame_written Some wr f ?sc = Some sc2" and 1: "sc1 = replyToWriter wr sc2"
    using assms by (auto simp: wroteFrame_def split: if_splits option.splits bind_splits)
  show ?thesis using frame_written_grows [OF 2 f] by (simp add: 1 sched_grows_def)
qed

lemma startFrameWrite_measure:
  assumes "startFrameWrite w wr sc = Some sc1"
  shows "loop_measure sc1 \<le> Suc ((if sc_needToSendSettingsAck sc then 1 else 0) + sched_weight (unread sc) (sc_ws sc) + aftermath (unread sc) wr)"
proof -
  let ?sc = "sc\<lparr> sc_writingFrame := True, sc_needsFrameFlush := True, sc_sent := sc_sent sc @ [wr], sc_clock := Suc (sc_clock sc) \<rparr>"
  consider "sc_writingFrameAsync sc1" | "wroteFrame Some wr (?sc\<lparr> sc_writingFrameAsync := False \<rparr>) = Some sc1"
    using assms by (auto simp: startFrameWrite_def Let_def split: option.splits if_splits)
  then show ?thesis
  proof cases
    case 1
    then show ?thesis by (simp add: loop_measure_def)
  next
    case 2
    show ?thesis using wroteFrame_grows [OF 2] by (auto simp: loop_measure_def sched_grows_def)
  qed
qed

lemma startFrameWrite_async:
  assumes "startFrameWrite w wr sc = Some sc1" and "wr_write wr = Some f" and "\<And>n. \<not> staysWithinBuffer f n"
  shows "sc_writingFrameAsync sc1"
  using assms by (auto simp: startFrameWrite_def Let_def split: option.splits if_splits)

lemma next_frame_weight:
  assumes "next_frame w sc = Some (Some wr, sc1)"
  shows "sched_weight (unread sc) (sc_ws sc1) + aftermath (unread sc) wr < sched_weight (unread sc) (sc_ws sc)" "unread sc1 = unread sc"
    "sc_needToSendSettingsAck sc1 = sc_needToSendSettingsAck sc"
  using assms ws_Pop_weight by (auto simp: next_frame_def Let_def unread_def fun_eq_iff split: if_splits option.splits)

termination schedule_loop
proof (relation "measure (\<lambda>(w, sc). loop_measure sc)", goal_cases)
  case 1
  show ?case by simp
next
  case (2 w sc sc1)
  then have "sc_writingFrameAsync sc1" by (intro startFrameWrite_async) (auto simp: control_req_def)
  then show ?case using 2 by (simp add: loop_measure_def)
next
  case (3 w sc sc1)
  then show ?case using startFrameWrite_measure [OF 3(4)] by (simp add: loop_measure_def aftermath_def control_req_def)
next
  case (4 w sc x opt sc1 sc2)
  then have "sc_writingFrameAsync sc2" by (intro startFrameWrite_async [where wr = "control_req FlushFrameWriter"]) (auto simp: control_req_def)
  then show ?case using 4(1) by (simp add: loop_measure_def)
next
  case (5 w sc x opt sc1 wr sc2)
  then have n: "next_frame w sc = Some (Some wr, sc1)" by simp
  show ?case using startFrameWrite_measure [OF 5(7)] next_frame_weight [OF n] 5(1) by (auto simp: loop_measure_def)
qed

declare schedule_loop.simps [simp del]

definition scheduleFrameWrite :: "world \<Rightarrow> serverConn \<Rightarrow> serverConn option" where
  "scheduleFrameWrite w sc =
     (if sc_writingFrame sc \<or> sc_inFrameScheduleLoop sc then Some sc
      else do {
        sc1 \<leftarrow> schedule_loop w (sc\<lparr> sc_inFrameScheduleLoop := True \<rparr>);
        Some (sc1\<lparr> sc_inFrameScheduleLoop := False \<rparr>) })"

end
