(* ===== verification/Http2_Server.thy ===== *)
theory Http2_Server
  imports Http2_Conn
begin

text \<open>
  \<^verbatim>\<open>web/protocol/http2/server.go\<close> and \<^verbatim>\<open>stream.go\<close>, the reading side of a connection and the serve loop: one \<open>process\<close> function per kind of
  frame, the creation of streams and requests, and \<open>serve_step\<close>, one round of the \<open>select\<close> in \<open>serve\<close>. A header block arrives decoded (hpack is a third-party
  package) as a \<open>MetaHeadersFrame\<close>. Handlers run on their own goroutines: starting one is an entry of \<open>sc_handlers\<close>, what it reads from the body is \<open>requestBody_Read\<close>, and the messages that it
  sends to the serve loop are events. Not modelled: logging, tracing, TLS, the preface, the pool of request contexts beyond the moment of release, push (\<open>startPush\<close>) and the arming of the timers, whose messages are events.
\<close>

section \<open>Configuration\<close>

record server_conf =
  cf_MaxUploadBufferPerConnection :: int
  cf_MaxUploadBufferPerStream :: int
  cf_MaxReadFrameSize :: uint32
  cf_MaxConcurrentStreams :: uint32
  cf_KeepAlivesDisabled :: bool

definition initialWindowSize :: int where
  "initialWindowSize = 65535"

definition initialConnRecvWindowSize :: "server_conf \<Rightarrow> int" where
  "initialConnRecvWindowSize s = (if cf_MaxUploadBufferPerConnection s \<ge> initialWindowSize then cf_MaxUploadBufferPerConnection s else 1048576)"

definition initialStreamRecvWindowSize :: "server_conf \<Rightarrow> int" where
  "initialStreamRecvWindowSize s = (if cf_MaxUploadBufferPerStream s > 0 then cf_MaxUploadBufferPerStream s else 1048576)"

definition maxReadFrameSize :: "server_conf \<Rightarrow> uint32" where
  "maxReadFrameSize s =
     (let v = cf_MaxReadFrameSize s in if v \<ge> 16384 \<and> v \<le> max_frame_size then v else 1048576)"

definition maxConcurrentStreams :: "server_conf \<Rightarrow> uint32" where
  "maxConcurrentStreams s = (if cf_MaxConcurrentStreams s > 0 then cf_MaxConcurrentStreams s else 250)"

definition maxQueuedControlFrames :: int where
  "maxQueuedControlFrames = 10000"

section \<open>Header blocks\<close>

type_synonym field = "string \<times> string"

datatype in_frame = InFrame h2_frame | MetaHeadersFrame frame_header priority_param "field list" bool

definition IsPseudo :: "field \<Rightarrow> bool" where
  "IsPseudo hf = (case fst hf of [] \<Rightarrow> False | c # _ \<Rightarrow> c = CHR '':'')"

fun PseudoValue :: "field list \<Rightarrow> string \<Rightarrow> string" where
  "PseudoValue [] pseudo = []"
| "PseudoValue (hf # flds) pseudo =
     (if \<not> IsPseudo hf then [] else if tl (fst hf) = pseudo then snd hf else PseudoValue flds pseudo)"

definition RegularFields :: "field list \<Rightarrow> field list" where
  "RegularFields flds = dropWhile IsPseudo flds"

definition PseudoFields :: "field list \<Rightarrow> field list" where
  "PseudoFields flds = takeWhile IsPseudo flds"

definition StreamEnded :: "frame_header \<Rightarrow> bool" where
  "StreamEnded h = flag_has (fh_Flags h) FlagEndStream"

definition IsAck :: "frame_header \<Rightarrow> bool" where
  "IsAck h = flag_has (fh_Flags h) FlagAck"

definition HasPriority :: "frame_header \<Rightarrow> bool" where
  "HasPriority h = flag_has (fh_Flags h) FlagPriority"

text \<open>\<open>http.CanonicalHeaderKey\<close>: upper case at the start and after hyphens, lower case elsewhere, if every byte may occur in a name.\<close>

fun canon_bytes :: "bool \<Rightarrow> string \<Rightarrow> string" where
  "canon_bytes upper [] = []"
| "canon_bytes upper (c # cs) = (if upper then ToUpperTable c else ToLowerTable c) # canon_bytes (c = CHR ''-'') cs"

definition CanonicalHeaderKey :: "string \<Rightarrow> string" where
  "CanonicalHeaderKey v = (if list_all ValidHeaderFieldNameTable v then canon_bytes True v else v)"

section \<open>Requests\<close>

text \<open>The fields of a request in its header; the content length is -1 before.\<close>

fun set_fields :: "field list \<Rightarrow> RequestHeader \<Rightarrow> RequestHeader option" where
  "set_fields [] h = Some h"
| "set_fields ((k, v) # flds) h = (case rq_SetCanonical (CanonicalHeaderKey k) v h of None \<Rightarrow> None | Some h1 \<Rightarrow> set_fields flds h1)"

definition connHeaders :: "string list" where
  "connHeaders = [''Connection'', ''Keep-Alive'', ''Proxy-Connection'', ''Transfer-Encoding'', ''Upgrade'']"

definition checkValidHTTP2RequestHeaders :: "RequestHeader \<Rightarrow> bool" where
  "checkValidHTTP2RequestHeaders h \<longleftrightarrow>
     list_all (\<lambda>k. rq_Peek k h = []) connHeaders \<and> (rq_Peek ''TE'' h = [] \<or> rq_Peek ''TE'' h = ''trailers'')"

definition request_valid :: "bool \<Rightarrow> field list \<Rightarrow> bool" where
  "request_valid ended flds =
     (let method = PseudoValue flds ''method''; scheme = PseudoValue flds ''scheme'';
          authority = PseudoValue flds ''authority''; path = PseudoValue flds ''path''
      in (if method = ''CONNECT'' then path = [] \<and> scheme = [] \<and> authority \<noteq> []
          else method \<noteq> [] \<and> path \<noteq> [] \<and> (scheme = ''https'' \<or> scheme = ''http'')) \<and>
         \<not> (method = ''HEAD'' \<and> \<not> ended))"

definition newWriterAndRequest :: "nat \<Rightarrow> uint32 \<Rightarrow> bool \<Rightarrow> field list \<Rightarrow> serverConn \<Rightarrow> (h2_error option \<times> serverConn) option" where
  "newWriterAndRequest i streamID ended flds sc =
     (if \<not> request_valid ended flds then Some (Some (StreamErr streamID ErrCodeProtocol), sc)
      else
        let h0 = (ss_header (sc_objs sc i))\<lparr> rq_method := PseudoValue flds ''method'',
                   rq_requestURI := PseudoValue flds ''scheme'' @ ''://'' @ PseudoValue flds ''authority'' @ PseudoValue flds ''path'' \<rparr>
        in case set_fields (RegularFields flds) h0 of
             None \<Rightarrow> None
           | Some h1 \<Rightarrow>
               let decl = (if rq_contentLengthBytes h1 \<noteq> [] then rq_contentLength h1 else - 1);
                   needsContinue = (rq_Peek ''Expect'' h1 = ''100-continue'');
                   h2 = (if needsContinue then rq_Del ''Expect'' h1 else h1)
               in Some (None, upd_obj i (\<lambda>st. st\<lparr> ss_header := h2, ss_declBodyBytes := decl, rb_needsContinue := needsContinue,
                    ss_body := (if ended then None else Some (new_pipe [])) \<rparr>) sc))"

definition newStream :: "server_conf \<Rightarrow> nat \<Rightarrow> stream_state \<Rightarrow> serverConn \<Rightarrow> serverConn option" where
  "newStream cf i st sc =
     (if i = 0 then None
      else
        let h = new_request_header\<lparr> rq_protocol := ''HTTP/2.0'', rq_contentLength := - 1 \<rparr>;
            fs0 = (sc_fs sc)(flow_addr i := \<lparr> fl_n = 0, fl_conn = Some (flow_addr 0) \<rparr>, inflow_addr i := \<lparr> fl_n = 0, fl_conn = Some (inflow_addr 0) \<rparr>);
            fs1 = snd (flow_add (flow_addr i) (sc_initialStreamSendWindowSize sc) fs0);
            fs2 = snd (flow_add (inflow_addr i) (initialStreamRecvWindowSize cf) fs1);
            sc1 = (upd_obj i (\<lambda>_. zero_stream\<lparr> ss_state := st, ss_header := h \<rparr>) sc)\<lparr> sc_fs := fs2, sc_streams := i # sc_streams sc \<rparr>
        in Some (if isPushed i then sc1\<lparr> sc_curPushedStreams := sc_curPushedStreams sc1 + 1 \<rparr>
                 else sc1\<lparr> sc_curClientStreams := sc_curClientStreams sc1 + 1 \<rparr>))"

section \<open>Frames\<close>

type_synonym process = "(h2_error option \<times> serverConn) option"

definition processPing :: "world \<Rightarrow> frame_header \<Rightarrow> byte list \<Rightarrow> serverConn \<Rightarrow> process" where
  "processPing w hdr data sc =
     (if IsAck hdr then Some (None, sc)
      else if fh_StreamID hdr \<noteq> 0 then Some (Some (ConnectionError ErrCodeProtocol), sc)
      else if sc_inGoAway sc \<and> sc_goAwayCode sc \<noteq> ErrCodeNo then Some (None, sc)
      else map_option (Pair None) (writeFrame (scheduleFrameWrite w) (control_req (WritePingAckFrame data)) sc))"

definition processWindowUpdate :: "world \<Rightarrow> frame_header \<Rightarrow> uint32 \<Rightarrow> serverConn \<Rightarrow> process" where
  "processWindowUpdate w hdr inc sc =
     (let i = unat (fh_StreamID hdr); n = wrap32 (uint inc) in
      if i \<noteq> 0 then
        (case sc_state i sc of (state, known) \<Rightarrow>
           if state = StateIdle then Some (Some (ConnectionError ErrCodeProtocol), sc)
           else if \<not> known then Some (None, sc)
           else case flow_add (flow_addr i) n (sc_fs sc) of
             (False, _) \<Rightarrow> Some (Some (StreamErr (fh_StreamID hdr) ErrCodeFlowControl), sc)
           | (True, fs) \<Rightarrow> map_option (Pair None) (scheduleFrameWrite w (sc\<lparr> sc_fs := fs \<rparr>)))
      else case flow_add (flow_addr 0) n (sc_fs sc) of
             (False, _) \<Rightarrow> Some (Some GoAwayFlowError, sc)
           | (True, fs) \<Rightarrow> map_option (Pair None) (scheduleFrameWrite w (sc\<lparr> sc_fs := fs \<rparr>)))"

definition processResetStream :: "world \<Rightarrow> frame_header \<Rightarrow> uint32 \<Rightarrow> serverConn \<Rightarrow> process" where
  "processResetStream w hdr code sc =
     (let i = unat (fh_StreamID hdr) in
      case sc_state i sc of (state, known) \<Rightarrow>
        if state = StateIdle then Some (Some (ConnectionError ErrCodeProtocol), sc)
        else if known then map_option (Pair None) (closeStream (scheduleFrameWrite w) i (BodyStreamError i code) True sc)
        else Some (None, sc))"

definition Setting_Valid :: "setting \<Rightarrow> h2_error option" where
  "Setting_Valid s =
     (if set_ID s = 2 then (if set_Val s \<noteq> 1 \<and> set_Val s \<noteq> 0 then Some (ConnectionError ErrCodeProtocol) else None)
      else if set_ID s = 4 then (if set_Val s > 2147483647 then Some (ConnectionError ErrCodeFlowControl) else None)
      else if set_ID s = 5 then (if set_Val s < 16384 \<or> set_Val s > 16777215 then Some (ConnectionError ErrCodeProtocol) else None)
      else None)"

fun grow_windows :: "nat list \<Rightarrow> int \<Rightarrow> flows \<Rightarrow> bool \<times> flows" where
  "grow_windows [] growth fs = (True, fs)"
| "grow_windows (i # ids) growth fs =
     (case flow_add (flow_addr i) growth fs of (False, fs1) \<Rightarrow> (False, fs1) | (True, fs1) \<Rightarrow> grow_windows ids growth fs1)"

definition processSettingInitialWindowSize :: "world \<Rightarrow> uint32 \<Rightarrow> serverConn \<Rightarrow> h2_error option \<times> serverConn" where
  "processSettingInitialWindowSize w v sc =
     (let old = sc_initialStreamSendWindowSize sc;
          new = wrap32 (uint v);
          growth = wrap32 (new - old);
          (ok, fs) = grow_windows (w_order w (sc_clock sc) (sc_streams sc)) growth (sc_fs sc);
          sc1 = sc\<lparr> sc_initialStreamSendWindowSize := new, sc_fs := fs \<rparr>
      in (if ok then None else Some (ConnectionError ErrCodeFlowControl), sc1))"

definition processSetting :: "world \<Rightarrow> setting \<Rightarrow> serverConn \<Rightarrow> h2_error option \<times> serverConn" where
  "processSetting w s sc =
     (case Setting_Valid s of
        Some e \<Rightarrow> (Some e, sc)
      | None \<Rightarrow>
          if set_ID s = 1 then (None, sc\<lparr> sc_headerTableSize := set_Val s \<rparr>)
          else if set_ID s = 2 then (None, sc\<lparr> sc_pushEnabled := (set_Val s \<noteq> 0) \<rparr>)
          else if set_ID s = 3 then (None, sc\<lparr> sc_clientMaxStreams := set_Val s \<rparr>)
          else if set_ID s = 4 then processSettingInitialWindowSize w (set_Val s) sc
          else if set_ID s = 5 then (None, sc\<lparr> sc_maxFrameSize := wrap32 (uint (set_Val s)) \<rparr>)
          else if set_ID s = 6 then (None, sc\<lparr> sc_peerMaxHeaderListSize := set_Val s \<rparr>)
          else (None, sc))"

fun ForeachSetting :: "world \<Rightarrow> setting list \<Rightarrow> serverConn \<Rightarrow> h2_error option \<times> serverConn" where
  "ForeachSetting w [] sc = (None, sc)"
| "ForeachSetting w (s # ss) sc =
     (case processSetting w s sc of (Some e, sc1) \<Rightarrow> (Some e, sc1) | (None, sc1) \<Rightarrow> ForeachSetting w ss sc1)"

fun dup_pairs :: "'a list \<Rightarrow> bool" where
  "dup_pairs [] = False"
| "dup_pairs (x # xs) = (x \<in> set xs \<or> dup_pairs xs)"

fun dup_seen :: "'a list \<Rightarrow> 'a list \<Rightarrow> bool" where
  "dup_seen [] seen = False"
| "dup_seen (x # xs) seen = (x \<in> set seen \<or> dup_seen xs (x # seen))"

definition frame_settings :: "byte list \<Rightarrow> setting list" where
  "frame_settings p = map (frame_Setting p) [0..<NumSettings p]"

definition HasDuplicates :: "byte list \<Rightarrow> bool" where
  "HasDuplicates p =
     (let ids = map set_ID (frame_settings p) in
      if length ids = 0 then False else if length ids < 10 then dup_pairs ids else dup_seen ids [])"

definition processSettings :: "world \<Rightarrow> frame_header \<Rightarrow> byte list \<Rightarrow> serverConn \<Rightarrow> process" where
  "processSettings w hdr p sc =
     (if IsAck hdr then
        let sc1 = sc\<lparr> sc_unackedSettings := sc_unackedSettings sc - 1 \<rparr>
        in Some (if sc_unackedSettings sc1 < 0 then Some (ConnectionError ErrCodeProtocol) else None, sc1)
      else if NumSettings p > 100 \<or> HasDuplicates p then Some (Some (ConnectionError ErrCodeProtocol), sc)
      else case ForeachSetting w (frame_settings p) sc of
        (Some e, sc1) \<Rightarrow> Some (Some e, sc1)
      | (None, sc1) \<Rightarrow> map_option (Pair None) (scheduleFrameWrite w (sc1\<lparr> sc_needToSendSettingsAck := True \<rparr>)))"

definition endStream :: "nat \<Rightarrow> serverConn \<Rightarrow> serverConn option" where
  "endStream i sc =
     (let st = sc_objs sc i in
      case ss_body st of
        None \<Rightarrow> None
      | Some p \<Rightarrow>
          let p1 = (if ss_declBodyBytes st \<noteq> - 1 \<and> ss_declBodyBytes st \<noteq> ss_bodyBytes st
                    then CloseWithError (TooFewBytes (ss_declBodyBytes st) (ss_bodyBytes st)) p
                    else CloseWithError IoEOF (closeWithErrorAndCode IoEOF (Some ()) p))
          in Some (upd_obj i (\<lambda>st. st\<lparr> ss_body := Some p1, ss_state := StateHalfClosedRemote \<rparr>) sc))"

text \<open>DATA on an open stream with a body: the bytes are charged, written to the pipe, and the padding is returned.\<close>

definition accept_data :: "world \<Rightarrow> frame_header \<Rightarrow> byte list \<Rightarrow> unit pipe \<Rightarrow> serverConn \<Rightarrow> process" where
  "accept_data w hdr data p sc =
     (let i = unat (fh_StreamID hdr); n = wrap32 (uint (fh_Length hdr)) in
      if fh_Length hdr > 0 then
        (if available (inflow_addr i) (sc_fs sc) < n then Some (Some (StreamErr (fh_StreamID hdr) ErrCodeFlowControl), sc)
         else do {
           fs \<leftarrow> flow_take (inflow_addr i) n (sc_fs sc);
           let sc1 = sc\<lparr> sc_fs := fs \<rparr>;
           (ok, sc2) \<leftarrow>
             (if data \<noteq> [] then do {
                (ok, p1) \<leftarrow> pipe_Write data p;
                Some (ok, if ok then upd_obj i (\<lambda>st. st\<lparr> ss_body := Some p1, ss_bodyBytes := wrap64 (ss_bodyBytes st + int (length data)) \<rparr>) sc1 else sc1) }
              else Some (True, sc1));
           if \<not> ok then Some (Some (StreamErr (fh_StreamID hdr) ErrCodeStreamClosed), sc2)
           else
             let pad = n - int (length data) in
             if pad > 0 then do {
               sc3 \<leftarrow> sendWindowUpdate32 (scheduleFrameWrite w) 0 pad sc2;
               sc4 \<leftarrow> sendWindowUpdate32 (scheduleFrameWrite w) i pad sc3;
               Some (None, sc4) }
             else Some (None, sc2) })
      else Some (None, sc))"

definition processData :: "world \<Rightarrow> frame_header \<Rightarrow> byte list \<Rightarrow> serverConn \<Rightarrow> process" where
  "processData w hdr data sc =
     (let i = unat (fh_StreamID hdr); n = wrap32 (uint (fh_Length hdr)); st = sc_objs sc i in
      if sc_inGoAway sc \<and> sc_goAwayCode sc \<noteq> ErrCodeNo then Some (None, sc)
      else case sc_state i sc of (state, known) \<Rightarrow>
        if i = 0 \<or> state = StateIdle then Some (Some (ConnectionError ErrCodeProtocol), sc)
        else if \<not> known \<or> state \<noteq> StateOpen \<or> ss_gotTrailerHeader st \<or> ss_resetQueued st then
          (if available (inflow_addr 0) (sc_fs sc) < n then Some (Some (StreamErr (fh_StreamID hdr) ErrCodeFlowControl), sc)
           else do {
             fs \<leftarrow> flow_take (inflow_addr 0) n (sc_fs sc);
             sc1 \<leftarrow> sendWindowUpdate (scheduleFrameWrite w) 0 (uint (fh_Length hdr)) (sc\<lparr> sc_fs := fs \<rparr>);
             Some (if known \<and> ss_resetQueued (sc_objs sc1 i) then None else Some (StreamErr (fh_StreamID hdr) ErrCodeStreamClosed), sc1) })
        else case ss_body st of
          None \<Rightarrow> None
        | Some p \<Rightarrow>
            if ss_declBodyBytes st \<noteq> - 1 \<and> wrap64 (ss_bodyBytes st + int (length data)) > ss_declBodyBytes st then
              Some (Some (StreamErr (fh_StreamID hdr) ErrCodeProtocol),
                upd_obj i (ss_body_update (map_option (CloseWithError (TooManyBytes (ss_declBodyBytes st))))) sc)
            else do {
              (err, sc1) \<leftarrow> accept_data w hdr data p sc;
              if err \<noteq> None then Some (err, sc1)
              else if StreamEnded hdr then map_option (Pair None) (endStream i sc1)
              else Some (None, sc1) })"

definition processGoAway :: "world \<Rightarrow> serverConn \<Rightarrow> process" where
  "processGoAway w sc = do {
     sc1 \<leftarrow> goAway (scheduleFrameWrite w) ErrCodeNo sc;
     Some (None, sc1\<lparr> sc_pushEnabled := False \<rparr>) }"

definition checkPriority :: "uint32 \<Rightarrow> priority_param \<Rightarrow> h2_error option" where
  "checkPriority streamID p = (if streamID = pr_StreamDep p then Some (StreamErr streamID ErrCodeProtocol) else None)"

definition processPriority :: "frame_header \<Rightarrow> priority_param \<Rightarrow> serverConn \<Rightarrow> process" where
  "processPriority hdr p sc = (if sc_inGoAway sc then Some (None, sc) else Some (checkPriority (fh_StreamID hdr) p, sc))"

definition processTrailerHeaders :: "frame_header \<Rightarrow> field list \<Rightarrow> serverConn \<Rightarrow> process" where
  "processTrailerHeaders hdr flds sc =
     (let i = unat (fh_StreamID hdr); sc1 = upd_obj i (ss_gotTrailerHeader_update (\<lambda>_. True)) sc in
      if ss_gotTrailerHeader (sc_objs sc i) then Some (Some (StreamErr (fh_StreamID hdr) ErrCodeProtocol), sc)
      else if \<not> StreamEnded hdr \<or> PseudoFields flds \<noteq> [] then Some (Some (StreamErr (fh_StreamID hdr) ErrCodeProtocol), sc1)
      else map_option (Pair None) (endStream i
        (upd_obj i (\<lambda>st. st\<lparr> ss_trailer := ss_trailer st @ map (\<lambda>(k, v). (CanonicalHeaderKey k, v)) (RegularFields flds) \<rparr>) sc1)))"

definition open_stream :: "server_conf \<Rightarrow> frame_header \<Rightarrow> priority_param \<Rightarrow> field list \<Rightarrow> bool \<Rightarrow> serverConn \<Rightarrow> process" where
  "open_stream cf hdr prio flds truncated sc =
     (let i = unat (fh_StreamID hdr) in do {
        sc1 \<leftarrow> newStream cf i (if StreamEnded hdr then StateHalfClosedRemote else StateOpen) sc;
        (case (if HasPriority hdr then checkPriority (fh_StreamID hdr) prio else None) of
           Some e \<Rightarrow> Some (Some e, sc1)
         | None \<Rightarrow> do {
             (err, sc2) \<leftarrow> newWriterAndRequest i (fh_StreamID hdr) (StreamEnded hdr) flds sc1;
             if err \<noteq> None then Some (err, sc2)
             else
               let handler = (if truncated then HandleHeaderListTooLong
                              else if \<not> checkValidHTTP2RequestHeaders (ss_header (sc_objs sc2 i)) then Handler400 else CoreServe)
               in Some (None, (upd_obj i (ss_handler_update (\<lambda>_. Some handler)) sc2)\<lparr> sc_handlers := sc_handlers sc2 @ [i] \<rparr>) }) })"

definition processHeaders :: "server_conf \<Rightarrow> frame_header \<Rightarrow> priority_param \<Rightarrow> field list \<Rightarrow> bool \<Rightarrow> serverConn \<Rightarrow> process" where
  "processHeaders cf hdr prio flds truncated sc =
     (let i = unat (fh_StreamID hdr); st = sc_objs sc i in
      if sc_inGoAway sc then Some (None, sc)
      else if i mod 2 \<noteq> 1 then Some (Some (ConnectionError ErrCodeProtocol), sc)
      else if i \<in> set (sc_streams sc) then
        (if ss_resetQueued st then Some (None, sc)
         else if ss_state st = StateHalfClosedRemote then Some (Some (StreamErr (fh_StreamID hdr) ErrCodeStreamClosed), sc)
         else processTrailerHeaders hdr flds sc)
      else if i \<le> sc_maxClientStreamID sc then Some (Some (ConnectionError ErrCodeProtocol), sc)
      else
        let sc1 = sc\<lparr> sc_maxClientStreamID := i \<rparr> in
        if sc_curClientStreams sc1 + 1 > sc_advMaxStreams sc1 then
          Some (Some (StreamErr (fh_StreamID hdr) (if sc_unackedSettings sc1 = 0 then ErrCodeProtocol else ErrCodeRefusedStream)), sc1)
        else open_stream cf hdr prio flds truncated sc1)"

fun processFrame :: "world \<Rightarrow> server_conf \<Rightarrow> in_frame \<Rightarrow> serverConn \<Rightarrow> process" where
  "processFrame w cf f sc =
     (if \<not> sc_sawFirstSettings sc \<and> (case f of InFrame (SettingsFrame _ _) \<Rightarrow> False | _ \<Rightarrow> True) then Some (Some (ConnectionError ErrCodeProtocol), sc)
      else
        let sc1 = sc\<lparr> sc_sawFirstSettings := True \<rparr> in
        case f of
          MetaHeadersFrame hdr prio flds truncated \<Rightarrow> processHeaders cf hdr prio flds truncated sc1
        | InFrame fr \<Rightarrow>
            (case fr of
               SettingsFrame hdr p \<Rightarrow> processSettings w hdr p sc1
             | WindowUpdateFrame hdr inc \<Rightarrow> processWindowUpdate w hdr inc sc1
             | PingFrame hdr d \<Rightarrow> processPing w hdr d sc1
             | DataFrame hdr d \<Rightarrow> processData w hdr d sc1
             | RSTStreamFrame hdr code \<Rightarrow> processResetStream w hdr code sc1
             | PriorityFrame hdr p \<Rightarrow> processPriority hdr p sc1
             | GoAwayFrame hdr a b c \<Rightarrow> processGoAway w sc1
             | PushPromiseFrame hdr a b \<Rightarrow> Some (Some (ConnectionError ErrCodeProtocol), sc1)
             | _ \<Rightarrow> Some (None, sc1)))"

text \<open>The result is whether the connection is kept. \<open>ErrEOF\<close> and \<open>ErrUnexpectedEOF\<close> stand for the errors by which the client is gone.\<close>

definition process_error :: "world \<Rightarrow> h2_error \<Rightarrow> serverConn \<Rightarrow> (bool \<times> serverConn) option" where
  "process_error w e sc =
     (case e of
        StreamErr i code \<Rightarrow> map_option (Pair True) (resetStream (scheduleFrameWrite w) (unat i) code sc)
      | GoAwayFlowError \<Rightarrow> map_option (Pair True) (goAway (scheduleFrameWrite w) ErrCodeFlowControl sc)
      | ConnectionError code \<Rightarrow> map_option (Pair True) (goAway (scheduleFrameWrite w) code sc)
      | _ \<Rightarrow> Some (False, sc))"

definition processFrameFromReader :: "world \<Rightarrow> server_conf \<Rightarrow> h2_error + in_frame \<Rightarrow> serverConn \<Rightarrow> (bool \<times> serverConn) option" where
  "processFrameFromReader w cf res sc =
     (case res of
        Inl ErrFrameTooLarge \<Rightarrow> map_option (Pair True) (goAway (scheduleFrameWrite w) ErrCodeFrameSize sc)
      | Inl ErrEOF \<Rightarrow> Some (False, sc)
      | Inl ErrUnexpectedEOF \<Rightarrow> Some (False, sc)
      | Inl e \<Rightarrow> process_error w e sc
      | Inr f \<Rightarrow> do {
          (err, sc1) \<leftarrow> processFrame w cf f sc;
          case err of None \<Rightarrow> Some (True, sc1) | Some e \<Rightarrow> process_error w e sc1 })"

section \<open>The serve loop\<close>

definition noteBodyRead :: "world \<Rightarrow> nat \<Rightarrow> int \<Rightarrow> serverConn \<Rightarrow> serverConn option" where
  "noteBodyRead w i n sc = do {
     sc1 \<leftarrow> sendWindowUpdate (scheduleFrameWrite w) 0 n sc;
     if ss_state (sc_objs sc1 i) \<noteq> StateHalfClosedRemote \<and> ss_state (sc_objs sc1 i) \<noteq> StateClosed
     then sendWindowUpdate (scheduleFrameWrite w) i n sc1 else Some sc1 }"

text \<open>
  The messages that the \<open>select\<close> receives. \<open>WantWrite i f d\<close> is a frame of the handler of stream \<open>i\<close>, \<open>WroteFrame\<close> is the result of the asynchronous write under way, if there is one; \<open>ReadFrameEv wrote res\<close> is a frame from the reader, where
  \<open>wrote\<close> tells whether that result is there already and is received first. \<open>CoreRunning b\<close> is no message: it is the engine that starts or stops between two of them, after which
  \<open>h1ServerKeepAlivesDisabled\<close> gives another answer.
\<close>

definition wrote_inflight :: "world \<Rightarrow> serverConn \<Rightarrow> serverConn option" where
  "wrote_inflight w sc =
     (case sc_inflight sc of None \<Rightarrow> Some sc | Some wr \<Rightarrow> wroteFrame (scheduleFrameWrite w) wr (sc\<lparr> sc_inflight := None \<rparr>))"

datatype serve_event = WantWrite nat write_framer "nat option" | WroteFrame | ReadFrameEv bool "h2_error + in_frame" | BodyRead nat int
  | IdleTimerMsg | GracefulShutdownMsg | SettingsTimerMsg | ShutdownTimerMsg | CoreRunning bool

fun serve_event_step :: "world \<Rightarrow> server_conf \<Rightarrow> serve_event \<Rightarrow> serverConn \<Rightarrow> (bool \<times> serverConn) option" where
  "serve_event_step w cf (WantWrite i f d) sc =
     map_option (Pair True)
       (case f of
          WriteStreamError j code \<Rightarrow> resetStream (scheduleFrameWrite w) j code sc
        | _ \<Rightarrow> writeFrame (scheduleFrameWrite w) (stream_req i f d) sc)"
| "serve_event_step w cf WroteFrame sc = map_option (Pair True) (wrote_inflight w sc)"
| "serve_event_step w cf (ReadFrameEv wrote res) sc = do {
     sc1 \<leftarrow> (if wrote \<and> sc_writingFrameAsync sc then wrote_inflight w sc else Some sc);
     processFrameFromReader w cf res sc1 }"
| "serve_event_step w cf (BodyRead i n) sc = map_option (Pair True) (noteBodyRead w i n sc)"
| "serve_event_step w cf IdleTimerMsg sc = map_option (Pair True) (goAway (scheduleFrameWrite w) ErrCodeNo sc)"
| "serve_event_step w cf GracefulShutdownMsg sc = map_option (Pair True) (goAway (scheduleFrameWrite w) ErrCodeNo sc)"
| "serve_event_step w cf SettingsTimerMsg sc = Some (False, sc)"
| "serve_event_step w cf ShutdownTimerMsg sc = Some (False, sc)"
| "serve_event_step w cf (CoreRunning b) sc = Some (True, sc\<lparr> sc_keepAlivesDisabled := cf_KeepAlivesDisabled cf \<or> \<not> b \<rparr>)"

text \<open>What follows the \<open>select\<close>: too many queued control frames end the loop, a sent GOAWAY starts the shutdown timer.\<close>

definition after_event :: "serverConn \<Rightarrow> bool \<times> serverConn" where
  "after_event sc =
     (if sc_queuedControlFrames sc > maxQueuedControlFrames then (False, sc)
      else
        let sentGoAway = (sc_inGoAway sc \<and> \<not> sc_needToSendGoAway sc \<and> \<not> sc_writingFrame sc);
            complete = (sc_goAwayCode sc = ErrCodeNo \<and> sc_curClientStreams sc + sc_curPushedStreams sc = 0)
        in (True, if sentGoAway \<and> \<not> sc_shutdownTimer sc \<and> (sc_goAwayCode sc \<noteq> ErrCodeNo \<or> complete)
                  then sc\<lparr> sc_shutdownTimer := True \<rparr> else sc))"

definition serve_step :: "world \<Rightarrow> server_conf \<Rightarrow> serve_event \<Rightarrow> serverConn \<Rightarrow> (bool \<times> serverConn) option" where
  "serve_step w cf ev sc = do {
     (go, sc1) \<leftarrow> serve_event_step w cf ev sc;
     Some (if go then after_event sc1 else (False, sc1)) }"

text \<open>
  Which messages can be there: those of handlers that were started, and the result of a write that is under way. A run skips the others.
\<close>

fun possible :: "serve_event \<Rightarrow> serverConn \<Rightarrow> bool" where
  "possible (WantWrite i f d) sc \<longleftrightarrow> i \<in> set (sc_handlers sc)"
| "possible (BodyRead i n) sc \<longleftrightarrow> i \<in> set (sc_handlers sc)"
| "possible WroteFrame sc \<longleftrightarrow> sc_inflight sc \<noteq> None"
| "possible _ sc \<longleftrightarrow> True"

fun serve_run :: "world \<Rightarrow> server_conf \<Rightarrow> serve_event list \<Rightarrow> serverConn \<Rightarrow> (bool \<times> serverConn) option" where
  "serve_run w cf [] sc = Some (True, sc)"
| "serve_run w cf (ev # evs) sc =
     (if \<not> possible ev sc then serve_run w cf evs sc
      else case serve_step w cf ev sc of
        None \<Rightarrow> None
      | Some (False, sc1) \<Rightarrow> Some (False, sc1)
      | Some (True, sc1) \<Rightarrow> serve_run w cf evs sc1)"

fun close_all :: "world \<Rightarrow> nat list \<Rightarrow> serverConn \<Rightarrow> serverConn option" where
  "close_all w [] sc = Some sc"
| "close_all w (i # ids) sc =
     (if i \<in> set (sc_streams sc) then do { sc1 \<leftarrow> closeStream (scheduleFrameWrite w) i ErrClientDisconnected True sc; close_all w ids sc1 }
      else close_all w ids sc)"

definition closeAllStreamsOnConnClose :: "world \<Rightarrow> serverConn \<Rightarrow> serverConn option" where
  "closeAllStreamsOnConnClose w sc = close_all w (w_order w (sc_clock sc) (sc_streams sc)) sc"

text \<open>A new connection, and the frames that \<open>serve\<close> sends before it reads.\<close>

definition new_conn :: "server_conf \<Rightarrow> serverConn" where
  "new_conn cf = \<lparr> sc_streams = [], sc_objs = (\<lambda>_. zero_stream),
     sc_fs = (\<lambda>_. \<lparr> fl_n = 0, fl_conn = None \<rparr>)(flow_addr 0 := \<lparr> fl_n = initialWindowSize, fl_conn = None \<rparr>, inflow_addr 0 := \<lparr> fl_n = initialWindowSize, fl_conn = None \<rparr>),
     sc_ws = NewRandomWriteScheduler, sc_pushEnabled = True, sc_sawFirstSettings = False, sc_needToSendSettingsAck = False, sc_unackedSettings = 0,
     sc_queuedControlFrames = 0, sc_clientMaxStreams = 4294967295, sc_advMaxStreams = maxConcurrentStreams cf, sc_curClientStreams = 0, sc_curPushedStreams = 0,
     sc_maxClientStreamID = 0, sc_maxPushPromiseID = 0, sc_initialStreamSendWindowSize = initialWindowSize, sc_maxFrameSize = 16384, sc_headerTableSize = 4096,
     sc_peerMaxHeaderListSize = 0, sc_writingFrame = False, sc_writingFrameAsync = False, sc_needsFrameFlush = False, sc_inGoAway = False,
     sc_inFrameScheduleLoop = False, sc_needToSendGoAway = False, sc_goAwayCode = ErrCodeNo, sc_shutdownTimer = False, sc_keepAlivesDisabled = cf_KeepAlivesDisabled cf,
     sc_connClosed = False, sc_inflight = None, sc_sent = [], sc_replies = [], sc_handlers = [], sc_clock = 0 \<rparr>"

definition serve_start :: "world \<Rightarrow> server_conf \<Rightarrow> serverConn option" where
  "serve_start w cf = do {
     sc1 \<leftarrow> writeFrame (scheduleFrameWrite w) (control_req (WriteSettingsList 4)) (new_conn cf);
     let sc2 = sc1\<lparr> sc_unackedSettings := sc_unackedSettings sc1 + 1 \<rparr>;
     let diff = wrap32 (initialConnRecvWindowSize cf - initialWindowSize);
     if diff > 0 then sendWindowUpdate (scheduleFrameWrite w) 0 diff sc2 else Some sc2 }"

text \<open>\<open>serve\<close> from its first frames on: the loop, and the streams that are closed when it returns. The first component tells whether it is still running.\<close>

definition serve :: "world \<Rightarrow> server_conf \<Rightarrow> serve_event list \<Rightarrow> (bool \<times> serverConn) option" where
  "serve w cf evs = do {
     sc0 \<leftarrow> serve_start w cf;
     (running, sc1) \<leftarrow> serve_run w cf evs sc0;
     if running then Some (True, sc1) else map_option (Pair False) (closeAllStreamsOnConnClose w sc1) }"

section \<open>Handlers\<close>

text \<open>
  A handler reads at most \<open>n\<close> bytes of the body. The result is what it reads, and the messages that the read sends to the serve loop: a request to write a 100-continue response and
  the number of bytes read. A read that waits has no effect but the first message.
\<close>

definition copyTrailer :: "nat \<Rightarrow> serverConn \<Rightarrow> serverConn option" where
  "copyTrailer i sc =
     (let st = sc_objs sc i in
      map_option (\<lambda>t. upd_obj i (\<lambda>st. st\<lparr> ss_header := (ss_header st)\<lparr> rq_trailer := t \<rparr> \<rparr>) sc)
        (fold (\<lambda>(k, v) t. Option.bind t (\<lambda>t1. map_option snd (tr_UpdateArgBytes k v t1))) (ss_trailer st) (Some (rq_trailer (ss_header st)))))"

definition continue_msgs :: "nat \<Rightarrow> serverConn \<Rightarrow> serve_event list" where
  "continue_msgs i sc = (if rb_needsContinue (sc_objs sc i) then [WantWrite i (Write100Continue i) None] else [])"

definition requestBody_Read :: "nat \<Rightarrow> nat \<Rightarrow> serverConn \<Rightarrow> (unit read_result \<times> serve_event list \<times> serverConn) option" where
  "requestBody_Read i n sc =
     (let msgs = continue_msgs i sc; sc1 = upd_obj i (rb_needsContinue_update (\<lambda>_. False)) sc; st = sc_objs sc1 i in
      case ss_body st of
        None \<Rightarrow> Some (ReadError IoEOF None, msgs, sc1)
      | Some p \<Rightarrow>
          if rb_sawEOF st then Some (ReadError IoEOF None, msgs, sc1)
          else
            let (r, p1) = pipe_Read n p;
                sc2 = upd_obj i (\<lambda>st. st\<lparr> ss_body := Some p1, rb_sawEOF := (case r of ReadError e _ \<Rightarrow> e = IoEOF | _ \<Rightarrow> False) \<rparr>) sc1
            in case r of
                 Wait \<Rightarrow> Some (Wait, msgs, sc1)
               | Data d \<Rightarrow> Some (r, msgs @ (if d \<noteq> [] then [BodyRead i (int (length d))] else []), sc2)
               | ReadError e fn \<Rightarrow> map_option (\<lambda>sc3. (r, msgs, sc3)) (if fn = None then Some sc2 else copyTrailer i sc2))"

definition requestBody_Close :: "nat \<Rightarrow> serverConn \<Rightarrow> serverConn" where
  "requestBody_Close i sc =
     (let st = sc_objs sc i in
      upd_obj i (\<lambda>st. st\<lparr> ss_body := (if rb_closed st then ss_body st else map_option (BreakWithError ErrClosedBody) (ss_body st)), rb_closed := True \<rparr>) sc)"

end
