(* ===== verification/Http2_Invariant.thy ===== *)
theory Http2_Invariant
  imports Http2_Server
begin

text \<open>
  Invariants of an HTTP/2 connection. \<open>sched_keeps\<close> states what a property must satisfy so that the writing side keeps it, for a given scheduling function (the
  one that returns at once, inside the scheduling loop, or \<open>scheduleFrameWrite\<close>); \<open>serve_keeps\<close> extends it to the reading side. They are interpreted for the
  bookkeeping of streams (\<open>conn_ok\<close>) and for the state of the writer between events (\<open>tidy\<close>).
\<close>

section \<open>Properties that the connection keeps\<close>

definition live :: "stream_state \<Rightarrow> bool" where
  "live st \<longleftrightarrow> st \<noteq> StateIdle \<and> st \<noteq> StateClosed"

text \<open>The requests that the server queues: a frame of a stream with an id up to \<open>m\<close>, or a control frame.\<close>

definition fits :: "nat \<Rightarrow> write_req \<Rightarrow> bool" where
  "fits m wr \<longleftrightarrow> wr_ok wr \<and> (case wr_stream wr of None \<Rightarrow> True | Some s \<Rightarrow> st_flow s = flow_addr (st_id s) \<and> st_id s \<le> m)"

lemma fits_window_req: "i \<le> m \<Longrightarrow> fits m (window_req i n)"
  by (simp add: fits_def window_req_def control_req_def stream_req_def wr_ok_def DataSize_def)

lemma fits_reset: "fits m (control_req (WriteStreamError i code))"
  by (simp add: fits_def control_req_def wr_ok_def DataSize_def)

locale sched_keeps =
  fixes m :: nat and I :: "serverConn \<Rightarrow> bool" and scheduleFW :: sched
  assumes frame: "I sc \<Longrightarrow> fits m wr \<Longrightarrow> writeFrame scheduleFW wr sc = Some sc1 \<Longrightarrow> I sc1"
    and going_away: "I sc \<Longrightarrow> goAway scheduleFW code sc = Some sc1 \<Longrightarrow> I sc1"
    and object: "I sc \<Longrightarrow> live (ss_state (f (sc_objs sc i))) = live (ss_state (sc_objs sc i)) \<Longrightarrow> I (upd_obj i f sc)"
    and flow: "I sc \<Longrightarrow> flow_add (inflow_addr i) n (sc_fs sc) = (True, fs) \<Longrightarrow> I (sc\<lparr> sc_fs := fs \<rparr>)"
    and forget: "I sc \<Longrightarrow> live (ss_state (sc_objs sc i)) \<Longrightarrow> I (forget_stream i dirty sc)"
    and drop_queue: "I sc \<Longrightarrow> I (sc\<lparr> sc_ws := CloseStream i (sc_ws sc) \<rparr>)"
begin

lemma reset: "I sc \<Longrightarrow> resetStream scheduleFW i code sc = Some sc1 \<Longrightarrow> I sc1"
  by (auto simp: resetStream_def split: bind_splits if_splits dest: frame [OF _ fits_reset] intro!: object)

lemma update32: "I sc \<Longrightarrow> i \<le> m \<Longrightarrow> sendWindowUpdate32 scheduleFW i n sc = Some sc1 \<Longrightarrow> I sc1"
  by (auto simp: sendWindowUpdate32_def split: bind_splits if_splits prod.splits bool.splits intro: frame flow fits_window_req)

lemma update: "I sc \<Longrightarrow> i \<le> m \<Longrightarrow> sendWindowUpdate scheduleFW i n sc = Some sc1 \<Longrightarrow> I sc1"
proof (induction "nat n" arbitrary: n sc rule: less_induct)
  case less
  show ?case
  proof (cases "n \<ge> maxUint31")
    case True
    then obtain sc2 where s: "sendWindowUpdate32 scheduleFW i maxUint31 sc = Some sc2" "sendWindowUpdate scheduleFW i (n - maxUint31) sc2 = Some sc1"
      using less.prems(3) by (subst (asm) sendWindowUpdate.simps) (auto split: bind_splits)
    have "nat (n - maxUint31) < nat n" using True by (simp add: maxUint31_def)
    then show ?thesis using less.hyps [OF _ _ less.prems(2) s(2)] update32 [OF less.prems(1,2) s(1)] by blast
  next
    case False
    then show ?thesis using less.prems by (subst (asm) sendWindowUpdate.simps) (auto intro: update32)
  qed
qed

lemma close: "I sc \<Longrightarrow> closeStream scheduleFW i err dirty sc = Some sc1 \<Longrightarrow> I sc1"
proof (erule closeStreamE)
  fix sc2 sc3
  let ?f = "forget_stream i dirty sc"
  assume "I sc" and l: "ss_state (sc_objs sc i) \<noteq> StateIdle" "ss_state (sc_objs sc i) \<noteq> StateClosed"
    and 2: "(if sc_streams ?f = [] \<and> sc_keepAlivesDisabled ?f then goAway scheduleFW ErrCodeNo ?f else Some ?f) = Some sc2"
    and 3: "ss_body (sc_objs sc2 i) = None \<and> sc3 = sc2 \<or>
     (\<exists>p sc4. ss_body (sc_objs sc2 i) = Some p \<and> sendWindowUpdate scheduleFW 0 (int (pipe_Len p)) sc2 = Some sc4 \<and>
        sc3 = upd_obj i (ss_body_update (map_option (CloseWithError err))) sc4)"
    and 1: "sc1 = (upd_obj i (ss_cw_update (\<lambda>_. True)) sc3)\<lparr> sc_ws := CloseStream i (sc_ws sc3) \<rparr>"
  have "I ?f" using \<open>I sc\<close> l forget by (simp add: live_def)
  then have "I sc2" using 2 by (auto split: if_splits intro: going_away)
  then have "I sc3" using 3 by (auto intro!: object dest: update)
  then have "I (upd_obj i (ss_cw_update (\<lambda>_. True)) sc3)" by (intro object) simp_all
  from drop_queue [OF this, of i] show "I sc1" by (simp add: 1)
qed

lemma written: "I sc \<Longrightarrow> frame_written scheduleFW wr f sc = Some sc1 \<Longrightarrow> I sc1"
proof -
  assume I: "I sc" and w: "frame_written scheduleFW wr f sc = Some sc1"
  have "I (upd_obj i (ss_state_update (\<lambda>_. StateHalfClosedLocal)) sc)" if "ss_state (sc_objs sc i) = StateOpen" for i
    using I that by (intro object) (simp_all add: live_def)
  then show "I sc1" using I w
    by (auto simp: frame_written_def split: if_splits option.splits stream_state.splits write_framer.splits intro: reset close)
qed

end

text \<open>A rule for the scheduling loop: \<open>I\<close> holds at every round, \<open>Q\<close> at the end.\<close>

lemma schedule_loop_rule:
  assumes "schedule_loop w sc = Some sc1" and "I sc"
    and goaway: "\<And>sc sc1. I sc \<Longrightarrow> \<not> sc_writingFrameAsync sc \<Longrightarrow> sc_needToSendGoAway sc \<Longrightarrow>
      startFrameWrite w (control_req (WriteGoAwayTo (sc_maxClientStreamID sc) (sc_goAwayCode sc))) (sc\<lparr> sc_needToSendGoAway := False \<rparr>) = Some sc1 \<Longrightarrow> I sc1"
    and ack: "\<And>sc sc1. I sc \<Longrightarrow> \<not> sc_writingFrameAsync sc \<Longrightarrow> sc_needToSendSettingsAck sc \<Longrightarrow>
      startFrameWrite w (control_req WriteAckSettings) (sc\<lparr> sc_needToSendSettingsAck := False \<rparr>) = Some sc1 \<Longrightarrow> I sc1"
    and pop: "\<And>sc wr sc1 sc2. I sc \<Longrightarrow> \<not> sc_writingFrameAsync sc \<Longrightarrow> next_frame w sc = Some (Some wr, sc1) \<Longrightarrow> startFrameWrite w wr sc1 = Some sc2 \<Longrightarrow> I sc2"
    and flush: "\<And>sc sc1 sc2. I sc \<Longrightarrow> \<not> sc_writingFrameAsync sc \<Longrightarrow> next_frame w sc = Some (None, sc1) \<Longrightarrow>
      startFrameWrite w (control_req FlushFrameWriter) sc1 = Some sc2 \<Longrightarrow> I (sc2\<lparr> sc_needsFrameFlush := False \<rparr>)"
    and async: "\<And>sc. I sc \<Longrightarrow> sc_writingFrameAsync sc \<Longrightarrow> Q sc"
    and idle: "\<And>sc sc1. I sc \<Longrightarrow> \<not> sc_writingFrameAsync sc \<Longrightarrow> \<not> sc_needToSendGoAway sc \<Longrightarrow> \<not> sc_needToSendSettingsAck sc \<Longrightarrow>
      next_frame w sc = Some (None, sc1) \<Longrightarrow> \<not> sc_needsFrameFlush sc1 \<Longrightarrow> Q sc1"
  shows "Q sc1"
proof -
  have "w' = w \<Longrightarrow> schedule_loop w' sc = Some sc1 \<Longrightarrow> I sc \<Longrightarrow> Q sc1" for w' sc sc1
  proof (induction w' sc arbitrary: sc1 rule: schedule_loop.induct)
    case (1 w' sc)
    note w = "1.prems"(1) and run = "1.prems"(2) [unfolded "1.prems"(1)] and I = "1.prems"(3)
    note step = schedule_loop.simps [of w sc]
    show ?case
    proof (cases "sc_writingFrameAsync sc")
      case True
      then show ?thesis using run async I by (simp add: step)
    next
      case wr: False
      show ?thesis
      proof (cases "sc_needToSendGoAway sc")
        case True
        then show ?thesis using run wr "1.IH"(1) w goaway [OF I wr] by (simp add: step split: option.splits)
      next
        case ga: False
        show ?thesis
        proof (cases "sc_needToSendSettingsAck sc")
          case True
          then show ?thesis using run wr ga "1.IH"(2) w ack [OF I wr] by (simp add: step split: option.splits)
        next
          case ack: False
          then obtain r sc2 where n: "next_frame w sc = Some (r, sc2)" using run wr ga by (auto simp: step split: option.splits)
          show ?thesis
          proof (cases r)
            case None
            then show ?thesis using run wr ga ack n "1.IH"(3) w flush [OF I wr] idle [OF I wr ga ack] by (simp add: step split: option.splits if_splits)
          next
            case (Some x)
            then show ?thesis using run wr ga ack n "1.IH"(4) w pop [OF I wr] by (simp add: step split: option.splits)
          qed
        qed
      qed
    qed
  qed
  then show ?thesis using assms(1,2) by blast
qed

section \<open>Properties of the books\<close>

definition book :: "serverConn \<Rightarrow> uint32 \<times> nat list \<times> nat \<times> uint32 \<times> nat list \<times> (nat \<Rightarrow> bool)" where
  "book sc = (sc_advMaxStreams sc, sc_streams sc, sc_maxClientStreamID sc, sc_curClientStreams sc, sc_handlers sc, \<lambda>i. live (ss_state (sc_objs sc i)))"

lemma book_upd_obj: "live (ss_state (f (sc_objs sc i))) = live (ss_state (sc_objs sc i)) \<Longrightarrow> book (upd_obj i f sc) = book sc"
  by (auto simp: book_def upd_obj_def fun_eq_iff)

lemma book_push_unless: "book (push_unless b wr sc) = book sc"
  by (simp add: book_def push_unless_def Let_def)

lemma book_queue_frame: "queue_frame wr sc = Some sc1 \<Longrightarrow> book sc1 = book sc"
  by (erule queue_frameE) (auto simp: book_push_unless book_upd_obj)

lemma book_fields [simp]: "book (sc\<lparr> sc_fs := fs \<rparr>) = book sc" "book (sc\<lparr> sc_ws := ws \<rparr>) = book sc" "book (sc\<lparr> sc_writingFrame := b \<rparr>) = book sc"
  "book (sc\<lparr> sc_writingFrameAsync := b \<rparr>) = book sc" "book (sc\<lparr> sc_needsFrameFlush := b \<rparr>) = book sc" "book (sc\<lparr> sc_sent := l \<rparr>) = book sc"
  "book (sc\<lparr> sc_clock := n \<rparr>) = book sc" "book (sc\<lparr> sc_inflight := r \<rparr>) = book sc" "book (sc\<lparr> sc_needToSendGoAway := b \<rparr>) = book sc"
  "book (sc\<lparr> sc_needToSendSettingsAck := b \<rparr>) = book sc" "book (sc\<lparr> sc_inFrameScheduleLoop := b \<rparr>) = book sc"
  "book (sc\<lparr> sc_queuedControlFrames := q \<rparr>) = book sc" "book (sc\<lparr> sc_inGoAway := b \<rparr>) = book sc" "book (sc\<lparr> sc_goAwayCode := code \<rparr>) = book sc"
  "book (sc\<lparr> sc_sawFirstSettings := b \<rparr>) = book sc" "book (sc\<lparr> sc_shutdownTimer := b \<rparr>) = book sc" "book (sc\<lparr> sc_unackedSettings := q \<rparr>) = book sc"
  "book (sc\<lparr> sc_headerTableSize := u \<rparr>) = book sc" "book (sc\<lparr> sc_pushEnabled := b \<rparr>) = book sc" "book (sc\<lparr> sc_clientMaxStreams := u \<rparr>) = book sc"
  "book (sc\<lparr> sc_initialStreamSendWindowSize := q \<rparr>) = book sc" "book (sc\<lparr> sc_maxFrameSize := q \<rparr>) = book sc" "book (sc\<lparr> sc_peerMaxHeaderListSize := u \<rparr>) = book sc"
  "book (sc\<lparr> sc_replies := ns \<rparr>) = book sc" "book (sc\<lparr> sc_keepAlivesDisabled := b \<rparr>) = book sc"
  by (simp_all add: book_def)

lemma book_replyToWriter [simp]: "book (replyToWriter wr sc) = book sc"
  by (simp add: replyToWriter_def split: option.split)

lemma book_next_frame: "next_frame w sc = Some (r, sc1) \<Longrightarrow> book sc1 = book sc"
  by (auto simp: next_frame_def Let_def split: if_splits option.splits)

lemma live_closed [simp]: "live StateClosed = False" "live StateIdle = False" "live StateOpen" "live StateHalfClosedLocal" "live StateHalfClosedRemote"
  by (simp_all add: live_def)

text \<open>
  A property of the books that forgetting a stream keeps is kept by everything the writing side does: the scheduling loop changes them only by closing streams.
\<close>

locale book_keeps =
  fixes I :: "serverConn \<Rightarrow> bool"
  assumes same_book: "I sc \<Longrightarrow> book sc1 = book sc \<Longrightarrow> I sc1"
    and forgets: "I sc \<Longrightarrow> live (ss_state (sc_objs sc i)) \<Longrightarrow> I (forget_stream i dirty sc)"
begin

lemma same_goAway: "goAway Some code sc = Some sc1 \<Longrightarrow> book sc1 = book sc"
  by (auto simp: goAway_def split: if_splits)

sublocale inner: sched_keeps m I Some for m
proof (unfold_locales, goal_cases)
  case (1 sc wr sc1)
  then show ?case by (auto simp: writeFrame_def split: bind_splits intro: same_book book_queue_frame)
next
  case (2 sc code sc1)
  then show ?case using same_book same_goAway by blast
next
  case (3 sc f i)
  then show ?case using same_book [OF _ book_upd_obj] by blast
next
  case (4 sc i n fs)
  then show ?case using same_book book_fields(1) by blast
next
  case (5 sc i dirty)
  then show ?case by (rule forgets)
next
  case (6 sc i)
  then show ?case using same_book book_fields(2) by blast
qed

lemma starts:
  assumes "I sc" and "startFrameWrite w wr sc = Some sc1"
  shows "I sc1"
proof -
  let ?sc = "sc\<lparr> sc_writingFrame := True, sc_needsFrameFlush := True, sc_sent := sc_sent sc @ [wr], sc_clock := Suc (sc_clock sc) \<rparr>"
  obtain f where f: "wr_write wr = Some f" using assms(2) by (auto simp: startFrameWrite_def split: option.splits)
  have "I (?sc\<lparr> sc_writingFrameAsync := False, sc_writingFrame := False, sc_writingFrameAsync := False \<rparr>)"
    using assms(1) by (rule same_book) simp
  then have "I sc1" if "wroteFrame Some wr (?sc\<lparr> sc_writingFrameAsync := False \<rparr>) = Some sc1"
    using that f by (auto simp: wroteFrame_def split: bind_splits intro: same_book [OF _ book_replyToWriter] dest: inner.written)
  moreover have "I (?sc\<lparr> sc_writingFrameAsync := True, sc_inflight := Some wr \<rparr>)"
    using assms(1) by (rule same_book) simp
  ultimately show ?thesis using assms(2) f by (auto simp: startFrameWrite_def Let_def split: if_splits option.splits)
qed

lemma loops:
  assumes "I sc" and "schedule_loop w sc = Some sc1"
  shows "I sc1"
proof (rule schedule_loop_rule [where I = I, OF assms(2,1)], goal_cases)
  case (1 sc sc1)
  have "I (sc\<lparr> sc_needToSendGoAway := False \<rparr>)" using 1(1) by (rule same_book) simp
  then show ?case using 1(4) by (rule starts)
next
  case (2 sc sc1)
  have "I (sc\<lparr> sc_needToSendSettingsAck := False \<rparr>)" using 2(1) by (rule same_book) simp
  then show ?case using 2(4) by (rule starts)
next
  case (3 sc wr sc1 sc2)
  show ?case using same_book [OF 3(1) book_next_frame [OF 3(3)]] 3(4) by (rule starts)
next
  case (4 sc sc1 sc2)
  have "I sc2" using same_book [OF 4(1) book_next_frame [OF 4(3)]] 4(4) by (rule starts)
  then show ?case by (rule same_book) simp
next
  case (6 sc sc1)
  show ?case by (rule same_book [OF 6(1) book_next_frame [OF 6(5)]])
qed

lemma schedules:
  assumes "I sc" and "scheduleFrameWrite w sc = Some sc1"
  shows "I sc1"
proof -
  have "I (sc\<lparr> sc_inFrameScheduleLoop := True \<rparr>)" using assms(1) by (rule same_book) simp
  moreover have "I (sc2\<lparr> sc_inFrameScheduleLoop := False \<rparr>)" if "I sc2" for sc2
    using that by (rule same_book) simp
  ultimately show ?thesis using assms loops by (auto simp: scheduleFrameWrite_def split: if_splits bind_splits)
qed

sublocale outer: sched_keeps m I "scheduleFrameWrite w" for m w
proof (unfold_locales, goal_cases)
  case (1 sc wr sc1)
  then show ?case
    by (auto simp: writeFrame_def split: bind_splits intro: schedules same_book book_queue_frame)
next
  case (2 sc code sc1)
  have "I (sc\<lparr> sc_goAwayCode := code \<rparr>)" "I (sc\<lparr> sc_inGoAway := True, sc_needToSendGoAway := True, sc_goAwayCode := code \<rparr>)"
    by (rule same_book [OF 2(1)]; simp)+
  then show ?case using 2 schedules by (auto simp: goAway_def split: if_splits)
qed (blast intro: inner.object inner.flow inner.forget inner.drop_queue)+

lemma wrote:
  assumes "I sc" and "wroteFrame (scheduleFrameWrite w) wr sc = Some sc1"
  shows "I sc1"
proof -
  let ?sc = "sc\<lparr> sc_writingFrame := False, sc_writingFrameAsync := False \<rparr>"
  obtain f sc2 where f: "frame_written (scheduleFrameWrite w) wr f ?sc = Some sc2" and s: "scheduleFrameWrite w (replyToWriter wr sc2) = Some sc1"
    using assms(2) by (auto simp: wroteFrame_def split: if_splits option.splits bind_splits)
  have "I ?sc" using assms(1) by (rule same_book) simp
  then have "I (replyToWriter wr sc2)" using outer.written [OF _ f] same_book [OF _ book_replyToWriter] by blast
  then show ?thesis using s by (rule schedules)
qed

end

section \<open>The bookkeeping of streams\<close>

definition conn_ok :: "uint32 \<Rightarrow> serverConn \<Rightarrow> bool" where
  "conn_ok a sc \<longleftrightarrow> sc_advMaxStreams sc = a \<and> distinct (sc_streams sc) \<and> (\<forall>i. i \<in> set (sc_streams sc) \<longleftrightarrow> live (ss_state (sc_objs sc i))) \<and>
     list_all (\<lambda>i. i mod 2 = 1 \<and> i \<le> sc_maxClientStreamID sc) (sc_streams sc) \<and> sc_maxClientStreamID sc < 2 ^ 32 \<and>
     unat (sc_curClientStreams sc) = length (sc_streams sc) \<and> sc_curClientStreams sc \<le> a \<and>
     list_all (\<lambda>i. 0 < i \<and> i \<le> sc_maxClientStreamID sc) (sc_handlers sc)"

lemma conn_ok_book: "conn_ok a sc \<Longrightarrow> book sc1 = book sc \<Longrightarrow> conn_ok a sc1"
  unfolding conn_ok_def by (auto simp: book_def dest: fun_cong)

lemma length_filter_neq: "distinct xs \<Longrightarrow> i \<in> set xs \<Longrightarrow> length (filter (\<lambda>j. j \<noteq> i) xs) = length xs - 1"
proof (induction xs)
  case (Cons x xs)
  show ?case
  proof (cases "x = i")
    case True
    then have "filter (\<lambda>j. j \<noteq> i) xs = xs" using Cons.prems by (auto simp: filter_id_conv)
    then show ?thesis using True by simp
  next
    case False
    then show ?thesis using Cons by (cases xs) auto
  qed
qed simp

lemma conn_ok_forget:
  assumes "conn_ok a sc" and "live (ss_state (sc_objs sc i))"
  shows "conn_ok a (forget_stream i dirty sc)"
proof -
  have i: "i \<in> set (sc_streams sc)" using assms by (simp add: conn_ok_def)
  then have "0 < unat (sc_curClientStreams sc)" using assms(1) by (auto simp: conn_ok_def)
  then have pos: "sc_curClientStreams sc \<noteq> 0" by (metis less_irrefl unat_0)
  then have minus: "unat (sc_curClientStreams sc - 1) = unat (sc_curClientStreams sc) - 1" "sc_curClientStreams sc - 1 \<le> sc_curClientStreams sc"
    by (simp_all add: unat_minus_one word_le_nat_alt)
  have len: "length (filter (\<lambda>j. j \<noteq> i) (sc_streams sc)) = length (sc_streams sc) - 1"
    using i assms(1) by (simp add: length_filter_neq conn_ok_def)
  show ?thesis using assms i minus len
    by (auto simp: conn_ok_def forget_stream_def Let_def isPushed_def upd_obj_def list_all_iff)
qed

interpretation ok: book_keeps "conn_ok a" for a
  by unfold_locales (blast intro: conn_ok_book conn_ok_forget)+

text \<open>Nothing but a HEADERS frame adds a stream.\<close>

interpretation within: book_keeps "\<lambda>sc. set (sc_streams sc) \<subseteq> S" for S
  by unfold_locales (auto simp: book_def forget_stream_def Let_def)

lemma closeStream_removes:
  assumes "closeStream (scheduleFrameWrite w) i err dirty sc = Some sc1"
  shows "set (sc_streams sc1) \<subseteq> set (sc_streams sc) - {i}"
  using assms
proof (rule closeStreamE)
  fix sc2 sc3
  let ?f = "forget_stream i dirty sc" and ?S = "set (sc_streams sc) - {i}"
  assume 2: "(if sc_streams ?f = [] \<and> sc_keepAlivesDisabled ?f then goAway (scheduleFrameWrite w) ErrCodeNo ?f else Some ?f) = Some sc2"
    and 3: "ss_body (sc_objs sc2 i) = None \<and> sc3 = sc2 \<or>
     (\<exists>p sc4. ss_body (sc_objs sc2 i) = Some p \<and> sendWindowUpdate (scheduleFrameWrite w) 0 (int (pipe_Len p)) sc2 = Some sc4 \<and>
        sc3 = upd_obj i (ss_body_update (map_option (CloseWithError err))) sc4)"
    and 1: "sc1 = (upd_obj i (ss_cw_update (\<lambda>_. True)) sc3)\<lparr> sc_ws := CloseStream i (sc_ws sc3) \<rparr>"
  have f: "set (sc_streams ?f) \<subseteq> ?S" by (auto simp: forget_stream_def Let_def)
  have "set (sc_streams sc2) \<subseteq> ?S" using 2 f within.outer.going_away [OF f] by (metis option.inject)
  then have "set (sc_streams sc3) \<subseteq> ?S" using 3 within.outer.update [of sc2 ?S 0 0] by (elim disjE exE conjE) simp_all
  then show ?thesis by (simp add: 1)
qed

section \<open>The writer between events\<close>

text \<open>A \<open>range\<close> over a Go map visits the keys of the map.\<close>

definition world_ok :: "world \<Rightarrow> bool" where
  "world_ok w \<longleftrightarrow> (\<forall>n ks. set (w_order w n ks) = set ks)"

definition links_ok :: "flows \<Rightarrow> bool" where
  "links_ok fs \<longleftrightarrow> (\<forall>i. fl_conn (fs (flow_addr i)) \<in> {None, Some (flow_addr 0)} \<and> fl_conn (fs (inflow_addr i)) \<in> {None, Some (inflow_addr 0)})"

definition writer_ok :: "nat \<Rightarrow> bool \<Rightarrow> serverConn \<Rightarrow> bool" where
  "writer_ok m b sc \<longleftrightarrow> sc_maxClientStreamID sc = m \<and> sc_inFrameScheduleLoop sc = b \<and> sc_writingFrame sc = sc_writingFrameAsync sc \<and>
     sched_ok (sc_ws sc) \<and> windows_ok (sc_fs sc) \<and> links_ok (sc_fs sc) \<and> (\<forall>i. \<forall>wr \<in> set (queue_of i (sc_ws sc)). fits m wr)"

definition queues_stuck :: "int \<Rightarrow> write_sched \<Rightarrow> flows \<Rightarrow> bool" where
  "queues_stuck k ws fs \<longleftrightarrow> (\<forall>i. queue_of i ws = [] \<or> i \<noteq> 0 \<and> blocked k fs (hd (queue_of i ws)))"

definition failing :: "serverConn \<Rightarrow> bool" where
  "failing sc \<longleftrightarrow> sc_inGoAway sc \<and> sc_goAwayCode sc \<noteq> ErrCodeNo"

definition quiet :: "serverConn \<Rightarrow> bool" where
  "quiet sc \<longleftrightarrow> \<not> sc_needToSendGoAway sc \<and> \<not> sc_needToSendSettingsAck sc \<and> \<not> sc_needsFrameFlush sc \<and>
     (failing sc \<or> queues_stuck (sc_maxFrameSize sc) (sc_ws sc) (sc_fs sc))"

definition tidy :: "nat \<Rightarrow> serverConn \<Rightarrow> bool" where
  "tidy m sc \<longleftrightarrow> writer_ok m False sc \<and> (\<not> sc_writingFrame sc \<longrightarrow> quiet sc)"

lemma writer_ok_same:
  "writer_ok m b sc \<Longrightarrow> sc_maxClientStreamID sc1 = sc_maxClientStreamID sc \<Longrightarrow> sc_inFrameScheduleLoop sc1 = sc_inFrameScheduleLoop sc \<Longrightarrow>
   sc_writingFrame sc1 = sc_writingFrame sc \<Longrightarrow> sc_writingFrameAsync sc1 = sc_writingFrameAsync sc \<Longrightarrow> sc_ws sc1 = sc_ws sc \<Longrightarrow> sc_fs sc1 = sc_fs sc \<Longrightarrow>
   writer_ok m b sc1"
  by (simp add: writer_ok_def)

lemma upd_obj_flags [simp]: "sc_inFrameScheduleLoop (upd_obj i f sc) = sc_inFrameScheduleLoop sc" "sc_needToSendGoAway (upd_obj i f sc) = sc_needToSendGoAway sc"
  "sc_needsFrameFlush (upd_obj i f sc) = sc_needsFrameFlush sc" "sc_goAwayCode (upd_obj i f sc) = sc_goAwayCode sc" "sc_maxFrameSize (upd_obj i f sc) = sc_maxFrameSize sc"
  "sc_advMaxStreams (upd_obj i f sc) = sc_advMaxStreams sc" "sc_inflight (upd_obj i f sc) = sc_inflight sc" "sc_handlers (upd_obj i f sc) = sc_handlers sc"
  by (simp_all add: upd_obj_def)

lemma forget_stream_flags [simp]: "sc_inFrameScheduleLoop (forget_stream i d sc) = sc_inFrameScheduleLoop sc" "sc_needToSendGoAway (forget_stream i d sc) = sc_needToSendGoAway sc"
  "sc_needToSendSettingsAck (forget_stream i d sc) = sc_needToSendSettingsAck sc" "sc_needsFrameFlush (forget_stream i d sc) = sc_needsFrameFlush sc"
  "sc_inGoAway (forget_stream i d sc) = sc_inGoAway sc" "sc_goAwayCode (forget_stream i d sc) = sc_goAwayCode sc" "sc_maxFrameSize (forget_stream i d sc) = sc_maxFrameSize sc"
  "sc_writingFrame (forget_stream i d sc) = sc_writingFrame sc" "sc_writingFrameAsync (forget_stream i d sc) = sc_writingFrameAsync sc" "sc_ws (forget_stream i d sc) = sc_ws sc"
  "sc_fs (forget_stream i d sc) = sc_fs sc" "sc_maxClientStreamID (forget_stream i d sc) = sc_maxClientStreamID sc" "sc_handlers (forget_stream i d sc) = sc_handlers sc"
  by (simp_all add: forget_stream_def Let_def)

lemma writer_push:
  assumes "writer_ok m b sc" and "fits m wr"
  shows "writer_ok m b (push_unless c wr sc)"
proof -
  have "writer_ok m b (sc\<lparr> sc_ws := ws_Push wr (sc_ws sc) \<rparr>)"
    using assms ws_Push_ok [of "sc_ws sc" wr] by (auto simp: writer_ok_def ws_Push_queue fits_def)
  then show ?thesis using assms(1) by (auto simp: push_unless_def Let_def intro: writer_ok_same)
qed

lemma writer_queue_frame: "writer_ok m b sc \<Longrightarrow> fits m wr \<Longrightarrow> queue_frame wr sc = Some sc1 \<Longrightarrow> writer_ok m b sc1"
  by (erule queue_frameE) (auto intro!: writer_push elim: writer_ok_same)

lemma flow_add_links: "flow_add f n fs = (ok, fs1) \<Longrightarrow> fl_conn (fs1 g) = fl_conn (fs g) \<and> (g \<noteq> f \<longrightarrow> fs1 g = fs g)"
  by (auto simp: flow_add_def Let_def split: if_splits)

lemma wrap32_int32: "int32 (wrap32 x)"
  using pos_mod_bound [of 4294967296 "x + 2147483648"] pos_mod_sign [of 4294967296 "x + 2147483648"] by (simp add: int32_def wrap_at_def)

lemma flow_add_windows: "windows_ok fs \<Longrightarrow> flow_add f n fs = (ok, fs1) \<Longrightarrow> windows_ok fs1"
  by (auto simp: flow_add_def windows_ok_def Let_def wrap32_int32 split: if_splits)

lemma flow_addrs [simp]: "flow_addr i = flow_addr j \<longleftrightarrow> i = j" "inflow_addr i = inflow_addr j \<longleftrightarrow> i = j" "flow_addr i \<noteq> inflow_addr j" "inflow_addr j \<noteq> flow_addr i"
  by (simp_all add: flow_addr_def inflow_addr_def) presburger+

text \<open>Windows of the receiving side do not matter for what may be sent.\<close>

lemma available_same:
  assumes "links_ok fs" "fs1 (flow_addr i) = fs (flow_addr i)" "fs1 (flow_addr 0) = fs (flow_addr 0)"
  shows "available (flow_addr i) fs1 = available (flow_addr i) fs"
proof -
  have "fl_conn (fs (flow_addr i)) = None \<or> fl_conn (fs (flow_addr i)) = Some (flow_addr 0)" using assms(1) by (simp add: links_ok_def)
  then show ?thesis using assms(2,3) by (auto simp: available_def Let_def)
qed

lemma queues_stuck_flows:
  assumes "writer_ok m b sc" and "\<And>i. i \<le> m \<Longrightarrow> fs1 (flow_addr i) = sc_fs sc (flow_addr i)"
  shows "queues_stuck k (sc_ws sc) fs1 = queues_stuck k (sc_ws sc) (sc_fs sc)"
proof -
  have "blocked k fs1 (hd (queue_of i (sc_ws sc))) = blocked k (sc_fs sc) (hd (queue_of i (sc_ws sc)))" if "queue_of i (sc_ws sc) \<noteq> []" for i
  proof -
    have "hd (queue_of i (sc_ws sc)) \<in> set (queue_of i (sc_ws sc))" using that by simp
    then have f: "fits m (hd (queue_of i (sc_ws sc)))" using assms(1) by (auto simp: writer_ok_def)
    show ?thesis
    proof (cases "wr_stream (hd (queue_of i (sc_ws sc)))")
      case None
      then show ?thesis using f by (auto simp: fits_def wr_ok_def blocked_def)
    next
      case (Some s)
      then have "st_flow s = flow_addr (st_id s)" "st_id s \<le> m" using f by (auto simp: fits_def)
      then have "available (st_flow s) fs1 = available (st_flow s) (sc_fs sc)"
        using available_same [of "sc_fs sc" fs1 "st_id s"] assms by (simp add: writer_ok_def)
      then show ?thesis using Some by (simp add: blocked_def flow_of_def)
    qed
  qed
  then show ?thesis unfolding queues_stuck_def by metis
qed

lemma writer_flows:
  assumes "writer_ok m b sc" and "windows_ok fs" and "\<And>g. fl_conn (fs g) = fl_conn (sc_fs sc g)"
  shows "writer_ok m b (sc\<lparr> sc_fs := fs \<rparr>)"
  using assms by (simp add: writer_ok_def links_ok_def)

lemma writer_inflow:
  assumes "writer_ok m b sc" and "flow_add (inflow_addr i) n (sc_fs sc) = (ok, fs)"
  shows "writer_ok m b (sc\<lparr> sc_fs := fs \<rparr>)" "queues_stuck k (sc_ws sc) fs = queues_stuck k (sc_ws sc) (sc_fs sc)"
proof -
  have "windows_ok (sc_fs sc)" using assms(1) by (simp add: writer_ok_def)
  from flow_add_windows [OF this assms(2)] show "writer_ok m b (sc\<lparr> sc_fs := fs \<rparr>)"
    using flow_add_links [OF assms(2)] by (intro writer_flows [OF assms(1)]) simp_all
  show "queues_stuck k (sc_ws sc) fs = queues_stuck k (sc_ws sc) (sc_fs sc)"
    using flow_add_links [OF assms(2)] by (intro queues_stuck_flows [OF assms(1)]) simp
qed

lemma CloseStream_queue: "sched_ok ws \<Longrightarrow> queue_of j (CloseStream i ws) = (if j = i \<and> i \<noteq> 0 then [] else queue_of j ws)"
  by (auto simp: CloseStream_def queue_of_def sched_ok_def split: option.splits)

lemma writer_CloseStream: "writer_ok m b sc \<Longrightarrow> writer_ok m b (sc\<lparr> sc_ws := CloseStream i (sc_ws sc) \<rparr>)"
  "sched_ok ws \<Longrightarrow> queues_stuck k ws fs \<Longrightarrow> queues_stuck k (CloseStream i ws) fs"
  using CloseStream_ok [of "sc_ws sc" i] by (auto simp: writer_ok_def CloseStream_queue queues_stuck_def)

interpretation inner_wr: sched_keeps m "writer_ok m b" Some for m b
proof (unfold_locales, goal_cases)
  case (1 sc wr sc1)
  then show ?case by (auto simp: writeFrame_def split: bind_splits intro: writer_queue_frame)
next
  case (2 sc code sc1)
  then show ?case by (auto simp: goAway_def split: if_splits elim: writer_ok_same)
next
  case (4 sc i n fs)
  then show ?case by (rule writer_inflow)
next
  case (6 sc i)
  then show ?case by (rule writer_CloseStream)
qed (auto elim!: writer_ok_same)

lemma writer_startFrameWrite:
  assumes "writer_ok m b sc" and "startFrameWrite w wr sc = Some sc1"
  shows "writer_ok m b sc1"
proof -
  let ?sc = "sc\<lparr> sc_writingFrame := True, sc_needsFrameFlush := True, sc_sent := sc_sent sc @ [wr], sc_clock := Suc (sc_clock sc) \<rparr>"
  obtain f where f: "wr_write wr = Some f" using assms(2) by (auto simp: startFrameWrite_def split: option.splits)
  have nw: "\<not> sc_writingFrame sc" using assms(2) f by (auto simp: startFrameWrite_def split: if_splits)
  have "writer_ok m b (?sc\<lparr> sc_writingFrameAsync := False, sc_writingFrame := False, sc_writingFrameAsync := False \<rparr>)"
    using assms(1) nw by (simp add: writer_ok_def)
  then have "writer_ok m b sc1" if "wroteFrame Some wr (?sc\<lparr> sc_writingFrameAsync := False \<rparr>) = Some sc1"
    using that f by (auto simp: wroteFrame_def replyToWriter_def split: bind_splits option.splits dest: inner_wr.written intro: writer_ok_same)
  moreover have "writer_ok m b (?sc\<lparr> sc_writingFrameAsync := True, sc_inflight := Some wr \<rparr>)"
    using assms(1) by (simp add: writer_ok_def)
  ultimately show ?thesis using assms(2) f by (auto simp: startFrameWrite_def Let_def split: if_splits option.splits)
qed

text \<open>Popping keeps what is known of the streams of queued frames.\<close>

lemma flow_take_links: "flow_take f n fs = Some fs1 \<Longrightarrow> fl_conn (fs1 g) = fl_conn (fs g)"
  by (auto simp: flow_take_def sub_window_def Let_def split: option.splits if_splits)

lemma Consume_streams:
  "Consume k wr n fs = Some (c, rest, num, fs1) \<Longrightarrow>
   (num = 0 \<or> wr_stream c = wr_stream wr) \<and> (num \<le> 1 \<or> wr_stream rest = wr_stream wr) \<and> (\<forall>g. fl_conn (fs1 g) = fl_conn (fs g))"
  by (auto simp: Consume_def Let_def flow_take_links split: option.splits write_framer.splits if_splits)

lemma wq_consume_streams:
  "wq_consume k n q fs = Some (r, q1, fs1) \<Longrightarrow> (\<forall>wr \<in> set q. P (wr_stream wr)) \<Longrightarrow>
   (\<forall>wr \<in> set q1. P (wr_stream wr)) \<and> (case r of None \<Rightarrow> True | Some c \<Rightarrow> P (wr_stream c)) \<and> (\<forall>g. fl_conn (fs1 g) = fl_conn (fs g))"
  by (auto simp: wq_consume_def wq_shift_def dest!: Consume_streams split: list.splits option.splits if_splits)

lemma pop_loop_streams:
  "pop_loop k order ws fs = Some (r, ws1, fs1) \<Longrightarrow> (\<forall>i q. gm_get (ws_sq ws) i = Some q \<longrightarrow> (\<forall>wr \<in> set q. P (wr_stream wr))) \<Longrightarrow>
   (\<forall>i q. gm_get (ws_sq ws1) i = Some q \<longrightarrow> (\<forall>wr \<in> set q. P (wr_stream wr))) \<and> ws_zero ws1 = ws_zero ws \<and> (\<forall>g. fl_conn (fs1 g) = fl_conn (fs g))"
proof (induction k order ws fs rule: pop_loop.induct)
  case (2 k i order ws fs)
  show ?case
  proof (cases "gm_get (ws_sq ws) i")
    case None
    then show ?thesis using 2 by simp
  next
    case (Some q)
    obtain c q1 fs2 where c: "wq_consume k 2147483647 q fs = Some (c, q1, fs2)" using "2.prems"(1) Some by (auto split: option.splits)
    have q: "\<forall>wr \<in> set q. P (wr_stream wr)" using "2.prems"(2) Some by blast
    note q1 = wq_consume_streams [OF c q]
    show ?thesis
    proof (cases c)
      case None
      have "pop_loop k order (ws\<lparr> ws_sq := gm_put i q1 (ws_sq ws) \<rparr>) fs2 = Some (r, ws1, fs1)" using "2.prems"(1) Some c None by simp
      moreover have "\<forall>j p. gm_get (ws_sq (ws\<lparr> ws_sq := gm_put i q1 (ws_sq ws) \<rparr>)) j = Some p \<longrightarrow> (\<forall>wr \<in> set p. P (wr_stream wr))"
        using "2.prems"(2) q1 by auto
      ultimately show ?thesis using "2.IH"(2) [OF Some c refl None refl] q1 by simp
    next
      case (Some d)
      then show ?thesis using "2.prems" \<open>gm_get (ws_sq ws) i = Some q\<close> c q1 by (auto split: if_splits)
    qed
  qed
qed simp

lemma queue_of_cases:
  "(\<forall>i. \<forall>wr \<in> set (queue_of i ws). Q wr) \<Longrightarrow> sched_ok ws \<Longrightarrow> gm_get (ws_sq ws) i = Some q \<Longrightarrow> wr \<in> set q \<Longrightarrow> Q wr"
  by (cases "i = 0") (auto simp: queue_of_def sched_ok_def split: if_splits option.splits dest!: spec [of _ i])

lemma writer_next_frame:
  assumes "writer_ok m b sc" and "next_frame w sc = Some (r, sc1)"
  shows "writer_ok m b sc1" "r = None \<Longrightarrow> world_ok w \<Longrightarrow> failing sc1 \<or> queues_stuck (sc_maxFrameSize sc1) (sc_ws sc1) (sc_fs sc1)"
proof -
  have ok: "sched_ok (sc_ws sc)" "windows_ok (sc_fs sc)" using assms(1) by (simp_all add: writer_ok_def)
  let ?order = "w_order w (sc_clock sc) (gm_keys (ws_sq (sc_ws sc)))"
  obtain r' ws fs where p: "ws_Pop (sc_maxFrameSize sc) ?order (sc_ws sc) (sc_fs sc) = Some (r', ws, fs)"
      "popped (sc_maxFrameSize sc) r' (sc_ws sc, sc_fs sc) (ws, fs)"
      "r' = None \<Longrightarrow> ws_zero (sc_ws sc) = [] \<and>
        (\<forall>i \<in> set ?order. queue_of i (sc_ws sc) = [] \<or> i = 0 \<or> blocked (sc_maxFrameSize sc) (sc_fs sc) (hd (queue_of i (sc_ws sc))))"
    using ws_Pop_popped [OF ok] by blast
  define P :: "stream_ref option \<Rightarrow> bool" where "P = (\<lambda>s. case s of None \<Rightarrow> True | Some s \<Rightarrow> st_flow s = flow_addr (st_id s) \<and> st_id s \<le> m)"
  have P: "fits m wr \<longleftrightarrow> wr_ok wr \<and> P (wr_stream wr)" for wr by (simp add: fits_def P_def)
  have sq: "\<forall>i q. gm_get (ws_sq (sc_ws sc)) i = Some q \<longrightarrow> (\<forall>wr \<in> set q. P (wr_stream wr))"
    using assms(1) queue_of_cases [of "sc_ws sc" "\<lambda>wr. P (wr_stream wr)"] by (auto simp: writer_ok_def P)
  have z: "\<forall>wr \<in> set (ws_zero (sc_ws sc)). P (wr_stream wr)"
    using assms(1) by (auto simp: writer_ok_def P queue_of_def dest!: spec [of _ 0])
  have keep: "(\<forall>i q. gm_get (ws_sq ws) i = Some q \<longrightarrow> (\<forall>wr \<in> set q. P (wr_stream wr))) \<and> (\<forall>wr \<in> set (ws_zero ws). P (wr_stream wr)) \<and>
      (\<forall>g. fl_conn (fs g) = fl_conn (sc_fs sc g))"
  proof (cases "ws_zero (sc_ws sc)")
    case Nil
    then show ?thesis using p(1) pop_loop_streams [OF _ sq] z by (fastforce simp: ws_Pop_def)
  next
    case (Cons wr q)
    then show ?thesis using p(1) sq z by (auto simp: ws_Pop_def wq_shift_def)
  qed
  have ok1: "sched_ok ws" "windows_ok fs" using p(2) by (simp_all add: popped_def)
  have "fits m wr" if "wr \<in> set (queue_of i ws)" for i wr
  proof -
    have "P (wr_stream wr)" using keep that by (cases "gm_get (ws_sq ws) i") (auto simp: queue_of_def split: if_splits)
    then show ?thesis using sched_okD [OF ok1(1) that] P by simp
  qed
  moreover have "links_ok fs" using assms(1) keep by (simp add: writer_ok_def links_ok_def)
  ultimately have "writer_ok m b (sc\<lparr> sc_ws := ws, sc_fs := fs \<rparr>)" using assms(1) ok1 by (simp add: writer_ok_def)
  then show "writer_ok m b sc1" using assms p(1)
    by (auto simp: next_frame_def Let_def split: if_splits option.splits elim!: writer_ok_same)
  assume r: "r = None" and w: "world_ok w"
  show "failing sc1 \<or> queues_stuck (sc_maxFrameSize sc1) (sc_ws sc1) (sc_fs sc1)"
  proof (cases "failing sc")
    case True
    then show ?thesis using assms(2) by (auto simp: next_frame_def failing_def)
  next
    case False
    then have r': "r' = None" and sc1: "sc1 = sc\<lparr> sc_ws := ws, sc_fs := fs \<rparr>"
      using assms(2) p(1) r by (auto simp: next_frame_def failing_def Let_def split: option.splits)
    have q: "queue_of j ws = queue_of j (sc_ws sc)" "fs = sc_fs sc" for j using p(2) r' by (simp_all add: popped_def)
    have "queue_of i (sc_ws sc) = [] \<or> i \<noteq> 0 \<and> blocked (sc_maxFrameSize sc) (sc_fs sc) (hd (queue_of i (sc_ws sc)))" for i
    proof (cases "i = 0 \<or> gm_get (ws_sq (sc_ws sc)) i = None")
      case True
      then show ?thesis using p(3) [OF r'] by (auto simp: queue_of_def)
    next
      case False
      then have "i \<in> set ?order" using w by (auto simp: world_ok_def gm_keys_iff)
      then show ?thesis using p(3) [OF r'] False by auto
    qed
    then show ?thesis by (simp add: sc1 queues_stuck_def q)
  qed
qed

end
