(* ===== verification/Http2_Quiet.thy ===== *)
theory Http2_Quiet
  imports Http2_Invariant
begin

text \<open>
  The writer of an HTTP/2 connection between events: when no frame is being written, nothing that could be sent is left in the queues (\<open>tidy\<close>). It follows that a window update that is
  written in the middle of an event closes no stream.
\<close>

section \<open>Scheduling leaves nothing behind\<close>

lemma writer_flag:
  "writer_ok m b sc \<Longrightarrow> writer_ok m b (sc\<lparr> sc_needToSendGoAway := c \<rparr>)" "writer_ok m b sc \<Longrightarrow> writer_ok m b (sc\<lparr> sc_needToSendSettingsAck := c \<rparr>)"
  "writer_ok m b sc \<Longrightarrow> writer_ok m b (sc\<lparr> sc_needsFrameFlush := c \<rparr>)"
  by (simp_all add: writer_ok_def)

lemma schedule_loop_tidy:
  assumes "schedule_loop w sc = Some sc1" and "writer_ok m b sc" and w: "world_ok w"
  shows "writer_ok m b sc1 \<and> (\<not> sc_writingFrame sc1 \<longrightarrow> quiet sc1)"
proof (rule schedule_loop_rule [where I = "writer_ok m b", OF assms(1,2)], goal_cases)
  case (1 sc sc1)
  then show ?case using writer_startFrameWrite writer_flag by blast
next
  case (2 sc sc1)
  then show ?case using writer_startFrameWrite writer_flag by blast
next
  case (3 sc wr sc1 sc2)
  then show ?case using writer_startFrameWrite writer_next_frame(1) by blast
next
  case (4 sc sc1 sc2)
  show ?case by (rule writer_flag(3) [OF writer_startFrameWrite [OF writer_next_frame(1) [OF 4(1,3)] 4(4)]])
next
  case (5 sc)
  then show ?case by (simp add: writer_ok_def)
next
  case (6 sc sc1)
  have "sc_needToSendGoAway sc1 = sc_needToSendGoAway sc" "sc_needToSendSettingsAck sc1 = sc_needToSendSettingsAck sc"
    using 6(5) by (auto simp: next_frame_def Let_def split: if_splits option.splits)
  then show ?case using 6 writer_next_frame [OF 6(1,5)] w by (simp add: quiet_def)
qed

lemma schedule_tidy:
  assumes "writer_ok m False sc" and "scheduleFrameWrite w sc = Some sc1" and "world_ok w"
  shows "tidy m sc1"
proof (cases "sc_writingFrame sc")
  case True
  then show ?thesis using assms by (simp add: scheduleFrameWrite_def tidy_def)
next
  case False
  then obtain sc2 where l: "schedule_loop w (sc\<lparr> sc_inFrameScheduleLoop := True \<rparr>) = Some sc2" and sc1: "sc1 = sc2\<lparr> sc_inFrameScheduleLoop := False \<rparr>"
    using assms(1,2) by (auto simp: scheduleFrameWrite_def writer_ok_def split: bind_splits)
  have "writer_ok m True (sc\<lparr> sc_inFrameScheduleLoop := True \<rparr>)" using assms(1) by (simp add: writer_ok_def)
  from schedule_loop_tidy [OF l this assms(3)] show ?thesis
    by (simp add: sc1 tidy_def writer_ok_def quiet_def failing_def)
qed

lemma tidy_writer: "tidy m sc \<Longrightarrow> writer_ok m False sc"
  by (simp add: tidy_def)

lemma outer_wr_keeps:
  assumes w: "world_ok w"
  shows "sched_keeps m (writer_ok m False) (scheduleFrameWrite w)"
proof (unfold_locales, goal_cases)
  case (1 sc wr sc1)
  then show ?case using w by (auto simp: writeFrame_def split: bind_splits intro: tidy_writer schedule_tidy writer_queue_frame)
next
  case (2 sc code sc1)
  have "writer_ok m False (sc\<lparr> sc_goAwayCode := code \<rparr>)" "writer_ok m False (sc\<lparr> sc_inGoAway := True, sc_needToSendGoAway := True, sc_goAwayCode := code \<rparr>)"
    using 2(1) by (simp_all add: writer_ok_def)
  then show ?case using 2 w by (auto simp: goAway_def split: if_splits intro: tidy_writer schedule_tidy)
qed (fact inner_wr.object inner_wr.flow inner_wr.forget inner_wr.drop_queue)+

lemma outer_tidy_keeps:
  assumes w: "world_ok w"
  shows "sched_keeps m (tidy m) (scheduleFrameWrite w)"
proof (unfold_locales, goal_cases)
  case (1 sc wr sc1)
  then show ?case using w by (auto simp: writeFrame_def split: bind_splits intro: schedule_tidy writer_queue_frame tidy_writer)
next
  case (2 sc code sc1)
  have "writer_ok m False (sc\<lparr> sc_inGoAway := True, sc_needToSendGoAway := True, sc_goAwayCode := code \<rparr>)"
    using 2(1) by (simp add: tidy_def writer_ok_def)
  moreover have "tidy m (sc\<lparr> sc_goAwayCode := code \<rparr>)" if "sc_inGoAway sc" "sc_goAwayCode sc = ErrCodeNo"
    using 2(1) that by (auto simp: tidy_def writer_ok_def quiet_def failing_def)
  ultimately show ?case using 2 w by (auto simp: goAway_def split: if_splits intro: schedule_tidy)
next
  case (3 sc f i)
  then show ?case using inner_wr.object by (auto simp: tidy_def quiet_def failing_def)
next
  case (4 sc i n fs)
  then show ?case using writer_inflow [OF tidy_writer [OF 4(1)] 4(2)] by (simp add: tidy_def quiet_def failing_def)
next
  case (5 sc i d)
  then show ?case using inner_wr.forget by (simp add: tidy_def quiet_def failing_def)
next
  case (6 sc i)
  then show ?case using writer_CloseStream by (auto simp: tidy_def quiet_def failing_def writer_ok_def)
qed

lemmas tidy_frame = sched_keeps.frame [OF outer_tidy_keeps] and tidy_going_away = sched_keeps.going_away [OF outer_tidy_keeps]
  and tidy_object = sched_keeps.object [OF outer_tidy_keeps] and tidy_reset = sched_keeps.reset [OF outer_tidy_keeps]
  and tidy_update = sched_keeps.update [OF outer_tidy_keeps] and tidy_update32 = sched_keeps.update32 [OF outer_tidy_keeps]
  and tidy_close = sched_keeps.close [OF outer_tidy_keeps] and writer_written = sched_keeps.written [OF outer_wr_keeps]

lemma wroteFrame_tidy:
  assumes "wroteFrame (scheduleFrameWrite w) wr sc = Some sc1" and "tidy m sc" and "world_ok w"
  shows "tidy m sc1"
proof -
  let ?sc = "sc\<lparr> sc_writingFrame := False, sc_writingFrameAsync := False \<rparr>"
  obtain f sc2 where f: "frame_written (scheduleFrameWrite w) wr f ?sc = Some sc2" and s: "scheduleFrameWrite w (replyToWriter wr sc2) = Some sc1"
    using assms(1) by (auto simp: wroteFrame_def split: if_splits option.splits bind_splits)
  have "writer_ok m False ?sc" using assms(2) by (simp add: tidy_def writer_ok_def)
  then have "writer_ok m False sc2" using writer_written [OF assms(3)] f by blast
  then have "writer_ok m False (replyToWriter wr sc2)" by (simp add: replyToWriter_def writer_ok_def split: option.split)
  then show ?thesis using s assms(3) schedule_tidy by blast
qed

section \<open>A window update closes no stream\<close>

text \<open>
  \<open>processData\<close> returns the padding of a frame before it looks at the end-of-stream flag, and returning it runs the scheduler. Between events only frames that cannot be
  sent are queued, so that run writes nothing but window updates, and the stream is still there.
\<close>

definition is_update :: "write_req \<Rightarrow> bool" where
  "is_update wr = (case wr_write wr of Some (WriteWindowUpd _ _) \<Rightarrow> True | _ \<Rightarrow> False)"

definition only_updates :: "int \<Rightarrow> write_sched \<Rightarrow> flows \<Rightarrow> bool" where
  "only_updates k ws fs \<longleftrightarrow> list_all is_update (ws_zero ws) \<and>
     (\<forall>i q. gm_get (ws_sq ws) i = Some q \<longrightarrow> wq_consume k 2147483647 q fs = Some (None, q, fs) \<or> list_all is_update q)"

lemma consume_update:
  "list_all is_update q \<Longrightarrow> wq_consume k n q fs = (case q of [] \<Rightarrow> Some (None, [], fs) | wr # q1 \<Rightarrow> Some (Some wr, q1, fs))"
  by (cases q) (auto simp: wq_consume_def Consume_def wq_shift_def is_update_def split: option.splits write_framer.splits)

lemma pop_loop_updates:
  "pop_loop k order ws fs = Some (r, ws1, fs1) \<Longrightarrow> only_updates k ws fs \<Longrightarrow> only_updates k ws1 fs1 \<and> fs1 = fs \<and> (\<forall>wr. r = Some wr \<longrightarrow> is_update wr)"
proof (induction k order ws fs rule: pop_loop.induct)
  case (2 k i order ws fs)
  show ?case
  proof (cases "gm_get (ws_sq ws) i")
    case None
    then show ?thesis using 2 by auto
  next
    case (Some q)
    then have "wq_consume k 2147483647 q fs = Some (None, q, fs) \<or> list_all is_update q" using "2.prems"(2) by (simp add: only_updates_def)
    then consider "wq_consume k 2147483647 q fs = Some (None, q, fs)" | wr q1 where "q = wr # q1" "list_all is_update q"
      by (cases q) (auto simp: consume_update)
    then show ?thesis
    proof cases
      case 1
      have "only_updates k (ws\<lparr> ws_sq := gm_put i q (ws_sq ws) \<rparr>) fs" using "2.prems"(2) Some by (simp add: only_updates_def)
      then show ?thesis using "2.IH"(2) [OF Some 1 refl refl refl] "2.prems"(1) Some 1 by auto
    next
      case 2
      then have "wq_consume k 2147483647 q fs = Some (Some wr, q1, fs)" by (simp add: consume_update)
      then have "r = Some wr" "fs1 = fs" "ws1 = (if q1 = [] then ws\<lparr> ws_sq := gm_del i (ws_sq ws), ws_pool := pool_put q1 (ws_pool ws) \<rparr>
                 else ws\<lparr> ws_sq := gm_put i q1 (ws_sq ws) \<rparr>)"
        using "2.prems"(1) Some by auto
      then show ?thesis using "2.prems"(2) 2 by (auto simp: only_updates_def split: if_splits)
    qed
  qed
qed simp

lemma stuck_only_updates:
  assumes "queues_stuck k ws fs" and "sched_ok ws" and "windows_ok fs"
  shows "only_updates k ws fs"
proof -
  have "ws_zero ws = []" using assms(1) by (auto simp: queues_stuck_def queue_of_def dest!: spec [of _ 0])
  moreover have "wq_consume k 2147483647 q fs = Some (None, q, fs)" if g: "gm_get (ws_sq ws) i = Some q" for i q
  proof (cases q)
    case (Cons wr q1)
    have i: "i \<noteq> 0" using g assms(2) by (metis option.distinct(1) sched_ok_def)
    then have q: "queue_of i ws = q" using g by (simp add: queue_of_def)
    have "wr_ok wr" using sched_okD [OF assms(2), of wr i] q Cons by simp
    moreover have "blocked k fs wr" using assms(1) q Cons by (auto simp: queues_stuck_def dest!: spec [of _ i])
    ultimately show ?thesis using wq_consume_nonempty [OF _ assms(3), of wr k q1] Cons by blast
  qed (simp add: wq_consume_def)
  ultimately show ?thesis by (auto simp: only_updates_def)
qed

lemma push_only_updates:
  assumes "only_updates k ws fs" and "is_update wr" and "sched_ok ws"
  shows "only_updates k (ws_Push wr ws) fs"
proof -
  have "pool_get (ws_pool ws) = (q, p) \<Longrightarrow> q = []" for q p using assms(3) by (auto simp: pool_get_def sched_ok_def split: if_splits)
  moreover have "wq_consume k 2147483647 (q @ [wr]) fs = Some (None, q @ [wr], fs)" if "wq_consume k 2147483647 q fs = Some (None, q, fs)" "q \<noteq> []" for q
    using that by (cases q) (auto simp: wq_consume_def wq_shift_def split: option.splits if_splits)
  ultimately show ?thesis using assms(1,2)
    by (fastforce simp: only_updates_def ws_Push_def Let_def wq_push_def split: option.splits prod.splits)
qed

definition calm :: "serverConn \<Rightarrow> bool" where
  "calm sc \<longleftrightarrow> \<not> sc_needToSendGoAway sc \<and> \<not> sc_needToSendSettingsAck sc \<and> (failing sc \<or> only_updates (sc_maxFrameSize sc) (sc_ws sc) (sc_fs sc))"

lemma calm_start:
  assumes "calm sc" and "is_update wr \<or> wr_write wr = Some FlushFrameWriter" and "startFrameWrite w wr sc = Some sc1"
  shows "calm sc1 \<and> sc_objs sc1 = sc_objs sc \<and> sc_streams sc1 = sc_streams sc"
proof -
  obtain f where f: "wr_write wr = Some f" "\<not> writeEndsStream f" "\<And>sch sc. frame_written sch wr f sc = Some sc"
    using assms(2) by (auto simp: is_update_def frame_written_def split: option.splits write_framer.splits)
  then show ?thesis using assms(1,3)
    by (auto simp: startFrameWrite_def wroteFrame_def replyToWriter_def calm_def failing_def Let_def split: if_splits option.splits)
qed

lemma calm_next:
  assumes "calm sc" and "next_frame w sc = Some (r, sc1)"
  shows "calm sc1 \<and> sc_objs sc1 = sc_objs sc \<and> sc_streams sc1 = sc_streams sc \<and> (\<forall>wr. r = Some wr \<longrightarrow> is_update wr)"
proof (cases "failing sc")
  case True
  then show ?thesis using assms by (auto simp: next_frame_def failing_def)
next
  case False
  then have o: "only_updates (sc_maxFrameSize sc) (sc_ws sc) (sc_fs sc)" using assms(1) by (simp add: calm_def)
  have "only_updates (sc_maxFrameSize sc) ws fs \<and> (\<forall>wr. r = Some wr \<longrightarrow> is_update wr)"
    if "ws_Pop (sc_maxFrameSize sc) order (sc_ws sc) (sc_fs sc) = Some (r, ws, fs)" for order r ws fs
    using that o pop_loop_updates [OF _ o] by (cases "ws_zero (sc_ws sc)") (fastforce simp: ws_Pop_def wq_shift_def only_updates_def)+
  then show ?thesis using assms False
    by (auto simp: next_frame_def Let_def calm_def failing_def split: option.splits if_splits)
qed

lemma schedule_calm:
  assumes "scheduleFrameWrite w sc = Some sc1" and "calm sc"
  shows "sc_objs sc1 = sc_objs sc \<and> sc_streams sc1 = sc_streams sc"
proof (cases "sc_writingFrame sc \<or> sc_inFrameScheduleLoop sc")
  case True
  then show ?thesis using assms(1) by (auto simp: scheduleFrameWrite_def)
next
  case False
  let ?I = "\<lambda>sc2. calm sc2 \<and> sc_objs sc2 = sc_objs sc \<and> sc_streams sc2 = sc_streams sc"
  obtain sc2 where l: "schedule_loop w (sc\<lparr> sc_inFrameScheduleLoop := True \<rparr>) = Some sc2" and sc1: "sc1 = sc2\<lparr> sc_inFrameScheduleLoop := False \<rparr>"
    using assms(1) False by (auto simp: scheduleFrameWrite_def split: bind_splits)
  have "?I (sc\<lparr> sc_inFrameScheduleLoop := True \<rparr>)" using assms(2) by (simp add: calm_def failing_def)
  from l this have "?I sc2"
  proof (rule schedule_loop_rule, goal_cases)
    case (3 sc2 wr sc3 sc4)
    then show ?case using calm_next [of sc2 w "Some wr" sc3] calm_start [of sc3 wr w sc4] by auto
  next
    case (4 sc2 sc3 sc4)
    then have "?I sc3" using calm_next [of sc2 w None sc3] by auto
    then have "?I sc4" using calm_start [of sc3 "control_req FlushFrameWriter" w sc4] 4(4) by (simp add: control_req_def)
    then show ?case by (simp add: calm_def failing_def)
  next
    case (6 sc2 sc3)
    then show ?case using calm_next [of sc2 w None sc3] by auto
  qed (auto simp: calm_def)
  then show ?thesis by (simp add: sc1)
qed

lemma update_closes_nothing:
  assumes "tidy m sc" and "sendWindowUpdate32 (scheduleFrameWrite w) i n sc = Some sc1"
  shows "sc_objs sc1 = sc_objs sc \<and> sc_streams sc1 = sc_streams sc"
proof (cases "n = 0")
  case True
  then show ?thesis using assms(2) by (simp add: sendWindowUpdate32_def)
next
  case False
  define wr where "wr = window_req i n"
  have wr: "is_update wr" "wr_write wr = Some (WriteWindowUpd i n)" by (auto simp: wr_def window_req_def is_update_def control_req_def stream_req_def)
  obtain sc2 sc3 where q: "queue_frame wr sc = Some sc2" and s: "scheduleFrameWrite w sc2 = Some sc3" and
    sc1: "sc_objs sc1 = sc_objs sc3" "sc_streams sc1 = sc_streams sc3"
    using assms(2) False by (auto simp: sendWindowUpdate32_def writeFrame_def wr_def split: bind_splits if_splits prod.splits bool.splits)
  obtain b where sc2: "sc2 = push_unless b wr sc" using q wr(2) by (auto simp: queue_frame_def)
  then have same: "sc_objs sc2 = sc_objs sc" "sc_streams sc2 = sc_streams sc" "sc_writingFrame sc2 = sc_writingFrame sc"
    by (simp_all add: push_unless_def Let_def)
  show ?thesis
  proof (cases "sc_writingFrame sc")
    case True
    then show ?thesis using s sc1 same by (simp add: scheduleFrameWrite_def)
  next
    case False
    then have "quiet sc" "writer_ok m False sc" using assms(1) by (simp_all add: tidy_def)
    then have "calm sc" "sched_ok (sc_ws sc)" using stuck_only_updates by (auto simp: calm_def quiet_def writer_ok_def)
    then have "calm sc2" using wr(1) push_only_updates [of _ "sc_ws sc" _ wr]
      by (auto simp: sc2 push_unless_def Let_def calm_def failing_def)
    then show ?thesis using schedule_calm [OF s] sc1 same by simp
  qed
qed

end
