(* ===== verification/Http2_Safety.thy ===== *)
theory Http2_Safety
  imports Http2_Quiet
begin

text \<open>
  The serve loop keeps its books: after any sequence of events the streams of the connection are exactly those whose objects are open, their number is the counter and stays within the
  advertised limit, and when no frame is being written nothing that could be sent is left in the queues.
\<close>

section \<open>The invariant of the serve loop\<close>

definition serve_ok :: "uint32 \<Rightarrow> nat \<Rightarrow> serverConn \<Rightarrow> bool" where
  "serve_ok a m sc \<longleftrightarrow> conn_ok a sc \<and> tidy m sc"

lemma serve_keeps: "world_ok w \<Longrightarrow> sched_keeps m (serve_ok a m) (scheduleFrameWrite w)"
  unfolding serve_ok_def
  by unfold_locales (auto intro: ok.outer.frame ok.outer.going_away ok.outer.object ok.outer.flow ok.outer.forget ok.outer.drop_queue
      sched_keeps.frame [OF outer_tidy_keeps] sched_keeps.going_away [OF outer_tidy_keeps] sched_keeps.object [OF outer_tidy_keeps]
      sched_keeps.flow [OF outer_tidy_keeps] sched_keeps.forget [OF outer_tidy_keeps] sched_keeps.drop_queue [OF outer_tidy_keeps])

lemmas serve_frame = sched_keeps.frame [OF serve_keeps] and serve_going_away = sched_keeps.going_away [OF serve_keeps]
  and serve_object = sched_keeps.object [OF serve_keeps] and serve_reset = sched_keeps.reset [OF serve_keeps]
  and serve_update = sched_keeps.update [OF serve_keeps] and serve_update32 = sched_keeps.update32 [OF serve_keeps]
  and serve_close = sched_keeps.close [OF serve_keeps]

lemma serve_max: "serve_ok a m sc \<Longrightarrow> sc_maxClientStreamID sc = m"
  by (simp add: serve_ok_def tidy_def writer_ok_def)

lemma serve_live: "serve_ok a m sc \<Longrightarrow> i \<in> set (sc_streams sc) \<longleftrightarrow> live (ss_state (sc_objs sc i))"
  by (simp add: serve_ok_def conn_ok_def)

lemma serve_known: "serve_ok a m sc \<Longrightarrow> i \<in> set (sc_streams sc) \<Longrightarrow> 0 < i \<and> i \<le> m"
proof -
  assume ok: "serve_ok a m sc" and "i \<in> set (sc_streams sc)"
  then have "i mod 2 = 1 \<and> i \<le> sc_maxClientStreamID sc" by (simp add: serve_ok_def conn_ok_def list_all_iff)
  then have "i mod 2 = 1 \<and> i \<le> m" using serve_max [OF ok] by simp
  then show ?thesis by (cases i) simp_all
qed

lemma serve_handler: "serve_ok a m sc \<Longrightarrow> i \<in> set (sc_handlers sc) \<Longrightarrow> 0 < i \<and> i \<le> m"
proof -
  assume ok: "serve_ok a m sc" and "i \<in> set (sc_handlers sc)"
  then have "0 < i \<and> i \<le> sc_maxClientStreamID sc" by (simp add: serve_ok_def conn_ok_def list_all_iff)
  then show ?thesis using serve_max [OF ok] by simp
qed

text \<open>An update of the windows of the sending side, or of a setting: the queues may have something to send.\<close>

definition loose :: "uint32 \<Rightarrow> nat \<Rightarrow> serverConn \<Rightarrow> bool" where
  "loose a m sc \<longleftrightarrow> conn_ok a sc \<and> writer_ok m False sc \<and>
     (\<not> sc_writingFrame sc \<longrightarrow> \<not> sc_needToSendGoAway sc \<and> \<not> sc_needToSendSettingsAck sc \<and> \<not> sc_needsFrameFlush sc)"

lemma serve_loose: "serve_ok a m sc \<Longrightarrow> loose a m sc"
  by (simp add: serve_ok_def loose_def tidy_def quiet_def)

lemma loose_schedule:
  assumes "loose a m sc" and "scheduleFrameWrite w sc = Some sc1" and "world_ok w"
  shows "serve_ok a m sc1"
  using assms schedule_tidy ok.schedules by (auto simp: loose_def serve_ok_def)

lemma loose_goAway:
  assumes "loose a m sc" and "goAway (scheduleFrameWrite w) code sc = Some sc1" and "world_ok w" and "code \<noteq> ErrCodeNo"
  shows "serve_ok a m sc1"
proof (cases "sc_inGoAway sc")
  case False
  let ?sc = "sc\<lparr> sc_inGoAway := True, sc_needToSendGoAway := True, sc_goAwayCode := code \<rparr>"
  have "conn_ok a ?sc" using assms(1) by (auto simp: loose_def intro: conn_ok_book)
  moreover have "writer_ok m False ?sc" using assms(1) by (simp add: loose_def writer_ok_def)
  ultimately show ?thesis using False assms schedule_tidy ok.schedules by (auto simp: goAway_def serve_ok_def)
next
  case True
  have "conn_ok a (sc\<lparr> sc_goAwayCode := code \<rparr>)" using assms(1) by (auto simp: loose_def intro: conn_ok_book)
  then show ?thesis using True assms by (auto simp: goAway_def serve_ok_def loose_def tidy_def writer_ok_def quiet_def failing_def split: if_splits)
qed

definition outcome :: "uint32 \<Rightarrow> nat \<Rightarrow> h2_error option \<Rightarrow> serverConn \<Rightarrow> bool" where
  "outcome a m e sc \<longleftrightarrow> serve_ok a m sc \<or> (\<exists>c. e = Some (ConnectionError c) \<and> c \<noteq> ErrCodeNo \<and> loose a m sc)"

lemma process_error_ok:
  assumes "outcome a m (Some e) sc" and "process_error w e sc = Some (k, sc1)" and "world_ok w"
  shows "serve_ok a m sc1"
proof (cases "serve_ok a m sc")
  case True
  then show ?thesis using assms(2,3) by (auto simp: process_error_def split: h2_error.splits intro: serve_reset serve_going_away)
next
  case False
  then show ?thesis using assms by (auto simp: outcome_def process_error_def intro: loose_goAway)
qed

section \<open>Frames\<close>

lemma serve_book:
  assumes "serve_ok a m sc" and "book sc1 = book sc" and "sc_ws sc1 = sc_ws sc" and "sc_fs sc1 = sc_fs sc" and "sc_writingFrame sc1 = sc_writingFrame sc"
    and "sc_writingFrameAsync sc1 = sc_writingFrameAsync sc" and "sc_inFrameScheduleLoop sc1 = sc_inFrameScheduleLoop sc"
    and "sc_needToSendGoAway sc1 = sc_needToSendGoAway sc" and "sc_needToSendSettingsAck sc1 = sc_needToSendSettingsAck sc"
    and "sc_needsFrameFlush sc1 = sc_needsFrameFlush sc" and "sc_inGoAway sc1 = sc_inGoAway sc" and "sc_goAwayCode sc1 = sc_goAwayCode sc"
    and "sc_maxFrameSize sc1 = sc_maxFrameSize sc"
  shows "serve_ok a m sc1"
proof -
  have "conn_ok a sc1" using assms(1,2) by (auto simp: serve_ok_def intro: conn_ok_book)
  moreover have "sc_maxClientStreamID sc1 = sc_maxClientStreamID sc" using assms(2) by (simp add: book_def)
  ultimately show ?thesis using assms by (simp add: serve_ok_def tidy_def writer_ok_def quiet_def failing_def)
qed

lemma outcomeI: "serve_ok a m sc \<Longrightarrow> outcome a m e sc"
  by (simp add: outcome_def)

lemma processPing_ok:
  assumes "serve_ok a m sc" and "processPing w hdr d sc = Some (e, sc1)" and "world_ok w"
  shows "serve_ok a m sc1"
proof -
  have "fits m (control_req (WritePingAckFrame d))" by (simp add: fits_def control_req_def wr_ok_def DataSize_def)
  then show ?thesis using assms by (auto simp: processPing_def split: if_splits intro: serve_frame)
qed

lemma loose_flow:
  assumes "loose a m sc" and "flow_add (flow_addr i) n (sc_fs sc) = (ok, fs)"
  shows "loose a m (sc\<lparr> sc_fs := fs \<rparr>)"
proof -
  have "windows_ok fs" using assms flow_add_windows by (auto simp: loose_def writer_ok_def)
  then have "writer_ok m False (sc\<lparr> sc_fs := fs \<rparr>)" using assms flow_add_links [OF assms(2)] by (auto simp: loose_def intro: writer_flows)
  moreover have "conn_ok a (sc\<lparr> sc_fs := fs \<rparr>)" using assms(1) by (auto simp: loose_def intro: conn_ok_book)
  ultimately show ?thesis using assms(1) by (simp add: loose_def)
qed

lemma processWindowUpdate_ok:
  assumes "serve_ok a m sc" and "processWindowUpdate w hdr inc sc = Some (e, sc1)" and "world_ok w"
  shows "serve_ok a m sc1"
  using assms(2) loose_schedule [OF loose_flow [OF serve_loose [OF assms(1)]] _ assms(3)] assms(1)
  by (auto simp: processWindowUpdate_def Let_def split: if_splits prod.splits bool.splits)

lemma processResetStream_ok:
  assumes "serve_ok a m sc" and "processResetStream w hdr code sc = Some (e, sc1)" and "world_ok w"
  shows "serve_ok a m sc1"
  using assms by (auto simp: processResetStream_def Let_def split: if_splits prod.splits intro: serve_close)

lemma grow_windows_flows:
  "grow_windows ids g fs = (ok, fs1) \<Longrightarrow> windows_ok fs \<Longrightarrow> windows_ok fs1 \<and> (\<forall>h. fl_conn (fs1 h) = fl_conn (fs h))"
proof (induction ids arbitrary: fs)
  case (Cons i ids)
  obtain b fs2 where f: "flow_add (flow_addr i) g fs = (b, fs2)" by (cases "flow_add (flow_addr i) g fs")
  show ?case using Cons f flow_add_windows [OF Cons.prems(2) f] flow_add_links [OF f] by (cases b) auto
qed simp

lemma loose_book:
  assumes "loose a m sc" and "book sc1 = book sc" and "sc_ws sc1 = sc_ws sc" and "windows_ok (sc_fs sc1)" and "\<And>g. fl_conn (sc_fs sc1 g) = fl_conn (sc_fs sc g)"
    and "sc_writingFrame sc1 = sc_writingFrame sc" and "sc_writingFrameAsync sc1 = sc_writingFrameAsync sc"
    and "sc_inFrameScheduleLoop sc1 = sc_inFrameScheduleLoop sc" and "sc_needToSendGoAway sc1 = sc_needToSendGoAway sc"
    and "sc_needToSendSettingsAck sc1 = sc_needToSendSettingsAck sc" and "sc_needsFrameFlush sc1 = sc_needsFrameFlush sc"
  shows "loose a m sc1"
proof -
  have "conn_ok a sc1" using assms(1,2) by (auto simp: loose_def intro: conn_ok_book)
  moreover have "sc_maxClientStreamID sc1 = sc_maxClientStreamID sc" using assms(2) by (simp add: book_def)
  ultimately show ?thesis using assms by (simp add: loose_def writer_ok_def links_ok_def)
qed

lemma error_codes: "ErrCodeProtocol \<noteq> ErrCodeNo" "ErrCodeFlowControl \<noteq> ErrCodeNo"
  by (simp_all add: ErrCodeNo_def ErrCodeProtocol_def ErrCodeFlowControl_def)

lemma Setting_Valid_error: "Setting_Valid s = Some x \<Longrightarrow> x = ConnectionError ErrCodeProtocol \<or> x = ConnectionError ErrCodeFlowControl"
  by (simp add: Setting_Valid_def split: if_splits)

lemma processSetting_error:
  "processSetting w s sc = (Some x, sc1) \<Longrightarrow> x = ConnectionError ErrCodeProtocol \<or> x = ConnectionError ErrCodeFlowControl"
  using Setting_Valid_error [of s x]
  by (auto simp: processSetting_def processSettingInitialWindowSize_def Let_def split: option.splits if_splits prod.splits)

lemma processSetting_loose:
  assumes "loose a m sc" and "processSetting w s sc = (e, sc1)"
  shows "loose a m sc1 \<and> (\<forall>x. e = Some x \<longrightarrow> (\<exists>c. x = ConnectionError c \<and> c \<noteq> ErrCodeNo))"
proof -
  have wo: "windows_ok (sc_fs sc)" using assms(1) by (simp add: loose_def writer_ok_def)
  have "loose a m sc1"
  proof (rule loose_book [OF assms(1)])
    show "windows_ok (sc_fs sc1)" "\<And>g. fl_conn (sc_fs sc1 g) = fl_conn (sc_fs sc g)"
      using assms(2) wo grow_windows_flows [OF _ wo]
      by (auto simp: processSetting_def processSettingInitialWindowSize_def Let_def split: option.splits if_splits prod.splits)
  qed (use assms(2) in \<open>auto simp: processSetting_def processSettingInitialWindowSize_def Let_def split: option.splits if_splits prod.splits\<close>)
  moreover have "\<forall>x. e = Some x \<longrightarrow> (\<exists>c. x = ConnectionError c \<and> c \<noteq> ErrCodeNo)"
    using assms(2) processSetting_error error_codes by blast
  ultimately show ?thesis ..
qed

lemma ForeachSetting_loose:
  "loose a m sc \<Longrightarrow> ForeachSetting w ss sc = (e, sc1) \<Longrightarrow> loose a m sc1 \<and> (\<forall>x. e = Some x \<longrightarrow> (\<exists>c. x = ConnectionError c \<and> c \<noteq> ErrCodeNo))"
proof (induction ss arbitrary: sc)
  case (Cons s ss)
  obtain e1 sc2 where p: "processSetting w s sc = (e1, sc2)" by (cases "processSetting w s sc")
  then show ?case using Cons processSetting_loose [OF Cons.prems(1) p] by (cases e1) auto
qed simp

lemma processSettings_ok:
  assumes "serve_ok a m sc" and "processSettings w hdr p sc = Some (e, sc1)" and "world_ok w"
  shows "outcome a m e sc1"
proof (cases "IsAck hdr \<or> NumSettings p > 100 \<or> HasDuplicates p")
  case True
  then have "sc1 = sc \<or> sc1 = sc\<lparr> sc_unackedSettings := sc_unackedSettings sc - 1 \<rparr>"
    using assms(2) by (auto simp: processSettings_def Let_def split: if_splits)
  then show ?thesis using assms(1) by (auto intro!: outcomeI elim: serve_book)
next
  case False
  obtain e1 sc2 where f: "ForeachSetting w (frame_settings p) sc = (e1, sc2)" by (cases "ForeachSetting w (frame_settings p) sc")
  note l = ForeachSetting_loose [OF serve_loose [OF assms(1)] f]
  show ?thesis
  proof (cases e1)
    case None
    let ?sc = "sc2\<lparr> sc_needToSendSettingsAck := True \<rparr>"
    have s: "scheduleFrameWrite w ?sc = Some sc1" using assms(2) False f None by (auto simp: processSettings_def)
    have "conn_ok a ?sc" using l by (auto simp: loose_def intro: conn_ok_book)
    moreover have "writer_ok m False ?sc" using l by (simp add: loose_def writer_ok_def)
    ultimately show ?thesis using s assms(3) schedule_tidy ok.schedules by (auto simp: outcome_def serve_ok_def)
  next
    case (Some x)
    then show ?thesis using assms(2) False f l by (auto simp: processSettings_def outcome_def)
  qed
qed

lemma flow_take_flows:
  assumes "flow_take (inflow_addr i) n fs = Some fs1" and "windows_ok fs" and "links_ok fs"
  shows "windows_ok fs1 \<and> (\<forall>g. fl_conn (fs1 g) = fl_conn (fs g)) \<and> (\<forall>j. fs1 (flow_addr j) = fs (flow_addr j))"
proof -
  have "fl_conn (fs (inflow_addr i)) = None \<or> fl_conn (fs (inflow_addr i)) = Some (inflow_addr 0)" using assms(3) by (simp add: links_ok_def)
  then show ?thesis using assms(1,2) by (auto simp: flow_take_def sub_window_def windows_ok_def wrap32_int32 Let_def split: if_splits)
qed

lemma serve_take:
  assumes "serve_ok a m sc" and "flow_take (inflow_addr i) n (sc_fs sc) = Some fs"
  shows "serve_ok a m (sc\<lparr> sc_fs := fs \<rparr>)"
proof -
  have wr: "writer_ok m False sc" using assms(1) by (simp add: serve_ok_def tidy_def)
  then have fs: "windows_ok fs" "\<And>g. fl_conn (fs g) = fl_conn (sc_fs sc g)" "\<And>j. fs (flow_addr j) = sc_fs sc (flow_addr j)"
    using flow_take_flows [OF assms(2)] by (simp_all add: writer_ok_def)
  have "writer_ok m False (sc\<lparr> sc_fs := fs \<rparr>)" using wr fs(1,2) by (rule writer_flows)
  moreover have "conn_ok a (sc\<lparr> sc_fs := fs \<rparr>)" using assms(1) by (auto simp: serve_ok_def intro: conn_ok_book)
  moreover have "queues_stuck k (sc_ws sc) fs = queues_stuck k (sc_ws sc) (sc_fs sc)" for k using fs(3) by (intro queues_stuck_flows [OF wr])
  ultimately show ?thesis using assms(1) by (simp add: serve_ok_def tidy_def quiet_def failing_def)
qed

lemma endStream_ok:
  assumes "serve_ok a m sc" and "i \<in> set (sc_streams sc)" and "endStream i sc = Some sc1" and "world_ok w"
  shows "serve_ok a m sc1"
  using assms(3) serve_object [OF assms(4,1)] serve_live [OF assms(1)] assms(2) by (auto simp: endStream_def Let_def split: option.splits)

lemma accept_data_ok:
  assumes "serve_ok a m sc" and "unat (fh_StreamID hdr) \<in> set (sc_streams sc)" and "accept_data w hdr data p sc = Some (e, sc1)" and "world_ok w"
  shows "serve_ok a m sc1 \<and> sc_streams sc1 = sc_streams sc"
proof (cases "fh_Length hdr > 0 \<and> available (inflow_addr (unat (fh_StreamID hdr))) (sc_fs sc) \<ge> wrap32 (uint (fh_Length hdr))")
  case False
  then show ?thesis using assms(1,3) by (auto simp: accept_data_def Let_def split: if_splits)
next
  case True
  let ?i = "unat (fh_StreamID hdr)" and ?n = "wrap32 (uint (fh_Length hdr))"
  obtain fs where fs: "flow_take (inflow_addr ?i) ?n (sc_fs sc) = Some fs" using True assms(3) by (auto simp: accept_data_def Let_def split: bind_splits)
  note ok1 = serve_take [OF assms(1) fs]
  define wrote where "wrote = (if data \<noteq> [] then do {
                (ok, p1) \<leftarrow> pipe_Write data p;
                Some (ok, if ok then upd_obj ?i (\<lambda>st. st\<lparr> ss_body := Some p1, ss_bodyBytes := wrap64 (ss_bodyBytes st + int (length data)) \<rparr>) (sc\<lparr> sc_fs := fs \<rparr>) else sc\<lparr> sc_fs := fs \<rparr>) }
              else Some (True, sc\<lparr> sc_fs := fs \<rparr>))"
  have body: "serve_ok a m (upd_obj ?i (\<lambda>st. st\<lparr> ss_body := Some p1, ss_bodyBytes := g st \<rparr>) (sc\<lparr> sc_fs := fs \<rparr>))" for p1 g
    using ok1 by (rule serve_object [OF assms(4)]) simp
  obtain k sc2 where wrote: "wrote = Some (k, sc2)" and
    r: "sc1 = sc2 \<or> (\<exists>pad sc3. sendWindowUpdate32 (scheduleFrameWrite w) 0 pad sc2 = Some sc3 \<and> sendWindowUpdate32 (scheduleFrameWrite w) ?i pad sc3 = Some sc1)"
    using assms(3) True fs unfolding accept_data_def Let_def wrote_def [symmetric] by (auto simp: wrote_def [symmetric] split: bind_splits if_splits) blast
  have sc2: "serve_ok a m sc2" "sc_streams sc2 = sc_streams sc"
    using wrote ok1 body by (auto simp: wrote_def split: if_splits bind_splits)
  from r show ?thesis
  proof (elim disjE exE conjE)
    fix pad sc3
    assume u: "sendWindowUpdate32 (scheduleFrameWrite w) 0 pad sc2 = Some sc3" "sendWindowUpdate32 (scheduleFrameWrite w) ?i pad sc3 = Some sc1"
    have ok3: "serve_ok a m sc3" using serve_update32 [OF assms(4) sc2(1) _ u(1)] by simp
    have "?i \<le> m" using serve_known [OF assms(1,2)] by simp
    then have "serve_ok a m sc1" using serve_update32 [OF assms(4) ok3 _ u(2)] by simp
    then show ?thesis using update_closes_nothing [OF _ u(1), of m] update_closes_nothing [OF _ u(2), of m] sc2 ok3 by (simp add: serve_ok_def)
  qed (use sc2 in simp)
qed

lemma processData_ok:
  assumes "serve_ok a m sc" and "processData w hdr data sc = Some (e, sc1)" and w: "world_ok w"
  shows "serve_ok a m sc1"
proof -
  let ?i = "unat (fh_StreamID hdr)" and ?n = "wrap32 (uint (fh_Length hdr))"
  obtain state known where st: "sc_state ?i sc = (state, known)" by (cases "sc_state ?i sc")
  have known: "known \<longleftrightarrow> ?i \<in> set (sc_streams sc)" using st by (auto simp: sc_state_def split: if_splits)
  consider (stay) "sc1 = sc" | (returned) fs where "flow_take (inflow_addr 0) ?n (sc_fs sc) = Some fs"
      "sendWindowUpdate (scheduleFrameWrite w) 0 (uint (fh_Length hdr)) (sc\<lparr> sc_fs := fs \<rparr>) = Some sc1"
    | (too_many) "sc1 = upd_obj ?i (ss_body_update (map_option (CloseWithError (TooManyBytes (ss_declBodyBytes (sc_objs sc ?i)))))) sc"
    | (data) p e1 where "known" "accept_data w hdr data p sc = Some (e1, sc1)"
    | (last) p e1 sc2 where "known" "accept_data w hdr data p sc = Some (e1, sc2)" "endStream ?i sc2 = Some sc1"
    using assms(2) st by (auto simp: processData_def Let_def split: if_splits option.splits bind_splits)
  then show ?thesis
  proof cases
    case stay
    then show ?thesis using assms(1) by simp
  next
    case returned
    then show ?thesis using serve_update [OF w serve_take [OF assms(1) returned(1)] _ returned(2)] by simp
  next
    case too_many
    then show ?thesis using serve_object [OF w assms(1)] by simp
  next
    case data
    then show ?thesis using accept_data_ok [OF assms(1) _ _ w] known by blast
  next
    case last
    then have "serve_ok a m sc2 \<and> sc_streams sc2 = sc_streams sc" using accept_data_ok [OF assms(1) _ _ w] known by blast
    then show ?thesis using endStream_ok [OF _ _ last(3) w] last(1) known by simp
  qed
qed

lemma processGoAway_ok:
  assumes "serve_ok a m sc" and "processGoAway w sc = Some (e, sc1)" and "world_ok w"
  shows "serve_ok a m sc1"
proof -
  obtain sc2 where sc2: "goAway (scheduleFrameWrite w) ErrCodeNo sc = Some sc2" "sc1 = sc2\<lparr> sc_pushEnabled := False \<rparr>"
    using assms(2) by (auto simp: processGoAway_def split: bind_splits)
  show ?thesis unfolding sc2(2) by (rule serve_book [OF serve_going_away [OF assms(3,1) sc2(1)]]) simp_all
qed

lemma processTrailerHeaders_ok:
  assumes "serve_ok a m sc" and "unat (fh_StreamID hdr) \<in> set (sc_streams sc)" and "processTrailerHeaders hdr flds sc = Some (e, sc1)" and w: "world_ok w"
  shows "serve_ok a m sc1"
proof -
  let ?i = "unat (fh_StreamID hdr)"
  let ?sc1 = "upd_obj ?i (ss_gotTrailerHeader_update (\<lambda>_. True)) sc"
  let ?sc2 = "upd_obj ?i (\<lambda>st. st\<lparr> ss_trailer := ss_trailer st @ map (\<lambda>(k, v). (CanonicalHeaderKey k, v)) (RegularFields flds) \<rparr>) ?sc1"
  have 1: "serve_ok a m ?sc1" by (rule serve_object [OF w assms(1)]) simp
  have 2: "serve_ok a m ?sc2" by (rule serve_object [OF w 1]) simp
  have "sc1 = sc \<or> sc1 = ?sc1 \<or> endStream ?i ?sc2 = Some sc1"
    using assms(3) by (auto simp: processTrailerHeaders_def Let_def split: if_splits)
  then show ?thesis using assms(1,2) 1 endStream_ok [OF 2 _ _ w, of ?i] by auto
qed

text \<open>A connection cannot have as many streams as would make the counter wrap around: client ids are odd.\<close>

lemma odd_ids_bound:
  fixes xs :: "nat list"
  assumes "distinct xs" and "list_all (\<lambda>i. i mod 2 = 1 \<and> i \<le> m) xs" and "m < 2 ^ 32"
  shows "length xs \<le> 2 ^ 31"
proof -
  have "inj_on (\<lambda>i. i div 2) (set xs)"
  proof (rule inj_onI)
    fix x y
    assume "x \<in> set xs" "y \<in> set xs" "x div 2 = y div 2"
    moreover have "x mod 2 = 1" "y mod 2 = 1" using assms(2) \<open>x \<in> set xs\<close> \<open>y \<in> set xs\<close> by (simp_all add: list_all_iff)
    ultimately show "x = y" by (metis div_mult_mod_eq)
  qed
  moreover have "(\<lambda>i. i div 2) ` set xs \<subseteq> {..< 2 ^ 31}"
  proof (rule image_subsetI)
    fix x assume "x \<in> set xs"
    then have "x < 2 ^ 32" using assms(2,3) by (auto simp: list_all_iff)
    then show "x div 2 \<in> {..< 2 ^ 31}" by simp
  qed
  ultimately have "card (set xs) \<le> card {..< 2 ^ 31 :: nat}" by (intro card_inj_on_le) auto
  then show ?thesis using distinct_card [OF assms(1)] by simp
qed

lemma newStream_conn_ok:
  assumes ok: "conn_ok a sc" and i: "i mod 2 = 1" "sc_maxClientStreamID sc < i" "i < 2 ^ 32" and room: "sc_curClientStreams sc + 1 \<le> a" and st: "live st"
    and new: "newStream cf i st (sc\<lparr> sc_maxClientStreamID := i \<rparr>) = Some sc1"
  shows "conn_ok a sc1"
proof -
  have fresh: "i \<notin> set (sc_streams sc)" using ok i(2) unfolding conn_ok_def list_all_iff by (meson leD)
  have "length (sc_streams sc) \<le> 2 ^ 31" using ok by (intro odd_ids_bound) (auto simp: conn_ok_def)
  then have "unat (sc_curClientStreams sc) \<le> 2 ^ 31" using ok by (simp add: conn_ok_def)
  then have "unat (sc_curClientStreams sc + 1) = Suc (unat (sc_curClientStreams sc))"
    by (simp add: unat_word_ariths)
  then have cur: "unat (sc_curClientStreams sc + 1) = Suc (length (sc_streams sc))" using ok by (simp add: conn_ok_def)
  have b: "sc_advMaxStreams sc1 = a" "sc_streams sc1 = i # sc_streams sc" "sc_maxClientStreamID sc1 = i" "sc_curClientStreams sc1 = sc_curClientStreams sc + 1"
    "sc_handlers sc1 = sc_handlers sc" "ss_state (sc_objs sc1 j) = (if j = i then st else ss_state (sc_objs sc j))" for j
    using new i(1) ok by (auto simp: newStream_def Let_def isPushed_def upd_obj_def conn_ok_def split: if_splits)
  have "list_all (\<lambda>j. j mod 2 = 1 \<and> j \<le> i) (i # sc_streams sc)" "list_all (\<lambda>j. 0 < j \<and> j \<le> i) (sc_handlers sc)"
    using ok i(1,2) by (auto simp: conn_ok_def elim!: list.pred_mono_strong)
  moreover have "distinct (i # sc_streams sc)" "\<forall>j. j \<in> set (i # sc_streams sc) \<longleftrightarrow> live (ss_state (sc_objs sc1 j))"
    using ok fresh st by (simp_all add: conn_ok_def b)
  ultimately show ?thesis unfolding conn_ok_def b using i(3) cur room by simp
qed

lemma id_lt: "unat (x :: uint32) < 2 ^ 32"
proof -
  have "unat x < 2 ^ LENGTH(32)" by (rule unsigned_less)
  then show ?thesis by simp
qed

lemma fits_mono: "fits m wr \<Longrightarrow> m \<le> n \<Longrightarrow> fits n wr"
  by (auto simp: fits_def split: option.splits)

lemma tidy_next_id:
  assumes "tidy m sc" and "m < i"
  shows "tidy i (sc\<lparr> sc_maxClientStreamID := i \<rparr>)"
  using assms fits_mono [of m _ i] by (auto simp: tidy_def writer_ok_def quiet_def failing_def)

lemma newStream_tidy:
  assumes t: "tidy m sc" and i: "m < i" and new: "newStream cf i st (sc\<lparr> sc_maxClientStreamID := i \<rparr>) = Some sc1"
  shows "tidy i sc1"
proof -
  let ?sc = "sc\<lparr> sc_maxClientStreamID := i \<rparr>"
  define fs0 where "fs0 = (sc_fs sc)(flow_addr i := \<lparr> fl_n = 0, fl_conn = Some (flow_addr 0) \<rparr>, inflow_addr i := \<lparr> fl_n = 0, fl_conn = Some (inflow_addr 0) \<rparr>)"
  obtain b1 fs1 where 1: "flow_add (flow_addr i) (sc_initialStreamSendWindowSize sc) fs0 = (b1, fs1)" by fastforce
  obtain b2 fs2 where 2: "flow_add (inflow_addr i) (initialStreamRecvWindowSize cf) fs1 = (b2, fs2)" by fastforce
  have wr: "writer_ok m False sc" using t by (simp add: tidy_def)
  have sc1: "sc_fs sc1 = fs2" "sc_ws sc1 = sc_ws sc" "sc_maxClientStreamID sc1 = i" "sc_writingFrame sc1 = sc_writingFrame sc"
    "sc_writingFrameAsync sc1 = sc_writingFrameAsync sc" "sc_inFrameScheduleLoop sc1 = sc_inFrameScheduleLoop sc"
    "sc_needToSendGoAway sc1 = sc_needToSendGoAway sc" "sc_needToSendSettingsAck sc1 = sc_needToSendSettingsAck sc"
    "sc_needsFrameFlush sc1 = sc_needsFrameFlush sc" "sc_inGoAway sc1 = sc_inGoAway sc" "sc_goAwayCode sc1 = sc_goAwayCode sc" "sc_maxFrameSize sc1 = sc_maxFrameSize sc"
    using new 1 2 by (auto simp: newStream_def Let_def fs0_def split: if_splits)
  have "i \<noteq> 0" using i by simp
  then have w0: "windows_ok fs0" using wr by (auto simp: writer_ok_def windows_ok_def fs0_def int32_def)
  have w2: "windows_ok fs2" using flow_add_windows [OF flow_add_windows [OF w0 1] 2] .
  have conns: "fl_conn (fs2 g) = fl_conn (fs0 g)" for g using flow_add_links [OF 1] flow_add_links [OF 2] by simp
  have l2: "links_ok fs2" using wr conns by (auto simp: links_ok_def writer_ok_def fs0_def)
  have "fs2 (flow_addr j) = sc_fs sc (flow_addr j)" if "j \<le> m" for j
    using that i flow_add_links [OF 1, of "flow_addr j"] flow_add_links [OF 2, of "flow_addr j"] by (auto simp: fs0_def)
  then have "queues_stuck k (sc_ws sc) fs2 = queues_stuck k (sc_ws sc) (sc_fs sc)" for k by (intro queues_stuck_flows [OF wr])
  then show ?thesis using t w2 l2 i fits_mono [of m _ i] by (auto simp: tidy_def writer_ok_def quiet_def failing_def sc1)
qed

lemma newWriterAndRequest_ok:
  assumes "serve_ok a m sc" and "newWriterAndRequest i sid ended flds sc = Some (e, sc1)" and w: "world_ok w"
  shows "serve_ok a m sc1"
proof -
  have "serve_ok a m (upd_obj i (\<lambda>st. st\<lparr> ss_header := h, ss_declBodyBytes := d, rb_needsContinue := n, ss_body := b \<rparr>) sc)" for h d n b
    by (rule serve_object [OF w assms(1)]) simp
  then show ?thesis using assms(1,2) by (auto simp: newWriterAndRequest_def Let_def split: if_splits option.splits)
qed

lemma serve_handlers:
  assumes "serve_ok a m sc" and "0 < i" and "i \<le> m"
  shows "serve_ok a m (sc\<lparr> sc_handlers := sc_handlers sc @ [i] \<rparr>)"
  using assms serve_max [OF assms(1)] by (auto simp: serve_ok_def conn_ok_def tidy_def writer_ok_def quiet_def failing_def)

lemma open_stream_ok:
  assumes ok: "serve_ok a m sc" and i: "unat (fh_StreamID hdr) mod 2 = 1" "m < unat (fh_StreamID hdr)" and room: "sc_curClientStreams sc + 1 \<le> a"
    and run: "open_stream cf hdr prio flds tr (sc\<lparr> sc_maxClientStreamID := unat (fh_StreamID hdr) \<rparr>) = Some (e, sc1)" and w: "world_ok w"
  shows "serve_ok a (unat (fh_StreamID hdr)) sc1"
proof -
  let ?i = "unat (fh_StreamID hdr)"
  have lt: "?i < 2 ^ 32" by (rule id_lt)
  obtain sc2 where 2: "newStream cf ?i (if StreamEnded hdr then StateHalfClosedRemote else StateOpen) (sc\<lparr> sc_maxClientStreamID := ?i \<rparr>) = Some sc2"
    using run by (auto simp: open_stream_def Let_def split: bind_splits)
  have "conn_ok a sc2" by (rule newStream_conn_ok [OF _ i(1) _ lt room _ 2]) (use ok serve_max [OF ok] i(2) in \<open>auto simp: serve_ok_def\<close>)
  then have ok2: "serve_ok a ?i sc2" using newStream_tidy [OF _ i(2) 2] ok by (simp add: serve_ok_def)
  note ok3 = newWriterAndRequest_ok [OF ok2 _ w]
  have ok4: "serve_ok a ?i ((upd_obj ?i (ss_handler_update (\<lambda>_. h)) sc3)\<lparr> sc_handlers := sc_handlers sc3 @ [?i] \<rparr>)" if "serve_ok a ?i sc3" for h sc3
    using serve_handlers [OF serve_object [OF w that, of "ss_handler_update (\<lambda>_. h)" ?i]] i(2) by simp
  show ?thesis using run 2 ok2 ok3 ok4
    by (auto simp: open_stream_def Let_def split: bind_splits if_splits option.splits)
qed

lemma processHeaders_ok:
  assumes ok: "serve_ok a m sc" and run: "processHeaders cf hdr prio flds tr sc = Some (e, sc1)" and w: "world_ok w"
  shows "\<exists>m'. serve_ok a m' sc1"
proof -
  let ?i = "unat (fh_StreamID hdr)"
  have adv: "sc_advMaxStreams sc = a" "sc_maxClientStreamID sc = m" using ok serve_max [OF ok] by (simp_all add: serve_ok_def conn_ok_def)
  have refused: "serve_ok a ?i (sc\<lparr> sc_maxClientStreamID := ?i \<rparr>)" if "m < ?i"
  proof -
    have "?i < 2 ^ 32" by (rule id_lt)
    then have "conn_ok a (sc\<lparr> sc_maxClientStreamID := ?i \<rparr>)" using ok that adv(2) by (auto simp: serve_ok_def conn_ok_def list_all_iff)
    then show ?thesis using tidy_next_id [OF _ that, of sc] ok by (simp add: serve_ok_def)
  qed
  show ?thesis using run adv refused open_stream_ok [OF ok _ _ _ _ w] processTrailerHeaders_ok [OF ok _ _ w] ok
    by (fastforce simp: processHeaders_def Let_def split: if_splits)
qed

lemma processFrame_ok:
  assumes ok: "serve_ok a m sc" and run: "processFrame w cf f sc = Some (e, sc1)" and w: "world_ok w"
  shows "\<exists>m'. outcome a m' e sc1"
proof (cases "\<not> sc_sawFirstSettings sc \<and> (case f of InFrame (SettingsFrame _ _) \<Rightarrow> False | _ \<Rightarrow> True)")
  case True
  then show ?thesis using run ok by (auto intro: outcomeI)
next
  case False
  let ?sc = "sc\<lparr> sc_sawFirstSettings := True \<rparr>"
  have ok1: "serve_ok a m ?sc" by (rule serve_book [OF ok]) simp_all
  show ?thesis
  proof (cases f)
    case (MetaHeadersFrame hdr prio flds tr)
    then show ?thesis using run False processHeaders_ok [OF ok1 _ w] outcomeI by (fastforce simp: Let_def)
  next
    case (InFrame fr)
    note step = run False InFrame
    show ?thesis
    proof (cases fr)
      case (SettingsFrame hdr p)
      then show ?thesis using step processSettings_ok [OF ok1 _ w] by (intro exI [of _ m]) (auto simp: Let_def)
    next
      case (DataFrame hdr d)
      then show ?thesis using step processData_ok [OF ok1 _ w] by (intro exI [of _ m] outcomeI) (auto simp: Let_def)
    next
      case (WindowUpdateFrame hdr inc)
      then show ?thesis using step processWindowUpdate_ok [OF ok1 _ w] by (intro exI [of _ m] outcomeI) (auto simp: Let_def)
    next
      case (PingFrame hdr d)
      then show ?thesis using step processPing_ok [OF ok1 _ w] by (intro exI [of _ m] outcomeI) (auto simp: Let_def)
    next
      case (RSTStreamFrame hdr code)
      then show ?thesis using step processResetStream_ok [OF ok1 _ w] by (intro exI [of _ m] outcomeI) (auto simp: Let_def)
    next
      case (GoAwayFrame hdr x y z)
      then show ?thesis using step processGoAway_ok [OF ok1 _ w] by (intro exI [of _ m] outcomeI) (auto simp: Let_def)
    qed (use step ok1 in \<open>auto simp: processPriority_def Let_def split: if_splits intro: outcomeI\<close>)
  qed
qed

lemma processFrameFromReader_ok:
  assumes ok: "serve_ok a m sc" and run: "processFrameFromReader w cf res sc = Some (k, sc1)" and w: "world_ok w"
  shows "\<exists>m'. serve_ok a m' sc1"
proof (cases res)
  case (Inl e)
  then have "sc1 = sc \<or> goAway (scheduleFrameWrite w) ErrCodeFrameSize sc = Some sc1 \<or> process_error w e sc = Some (k, sc1)"
    using run by (auto simp: processFrameFromReader_def split: h2_error.splits)
  then show ?thesis using ok serve_going_away [OF w ok] process_error_ok [OF outcomeI [OF ok] _ w] by blast
next
  case (Inr f)
  then obtain e sc2 where p: "processFrame w cf f sc = Some (e, sc2)" and r: "e = None \<and> sc1 = sc2 \<or> (\<exists>x. e = Some x \<and> process_error w x sc2 = Some (k, sc1))"
    using run by (auto simp: processFrameFromReader_def split: bind_splits option.splits)
  obtain m' where o: "outcome a m' e sc2" using processFrame_ok [OF ok p w] ..
  from r show ?thesis
  proof (elim disjE conjE exE)
    assume "e = None" "sc1 = sc2"
    then show ?thesis using o by (auto simp: outcome_def)
  next
    fix x
    assume "e = Some x" "process_error w x sc2 = Some (k, sc1)"
    then show ?thesis using o process_error_ok [OF _ _ w] by blast
  qed
qed

section \<open>Events\<close>

lemma wrote_inflight_ok:
  assumes ok: "serve_ok a m sc" and run: "wrote_inflight w sc = Some sc1" and w: "world_ok w"
  shows "serve_ok a m sc1"
proof (cases "sc_inflight sc")
  case None
  then show ?thesis using ok run by (simp add: wrote_inflight_def)
next
  case (Some wr)
  let ?sc = "sc\<lparr> sc_inflight := None \<rparr>"
  have f: "wroteFrame (scheduleFrameWrite w) wr ?sc = Some sc1" using run Some by (simp add: wrote_inflight_def)
  have ok1: "serve_ok a m ?sc" by (rule serve_book [OF ok]) simp_all
  then have "tidy m sc1" using wroteFrame_tidy [OF f _ w] by (simp add: serve_ok_def)
  moreover have "conn_ok a sc1" using ok.wrote [OF _ f] ok1 by (simp add: serve_ok_def)
  ultimately show ?thesis by (simp add: serve_ok_def)
qed

lemma serve_event_ok:
  assumes ok: "serve_ok a m sc" and p: "possible ev sc" and run: "serve_event_step w cf ev sc = Some (k, sc1)" and w: "world_ok w"
  shows "\<exists>m'. serve_ok a m' sc1"
proof (cases ev)
  case (WantWrite i f d)
  have "0 < i \<and> i \<le> m" using p WantWrite serve_handler [OF ok] by simp
  then have "fits m (stream_req i f d)" by (simp add: fits_def stream_req_def wr_ok_def)
  moreover have "(\<exists>j code. resetStream (scheduleFrameWrite w) j code sc = Some sc1) \<or> writeFrame (scheduleFrameWrite w) (stream_req i f d) sc = Some sc1"
    using run WantWrite by (auto split: write_framer.splits)
  ultimately show ?thesis using serve_frame [OF w ok] serve_reset [OF w ok] by blast
next
  case WroteFrame
  then show ?thesis using run wrote_inflight_ok [OF ok _ w] by auto
next
  case (ReadFrameEv b res)
  then obtain sc2 where "sc2 = sc \<or> wrote_inflight w sc = Some sc2" "processFrameFromReader w cf res sc2 = Some (k, sc1)"
    using run by (auto split: bind_splits if_splits)
  then show ?thesis using ok wrote_inflight_ok [OF ok _ w] processFrameFromReader_ok [OF _ _ w] by blast
next
  case (BodyRead i n)
  then have i: "i \<le> m" using p serve_handler [OF ok] by simp
  obtain sc2 where u: "sendWindowUpdate (scheduleFrameWrite w) 0 n sc = Some sc2" "sc1 = sc2 \<or> sendWindowUpdate (scheduleFrameWrite w) i n sc2 = Some sc1"
    using run BodyRead by (auto simp: noteBodyRead_def split: bind_splits if_splits)
  then show ?thesis using serve_update [OF w ok _ u(1)] serve_update [OF w _ i] by blast
next
  case (CoreRunning b)
  have "serve_ok a m (sc\<lparr> sc_keepAlivesDisabled := d \<rparr>)" for d by (rule serve_book [OF ok]) simp_all
  then show ?thesis using run CoreRunning by auto
qed (use run ok serve_going_away [OF w ok] in auto)

lemma serve_step_ok:
  assumes "serve_ok a m sc" and "possible ev sc" and "serve_step w cf ev sc = Some (k, sc1)" and "world_ok w"
  shows "\<exists>m'. serve_ok a m' sc1"
proof -
  obtain k2 sc2 where 2: "serve_event_step w cf ev sc = Some (k2, sc2)" and 1: "sc1 = sc2 \<or> sc1 = sc2\<lparr> sc_shutdownTimer := True \<rparr>"
    using assms(3) by (auto simp: serve_step_def after_event_def Let_def split: bind_splits if_splits)
  obtain m' where ok: "serve_ok a m' sc2" using serve_event_ok [OF assms(1,2) 2 assms(4)] ..
  have "serve_ok a m' (sc2\<lparr> sc_shutdownTimer := True \<rparr>)" by (rule serve_book [OF ok]) simp_all
  then show ?thesis using ok 1 by blast
qed

lemma serve_run_ok:
  "serve_ok a m sc \<Longrightarrow> serve_run w cf evs sc = Some (k, sc1) \<Longrightarrow> world_ok w \<Longrightarrow> \<exists>m'. serve_ok a m' sc1"
proof (induction evs arbitrary: sc m)
  case (Cons ev evs)
  show ?case
  proof (cases "possible ev sc")
    case True
    then obtain k2 sc2 where 2: "serve_step w cf ev sc = Some (k2, sc2)" and r: "if k2 then serve_run w cf evs sc2 = Some (k, sc1) else sc1 = sc2"
      using Cons.prems(2) by (auto split: option.splits bool.splits)
    obtain m' where "serve_ok a m' sc2" using serve_step_ok [OF Cons.prems(1) True 2 Cons.prems(3)] ..
    then show ?thesis using r Cons.IH [of m' sc2] Cons.prems(3) by (auto split: if_splits)
  qed (use Cons in auto)
qed auto

lemma new_conn_ok: "serve_ok (maxConcurrentStreams cf) 0 (new_conn cf)"
  by (auto simp: new_conn_def serve_ok_def conn_ok_def tidy_def writer_ok_def quiet_def queues_stuck_def queue_of_def sched_ok_def NewRandomWriteScheduler_def
      zero_stream_def windows_ok_def links_ok_def int32_def initialWindowSize_def flow_addr_def inflow_addr_def)

lemma serve_start_ok:
  assumes "serve_start w cf = Some sc" and w: "world_ok w"
  shows "serve_ok (maxConcurrentStreams cf) 0 sc"
proof -
  have f: "fits 0 (control_req (WriteSettingsList 4))" by (simp add: fits_def control_req_def wr_ok_def DataSize_def)
  obtain sc1 where 1: "writeFrame (scheduleFrameWrite w) (control_req (WriteSettingsList 4)) (new_conn cf) = Some sc1"
    and r: "sc = sc1\<lparr> sc_unackedSettings := sc_unackedSettings sc1 + 1 \<rparr> \<or>
      (\<exists>n. sendWindowUpdate (scheduleFrameWrite w) 0 n (sc1\<lparr> sc_unackedSettings := sc_unackedSettings sc1 + 1 \<rparr>) = Some sc)"
    using assms(1) by (auto simp: serve_start_def Let_def split: bind_splits if_splits)
  have "serve_ok (maxConcurrentStreams cf) 0 (sc1\<lparr> sc_unackedSettings := sc_unackedSettings sc1 + 1 \<rparr>)"
    by (rule serve_book [OF serve_frame [OF w new_conn_ok f 1]]) simp_all
  then show ?thesis using r serve_update [OF w] by blast
qed

lemma close_all_ok:
  "serve_ok a m sc \<Longrightarrow> close_all w ids sc = Some sc1 \<Longrightarrow> world_ok w \<Longrightarrow> serve_ok a m sc1 \<and> set (sc_streams sc1) \<subseteq> set (sc_streams sc) - set ids"
proof (induction ids arbitrary: sc)
  case (Cons i ids)
  show ?case
  proof (cases "i \<in> set (sc_streams sc)")
    case True
    then obtain sc2 where 2: "closeStream (scheduleFrameWrite w) i ErrClientDisconnected True sc = Some sc2" and r: "close_all w ids sc2 = Some sc1"
      using Cons.prems(2) by (auto split: bind_splits)
    show ?thesis using Cons.IH [OF serve_close [OF Cons.prems(3,1) 2] r Cons.prems(3)] closeStream_removes [OF 2] by auto
  next
    case False
    then show ?thesis using Cons.IH [OF Cons.prems(1) _ Cons.prems(3)] Cons.prems(2) by auto
  qed
qed simp

lemma serve_invariant:
  assumes "serve w cf evs = Some (k, sc)" and w: "world_ok w"
  shows "\<exists>m. serve_ok (maxConcurrentStreams cf) m sc" "\<not> k \<Longrightarrow> sc_streams sc = []"
proof -
  obtain sc0 k1 sc1 where 0: "serve_start w cf = Some sc0" and 1: "serve_run w cf evs sc0 = Some (k1, sc1)" and
    r: "if k1 then k \<and> sc = sc1 else \<not> k \<and> closeAllStreamsOnConnClose w sc1 = Some sc"
    using assms(1) by (auto simp: serve_def split: bind_splits if_splits)
  obtain m where m: "serve_ok (maxConcurrentStreams cf) m sc1" using serve_run_ok [OF serve_start_ok [OF 0 w] 1 w] ..
  have "serve_ok (maxConcurrentStreams cf) m sc \<and> sc_streams sc = []" if "\<not> k1"
  proof -
    have c: "close_all w (w_order w (sc_clock sc1) (sc_streams sc1)) sc1 = Some sc" using r that by (simp add: closeAllStreamsOnConnClose_def)
    show ?thesis using close_all_ok [OF m c w] w by (simp add: world_ok_def)
  qed
  then show "\<exists>m. serve_ok (maxConcurrentStreams cf) m sc" "\<not> k \<Longrightarrow> sc_streams sc = []" using m r by (auto split: if_splits)
qed

text \<open>
  C10: The serve loop keeps its books. After any sequence of events that does not make it panic, no stream is listed twice, a stream is listed exactly when its object is open or
  half closed, the counter of client streams is the number of listed streams and does not wrap around, it stays within the limit the server announces, and when the loop has returned every stream is closed.
\<close>

theorem serve_loop_books:
  assumes "world_ok w" and "serve w cf evs = Some (running, sc)"
  shows "distinct (sc_streams sc) \<and> (\<forall>i. i \<in> set (sc_streams sc) \<longleftrightarrow> ss_state (sc_objs sc i) \<notin> {StateIdle, StateClosed}) \<and>
    unat (sc_curClientStreams sc) = length (sc_streams sc) \<and> length (sc_streams sc) \<le> unat (maxConcurrentStreams cf) \<and> (running \<or> sc_streams sc = [])"
proof -
  obtain m where "serve_ok (maxConcurrentStreams cf) m sc" using serve_invariant(1) [OF assms(2,1)] ..
  then have ok: "conn_ok (maxConcurrentStreams cf) sc" by (simp add: serve_ok_def)
  then have "unat (sc_curClientStreams sc) \<le> unat (maxConcurrentStreams cf)" by (simp add: conn_ok_def word_le_nat_alt)
  then show ?thesis using ok serve_invariant(2) [OF assms(2,1)] by (auto simp: conn_ok_def live_def)
qed

text \<open>
  C11: The serve loop forgets no frame. After any sequence of events, if no frame is being written and the connection is not closing with an error, no acknowledgement, no GOAWAY and no flush is
  outstanding, no frame is queued outside the streams, and the next frame of each stream that has queued frames is data that its own window or that of the connection does not allow.
\<close>

theorem serve_loop_forgets_nothing:
  assumes "world_ok w" and "serve w cf evs = Some (running, sc)" and "\<not> sc_writingFrame sc" and "\<not> (sc_inGoAway sc \<and> sc_goAwayCode sc \<noteq> ErrCodeNo)"
  shows "\<not> sc_needToSendGoAway sc \<and> \<not> sc_needToSendSettingsAck sc \<and> \<not> sc_needsFrameFlush sc \<and> queue_of 0 (sc_ws sc) = [] \<and>
    (\<forall>i. queue_of i (sc_ws sc) = [] \<or> blocked (sc_maxFrameSize sc) (sc_fs sc) (hd (queue_of i (sc_ws sc))))"
proof -
  obtain m where "serve_ok (maxConcurrentStreams cf) m sc" using serve_invariant(1) [OF assms(2,1)] ..
  then have "quiet sc" using assms(3) by (simp add: serve_ok_def tidy_def)
  then show ?thesis using assms(4) by (auto simp: quiet_def failing_def queues_stuck_def)
qed

section \<open>Examples\<close>

definition ex_conf :: server_conf where
  "ex_conf = \<lparr> cf_MaxUploadBufferPerConnection = 0, cf_MaxUploadBufferPerStream = 0, cf_MaxReadFrameSize = 0, cf_MaxConcurrentStreams = 0, cf_KeepAlivesDisabled = False \<rparr>"

text \<open>Every frame fits the buffer, and a \<open>range\<close> visits the keys in the order of the list.\<close>

definition ex_world :: world where
  "ex_world = \<lparr> w_avail = (\<lambda>_. 64), w_order = (\<lambda>_ ks. ks) \<rparr>"

lemma ex_world_ok: "world_ok ex_world"
  by (simp add: world_ok_def ex_world_def)

definition hdr_of :: "uint32 \<Rightarrow> 8 word \<Rightarrow> uint32 \<Rightarrow> frame_header" where
  "hdr_of len flgs i = \<lparr> fh_Type = 0, fh_Flags = flgs, fh_Length = len, fh_StreamID = i \<rparr>"

definition ex_fields :: "field list" where
  "ex_fields = [('':method'', ''POST''), ('':scheme'', ''http''), ('':authority'', ''a''), ('':path'', ''/'')]"

definition read_settings :: serve_event where
  "read_settings = ReadFrameEv True (Inr (InFrame (SettingsFrame (hdr_of 0 0 0) [])))"

definition read_headers :: "uint32 \<Rightarrow> field list \<Rightarrow> serve_event" where
  "read_headers i flds = ReadFrameEv True (Inr (MetaHeadersFrame (hdr_of 0 0 i) prio_zero flds False))"

definition read_data :: "uint32 \<Rightarrow> byte list \<Rightarrow> serve_event" where
  "read_data i d = ReadFrameEv True (Inr (InFrame (DataFrame (hdr_of (of_nat (length d)) 0 i) d)))"

definition read_reset :: "uint32 \<Rightarrow> serve_event" where
  "read_reset i = ReadFrameEv True (Inr (InFrame (RSTStreamFrame (hdr_of 4 0 i) 8)))"

section \<open>Aborted requests\<close>

text \<open>A connection with no open streams that is not going away, and its highest stream.\<close>

definition ready :: "nat \<Rightarrow> serverConn \<Rightarrow> bool" where
  "ready m sc \<longleftrightarrow> \<not> sc_inGoAway sc \<and> sc_sawFirstSettings sc \<and> sc_streams sc = [] \<and> sc_curClientStreams sc = 0 \<and> 0 < sc_advMaxStreams sc \<and>
     sc_maxClientStreamID sc = m \<and> \<not> sc_keepAlivesDisabled sc \<and> sc_queuedControlFrames sc \<le> maxQueuedControlFrames"

definition abort_frames :: "uint32 \<Rightarrow> serve_event list" where
  "abort_frames i = [ReadFrameEv False (Inr (MetaHeadersFrame (hdr_of 0 0 i) prio_zero ex_fields False)),
     ReadFrameEv False (Inr (InFrame (RSTStreamFrame (hdr_of 4 0 i) 8)))]"

lemma ex_fields_valid: "request_valid False ex_fields" "RegularFields ex_fields = []"
  by code_simp+

lemma hdr_of_flags: "\<not> StreamEnded (hdr_of n 0 i)" "\<not> HasPriority (hdr_of n 0 i)" "fh_StreamID (hdr_of n f i) = i"
  by (simp_all add: StreamEnded_def HasPriority_def flag_has_def hdr_of_def FlagEndStream_def FlagPriority_def)

lemma after_event_ready:
  "\<not> sc_inGoAway sc \<Longrightarrow> sc_queuedControlFrames sc \<le> maxQueuedControlFrames \<Longrightarrow> after_event sc = (True, sc)"
  by (simp add: after_event_def Let_def)

definition fresh_stream :: "nat \<Rightarrow> serverConn \<Rightarrow> serverConn \<Rightarrow> bool" where
  "fresh_stream i sc sc1 \<longleftrightarrow> \<not> sc_inGoAway sc1 \<and> sc_sawFirstSettings sc1 \<and> sc_streams sc1 = [i] \<and> sc_curClientStreams sc1 = 1 \<and>
     sc_advMaxStreams sc1 = sc_advMaxStreams sc \<and> sc_maxClientStreamID sc1 = i \<and> \<not> sc_keepAlivesDisabled sc1 \<and>
     sc_queuedControlFrames sc1 = sc_queuedControlFrames sc \<and> ss_state (sc_objs sc1 i) = StateOpen \<and> \<not> ss_cw (sc_objs sc1 i) \<and>
     ss_body (sc_objs sc1 i) = Some (new_pipe []) \<and> sc_handlers sc1 = sc_handlers sc @ [i]"

lemma open_fresh:
  assumes "ready m sc" and "unat i mod 2 = 1" and "m < unat i"
  shows "\<exists>sc1. open_stream cf (hdr_of 0 0 i) prio_zero ex_fields False (sc\<lparr> sc_sawFirstSettings := True, sc_maxClientStreamID := unat i \<rparr>) = Some (None, sc1) \<and>
    fresh_stream (unat i) sc sc1"
proof -
  have i: "unat i \<noteq> 0" using assms(3) by simp
  show ?thesis using assms i
    by (simp add: ready_def open_stream_def newStream_def newWriterAndRequest_def hdr_of_flags ex_fields_valid isPushed_def fresh_stream_def
        zero_stream_def upd_obj_def Let_def)
qed

lemma headers_open:
  assumes "ready m sc" and "unat i mod 2 = 1" and "m < unat i"
  shows "\<exists>sc1. processFrame w cf (MetaHeadersFrame (hdr_of 0 0 i) prio_zero ex_fields False) sc = Some (None, sc1) \<and> fresh_stream (unat i) sc sc1"
proof -
  have "sc_advMaxStreams sc \<noteq> 0" using assms(1) by (auto simp: ready_def)
  then have "\<not> sc_curClientStreams sc + 1 > sc_advMaxStreams sc" using assms(1) by (auto simp: ready_def word_less_nat_alt)
  then show ?thesis using assms open_fresh [OF assms, of cf]
    by (simp add: ready_def processHeaders_def hdr_of_flags Let_def)
qed

lemma reset_closes:
  assumes "fresh_stream i sc sc1" and "0 < sc_advMaxStreams sc" and "sc_queuedControlFrames sc \<le> maxQueuedControlFrames" and "unat j = i" and "i mod 2 = 1"
  shows "\<exists>sc2. processFrame w cf (InFrame (RSTStreamFrame (hdr_of 4 0 j) 8)) sc1 = Some (None, sc2) \<and> ready i sc2 \<and> sc_handlers sc2 = sc_handlers sc @ [i] \<and>
    sc_advMaxStreams sc2 = sc_advMaxStreams sc"
proof -
  have odd: "\<not> isPushed i" using assms(5) by (simp add: isPushed_def)
  have len: "pipe_Len (new_pipe [] :: unit pipe) = 0" by code_simp
  show ?thesis using assms odd len
    by (simp add: processResetStream_def closeStream_def forget_stream_def fresh_stream_def sc_state_def hdr_of_flags upd_obj_def ready_def Let_def
      sendWindowUpdate.simps sendWindowUpdate32_def maxUint31_def wrap_at_def)
qed

lemma abort_run:
  assumes "ready m sc" and "unat i mod 2 = 1" and "m < unat i"
  shows "\<exists>sc2. serve_run w cf (abort_frames i @ evs) sc = serve_run w cf evs sc2 \<and> ready (unat i) sc2 \<and> sc_handlers sc2 = sc_handlers sc @ [unat i]"
proof -
  obtain sc1 where 1: "processFrame w cf (MetaHeadersFrame (hdr_of 0 0 i) prio_zero ex_fields False) sc = Some (None, sc1)" and f: "fresh_stream (unat i) sc sc1"
    using headers_open [OF assms] by blast
  have r: "0 < sc_advMaxStreams sc" "sc_queuedControlFrames sc \<le> maxQueuedControlFrames" using assms(1) by (simp_all add: ready_def)
  obtain sc2 where 2: "processFrame w cf (InFrame (RSTStreamFrame (hdr_of 4 0 i) 8)) sc1 = Some (None, sc2)" and p: "ready (unat i) sc2" "sc_handlers sc2 = sc_handlers sc @ [unat i]"
    using reset_closes [OF f r refl assms(2)] by blast
  have a1: "after_event sc1 = (True, sc1)" using f r by (intro after_event_ready) (simp_all add: fresh_stream_def)
  have a2: "after_event sc2 = (True, sc2)" using p by (intro after_event_ready) (simp_all add: ready_def)
  have "serve_step w cf (ReadFrameEv False (Inr (MetaHeadersFrame (hdr_of 0 0 i) prio_zero ex_fields False))) sc = Some (True, sc1)"
    "serve_step w cf (ReadFrameEv False (Inr (InFrame (RSTStreamFrame (hdr_of 4 0 i) 8)))) sc1 = Some (True, sc2)"
    using 1 2 a1 a2 by (simp_all del: processFrame.simps add: serve_step_def processFrameFromReader_def)
  then show ?thesis using p by (intro exI [of _ sc2]) (simp add: abort_frames_def)
qed

text \<open>
  C12: Requests that the client aborts at once are not limited. However small the announced limit of concurrent streams, a client that sends \<open>n\<close> requests and a RST_STREAM frame after each makes the
  server start \<open>n\<close> handlers; no stream counts as open afterwards, the server queues no frame of its own, and the connection goes on.
\<close>

theorem aborted_requests_unlimited:
  assumes "ready 0 sc" and "2 * n < 2 ^ 31"
  shows "\<exists>sc1. serve_run w cf (concat (map (\<lambda>k. abort_frames (of_nat (2 * k + 1))) [0..<n])) sc = Some (True, sc1) \<and>
    length (sc_handlers sc1) = length (sc_handlers sc) + n \<and> sc_streams sc1 = [] \<and> sc_curClientStreams sc1 = 0 \<and> \<not> sc_inGoAway sc1"
proof -
  have "\<exists>sc1. serve_run w cf (concat (map (\<lambda>k. abort_frames (of_nat (2 * k + 1))) [0..<n]) @ evs) sc = serve_run w cf evs sc1 \<and>
      ready (2 * n - 1) sc1 \<and> length (sc_handlers sc1) = length (sc_handlers sc) + n" for evs
    using assms(2)
  proof (induction n arbitrary: evs)
    case 0
    then show ?case using assms(1) by auto
  next
    case (Suc n)
    let ?i = "of_nat (2 * n + 1) :: uint32"
    have i: "unat ?i = 2 * n + 1" using Suc.prems by (simp only: unsigned_of_nat) (simp add: take_bit_nat_eq_self)
    have odd: "unat ?i mod 2 = 1" "2 * n - 1 < unat ?i" unfolding i by simp_all
    obtain sc1 where 1: "serve_run w cf (concat (map (\<lambda>k. abort_frames (of_nat (2 * k + 1))) [0..<n]) @ abort_frames ?i @ evs) sc = serve_run w cf (abort_frames ?i @ evs) sc1"
      "ready (2 * n - 1) sc1" "length (sc_handlers sc1) = length (sc_handlers sc) + n"
      using Suc.IH [of "abort_frames ?i @ evs"] Suc.prems by auto
    obtain sc2 where "serve_run w cf (abort_frames ?i @ evs) sc1 = serve_run w cf evs sc2" "ready (unat ?i) sc2" "sc_handlers sc2 = sc_handlers sc1 @ [unat ?i]"
      using abort_run [OF 1(2) odd] by blast
    then show ?case using 1 i by (intro exI [of _ sc2]) simp
  qed
  from this [of "[]"] obtain sc1 where "serve_run w cf (concat (map (\<lambda>k. abort_frames (of_nat (2 * k + 1))) [0..<n])) sc = Some (True, sc1)"
    "ready (2 * n - 1) sc1" "length (sc_handlers sc1) = length (sc_handlers sc) + n" by auto
  then show ?thesis by (auto simp: ready_def)
qed

section \<open>Witnesses\<close>

definition ex_open :: "serve_event list" where
  "ex_open = [read_settings, read_headers 1 ex_fields, read_data 1 [1, 2, 3]]"

lemma ex_open_runs:
  "map_option (\<lambda>(k, sc). (k, sc_streams sc, sc_writingFrame sc, sc_inGoAway sc)) (serve ex_world ex_conf ex_open) = Some (True, [1], False, False)"
  by code_simp

theorem serve_loop_books_witness:
  "world_ok ex_world \<and> (\<exists>sc. serve ex_world ex_conf ex_open = Some (True, sc) \<and> sc_streams sc = [1] \<and> unat (sc_curClientStreams sc) = 1 \<and>
     ss_state (sc_objs sc 1) \<noteq> StateClosed \<and> ss_state (sc_objs sc 3) \<in> {StateIdle, StateClosed})"
proof -
  obtain sc where s: "serve ex_world ex_conf ex_open = Some (True, sc)" and st: "sc_streams sc = [1]" using ex_open_runs by auto
  note b = serve_loop_books [OF ex_world_ok s]
  have i: "i \<in> set [1] \<longleftrightarrow> ss_state (sc_objs sc i) \<notin> {StateIdle, StateClosed}" for i using b st by simp
  have "ss_state (sc_objs sc 1) \<noteq> StateClosed" "ss_state (sc_objs sc 3) \<in> {StateIdle, StateClosed}" "unat (sc_curClientStreams sc) = 1"
    using i [of 1] i [of 3] b st by simp_all
  then show ?thesis using ex_world_ok s st by blast
qed

theorem serve_loop_forgets_nothing_witness:
  "world_ok ex_world \<and> (\<exists>sc. serve ex_world ex_conf ex_open = Some (True, sc) \<and> \<not> sc_writingFrame sc \<and> \<not> sc_needsFrameFlush sc \<and> queue_of 0 (sc_ws sc) = [])"
proof -
  obtain sc where s: "serve ex_world ex_conf ex_open = Some (True, sc)" and st: "\<not> sc_writingFrame sc" "\<not> sc_inGoAway sc" using ex_open_runs by auto
  show ?thesis using serve_loop_forgets_nothing [OF ex_world_ok s st(1)] ex_world_ok s st by (intro conjI exI [of _ sc]) auto
qed

lemma ex_ready: "map_option (\<lambda>(k, sc). (ready 0 sc, sc_handlers sc)) (serve ex_world ex_conf [read_settings]) = Some (True, [])"
  by code_simp

theorem aborted_requests_unlimited_witness:
  "\<exists>sc sc1. serve ex_world ex_conf [read_settings] = Some (True, sc) \<and>
     serve_run ex_world ex_conf (concat (map (\<lambda>k. abort_frames (of_nat (2 * k + 1))) [0..<1000])) sc = Some (True, sc1) \<and>
     length (sc_handlers sc1) = 1000 \<and> sc_curClientStreams sc1 = 0"
proof -
  obtain k sc where s: "serve ex_world ex_conf [read_settings] = Some (k, sc)" "ready 0 sc" "sc_handlers sc = []" using ex_ready by auto
  have lt: "2 * 1000 < (2 :: nat) ^ 31" by simp
  have "map_option fst (serve ex_world ex_conf [read_settings]) = Some True" by code_simp
  then have k: "k" using s(1) by simp
  obtain sc1 where "serve_run ex_world ex_conf (concat (map (\<lambda>k. abort_frames (of_nat (2 * k + 1))) [0..<1000])) sc = Some (True, sc1)"
      "length (sc_handlers sc1) = length (sc_handlers sc) + 1000" "sc_curClientStreams sc1 = 0"
    using aborted_requests_unlimited [OF s(2) lt, of ex_world ex_conf] by blast
  moreover have "length (sc_handlers sc1) = 1000" using calculation(2) s(3) by simp
  moreover have "serve ex_world ex_conf [read_settings] = Some (True, sc)" using s(1) k by simp
  ultimately show ?thesis by blast
qed

section \<open>Panics\<close>

definition ex_upload :: "serve_event list" where
  "ex_upload = ex_open @ [read_reset 1]"

text \<open>
  A connection window that is returned twice. When a stream is reset, \<open>closeStream\<close> returns the unread bytes of its body to the window of the connection; the bytes stay readable, and \<open>noteBodyRead\<close> returns them again.
  With the largest window that can be configured the second time panics.
\<close>

lemma aborted_upload_readable:
  "map_option (\<lambda>(k, sc). map_option (\<lambda>(r, msgs, _). (r, msgs)) (requestBody_Read 1 10 sc)) (serve ex_world ex_conf ex_upload) = Some (Some (Data [1, 2, 3], [BodyRead 1 3]))"
  by code_simp

lemma aborted_upload_credited_twice:
  "map_option (\<lambda>(k, sc). fl_n (sc_fs sc (inflow_addr 0))) (serve ex_world ex_conf (ex_upload @ [BodyRead 1 3])) = Some (initialConnRecvWindowSize ex_conf + 3)"
  by code_simp

lemma aborted_upload_panics:
  "serve ex_world (ex_conf\<lparr> cf_MaxUploadBufferPerConnection := 2147483647 \<rparr>) (ex_upload @ [BodyRead 1 3]) = None"
  by code_simp

text \<open>A request with an empty name in its Trailer field makes \<open>processHeaders\<close> panic on the serve goroutine.\<close>

lemma trailer_field_panics:
  "serve ex_world ex_conf [read_settings, read_headers 1 (ex_fields @ [(''trailer'', '','')])] = None"
  by code_simp

text \<open>
  The RST_STREAM frame of a handler that has panicked, written on a goroutine of its own because the buffer is full, while the client resets the same stream: when the write is done \<open>wroteFrame\<close> closes the stream a
  second time and panics.
\<close>

definition full_world :: world where
  "full_world = ex_world\<lparr> w_avail := (\<lambda>_. 0) \<rparr>"

lemma panic_reset_race:
  "serve full_world ex_conf [WroteFrame, WroteFrame, WroteFrame, read_settings, WroteFrame, WroteFrame, read_headers 1 ex_fields,
     WantWrite 1 (WriteHandlerPanicRST 1) None, ReadFrameEv False (Inr (InFrame (RSTStreamFrame (hdr_of 4 0 1) 8))), WroteFrame] = None"
  by code_simp

text \<open>A stream reset stays behind data that the windows do not allow: the queue of a stream is popped in order.\<close>

lemma reset_waits_behind_data:
  "map_option (\<lambda>(k, sc). (map wr_write (queue_of 1 (sc_ws sc)), sc_writingFrame sc))
     (serve ex_world ex_conf [ReadFrameEv True (Inr (InFrame (SettingsFrame (hdr_of 6 0 0) [0, 4, 0, 0, 0, 0]))), read_headers 1 ex_fields,
        WantWrite 1 (WriteData 1 [7] True) (Some 1), ReadFrameEv True (Inl (StreamErr 1 ErrCodeProtocol))]) =
   Some ([Some (WriteData 1 [7] True), Some (WriteStreamError 1 ErrCodeProtocol)], False)"
  by code_simp

end
