(* ===== verification/Route_Tree.thy ===== *)
theory Route_Tree
  imports Prelude
begin

text \<open>
  \<^verbatim>\<open>web/router/tree.go\<close>: the radix tree of the routes of one HTTP method, and how a route is added. The tree is a value; the
  pointer of a node to its parent, which \<open>insert\<close> keeps equal to the node above it, is the path from the root that the search keeps in
  \<open>Route_Find\<close>. A panic is \<open>None\<close>. Handlers are of any type \<open>'h\<close>; a nil chain is \<open>None\<close>.

  In the tree a parameter of a route is the single byte \<open>:\<close> and a catch-all the byte \<open>*\<close>: the names are stripped from the path
  while it is inserted and kept in the node at its end. The stripped path is the key of the route.
\<close>

section \<open>The tree\<close>

datatype node_kind = skind | pkind | akind

datatype 'h rnode = RNode
  (rn_kind: node_kind)
  (rn_label: char)
  (rn_prefix: string)
  (rn_children: "'h rnode list")
  (rn_ppath: string)
  (rn_pnames: "string list")
  (rn_handlers: "'h list option")
  (rn_param: "'h rnode option")
  (rn_any: "'h rnode option")
  (rn_isLeaf: bool)

definition empty_node :: "'h rnode" where
  "empty_node = RNode skind (CHR 0x00) [] [] [] [] None None None False"

definition leaf_flag :: "'h rnode list \<Rightarrow> 'h rnode option \<Rightarrow> 'h rnode option \<Rightarrow> bool" where
  "leaf_flag cs pc ac \<longleftrightarrow> cs = [] \<and> pc = None \<and> ac = None"

definition newRouteNode :: "node_kind \<Rightarrow> string \<Rightarrow> 'h rnode list \<Rightarrow> 'h list option \<Rightarrow> string \<Rightarrow> string list \<Rightarrow>
    'h rnode option \<Rightarrow> 'h rnode option \<Rightarrow> 'h rnode" where
  "newRouteNode t pre child mh ppath pnames pc ac = RNode t (hd pre) pre child ppath pnames mh pc ac (leaf_flag child pc ac)"

fun find_label :: "char \<Rightarrow> 'h rnode list \<Rightarrow> 'h rnode option" where
  "find_label l [] = None"
| "find_label l (c # cs) = (if rn_label c = l then Some c else find_label l cs)"

definition findChild :: "'h rnode \<Rightarrow> char \<Rightarrow> 'h rnode option" where
  "findChild n l = find_label l (rn_children n)"

definition findChildWithLabel :: "'h rnode \<Rightarrow> char \<Rightarrow> 'h rnode option" where
  "findChildWithLabel n l =
     (case find_label l (rn_children n) of
        Some c \<Rightarrow> Some c
      | None \<Rightarrow> if l = CHR '':'' then rn_param n else if l = CHR ''*'' then rn_any n else None)"

section \<open>Valid paths\<close>

definition check_param :: "string \<Rightarrow> nat \<Rightarrow> bool" where
  "check_param path i \<longleftrightarrow>
     \<not> (i < length path - 1 \<and> path ! (i + 1) = CHR ''/'' \<or> i = length path - 1) \<and>
     list_all (\<lambda>c. c \<noteq> CHR '':'' \<and> c \<noteq> CHR ''*'') (takeWhile (\<lambda>c. c \<noteq> CHR ''/'') (drop (i + 1) path))"

definition check_any :: "string \<Rightarrow> nat \<Rightarrow> bool" where
  "check_any path i \<longleftrightarrow>
     i \<noteq> length path - 1 \<and> \<not> (i > 0 \<and> path ! (i - 1) \<noteq> CHR ''/'') \<and>
     list_all (\<lambda>c. c \<noteq> CHR ''/'') (drop i path)"

text \<open>\<open>False\<close> where the code panics.\<close>

definition checkPathValid :: "string \<Rightarrow> bool" where
  "checkPathValid path \<longleftrightarrow> path \<noteq> [] \<and> path ! 0 = CHR ''/'' \<and>
     list_all (\<lambda>i. (path ! i = CHR '':'' \<longrightarrow> check_param path i) \<and> (path ! i = CHR ''*'' \<longrightarrow> check_any path i)) [0..<length path]"

section \<open>Inserting a key\<close>

fun lcp :: "string \<Rightarrow> string \<Rightarrow> nat" where
  "lcp (a # s) (b # p) = (if a = b then Suc (lcp s p) else 0)"
| "lcp _ _ = 0"

lemma lcp_le: "lcp s p \<le> length s" "lcp s p \<le> length p"
  by (induction s p rule: lcp.induct) auto

text \<open>Replacing the child with a label by its new version.\<close>

fun put_label :: "char \<Rightarrow> 'h rnode \<Rightarrow> 'h rnode list \<Rightarrow> 'h rnode list" where
  "put_label l c' [] = []"
| "put_label l c' (c # cs) = (if rn_label c = l then c' # cs else c # put_label l c' cs)"

definition put_child :: "'h rnode \<Rightarrow> char \<Rightarrow> 'h rnode \<Rightarrow> 'h rnode" where
  "put_child n l c =
     (case n of RNode k lb pre cs pp pn h pc ac lf \<Rightarrow>
        if find_label l cs \<noteq> None then RNode k lb pre (put_label l c cs) pp pn h pc ac lf
        else if l = CHR '':'' then RNode k lb pre cs pp pn h (Some c) ac lf
        else RNode k lb pre cs pp pn h pc (Some c) lf)"

definition at_root :: "'h rnode \<Rightarrow> string \<Rightarrow> 'h list option \<Rightarrow> node_kind \<Rightarrow> string \<Rightarrow> string list \<Rightarrow> 'h rnode" where
  "at_root n search h t ppath pnames =
     (case n of RNode k lb pre cs pp pn h0 pc ac lf \<Rightarrow>
        if h \<noteq> None then RNode t (hd search) search cs ppath pnames h pc ac (leaf_flag cs pc ac)
        else RNode k (hd search) search cs pp pn h0 pc ac (leaf_flag cs pc ac))"

definition split_node :: "'h rnode \<Rightarrow> nat \<Rightarrow> string \<Rightarrow> 'h list option \<Rightarrow> node_kind \<Rightarrow> string \<Rightarrow> string list \<Rightarrow> 'h rnode" where
  "split_node n l search h t ppath pnames =
     (case n of RNode k lb pre cs pp pn h0 pc ac lf \<Rightarrow>
        let m = newRouteNode k (drop l pre) cs h0 pp pn pc ac in
        if l = length search then RNode t (hd pre) (take l pre) [m] ppath pnames h None None False
        else RNode skind (hd pre) (take l pre) [m, newRouteNode t (drop l search) [] h ppath pnames None None] [] [] None None None False)"

definition add_child :: "'h rnode \<Rightarrow> string \<Rightarrow> 'h list option \<Rightarrow> node_kind \<Rightarrow> string \<Rightarrow> string list \<Rightarrow> 'h rnode" where
  "add_child n search h t ppath pnames =
     (case n of RNode k lb pre cs pp pn h0 pc ac lf \<Rightarrow>
        let m = newRouteNode t search [] h ppath pnames None None in
        (case t of
           skind \<Rightarrow> RNode k lb pre (cs @ [m]) pp pn h0 pc ac (leaf_flag (cs @ [m]) pc ac)
         | pkind \<Rightarrow> RNode k lb pre cs pp pn h0 (Some m) ac (leaf_flag cs (Some m) ac)
         | akind \<Rightarrow> RNode k lb pre cs pp pn h0 pc (Some m) (leaf_flag cs pc (Some m))))"

definition at_existing :: "'h rnode \<Rightarrow> 'h list option \<Rightarrow> string \<Rightarrow> string list \<Rightarrow> 'h rnode option" where
  "at_existing n h ppath pnames =
     (case n of RNode k lb pre cs pp pn h0 pc ac lf \<Rightarrow>
        if h0 \<noteq> None \<and> h \<noteq> None then None
        else if h \<noteq> None then Some (RNode k lb pre cs ppath pnames h pc ac lf)
        else Some n)"

text \<open>
  The loop of \<open>insert\<close> from a node on. Reading the first byte of an empty search panics.
\<close>

function insert_at :: "'h rnode \<Rightarrow> string \<Rightarrow> 'h list option \<Rightarrow> node_kind \<Rightarrow> string \<Rightarrow> string list \<Rightarrow> 'h rnode option" where
  "insert_at n search h t ppath pnames =
     (let l = lcp search (rn_prefix n) in
      if l = 0 then (if search = [] then None else Some (at_root n search h t ppath pnames))
      else if l < length (rn_prefix n) then Some (split_node n l search h t ppath pnames)
      else if l < length search then
        (let rest = drop l search in
         case findChildWithLabel n (hd rest) of
           Some c \<Rightarrow> map_option (put_child n (hd rest)) (insert_at c rest h t ppath pnames)
         | None \<Rightarrow> Some (add_child n rest h t ppath pnames))
      else at_existing n h ppath pnames)"
  by pat_completeness auto
termination by (relation "measure (\<lambda>(n, search, _). length search)") auto

declare insert_at.simps [simp del]

section \<open>Adding a route\<close>

function addRoute_loop :: "'h rnode \<Rightarrow> string \<Rightarrow> string \<Rightarrow> 'h list option \<Rightarrow> nat \<Rightarrow> string list \<Rightarrow> 'h rnode option" where
  "addRoute_loop r path ppath h i pnames =
     (if i < length path then
        if path ! i = CHR '':'' then
          (let j = i + 1;
               i2 = i + length (takeWhile (\<lambda>c. c \<noteq> CHR ''/'') (drop i path));
               pnames1 = pnames @ [drop j (take i2 path)];
               path1 = take j path @ drop i2 path
           in case insert_at r (take i path) None skind [] [] of
                None \<Rightarrow> None
              | Some r1 \<Rightarrow>
                  if j = length path1 then insert_at r1 (take j path1) h pkind ppath pnames1
                  else (case insert_at r1 (take j path1) None pkind [] pnames1 of
                          None \<Rightarrow> None
                        | Some r2 \<Rightarrow> addRoute_loop r2 path1 ppath h (j + 1) pnames1))
        else if path ! i = CHR ''*'' then
          (case insert_at r (take i path) None skind [] [] of
             None \<Rightarrow> None
           | Some r1 \<Rightarrow> insert_at r1 (take (i + 1) path) h akind ppath (pnames @ [drop (i + 1) path]))
        else addRoute_loop r path ppath h (i + 1) pnames
      else insert_at r path h skind ppath pnames)"
  by pat_completeness auto
termination
  by (relation "measure (\<lambda>(r, path, ppath, h, i, pnames). length path - i)") auto

declare addRoute_loop.simps [simp del]

definition addRoute :: "string \<Rightarrow> 'h list option \<Rightarrow> 'h rnode \<Rightarrow> 'h rnode option" where
  "addRoute path h r =
     (if \<not> checkPathValid path then None
      else if h = None then None
      else addRoute_loop r path path h 0 [])"

section \<open>Routes of a tree\<close>

definition nowild :: "string \<Rightarrow> bool" where
  "nowild s \<longleftrightarrow> CHR '':'' \<notin> set s \<and> CHR ''*'' \<notin> set s"

definition wild :: "string \<Rightarrow> nat" where
  "wild s = length (filter (\<lambda>c. c = CHR '':'' \<or> c = CHR ''*'') s)"

lemma nowild_simps [simp]: "nowild []" "nowild (c # s) \<longleftrightarrow> c \<noteq> CHR '':'' \<and> c \<noteq> CHR ''*'' \<and> nowild s"
  "nowild (s @ t) \<longleftrightarrow> nowild s \<and> nowild t"
  by (auto simp: nowild_def)

lemma nowild_take_drop: "nowild s \<Longrightarrow> nowild (take l s)" "nowild s \<Longrightarrow> nowild (drop l s)"
  by (auto simp: nowild_def dest: in_set_takeD in_set_dropD)

lemma wild_simps [simp]: "wild [] = 0" "wild (s @ t) = wild s + wild t" "nowild s \<Longrightarrow> wild s = 0"
  "wild '':'' = 1" "wild ''*'' = 1"
  by (auto simp: wild_def nowild_def filter_empty_conv)

type_synonym 'h route_info = "'h list \<times> string \<times> string list"

definition node_info :: "'h rnode \<Rightarrow> 'h route_info option" where
  "node_info n = map_option (\<lambda>hs. (hs, rn_ppath n, rn_pnames n)) (rn_handlers n)"

text \<open>The node that a key leads to, and the route stored there.\<close>

function node_at :: "'h rnode \<Rightarrow> string \<Rightarrow> 'h rnode option" where
  "node_at n k =
     (if rn_prefix n \<noteq> [] \<and> take (length (rn_prefix n)) k = rn_prefix n then
        (let r = drop (length (rn_prefix n)) k in
         if r = [] then Some n
         else case findChildWithLabel n (hd r) of None \<Rightarrow> None | Some c \<Rightarrow> node_at c r)
      else None)"
  by pat_completeness auto
termination
  by (relation "measure (\<lambda>(n, k). length k)") (auto intro!: diff_less)

declare node_at.simps [simp del]

definition route_at :: "'h rnode \<Rightarrow> string \<Rightarrow> 'h route_info option" where
  "route_at n k = Option.bind (node_at n k) node_info"

lemma route_at_eq:
  "route_at n k =
     (if rn_prefix n \<noteq> [] \<and> take (length (rn_prefix n)) k = rn_prefix n then
        (let r = drop (length (rn_prefix n)) k in
         if r = [] then node_info n
         else case findChildWithLabel n (hd r) of None \<Rightarrow> None | Some c \<Rightarrow> route_at c r)
      else None)"
  by (simp add: route_at_def node_at.simps [of n k] Let_def split: option.splits)

text \<open>
  Well-formed trees. \<open>d\<close> is the number of wildcards on the way to the node, its own included: static nodes have no wildcard in their
  prefix, below a parameter a static node starts with a slash, a catch-all has no children, children have different labels, and a
  route has as many names as wildcards.
\<close>

fun tree_ok :: "nat \<Rightarrow> 'h rnode \<Rightarrow> bool" where
  "tree_ok d (RNode k lb pre cs pp pn h pc ac lf) =
     (pre \<noteq> [] \<and> lb = hd pre \<and> (h \<noteq> None \<longrightarrow> length pn = d) \<and>
      (k = skind \<longrightarrow> nowild pre) \<and>
      (k = pkind \<longrightarrow> pre = '':'' \<and> pc = None \<and> ac = None \<and> (\<forall>c \<in> set cs. rn_label c = CHR ''/'')) \<and>
      (k = akind \<longrightarrow> pre = ''*'' \<and> cs = [] \<and> pc = None \<and> ac = None \<and> h \<noteq> None) \<and>
      distinct (map rn_label cs) \<and> (\<forall>c \<in> set cs. rn_kind c = skind \<and> tree_ok d c) \<and>
      (case pc of None \<Rightarrow> True | Some c \<Rightarrow> rn_kind c = pkind \<and> tree_ok (Suc d) c) \<and>
      (case ac of None \<Rightarrow> True | Some c \<Rightarrow> rn_kind c = akind \<and> tree_ok (Suc d) c))"

lemma tree_okD:
  assumes "tree_ok d n"
  shows "rn_prefix n \<noteq> []" "rn_label n = hd (rn_prefix n)" "rn_handlers n \<noteq> None \<Longrightarrow> length (rn_pnames n) = d"
    "rn_kind n = skind \<Longrightarrow> nowild (rn_prefix n)" "rn_kind n = pkind \<Longrightarrow> rn_prefix n = '':''"
    "rn_kind n = akind \<Longrightarrow> rn_prefix n = ''*'' \<and> rn_children n = [] \<and> rn_param n = None \<and> rn_any n = None \<and> rn_handlers n \<noteq> None"
    "rn_kind n = pkind \<Longrightarrow> rn_param n = None \<and> rn_any n = None \<and> (\<forall>c \<in> set (rn_children n). rn_label c = CHR ''/'')"
    "c \<in> set (rn_children n) \<Longrightarrow> rn_kind c = skind \<and> tree_ok d c" "distinct (map rn_label (rn_children n))"
    "rn_param n = Some c \<Longrightarrow> rn_kind c = pkind \<and> tree_ok (Suc d) c" "rn_any n = Some c \<Longrightarrow> rn_kind c = akind \<and> tree_ok (Suc d) c"
  using assms by (cases n; auto split: option.splits)+

lemma find_label_Some: "find_label l cs = Some c \<Longrightarrow> c \<in> set cs \<and> rn_label c = l"
  by (induction cs) (auto split: if_splits)

lemma find_label_None: "find_label l cs = None \<longleftrightarrow> l \<notin> rn_label ` set cs"
  by (induction cs) auto

lemma find_label_free: "\<forall>c \<in> set cs. rn_label c \<noteq> l \<Longrightarrow> find_label l cs = None"
  by (induction cs) auto

lemma all_labels: "(\<forall>c \<in> set cs. rn_label c = l) \<longleftrightarrow> list_all (\<lambda>x. x = l) (map rn_label cs)"
  by (simp add: list_all_iff)

lemma static_label: "tree_ok d n \<Longrightarrow> c \<in> set (rn_children n) \<Longrightarrow> rn_label c \<noteq> CHR '':'' \<and> rn_label c \<noteq> CHR ''*''"
  by (metis list.set_sel(1) nowild_def tree_okD(1,2,4,8))

text \<open>The child with a label: a static node for other bytes, the parameter for a colon, the catch-all for a star.\<close>

lemma child_cases:
  assumes "tree_ok d n" "findChildWithLabel n l = Some c"
  shows "rn_label c = l \<and> tree_ok (d + wild (rn_prefix c)) c \<and>
    (if l = CHR '':'' then rn_kind c = pkind \<and> rn_param n = Some c \<and> rn_kind n = skind
     else if l = CHR ''*'' then rn_kind c = akind \<and> rn_any n = Some c \<and> rn_kind n = skind
     else rn_kind c = skind \<and> c \<in> set (rn_children n) \<and> (rn_kind n = pkind \<longrightarrow> l = CHR ''/'') \<and> rn_kind n \<noteq> akind)"
proof (cases "find_label l (rn_children n)")
  case (Some c')
  then have "c' = c" "c \<in> set (rn_children n)" "rn_label c = l" using assms(2) find_label_Some by (auto simp: findChildWithLabel_def)
  moreover have "rn_kind n \<noteq> akind" using tree_okD(6) [OF assms(1)] \<open>c \<in> set (rn_children n)\<close> by auto
  ultimately show ?thesis using static_label [OF assms(1), of c] tree_okD(8) [OF assms(1)] tree_okD(7) [OF assms(1)]
      tree_okD(4) [of d c] by auto
next
  case None
  then consider (p) "l = CHR '':''" "rn_param n = Some c" | (a) "l = CHR ''*''" "rn_any n = Some c"
    using assms(2) by (auto simp: findChildWithLabel_def split: if_splits)
  then show ?thesis
  proof cases
    case p
    then have c: "rn_kind c = pkind" "tree_ok (Suc d) c" using tree_okD(10) [OF assms(1)] by auto
    moreover have "rn_kind n = skind" using p tree_okD(6,7) [OF assms(1)] by (cases "rn_kind n") auto
    ultimately show ?thesis using p tree_okD(2) [OF c(2)] tree_okD(5) [OF c(2)] by simp
  next
    case a
    then have c: "rn_kind c = akind" "tree_ok (Suc d) c" using tree_okD(11) [OF assms(1)] by auto
    moreover have "rn_kind n = skind" using a tree_okD(6,7) [OF assms(1)] by (cases "rn_kind n") auto
    ultimately show ?thesis using a tree_okD(2) [OF c(2)] tree_okD(6) [OF c(2)] by simp
  qed
qed

section \<open>Changing a node\<close>

lemma find_put_label: "find_label l cs \<noteq> None \<Longrightarrow> rn_label c = l \<Longrightarrow> find_label l' (put_label l c cs) = (if l' = l then Some c else find_label l' cs)"
  by (induction cs) auto

lemma find_label_append: "find_label l (cs @ ds) = (case find_label l cs of Some c \<Rightarrow> Some c | None \<Rightarrow> find_label l ds)"
  by (induction cs) auto

lemma put_child_sel [simp]:
  "rn_prefix (put_child n l c) = rn_prefix n" "rn_kind (put_child n l c) = rn_kind n" "rn_label (put_child n l c) = rn_label n"
  "rn_handlers (put_child n l c) = rn_handlers n" "rn_pnames (put_child n l c) = rn_pnames n" "rn_ppath (put_child n l c) = rn_ppath n"
  by (cases n; simp add: put_child_def)+

lemma add_child_sel [simp]:
  "rn_prefix (add_child n s h t pp pn) = rn_prefix n" "rn_kind (add_child n s h t pp pn) = rn_kind n" "rn_label (add_child n s h t pp pn) = rn_label n"
  "rn_handlers (add_child n s h t pp pn) = rn_handlers n" "rn_pnames (add_child n s h t pp pn) = rn_pnames n" "rn_ppath (add_child n s h t pp pn) = rn_ppath n"
  by (cases n; cases t; simp add: add_child_def Let_def)+

lemma child_put_child:
  assumes "findChildWithLabel n l = Some c0" "rn_label c = l" "l = CHR '':'' \<or> l = CHR ''*'' \<or> find_label l (rn_children n) \<noteq> None"
    "tree_ok d n"
  shows "findChildWithLabel (put_child n l c) l' = (if l' = l then Some c else findChildWithLabel n l')"
proof -
  have w: "find_label (CHR '':'') (rn_children n) = None" "find_label (CHR ''*'') (rn_children n) = None"
    using static_label [OF assms(4)] by (simp_all add: find_label_free)
  obtain k lb pre cs pp pn h pc ac lf where n: "n = RNode k lb pre cs pp pn h pc ac lf" by (cases n)
  show ?thesis
  proof (cases "find_label l cs = None")
    case True
    then consider "l = CHR '':''" | "l = CHR ''*''" using assms(3) n by auto
    then show ?thesis
      by cases (use True w in \<open>simp_all add: n put_child_def findChildWithLabel_def split: option.split\<close>)
  next
    case False
    then show ?thesis using find_put_label [OF False assms(2)] by (simp add: n put_child_def findChildWithLabel_def split: option.split)
  qed
qed

lemma put_child_ok:
  assumes "tree_ok d n" "findChildWithLabel n l = Some c0" "rn_label c = l" "rn_kind c = rn_kind c0" "tree_ok (d + wild (rn_prefix c0)) c"
  shows "tree_ok d (put_child n l c)"
proof -
  note cc = child_cases [OF assms(1,2)]
  have set: "set (put_label l c cs) \<subseteq> insert c (set cs)" for cs by (induction cs) auto
  have lab: "map rn_label (put_label l c cs) = map rn_label cs" for cs using assms(3) by (induction cs) auto
  show ?thesis
  proof (cases "find_label l (rn_children n)")
    case None
    then show ?thesis using assms cc tree_okD(5,6) [of "d + wild (rn_prefix c0)" c0] tree_okD(5,6) [OF assms(5)]
      by (cases n) (auto simp: put_child_def findChildWithLabel_def split: if_splits option.splits)
  next
    case (Some c1)
    then have c1: "c1 = c0" using assms(2) by (simp add: findChildWithLabel_def)
    then have k: "rn_kind c0 = skind" using Some find_label_Some tree_okD(8) [OF assms(1)] by metis
    moreover have "tree_ok (d + wild (rn_prefix c0)) c0" using cc by simp
    ultimately have "wild (rn_prefix c0) = 0" by (blast intro: wild_simps(3) tree_okD(4))
    then have c: "rn_kind c = skind" "tree_ok d c" using assms(4,5) k by auto
    have "\<forall>x \<in> set (put_label l c (rn_children n)). rn_kind x = skind \<and> tree_ok d x"
      using set [of "rn_children n"] c tree_okD(8) [OF assms(1)] by blast
    moreover have "(\<forall>x \<in> set (put_label l c (rn_children n)). rn_label x = CHR ''/'') \<longleftrightarrow> (\<forall>x \<in> set (rn_children n). rn_label x = CHR ''/'')"
      unfolding all_labels lab ..
    moreover have "rn_children n = [] \<longleftrightarrow> put_label l c (rn_children n) = []" by (cases "rn_children n") simp_all
    ultimately show ?thesis
      using assms(1) Some lab [of "rn_children n"] by (cases n) (simp add: put_child_def)
  qed
qed

section \<open>Keys that fit a tree\<close>

definition fits_new :: "node_kind \<Rightarrow> 'h rnode \<Rightarrow> string \<Rightarrow> bool" where
  "fits_new t n rest \<longleftrightarrow> rn_kind n \<noteq> akind \<and>
     (case t of skind \<Rightarrow> nowild rest \<and> (rn_kind n = pkind \<longrightarrow> hd rest = CHR ''/'')
              | pkind \<Rightarrow> rest = '':'' \<and> rn_kind n = skind
              | akind \<Rightarrow> rest = ''*'' \<and> rn_kind n = skind)"

text \<open>
  Inserting a key keeps the tree well formed when the key fits: only static nodes are split, a parameter and a catch-all are added
  below a static node as a node of their own, and what is added below a parameter starts with a slash.
\<close>

function fits :: "node_kind \<Rightarrow> 'h rnode \<Rightarrow> string \<Rightarrow> bool" where
  "fits t n s =
     (let l = lcp s (rn_prefix n) in
      if l = 0 then False
      else if l < length (rn_prefix n) then rn_kind n = skind \<and> t = skind \<and> nowild (drop l s)
      else if l < length s then
        (case findChildWithLabel n (hd (drop l s)) of
           Some c \<Rightarrow> fits t c (drop l s)
         | None \<Rightarrow> fits_new t n (drop l s))
      else True)"
  by pat_completeness auto
termination by (relation "measure (\<lambda>(t, n, s). length s)") auto

declare fits.simps [simp del]

lemma lcp_split: "take (lcp s p) s = take (lcp s p) p"
  "lcp s p < length s \<Longrightarrow> lcp s p < length p \<Longrightarrow> s ! lcp s p \<noteq> p ! lcp s p"
  by (induction s p rule: lcp.induct) auto

lemma lcp_append [simp]: "lcp (p @ r) p = length p"
  by (induction p) (cases r; simp)+

lemma lcp_self [simp]: "lcp p p = length p"
  using lcp_append [of p "[]"] by simp

lemma lcp_full: "lcp s p = length p \<Longrightarrow> s = p @ drop (length p) s"
  by (metis append_take_drop_id le_refl lcp_split(1) take_all)

lemma route_at_append:
  "rn_prefix n \<noteq> [] \<Longrightarrow> route_at n (rn_prefix n @ r) =
     (if r = [] then node_info n else case findChildWithLabel n (hd r) of None \<Rightarrow> None | Some c \<Rightarrow> route_at c r)"
  by (simp add: route_at_eq [of n "rn_prefix n @ r"])

lemma node_at_append:
  "rn_prefix n \<noteq> [] \<Longrightarrow> node_at n (rn_prefix n @ r) =
     (if r = [] then Some n else case findChildWithLabel n (hd r) of None \<Rightarrow> None | Some c \<Rightarrow> node_at c r)"
  by (simp add: node_at.simps [of n "rn_prefix n @ r"])

lemma route_at_other: "take (length (rn_prefix n)) k \<noteq> rn_prefix n \<Longrightarrow> route_at n k = None"
  by (simp add: route_at_eq [of n k])

lemma route_at_nonempty: "rn_prefix n \<noteq> [] \<Longrightarrow> route_at n [] = None"
  by (simp add: route_at_eq [of n "[]"])

text \<open>Splitting a static node keeps its routes.\<close>

lemma split_sel:
  assumes "l < length (rn_prefix n)" "0 < l"
  shows "rn_prefix (split_node n l s h t pp pn) = take l (rn_prefix n)"
    "rn_label (split_node n l s h t pp pn) = hd (rn_prefix n)"
  by (cases n; simp add: split_node_def Let_def)+

definition lower :: "'h rnode \<Rightarrow> nat \<Rightarrow> 'h rnode" where
  "lower n l = newRouteNode (rn_kind n) (drop l (rn_prefix n)) (rn_children n) (rn_handlers n) (rn_ppath n) (rn_pnames n) (rn_param n) (rn_any n)"

lemma lower_sel [simp]:
  "rn_prefix (lower n l) = drop l (rn_prefix n)" "rn_label (lower n l) = hd (drop l (rn_prefix n))"
  "node_info (lower n l) = node_info n" "findChildWithLabel (lower n l) c = findChildWithLabel n c"
  by (simp_all add: lower_def newRouteNode_def node_info_def findChildWithLabel_def split: option.split)

lemma route_at_lower: "route_at (lower n l) r = (if l < length (rn_prefix n) then route_at n (take l (rn_prefix n) @ r) else None)"
proof (cases "l < length (rn_prefix n)")
  case True
  obtain p q where pq: "rn_prefix n = p @ q" "l = length p" "q \<noteq> []"
    using True by (metis append_take_drop_id drop_eq_Nil length_take less_imp_le_nat min.absorb2 not_le)
  show ?thesis
    unfolding route_at_eq [of "lower n l" r] route_at_eq [of n] lower_sel by (simp add: pq Let_def)
qed (simp add: route_at_eq [of "lower n l" r])

lemma child_split:
  assumes "l < length (rn_prefix n)" "l < length s \<Longrightarrow> hd (drop l s) \<noteq> hd (drop l (rn_prefix n))" "l \<le> length s"
  shows "findChildWithLabel (split_node n l s h t pp pn) c =
    (if c = hd (drop l (rn_prefix n)) then Some (lower n l)
     else if l < length s \<and> c = hd (drop l s) then Some (newRouteNode t (drop l s) [] h pp pn None None) else None)"
  using assms
  by (cases n) (auto simp: split_node_def Let_def findChildWithLabel_def lower_def newRouteNode_def)

lemma newRouteNode_sel [simp]:
  "rn_prefix (newRouteNode t p cs h pp pn pc ac) = p" "rn_label (newRouteNode t p cs h pp pn pc ac) = hd p" "rn_kind (newRouteNode t p cs h pp pn pc ac) = t"
  by (simp_all add: newRouteNode_def)

lemma route_at_leaf:
  "p \<noteq> [] \<Longrightarrow> route_at (newRouteNode t p [] h pp pn None None) k = (if k = p then map_option (\<lambda>hs. (hs, pp, pn)) h else None)"
  by (subst route_at_eq) (auto simp: newRouteNode_def findChildWithLabel_def node_info_def Let_def)

lemma head_differs: "p \<noteq> [] \<Longrightarrow> k \<noteq> [] \<Longrightarrow> hd k \<noteq> hd p \<Longrightarrow> take (length p) k \<noteq> p"
  by (cases p; cases k) auto

lemma split_route:
  assumes l: "l = lcp s (rn_prefix n)" "0 < l" "l < length (rn_prefix n)"
  shows "route_at (split_node n l s h t pp pn) k = (if k = s then map_option (\<lambda>hs. (hs, pp, pn)) h else route_at n k)"
proof (cases "take l k = take l (rn_prefix n)")
  case False
  have "take (length (rn_prefix n)) k \<noteq> rn_prefix n" using False l(3) by (metis min.strict_order_iff take_take)
  moreover have "k \<noteq> s" using False lcp_split(1) l(1) by metis
  ultimately show ?thesis using False l(3) by (simp add: route_at_other split_sel l(2) min_def)
next
  case True
  define q where "q = take l (rn_prefix n)"
  have ls: "l \<le> length s" using lcp_le(1) l(1) by simp
  obtain r where k: "k = q @ r" using True by (metis append_take_drop_id q_def)
  have s: "s = q @ drop l s" using lcp_split(1) [of s "rn_prefix n"] l(1) by (metis append_take_drop_id q_def)
  have q: "rn_prefix (split_node n l s h t pp pn) = q" "q \<noteq> []" using l by (auto simp: split_sel q_def)
  have diff: "hd (drop l s) \<noteq> hd (drop l (rn_prefix n))" if "l < length s"
    using lcp_split(2) [of s "rn_prefix n"] that l by (simp add: hd_drop_conv_nth)
  have eq: "k = s \<longleftrightarrow> r = drop l s" using k s by (metis same_append_eq)
  have lower: "route_at n k = route_at (lower n l) r" using l(3) by (simp add: route_at_lower k q_def)
  have none: "route_at (lower n l) r = None" if "r = [] \<or> hd r \<noteq> hd (drop l (rn_prefix n))"
    using that l(3) head_differs [of "drop l (rn_prefix n)" r] by (cases "r = []") (simp_all add: route_at_nonempty route_at_other)
  show ?thesis
  proof (cases "r = []")
    case True
    then show ?thesis
      using route_at_append [of "split_node n l s h t pp pn" r] q none lower eq ls k
      by (cases n) (simp add: split_node_def Let_def node_info_def)
  next
    case False
    then show ?thesis
      using route_at_append [of "split_node n l s h t pp pn" r] q none lower eq k diff child_split [OF l(3) diff ls]
      by (auto simp: route_at_leaf)
  qed
qed

lemma split_ok:
  assumes "tree_ok d n" "rn_kind n = skind" "nowild (drop l s)" "h \<noteq> None \<longrightarrow> length pn = d"
    "l = lcp s (rn_prefix n)" "0 < l" "l < length (rn_prefix n)"
  shows "tree_ok d (split_node n l s h skind pp pn)" "rn_kind (split_node n l s h skind pp pn) = skind"
proof -
  have diff: "hd (drop l s) \<noteq> hd (drop l (rn_prefix n))" if "l < length s"
    using lcp_split(2) [of s "rn_prefix n"] that assms by (simp add: hd_drop_conv_nth)
  have "l \<le> length s" using lcp_le(1) assms(5) by simp
  moreover have "nowild (rn_prefix n)" using tree_okD(4) assms by blast
  ultimately show "tree_ok d (split_node n l s h skind pp pn)"
    using assms diff nowild_take_drop [of "rn_prefix n" l]
    by (cases n) (auto simp: split_node_def Let_def newRouteNode_def hd_take)
  show "rn_kind (split_node n l s h skind pp pn) = skind" by (cases n) (simp add: split_node_def Let_def)
qed

lemma add_child_child:
  assumes "findChildWithLabel n (hd s) = None" "fits_new t n s" "s \<noteq> []"
  shows "findChildWithLabel (add_child n s h t pp pn) c =
    (if c = hd s then Some (newRouteNode t s [] h pp pn None None) else findChildWithLabel n c)"
  using assms
  by (cases n; cases s; cases t)
    (auto simp: add_child_def Let_def findChildWithLabel_def fits_new_def find_label_append newRouteNode_def split: option.splits if_splits)

lemma add_child_ok:
  assumes "tree_ok d n" "findChildWithLabel n (hd s) = None" "fits_new t n s" "s \<noteq> []" "t = akind \<longrightarrow> h \<noteq> None"
    "h \<noteq> None \<longrightarrow> length pn = d + wild s"
  shows "tree_ok d (add_child n s h t pp pn)"
proof -
  have "hd s \<notin> rn_label ` set (rn_children n)"
    using assms(2) by (auto simp: findChildWithLabel_def simp flip: find_label_None split: option.splits)
  then show ?thesis using assms
    by (cases n; cases t) (auto simp: add_child_def Let_def fits_new_def newRouteNode_def)
qed

section \<open>Insertion\<close>

text \<open>What inserting the key \<open>s\<close> does to a tree.\<close>

definition grows :: "'h rnode \<Rightarrow> string \<Rightarrow> 'h rnode \<Rightarrow> bool" where
  "grows n s n' \<longleftrightarrow> (\<forall>k. node_at n' k \<noteq> None \<longrightarrow> node_at n k \<noteq> None \<or> (\<exists>t. s = k @ t))"

definition inserted :: "nat \<Rightarrow> 'h rnode \<Rightarrow> string \<Rightarrow> 'h list option \<Rightarrow> string \<Rightarrow> string list \<Rightarrow> 'h rnode \<Rightarrow> bool" where
  "inserted d n s h pp pn n' \<longleftrightarrow> tree_ok d n' \<and> rn_kind n' = rn_kind n \<and> rn_label n' = rn_label n \<and> node_at n' s \<noteq> None \<and>
     (\<forall>k. route_at n' k = (if k = s \<and> h \<noteq> None then Some (the h, pp, pn) else route_at n k)) \<and> grows n s n'"

lemma node_at_split: "node_at n k \<noteq> None \<Longrightarrow> \<exists>q. k = rn_prefix n @ q"
  using node_at.simps [of n k] by (metis append_take_drop_id)

lemma node_at_leaf: "node_at (newRouteNode t p [] h pp pn None None) k \<noteq> None \<Longrightarrow> k = p"
  by (subst (asm) node_at.simps) (auto simp: Let_def newRouteNode_def findChildWithLabel_def split: if_splits)

lemma node_at_lower: "l < length (rn_prefix n) \<Longrightarrow> node_at (lower n l) r \<noteq> None \<Longrightarrow> node_at n (take l (rn_prefix n) @ r) \<noteq> None"
proof -
  assume l: "l < length (rn_prefix n)" and at: "node_at (lower n l) r \<noteq> None"
  then obtain q where r: "r = drop l (rn_prefix n) @ q" using node_at_split by fastforce
  have "take l (rn_prefix n) @ r = rn_prefix n @ q" "rn_prefix n \<noteq> []" using l by (auto simp: r simp flip: append_assoc)
  then have "node_at n (take l (rn_prefix n) @ r) = node_at n (rn_prefix n @ q)" by argo
  then show ?thesis using l at \<open>rn_prefix n \<noteq> []\<close> node_at_append [of "lower n l" q] node_at_append [of n q]
    by (simp add: r del: take_append split: if_splits)
qed

lemma lcp_take: "take (length p) s = p \<Longrightarrow> lcp s p = length p"
  by (metis append_take_drop_id lcp_append)

lemma insert_split:
  assumes "tree_ok d n" "rn_kind n = skind" "nowild (drop l s)" "h \<noteq> None \<longrightarrow> length pn = d"
    "l = lcp s (rn_prefix n)" "0 < l" "l < length (rn_prefix n)"
  shows "inserted d n s h pp pn (split_node n l s h skind pp pn)"
proof -
  let ?n = "split_node n l s h skind pp pn"
  have "route_at n s = None" using lcp_take [of "rn_prefix n" s] assms(5,7) by (intro route_at_other) auto
  then have "\<forall>k. route_at ?n k = (if k = s \<and> h \<noteq> None then Some (the h, pp, pn) else route_at n k)"
    using split_route [OF assms(5-7)] by auto
  moreover have "node_at ?n s \<noteq> None"
  proof -
    have s: "s = rn_prefix ?n @ drop l s"
      using lcp_split(1) [of s "rn_prefix n"] assms(5-7) by (metis append_take_drop_id split_sel(1))
    have diff: "hd (drop l s) \<noteq> hd (drop l (rn_prefix n))" if "l < length s"
      using lcp_split(2) [of s "rn_prefix n"] that assms(5-7) by (simp add: hd_drop_conv_nth)
    have ne: "rn_prefix ?n \<noteq> []" using assms(6,7) by (auto simp: split_sel)
    have "l \<le> length s" using lcp_le(1) assms(5) by simp
    then have "node_at ?n (rn_prefix ?n @ drop l s) \<noteq> None"
      unfolding node_at_append [OF ne] using diff child_split [OF assms(7) diff]
      by (auto simp: node_at.simps [of "newRouteNode _ _ _ _ _ _ _ _"])
    then show ?thesis using s by simp
  qed
  moreover have "grows n s ?n"
  proof -
    have s: "s = take l (rn_prefix n) @ drop l s"
      using lcp_split(1) [of s "rn_prefix n"] assms(5) by (metis append_take_drop_id)
    have diff: "hd (drop l s) \<noteq> hd (drop l (rn_prefix n))" if "l < length s"
      using lcp_split(2) [of s "rn_prefix n"] that assms(5-7) by (simp add: hd_drop_conv_nth)
    have ne: "rn_prefix ?n \<noteq> []" using assms(6,7) by (auto simp: split_sel)
    have ls: "l \<le> length s" using lcp_le(1) assms(5) by simp
    have "node_at n (rn_prefix ?n @ q) \<noteq> None \<or> (\<exists>t. s = (rn_prefix ?n @ q) @ t)" if at: "node_at ?n (rn_prefix ?n @ q) \<noteq> None" for q
    proof (cases "q = [] \<or> q = drop l s")
      case True
      then show ?thesis using s split_sel(1) [OF assms(7,6)] by (elim disjE) (metis append.right_neutral)+
    next
      case False
      then have "node_at (lower n l) q \<noteq> None"
        using at node_at_leaf [of skind "drop l s" h pp pn q] child_split [OF assms(7) diff ls]
        by (auto simp: node_at_append [OF ne] split: if_splits)
      then show ?thesis using node_at_lower [OF assms(7)] split_sel(1) [OF assms(7,6)] by metis
    qed
    then show ?thesis unfolding grows_def using node_at_split by metis
  qed
  ultimately show ?thesis
    using split_ok [OF assms(1-7)] assms(1,2,6,7) tree_okD(2) [OF assms(1)] by (simp add: inserted_def split_sel)
qed

lemma insert_add:
  assumes "tree_ok d n" "findChildWithLabel n (hd r) = None" "fits_new t n r" "r \<noteq> []" "t = akind \<longrightarrow> h \<noteq> None"
    "h \<noteq> None \<longrightarrow> length pn = d + wild r"
  shows "inserted d n (rn_prefix n @ r) h pp pn (add_child n r h t pp pn)"
proof -
  let ?n = "add_child n r h t pp pn"
  have ne: "rn_prefix n \<noteq> []" "rn_prefix ?n \<noteq> []" using tree_okD(1) [OF assms(1)] by auto
  note child = add_child_child [OF assms(2-4)]
  have "node_at ?n (rn_prefix ?n @ r) \<noteq> None"
    unfolding node_at_append [OF ne(2)] child using assms(4) by (simp add: node_at.simps [of "newRouteNode _ _ _ _ _ _ _ _"])
  moreover have "route_at ?n k = (if k = rn_prefix n @ r \<and> h \<noteq> None then Some (the h, pp, pn) else route_at n k)" for k
  proof (cases "take (length (rn_prefix n)) k = rn_prefix n")
    case False
    then show ?thesis by (auto simp: route_at_other)
  next
    case True
    then obtain q where k: "k = rn_prefix n @ q" by (metis append_take_drop_id)
    have "node_info ?n = node_info n" by (simp add: node_info_def)
    then show ?thesis
      using route_at_append [OF ne(1), of q] route_at_append [OF ne(2), of q] child [of h pp pn "hd q"] assms(2,4)
      by (auto simp: k route_at_leaf)
  qed
  moreover have "grows n (rn_prefix n @ r) ?n"
  proof -
    have "node_at n (rn_prefix n @ q) \<noteq> None \<or> q = r" if at: "node_at ?n (rn_prefix ?n @ q) \<noteq> None" for q
      using at node_at_leaf [of t r h pp pn q]
      by (auto simp: node_at_append [OF ne(1)] node_at_append [OF ne(2)] child simp del: add_child_sel split: if_splits option.splits)
    then show ?thesis unfolding grows_def using node_at_split [of ?n] by (metis add_child_sel(1) append_Nil2)
  qed
  ultimately show ?thesis using add_child_ok [OF assms] by (simp add: inserted_def)
qed

lemma insert_existing:
  assumes "tree_ok d n" "h \<noteq> None \<longrightarrow> length pn = d" "h = None \<or> rn_handlers n = None"
  shows "\<exists>n'. at_existing n h pp pn = Some n' \<and> inserted d n (rn_prefix n) h pp pn n'"
proof -
  obtain k lb pre cs pp0 pn0 h0 pc ac lf where n: "n = RNode k lb pre cs pp0 pn0 h0 pc ac lf" by (cases n)
  define n' where "n' = (if h \<noteq> None then RNode k lb pre cs pp pn h pc ac lf else n)"
  have ne: "rn_prefix n \<noteq> []" "rn_prefix n' = rn_prefix n" using tree_okD(1) [OF assms(1)] by (auto simp: n'_def n)
  have "at_existing n h pp pn = Some n'" using assms(3) by (auto simp: at_existing_def n n'_def)
  moreover have "tree_ok d n'" using assms(1,2) by (auto simp: n'_def n)
  moreover have child: "findChildWithLabel n' c = findChildWithLabel n c" for c
    by (auto simp: n'_def n findChildWithLabel_def split: option.split)
  have "route_at n' k = (if k = rn_prefix n \<and> h \<noteq> None then Some (the h, pp, pn) else route_at n k)" for k
  proof (cases "take (length (rn_prefix n)) k = rn_prefix n")
    case False
    then show ?thesis using ne by (auto simp: route_at_other)
  next
    case True
    then obtain q where k: "k = rn_prefix n @ q" by (metis append_take_drop_id)
    then show ?thesis
      using route_at_append [OF ne(1), of q] route_at_append [of n' q] ne child
      by (auto simp: node_info_def n'_def n)
  qed
  moreover have "node_at n' (rn_prefix n) \<noteq> None" using node_at_append [of n' "[]"] ne by simp
  moreover have "grows n (rn_prefix n) n'"
    unfolding grows_def
  proof (intro allI impI)
    fix k assume at: "node_at n' k \<noteq> None"
    obtain q where k: "k = rn_prefix n @ q" using node_at_split [OF at] ne(2) by auto
    then show "node_at n k \<noteq> None \<or> (\<exists>t. rn_prefix n = k @ t)"
      using at node_at_append [OF ne(1), of q] node_at_append [of n' q] ne child by auto
  qed
  moreover have "rn_kind n' = rn_kind n" "rn_label n' = rn_label n" by (auto simp: n'_def n)
  ultimately show ?thesis by (auto simp: inserted_def)
qed

lemma insert_put:
  assumes "tree_ok d n" "findChildWithLabel n (hd r) = Some c" "r \<noteq> []" "inserted (d + wild (rn_prefix c)) c r h pp pn c'"
  shows "inserted d n (rn_prefix n @ r) h pp pn (put_child n (hd r) c')"
proof -
  let ?n = "put_child n (hd r) c'"
  have ne: "rn_prefix n \<noteq> []" "rn_prefix ?n \<noteq> []" using tree_okD(1) [OF assms(1)] by auto
  note cc = child_cases [OF assms(1,2)]
  have c': "rn_label c' = hd r" "rn_kind c' = rn_kind c" "tree_ok (d + wild (rn_prefix c)) c'" "node_at c' r \<noteq> None" "grows c r c'"
    "\<And>k. route_at c' k = (if k = r \<and> h \<noteq> None then Some (the h, pp, pn) else route_at c k)"
    using assms(4) cc by (auto simp: inserted_def)
  have "hd r = CHR '':'' \<or> hd r = CHR ''*'' \<or> find_label (hd r) (rn_children n) \<noteq> None"
    using assms(2) by (auto simp: findChildWithLabel_def split: option.splits if_splits)
  note child = child_put_child [OF assms(2) c'(1) this assms(1)]
  have "node_at ?n (rn_prefix ?n @ r) \<noteq> None"
    unfolding node_at_append [OF ne(2)] child using assms(3) c'(4) by simp
  moreover have "route_at ?n k = (if k = rn_prefix n @ r \<and> h \<noteq> None then Some (the h, pp, pn) else route_at n k)" for k
  proof (cases "take (length (rn_prefix n)) k = rn_prefix n")
    case False
    then show ?thesis by (auto simp: route_at_other)
  next
    case True
    then obtain q where k: "k = rn_prefix n @ q" by (metis append_take_drop_id)
    have "node_info ?n = node_info n" by (simp add: node_info_def)
    then show ?thesis
      using route_at_append [OF ne(1), of q] route_at_append [OF ne(2), of q] child [of "hd q"] assms(2,3) c'(6)
      by (auto simp: k)
  qed
  moreover have "grows n (rn_prefix n @ r) ?n"
    unfolding grows_def
  proof (intro allI impI)
    fix k assume at: "node_at ?n k \<noteq> None"
    obtain q where k: "k = rn_prefix n @ q" using node_at_split [OF at] by auto
    have "node_at c q \<noteq> None \<or> (\<exists>t. r = q @ t)" if "node_at c' q \<noteq> None" using c'(5) that by (simp add: grows_def)
    then show "node_at n k \<noteq> None \<or> (\<exists>t. rn_prefix n @ r = k @ t)"
      using at node_at_append [OF ne(1), of q] node_at_append [OF ne(2), of q] child [of "hd q"] assms(2)
      by (auto simp: k split: if_splits option.splits)
  qed
  ultimately show ?thesis
    using put_child_ok [OF assms(1,2) c'(1-3)] by (simp add: inserted_def)
qed

lemma insert_ok:
  assumes "tree_ok d n" "fits t n s" "t = akind \<longrightarrow> h \<noteq> None" "h \<noteq> None \<longrightarrow> length pn + wild (rn_prefix n) = d + wild s"
    "h = None \<or> route_at n s = None"
  shows "\<exists>n'. insert_at n s h t pp pn = Some n' \<and> inserted d n s h pp pn n'"
  using assms
proof (induction n s h t pp pn arbitrary: d rule: insert_at.induct)
  case (1 n s h t pp pn d)
  note ins = insert_at.simps [of n s h t pp pn] and fits = 1(3) [unfolded fits.simps [of t n s] Let_def]
  define l where "l = lcp s (rn_prefix n)"
  have l0: "l \<noteq> 0" using fits by (auto simp: l_def split: if_splits)
  show ?case
  proof (cases "l < length (rn_prefix n)")
    case True
    then have f: "rn_kind n = skind" "t = skind" "nowild (drop l s)" using fits l0 by (auto simp: l_def split: if_splits)
    have "wild (rn_prefix n) = 0" "wild s = 0"
    proof -
      show w: "wild (rn_prefix n) = 0" using tree_okD(4) [OF 1(2) f(1)] by simp
      have "nowild (take l s)" using lcp_split(1) [of s "rn_prefix n"] nowild_take_drop(1) [OF tree_okD(4) [OF 1(2) f(1)], of l]
        by (simp add: l_def)
      then show "wild s = 0" using f(3) by (metis append_take_drop_id nowild_simps(3) wild_simps(3))
    qed
    then have "inserted d n s h pp pn (split_node n l s h skind pp pn)"
      using 1(5) l0 True f by (intro insert_split [OF 1(2)]) (auto simp: l_def)
    then show ?thesis using ins l0 True f(2) by (auto simp: l_def Let_def)
  next
    case False
    then have full: "l = length (rn_prefix n)" using lcp_le(2) [of s "rn_prefix n"] by (simp add: l_def)
    then obtain r where s: "s = rn_prefix n @ r" using lcp_full [of s "rn_prefix n"] by (auto simp: l_def)
    have ne: "rn_prefix n \<noteq> []" using tree_okD(1) [OF 1(2)] .
    have w: "h \<noteq> None \<longrightarrow> length pn = d + wild r" using 1(5) s by auto
    show ?thesis
    proof (cases "r = []")
      case True
      then have ex: "h = None \<or> rn_handlers n = None" using 1(6) s route_at_append [OF ne, of r] by (auto simp: node_info_def)
      show ?thesis using insert_existing [OF 1(2) _ ex, of pn pp] w True ins ne s by (simp add: Let_def)
    next
      case r: False
      show ?thesis
      proof (cases "findChildWithLabel n (hd r)")
        case None
        then have "fits_new t n r" using fits r ne by (simp add: s)
        from insert_add [OF 1(2) None this r 1(4) w] show ?thesis using ins ne r None by (simp add: s Let_def)
      next
        case (Some c)
        then have "fits t c r" using fits r ne by (simp add: s)
        moreover have "h = None \<or> route_at c r = None" using 1(6) s r Some route_at_append [OF ne, of r] by auto
        moreover have "tree_ok (d + wild (rn_prefix c)) c" using child_cases [OF 1(2) Some] by blast
        ultimately obtain c' where c': "insert_at c r h t pp pn = Some c'" "inserted (d + wild (rn_prefix c)) c r h pp pn c'"
          using 1(1) [OF refl _ _ _ refl, of c "d + wild (rn_prefix c)"] Some r ne 1(4) w by (auto simp: s)
        then show ?thesis using insert_put [OF 1(2) Some r c'(2)] ins ne r Some by (simp add: s Let_def)
      qed
    qed
  qed
qed

text \<open>A second handler chain for the same key panics.\<close>

lemma insert_duplicate: "h \<noteq> None \<Longrightarrow> route_at n s \<noteq> None \<Longrightarrow> insert_at n s h t pp pn = None"
proof (induction n s h t pp pn rule: insert_at.induct)
  case (1 n s h t pp pn)
  then obtain r where s: "s = rn_prefix n @ r" and ne: "rn_prefix n \<noteq> []"
    using route_at_other [of n s] route_at_eq [of n s] by (metis append_take_drop_id)
  have at: "route_at n s = (if r = [] then node_info n else case findChildWithLabel n (hd r) of None \<Rightarrow> None | Some c \<Rightarrow> route_at c r)"
    using route_at_append [OF ne] s by simp
  show ?case
  proof (cases "r = []")
    case True
    then show ?thesis using 1(2,3) at ne insert_at.simps [of n s h t pp pn]
      by (cases n) (auto simp: s at_existing_def node_info_def)
  next
    case False
    then obtain c where c: "findChildWithLabel n (hd r) = Some c" "route_at c r \<noteq> None" using 1(3) at by (auto split: option.splits)
    then have "insert_at c r h t pp pn = None" using 1(1) [OF refl _ _ _ refl, of c] 1(2) ne False by (simp add: s)
    then show ?thesis using c ne False insert_at.simps [of n s h t pp pn] by (simp add: s Let_def)
  qed
qed

section \<open>Where keys fit\<close>

lemma node_at_induct [consumes 1, case_names here child]:
  assumes "node_at n u = Some m"
    "\<And>n. rn_prefix n \<noteq> [] \<Longrightarrow> P n (rn_prefix n) n"
    "\<And>n r c m. rn_prefix n \<noteq> [] \<Longrightarrow> r \<noteq> [] \<Longrightarrow> findChildWithLabel n (hd r) = Some c \<Longrightarrow> node_at c r = Some m \<Longrightarrow> P c r m \<Longrightarrow>
       P n (rn_prefix n @ r) m"
  shows "P n u m"
  using assms(1)
proof (induction u arbitrary: n rule: length_induct)
  case (1 u)
  then obtain r where u: "u = rn_prefix n @ r" and ne: "rn_prefix n \<noteq> []"
    using node_at.simps [of n u] by (metis append_take_drop_id option.distinct(1))
  show ?case
  proof (cases "r = []")
    case True
    then show ?thesis using 1(2) assms(2) node_at_append [OF ne, of r] ne by (auto simp: u)
  next
    case False
    then obtain c where c: "findChildWithLabel n (hd r) = Some c" "node_at c r = Some m"
      using 1(2) node_at_append [OF ne, of r] by (auto simp: u split: option.splits)
    then show ?thesis using assms(3) [OF ne False c] 1(1) ne by (simp add: u)
  qed
qed

lemma node_at_ok:
  assumes "node_at n u = Some m" "tree_ok d n"
  shows "u \<noteq> [] \<and> last u = last (rn_prefix m) \<and> (\<exists>d'. tree_ok d' m \<and> d' + wild (rn_prefix n) = d + wild u)"
  using assms
proof (induction arbitrary: d rule: node_at_induct)
  case (child n r c m)
  have "tree_ok (d + wild (rn_prefix c)) c" using child_cases [OF child(6,3)] by blast
  from child(5) [OF this] show ?case using child(2) by auto
qed auto

lemma node_at_kind:
  assumes "node_at n u = Some m" "tree_ok d n"
  shows "rn_kind m = (if last u = CHR '':'' then pkind else if last u = CHR ''*'' then akind else skind)"
proof -
  obtain d' where m: "last u = last (rn_prefix m)" "tree_ok d' m" using node_at_ok [OF assms] by blast
  have "last (rn_prefix m) \<in> set (rn_prefix m)" using tree_okD(1) [OF m(2)] by simp
  then show ?thesis using m tree_okD(4-6) [OF m(2)] by (cases "rn_kind m") (auto simp: nowild_def)
qed

lemma fits_append:
  assumes "node_at n u = Some m" "v \<noteq> []"
  shows "fits t n (u @ v) = (case findChildWithLabel m (hd v) of Some c \<Rightarrow> fits t c v | None \<Rightarrow> fits_new t m v)"
  using assms
proof (induction rule: node_at_induct)
  case (here n)
  then show ?case using fits.simps [of t n "rn_prefix n @ v"] by (simp add: Let_def split: option.split)
next
  case (child n r c m)
  then show ?case using fits.simps [of t n "(rn_prefix n @ r) @ v"] by (simp add: Let_def)
qed

lemma fits_nowild:
  assumes "tree_ok d c" "rn_kind c = skind" "v \<noteq> []" "hd v = rn_label c" "nowild v"
  shows "fits skind c v"
  using assms
proof (induction v arbitrary: c d rule: length_induct)
  case (1 v)
  define l where "l = lcp v (rn_prefix c)"
  have l0: "l \<noteq> 0" using 1(4,5) tree_okD(1,2) [OF 1(2)] by (cases v; cases "rn_prefix c") (auto simp: l_def)
  have nw: "nowild (drop l v)" using nowild_take_drop(2) [OF 1(6)] .
  have "fits skind c' (drop l v)" if "l < length v" "findChildWithLabel c (hd (drop l v)) = Some c'" for c'
  proof -
    have "drop l v \<noteq> []" using that by simp
    then have "hd (drop l v) \<noteq> CHR '':''" "hd (drop l v) \<noteq> CHR ''*''" using nw by (cases "drop l v"; simp)+
    then have c': "rn_kind c' = skind" "hd (drop l v) = rn_label c'" "tree_ok (d + wild (rn_prefix c')) c'"
      using child_cases [OF 1(2) that(2)] by simp_all
    have "length (drop l v) < length v" using l0 that(1) by simp
    then show ?thesis using 1(1) c' nw \<open>drop l v \<noteq> []\<close> by blast
  qed
  then show ?case
    using l0 nw 1(3) by (subst fits.simps) (auto simp: Let_def l_def fits_new_def split: option.splits)
qed

lemma fits_wild:
  assumes "node_at n u = Some m" "tree_ok d n" "rn_kind m = skind"
  shows "fits pkind n (u @ '':'')" "fits akind n (u @ ''*'')"
proof -
  obtain d' where m: "tree_ok d' m" using node_at_ok [OF assms(1,2)] by blast
  have "fits pkind c '':''" if "findChildWithLabel m (CHR '':'') = Some c" for c
    using child_cases [OF m that] tree_okD(5) [of _ c] by (subst fits.simps) (auto simp: Let_def)
  then show "fits pkind n (u @ '':'')" using assms(3) by (auto simp: fits_append [OF assms(1)] fits_new_def split: option.splits)
  have "fits akind c ''*''" if "findChildWithLabel m (CHR ''*'') = Some c" for c
    using child_cases [OF m that] tree_okD(6) [of _ c] by (subst fits.simps) (auto simp: Let_def)
  then show "fits akind n (u @ ''*'')" using assms(3) by (auto simp: fits_append [OF assms(1)] fits_new_def split: option.splits)
qed

section \<open>The route tree as a map\<close>

text \<open>The tree of a router, from the empty node a new router starts with.\<close>

definition root_ok :: "'h rnode \<Rightarrow> bool" where
  "root_ok r \<longleftrightarrow> r = empty_node \<or> tree_ok 0 r \<and> rn_kind r = skind \<and> rn_label r = CHR ''/''"

definition root_inserted :: "'h rnode \<Rightarrow> string \<Rightarrow> 'h list option \<Rightarrow> string \<Rightarrow> string list \<Rightarrow> 'h rnode \<Rightarrow> bool" where
  "root_inserted r s h pp pn r' \<longleftrightarrow> tree_ok 0 r' \<and> rn_kind r' = skind \<and> rn_label r' = CHR ''/'' \<and> node_at r' s \<noteq> None \<and>
     (\<forall>k. route_at r' k = (if k = s \<and> h \<noteq> None then Some (the h, pp, pn) else route_at r k)) \<and> grows r s r'"

lemma at_empty [simp]: "route_at empty_node k = None" "node_at empty_node k = None"
  by (simp_all add: route_at_eq [of _ k] node_at.simps [of _ k] empty_node_def)

lemma root_insert_ok:
  assumes "tree_ok 0 r" "rn_kind r = skind" "rn_label r = CHR ''/''" "fits t r s" "t = akind \<longrightarrow> h \<noteq> None"
    "h \<noteq> None \<longrightarrow> length pn = wild s \<and> route_at r s = None"
  shows "\<exists>r'. insert_at r s h t pp pn = Some r' \<and> root_inserted r s h pp pn r'"
proof -
  have "wild (rn_prefix r) = 0" using tree_okD(4) [OF assms(1,2)] by simp
  then obtain r' where "insert_at r s h t pp pn = Some r'" "inserted 0 r s h pp pn r'"
    using insert_ok [OF assms(1,4,5), of pn pp] assms(6) by auto
  then show ?thesis using assms(2,3) by (auto simp: inserted_def root_inserted_def)
qed

lemma root_insert_static:
  assumes "root_ok r" "u = u1 @ u2" "nowild u2" "u2 \<noteq> []" "hd u2 = CHR ''/''"
    "u1 = [] \<or> (\<exists>m. node_at r u1 = Some m \<and> rn_kind m = pkind)"
    "h \<noteq> None \<longrightarrow> length pn = wild u \<and> route_at r u = None"
  shows "\<exists>r'. insert_at r u h skind pp pn = Some r' \<and> root_inserted r u h pp pn r'"
proof (cases "r = empty_node")
  case True
  then have u: "u = u2" using assms(2,6) by auto
  have "insert_at r u h skind pp pn = Some (newRouteNode skind u [] h (if h = None then [] else pp) (if h = None then [] else pn) None None)"
    using assms(4) by (subst insert_at.simps) (simp add: True u empty_node_def Let_def at_root_def newRouteNode_def lcp.simps)
  moreover have "tree_ok 0 (newRouteNode skind u [] h (if h = None then [] else pp) (if h = None then [] else pn) None None)"
    using assms(3,4,7) by (auto simp: u newRouteNode_def)
  moreover have "grows r u (newRouteNode skind u [] h (if h = None then [] else pp) (if h = None then [] else pn) None None)"
    unfolding grows_def using node_at_leaf by blast
  ultimately show ?thesis
    using assms(4,5) by (auto simp: root_inserted_def route_at_leaf u True node_at.simps [of "newRouteNode _ _ _ _ _ _ _ _"])
next
  case False
  then have r: "tree_ok 0 r" "rn_kind r = skind" "rn_label r = CHR ''/''" using assms(1) by (auto simp: root_ok_def)
  have "fits skind r u"
  proof (cases "u1 = []")
    case True
    then show ?thesis using fits_nowild [OF r(1,2), of u] assms(2-5) r(3) by simp
  next
    case u1: False
    then obtain m where m: "node_at r u1 = Some m" "rn_kind m = pkind" using assms(6) by blast
    obtain d' where d': "tree_ok d' m" using node_at_ok [OF m(1) r(1)] by blast
    have "fits skind c u2" if "findChildWithLabel m (CHR ''/'') = Some c" for c
    proof -
      have "rn_kind c = skind" "rn_label c = CHR ''/''" "tree_ok (d' + wild (rn_prefix c)) c" using child_cases [OF d' that] by simp_all
      then show ?thesis using fits_nowild [of _ c u2] assms(3-5) by simp
    qed
    then show ?thesis
      using assms(3-5) m(2) by (auto simp: assms(2) fits_append [OF m(1) assms(4)] fits_new_def split: option.splits)
  qed
  then show ?thesis using root_insert_ok [OF r, of skind u h pn pp] assms(7) by simp
qed

lemma root_insert_wild:
  assumes "root_inserted r0 u None [] [] r" "last u \<noteq> CHR '':''" "last u \<noteq> CHR ''*''"
    "(t, c) \<in> {(pkind, CHR '':''), (akind, CHR ''*'')}" "t = akind \<longrightarrow> h \<noteq> None"
    "h \<noteq> None \<longrightarrow> length pn = wild (u @ [c]) \<and> route_at r (u @ [c]) = None"
  shows "\<exists>r'. insert_at r (u @ [c]) h t pp pn = Some r' \<and> root_inserted r (u @ [c]) h pp pn r'"
proof -
  have r: "tree_ok 0 r" "rn_kind r = skind" "rn_label r = CHR ''/''" using assms(1) by (auto simp: root_inserted_def)
  obtain m where m: "node_at r u = Some m" using assms(1) by (auto simp: root_inserted_def)
  have "rn_kind m = skind" using node_at_kind [OF m r(1)] assms(2,3) by simp
  from fits_wild [OF m r(1) this] have "fits t r (u @ [c])" using assms(4) by auto
  then show ?thesis using root_insert_ok [OF r, of t "u @ [c]" h pn pp] assms(5,6) by simp
qed

text \<open>The key of a path and the names of its wildcards.\<close>

function strip :: "string \<Rightarrow> string \<times> string list" where
  "strip [] = ([], [])"
| "strip (c # s) =
     (if c = CHR '':'' then
        (let (k, ns) = strip (dropWhile (\<lambda>c. c \<noteq> CHR ''/'') s) in (CHR '':'' # k, takeWhile (\<lambda>c. c \<noteq> CHR ''/'') s # ns))
      else if c = CHR ''*'' then (''*'', [s])
      else (let (k, ns) = strip s in (c # k, ns)))"
  by pat_completeness auto
termination by (relation "measure length") (auto simp: le_imp_less_Suc length_dropWhile_le)

definition route_step :: "'h rnode \<Rightarrow> string \<Rightarrow> 'h route_info \<Rightarrow> 'h rnode option \<Rightarrow> bool" where
  "route_step r k i res \<longleftrightarrow>
     (if route_at r k = None then \<exists>r'. res = Some r' \<and> root_ok r' \<and> grows r k r' \<and> (\<forall>q. route_at r' q = (if q = k then Some i else route_at r q))
      else res = None)"

lemma route_step_insert:
  assumes "route_at r s = None \<Longrightarrow> \<exists>r'. insert_at r s (Some hs) t pp pn = Some r' \<and> root_inserted r s (Some hs) pp pn r'"
  shows "route_step r s (hs, pp, pn) (insert_at r s (Some hs) t pp pn)"
  using assms insert_duplicate [of "Some hs" r s t pp pn] by (auto simp: route_step_def root_inserted_def root_ok_def)

lemma grows_trans: "grows r u r1 \<Longrightarrow> grows r1 k r2 \<Longrightarrow> k = u @ t \<Longrightarrow> grows r k r2"
  unfolding grows_def by (metis append_assoc)

lemma route_step_cong:
  assumes "\<And>q. route_at r1 q = route_at r q" "grows r u r1" "route_step r1 k i res" "k = u @ t"
  shows "route_step r k i res"
  using assms grows_trans [OF assms(2) _ assms(4)] by (auto simp: route_step_def)

lemma nowild_last: "nowild u \<Longrightarrow> u \<noteq> [] \<Longrightarrow> last u \<noteq> CHR '':'' \<and> last u \<noteq> CHR ''*''"
  by (metis last_in_set nowild_def)

lemma loop_param:
  "addRoute_loop r (u @ CHR '':'' # s) pp h (length u) pn =
     (let nm = takeWhile (\<lambda>c. c \<noteq> CHR ''/'') s; rest = dropWhile (\<lambda>c. c \<noteq> CHR ''/'') s in
      case insert_at r u None skind [] [] of
        None \<Rightarrow> None
      | Some r1 \<Rightarrow>
          if rest = [] then insert_at r1 (u @ '':'') h pkind pp (pn @ [nm])
          else (case insert_at r1 (u @ '':'') None pkind [] (pn @ [nm]) of
                  None \<Rightarrow> None
                | Some r2 \<Rightarrow> addRoute_loop r2 (u @ '':'' @ rest) pp h (length u + 2) (pn @ [nm])))"
proof -
  have tw: "take (length (takeWhile P s)) s = takeWhile P s" "drop (length (takeWhile P s)) s = dropWhile P s" for P
    by (metis takeWhile_eq_take, metis dropWhile_eq_drop)
  show ?thesis by (subst addRoute_loop.simps) (auto simp: Let_def tw split: option.split)
qed

lemma loop_any:
  "addRoute_loop r (u @ CHR ''*'' # s) pp h (length u) pn =
     (case insert_at r u None skind [] [] of
        None \<Rightarrow> None
      | Some r1 \<Rightarrow> insert_at r1 (u @ ''*'') h akind pp (pn @ [s]))"
  by (subst addRoute_loop.simps) (simp split: option.split)

lemma loop_static:
  "c \<noteq> CHR '':'' \<Longrightarrow> c \<noteq> CHR ''*'' \<Longrightarrow>
   addRoute_loop r (u @ c # s) pp h (length u) pn = addRoute_loop r ((u @ [c]) @ s) pp h (length (u @ [c])) pn"
  by (subst addRoute_loop.simps) simp

lemma loop_end: "addRoute_loop r u pp h (length u) pn = insert_at r u h skind pp pn"
  by (subst addRoute_loop.simps) simp

text \<open>What the loop has inserted when it is at \<open>u\<close>: everything up to the last parameter before.\<close>

definition scanned :: "'h rnode \<Rightarrow> string \<Rightarrow> bool" where
  "scanned r u \<longleftrightarrow> (\<exists>u1 u2. u = u1 @ u2 \<and> nowild u2 \<and> (u2 \<noteq> [] \<longrightarrow> hd u2 = CHR ''/'') \<and>
     (u1 = [] \<or> u2 \<noteq> [] \<and> (\<exists>m. node_at r u1 = Some m \<and> rn_kind m = pkind)))"

lemma scanned_static: "scanned r u \<Longrightarrow> c \<noteq> CHR '':'' \<Longrightarrow> c \<noteq> CHR ''*'' \<Longrightarrow> u = [] \<longrightarrow> c = CHR ''/'' \<Longrightarrow> scanned r (u @ [c])"
  unfolding scanned_def
  by (elim exE conjE) (rule_tac x = u1 in exI, rule_tac x = "u2 @ [c]" in exI, auto simp: hd_append)

lemma scanned_param: "node_at r u = Some m \<Longrightarrow> rn_kind m = pkind \<Longrightarrow> scanned r (u @ ''/'')"
  unfolding scanned_def by (rule exI [of _ u], rule exI [of _ "''/''"]) simp

lemma scanned_insert:
  assumes "scanned r u" "root_ok r" "u \<noteq> []" "h \<noteq> None \<longrightarrow> length pn = wild u \<and> route_at r u = None"
  shows "(\<exists>r'. insert_at r u h skind pp pn = Some r' \<and> root_inserted r u h pp pn r') \<and> last u \<noteq> CHR '':'' \<and> last u \<noteq> CHR ''*''"
proof -
  obtain u1 u2 where u: "u = u1 @ u2" "nowild u2" "u2 \<noteq> []" "hd u2 = CHR ''/''"
      "u1 = [] \<or> (\<exists>m. node_at r u1 = Some m \<and> rn_kind m = pkind)"
    using assms(1,3) unfolding scanned_def by force
  then show ?thesis using root_insert_static [OF assms(2) u assms(4)] nowild_last [of u2] by simp
qed

lemma addRoute_loop_ok:
  assumes "root_ok r" "scanned r u" "length pn = wild u" "u @ v \<noteq> []" "hd (u @ v) = CHR ''/''" "strip v = (k, ns)"
  shows "route_step r (u @ k) (hs, pp, pn @ ns) (addRoute_loop r (u @ v) pp (Some hs) (length u) pn)"
  using assms
proof (induction v arbitrary: r u pn k ns rule: measure_induct_rule [of length])
  case (less v)
  show ?case
  proof (cases v)
    case Nil
    then show ?thesis
      using scanned_insert [OF less(3,2), of "Some hs" pn pp] route_step_insert [of r u hs skind pp pn] less(4-7) by (simp add: loop_end)
  next
    case v: (Cons c s)
    note IH = less(1) and prems = less(2-6) less(7) [unfolded v]
    show ?thesis
  proof (cases "c = CHR '':'' \<or> c = CHR ''*''")
    case False
    obtain k' where k: "strip s = (k', ns)" "k = c # k'" using prems(6) False by (auto split: prod.splits)
    have "u = [] \<longrightarrow> c = CHR ''/''" using prems(5) v by (cases u) simp_all
    then have "scanned r (u @ [c])" using scanned_static [OF prems(2), of c] False by simp
    moreover have "length pn = wild (u @ [c])" using prems(3) False by (simp add: wild_def)
    ultimately have "route_step r ((u @ [c]) @ k') (hs, pp, pn @ ns) (addRoute_loop r ((u @ [c]) @ s) pp (Some hs) (length (u @ [c])) pn)"
      using IH [OF _ prems(1) _ _ _ _ k(1), of "u @ [c]" pn] v prems(5) by simp
    then show ?thesis using False by (simp add: loop_static k(2) v)
  next
    case wildc: True
    then have ne: "u \<noteq> []" using prems(5) v by auto
    obtain r1 where r1: "insert_at r u None skind [] [] = Some r1" "root_inserted r u None [] [] r1"
        "last u \<noteq> CHR '':''" "last u \<noteq> CHR ''*''"
      using scanned_insert [OF prems(2,1) ne, of None] by auto
    have same: "route_at r1 q = route_at r q" "grows r u r1" for q using r1(2) by (simp_all add: root_inserted_def)
    show ?thesis
    proof (cases "c = CHR ''*''")
      case True
      have "wild (u @ ''*'') = length (pn @ [s])" using prems(3) by simp
      then have "route_step r1 (u @ ''*'') (hs, pp, pn @ [s]) (insert_at r1 (u @ ''*'') (Some hs) akind pp (pn @ [s]))"
        using root_insert_wild [OF r1(2-4), of akind "CHR ''*''" "Some hs" "pn @ [s]" pp] by (intro route_step_insert) simp
      then show ?thesis using route_step_cong [OF same] prems(6) True by (simp add: loop_any r1(1) v)
    next
      case False
      then have c: "c = CHR '':''" using wildc by simp
      define nm rest where "nm = takeWhile (\<lambda>c. c \<noteq> CHR ''/'') s" and "rest = dropWhile (\<lambda>c. c \<noteq> CHR ''/'') s"
      obtain k' ns' where k: "strip rest = (k', ns')" "k = CHR '':'' # k'" "ns = nm # ns'"
        using prems(6) c by (auto simp: nm_def rest_def split: prod.splits)
      have len: "length (pn @ [nm]) = wild (u @ '':'')" using prems(3) by simp
      note loop = loop_param [of r u s pp "Some hs" pn, folded nm_def rest_def, unfolded Let_def r1(1) option.case]
      show ?thesis
      proof (cases rest)
        case Nil
        have "route_step r1 (u @ '':'') (hs, pp, pn @ [nm]) (insert_at r1 (u @ '':'') (Some hs) pkind pp (pn @ [nm]))"
          using root_insert_wild [OF r1(2-4), of pkind "CHR '':''" "Some hs" "pn @ [nm]" pp] len by (intro route_step_insert) simp
        then show ?thesis using route_step_cong [OF same] k Nil c loop by (simp add: v)
      next
        case (Cons c' rest')
        then have c': "c' = CHR ''/''" using hd_dropWhile [of "\<lambda>c. c \<noteq> CHR ''/''" s] by (simp add: rest_def)
        obtain r2 where r2: "insert_at r1 (u @ '':'') None pkind [] (pn @ [nm]) = Some r2" "root_inserted r1 (u @ '':'') None [] (pn @ [nm]) r2"
          using root_insert_wild [OF r1(2-4), of pkind "CHR '':''" None "pn @ [nm]" "[]"] by auto
        then have t2: "tree_ok 0 r2" "root_ok r2" by (auto simp: root_inserted_def root_ok_def)
        obtain m where m: "node_at r2 (u @ '':'') = Some m" using r2(2) by (auto simp: root_inserted_def)
        have same2: "route_at r2 q = route_at r q" "grows r (u @ '':'') r2" for q
          using same(1) r2(2) grows_trans [OF same(2), of "u @ '':''" r2] by (auto simp: root_inserted_def)
        have sc: "scanned r2 ((u @ '':'') @ ''/'')" using scanned_param [OF m] node_at_kind [OF m t2(1)] by simp
        obtain k2 where k2: "strip rest' = (k2, ns')" "k' = CHR ''/'' # k2" using k(1) Cons c' by (auto split: prod.splits)
        have "length s = length nm + length rest" by (simp add: nm_def rest_def flip: length_append)
        then have "route_step r2 (((u @ '':'') @ ''/'') @ k2) (hs, pp, (pn @ [nm]) @ ns')
            (addRoute_loop r2 (((u @ '':'') @ ''/'') @ rest') pp (Some hs) (length ((u @ '':'') @ ''/'')) (pn @ [nm]))"
          using IH [OF _ t2(2) sc _ _ _ k2(1), of "pn @ [nm]"] prems(5) ne len v Cons by (simp add: wild_def)
        then show ?thesis using route_step_cong [OF same2] k k2 Cons c c' loop r2(1) by (simp add: v)
      qed
    qed
  qed
  qed
qed

lemma addRoute_step:
  assumes "root_ok r" "checkPathValid path" "strip path = (k, ns)"
  shows "route_step r k (hs, path, ns) (addRoute path (Some hs) r)"
proof -
  have "path \<noteq> []" "hd path = CHR ''/''" using assms(2) by (auto simp: checkPathValid_def hd_conv_nth)
  moreover have "scanned r []" by (simp add: scanned_def)
  ultimately show ?thesis using addRoute_loop_ok [OF assms(1), of "[]" "[]" path k ns hs path] assms(2,3) by (simp add: addRoute_def)
qed

lemma addRoute_invalid: "\<not> checkPathValid path \<Longrightarrow> addRoute path h r = None" "addRoute path None r = None"
  by (simp_all add: addRoute_def)

text \<open>Adding several routes, one after the other.\<close>

fun addRoutes :: "(string \<times> 'h list) list \<Rightarrow> 'h rnode \<Rightarrow> 'h rnode option" where
  "addRoutes [] r = Some r"
| "addRoutes ((p, hs) # rs) r = Option.bind (addRoute p (Some hs) r) (addRoutes rs)"

definition route_of :: "string \<times> 'h list \<Rightarrow> string \<times> 'h route_info" where
  "route_of pr = (case pr of (p, hs) \<Rightarrow> (fst (strip p), (hs, p, snd (strip p))))"

lemma addRoute_SomeD:
  assumes "root_ok r" "addRoute p (Some hs) r = Some r'"
  shows "checkPathValid p \<and> route_at r (fst (strip p)) = None \<and> root_ok r' \<and> grows r (fst (strip p)) r' \<and>
    route_at r' = (route_at r)(fst (strip p) \<mapsto> (hs, p, snd (strip p)))"
proof -
  have v: "checkPathValid p" using assms(2) by (rule_tac ccontr) (simp add: addRoute_invalid)
  from addRoute_step [OF assms(1) this, of "fst (strip p)" "snd (strip p)" hs] show ?thesis
    using v assms(2) by (auto simp: route_step_def fun_eq_iff split: if_splits)
qed

lemma addRoutes_ok:
  assumes "root_ok r" "addRoutes rs r = Some r'"
  shows "root_ok r' \<and> distinct (map (fst \<circ> route_of) rs) \<and> (\<forall>k \<in> set (map (fst \<circ> route_of) rs). route_at r k = None) \<and>
    route_at r' = route_at r ++ map_of (map route_of rs)"
  using assms
proof (induction rs r rule: addRoutes.induct)
  case (2 p hs rs r)
  then obtain r1 where r1: "addRoute p (Some hs) r = Some r1" "addRoutes rs r1 = Some r'"
    by (auto simp: bind_eq_Some_conv)
  note s = addRoute_SomeD [OF 2(2) r1(1)]
  then have "root_ok r1" by blast
  from 2(1) [OF r1(1) this r1(2)] have IH: "root_ok r'" "distinct (map (fst \<circ> route_of) rs)" "\<forall>k \<in> set (map (fst \<circ> route_of) rs). route_at r1 k = None"
      "route_at r' = route_at r1 ++ map_of (map route_of rs)"
    by blast+
  have new: "fst (strip p) \<notin> set (map (fst \<circ> route_of) rs)" using IH(3) s by auto
  then have "map_of (map route_of rs) (fst (strip p)) = None" by (simp add: map_of_eq_None_iff image_comp)
  then have "route_at r' = route_at r ++ map_of (map route_of ((p, hs) # rs))"
    unfolding IH(4) using s by (auto simp: route_of_def map_add_def fun_eq_iff split: option.splits)
  moreover have "\<forall>k \<in> set (map (fst \<circ> route_of) rs). route_at r k = None"
  proof
    fix k assume "k \<in> set (map (fst \<circ> route_of) rs)"
    then have "route_at r1 k = None" using IH(3) by blast
    then show "route_at r k = None" using s by (simp split: if_splits)
  qed
  moreover have "fst (route_of (p, hs)) = fst (strip p)" by (simp add: route_of_def)
  ultimately show ?case using IH(1,2) new s by (intro conjI) (simp_all only: list.map o_def distinct.simps list.set ball_simps, simp_all)
qed simp

definition wild_bound :: "nat \<Rightarrow> 'h rnode \<Rightarrow> bool" where
  "wild_bound b r \<longleftrightarrow> (\<forall>k. node_at r k \<noteq> None \<longrightarrow> wild k \<le> b)"

lemma addRoutes_bound:
  "root_ok r \<Longrightarrow> addRoutes rs r = Some r' \<Longrightarrow> wild_bound b r \<Longrightarrow> \<forall>pr \<in> set rs. wild (fst (strip (fst pr))) \<le> b \<Longrightarrow> wild_bound b r'"
proof (induction rs r rule: addRoutes.induct)
  case (2 p hs rs r)
  then obtain r1 where r1: "addRoute p (Some hs) r = Some r1" "addRoutes rs r1 = Some r'"
    by (auto simp: bind_eq_Some_conv)
  note s = addRoute_SomeD [OF 2(2) r1(1)]
  have "wild k \<le> b" if "node_at r1 k \<noteq> None" for k
  proof -
    consider "node_at r k \<noteq> None" | t where "fst (strip p) = k @ t" using s \<open>node_at r1 k \<noteq> None\<close> unfolding grows_def by metis
    then show ?thesis
    proof cases
      case 2
      have "wild (fst (strip p)) \<le> b" using "2.prems"(4) by simp
      then show ?thesis using 2 by simp
    qed (use 2(4) in \<open>simp add: wild_bound_def\<close>)
  qed
  then show ?case using 2(1) [OF r1(1) _ r1(2)] s 2(5) by (simp add: wild_bound_def)
qed simp

text \<open>
  In a tree built by \<open>addRoute\<close>, adding a valid route with a handler chain either panics, exactly when its key is registered
  already, or gives a well-formed tree that maps the key to the chain, the path and the names of its wildcards and keeps every other
  route, whatever nodes were split on the way.
\<close>

theorem add_route_updates:
  "root_ok r \<Longrightarrow> checkPathValid path \<Longrightarrow> strip path = (k, ns) \<Longrightarrow>
   (case addRoute path (Some hs) r of
      None \<Rightarrow> route_at r k \<noteq> None
    | Some r' \<Rightarrow> route_at r k = None \<and> root_ok r' \<and> route_at r' = (route_at r)(k \<mapsto> (hs, path, ns)))"
  using addRoute_step [of r path k ns hs] by (auto simp: route_step_def fun_eq_iff split: option.splits if_splits)

theorem add_route_updates_witness:
  "(case addRoute ''/u/:id'' (Some [1::nat]) empty_node of
      None \<Rightarrow> route_at (empty_node :: nat rnode) ''/u/:'' \<noteq> None
    | Some r' \<Rightarrow> route_at (empty_node :: nat rnode) ''/u/:'' = None \<and> root_ok r' \<and>
        route_at r' = (route_at empty_node)(''/u/:'' \<mapsto> ([1], ''/u/:id'', [''id''])))"
proof (rule add_route_updates)
  show "root_ok (empty_node :: nat rnode)" by (simp add: root_ok_def)
  show "checkPathValid ''/u/:id''" by code_simp
  show "strip ''/u/:id'' = (''/u/:'', [''id''])" by code_simp
qed

end
