(* ===== verification/Route_Find.thy ===== *)
theory Route_Find
  imports Route_Tree Bytes_Conv
begin

text \<open>
  \<^verbatim>\<open>web/router/tree.go\<close>: \<open>find\<close>, the search of the tree for a request path. The state of the loop is a record; the
  pointer to the parent of the current node is the list of the nodes above it. The parameters are an array of fixed capacity, the
  backing array of \<open>*paramsPointer\<close>, and the length of the slice: a reslice past the capacity and an index past the length panic.
  A turn of the loop is one to four steps, one for each block that a \<open>goto\<close> or the loop can start at.

  The search is compared with a recursive one without state, \<open>search_from\<close>, and that one with the map of routes of the tree.
\<close>

section \<open>The search\<close>

text \<open>\<open>url.QueryUnescape\<close> of the standard library; \<open>None\<close> is its error.\<close>

fun QueryUnescape :: "string \<Rightarrow> string option" where
  "QueryUnescape [] = Some []"
| "QueryUnescape (c # s) =
     (if c = CHR ''%'' then
        (case s of
           a # b # s' \<Rightarrow>
             if Hex2intTable a < 16 \<and> Hex2intTable b < 16
             then map_option (\<lambda>t. char_of (16 * Hex2intTable a + Hex2intTable b) # t) (QueryUnescape s') else None
         | _ \<Rightarrow> None)
      else map_option (\<lambda>t. (if c = CHR ''+'' then CHR '' '' else c) # t) (QueryUnescape s))"

datatype block = Top | Static | Param | Any

record 'h fstate =
  f_cn :: "'h rnode"
  f_above :: "'h rnode list"
  f_search :: string
  f_index :: nat
  f_params :: "(string \<times> string) list"
  f_len :: nat
  f_pidx :: nat
  f_tsr :: bool
  f_block :: block

record 'h nodeValue =
  nv_handlers :: "'h list option"
  nv_tsr :: bool
  nv_fullPath :: string

datatype 'h found = Returned "'h nodeValue" "(string \<times> string) list" nat | Panicked

definition set_value :: "nat \<Rightarrow> string \<Rightarrow> (string \<times> string) list \<Rightarrow> (string \<times> string) list" where
  "set_value i v ps = ps[i := (fst (ps ! i), v)]"

fun set_keys :: "nat \<Rightarrow> string list \<Rightarrow> (string \<times> string) list \<Rightarrow> (string \<times> string) list" where
  "set_keys i [] ps = ps"
| "set_keys i (nm # ns) ps = set_keys (Suc i) ns (ps[i := (nm, snd (ps ! i))])"

definition param_value :: "bool \<Rightarrow> string \<Rightarrow> string" where
  "param_value unescape s = (if unescape then (case QueryUnescape s of Some v \<Rightarrow> v | None \<Rightarrow> s) else s)"

text \<open>The end of \<open>find\<close>: the path and the names of the node the loop stopped at.\<close>

definition leave :: "'h rnode option \<Rightarrow> 'h list option \<Rightarrow> 'h fstate \<Rightarrow> 'h found" where
  "leave cn hs st =
     (case cn of
        None \<Rightarrow> Returned \<lparr>nv_handlers = hs, nv_tsr = f_tsr st, nv_fullPath = []\<rparr> (f_params st) (f_len st)
      | Some n \<Rightarrow>
          if length (rn_pnames n) \<le> f_len st
          then Returned \<lparr>nv_handlers = hs, nv_tsr = f_tsr st, nv_fullPath = rn_ppath n\<rparr> (set_keys 0 (rn_pnames n) (f_params st)) (f_len st)
          else Panicked)"

definition slash_below :: "'h rnode \<Rightarrow> bool" where
  "slash_below n = (case findChild n (CHR ''/'') of None \<Rightarrow> False | Some cd \<Rightarrow> rn_handlers cd \<noteq> None \<or> rn_any cd \<noteq> None)"

definition step_top :: "'h fstate \<Rightarrow> 'h fstate + 'h found" where
  "step_top st =
     (let cn = f_cn st; search = f_search st; pre = rn_prefix cn in
      if rn_kind cn = skind then
        if length search \<ge> length pre \<and> pre = take (length pre) search
        then Inl (st\<lparr>f_search := drop (length pre) search, f_index := f_index st + length pre, f_block := Static\<rparr>)
        else
          (let tsr = (length pre = length search + 1 \<and> pre ! length search = CHR ''/'' \<and> take (length search) pre = search \<and>
                        (rn_handlers cn \<noteq> None \<or> rn_any cn \<noteq> None));
               st1 = st\<lparr>f_tsr := f_tsr st \<or> tsr\<rparr>
           in case f_above st of
                [] \<Rightarrow> Inr (leave None None st1)
              | p # ps \<Rightarrow> Inl (st1\<lparr>f_cn := p, f_above := ps, f_block := Param\<rparr>))
      else Inl (st\<lparr>f_block := Static\<rparr>))"

definition step_static :: "'h fstate \<Rightarrow> 'h fstate + 'h found" where
  "step_static st =
     (let cn = f_cn st; search = f_search st in
      if search = [] \<and> rn_handlers cn \<noteq> None \<and> rn_handlers cn \<noteq> Some [] then Inr (leave (Some cn) (rn_handlers cn) st)
      else if search \<noteq> [] then
        (let st1 = st\<lparr>f_tsr := f_tsr st \<or> search = ''/'' \<and> rn_handlers cn \<noteq> None\<rparr> in
         case findChild cn (search ! 0) of
           Some c \<Rightarrow> Inl (st1\<lparr>f_cn := c, f_above := cn # f_above st, f_block := Top\<rparr>)
         | None \<Rightarrow> Inl (st1\<lparr>f_block := Param\<rparr>))
      else Inl (st\<lparr>f_tsr := f_tsr st \<or> slash_below cn, f_block := Param\<rparr>))"

definition step_param :: "bool \<Rightarrow> 'h fstate \<Rightarrow> 'h fstate + 'h found" where
  "step_param unescape st =
     (let cn = f_cn st; search = f_search st in
      case rn_param cn of
        None \<Rightarrow> Inl (st\<lparr>f_block := Any\<rparr>)
      | Some c \<Rightarrow>
          if search = [] then Inl (st\<lparr>f_block := Any\<rparr>)
          else if f_pidx st + 1 > length (f_params st) then Inr Panicked
          else
            (let seg = takeWhile (\<lambda>b. b \<noteq> CHR ''/'') search; rest = drop (length seg) search in
             Inl (st\<lparr>f_cn := c, f_above := cn # f_above st, f_len := f_pidx st + 1,
                     f_params := set_value (f_pidx st) (param_value unescape seg) (f_params st),
                     f_pidx := f_pidx st + 1, f_search := rest, f_index := f_index st + length seg,
                     f_tsr := f_tsr st \<or> rest = [] \<and> slash_below c, f_block := Top\<rparr>)))"

definition backtrack_any :: "string \<Rightarrow> 'h fstate \<Rightarrow> 'h fstate + 'h found" where
  "backtrack_any path st =
     (let prev = f_cn st in
      if rn_kind prev = skind then
        (let ix = f_index st - length (rn_prefix prev); st1 = st\<lparr>f_index := ix, f_search := drop ix path\<rparr> in
         case f_above st of [] \<Rightarrow> Inr (leave None None st1) | p # ps \<Rightarrow> Inl (st1\<lparr>f_cn := p, f_above := ps, f_block := Param\<rparr>))
      else if f_pidx st = 0 \<or> f_pidx st > f_len st then Inr Panicked
      else
        (let pi = f_pidx st - 1; ix = f_index st - length (snd (f_params st ! pi));
             st1 = st\<lparr>f_pidx := pi, f_index := ix, f_len := pi, f_search := drop ix path\<rparr>
         in case f_above st of
              [] \<Rightarrow> Inr (leave None None st1)
            | p # ps \<Rightarrow> if rn_kind prev = pkind then Inl (st1\<lparr>f_cn := p, f_above := ps, f_block := Any\<rparr>)
                        else Inr (leave (Some p) None st1)))"

definition step_any :: "bool \<Rightarrow> string \<Rightarrow> 'h fstate \<Rightarrow> 'h fstate + 'h found" where
  "step_any unescape path st =
     (case rn_any (f_cn st) of
        None \<Rightarrow> backtrack_any path st
      | Some c \<Rightarrow>
          if f_pidx st + 1 > length (f_params st) then Inr Panicked
          else if rn_pnames c = [] \<or> length (rn_pnames c) > f_pidx st + 1 then Inr Panicked
          else
            (let st1 = st\<lparr>f_cn := c, f_above := f_cn st # f_above st, f_len := f_pidx st + 1,
                          f_params := set_value (length (rn_pnames c) - 1) (param_value unescape (f_search st)) (f_params st),
                          f_pidx := f_pidx st + 1, f_index := f_index st + length (f_search st), f_search := []\<rparr>
             in Inr (leave (Some c) (rn_handlers c) st1)))"

definition find_step :: "bool \<Rightarrow> string \<Rightarrow> 'h fstate \<Rightarrow> 'h fstate + 'h found" where
  "find_step unescape path st =
     (case f_block st of
        Top \<Rightarrow> step_top st | Static \<Rightarrow> step_static st | Param \<Rightarrow> step_param unescape st | Any \<Rightarrow> step_any unescape path st)"

partial_function (option) find_loop :: "bool \<Rightarrow> string \<Rightarrow> 'h fstate \<Rightarrow> 'h found option" where
  "find_loop unescape path st =
     (case find_step unescape path st of Inl st' \<Rightarrow> find_loop unescape path st' | Inr res \<Rightarrow> Some res)"

declare find_loop.simps [code]

text \<open>\<open>None\<close> means that the search does not return.\<close>

definition find :: "'h rnode \<Rightarrow> string \<Rightarrow> (string \<times> string) list \<times> nat \<Rightarrow> bool \<Rightarrow> 'h found option" where
  "find root path params unescape =
     find_loop unescape path
       \<lparr>f_cn = root, f_above = [], f_search = path, f_index = 0, f_params = fst params, f_len = snd params, f_pidx = 0,
        f_tsr = False, f_block = Top\<rparr>"

section \<open>The search without state\<close>

lemma child_size [termination_simp]:
  "findChild n l = Some c \<Longrightarrow> size c < size n" "rn_param n = Some c \<Longrightarrow> size c < size n" "rn_any n = Some c \<Longrightarrow> size c < size n"
proof -
  have "size x \<le> size_list size cs" if "x \<in> set cs" for x and cs :: "'h rnode list"
    using size_list_estimation' [OF that order_refl, of size] .
  then show "findChild n l = Some c \<Longrightarrow> size c < size n"
    using find_label_Some [of l "rn_children n" c] by (cases n) (fastforce simp: findChild_def)
qed (cases n; simp)+

definition orelse :: "'a option \<Rightarrow> 'a option \<Rightarrow> 'a option" where
  "orelse x y = (case x of Some _ \<Rightarrow> x | None \<Rightarrow> y)"

lemma orelse_simps [simp]: "orelse None y = y" "orelse (Some a) y = Some a"
  by (simp_all add: orelse_def)

definition segment :: "string \<Rightarrow> string" where
  "segment s = takeWhile (\<lambda>b. b \<noteq> CHR ''/'') s"

definition serves :: "'h rnode \<Rightarrow> bool" where
  "serves n \<longleftrightarrow> rn_handlers n \<noteq> None \<and> rn_handlers n \<noteq> Some []"

text \<open>
  The node that serves \<open>s\<close> below \<open>n\<close>, with the values of the wildcards on the way: a static child first, then the
  parameter, then the catch-all.
\<close>

function search_from :: "'h rnode \<Rightarrow> string \<Rightarrow> ('h rnode \<times> string list) option" where
  "search_from n s =
     (if s = [] \<and> serves n then Some (n, [])
      else orelse
        (if s = [] then None
         else case findChild n (hd s) of
           None \<Rightarrow> None
         | Some c \<Rightarrow> if take (length (rn_prefix c)) s = rn_prefix c then search_from c (drop (length (rn_prefix c)) s) else None)
        (orelse
          (if s = [] then None
           else case rn_param n of
             None \<Rightarrow> None
           | Some c \<Rightarrow> map_option (apsnd ((#) (segment s))) (search_from c (drop (length (segment s)) s)))
          (case rn_any n of None \<Rightarrow> None | Some c \<Rightarrow> Some (c, [s]))))"
  by pat_completeness auto
termination by (relation "measure (\<lambda>(n, s). size n)") (auto simp: child_size)

declare search_from.simps [simp del]

section \<open>Running the loop\<close>

text \<open>
  The state of the loop at a node: \<open>u\<close> is the key of the node, \<open>done\<close> what of the path is behind it and \<open>vs\<close> the values of the
  wildcards of \<open>u\<close>.
\<close>

definition at_node :: "block \<Rightarrow> 'h rnode \<Rightarrow> 'h rnode list \<Rightarrow> string \<Rightarrow> nat \<Rightarrow> string list \<Rightarrow> nat \<Rightarrow> 'h fstate \<Rightarrow> bool" where
  "at_node b n up s i vs cap st \<longleftrightarrow>
     f_block st = b \<and> f_cn st = n \<and> f_above st = up \<and> f_search st = s \<and> f_index st = i \<and>
     length (f_params st) = cap \<and> f_len st = length vs \<and> f_pidx st = length vs \<and> length vs \<le> cap \<and>
     map snd (take (length vs) (f_params st)) = vs"

text \<open>The result for a node of the tree and the values of its wildcards.\<close>

definition returned :: "'h rnode \<Rightarrow> string list \<Rightarrow> 'h found \<Rightarrow> bool" where
  "returned m vs res \<longleftrightarrow> (\<exists>tsr ps. res = Returned \<lparr>nv_handlers = rn_handlers m, nv_tsr = tsr, nv_fullPath = rn_ppath m\<rparr> ps (length vs) \<and>
     take (length vs) ps = zip (rn_pnames m) vs)"

lemma loop_Inl: "find_step ue path st = Inl st' \<Longrightarrow> find_loop ue path st = find_loop ue path st'"
  by (subst find_loop.simps) simp

lemma loop_Inr: "find_step ue path st = Inr res \<Longrightarrow> find_loop ue path st = Some res"
  by (subst find_loop.simps) simp

lemma set_keys_zip: "length ns \<le> length ps - i \<Longrightarrow>
  set_keys i ns ps = take i ps @ zip ns (map snd (take (length ns) (drop i ps))) @ drop (i + length ns) ps"
proof (induction i ns ps rule: set_keys.induct)
  case (2 i nm ns ps)
  then have "i < length ps" by simp
  moreover from this have "drop i ps = ps ! i # drop (Suc i) ps" by (simp add: Cons_nth_drop_Suc)
  ultimately show ?case using 2 by (simp add: take_Suc_conv_app_nth drop_update_cancel)
qed simp

lemma leave_returned:
  assumes "length (rn_pnames m) = length vs" "f_len st = length vs" "length vs \<le> length (f_params st)"
    "map snd (take (length vs) (f_params st)) = vs"
  shows "returned m vs (leave (Some m) (rn_handlers m) st)"
  using assms set_keys_zip [of "rn_pnames m" "f_params st" 0] by (auto simp: returned_def leave_def)

section \<open>Nodes of a tree\<close>

definition in_tree :: "'h rnode \<Rightarrow> nat \<Rightarrow> string \<Rightarrow> 'h rnode \<Rightarrow> bool" where
  "in_tree rt cap u n \<longleftrightarrow> tree_ok 0 rt \<and> rn_kind rt = skind \<and> wild_bound cap rt \<and> node_at rt u = Some n"

lemma node_at_extend:
  assumes "node_at n u = Some m" "v \<noteq> []"
  shows "node_at n (u @ v) = (case findChildWithLabel m (hd v) of None \<Rightarrow> None | Some c \<Rightarrow> node_at c v)"
  using assms
proof (induction rule: node_at_induct)
  case (child n r c m)
  then show ?case using node_at_append [OF child(1), of "r @ v"] by simp
qed (simp add: node_at_append)

lemma in_tree_ok: "in_tree rt cap u n \<Longrightarrow> tree_ok (wild u) n \<and> wild u \<le> cap"
  using node_at_ok [of rt u n 0] tree_okD(4) [of 0 rt] by (auto simp: in_tree_def wild_bound_def)

lemma in_tree_child:
  assumes "in_tree rt cap u n" "findChildWithLabel n l = Some c"
  shows "in_tree rt cap (u @ rn_prefix c) c"
proof -
  have c: "rn_label c = l" "tree_ok (wild u + wild (rn_prefix c)) c" using child_cases [OF _ assms(2)] in_tree_ok [OF assms(1)] by blast+
  then have "rn_prefix c \<noteq> []" "hd (rn_prefix c) = l" using tree_okD(1,2) [OF c(2)] by auto
  then show ?thesis using assms node_at_extend [of rt u n "rn_prefix c"] node_at_append [of c "[]"] by (simp add: in_tree_def)
qed

lemma in_tree_static:
  assumes "in_tree rt cap u n" "findChild n l = Some c"
  shows "in_tree rt cap (u @ rn_prefix c) c \<and> rn_kind c = skind \<and> rn_prefix c \<noteq> [] \<and> wild (u @ rn_prefix c) = wild u"
proof -
  have c: "findChildWithLabel n l = Some c" "c \<in> set (rn_children n)"
    using assms(2) find_label_Some [of l "rn_children n" c] by (auto simp: findChild_def findChildWithLabel_def)
  have k: "rn_kind c = skind" "tree_ok (wild u) c" using in_tree_ok [OF assms(1)] tree_okD(8) [of "wild u" n c] c(2) by auto
  then show ?thesis using in_tree_child [OF assms(1) c(1)] tree_okD(1,4) [OF k(2)] by simp
qed

lemma in_tree_param:
  assumes "in_tree rt cap u n" "rn_param n = Some c"
  shows "in_tree rt cap (u @ '':'') c \<and> rn_kind c = pkind \<and> wild u < cap"
proof -
  note n = in_tree_ok [OF assms(1), THEN conjunct1]
  have c: "rn_kind c = pkind" "tree_ok (Suc (wild u)) c" using tree_okD(10) [OF n assms(2)] by auto
  have "find_label (CHR '':'') (rn_children n) = None" using static_label [OF n] by (simp add: find_label_free)
  then have "findChildWithLabel n (CHR '':'') = Some c" using assms(2) by (simp add: findChildWithLabel_def)
  from in_tree_child [OF assms(1) this] show ?thesis
    using tree_okD(5) [OF c(2,1)] c(1) in_tree_ok [of rt cap "u @ '':''" c] by simp
qed

lemma in_tree_any:
  assumes "in_tree rt cap u n" "rn_any n = Some c"
  shows "in_tree rt cap (u @ ''*'') c \<and> rn_kind c = akind \<and> wild u < cap \<and> rn_handlers c \<noteq> None \<and> length (rn_pnames c) = Suc (wild u)"
proof -
  note n = in_tree_ok [OF assms(1), THEN conjunct1]
  have c: "rn_kind c = akind" "tree_ok (Suc (wild u)) c" using tree_okD(11) [OF n assms(2)] by auto
  have "find_label (CHR ''*'') (rn_children n) = None" using static_label [OF n] by (simp add: find_label_free)
  then have "findChildWithLabel n (CHR ''*'') = Some c" using assms(2) by (simp add: findChildWithLabel_def)
  from in_tree_child [OF assms(1) this] show ?thesis
    using tree_okD(3) [OF c(2)] tree_okD(6) [OF c(2,1)] c(1) in_tree_ok [of rt cap "u @ ''*''" c] by simp
qed

section \<open>The loop follows the search without state\<close>

definition fails :: "'h rnode \<Rightarrow> 'h rnode list \<Rightarrow> string \<Rightarrow> nat \<Rightarrow> string list \<Rightarrow> nat \<Rightarrow> string \<Rightarrow> 'h found option \<Rightarrow> bool" where
  "fails n up s i vs cap path x \<longleftrightarrow>
     (case up of
        [] \<Rightarrow> \<exists>tsr ps l. x = Some (Returned \<lparr>nv_handlers = None, nv_tsr = tsr, nv_fullPath = []\<rparr> ps l)
      | p # ps \<Rightarrow> \<exists>st. x = find_loop False path st \<and>
          (if rn_kind n = skind then at_node Param p ps (rn_prefix n @ s) (i - length (rn_prefix n)) vs cap st
           else at_node Any p ps (last vs @ s) (i - length (last vs)) (butlast vs) cap st))"

definition ends :: "'h rnode \<Rightarrow> 'h rnode list \<Rightarrow> string \<Rightarrow> nat \<Rightarrow> string list \<Rightarrow> nat \<Rightarrow> string \<Rightarrow>
    ('h rnode \<times> string list) option \<Rightarrow> 'h found option \<Rightarrow> bool" where
  "ends n up s i vs cap path r x \<longleftrightarrow>
     (case r of
        Some (m, ws) \<Rightarrow> \<exists>res. x = Some res \<and> returned m (vs @ ws) res
      | None \<Rightarrow> fails n up s i vs cap path x)"

text \<open>Behind the node are its prefix or the value of its parameter.\<close>

definition behind :: "'h rnode \<Rightarrow> string \<Rightarrow> nat \<Rightarrow> string list \<Rightarrow> string \<Rightarrow> bool" where
  "behind n s i vs path \<longleftrightarrow> rn_kind n \<noteq> akind \<and>
     (let w = (if rn_kind n = skind then rn_prefix n else last vs) in
      (rn_kind n = pkind \<longrightarrow> vs \<noteq> []) \<and> (\<exists>d. path = d @ w @ s \<and> i = length d + length w))"

lemma any_run:
  assumes st: "at_node Any n up s i vs cap st" and n: "in_tree rt cap u n" "length vs = wild u" and b: "behind n s i vs path"
  shows "ends n up s i vs cap path (case rn_any n of None \<Rightarrow> None | Some c \<Rightarrow> Some (c, [s])) (find_loop False path st)"
proof (cases "rn_any n")
  case (Some c)
  note c = in_tree_any [OF n(1) Some]
  have step: "find_step False path st = Inr (leave (Some c) (rn_handlers c)
     (st\<lparr>f_cn := c, f_above := f_cn st # f_above st, f_len := f_pidx st + 1,
         f_params := set_value (f_pidx st) (f_search st) (f_params st),
         f_pidx := f_pidx st + 1, f_index := f_index st + length (f_search st), f_search := []\<rparr>))"
    using st c n(2) Some by (auto simp: find_step_def at_node_def step_any_def Let_def param_value_def)
  have "returned c (vs @ [s]) (leave (Some c) (rn_handlers c)
     (st\<lparr>f_cn := c, f_above := f_cn st # f_above st, f_len := f_pidx st + 1,
         f_params := set_value (f_pidx st) (f_search st) (f_params st),
         f_pidx := f_pidx st + 1, f_index := f_index st + length (f_search st), f_search := []\<rparr>))"
    using st c n(2) by (intro leave_returned) (auto simp: at_node_def set_value_def take_Suc_conv_app_nth)
  then show ?thesis using loop_Inr [OF step] Some by (simp add: ends_def)
next
  case None
  have step: "find_step False path st = backtrack_any path st" using st None by (simp add: find_step_def at_node_def step_any_def)
  have stf: "f_cn st = n" "f_above st = up" "f_index st = i" "f_pidx st = length vs" "f_len st = length vs"
      "map snd (take (length vs) (f_params st)) = vs" "length vs \<le> length (f_params st)" "length (f_params st) = cap"
    using st by (auto simp: at_node_def)
  have "fails n up s i vs cap path (find_loop False path st)"
  proof (cases "rn_kind n = skind")
    case True
    then have "drop (i - length (rn_prefix n)) path = rn_prefix n @ s" using b by (auto simp: behind_def Let_def)
    then show ?thesis
      using step stf True loop_Inr [of False path st] loop_Inl [of False path st]
      by (cases up) (auto simp: backtrack_any_def Let_def fails_def leave_def at_node_def)
  next
    case False
    then have k: "rn_kind n = pkind" "vs \<noteq> []" using b by (cases "rn_kind n"; auto simp: behind_def)+
    have "drop (i - length (last vs)) path = last vs @ s" using b k by (auto simp: behind_def Let_def)
    moreover have "snd (f_params st ! (length vs - 1)) = last vs"
      using k(2) stf(6,7) by (metis One_nat_def diff_less last_conv_nth length_greater_0_conv length_map length_take min.absorb2 nth_map nth_take zero_less_one)
    moreover have "map snd (take (length vs - 1) (f_params st)) = butlast vs"
      using stf(6) by (metis (no_types, lifting) butlast_conv_take diff_le_self min.absorb1 take_map take_take)
    ultimately show ?thesis
      using step stf k loop_Inr [of False path st] loop_Inl [of False path st]
      by (cases up) (auto simp: backtrack_any_def Let_def fails_def leave_def at_node_def)
  qed
  then show ?thesis using None by (simp add: ends_def)
qed

abbreviation search_wild :: "'h rnode \<Rightarrow> string \<Rightarrow> ('h rnode \<times> string list) option" where
  "search_wild n s \<equiv>
     orelse
      (if s = [] then None
       else case rn_param n of
         None \<Rightarrow> None
       | Some c \<Rightarrow> map_option (apsnd ((#) (segment s))) (search_from c (drop (length (segment s)) s)))
      (case rn_any n of None \<Rightarrow> None | Some c \<Rightarrow> Some (c, [s]))"

lemma param_run:
  assumes st: "at_node Param n up s i vs cap st" and n: "in_tree rt cap u n" "length vs = wild u" and b: "behind n s i vs path"
    and IH: "\<And>c up s i vs st u. rn_param n = Some c \<Longrightarrow> at_node Static c up s i vs cap st \<Longrightarrow> in_tree rt cap u c \<Longrightarrow> length vs = wild u \<Longrightarrow>
      behind c s i vs path \<Longrightarrow> ends c up s i vs cap path (search_from c s) (find_loop False path st)"
  shows "ends n up s i vs cap path (search_wild n s) (find_loop False path st)"
proof (cases "s = [] \<or> rn_param n = None")
  case True
  have "find_step False path st = Inl (st\<lparr>f_block := Any\<rparr>)"
    using st True by (auto simp: find_step_def at_node_def step_param_def Let_def split: option.splits)
  moreover have "at_node Any n up s i vs cap (st\<lparr>f_block := Any\<rparr>)" using st by (simp add: at_node_def)
  ultimately have "ends n up s i vs cap path (case rn_any n of None \<Rightarrow> None | Some c \<Rightarrow> Some (c, [s])) (find_loop False path st)"
    using any_run [OF _ n b] loop_Inl [of False path st] by fastforce
  then show ?thesis using True by auto
next
  case False
  then obtain c where c: "rn_param n = Some c" and s: "s \<noteq> []" by auto
  note ct = in_tree_param [OF n(1) c]
  define w r where "w = segment s" and "r = drop (length (segment s)) s"
  have sw: "s = w @ r" unfolding w_def r_def segment_def by (metis takeWhile_dropWhile_id dropWhile_eq_drop)
  obtain st1 where st1: "find_step False path st = Inl st1" "f_block st1 = Top"
      "at_node Static c (n # up) r (i + length w) (vs @ [w]) cap (st1\<lparr>f_block := Static\<rparr>)"
    using st n(2) ct c s
    by (auto simp: find_step_def at_node_def step_param_def Let_def param_value_def w_def r_def segment_def set_value_def take_Suc_conv_app_nth)
  have "find_step False path st1 = Inl (st1\<lparr>f_block := Static\<rparr>)" using st1 ct by (simp add: find_step_def step_top_def at_node_def Let_def)
  then have eq: "find_loop False path st = find_loop False path (st1\<lparr>f_block := Static\<rparr>)"
    using loop_Inl [OF st1(1)] loop_Inl [of False path st1] by simp
  obtain d where "path = d @ s" "i = length d" using b by (auto simp: behind_def Let_def)
  then have "behind c r (i + length w) (vs @ [w]) path" using ct sw by (simp add: behind_def)
  then have c_ends: "ends c (n # up) r (i + length w) (vs @ [w]) cap path (search_from c r) (find_loop False path st)"
    using IH [OF c st1(3), of "u @ '':''"] ct n(2) eq by simp
  show ?thesis
  proof (cases "search_from c r")
    case None
    then obtain st2 where st2: "at_node Any n up s i vs cap st2" "find_loop False path st = find_loop False path st2"
      using c_ends ct by (auto simp: ends_def fails_def sw)
    then show ?thesis using any_run [OF st2(1) n b] None c s by (simp add: w_def r_def)
  next
    case (Some mw)
    then show ?thesis using c_ends c s by (cases mw) (auto simp: ends_def w_def r_def)
  qed
qed

lemma static_run:
  assumes "at_node Static n up s i vs cap st" "in_tree rt cap u n" "length vs = wild u" "behind n s i vs path"
  shows "ends n up s i vs cap path (search_from n s) (find_loop False path st)"
  using assms
proof (induction n arbitrary: up s i vs st u rule: measure_induct_rule [of size])
  case (less n)
  note st = less(2) and n = less(3,4) and b = less(5)
  have param: "ends n up s i vs cap path (search_wild n s) (find_loop False path st')" if "at_node Param n up s i vs cap st'" for st'
    by (rule param_run [OF that n b]) (rule less(1) [OF child_size(2)])
  show ?case
  proof (cases "s = []")
    case True
    show ?thesis
    proof (cases "serves n")
      case sv: True
      then have "length (rn_pnames n) = length vs" using tree_okD(3) [of "wild u" n] in_tree_ok [OF n(1)] n(2) by (auto simp: serves_def)
      then have "returned n vs (leave (Some n) (rn_handlers n) st)" using st by (intro leave_returned) (auto simp: at_node_def)
      moreover have "find_step False path st = Inr (leave (Some n) (rn_handlers n) st)"
        using st True sv by (auto simp: find_step_def at_node_def step_static_def Let_def serves_def)
      ultimately show ?thesis using True sv loop_Inr [of False path st] by (simp add: ends_def search_from.simps [of n])
    next
      case False
      let ?st = "st\<lparr>f_tsr := f_tsr st \<or> slash_below n, f_block := Param\<rparr>"
      have "find_step False path st = Inl ?st"
        using st True False by (auto simp: find_step_def at_node_def step_static_def Let_def serves_def)
      moreover have "at_node Param n up s i vs cap ?st" using st by (simp add: at_node_def)
      moreover have "search_from n s = search_wild n s" using True False by (subst search_from.simps) auto
      ultimately show ?thesis using param [of ?st] loop_Inl [of False path st] by simp
    qed
  next
    case s: False
    let ?st = "st\<lparr>f_tsr := f_tsr st \<or> s = ''/'' \<and> rn_handlers n \<noteq> None\<rparr>"
    show ?thesis
    proof (cases "findChild n (hd s)")
      case None
      have "find_step False path st = Inl (?st\<lparr>f_block := Param\<rparr>)"
        using st s None by (auto simp: find_step_def at_node_def step_static_def Let_def hd_conv_nth)
      moreover have "at_node Param n up s i vs cap (?st\<lparr>f_block := Param\<rparr>)" using st by (simp add: at_node_def)
      ultimately show ?thesis
        using param [of "?st\<lparr>f_block := Param\<rparr>"] s None loop_Inl [of False path st] by (simp add: search_from.simps [of n])
    next
      case (Some c)
      note ct = in_tree_static [OF n(1) Some]
      define st1 where "st1 = ?st\<lparr>f_cn := c, f_above := n # up, f_block := Top\<rparr>"
      have "find_step False path st = Inl st1"
        using st s Some by (auto simp: find_step_def at_node_def step_static_def Let_def hd_conv_nth st1_def)
      then have eq: "find_loop False path st = find_loop False path st1" by (rule loop_Inl)
      have tail: ?thesis if "at_node Param n up s i vs cap st2" "find_loop False path st = find_loop False path st2"
          "take (length (rn_prefix c)) s = rn_prefix c \<Longrightarrow> search_from c (drop (length (rn_prefix c)) s) = None" for st2
        using param [OF that(1)] that(2,3) s Some by (subst search_from.simps) auto
      show ?thesis
      proof (cases "take (length (rn_prefix c)) s = rn_prefix c")
        case False
        obtain st2 where "find_step False path st1 = Inl st2" "at_node Param n up s i vs cap st2"
          using st False ct by (auto simp: find_step_def step_top_def st1_def at_node_def Let_def)
        then show ?thesis using tail False eq loop_Inl [of False path st1] by metis
      next
        case True
        define r where "r = drop (length (rn_prefix c)) s"
        have sr: "s = rn_prefix c @ r" using True unfolding r_def by (metis append_take_drop_id)
        have len: "length (rn_prefix c) \<le> length s" using arg_cong [OF sr, of length] by simp
        obtain st2 where st2: "find_step False path st1 = Inl st2" "at_node Static c (n # up) r (i + length (rn_prefix c)) vs cap st2"
          using st True ct len by (simp add: find_step_def step_top_def st1_def at_node_def Let_def flip: r_def)
        obtain d where "path = d @ s" "i = length d" using b by (auto simp: behind_def Let_def)
        then have bc: "behind c r (i + length (rn_prefix c)) vs path" using ct sr by (simp add: behind_def)
        have c_ends: "ends c (n # up) r (i + length (rn_prefix c)) vs cap path (search_from c r) (find_loop False path st)"
          using less(1) [OF child_size(1) [OF Some] st2(2) _ _ bc, of "u @ rn_prefix c"] ct n(2) eq loop_Inl [OF st2(1)] by simp
        show ?thesis
        proof (cases "search_from c r")
          case None
          then obtain st3 where "at_node Param n up s i vs cap st3" "find_loop False path st = find_loop False path st3"
            using c_ends ct by (auto simp: ends_def fails_def sr)
          then show ?thesis using tail None by (simp add: r_def)
        next
          case mw: (Some mw)
          then have "search_from n s = Some mw" using True s Some by (subst search_from.simps) (simp add: r_def)
          then show ?thesis using c_ends mw by (cases mw) (auto simp: ends_def)
        qed
      qed
    qed
  qed
qed

section \<open>What a key matches\<close>

text \<open>
  A key matches a path with values for its wildcards: a parameter stands for bytes without a slash, at the least the path must not be
  over; a catch-all stands for the rest.
\<close>

fun key_match :: "string \<Rightarrow> string \<Rightarrow> string list \<Rightarrow> bool" where
  "key_match [] p vs \<longleftrightarrow> p = [] \<and> vs = []"
| "key_match (c # k) p vs \<longleftrightarrow>
     (if c = CHR '':'' then
        (case vs of
           [] \<Rightarrow> False
         | v # vs' \<Rightarrow> p \<noteq> [] \<and> CHR ''/'' \<notin> set v \<and> take (length v) p = v \<and> key_match k (drop (length v) p) vs')
      else if c = CHR ''*'' then k = [] \<and> vs = [p]
      else (case p of [] \<Rightarrow> False | b # p' \<Rightarrow> b = c \<and> key_match k p' vs))"

text \<open>Which of two keys is preferred: at the first difference, a byte before a parameter and a parameter before a catch-all.\<close>

definition rank :: "char \<Rightarrow> nat" where
  "rank c = (if c = CHR '':'' then 1 else if c = CHR ''*'' then 2 else 0)"

fun key_le :: "string \<Rightarrow> string \<Rightarrow> bool" where
  "key_le [] k' = True"
| "key_le (c # k) [] = False"
| "key_le (c # k) (c' # k') = (if c = c' then key_le k k' else rank c < rank c')"

lemma key_match_static: "nowild q \<Longrightarrow> key_match (q @ k) s ws \<longleftrightarrow> take (length q) s = q \<and> key_match k (drop (length q) s) ws"
proof (induction q arbitrary: s)
  case (Cons c q)
  then have c: "c \<noteq> CHR '':''" "c \<noteq> CHR ''*''" "nowild q" by simp_all
  show ?case using Cons(1) [OF c(3)] by (cases s) (simp_all add: c)
qed simp

lemma key_le_static [simp]: "key_le (q @ k) (q @ k') = key_le k k'"
  by (induction q) auto

definition node_below :: "'h rnode \<Rightarrow> string \<Rightarrow> 'h rnode option" where
  "node_below n k = (if k = [] then Some n else case findChildWithLabel n (hd k) of None \<Rightarrow> None | Some c \<Rightarrow> node_at c k)"

lemma node_at_below: "rn_prefix c \<noteq> [] \<Longrightarrow> node_at c k = Some m \<longleftrightarrow> (\<exists>k2. k = rn_prefix c @ k2 \<and> node_below c k2 = Some m)"
  by (metis node_at_append node_at_split node_below_def option.distinct(1))

lemma below_static:
  "findChild n l = Some c \<Longrightarrow> rn_prefix c \<noteq> [] \<Longrightarrow> hd (rn_prefix c) = l \<Longrightarrow> node_below n (rn_prefix c @ k) = node_below c k"
  by (simp add: findChild_def node_below_def findChildWithLabel_def node_at_append)

lemma below_wild:
  assumes "tree_ok d n"
  shows "rn_param n = Some c \<Longrightarrow> node_below n (CHR '':'' # k) = node_below c k"
    "rn_any n = Some c \<Longrightarrow> node_below n ''*'' = Some c"
proof -
  have f: "find_label (CHR '':'') (rn_children n) = None" "find_label (CHR ''*'') (rn_children n) = None"
    using static_label [OF assms] by (simp_all add: find_label_free)
  show "node_below n (CHR '':'' # k) = node_below c k" if "rn_param n = Some c"
    using that f tree_okD(5) [of "Suc d" c] tree_okD(10) [OF assms that] node_at_append [of c k]
    by (simp add: node_below_def findChildWithLabel_def)
  show "node_below n ''*'' = Some c" if "rn_any n = Some c"
    using that f tree_okD(6) [of "Suc d" c] tree_okD(11) [OF assms that] node_at_append [of c "[]"]
    by (simp add: node_below_def findChildWithLabel_def)
qed

lemma below_cases [consumes 2, case_names here static param any]:
  assumes "tree_ok d n" "node_below n k = Some m"
    and "k = [] \<Longrightarrow> m = n \<Longrightarrow> P"
    and "\<And>c k2. findChild n (hd k) = Some c \<Longrightarrow> k = rn_prefix c @ k2 \<Longrightarrow> node_below c k2 = Some m \<Longrightarrow> k \<noteq> [] \<Longrightarrow> P"
    and "\<And>c k2. rn_param n = Some c \<Longrightarrow> k = CHR '':'' # k2 \<Longrightarrow> node_below c k2 = Some m \<Longrightarrow> k2 = [] \<or> hd k2 = CHR ''/'' \<Longrightarrow> P"
    and "rn_any n = Some m \<Longrightarrow> k = ''*'' \<Longrightarrow> P"
  shows P
proof (cases "k = []")
  case True
  then show ?thesis using assms(2,3) by (simp add: node_below_def)
next
  case k: False
  then obtain c where c: "findChildWithLabel n (hd k) = Some c" "node_at c k = Some m"
    using assms(2) by (auto simp: node_below_def split: option.splits)
  note cc = child_cases [OF assms(1) c(1)]
  then have ct: "tree_ok (d + wild (rn_prefix c)) c" by simp
  then obtain k2 where k2: "k = rn_prefix c @ k2" "node_below c k2 = Some m" using c(2) node_at_below tree_okD(1) by blast
  consider "hd k = CHR '':''" | "hd k = CHR ''*''" | "hd k \<noteq> CHR '':''" "hd k \<noteq> CHR ''*''" by blast
  then show ?thesis
  proof cases
    case 1
    then have p: "rn_kind c = pkind" "rn_param n = Some c" "rn_prefix c = '':''" using cc tree_okD(5) [OF ct] by simp_all
    have "k2 = [] \<or> hd k2 = CHR ''/''"
    proof (cases "k2 = []")
      case False
      then obtain c2 where "findChildWithLabel c (hd k2) = Some c2" using k2(2) by (auto simp: node_below_def split: option.splits)
      from child_cases [OF ct this] show ?thesis using p(1) by (auto split: if_splits)
    qed simp
    then show ?thesis using assms(5) p k2 by simp
  next
    case 2
    then have a: "rn_kind c = akind" "rn_any n = Some c" using cc by simp_all
    from tree_okD(6) [OF ct a(1)] have a2: "rn_prefix c = ''*''" "k2 = []"
      using k2(2) by (auto simp: node_below_def findChildWithLabel_def split: if_splits)
    then show ?thesis using assms(6) a k2 by (simp add: node_below_def)
  next
    case 3
    then have "findChild n (hd k) = Some c" using c(1) by (auto simp: findChild_def findChildWithLabel_def split: option.splits)
    then show ?thesis using assms(4) k2 k by blast
  qed
qed

section \<open>The search finds the preferred match\<close>

definition candidate :: "'h rnode \<Rightarrow> string \<Rightarrow> string \<Rightarrow> bool" where
  "candidate n s k \<longleftrightarrow> (\<exists>m vs. node_below n k = Some m \<and> serves m \<and> key_match k s vs)"

definition best :: "'h rnode \<Rightarrow> string \<Rightarrow> ('h rnode \<times> string list) option \<Rightarrow> bool" where
  "best n s r \<longleftrightarrow>
     (case r of
        None \<Rightarrow> \<forall>k. \<not> candidate n s k
      | Some (m, ws) \<Rightarrow> rn_handlers m \<noteq> None \<and>
          (\<exists>k. node_below n k = Some m \<and> key_match k s ws \<and> (\<forall>k'. candidate n s k' \<longrightarrow> key_le k k')))"

lemma bestI:
  "rn_handlers m \<noteq> None \<Longrightarrow> node_below n k = Some m \<Longrightarrow> key_match k s ws \<Longrightarrow> (\<And>k'. candidate n s k' \<Longrightarrow> key_le k k') \<Longrightarrow>
   best n s (Some (m, ws))"
  unfolding best_def by auto

lemma take_segment:
  assumes "take (length v) s = v" "CHR ''/'' \<notin> set v" "drop (length v) s = [] \<or> hd (drop (length v) s) = CHR ''/''"
  shows "v = segment s"
proof -
  obtain q where s: "s = v @ q" using assms(1) by (metis append_take_drop_id)
  have "segment v = v" using assms(2) by (auto simp: segment_def takeWhile_eq_all_conv)
  moreover have "segment s = v @ segment q" using assms(2) unfolding s segment_def by (intro takeWhile_append2) blast
  moreover have "segment q = []" using assms(3) by (cases q) (auto simp: s segment_def)
  ultimately show ?thesis by simp
qed

lemma candidate_cases [consumes 2, case_names here static param any]:
  assumes "tree_ok d n" "candidate n s k"
    and "k = [] \<Longrightarrow> s = [] \<Longrightarrow> serves n \<Longrightarrow> P"
    and "\<And>c k2. s \<noteq> [] \<Longrightarrow> findChild n (hd s) = Some c \<Longrightarrow> k = rn_prefix c @ k2 \<Longrightarrow> take (length (rn_prefix c)) s = rn_prefix c \<Longrightarrow>
           candidate c (drop (length (rn_prefix c)) s) k2 \<Longrightarrow> P"
    and "\<And>c k2. s \<noteq> [] \<Longrightarrow> rn_param n = Some c \<Longrightarrow> k = CHR '':'' # k2 \<Longrightarrow> candidate c (drop (length (segment s)) s) k2 \<Longrightarrow> P"
    and "\<And>c. rn_any n = Some c \<Longrightarrow> k = ''*'' \<Longrightarrow> P"
  shows P
proof -
  obtain m vs where m: "node_below n k = Some m" "serves m" "key_match k s vs" using assms(2) unfolding candidate_def by blast
  from assms(1) m(1) show ?thesis
  proof (cases rule: below_cases)
    case here
    then show ?thesis using assms(3) m(2,3) by simp
  next
    case (static c k2)
    have c: "tree_ok d c" "rn_kind c = skind" "rn_label c = hd k" using static(1) find_label_Some tree_okD(8) [OF assms(1)] by (auto simp: findChild_def)
    have nw: "nowild (rn_prefix c)" "rn_prefix c \<noteq> []" using tree_okD(1,4) [OF c(1)] c(2) by auto
    have mt: "take (length (rn_prefix c)) s = rn_prefix c" "key_match k2 (drop (length (rn_prefix c)) s) vs"
      using m(3) key_match_static [OF nw(1)] by (simp_all add: static(2))
    have "s \<noteq> []" using mt(1) nw(2) by auto
    moreover have "hd s = hd (rn_prefix c)" using mt(1) nw(2) by (metis \<open>s \<noteq> []\<close> hd_take length_greater_0_conv)
    moreover have "hd (rn_prefix c) = hd k" using tree_okD(2) [OF c(1)] c(3) by simp
    ultimately show ?thesis using assms(4) static mt m(2) by (auto simp: candidate_def)
  next
    case (param c k2)
    obtain v vs' where v: "vs = v # vs'" "s \<noteq> []" "CHR ''/'' \<notin> set v" "take (length v) s = v" "key_match k2 (drop (length v) s) vs'"
      using m(3) by (auto simp: param(2) split: list.splits)
    have "drop (length v) s = [] \<or> hd (drop (length v) s) = CHR ''/''"
    proof (cases k2)
      case (Cons b k3)
      then have "b = CHR ''/''" using param(4) by simp
      then show ?thesis using v(5) Cons by (cases "drop (length v) s") simp_all
    qed (use v(5) in simp)
    then have "v = segment s" using take_segment v(3,4) by blast
    then show ?thesis using assms(5) v param m(2) by (auto simp: candidate_def)
  next
    case any
    then show ?thesis using assms(6) by blast
  qed
qed

lemma search_best: "tree_ok d n \<Longrightarrow> best n s (search_from n s)"
proof (induction n arbitrary: d s rule: measure_induct_rule [of size])
  case (less n)
  note nt = less(2)
  have static: "tree_ok d c \<and> rn_kind c = skind \<and> nowild (rn_prefix c) \<and> rn_prefix c \<noteq> [] \<and> hd (rn_prefix c) = l \<and> rank l = 0"
    if "findChild n l = Some c" for c l
  proof -
    have c: "tree_ok d c" "rn_kind c = skind" "rn_label c = l" using that find_label_Some tree_okD(8) [OF nt] by (auto simp: findChild_def)
    have "l \<noteq> CHR '':''" "l \<noteq> CHR ''*''" using static_label [OF nt, of c] c(3) that find_label_Some by (auto simp: findChild_def)
    then show ?thesis using c tree_okD(1,2,4) [OF c(1)] by (auto simp: rank_def)
  qed
  have IHs: "best c r (search_from c r)" if "findChild n l = Some c" for c l r using less(1) [OF child_size(1) [OF that]] static [OF that] by blast
  have IHp: "best c r (search_from c r)" if "rn_param n = Some c" for c r using less(1) [OF child_size(2) [OF that]] tree_okD(10) [OF nt that] by blast
  define sr where "sr = (if s = [] then None else case findChild n (hd s) of
      None \<Rightarrow> None
    | Some c \<Rightarrow> if take (length (rn_prefix c)) s = rn_prefix c then search_from c (drop (length (rn_prefix c)) s) else None)"
  define pr where "pr = (if s = [] then None else case rn_param n of
      None \<Rightarrow> None
    | Some c \<Rightarrow> map_option (apsnd ((#) (segment s))) (search_from c (drop (length (segment s)) s)))"
  show ?case
  proof (cases "s = [] \<and> serves n")
    case True
    then have "search_from n s = Some (n, [])" by (subst search_from.simps) simp
    then show ?thesis using True by (auto simp: best_def serves_def node_below_def intro!: exI [of _ "[]"])
  next
    case nh: False
    have eq: "search_from n s = orelse sr (orelse pr (case rn_any n of None \<Rightarrow> None | Some c \<Rightarrow> Some (c, [s])))"
      unfolding search_from.simps [of n s] if_not_P [OF nh] sr_def pr_def ..
    consider (st) m ws where "sr = Some (m, ws)" | (pa) m ws where "sr = None" "pr = Some (m, ws)" | (an) "sr = None" "pr = None"
      by (cases sr; cases pr) auto
    then show ?thesis
    proof cases
      case st
      then obtain c where c: "s \<noteq> []" "findChild n (hd s) = Some c" "take (length (rn_prefix c)) s = rn_prefix c"
          "search_from c (drop (length (rn_prefix c)) s) = Some (m, ws)"
        by (auto simp: sr_def split: if_splits option.splits)
      note sc = static [OF c(2)]
      obtain k2 where k2: "rn_handlers m \<noteq> None" "node_below c k2 = Some m" "key_match k2 (drop (length (rn_prefix c)) s) ws"
          "\<And>k'. candidate c (drop (length (rn_prefix c)) s) k' \<Longrightarrow> key_le k2 k'"
        using IHs [OF c(2), of "drop (length (rn_prefix c)) s"] unfolding best_def c(4) by auto
      have "key_le (rn_prefix c @ k2) k'" if "candidate n s k'" for k' using nt that
      proof (cases rule: candidate_cases)
        case (static c' k3)
        then show ?thesis using k2(4) c(2) by simp
      next
        case (param c' k3)
        then show ?thesis using sc by (cases "rn_prefix c") (auto simp: rank_def)
      next
        case (any c')
        then show ?thesis using sc by (cases "rn_prefix c") (auto simp: rank_def)
      qed (use c(1) in simp)
      moreover have "node_below n (rn_prefix c @ k2) = Some m" using below_static [OF c(2)] sc k2(2) by simp
      moreover have "key_match (rn_prefix c @ k2) s ws" using key_match_static sc c(3) k2(3) by simp
      ultimately have "best n s (Some (m, ws))" using k2(1) by (rule_tac bestI) blast+
      then show ?thesis using eq st by simp
    next
      case pa
      then obtain c ws' where c: "s \<noteq> []" "rn_param n = Some c" "search_from c (drop (length (segment s)) s) = Some (m, ws')" "ws = segment s # ws'"
        by (auto simp: pr_def split: if_splits option.splits)
      obtain k2 where k2: "rn_handlers m \<noteq> None" "node_below c k2 = Some m" "key_match k2 (drop (length (segment s)) s) ws'"
          "\<And>k'. candidate c (drop (length (segment s)) s) k' \<Longrightarrow> key_le k2 k'"
        using IHp [OF c(2), of "drop (length (segment s)) s"] unfolding best_def c(3) by auto
      have "key_le (CHR '':'' # k2) k'" if "candidate n s k'" for k' using nt that
      proof (cases rule: candidate_cases)
        case (static c' k3)
        then have "search_from c' (drop (length (rn_prefix c')) s) = None" using pa(1) by (simp add: sr_def)
        then show ?thesis using IHs [OF static(2), of "drop (length (rn_prefix c')) s"] static(5) by (simp add: best_def)
      next
        case (param c' k3)
        then show ?thesis using k2(4) c(2) by simp
      qed (use c(1) in \<open>simp_all add: rank_def\<close>)
      moreover have "key_match (CHR '':'' # k2) s ws"
      proof -
        have "take (length (segment s)) s = segment s" unfolding segment_def by (metis takeWhile_eq_take)
        moreover have "CHR ''/'' \<notin> set (segment s)" unfolding segment_def by (auto dest: set_takeWhileD)
        ultimately show ?thesis using c(1,4) k2(3) by simp
      qed
      moreover have "node_below n (CHR '':'' # k2) = Some m" using below_wild(1) [OF nt c(2)] k2(2) by simp
      ultimately have "best n s (Some (m, ws))" using k2(1) by (rule_tac bestI) blast+
      then show ?thesis using eq pa by simp
    next
      case an
      have none: False if "candidate n s k'" "k' \<noteq> ''*'' \<or> rn_any n = None" for k' using nt that(1)
      proof (cases rule: candidate_cases)
        case here
        then show ?thesis using nh by simp
      next
        case (static c' k3)
        then have "search_from c' (drop (length (rn_prefix c')) s) = None" using an(1) by (simp add: sr_def)
        then show ?thesis using IHs [OF static(2), of "drop (length (rn_prefix c')) s"] static(5) by (simp add: best_def)
      next
        case (param c' k3)
        then have "search_from c' (drop (length (segment s)) s) = None" using an(2) by (simp add: pr_def)
        then show ?thesis using IHp [OF param(2), of "drop (length (segment s)) s"] param(4) by (simp add: best_def)
      next
        case (any c')
        then show ?thesis using that(2) by simp
      qed
      show ?thesis
      proof (cases "rn_any n")
        case None
        then show ?thesis using none eq an by (auto simp: best_def)
      next
        case (Some c)
        have "key_le ''*'' k'" if "candidate n s k'" for k' using none [OF that] by fastforce
        moreover have "rn_handlers c \<noteq> None" using tree_okD(6) tree_okD(11) [OF nt Some] by blast
        moreover have "key_match ''*'' s [s]" by simp
        ultimately have "best n s (Some (c, [s]))" using below_wild(2) [OF nt Some] by (rule_tac bestI) blast+
        then show ?thesis using eq an Some by simp
      qed
    qed
  qed
qed

section \<open>The search returns\<close>

text \<open>The loop ends, or it leaves a node for the one above it, at the block after the one that entered the node.\<close>

definition settles :: "bool \<Rightarrow> string \<Rightarrow> 'h rnode \<Rightarrow> 'h rnode list \<Rightarrow> 'h fstate \<Rightarrow> bool" where
  "settles ue path n up st \<longleftrightarrow>
     (\<exists>res. find_loop ue path st = Some res) \<or>
     (\<exists>st' p ps. up = p # ps \<and> find_loop ue path st = find_loop ue path st' \<and> f_cn st' = p \<and> f_above st' = ps \<and>
        f_block st' = (if rn_kind n = skind then Param else Any))"

lemma settles_step: "find_step ue path st = Inl st' \<Longrightarrow> settles ue path n up st' \<Longrightarrow> settles ue path n up st"
  using loop_Inl [of ue path st st'] by (simp add: settles_def)

lemma settles_end: "find_step ue path st = Inr res \<Longrightarrow> settles ue path n up st"
  using loop_Inr [of ue path st res] by (simp add: settles_def)

lemma settles_child:
  assumes "settles ue path c (n # up) st"
    "\<And>st'. f_cn st' = n \<Longrightarrow> f_above st' = up \<Longrightarrow> f_block st' = (if rn_kind c = skind then Param else Any) \<Longrightarrow> settles ue path n up st'"
  shows "settles ue path n up st"
  using assms by (fastforce simp: settles_def)

lemma any_settles:
  assumes "f_block st = Any" "f_cn st = n" "f_above st = up"
  shows "settles ue path n up st"
proof (cases "find_step ue path st")
  case (Inl st')
  then have "backtrack_any path st = Inl st'" "rn_any n = None"
    using assms by (auto simp: find_step_def step_any_def Let_def split: option.splits if_splits)
  then obtain p ps where "up = p # ps" "f_cn st' = p" "f_above st' = ps" "f_block st' = (if rn_kind n = skind then Param else Any)"
    using assms by (auto simp: backtrack_any_def Let_def split: if_splits list.splits)
  then show ?thesis using loop_Inl [OF Inl] by (auto simp: settles_def)
qed (rule settles_end)

lemma param_settles:
  assumes "f_block st = Param" "f_cn st = n" "f_above st = up" "tree_ok d n"
    and IH: "\<And>c st. rn_param n = Some c \<Longrightarrow> f_block st = Top \<Longrightarrow> f_cn st = c \<Longrightarrow> f_above st = n # up \<Longrightarrow> settles ue path c (n # up) st"
  shows "settles ue path n up st"
proof (cases "find_step ue path st")
  case (Inl st')
  then consider "f_block st' = Any" "f_cn st' = n" "f_above st' = up"
    | c where "rn_param n = Some c" "f_block st' = Top" "f_cn st' = c" "f_above st' = n # up"
    using assms(1-3) by (auto simp: find_step_def step_param_def Let_def split: option.splits if_splits)
  then show ?thesis
  proof cases
    case 1
    then show ?thesis using settles_step [OF Inl] any_settles by blast
  next
    case 2
    have "rn_kind c = pkind" using tree_okD(10) [OF assms(4) 2(1)] by blast
    then have "settles ue path n up st'" by (intro settles_child [OF IH [OF 2]] any_settles) simp_all
    then show ?thesis using settles_step [OF Inl] by blast
  qed
qed (rule settles_end)

lemma top_settles:
  "tree_ok d n \<Longrightarrow> f_block st = Top \<Longrightarrow> f_cn st = n \<Longrightarrow> f_above st = up \<Longrightarrow> settles ue path n up st"
proof (induction n arbitrary: d up st rule: measure_induct_rule [of size])
  case (less n)
  have pa: "settles ue path n up st'" if "f_block st' = Param" "f_cn st' = n" "f_above st' = up" for st'
    using that less(2) by (rule param_settles) (use less(1) child_size(2) tree_okD(10) [OF less(2)] in blast)
  have st: "settles ue path n up st'" if at: "f_block st' = Static" "f_cn st' = n" "f_above st' = up" for st'
  proof (cases "find_step ue path st'")
    case (Inl st2)
    then consider "f_block st2 = Param" "f_cn st2 = n" "f_above st2 = up"
      | c l where "findChild n l = Some c" "f_block st2 = Top" "f_cn st2 = c" "f_above st2 = n # up"
      using at by (auto simp: find_step_def step_static_def Let_def split: option.splits if_splits)
    then show ?thesis
    proof cases
      case 1
      then show ?thesis using settles_step [OF Inl] pa by blast
    next
      case 2
      have c: "rn_kind c = skind" "tree_ok d c"
        using tree_okD(8) [OF less(2)] find_label_Some [of l "rn_children n" c] 2(1) by (auto simp: findChild_def)
      have "settles ue path c (n # up) st2" using less(1) [OF child_size(1) [OF 2(1)] c(2) 2(2-4)] .
      then show ?thesis using settles_child pa c(1) settles_step [OF Inl] by metis
    qed
  qed (rule settles_end)
  show ?case
  proof (cases "find_step ue path st")
    case (Inl st2)
    then consider "f_block st2 = Static" "f_cn st2 = n" "f_above st2 = up"
      | p ps where "rn_kind n = skind" "up = p # ps" "f_block st2 = Param" "f_cn st2 = p" "f_above st2 = ps"
      using less(3-5) by (auto simp: find_step_def step_top_def Let_def split: list.splits if_splits)
    then show ?thesis
    proof cases
      case 1
      then show ?thesis using settles_step [OF Inl] st by blast
    next
      case 2
      then show ?thesis using loop_Inl [OF Inl] by (auto simp: settles_def)
    qed
  qed (rule settles_end)
qed

text \<open>
  C25: The search of a tree built by \<open>addRoute\<close> returns (with a result or a panic), for every path, every state of the parameter
  slice and with or without unescaping, although it walks back and forth in the tree.
\<close>

theorem find_returns: "root_ok r \<Longrightarrow> \<exists>res. find r path params unescape = Some res"
proof (cases "r = empty_node")
  case True
  then show ?thesis
    unfolding find_def
    by (simp add: True empty_node_def find_loop.simps find_step_def step_top_def step_static_def step_param_def step_any_def backtrack_any_def
        findChild_def slash_below_def Let_def)
next
  case False
  assume "root_ok r"
  then have "tree_ok 0 r" using False by (auto simp: root_ok_def)
  from top_settles [OF this, of _ "[]"] show ?thesis unfolding find_def settles_def by simp
qed

theorem find_returns_witness: "\<exists>res. find (empty_node :: nat rnode) ''/a'' ([], 0) True = Some res"
  by (rule find_returns) (simp add: root_ok_def)

section \<open>The search serves the preferred route\<close>

lemma find_root:
  assumes "tree_ok 0 r" "rn_kind r = skind" "wild_bound (length ps) r"
  shows "case (if take (length (rn_prefix r)) path = rn_prefix r then search_from r (drop (length (rn_prefix r)) path) else None) of
      Some (m, ws) \<Rightarrow> \<exists>res. find r path (ps, 0) False = Some res \<and> returned m ws res
    | None \<Rightarrow> \<exists>tsr ps' l. find r path (ps, 0) False = Some (Returned \<lparr>nv_handlers = None, nv_tsr = tsr, nv_fullPath = []\<rparr> ps' l)"
proof -
  let ?st = "\<lparr>f_cn = r, f_above = [], f_search = path, f_index = 0, f_params = ps, f_len = 0, f_pidx = 0, f_tsr = False, f_block = Top\<rparr>"
  let ?pre = "rn_prefix r"
  have find: "find r path (ps, 0) False = find_loop False path ?st" by (simp add: find_def)
  show ?thesis
  proof (cases "take (length ?pre) path = ?pre")
    case False
    then have "find_step False path ?st = Inr (leave None None (?st\<lparr>f_tsr := length ?pre = length path + 1 \<and> ?pre ! length path = CHR ''/'' \<and>
        take (length path) ?pre = path \<and> (rn_handlers r \<noteq> None \<or> rn_any r \<noteq> None)\<rparr>))"
      using assms(2) by (auto simp: find_step_def step_top_def Let_def)
    then show ?thesis using False loop_Inr [of False path ?st] by (simp add: find leave_def)
  next
    case True
    then have p: "path = ?pre @ drop (length ?pre) path" by (metis append_take_drop_id)
    have len: "length ?pre \<le> length path" using arg_cong [OF p, of length] by simp
    let ?st2 = "?st\<lparr>f_search := drop (length ?pre) path, f_index := length ?pre, f_block := Static\<rparr>"
    have "find_step False path ?st = Inl ?st2" using True len assms(2) by (simp add: find_step_def step_top_def Let_def)
    then have eq: "find r path (ps, 0) False = find_loop False path ?st2" using loop_Inl find by simp
    have "node_at r ?pre = Some r" using node_at_append [of r "[]"] tree_okD(1) [OF assms(1)] by simp
    then have t: "in_tree r (length ps) ?pre r" using assms by (simp add: in_tree_def)
    have w: "wild ?pre = 0" using tree_okD(4) [OF assms(1,2)] by simp
    have "at_node Static r [] (drop (length ?pre) path) (length ?pre) [] (length ps) ?st2" by (simp add: at_node_def)
    moreover have "behind r (drop (length ?pre) path) (length ?pre) [] path" using assms(2) p by (auto simp: behind_def)
    ultimately have "ends r [] (drop (length ?pre) path) (length ?pre) [] (length ps) path (search_from r (drop (length ?pre) path)) (find_loop False path ?st2)"
      using static_run [OF _ t] w by simp
    then show ?thesis using True eq by (auto simp: ends_def fails_def split: option.splits)
  qed
qed

lemma find_empty: "\<exists>tsr ps' l. find empty_node path (ps, 0) False = Some (Returned \<lparr>nv_handlers = None, nv_tsr = tsr, nv_fullPath = []\<rparr> ps' l)"
  unfolding find_def
  by (simp add: empty_node_def find_loop.simps find_step_def step_top_def step_static_def step_param_def step_any_def backtrack_any_def
      findChild_def slash_below_def leave_def Let_def) blast

text \<open>What the search promises for a map of routes.\<close>

definition serves_best :: "(string \<Rightarrow> 'h route_info option) \<Rightarrow> string \<Rightarrow> 'h found \<Rightarrow> bool" where
  "serves_best rt path res \<longleftrightarrow>
     (case res of
        Panicked \<Rightarrow> False
      | Returned nv ps l \<Rightarrow>
          (case nv_handlers nv of
             None \<Rightarrow> \<forall>k hs pp ns vs. rt k = Some (hs, pp, ns) \<longrightarrow> key_match k path vs \<longrightarrow> hs = []
           | Some hs \<Rightarrow> \<exists>k ns vs. rt k = Some (hs, nv_fullPath nv, ns) \<and> key_match k path vs \<and> length vs = length ns \<and> take l ps = zip ns vs \<and>
               (\<forall>k' hs' pp' ns' vs'. rt k' = Some (hs', pp', ns') \<longrightarrow> hs' \<noteq> [] \<longrightarrow> key_match k' path vs' \<longrightarrow> key_le k k')))"

lemma key_match_length: "key_match k p vs \<Longrightarrow> length vs = wild k"
proof (induction k p vs rule: key_match.induct)
  case (2 c k p vs)
  then show ?case by (auto simp: wild_def split: if_splits list.splits)
qed simp

lemma find_serves:
  assumes "root_ok r" "wild_bound (length ps) r"
  shows "\<exists>res. find r path (ps, 0) False = Some res \<and> serves_best (route_at r) path res"
proof (cases "r = empty_node")
  case True
  then show ?thesis using find_empty [of path ps] by (auto simp: serves_best_def)
next
  case False
  then have r: "tree_ok 0 r" "rn_kind r = skind" using assms(1) by (auto simp: root_ok_def)
  let ?pre = "rn_prefix r" and ?s = "drop (length (rn_prefix r)) path"
  have nw: "nowild ?pre" "?pre \<noteq> []" using tree_okD(1,4) [OF r(1)] r(2) by auto
  have cand: "take (length ?pre) path = ?pre \<and> (\<exists>k2. k = ?pre @ k2 \<and> candidate r ?s k2)"
    if rt: "route_at r k = Some (hs, pp, ns)" "hs \<noteq> []" "key_match k path vs" for k hs pp ns vs
  proof -
    obtain m where m: "node_at r k = Some m" "rn_handlers m = Some hs"
      using rt(1) by (auto simp: route_at_def node_info_def bind_eq_Some_conv)
    obtain k2 where k2: "k = ?pre @ k2" "node_below r k2 = Some m" using m(1) node_at_below [OF nw(2)] by blast
    then show ?thesis using rt(2,3) m(2) key_match_static [OF nw(1)] by (auto simp: candidate_def serves_def)
  qed
  note f = find_root [OF r assms(2), of path]
  note b = search_best [OF r(1), of ?s]
  show ?thesis
  proof (cases "if take (length ?pre) path = ?pre then search_from r ?s else None")
    case None
    have "hs = []" if "route_at r k = Some (hs, pp, ns)" "key_match k path vs" for k hs pp ns vs
      using cand [OF that(1) _ that(2)] None b by (cases "hs = []") (auto simp: best_def)
    then show ?thesis using f None by (auto simp: serves_best_def)
  next
    case (Some mw)
    obtain m ws where mw: "mw = (m, ws)" by fastforce
    have t: "take (length ?pre) path = ?pre" "search_from r ?s = Some (m, ws)" using Some mw by (auto split: if_splits)
    obtain k2 where k2: "rn_handlers m \<noteq> None" "node_below r k2 = Some m" "key_match k2 ?s ws" "\<And>k'. candidate r ?s k' \<Longrightarrow> key_le k2 k'"
      using b t(2) by (auto simp: best_def)
    obtain hs where hs: "rn_handlers m = Some hs" using k2(1) by blast
    have at: "node_at r (?pre @ k2) = Some m" using node_at_below [OF nw(2)] k2(2) by blast
    then have route: "route_at r (?pre @ k2) = Some (hs, rn_ppath m, rn_pnames m)" by (simp add: route_at_def node_info_def hs)
    have km: "key_match (?pre @ k2) path ws" using key_match_static [OF nw(1)] t(1) k2(3) by simp
    have len: "length ws = length (rn_pnames m)"
    proof -
      have "in_tree r (length ps) (?pre @ k2) m" using at r assms(2) by (simp add: in_tree_def)
      then show ?thesis using in_tree_ok tree_okD(3) [of "wild (?pre @ k2)" m] hs key_match_length [OF km] by fastforce
    qed
    have best: "key_le (?pre @ k2) k'" if "route_at r k' = Some (hs', pp', ns')" "hs' \<noteq> []" "key_match k' path vs'" for k' hs' pp' ns' vs'
      using cand [OF that] k2(4) by auto
    obtain tsr ps' where res: "find r path (ps, 0) False = Some (Returned \<lparr>nv_handlers = Some hs, nv_tsr = tsr, nv_fullPath = rn_ppath m\<rparr> ps' (length ws))"
        "take (length ws) ps' = zip (rn_pnames m) ws"
      using f Some mw hs by (auto simp: returned_def)
    have "serves_best (route_at r) path (Returned \<lparr>nv_handlers = Some hs, nv_tsr = tsr, nv_fullPath = rn_ppath m\<rparr> ps' (length ws))"
      unfolding serves_best_def
      by (simp, intro exI [of _ "?pre @ k2"] exI [of _ "rn_pnames m"] exI [of _ ws] conjI allI impI)
        (use route km len res(2) in simp_all, (erule exE)+, rule best)
    then show ?thesis using res(1) by blast
  qed
qed

text \<open>
  C21: A router with routes added by \<open>addRoute\<close>, and a parameter slice with room for the wildcards of every route, serves each request
  path by the preferred route that matches it: the search returns, the chain and the path are those of a route whose key matches with
  the values returned under the names of the route, no matching route is preferred to it, and without a chain in the result no route
  with handlers matches.
\<close>

theorem router_serves_best_route:
  assumes "addRoutes routes empty_node = Some r" "\<forall>pr \<in> set routes. wild (fst (strip (fst pr))) \<le> length ps"
  shows "\<exists>res. find r path (ps, 0) False = Some res \<and> serves_best (map_of (map route_of routes)) path res"
proof -
  have e: "root_ok empty_node" "wild_bound (length ps) empty_node" by (simp_all add: root_ok_def wild_bound_def)
  have "route_at empty_node = Map.empty" by (simp add: fun_eq_iff)
  then have r: "root_ok r" "route_at r = map_of (map route_of routes)" using addRoutes_ok [OF e(1) assms(1)] by (simp_all add: map_add_def fun_eq_iff split: option.split)
  show ?thesis using find_serves [OF r(1) addRoutes_bound [OF e(1) assms(1) e(2) assms(2)], of path] r(2) by simp
qed

definition ex_routes :: "(string \<times> nat list) list" where
  "ex_routes = [(''/u/:id'', [1]), (''/u/me'', [2]), (''/u/:id/x'', [3]), (''/*rest'', [4])]"

theorem router_serves_best_route_witness:
  "\<exists>res. find (the (addRoutes ex_routes empty_node)) ''/u/mine/y'' (replicate 2 ([], []), 0) False = Some res \<and>
     serves_best (map_of (map route_of ex_routes)) ''/u/mine/y'' res"
proof (rule router_serves_best_route)
  have "addRoutes ex_routes empty_node \<noteq> None" by code_simp
  then show "addRoutes ex_routes empty_node = Some (the (addRoutes ex_routes empty_node))" by simp
  show "\<forall>pr \<in> set ex_routes. wild (fst (strip (fst pr))) \<le> length (replicate 2 ([] :: string, [] :: string))" by code_simp
qed

text \<open>What the search returns for some paths.\<close>

lemma find_examples:
  "find (the (addRoutes ex_routes empty_node)) ''/u/me'' (replicate 2 ([], []), 0) False =
     Some (Returned \<lparr>nv_handlers = Some [2], nv_tsr = False, nv_fullPath = ''/u/me''\<rparr> [([], []), ([], [])] 0)"
  "find (the (addRoutes ex_routes empty_node)) ''/u/mine/x'' (replicate 2 ([], []), 0) False =
     Some (Returned \<lparr>nv_handlers = Some [3], nv_tsr = False, nv_fullPath = ''/u/:id/x''\<rparr> [(''id'', ''mine''), ([], [])] 1)"
  by code_simp+

text \<open>The index that the unescaped value restores is wrong: the catch-all gets a part of the parameter.\<close>

lemma unescape_restores_wrong_index:
  "find (the (addRoutes [(''/:x/a'', [1]), (''/*y'', [2])] empty_node)) ''/%41/b'' (replicate 2 ([], []), 0) True =
     Some (Returned \<lparr>nv_handlers = Some [2 :: nat], nv_tsr = False, nv_fullPath = ''/*y''\<rparr> [(''y'', ''1/b''), ([], [])] 1)"
  by code_simp

end
