(* ===== verification/Api_Error.thy ===== *)
theory Api_Error
  imports Prelude
begin

text \<open>
  \<^verbatim>\<open>web/common/e\<close>: the errors that a handler returns to a client, and their translation to and from gRPC codes. The cause of
  an error, any Go error, is left out: no translation looks at it.
\<close>

section \<open>Errors\<close>

record ErrorCode =
  ec_Code :: int
  ec_Type :: string

record apiError =
  ae_Code :: int
  ae_Type :: string
  ae_Message :: string

definition NotFound :: ErrorCode where "NotFound = \<lparr>ec_Code = 404, ec_Type = ''NotFound''\<rparr>"
definition NotAcceptable :: ErrorCode where "NotAcceptable = \<lparr>ec_Code = 406, ec_Type = ''NotAcceptable''\<rparr>"
definition Unknown :: ErrorCode where "Unknown = \<lparr>ec_Code = 500, ec_Type = ''Unknown''\<rparr>"
definition Internal :: ErrorCode where "Internal = \<lparr>ec_Code = 500, ec_Type = ''InternalError''\<rparr>"
definition TooManyRequests :: ErrorCode where "TooManyRequests = \<lparr>ec_Code = 429, ec_Type = ''TooManyRequests''\<rparr>"
definition Unauthorized :: ErrorCode where "Unauthorized = \<lparr>ec_Code = 401, ec_Type = ''Unauthorized''\<rparr>"
definition Forbidden :: ErrorCode where "Forbidden = \<lparr>ec_Code = 403, ec_Type = ''Forbidden''\<rparr>"
definition Timeout :: ErrorCode where "Timeout = \<lparr>ec_Code = 408, ec_Type = ''Timeout''\<rparr>"
definition Unavailable :: ErrorCode where "Unavailable = \<lparr>ec_Code = 503, ec_Type = ''Unavailable''\<rparr>"
definition Aborted :: ErrorCode where "Aborted = \<lparr>ec_Code = 500, ec_Type = ''Aborted''\<rparr>"
definition DataLoss :: ErrorCode where "DataLoss = \<lparr>ec_Code = 500, ec_Type = ''DataLoss''\<rparr>"
definition Unimplemented :: ErrorCode where "Unimplemented = \<lparr>ec_Code = 501, ec_Type = ''Unimplemented''\<rparr>"
definition FailedPrecondition :: ErrorCode where "FailedPrecondition = \<lparr>ec_Code = 412, ec_Type = ''FailedPrecondition''\<rparr>"
definition Conflict :: ErrorCode where "Conflict = \<lparr>ec_Code = 400, ec_Type = ''Conflict''\<rparr>"
definition OutOfRange :: ErrorCode where "OutOfRange = \<lparr>ec_Code = 400, ec_Type = ''OutOfRange''\<rparr>"
definition InvalidArgument :: ErrorCode where "InvalidArgument = \<lparr>ec_Code = 400, ec_Type = ''InvalidArgument''\<rparr>"

lemmas error_codes = NotFound_def NotAcceptable_def Unknown_def Internal_def TooManyRequests_def Unauthorized_def Forbidden_def
  Timeout_def Unavailable_def Aborted_def DataLoss_def Unimplemented_def FailedPrecondition_def Conflict_def OutOfRange_def InvalidArgument_def

definition NewApiError :: "ErrorCode \<Rightarrow> string \<Rightarrow> apiError" where
  "NewApiError c msg = \<lparr>ae_Code = ec_Code c, ae_Type = ec_Type c, ae_Message = msg\<rparr>"

definition NewInternalError :: apiError where
  "NewInternalError = \<lparr>ae_Code = ec_Code Internal, ae_Type = ec_Type Internal, ae_Message = ''internal server error''\<rparr>"

definition IsInternalError :: "apiError \<Rightarrow> bool" where
  "IsInternalError e \<longleftrightarrow> ae_Code e = 500"

section \<open>gRPC codes\<close>

text \<open>The codes of \<^verbatim>\<open>google.golang.org/grpc/codes\<close> that the switch names; \<open>GOther\<close> stands for a code it does not name.\<close>

datatype grpc_code = GOK | GCanceled | GUnknown | GInvalidArgument | GDeadlineExceeded | GNotFound | GAlreadyExists | GPermissionDenied
  | GResourceExhausted | GFailedPrecondition | GAborted | GOutOfRange | GUnimplemented | GInternal | GUnavailable | GDataLoss
  | GUnauthenticated | GOther nat

type_synonym grpc_status = "grpc_code \<times> string"

definition ConvertGrpcCodeToErrorCode :: "grpc_status \<Rightarrow> apiError option" where
  "ConvertGrpcCodeToErrorCode s =
     (case fst s of
        GOK \<Rightarrow> None
      | GCanceled \<Rightarrow> Some (NewApiError Timeout ''request canceled'')
      | GUnknown \<Rightarrow> Some (NewApiError Unknown (snd s))
      | GInvalidArgument \<Rightarrow> Some (NewApiError InvalidArgument (snd s))
      | GDeadlineExceeded \<Rightarrow> Some (NewApiError Timeout ''deadline exceeded'')
      | GNotFound \<Rightarrow> Some (NewApiError NotFound (snd s))
      | GAlreadyExists \<Rightarrow> Some (NewApiError Conflict (snd s))
      | GPermissionDenied \<Rightarrow> Some (NewApiError Forbidden (snd s))
      | GResourceExhausted \<Rightarrow> Some (NewApiError TooManyRequests (snd s))
      | GFailedPrecondition \<Rightarrow> Some (NewApiError FailedPrecondition (snd s))
      | GAborted \<Rightarrow> Some (NewApiError Aborted (snd s))
      | GOutOfRange \<Rightarrow> Some (NewApiError OutOfRange (snd s))
      | GUnimplemented \<Rightarrow> Some (NewApiError Unimplemented ''unimplemented'')
      | GInternal \<Rightarrow> Some (NewApiError Internal (snd s))
      | GUnavailable \<Rightarrow> Some (NewApiError Unavailable ''service unavailable'')
      | GDataLoss \<Rightarrow> Some (NewApiError DataLoss ''data loss'')
      | GUnauthenticated \<Rightarrow> Some (NewApiError Unauthorized (snd s))
      | GOther _ \<Rightarrow> Some NewInternalError)"

definition ConvertErrorCodeToGrpcCode :: "apiError option \<Rightarrow> grpc_status" where
  "ConvertErrorCodeToGrpcCode err =
     (case err of
        None \<Rightarrow> (GOK, [])
      | Some e \<Rightarrow>
          (if ae_Type e = ec_Type Timeout then GDeadlineExceeded
           else if ae_Type e = ec_Type Unknown then GUnknown
           else if ae_Type e = ec_Type InvalidArgument then GInvalidArgument
           else if ae_Type e = ec_Type NotFound then GNotFound
           else if ae_Type e = ec_Type Conflict then GAlreadyExists
           else if ae_Type e = ec_Type Forbidden then GPermissionDenied
           else if ae_Type e = ec_Type TooManyRequests then GResourceExhausted
           else if ae_Type e = ec_Type FailedPrecondition then GFailedPrecondition
           else if ae_Type e = ec_Type Aborted then GAborted
           else if ae_Type e = ec_Type OutOfRange then GOutOfRange
           else if ae_Type e = ec_Type Unimplemented then GUnimplemented
           else if ae_Type e = ec_Type Internal then GInternal
           else if ae_Type e = ec_Type Unavailable then GUnavailable
           else if ae_Type e = ec_Type DataLoss then GDataLoss
           else if ae_Type e = ec_Type Unauthorized then GUnauthenticated
           else GUnknown, ae_Message e))"

text \<open>
  A status that becomes an API error and a status again keeps its code, but a canceled call becomes one that exceeded its deadline
  and an unknown code an internal error; the texts of canceled, timed out, unimplemented, unavailable and lost data are replaced.
\<close>

lemma status_roundtrip:
  "ConvertErrorCodeToGrpcCode (ConvertGrpcCodeToErrorCode (c, msg)) =
     (case c of
        GOK \<Rightarrow> (GOK, [])
      | GCanceled \<Rightarrow> (GDeadlineExceeded, ''request canceled'')
      | GDeadlineExceeded \<Rightarrow> (GDeadlineExceeded, ''deadline exceeded'')
      | GUnimplemented \<Rightarrow> (GUnimplemented, ''unimplemented'')
      | GUnavailable \<Rightarrow> (GUnavailable, ''service unavailable'')
      | GDataLoss \<Rightarrow> (GDataLoss, ''data loss'')
      | GOther _ \<Rightarrow> (GInternal, ''internal server error'')
      | _ \<Rightarrow> (c, msg))"
  by (cases c) (simp_all add: ConvertGrpcCodeToErrorCode_def ConvertErrorCodeToGrpcCode_def NewApiError_def NewInternalError_def error_codes)

text \<open>Every error made from an error code is sent with a status that names its type, except NotAcceptable, which has none.\<close>

lemma NotAcceptable_is_unknown: "fst (ConvertErrorCodeToGrpcCode (Some (NewApiError NotAcceptable msg))) = GUnknown"
  by (simp add: ConvertErrorCodeToGrpcCode_def NewApiError_def error_codes)

end
