(* ===== verification/Web_Dispatch.thy ===== *)
theory Web_Dispatch
  imports Route_Find Api_Error "HOL-Library.Multiset"
begin

text \<open>
  \<^verbatim>\<open>web/router/handler.go\<close>, \<^verbatim>\<open>web/router/routergroup.go\<close>, \<^verbatim>\<open>web/common/interceptor\<close> and the part of \<^verbatim>\<open>web/app/context.go\<close> that they use: registering
  routes, finding the route of a request, running its chain of handlers and writing the result.

  The handlers are code of the user of the library. What one of them does in a run is a list of actions on the request context: calls of
  \<open>Next\<close>, \<open>Abort\<close>, \<open>SetError\<close>, \<open>SetData\<close>, \<open>Write\<close>, \<open>WriteString\<close> and \<open>SetBodyString\<close>, or a panic. The stack of a running chain is the list of what is left to do in each
  handler that has called \<open>Next\<close>. Interceptors are functions on the context. \<open>rc_next\<close> is \<open>handlerIndex + 1\<close>, which is never negative. Data and bodies are of any type \<open>'d\<close>.

  What the client gets is \<open>rc_sent\<close>, in the standard mode what is written to the \<open>http.ResponseWriter\<close>; \<open>rc_body\<close> is the body of \<open>ctx.Response\<close>, which
  \<open>WriteString\<close> and \<open>SetBodyString\<close> change and which \<open>Abort\<close> copies to the writer, every time it is called. In the netpoll mode everything goes to \<open>rc_body\<close>, which the server sends
  later. Headers, which \<open>Abort\<close> copies too, status codes of handlers and body streams are left out; the writer is set, as it is in \<open>ServeHTTP\<close>.
\<close>

section \<open>The request context\<close>

datatype 'd act = DoNext | DoAbort | DoSetError apiError | DoSetData 'd | DoWrite 'd | DoWriteString 'd | DoSetBodyString 'd | DoPanic

datatype 'd sent = Body 'd | ErrorResult int apiError | DataResult "'d option"

record 'd RequestCtx =
  rc_netpoll :: bool
  rc_special :: int
  rc_err :: "apiError option"
  rc_data :: "'d option"
  rc_action :: string
  rc_route :: string
  rc_restful :: bool
  rc_Paths :: "(string \<times> string) list \<times> nat"
  rc_handlers :: "'d act list list option"
  rc_next :: nat
  rc_body :: "'d sent list"
  rc_sent :: "'d sent list"

definition rc_IsAbort :: "'d RequestCtx \<Rightarrow> bool" where
  "rc_IsAbort c \<longleftrightarrow> rc_special c \<noteq> 0"

text \<open>\<open>Write\<close>, and the body of \<open>JSON\<close>.\<close>

definition rc_Write :: "'d sent \<Rightarrow> 'd RequestCtx \<Rightarrow> 'd RequestCtx" where
  "rc_Write x c = (if rc_netpoll c then c\<lparr>rc_body := rc_body c @ [x]\<rparr> else c\<lparr>rc_sent := rc_sent c @ [x]\<rparr>)"

definition flushResponseToWriter :: "'d RequestCtx \<Rightarrow> 'd RequestCtx" where
  "flushResponseToWriter c = c\<lparr>rc_sent := rc_sent c @ rc_body c\<rparr>"

definition rc_Abort :: "'d RequestCtx \<Rightarrow> 'd RequestCtx" where
  "rc_Abort c = (if rc_netpoll c then c else flushResponseToWriter c)\<lparr>rc_special := - 1\<rparr>"

definition rc_SetError :: "apiError \<Rightarrow> 'd RequestCtx \<Rightarrow> 'd RequestCtx" where
  "rc_SetError e c = c\<lparr>rc_err := Some e\<rparr>"

definition rc_SetHandlers :: "'d act list list \<Rightarrow> 'd RequestCtx \<Rightarrow> 'd RequestCtx" where
  "rc_SetHandlers hs c = c\<lparr>rc_handlers := Some hs, rc_next := 0\<rparr>"

definition rc_ComputeAction :: "string \<Rightarrow> 'd RequestCtx \<Rightarrow> 'd RequestCtx" where
  "rc_ComputeAction a c = c\<lparr>rc_action := a, rc_restful := (a = [])\<rparr>"

definition rc_Reset :: "'d RequestCtx \<Rightarrow> 'd RequestCtx" where
  "rc_Reset c = c\<lparr>rc_special := 0, rc_route := [], rc_Paths := (fst (rc_Paths c), 0), rc_err := None, rc_data := None,
     rc_handlers := None, rc_next := 1, rc_body := [], rc_sent := []\<rparr>"

definition rc_chain :: "'d RequestCtx \<Rightarrow> 'd act list list" where
  "rc_chain c = (case rc_handlers c of None \<Rightarrow> [] | Some hs \<Rightarrow> hs)"

text \<open>\<open>Next\<close>: the context after it and the handler that it calls, if any.\<close>

definition rc_Next :: "'d RequestCtx \<Rightarrow> 'd RequestCtx \<times> 'd act list option" where
  "rc_Next c =
     (let i = rc_next c; c1 = c\<lparr>rc_next := Suc i\<rparr> in
      if i < length (rc_chain c) \<and> \<not> rc_IsAbort c1 \<and> rc_err c1 = None then (c1, Some (rc_chain c ! i)) else (c1, None))"

definition do_act :: "'d act \<Rightarrow> 'd RequestCtx \<Rightarrow> 'd RequestCtx" where
  "do_act a c =
     (case a of
        DoAbort \<Rightarrow> rc_Abort c
      | DoSetError e \<Rightarrow> rc_SetError e c
      | DoSetData d \<Rightarrow> c\<lparr>rc_data := Some d\<rparr>
      | DoWrite d \<Rightarrow> rc_Write (Body d) c
      | DoWriteString d \<Rightarrow> c\<lparr>rc_body := rc_body c @ [Body d]\<rparr>
      | DoSetBodyString d \<Rightarrow> c\<lparr>rc_body := [Body d]\<rparr>
      | _ \<Rightarrow> c)"

text \<open>What happens in a run: a handler of the chain starts, or a handler acts.\<close>

datatype 'd event = Started nat | Did "'d act"

text \<open>The run of a stack of handlers. The result says whether it panicked.\<close>

definition left_over :: "'d RequestCtx \<Rightarrow> nat" where
  "left_over c = sum_list (map (\<lambda>h. Suc (length h)) (drop (rc_next c) (rc_chain c)))"

lemma left_over_Next:
  assumes "rc_Next c = (c1, oh)"
  shows "left_over c \<ge> (case oh of None \<Rightarrow> 0 | Some h \<Rightarrow> Suc (length h)) + left_over c1"
proof (cases "rc_next c < length (rc_chain c)")
  case True
  then have "drop (rc_next c) (rc_chain c) = rc_chain c ! rc_next c # drop (Suc (rc_next c)) (rc_chain c)" by (simp add: Cons_nth_drop_Suc)
  moreover have "rc_next c1 = Suc (rc_next c)" "rc_chain c1 = rc_chain c" using assms by (auto simp: rc_Next_def Let_def rc_chain_def split: if_splits)
  ultimately show ?thesis using assms by (auto simp: left_over_def rc_Next_def Let_def split: if_splits)
qed (use assms in \<open>auto simp: left_over_def rc_Next_def Let_def rc_chain_def split: if_splits\<close>)

lemmas act_defs = do_act_def rc_Abort_def rc_SetError_def rc_Write_def flushResponseToWriter_def

lemma left_over_act [simp]: "left_over (do_act a c) = left_over c"
  by (cases a) (simp_all add: act_defs left_over_def rc_chain_def)

function run_frames :: "'d act list list \<Rightarrow> 'd RequestCtx \<Rightarrow> 'd RequestCtx \<times> 'd event list \<times> bool" where
  "run_frames [] c = (c, [], False)"
| "run_frames ([] # fs) c = run_frames fs c"
| "run_frames ((a # as) # fs) c =
     (case a of
        DoPanic \<Rightarrow> (c, [Did DoPanic], True)
      | DoNext \<Rightarrow>
          (case rc_Next c of
             (c1, None) \<Rightarrow> run_frames (as # fs) c1
           | (c1, Some h) \<Rightarrow> (case run_frames (h # as # fs) c1 of (c2, tr, p) \<Rightarrow> (c2, Started (rc_next c) # tr, p)))
      | _ \<Rightarrow> (case run_frames (as # fs) (do_act a c) of (c2, tr, p) \<Rightarrow> (c2, Did a # tr, p)))"
  by pat_completeness auto
termination
proof (relation "measure (\<lambda>(fs, c). sum_list (map (\<lambda>h. Suc (length h)) fs) + left_over c)", goal_cases)
  case (3 a as fs c x y)
  then show ?case using left_over_Next [of c x None] by simp
next
  case (4 a as fs c x y h)
  then show ?case using left_over_Next [of c x "Some h"] by simp
qed auto

text \<open>\<open>ctx.Next\<close> called by the dispatcher.\<close>

definition run_chain :: "'d RequestCtx \<Rightarrow> 'd RequestCtx \<times> 'd event list \<times> bool" where
  "run_chain c = run_frames [[DoNext]] c"

section \<open>Methods\<close>

datatype MethodType = DefaultTypeOfMethod | GrpcTypeOfMethod | HandlerFuncTypeOfMethod

text \<open>The values a method returns, in order: an \<open>ApiError\<close>, an \<open>error\<close> with its text, or anything else.\<close>

datatype 'd ret = RetApiError "apiError option" | RetError "string option" | RetValue 'd

text \<open>What the handler of a gRPC method returns: data, or an error that is an \<open>ApiError\<close>, wraps one, is a status or is none of these.\<close>

datatype 'd grpc_ret = GrpcData 'd | GrpcApiError apiError | GrpcWrapped apiError | GrpcStatus grpc_status 'd | GrpcPlain

record 'd Method =
  m_t :: MethodType
  m_name :: string
  m_bind :: "apiError option"
  m_acts :: "'d act list"
  m_rets :: "'d ret list"
  m_grpc :: "'d grpc_ret"

text \<open>\<open>doTargetMethod\<close>: what is done with the results, and the error it returns.\<close>

fun default_results :: "'d ret list \<Rightarrow> 'd act list \<times> apiError option" where
  "default_results [] = ([], None)"
| "default_results (RetApiError (Some e) # rs) = ([], Some e)"
| "default_results (RetApiError None # rs) = default_results rs"
| "default_results (RetError (Some msg) # rs) = ([], Some (NewApiError Unknown msg))"
| "default_results (RetError None # rs) = default_results rs"
| "default_results (RetValue d # rs) = (case default_results rs of (as, e) \<Rightarrow> (DoSetData d # as, e))"

definition grpc_result :: "'d grpc_ret \<Rightarrow> 'd act list \<times> apiError option" where
  "grpc_result r =
     (case r of
        GrpcData d \<Rightarrow> ([DoSetData d], None)
      | GrpcApiError e \<Rightarrow> ([], Some e)
      | GrpcWrapped e \<Rightarrow> ([DoPanic], None)
      | GrpcStatus st d \<Rightarrow> (case ConvertGrpcCodeToErrorCode st of Some e \<Rightarrow> ([], Some e) | None \<Rightarrow> ([DoSetData d], None))
      | GrpcPlain \<Rightarrow> ([], Some NewInternalError))"

definition doTargetMethod :: "'d Method \<Rightarrow> 'd act list \<times> apiError option" where
  "doTargetMethod m =
     (case (if m_t m = GrpcTypeOfMethod then grpc_result (m_grpc m) else default_results (m_rets m)) of (as, e) \<Rightarrow> (m_acts m @ as, e))"

definition set_error_act :: "apiError option \<Rightarrow> 'd act list" where
  "set_error_act e = (case e of None \<Rightarrow> [] | Some x \<Rightarrow> [DoSetError x])"

definition invokeDefaultMethod :: "'d Method \<Rightarrow> 'd act list" where
  "invokeDefaultMethod m =
     (case m_bind m of Some e \<Rightarrow> [DoSetError e] | None \<Rightarrow> (case doTargetMethod m of (as, e) \<Rightarrow> as @ set_error_act e))"

definition invokeGrpcMethod :: "'d Method \<Rightarrow> 'd act list" where
  "invokeGrpcMethod m = (case doTargetMethod m of (as, e) \<Rightarrow> as @ set_error_act e)"

definition invokeMethod :: "'d Method \<Rightarrow> 'd act list" where
  "invokeMethod m =
     (case m_t m of DefaultTypeOfMethod \<Rightarrow> invokeDefaultMethod m | GrpcTypeOfMethod \<Rightarrow> invokeGrpcMethod m | HandlerFuncTypeOfMethod \<Rightarrow> [])"

definition ToHandlerFunc :: "'d Method \<Rightarrow> 'd act list" where
  "ToHandlerFunc m = (if m_t m = HandlerFuncTypeOfMethod then m_acts m else invokeMethod m)"

section \<open>Interceptors\<close>

record 'd Interceptor =
  it_Before :: "'d RequestCtx \<Rightarrow> 'd RequestCtx \<times> apiError option"
  it_After :: "'d RequestCtx \<Rightarrow> apiError option \<Rightarrow> 'd RequestCtx \<times> apiError option"
  it_OnPanic :: "'d RequestCtx \<Rightarrow> apiError option"

fun before_loop :: "'d Interceptor list \<Rightarrow> 'd RequestCtx \<Rightarrow> 'd RequestCtx + 'd RequestCtx \<times> apiError option" where
  "before_loop [] c = Inl c"
| "before_loop (i # is) c =
     (case it_Before i c of
        (c1, Some e) \<Rightarrow> Inr (c1, Some e)
      | (c1, None) \<Rightarrow> if rc_IsAbort c1 then Inr (c1, None) else before_loop is c1)"

fun after_loop :: "'d Interceptor list \<Rightarrow> 'd RequestCtx \<Rightarrow> apiError option \<Rightarrow> 'd RequestCtx \<times> apiError option" where
  "after_loop [] c err = (c, err)"
| "after_loop (i # is) c err = (case it_After i c err of (c1, Some e) \<Rightarrow> (c1, Some e) | (c1, None) \<Rightarrow> after_loop is c1 err)"

text \<open>The target returns the context, its error and whether it panicked.\<close>

definition DoInterceptor :: "'d Interceptor list \<Rightarrow> ('d RequestCtx \<Rightarrow> 'd RequestCtx \<times> apiError option \<times> bool) \<Rightarrow> 'd RequestCtx \<Rightarrow>
    'd RequestCtx \<times> apiError option \<times> bool" where
  "DoInterceptor is target c =
     (case before_loop is c of
        Inr (c1, e) \<Rightarrow> (c1, e, False)
      | Inl c1 \<Rightarrow>
          (case target c1 of
             (c2, e, True) \<Rightarrow> (c2, e, True)
           | (c2, e, False) \<Rightarrow> (case after_loop is c2 e of (c3, e') \<Rightarrow> (c3, e', False))))"

section \<open>The handler\<close>

type_synonym 'h MethodTrees = "(string \<times> 'h rnode) list"

record 'd Handler =
  h_EnableActionController :: bool
  h_limiter :: bool
  h_controllers :: "(string, (string, 'd Method) gomap) gomap"
  h_trees :: "'d Method MethodTrees"
  h_restfulPaths :: "string list"
  h_interceptors :: "'d Interceptor list"
  h_before :: "('d RequestCtx \<Rightarrow> 'd RequestCtx \<times> bool) option"
  h_after :: "('d RequestCtx \<Rightarrow> 'd RequestCtx) option"

fun trees_get :: "'h MethodTrees \<Rightarrow> string \<Rightarrow> 'h rnode option" where
  "trees_get [] m = None"
| "trees_get ((m', r) # ts) m = (if m' = m then Some r else trees_get ts m)"

fun trees_put :: "string \<Rightarrow> 'h rnode \<Rightarrow> 'h MethodTrees \<Rightarrow> 'h MethodTrees" where
  "trees_put m r [] = [(m, r)]"
| "trees_put m r ((m', r') # ts) = (if m' = m then (m, r) # ts else (m', r') # trees_put m r ts)"

text \<open>\<open>addRoute\<close> of the handler; \<open>None\<close> is a panic. A method that has no tree yet gets one.\<close>

definition handler_addRoute :: "string \<Rightarrow> string \<Rightarrow> 'd Method list \<Rightarrow> 'd Handler \<Rightarrow> 'd Handler option" where
  "handler_addRoute m path hs h =
     (let root = (case trees_get (h_trees h) m of Some r \<Rightarrow> r | None \<Rightarrow> empty_node) in
      map_option (\<lambda>r. h\<lparr>h_trees := trees_put m r (h_trees h)\<rparr>) (addRoute path (Some hs) root))"

text \<open>\<open>Register\<close>: the route of a controller, its path normalised already. A path is registered once, whatever the method.\<close>

definition handler_Register :: "string \<Rightarrow> string \<Rightarrow> 'd Method option \<Rightarrow> 'd Handler \<Rightarrow> 'd Handler option" where
  "handler_Register m path target h =
     (if m = [] then None
      else if path = [] then None
      else if path \<in> set (h_restfulPaths h) then None
      else
        (let h1 = h\<lparr>h_restfulPaths := path # h_restfulPaths h\<rparr> in
         case target of
           None \<Rightarrow> None
         | Some d \<Rightarrow> handler_addRoute m path [d] h1))"

text \<open>\<open>getTargetMethod\<close>: \<open>None\<close> if the search does not return; the flag is set if it panics.\<close>

definition getTargetMethod :: "'d Handler \<Rightarrow> string \<Rightarrow> string \<Rightarrow> string \<Rightarrow> 'd RequestCtx \<Rightarrow> ('d RequestCtx \<times> 'd Method option \<times> bool) option" where
  "getTargetMethod h meth action path c =
     (let c1 = rc_ComputeAction action c in
      if \<not> rc_restful c1 \<and> h_EnableActionController h then
        Some (c1, Option.bind (gm_get (h_controllers h) path) (\<lambda>ctl. gm_get ctl (rc_action c1)), False)
      else
        (case trees_get (h_trees h) meth of
           None \<Rightarrow> Some (c1, None, False)
         | Some r \<Rightarrow>
             (case find r path (rc_Paths c1) False of
                None \<Rightarrow> None
              | Some Panicked \<Rightarrow> Some (c1, None, True)
              | Some (Returned nv ps l) \<Rightarrow>
                  (let c2 = c1\<lparr>rc_Paths := (ps, l)\<rparr> in
                   case nv_handlers nv of
                     None \<Rightarrow> Some (c2, None, False)
                   | Some hs \<Rightarrow>
                       (let c3 = rc_SetHandlers (map ToHandlerFunc hs) (c2\<lparr>rc_route := nv_fullPath nv\<rparr>) in
                        if hs = [] then Some (c3, None, True)
                        else Some (c3\<lparr>rc_action := m_name (last hs)\<rparr>, Some (last hs), False))))))"

definition onCrash :: "'d RequestCtx \<Rightarrow> 'd RequestCtx" where
  "onCrash c = rc_SetError (NewApiError Internal ''InternalError'') c"

fun on_panic_loop :: "'d Interceptor list \<Rightarrow> 'd RequestCtx \<Rightarrow> apiError \<Rightarrow> apiError" where
  "on_panic_loop [] c e = e"
| "on_panic_loop (i # is) c e = (case it_OnPanic i c of Some e' \<Rightarrow> e' | None \<Rightarrow> on_panic_loop is c e)"

definition onDoTargetMethodCrash :: "'d Interceptor list \<Rightarrow> 'd RequestCtx \<Rightarrow> 'd RequestCtx" where
  "onDoTargetMethodCrash is c = rc_SetError (on_panic_loop is c (NewApiError Internal ''InternalError'')) c"

text \<open>The end of \<open>Dispatch\<close> on a route with a chain, and on a handler function without one.\<close>

definition finish_chain :: "MethodType \<Rightarrow> 'd RequestCtx \<times> apiError option \<times> bool \<Rightarrow> 'd RequestCtx" where
  "finish_chain t res =
     (case res of
        (c, _, True) \<Rightarrow> onCrash c
      | (c, Some e, False) \<Rightarrow> rc_SetError e c
      | (c, None, False) \<Rightarrow> if t = HandlerFuncTypeOfMethod then rc_Abort c else c)"

definition dispatch_chain :: "'d Handler \<Rightarrow> 'd Method \<Rightarrow> 'd RequestCtx \<Rightarrow> 'd RequestCtx" where
  "dispatch_chain h m c =
     finish_chain (m_t m) (DoInterceptor (h_interceptors h) (\<lambda>c. case run_chain c of (c', _, p) \<Rightarrow> (c', None, p)) c)"

definition dispatch_legacy :: "'d Handler \<Rightarrow> 'd Method \<Rightarrow> 'd RequestCtx \<Rightarrow> 'd RequestCtx" where
  "dispatch_legacy h m c =
     (if m_t m = HandlerFuncTypeOfMethod then
        finish_chain HandlerFuncTypeOfMethod
          (DoInterceptor (h_interceptors h) (\<lambda>c. case run_frames [m_acts m] c of (c', _, p) \<Rightarrow> (c', None, p)) c)
      else
        (case (if m_t m = DefaultTypeOfMethod then m_bind m else None) of
           Some e \<Rightarrow> rc_SetError e c
         | None \<Rightarrow>
             (case DoInterceptor (h_interceptors h)
                     (\<lambda>c. case doTargetMethod m of (as, e) \<Rightarrow> (case run_frames [as] c of (c', _, p) \<Rightarrow> (c', e, p))) c of
                (c1, _, True) \<Rightarrow> onDoTargetMethodCrash (h_interceptors h) c1
              | (c1, Some e, False) \<Rightarrow> rc_SetError e c1
              | (c1, None, False) \<Rightarrow> c1)))"

definition Dispatch :: "'d Handler \<Rightarrow> string \<Rightarrow> string \<Rightarrow> string \<Rightarrow> 'd RequestCtx \<Rightarrow> 'd RequestCtx option" where
  "Dispatch h meth action path c =
     (case getTargetMethod h meth action path c of
        None \<Rightarrow> None
      | Some (c1, _, True) \<Rightarrow> Some (onCrash c1)
      | Some (c1, None, False) \<Rightarrow> Some (rc_SetError (NewApiError NotFound ''no such api.'') c1)
      | Some (c1, Some m, False) \<Rightarrow>
          if rc_handlers c1 \<noteq> None then Some (dispatch_chain h m c1) else Some (dispatch_legacy h m c1))"

definition result_code :: "'d RequestCtx \<Rightarrow> apiError \<Rightarrow> int" where
  "result_code c e = (if rc_restful c then ae_Code e else 200)"

definition DefaultResultCallback :: "'d RequestCtx \<Rightarrow> 'd RequestCtx" where
  "DefaultResultCallback c =
     (if rc_IsAbort c then c
      else case rc_err c of
        Some e \<Rightarrow> rc_Write (ErrorResult (result_code c e) e) c
      | None \<Rightarrow> rc_Write (DataResult (rc_data c)) c)"

definition writeError :: "apiError \<Rightarrow> 'd RequestCtx \<Rightarrow> 'd RequestCtx" where
  "writeError e c = (if rc_IsAbort c then c else rc_Write (ErrorResult (result_code c e) e) c)"

definition writeResponse :: "'d RequestCtx \<Rightarrow> 'd RequestCtx" where
  "writeResponse c = (if rc_IsAbort c then c else rc_Write (DataResult (rc_data c)) c)"

definition serverCommon :: "'d Handler \<Rightarrow> bool \<Rightarrow> 'd RequestCtx \<Rightarrow> 'd RequestCtx \<times> bool" where
  "serverCommon h token c =
     (if h_limiter h then
        if token then (c, False) else (rc_SetError (NewApiError TooManyRequests ''Too Many Requests'') c, True)
      else case h_before h of Some f \<Rightarrow> f c | None \<Rightarrow> (c, False))"

text \<open>
  \<open>ServeHTTP\<close>, after the paths served by other handlers; \<open>token\<close> is the answer of the rate limiter. The result is the context before it
  goes back to the pool.
\<close>

definition ServeHTTP :: "'d Handler \<Rightarrow> bool \<Rightarrow> string \<Rightarrow> string \<Rightarrow> string \<Rightarrow> 'd RequestCtx \<Rightarrow> 'd RequestCtx option" where
  "ServeHTTP h token meth action path c =
     (case serverCommon h token c of
        (c1, True) \<Rightarrow> Some c1
      | (c1, False) \<Rightarrow>
          (case Dispatch h meth action path c1 of
             None \<Rightarrow> None
           | Some c2 \<Rightarrow>
               Some (case h_after h of
                       Some f \<Rightarrow> f c2
                     | None \<Rightarrow> (case rc_err c2 of Some e \<Rightarrow> writeError e c2 | None \<Rightarrow> writeResponse c2))))"

section \<open>Router groups\<close>

text \<open>\<open>path.Clean\<close> and \<open>path.Join\<close> of the standard library.\<close>

fun split_slash :: "string \<Rightarrow> string \<Rightarrow> string list" where
  "split_slash acc [] = [rev acc]"
| "split_slash acc (c # s) = (if c = CHR ''/'' then rev acc # split_slash [] s else split_slash (c # acc) s)"

fun clean_elems :: "bool \<Rightarrow> string list \<Rightarrow> string list \<Rightarrow> string list" where
  "clean_elems rooted out [] = rev out"
| "clean_elems rooted out (x # xs) =
     (if x = [] \<or> x = ''.'' then clean_elems rooted out xs
      else if x = ''..'' then
        (case out of
           [] \<Rightarrow> clean_elems rooted (if rooted then [] else [x]) xs
         | y # ys \<Rightarrow> if y = ''..'' then clean_elems rooted (x # out) xs else clean_elems rooted ys xs)
      else clean_elems rooted (x # out) xs)"

fun join_slash :: "string list \<Rightarrow> string" where
  "join_slash [] = []"
| "join_slash [x] = x"
| "join_slash (x # xs) = x @ CHR ''/'' # join_slash xs"

definition path_Clean :: "string \<Rightarrow> string" where
  "path_Clean p =
     (if p = [] then ''.''
      else
        (let rooted = (hd p = CHR ''/''); out = (if rooted then ''/'' else []) @ join_slash (clean_elems rooted [] (split_slash [] p)) in
         if out = [] then ''.'' else out))"

definition path_Join :: "string list \<Rightarrow> string" where
  "path_Join xs = (let ys = filter (\<lambda>x. x \<noteq> []) xs in if ys = [] then [] else path_Clean (join_slash ys))"

definition joinPaths :: "string \<Rightarrow> string \<Rightarrow> string" where
  "joinPaths absolutePath relativePath =
     (if relativePath = [] then absolutePath
      else
        (let finalPath = path_Join [absolutePath, relativePath] in
         if last relativePath = CHR ''/'' \<and> last finalPath \<noteq> CHR ''/'' then finalPath @ ''/'' else finalPath))"

text \<open>Middleware is a list of handler functions. A group refers to the handler it was made for, which the operations take and return.\<close>

record 'd RouterGroup =
  g_middleware :: "'d act list list"
  g_basePath :: string

definition NewRouterGroup :: "'d RouterGroup" where
  "NewRouterGroup = \<lparr>g_middleware = [], g_basePath = []\<rparr>"

definition group_Use :: "'d act list list \<Rightarrow> 'd RouterGroup \<Rightarrow> 'd RouterGroup" where
  "group_Use mw g = g\<lparr>g_middleware := g_middleware g @ mw\<rparr>"

definition abortIndex :: nat where "abortIndex = 63"

definition combineMiddleware :: "'d act list list \<Rightarrow> 'd RouterGroup \<Rightarrow> 'd act list list option" where
  "combineMiddleware hs g = (if length (g_middleware g) + length hs \<ge> abortIndex then None else Some (g_middleware g @ hs))"

definition group_Group :: "string \<Rightarrow> 'd act list list \<Rightarrow> 'd RouterGroup \<Rightarrow> 'd RouterGroup option" where
  "group_Group rel hs g = map_option (\<lambda>mw. \<lparr>g_middleware = mw, g_basePath = joinPaths (g_basePath g) rel\<rparr>) (combineMiddleware hs g)"

definition NewHandlerFuncTypeMethod :: "'d act list \<Rightarrow> 'd Method" where
  "NewHandlerFuncTypeMethod f = \<lparr>m_t = HandlerFuncTypeOfMethod, m_name = [], m_bind = None, m_acts = f, m_rets = [], m_grpc = GrpcPlain\<rparr>"

text \<open>\<open>handle\<close>, with the handlers wrapped as methods already.\<close>

definition group_handle :: "string \<Rightarrow> string \<Rightarrow> 'd Method list \<Rightarrow> 'd RouterGroup \<Rightarrow> 'd Handler \<Rightarrow> 'd Handler option" where
  "group_handle meth rel hs g h = handler_addRoute meth (joinPaths (g_basePath g) rel) (map NewHandlerFuncTypeMethod (g_middleware g) @ hs) h"

definition group_Handle :: "string \<Rightarrow> string \<Rightarrow> 'd Method list \<Rightarrow> 'd RouterGroup \<Rightarrow> 'd Handler \<Rightarrow> 'd Handler option" where
  "group_Handle meth rel hs g h =
     (if meth \<noteq> [] \<and> list_all (\<lambda>c. CHR ''A'' \<le> c \<and> c \<le> CHR ''Z'') meth then group_handle meth rel hs g h else None)"

definition any_methods :: "string list" where
  "any_methods = [''GET'', ''POST'', ''PUT'', ''PATCH'', ''HEAD'', ''OPTIONS'', ''DELETE'', ''CONNECT'', ''TRACE'']"

definition group_Any :: "string \<Rightarrow> 'd Method list \<Rightarrow> 'd RouterGroup \<Rightarrow> 'd Handler \<Rightarrow> 'd Handler option" where
  "group_Any rel hs g h = fold (\<lambda>m ho. Option.bind ho (group_handle m rel hs g)) any_methods (Some h)"

section \<open>The order of a chain\<close>

definition starts :: "'d event list \<Rightarrow> nat list" where
  "starts tr = concat (map (\<lambda>e. case e of Started i \<Rightarrow> [i] | _ \<Rightarrow> []) tr)"

lemma starts_simps [simp]: "starts [] = []" "starts (Started i # tr) = i # starts tr" "starts (Did a # tr) = starts tr" "starts (xs @ ys) = starts xs @ starts ys"
  by (simp_all add: starts_def)

definition stops :: "'d act \<Rightarrow> bool" where
  "stops a \<longleftrightarrow> (case a of DoAbort \<Rightarrow> True | DoSetError _ \<Rightarrow> True | _ \<Rightarrow> False)"

text \<open>No handler can be started any more.\<close>

definition blocked :: "'d RequestCtx \<Rightarrow> bool" where
  "blocked c \<longleftrightarrow> rc_IsAbort c \<or> rc_err c \<noteq> None \<or> length (rc_chain c) \<le> rc_next c"

lemma rc_Next_cases:
  "rc_Next c = (c\<lparr>rc_next := Suc (rc_next c)\<rparr>, if blocked c then None else Some (rc_chain c ! rc_next c))"
  by (auto simp: rc_Next_def blocked_def rc_IsAbort_def Let_def)

lemma chain_next [simp]: "rc_chain (c\<lparr>rc_next := i\<rparr>) = rc_chain c"
  by (simp add: rc_chain_def)

lemma act_next [simp]: "rc_next (do_act a c) = rc_next c" "rc_chain (do_act a c) = rc_chain c"
  by (cases a; simp add: act_defs rc_chain_def)+

lemma blocked_next: "blocked c \<Longrightarrow> blocked (c\<lparr>rc_next := Suc (rc_next c)\<rparr>)"
  by (auto simp: blocked_def rc_IsAbort_def)

lemma blocked_act: "blocked c \<or> stops a \<Longrightarrow> blocked (do_act a c)"
  by (cases a) (auto simp: blocked_def rc_IsAbort_def act_defs rc_chain_def stops_def)

definition advance :: "'d RequestCtx \<Rightarrow> 'd RequestCtx" where
  "advance c = c\<lparr>rc_next := Suc (rc_next c)\<rparr>"

lemma advance_simps [simp]: "rc_next (advance c) = Suc (rc_next c)" "rc_chain (advance c) = rc_chain c" "rc_err (advance c) = rc_err c"
    "rc_special (advance c) = rc_special c" "rc_sent (advance c) = rc_sent c" "rc_data (advance c) = rc_data c" "rc_restful (advance c) = rc_restful c"
  by (simp_all add: advance_def)

definition log :: "'d event \<Rightarrow> 'd RequestCtx \<times> 'd event list \<times> bool \<Rightarrow> 'd RequestCtx \<times> 'd event list \<times> bool" where
  "log e r = (case r of (c, tr, p) \<Rightarrow> (c, e # tr, p))"

lemma log_sel [simp]: "fst (log e r) = fst r" "fst (snd (log e r)) = e # fst (snd r)" "snd (snd (log e r)) = snd (snd r)"
  by (simp_all add: log_def split: prod.split)

lemma run_panic: "run_frames ((DoPanic # as) # fs) c = (c, [Did DoPanic], True)"
  by simp

lemma run_blocked: "blocked c \<Longrightarrow> run_frames ((DoNext # as) # fs) c = run_frames (as # fs) (advance c)"
  by (simp add: rc_Next_cases advance_def)

lemma run_start: "\<not> blocked c \<Longrightarrow> run_frames ((DoNext # as) # fs) c = log (Started (rc_next c)) (run_frames (rc_chain c ! rc_next c # as # fs) (advance c))"
  by (simp add: rc_Next_cases advance_def log_def)

lemma run_act: "a \<noteq> DoNext \<Longrightarrow> a \<noteq> DoPanic \<Longrightarrow> run_frames ((a # as) # fs) c = log (Did a) (run_frames (as # fs) (do_act a c))"
  by (cases a) (simp_all add: log_def)

lemma run_induct [case_names empty pop panic blocked start act]:
  assumes "\<And>c. P [] c"
    "\<And>fs c. P fs c \<Longrightarrow> P ([] # fs) c"
    "\<And>as fs c. P ((DoPanic # as) # fs) c"
    "\<And>as fs c. blocked c \<Longrightarrow> P (as # fs) (advance c) \<Longrightarrow> P ((DoNext # as) # fs) c"
    "\<And>as fs c. \<not> blocked c \<Longrightarrow> P (rc_chain c ! rc_next c # as # fs) (advance c) \<Longrightarrow> P ((DoNext # as) # fs) c"
    "\<And>a as fs c. a \<noteq> DoNext \<Longrightarrow> a \<noteq> DoPanic \<Longrightarrow> P (as # fs) (do_act a c) \<Longrightarrow> P ((a # as) # fs) c"
  shows "P fs c"
proof (induction fs c rule: run_frames.induct)
  case (3 a as fs c)
  consider "a = DoPanic" | "a = DoNext" "blocked c" | "a = DoNext" "\<not> blocked c" | "a \<noteq> DoNext" "a \<noteq> DoPanic" by blast
  then show ?case
  proof cases
    case 2
    then show ?thesis using assms(4) 3(1) [of "advance c" None] by (simp add: rc_Next_cases advance_def)
  next
    case 3
    then show ?thesis using assms(5) "3.IH"(2) [of "advance c" "Some (rc_chain c ! rc_next c)"] by (simp add: rc_Next_cases advance_def)
  next
    case 4
    then show ?thesis using assms(6) "3.IH" by (cases a) simp_all
  qed (use assms in simp)
qed (use assms in simp_all)

declare run_frames.simps(3) [simp del] run_panic [simp]

lemma blocked_no_start: "blocked c \<Longrightarrow> starts (fst (snd (run_frames fs c))) = []"
proof (induction fs c rule: run_induct)
  case (blocked as fs c)
  then show ?case using blocked_next [of c] by (simp add: run_blocked flip: advance_def)
next
  case (act a as fs c)
  then show ?case using blocked_act [of c a] by (simp add: run_act)
qed auto

lemma starts_contiguous: "\<exists>m. starts (fst (snd (run_frames fs c))) = [rc_next c..<m] \<and> (rc_next c \<le> length (rc_chain c) \<longrightarrow> m \<le> length (rc_chain c))"
proof (induction fs c rule: run_induct)
  case (blocked as fs c)
  then show ?case using blocked_no_start [of c "(DoNext # as) # fs"] by (intro exI [of _ "rc_next c"]) simp
next
  case (start as fs c)
  then have lt: "rc_next c < length (rc_chain c)" by (auto simp: blocked_def)
  obtain m where m: "starts (fst (snd (run_frames (rc_chain c ! rc_next c # as # fs) (advance c)))) = [Suc (rc_next c)..<m]" "m \<le> length (rc_chain c)"
    using start(2) lt by auto
  show ?case
  proof (cases "Suc (rc_next c) \<le> m")
    case True
    then show ?thesis using m start(1) by (intro exI [of _ m]) (simp add: run_start upt_conv_Cons)
  next
    case False
    then show ?thesis using m start(1) lt by (intro exI [of _ "Suc (rc_next c)"]) (simp add: run_start)
  qed
next
  case (act a as fs c)
  then show ?case by (simp add: run_act)
qed (simp_all add: exI [of _ 0])

lemma no_start_after_stop:
  "fst (snd (run_frames fs c)) = xs @ Did a # ys \<Longrightarrow> stops a \<Longrightarrow> starts ys = []"
proof (induction fs c arbitrary: xs rule: run_induct)
  case (panic as fs c)
  then show ?case by (cases xs) (auto simp: stops_def)
next
  case (blocked as fs c)
  then show ?case by (simp add: run_blocked)
next
  case (start as fs c)
  then show ?case by (cases xs) (auto simp: run_start)
next
  case (act b as fs c)
  show ?case
  proof (cases xs)
    case Nil
    then have "a = b" "ys = fst (snd (run_frames (as # fs) (do_act b c)))" using act(1,2,4) by (auto simp: run_act)
    then show ?thesis using blocked_no_start blocked_act act(5) by metis
  next
    case (Cons x xs')
    then show ?thesis using act by (simp add: run_act)
  qed
qed simp_all

text \<open>Handlers that pass a request on: none stops the chain or panics, and all but the last call \<open>Next\<close>.\<close>

definition harmless :: "'d act list \<Rightarrow> bool" where
  "harmless h \<longleftrightarrow> DoPanic \<notin> set h \<and> list_all (\<lambda>a. \<not> stops a) h"

definition passes :: "'d act list list \<Rightarrow> bool" where
  "passes hs \<longleftrightarrow> list_all harmless hs \<and> list_all (\<lambda>h. DoNext \<in> set h) (butlast hs)"

lemma blocked_act_iff: "\<not> stops a \<Longrightarrow> blocked (do_act a c) = blocked c"
  by (cases a) (auto simp: blocked_def rc_IsAbort_def act_defs rc_chain_def stops_def)

lemma all_started:
  assumes "passes (rc_chain c)" "\<forall>f \<in> set fs. harmless f" "\<exists>f \<in> set fs. DoNext \<in> set f"
    "\<not> rc_IsAbort c" "rc_err c = None" "rc_next c \<le> length (rc_chain c)"
  shows "starts (fst (snd (run_frames fs c))) = [rc_next c..<length (rc_chain c)]"
  using assms
proof (induction fs c rule: run_induct)
  case (panic as fs c)
  then show ?case by (simp add: harmless_def)
next
  case (blocked as fs c)
  then show ?case using blocked_no_start [OF blocked(1)] by (simp add: blocked_def)
next
  case (start as fs c)
  then have lt: "rc_next c < length (rc_chain c)" by (simp add: blocked_def)
  then have h: "harmless (rc_chain c ! rc_next c)" using start(3) by (simp add: passes_def list_all_length)
  have "starts (fst (snd (run_frames (rc_chain c ! rc_next c # as # fs) (advance c)))) = [Suc (rc_next c)..<length (rc_chain c)]"
  proof (cases "Suc (rc_next c) = length (rc_chain c)")
    case True
    then show ?thesis using blocked_no_start [of "advance c"] by (simp add: blocked_def)
  next
    case False
    then have "rc_next c < length (butlast (rc_chain c))" using lt by simp
    then have "DoNext \<in> set (rc_chain c ! rc_next c)" using start(3) by (auto simp: passes_def list_all_length nth_butlast)
    moreover have "\<forall>f \<in> set (rc_chain c ! rc_next c # as # fs). harmless f" using h start(4) by (auto simp: harmless_def)
    ultimately show ?thesis using start(2) start(3,6,7) lt by (simp add: rc_IsAbort_def)
  qed
  then show ?case using start(1) lt by (simp add: run_start upt_conv_Cons)
next
  case (act a as fs c)
  have a: "\<not> stops a" using act(5) by (simp add: harmless_def)
  then have "rc_special (do_act a c) = rc_special c" "rc_err (do_act a c) = rc_err c" by (cases a; simp add: act_defs stops_def)+
  moreover have "\<forall>f \<in> set (as # fs). harmless f" using act(5) by (auto simp: harmless_def)
  moreover have "\<exists>f \<in> set (as # fs). DoNext \<in> set f" using act(1,6) by auto
  ultimately show ?case using act(1-4,7-9) by (simp add: run_act rc_IsAbort_def)
qed (auto simp: harmless_def)

text \<open>
  C23: The handlers of a chain are started in the order of the chain, each at most once and without leaving one out; after an Abort or an
  error none is started; and when the handlers pass the request on, all are.
\<close>

theorem chain_runs_in_order:
  assumes "run_chain (rc_SetHandlers hs c) = (c', tr, p)"
  shows "(\<exists>m \<le> length hs. starts tr = [0..<m]) \<and>
    (\<forall>xs a ys. tr = xs @ Did a # ys \<longrightarrow> stops a \<longrightarrow> starts ys = []) \<and>
    (passes hs \<longrightarrow> \<not> rc_IsAbort c \<longrightarrow> rc_err c = None \<longrightarrow> starts tr = [0..<length hs])"
proof (intro conjI impI allI)
  have tr: "tr = fst (snd (run_frames [[DoNext]] (rc_SetHandlers hs c)))" using assms by (simp add: run_chain_def)
  have hs: "rc_chain (rc_SetHandlers hs c) = hs" "rc_next (rc_SetHandlers hs c) = 0" by (simp_all add: rc_SetHandlers_def rc_chain_def)
  show "\<exists>m \<le> length hs. starts tr = [0..<m]" using starts_contiguous [of "[[DoNext]]" "rc_SetHandlers hs c"] unfolding hs tr by blast
  show "tr = xs @ Did a # ys \<Longrightarrow> stops a \<Longrightarrow> starts ys = []" for xs a ys
    using no_start_after_stop [of "[[DoNext]]" "rc_SetHandlers hs c"] unfolding tr by blast
  show "starts tr = [0..<length hs]" if "passes hs" "\<not> rc_IsAbort c" "rc_err c = None"
  proof -
    have "rc_err (rc_SetHandlers hs c) = None" "\<not> rc_IsAbort (rc_SetHandlers hs c)" using that(2,3) by (simp_all add: rc_SetHandlers_def rc_IsAbort_def)
    then show ?thesis using all_started [of "rc_SetHandlers hs c" "[[DoNext]]"] that(1) unfolding hs tr by (simp add: harmless_def stops_def)
  qed
qed

definition new_ctx :: "'d RequestCtx" where
  "new_ctx = \<lparr>rc_netpoll = False, rc_special = 0, rc_err = None, rc_data = None, rc_action = [], rc_route = [], rc_restful = False,
     rc_Paths = (replicate 10 ([], []), 0), rc_handlers = None, rc_next = 1, rc_body = [], rc_sent = []\<rparr>"

definition ex_chain :: "nat act list list" where
  "ex_chain = [[DoNext, DoWrite 1], [DoSetError NewInternalError, DoNext], [DoWrite 2]]"

theorem chain_runs_in_order_witness:
  "(\<exists>m \<le> length ex_chain. starts (fst (snd (run_chain (rc_SetHandlers ex_chain new_ctx)))) = [0..<m]) \<and>
   starts (fst (snd (run_chain (rc_SetHandlers [[DoNext, DoWrite 1], [DoWrite (2 :: nat)]] new_ctx)))) = [0..<2]"
proof
  let ?r = "run_chain (rc_SetHandlers ex_chain new_ctx)" and ?hs = "[[DoNext, DoWrite 1], [DoWrite (2 :: nat)]]"
  let ?q = "run_chain (rc_SetHandlers ?hs new_ctx)"
  show "\<exists>m \<le> length ex_chain. starts (fst (snd ?r)) = [0..<m]"
    using chain_runs_in_order [of ex_chain new_ctx "fst ?r" "fst (snd ?r)" "snd (snd ?r)"] by simp
  have "passes ?hs" by (simp add: passes_def harmless_def stops_def)
  then show "starts (fst (snd ?q)) = [0..<2]"
    using chain_runs_in_order [of ?hs new_ctx "fst ?q" "fst (snd ?q)" "snd (snd ?q)"] by (simp add: new_ctx_def rc_IsAbort_def numeral_2_eq_2)
qed

section \<open>The route of a request\<close>

lemma trees_get_put [simp]: "trees_get (trees_put m r ts) m' = (if m' = m then Some r else trees_get ts m')"
  by (induction ts) auto

fun handler_addRoutes :: "(string \<times> string \<times> 'd Method list) list \<Rightarrow> 'd Handler \<Rightarrow> 'd Handler option" where
  "handler_addRoutes [] h = Some h"
| "handler_addRoutes ((m, p, hs) # rs) h = Option.bind (handler_addRoute m p hs h) (handler_addRoutes rs)"

definition routes_of :: "string \<Rightarrow> (string \<times> string \<times> 'h list) list \<Rightarrow> (string \<times> 'h list) list" where
  "routes_of m rs = map snd (filter (\<lambda>r. fst r = m) rs)"

definition tree_of :: "string \<Rightarrow> 'd Handler \<Rightarrow> 'd Method rnode" where
  "tree_of m h = (case trees_get (h_trees h) m of Some r \<Rightarrow> r | None \<Rightarrow> empty_node)"

lemma handler_addRoutes_tree:
  "handler_addRoutes rs h = Some h' \<Longrightarrow>
   addRoutes (routes_of m rs) (tree_of m h) = Some (tree_of m h') \<and> (trees_get (h_trees h') m = None \<longleftrightarrow> trees_get (h_trees h) m = None \<and> routes_of m rs = [])"
proof (induction rs h rule: handler_addRoutes.induct)
  case (2 m' p hs rs h)
  then obtain h1 where h1: "handler_addRoute m' p hs h = Some h1" "handler_addRoutes rs h1 = Some h'" by (auto simp: bind_eq_Some_conv)
  then obtain r1 where r1: "addRoute p (Some hs) (tree_of m' h) = Some r1" "h1 = h\<lparr>h_trees := trees_put m' r1 (h_trees h)\<rparr>"
    by (auto simp: handler_addRoute_def Let_def tree_of_def)
  then have "tree_of m h1 = (if m = m' then r1 else tree_of m h)" by (simp add: tree_of_def)
  then show ?case using 2(1) [OF h1] r1 by (auto simp: routes_of_def)
qed (simp add: routes_of_def)

definition matches_route :: "string \<Rightarrow> string \<Rightarrow> string list \<Rightarrow> bool" where
  "matches_route p path vs \<longleftrightarrow> key_match (fst (strip p)) path vs"

definition params_of :: "'d RequestCtx \<Rightarrow> (string \<times> string) list" where
  "params_of c = take (snd (rc_Paths c)) (fst (rc_Paths c))"

definition chosen :: "(string \<times> 'd Method list) list \<Rightarrow> string \<Rightarrow> 'd RequestCtx \<Rightarrow> 'd Method option \<Rightarrow> bool" where
  "chosen rs path c mo \<longleftrightarrow>
     (case mo of
        None \<Rightarrow> \<forall>r \<in> set rs. \<forall>vs. \<not> matches_route (fst r) path vs
      | Some m \<Rightarrow> \<exists>p hs vs. (p, hs) \<in> set rs \<and> matches_route p path vs \<and> m = last hs \<and> rc_route c = p \<and>
          rc_handlers c = Some (map ToHandlerFunc hs) \<and> params_of c = zip (snd (strip p)) vs \<and>
          (\<forall>r \<in> set rs. \<forall>vs'. matches_route (fst r) path vs' \<longrightarrow> key_le (fst (strip p)) (fst (strip (fst r)))))"

lemma route_map_iff:
  assumes "addRoutes rs empty_node = Some r"
  shows "map_of (map route_of rs) k = Some (hs, p, ns) \<longleftrightarrow> (p, hs) \<in> set rs \<and> k = fst (strip p) \<and> ns = snd (strip p)"
proof -
  have "distinct (map fst (map route_of rs))" using addRoutes_ok [OF _ assms] by (simp add: root_ok_def o_def)
  then have "map_of (map route_of rs) k = Some (hs, p, ns) \<longleftrightarrow> (k, hs, p, ns) \<in> set (map route_of rs)" by (rule map_of_eq_Some_iff)
  then show ?thesis by (force simp: route_of_def)
qed

text \<open>
  C22: Let the routes of a handler be registered with at least one handler each, and let the parameter slice of the request have room for the wildcards of every route of its
  method. For a request without an Action argument the handler then chooses, among the routes registered for its method, the preferred one that
  matches the path: its chain is set, its path is the route of the request and the values of its wildcards are the parameters. When no
  route matches there is no method, and in neither case does it panic.
\<close>

theorem handler_chooses_best_route:
  assumes "handler_addRoutes rs h0 = Some h" "h_trees h0 = []" "rc_Paths c = (ps, 0)"
    "\<forall>r \<in> set (routes_of meth rs). snd r \<noteq> [] \<and> wild (fst (strip (fst r))) \<le> length ps"
  shows "\<exists>c' mo. getTargetMethod h meth [] path c = Some (c', mo, False) \<and> chosen (routes_of meth rs) path c' mo"
proof -
  note t = handler_addRoutes_tree [OF assms(1), of meth]
  have e: "tree_of meth h0 = empty_node" using assms(2) by (simp add: tree_of_def)
  let ?rs = "routes_of meth rs" and ?c = "rc_ComputeAction [] c"
  have add: "addRoutes ?rs empty_node = Some (tree_of meth h)" using t e by simp
  have c: "rc_restful ?c" "rc_Paths ?c = (ps, 0)" using assms(3) by (simp_all add: rc_ComputeAction_def)
  show ?thesis
  proof (cases "trees_get (h_trees h) meth")
    case None
    then have "?rs = []" using t by simp
    then show ?thesis using None c(1) by (simp add: getTargetMethod_def Let_def chosen_def)
  next
    case (Some r)
    then have r: "tree_of meth h = r" by (simp add: tree_of_def)
    have root: "root_ok empty_node" "wild_bound (length ps) empty_node" by (simp_all add: root_ok_def wild_bound_def)
    have ok: "root_ok r" "route_at r = map_of (map route_of ?rs)"
      using addRoutes_ok [OF root(1) add] r by (simp_all add: map_add_def fun_eq_iff split: option.split)
    have "wild_bound (length ps) r" using addRoutes_bound [OF root(1) add root(2)] assms(4) r by blast
    from find_serves [OF ok(1) this, of path] obtain res where
      res: "find r path (ps, 0) False = Some res" "serves_best (map_of (map route_of ?rs)) path res" unfolding ok(2) by blast
    have "res \<noteq> Panicked" using res(2) by (auto simp: serves_best_def)
    then obtain nv ps' l where "res = Returned nv ps' l" by (cases res) auto
    then have f: "find r path (ps, 0) False = Some (Returned nv ps' l)" "serves_best (map_of (map route_of ?rs)) path (Returned nv ps' l)"
      using res by simp_all
    note iff = route_map_iff [OF add]
    show ?thesis
    proof (cases "nv_handlers nv")
      case None
      have "\<not> matches_route p path vs" if "(p, hs) \<in> set ?rs" for p hs vs
        using f(2) None iff [of "fst (strip p)" hs p "snd (strip p)"] that assms(4) by (fastforce simp: serves_best_def matches_route_def)
      then have "chosen ?rs path (?c\<lparr>rc_Paths := (ps', l)\<rparr>) None" by (auto simp: chosen_def)
      then show ?thesis using Some None c f(1) by (simp add: getTargetMethod_def Let_def)
    next
      case hs: (Some hs)
      obtain k ns vs where k: "map_of (map route_of ?rs) k = Some (hs, nv_fullPath nv, ns)" "key_match k path vs" "take l ps' = zip ns vs"
          "\<And>k' hs' pp' ns' vs'. map_of (map route_of ?rs) k' = Some (hs', pp', ns') \<Longrightarrow> hs' \<noteq> [] \<Longrightarrow> key_match k' path vs' \<Longrightarrow> key_le k k'"
        using f(2) hs unfolding serves_best_def found.case option.case hs by blast
      have p: "(nv_fullPath nv, hs) \<in> set ?rs" "k = fst (strip (nv_fullPath nv))" "ns = snd (strip (nv_fullPath nv))" using k(1) iff by auto
      have ne: "hs \<noteq> []" using assms(4) p(1) by auto
      have best: "key_le k (fst (strip (fst r')))" if "r' \<in> set ?rs" "matches_route (fst r') path vs'" for r' vs'
        using k(4) [of "fst (strip (fst r'))" "snd r'" "fst r'" "snd (strip (fst r'))" vs'] iff that assms(4) by (cases r') (auto simp: matches_route_def)
      let ?c' = "(rc_SetHandlers (map ToHandlerFunc hs) (?c\<lparr>rc_Paths := (ps', l), rc_route := nv_fullPath nv\<rparr>))\<lparr>rc_action := m_name (last hs)\<rparr>"
      have "getTargetMethod h meth [] path c = Some (?c', Some (last hs), False)"
        using Some hs c f(1) ne by (simp add: getTargetMethod_def Let_def)
      moreover have "chosen ?rs path ?c' (Some (last hs))"
        unfolding chosen_def option.case
        by (rule exI [of _ "nv_fullPath nv"], rule exI [of _ hs], rule exI [of _ vs])
          (use p k(2,3) best in \<open>simp add: rc_SetHandlers_def params_of_def matches_route_def\<close>)
      ultimately show ?thesis by blast
    qed
  qed
qed

definition ex_method :: "nat \<Rightarrow> nat Method" where
  "ex_method n = \<lparr>m_t = DefaultTypeOfMethod, m_name = ''M'', m_bind = None, m_acts = [], m_rets = [RetValue n, RetError None], m_grpc = GrpcPlain\<rparr>"

definition new_handler :: "'d Handler" where
  "new_handler = \<lparr>h_EnableActionController = False, h_limiter = False, h_controllers = [], h_trees = [], h_restfulPaths = [],
     h_interceptors = [], h_before = None, h_after = Some DefaultResultCallback\<rparr>"

definition ex_handler_routes :: "(string \<times> string \<times> nat Method list) list" where
  "ex_handler_routes = [(''GET'', ''/u/:id'', [ex_method 1]), (''GET'', ''/u/me'', [ex_method 2]), (''POST'', ''/u'', [ex_method 3])]"

theorem handler_chooses_best_route_witness:
  "\<exists>c' mo. getTargetMethod (the (handler_addRoutes ex_handler_routes new_handler)) ''GET'' [] ''/u/me'' new_ctx = Some (c', mo, False) \<and>
     chosen (routes_of ''GET'' ex_handler_routes) ''/u/me'' c' mo"
proof (rule handler_chooses_best_route)
  show "h_trees (new_handler :: nat Handler) = []" by (simp add: new_handler_def)
  show "rc_Paths (new_ctx :: nat RequestCtx) = (replicate 10 ([], []), 0)" by (simp add: new_ctx_def)
  have "\<not> Option.is_none (handler_addRoutes ex_handler_routes new_handler)" by code_simp
  then show "handler_addRoutes ex_handler_routes new_handler = Some (the (handler_addRoutes ex_handler_routes new_handler))"
    by (simp add: Option.is_none_def)
  show "\<forall>r \<in> set (routes_of ''GET'' ex_handler_routes). snd r \<noteq> [] \<and> wild (fst (strip (fst r))) \<le> length (replicate 10 ([] :: string, [] :: string))"
    by (simp add: routes_of_def ex_handler_routes_def wild_def)
qed

section \<open>The response\<close>

text \<open>What handlers did in a run, and what these actions amount to: the bytes on the wire in the standard mode, the body of the response, the error and the data.\<close>

definition acts :: "'d event list \<Rightarrow> 'd act list" where
  "acts tr = concat (map (\<lambda>e. case e of Did a \<Rightarrow> [a] | _ \<Rightarrow> []) tr)"

fun body_after :: "'d act list \<Rightarrow> 'd list \<Rightarrow> 'd list" where
  "body_after [] b = b"
| "body_after (DoWriteString d # as) b = body_after as (b @ [d])"
| "body_after (DoSetBodyString d # as) b = body_after as [d]"
| "body_after (a # as) b = body_after as b"

fun wire :: "'d act list \<Rightarrow> 'd list \<Rightarrow> 'd list" where
  "wire [] b = []"
| "wire (DoWrite d # as) b = d # wire as b"
| "wire (DoWriteString d # as) b = wire as (b @ [d])"
| "wire (DoSetBodyString d # as) b = wire as [d]"
| "wire (DoAbort # as) b = b @ wire as b"
| "wire (a # as) b = wire as b"

fun err_after :: "'d act list \<Rightarrow> apiError option \<Rightarrow> apiError option" where
  "err_after [] e = e"
| "err_after (DoSetError x # as) e = err_after as (Some x)"
| "err_after (a # as) e = err_after as e"

fun data_after :: "'d act list \<Rightarrow> 'd option \<Rightarrow> 'd option" where
  "data_after [] d = d"
| "data_after (DoSetData x # as) d = data_after as (Some x)"
| "data_after (a # as) d = data_after as d"

lemma acts_simps [simp]: "acts [] = []" "acts (Started i # tr) = acts tr" "acts (Did a # tr) = a # acts tr"
  by (simp_all add: acts_def)

lemma do_act_next: "do_act a (c\<lparr>rc_next := n\<rparr>) = (do_act a c)\<lparr>rc_next := n\<rparr>"
  by (cases a) (simp_all add: act_defs)

lemma fold_act_next: "fold do_act as (c\<lparr>rc_next := n\<rparr>) = (fold do_act as c)\<lparr>rc_next := n\<rparr>"
  by (induction "as" arbitrary: c) (simp_all add: do_act_next)

text \<open>A run of handlers changes the context by the actions in its trace.\<close>

lemma run_acts: "\<exists>n. fst (run_frames fs c) = (fold do_act (acts (fst (snd (run_frames fs c)))) c)\<lparr>rc_next := n\<rparr>"
proof (induction fs c rule: run_induct)
  case (empty c)
  show ?case by (intro exI [of _ "rc_next c"]) simp
next
  case (panic as fs c)
  show ?case by (intro exI [of _ "rc_next c"]) (simp add: do_act_def)
next
  case (blocked as fs c)
  then show ?case by (auto simp: run_blocked advance_def fold_act_next)
next
  case (start as fs c)
  then show ?case by (auto simp: run_start advance_def fold_act_next)
next
  case (act a as fs c)
  then show ?case by (simp add: run_act)
qed simp

lemma do_act_facts:
  assumes "\<not> rc_netpoll c" "rc_body c = map Body b"
  shows "\<not> rc_netpoll (do_act a c)" "rc_sent (do_act a c) = rc_sent c @ map Body (wire [a] b)" "rc_body (do_act a c) = map Body (body_after [a] b)"
    "rc_err (do_act a c) = err_after [a] (rc_err c)" "rc_data (do_act a c) = data_after [a] (rc_data c)"
    "rc_restful (do_act a c) = rc_restful c" "rc_IsAbort (do_act a c) = (rc_IsAbort c \<or> a = DoAbort)"
  using assms by (cases a; simp add: act_defs rc_IsAbort_def)+

lemma after_Cons:
  "wire (a # as) b = wire [a] b @ wire as (body_after [a] b)" "body_after (a # as) b = body_after as (body_after [a] b)"
  "err_after (a # as) e = err_after as (err_after [a] e)" "data_after (a # as) d = data_after as (data_after [a] d)"
  by (cases a; simp)+

lemma fold_act_facts:
  assumes "\<not> rc_netpoll c" "rc_body c = map Body b"
  shows "\<not> rc_netpoll (fold do_act as c) \<and> rc_sent (fold do_act as c) = rc_sent c @ map Body (wire as b) \<and> rc_body (fold do_act as c) = map Body (body_after as b) \<and>
    rc_err (fold do_act as c) = err_after as (rc_err c) \<and> rc_data (fold do_act as c) = data_after as (rc_data c) \<and>
    rc_restful (fold do_act as c) = rc_restful c \<and> rc_IsAbort (fold do_act as c) = (rc_IsAbort c \<or> DoAbort \<in> set as)"
  using assms
proof (induction "as" arbitrary: c b)
  case (Cons a as)
  note d = do_act_facts [OF Cons.prems, of a]
  show ?case using Cons.IH [OF d(1,3)] by (auto simp: d after_Cons [of a "as"])
qed simp

text \<open>Nothing that a handler does is lost: a run that does not panic performs all actions of the handlers that it starts.\<close>

definition own_acts :: "'d act list \<Rightarrow> 'd act list" where
  "own_acts h = filter (\<lambda>a. a \<noteq> DoNext) h"

lemma own_acts_simps [simp]: "own_acts [] = []" "own_acts (DoNext # h) = own_acts h" "a \<noteq> DoNext \<Longrightarrow> own_acts (a # h) = a # own_acts h"
  by (simp_all add: own_acts_def)

lemma run_all_acts:
  "\<not> snd (snd (run_frames fs c)) \<Longrightarrow>
   mset (acts (fst (snd (run_frames fs c)))) =
     (\<Sum>h \<leftarrow> fs. mset (own_acts h)) + (\<Sum>i \<leftarrow> starts (fst (snd (run_frames fs c))). mset (own_acts (rc_chain c ! i)))"
proof (induction fs c rule: run_induct)
  case (blocked as fs c)
  then show ?case by (simp add: run_blocked)
next
  case (start as fs c)
  have "p + (q + r) + s = q + r + (p + s)" for p q r s :: "'a act multiset" by (simp add: ac_simps)
  then show ?case using start by (simp add: run_start)
next
  case (act a as fs c)
  then show ?case by (simp add: run_act)
qed simp_all

text \<open>Without a chain, what is performed is what the handler does up to a panic.\<close>

definition performed :: "'d act list \<Rightarrow> 'd act list" where
  "performed h = takeWhile (\<lambda>a. a \<noteq> DoPanic) (own_acts h)"

lemma run_single:
  "rc_chain c = [] \<Longrightarrow> snd (snd (run_frames [h] c)) = (DoPanic \<in> set h) \<and>
   acts (fst (snd (run_frames [h] c))) = performed h @ (if DoPanic \<in> set h then [DoPanic] else [])"
proof (induction h arbitrary: c)
  case (Cons a h)
  have "blocked c" using Cons(2) by (simp add: blocked_def)
  then show ?case using Cons(1) [of "advance c"] Cons(1) [of "do_act a c"] Cons(2)
    by (cases "a = DoNext"; cases "a = DoPanic") (auto simp: run_blocked run_act performed_def own_acts_def)
qed (simp add: performed_def own_acts_def)

text \<open>
  The answer to a request: what was written, and then, for a handler function (whose context \<open>Dispatch\<close> aborts), once more the body of the response; for other methods one result,
  unless a handler aborted: the error of a panic, of the method, or of a handler, or else the data.
\<close>

definition internal_error :: apiError where
  "internal_error = NewApiError Internal ''InternalError''"

definition error_result :: "bool \<Rightarrow> apiError \<Rightarrow> 'd sent" where
  "error_result restful e = ErrorResult (if restful then ae_Code e else 200) e"

definition reply :: "bool \<Rightarrow> bool \<Rightarrow> bool \<Rightarrow> apiError option \<Rightarrow> 'd act list \<Rightarrow> 'd sent list" where
  "reply restful handler_func panicked ret as =
     map Body (wire as []) @
     (if handler_func \<and> \<not> panicked then map Body (body_after as [])
      else if DoAbort \<in> set as then []
      else case (if panicked then Some internal_error else if ret \<noteq> None then ret else err_after as None) of
             Some e \<Rightarrow> [error_result restful e]
           | None \<Rightarrow> [DataResult (data_after as None)])"

definition legacy_reply :: "bool \<Rightarrow> 'd Method \<Rightarrow> 'd sent list" where
  "legacy_reply restful m =
     (if m_t m = HandlerFuncTypeOfMethod then reply restful True (DoPanic \<in> set (m_acts m)) None (performed (m_acts m))
      else case (if m_t m = DefaultTypeOfMethod then m_bind m else None) of
             Some e \<Rightarrow> [error_result restful e]
           | None \<Rightarrow> (case doTargetMethod m of (as, e) \<Rightarrow> reply restful False (DoPanic \<in> set as) e (performed as)))"

text \<open>A context as the pool hands it out.\<close>

definition rc_fresh :: "'d RequestCtx \<Rightarrow> bool" where
  "rc_fresh c \<longleftrightarrow> \<not> rc_netpoll c \<and> rc_special c = 0 \<and> rc_err c = None \<and> rc_data c = None \<and> rc_body c = [] \<and> rc_sent c = []"

lemma wire_panic [simp]: "wire (as @ [DoPanic]) b = wire as b"
  by (induction "as" b rule: wire.induct) simp_all

text \<open>The callback after a run, for each way in which the run ended.\<close>

lemma reply_run:
  assumes "rc_fresh c" and run: "run_frames fs c = (c2, tr, p)"
  shows "p \<Longrightarrow> rc_sent (DefaultResultCallback (rc_SetError internal_error c2)) = reply (rc_restful c) hf True ret (acts tr)"
    "rc_sent (DefaultResultCallback (rc_Abort c2)) = reply (rc_restful c) True False ret' (acts tr)"
    "rc_sent (DefaultResultCallback (rc_SetError e c2)) = reply (rc_restful c) False False (Some e) (acts tr)"
    "rc_sent (DefaultResultCallback c2) = reply (rc_restful c) False False None (acts tr)"
proof -
  let ?c = "fold do_act (acts tr) c"
  have "\<not> rc_netpoll c" "rc_body c = map Body []" using assms(1) by (simp_all add: rc_fresh_def)
  note f = fold_act_facts [OF this, of "acts tr"]
  obtain n where c2: "c2 = ?c\<lparr>rc_next := n\<rparr>" using run_acts [of fs c] run by auto
  have "rc_err c = None" "rc_data c = None" "rc_sent c = []" "\<not> rc_IsAbort c" using assms(1) by (simp_all add: rc_fresh_def rc_IsAbort_def)
  then have s: "\<not> rc_netpoll c2" "rc_sent c2 = map Body (wire (acts tr) [])" "rc_body c2 = map Body (body_after (acts tr) [])"
      "rc_err c2 = err_after (acts tr) None" "rc_data c2 = data_after (acts tr) None" "rc_restful c2 = rc_restful c" "rc_IsAbort c2 = (DoAbort \<in> set (acts tr))"
    using f by (simp_all add: c2 rc_IsAbort_def)
  note defs = DefaultResultCallback_def rc_SetError_def rc_Write_def rc_Abort_def flushResponseToWriter_def reply_def error_result_def result_code_def
  show "p \<Longrightarrow> rc_sent (DefaultResultCallback (rc_SetError internal_error c2)) = reply (rc_restful c) hf True ret (acts tr)"
    using s by (simp add: defs rc_IsAbort_def)
  show "rc_sent (DefaultResultCallback (rc_Abort c2)) = reply (rc_restful c) True False ret' (acts tr)"
    using s by (simp add: defs rc_IsAbort_def)
  show "rc_sent (DefaultResultCallback (rc_SetError e c2)) = reply (rc_restful c) False False (Some e) (acts tr)"
    using s by (simp add: defs rc_IsAbort_def)
  show "rc_sent (DefaultResultCallback c2) = reply (rc_restful c) False False None (acts tr)"
    using s by (simp add: defs rc_IsAbort_def split: option.split)
qed

lemma target_fresh:
  assumes "getTargetMethod h meth action path c = Some (c1, mo, p)" "rc_fresh c"
  shows "rc_fresh c1 \<and> rc_restful c1 = (action = []) \<and> (p \<longrightarrow> mo = None)"
  using assms
  by (auto simp: getTargetMethod_def Let_def rc_ComputeAction_def rc_SetHandlers_def rc_fresh_def split: if_splits option.splits found.splits)

lemma reply_error: "rc_fresh c \<Longrightarrow> rc_sent (DefaultResultCallback (rc_SetError e c)) = [error_result (rc_restful c) e]"
  by (simp add: rc_fresh_def DefaultResultCallback_def rc_SetError_def rc_Write_def rc_IsAbort_def error_result_def result_code_def)

lemma reply_dispatch_chain:
  assumes "rc_fresh c" "h_interceptors h = []" "run_chain c = (c2, tr, p)"
  shows "rc_sent (DefaultResultCallback (dispatch_chain h m c)) = reply (rc_restful c) (m_t m = HandlerFuncTypeOfMethod) p None (acts tr)"
proof -
  note r = reply_run [OF assms(1) assms(3) [unfolded run_chain_def]]
  have d: "dispatch_chain h m c = finish_chain (m_t m) (c2, None, p)" using assms(2,3) by (simp add: dispatch_chain_def DoInterceptor_def split: bool.split)
  show ?thesis
    by (cases p; cases "m_t m = HandlerFuncTypeOfMethod")
      (use r in \<open>simp_all add: d finish_chain_def onCrash_def flip: internal_error_def\<close>)
qed

lemma after_panic:
  "body_after (as @ [DoPanic]) b = body_after as b \<and> err_after (as @ [DoPanic]) e = err_after as e \<and> data_after (as @ [DoPanic]) d = data_after as d"
proof (induction "as" arbitrary: b e d)
  case (Cons a as)
  then show ?case by (cases a) simp_all
qed simp

lemma reply_panic: "reply r hf p ret (as @ [DoPanic]) = reply r hf p ret as"
  by (simp add: reply_def after_panic split: option.split)

lemma reply_dispatch_legacy:
  assumes "rc_fresh c" "h_interceptors h = []" "rc_handlers c = None"
  shows "rc_sent (DefaultResultCallback (dispatch_legacy h m c)) = legacy_reply (rc_restful c) m"
proof -
  have run: "run_frames [as] c = (fst (run_frames [as] c), fst (snd (run_frames [as] c)), DoPanic \<in> set as)"
      "acts (fst (snd (run_frames [as] c))) = performed as @ (if DoPanic \<in> set as then [DoPanic] else [])" for "as"
    using run_single [of c "as"] assms(3) by (simp_all add: rc_chain_def prod_eq_iff)
  have i: "DoInterceptor [] (\<lambda>c. case run_frames [as] c of (c', _, p) \<Rightarrow> (c', e, p)) c = (fst (run_frames [as] c), e, DoPanic \<in> set as)" for "as" e
    using run_single [of c "as"] assms(3) by (simp add: DoInterceptor_def case_prod_unfold rc_chain_def split: bool.split)
  obtain as e where t: "doTargetMethod m = (as, e)" by fastforce
  show ?thesis
  proof (cases "m_t m = HandlerFuncTypeOfMethod")
    case True
    then show ?thesis using reply_run [OF assms(1) run(1) [of "m_acts m"], unfolded run(2)] by (cases "DoPanic \<in> set (m_acts m)")
      (simp_all add: dispatch_legacy_def assms(2) i finish_chain_def onCrash_def legacy_reply_def reply_panic flip: internal_error_def)
  next
    case False
    show ?thesis
    proof (cases "if m_t m = DefaultTypeOfMethod then m_bind m else None")
      case None
      then show ?thesis using False reply_run [OF assms(1) run(1) [of "as"], unfolded run(2)] by (cases "DoPanic \<in> set as"; cases e)
        (simp_all add: dispatch_legacy_def t i assms(2) onDoTargetMethodCrash_def legacy_reply_def reply_panic flip: internal_error_def)
    qed (use False reply_error [OF assms(1)] in \<open>simp add: dispatch_legacy_def legacy_reply_def\<close>)
  qed
qed

text \<open>
  C24: Let the server run in its standard mode, with no interceptors and with the default callback after dispatch, and let a request pass the limiter and the callback before dispatch.
  If the search panics or finds no method the client gets exactly one result, the internal error or \<open>no such api\<close>. On a route with a chain it gets exactly what the actions that the run
  performed put on the wire, in their order (what \<open>Write\<close> writes, and at each \<open>Abort\<close> the body so far), and then, if the route ends in a handler function, the body once more, and
  otherwise one result, unless a handler aborted: the internal error of a panic, the error that a handler set last, or else the data set last. A run that does not panic performs
  all actions of the handlers that it starts. A method called without a chain is answered in the same way, with the error that the method returns or that binding its argument gives.
\<close>

theorem request_answered_once:
  assumes "h_interceptors h = []" "h_after h = Some DefaultResultCallback" "serverCommon h token c = (c, False)" "rc_fresh c"
    "getTargetMethod h meth action path c = Some (c1, mo, crash)"
  shows "\<exists>c'. ServeHTTP h token meth action path c = Some c' \<and>
    (case mo of
       None \<Rightarrow> rc_sent c' = [error_result (action = []) (if crash then internal_error else NewApiError NotFound ''no such api.'')]
     | Some m \<Rightarrow>
         (case rc_handlers c1 of
            None \<Rightarrow> rc_sent c' = legacy_reply (action = []) m
          | Some hs \<Rightarrow>
              (case run_chain c1 of
                 (_, tr, panicked) \<Rightarrow>
                   rc_sent c' = reply (action = []) (m_t m = HandlerFuncTypeOfMethod) panicked None (acts tr) \<and>
                   (panicked \<or> mset (acts tr) = (\<Sum>i \<leftarrow> starts tr. mset (own_acts (hs ! i)))))))"
proof -
  have f: "rc_fresh c1" "rc_restful c1 = (action = [])" "crash \<longrightarrow> mo = None" using target_fresh [OF assms(5,4)] by simp_all
  obtain c2 tr p where run: "run_chain c1 = (c2, tr, p)" by (metis prod_cases3)
  have all: "p \<or> mset (acts tr) = (\<Sum>i \<leftarrow> starts tr. mset (own_acts (hs ! i)))" if "rc_handlers c1 = Some hs" for hs
    using run_all_acts [of "[[DoNext]]" c1] run that by (auto simp: run_chain_def rc_chain_def)
  note s = ServeHTTP_def Dispatch_def assms(2,3,5)
  show ?thesis
  proof (cases mo)
    case None
    then show ?thesis using reply_error [OF f(1)] f(2) by (cases crash) (simp_all add: s onCrash_def internal_error_def)
  next
    case (Some m)
    then show ?thesis using reply_dispatch_chain [OF f(1) assms(1) run] reply_dispatch_legacy [OF f(1) assms(1)] all f(2,3)
      by (cases "rc_handlers c1") (auto simp: s run)
  qed
qed

definition ex_guard :: "nat Method" where
  "ex_guard = NewHandlerFuncTypeMethod [DoWrite 5, DoNext, DoWrite 3]"

definition ex_handler :: "nat Handler" where
  "ex_handler = new_handler\<lparr>h_trees := the (map_option h_trees (handler_addRoute ''GET'' ''/u/:id'' [ex_guard, ex_method 2] new_handler))\<rparr>"

definition ex_target :: "nat RequestCtx \<times> nat Method option \<times> bool" where
  "ex_target = the (getTargetMethod ex_handler ''GET'' [] ''/u/me'' new_ctx)"

theorem request_answered_once_witness:
  "\<exists>c'. ServeHTTP ex_handler True ''GET'' [] ''/u/me'' new_ctx = Some c' \<and> rc_sent c' = [Body 5, Body 3, DataResult (Some 2)]"
proof -
  have h: "h_interceptors ex_handler = []" "h_after ex_handler = Some DefaultResultCallback" "serverCommon ex_handler True new_ctx = (new_ctx, False)"
    by (simp_all add: ex_handler_def new_handler_def serverCommon_def)
  have f: "rc_fresh (new_ctx :: nat RequestCtx)" by code_simp
  have "\<not> Option.is_none (getTargetMethod ex_handler ''GET'' [] ''/u/me'' new_ctx)" by code_simp
  then have t: "getTargetMethod ex_handler ''GET'' [] ''/u/me'' new_ctx = Some (fst ex_target, fst (snd ex_target), snd (snd ex_target))"
    by (auto simp: Option.is_none_def ex_target_def)
  have m: "fst (snd ex_target) = Some (ex_method 2)" by code_simp
  have c: "rc_handlers (fst ex_target) = Some [[DoWrite 5, DoNext, DoWrite 3], [DoSetData 2]]" by code_simp
  have r: "snd (run_chain (fst ex_target)) = ([Started 0, Did (DoWrite 5), Started 1, Did (DoSetData 2), Did (DoWrite 3)], False)" by code_simp
  have e: "reply True (m_t (ex_method 2) = HandlerFuncTypeOfMethod) False None [DoWrite 5, DoSetData 2, DoWrite 3] = [Body 5, Body 3, DataResult (Some (2 :: nat))]" by code_simp
  show ?thesis using request_answered_once [OF h f t] by (auto simp: m c r e case_prod_unfold)
qed

section \<open>Responses that are not written, and bodies that are written again\<close>

text \<open>
  On a route whose last handler is a handler function, an error set in the chain, for instance by a middleware that rejects the
  request, is not written, unless a handler panicked or an interceptor returns an error: \<open>Dispatch\<close> aborts the context when the chain is done, and the callback that writes the result
  returns at once for an aborted context. The client gets what the handlers wrote, the body of the response, and nothing else.
\<close>

theorem handler_func_route_drops_error:
  assumes "before_loop (h_interceptors h) c = Inl c0" "run_chain c0 = (c1, tr, False)" "after_loop (h_interceptors h) c1 None = (c2, None)" "m_t m = HandlerFuncTypeOfMethod"
    "rc_err c2 = Some e" "\<not> rc_netpoll c2"
  shows "rc_err (DefaultResultCallback (dispatch_chain h m c)) = Some e \<and> rc_sent (DefaultResultCallback (dispatch_chain h m c)) = rc_sent c2 @ rc_body c2"
  using assms
  by (simp add: dispatch_chain_def DoInterceptor_def finish_chain_def DefaultResultCallback_def rc_IsAbort_def rc_Abort_def flushResponseToWriter_def)

text \<open>\<open>AbortWithMsg\<close>, its headers and status left out: it resets the response, sets its body, writes the message and aborts.\<close>

definition AbortWithMsg :: "'d \<Rightarrow> 'd act list" where
  "AbortWithMsg msg = [DoSetBodyString msg, DoWrite msg, DoAbort]"

text \<open>
  \<open>Abort\<close> writes the body of the response every time, and nothing marks it as written. \<open>AbortWithMsg\<close>, which has written its message already, therefore sends it twice, and on a route
  that ends in a handler function three times, since \<open>Dispatch\<close> aborts again.
\<close>

theorem abort_with_msg_repeats:
  assumes "rc_fresh c" "h_interceptors h = []" "rc_handlers c = Some (AbortWithMsg msg # hs)" "rc_next c = 0"
  shows "rc_sent (DefaultResultCallback (dispatch_chain h m c)) = replicate (if m_t m = HandlerFuncTypeOfMethod then 3 else 2) (Body msg)"
proof -
  have "rc_chain c = AbortWithMsg msg # hs" "\<not> blocked c" using assms(1,3,4) by (simp_all add: rc_chain_def blocked_def rc_IsAbort_def rc_fresh_def)
  then have r: "run_chain c = (fst (run_chain c), [Started 0, Did (DoSetBodyString msg), Did (DoWrite msg), Did DoAbort], False)"
    using assms(4) by (simp add: run_chain_def run_start run_act log_def case_prod_unfold AbortWithMsg_def)
  show ?thesis using reply_dispatch_chain [OF assms(1,2) r, of m] by (simp add: reply_def eval_nat_numeral)
qed

text \<open>
  A route may be registered with a chain that is empty but not nil, a catch-all for instance. A request for it then panics, when \<open>getTargetMethod\<close> takes the last handler of the chain,
  and is answered with an internal error.
\<close>

theorem empty_chain_panics:
  "case handler_addRoute ''GET'' ''/files/*p'' ([] :: nat Method list) new_handler of
     None \<Rightarrow> False
   | Some h \<Rightarrow> map_option (snd \<circ> snd) (getTargetMethod h ''GET'' [] ''/files/a'' new_ctx) = Some True \<and>
       map_option rc_sent (ServeHTTP h True ''GET'' [] ''/files/a'' new_ctx) = Some [ErrorResult 500 (NewApiError Internal ''InternalError'')]"
  by code_simp

text \<open>
  A request that the rate limiter rejects gets no response: the error is set and \<open>ServeHTTP\<close> returns without writing it. And with
  the limiter on, the callback before dispatch is never called.
\<close>

theorem limited_request_gets_no_response:
  assumes "h_limiter h"
  shows "(\<exists>c'. ServeHTTP h False meth action path c = Some c' \<and> rc_err c' = Some (NewApiError TooManyRequests ''Too Many Requests'') \<and>
      rc_sent c' = rc_sent c) \<and>
    serverCommon (h\<lparr>h_before := f\<rparr>) token c = serverCommon h token c"
  using assms by (simp add: ServeHTTP_def serverCommon_def rc_SetError_def)

theorem limited_request_gets_no_response_witness:
  "(\<exists>c'. ServeHTTP (new_handler\<lparr>h_limiter := True\<rparr>) False ''GET'' [] ''/x'' (new_ctx :: nat RequestCtx) = Some c' \<and>
      rc_err c' = Some (NewApiError TooManyRequests ''Too Many Requests'') \<and> rc_sent c' = rc_sent (new_ctx :: nat RequestCtx)) \<and>
   serverCommon ((new_handler\<lparr>h_limiter := True\<rparr>)\<lparr>h_before := None\<rparr>) True (new_ctx :: nat RequestCtx) =
     serverCommon (new_handler\<lparr>h_limiter := True\<rparr>) True new_ctx"
  by (rule limited_request_gets_no_response) simp

text \<open>
  A route with more wildcards than the parameter slice of a request has room for (ten) is registered without complaint, and then
  every request for it panics in the search and is answered with an internal error.
\<close>

theorem too_many_params_panic:
  "case handler_addRoute ''GET'' ''/:a/:b/:c/:d/:e/:f/:g/:h/:i/:j/:k'' [ex_method 1] new_handler of
     None \<Rightarrow> False
   | Some h \<Rightarrow> map_option rc_sent (ServeHTTP h True ''GET'' [] ''/1/2/3/4/5/6/7/8/9/10/11'' new_ctx) =
       Some [ErrorResult 500 (NewApiError Internal ''InternalError'')]"
  by code_simp

text \<open>A panic in a chain is reported without asking the interceptors' \<open>OnPanic\<close>.\<close>

lemma chain_panic_skips_OnPanic:
  "before_loop (h_interceptors h) c = Inl c0 \<Longrightarrow> run_chain c0 = (c1, tr, True) \<Longrightarrow>
   rc_err (dispatch_chain h m c) = Some (NewApiError Internal ''InternalError'')"
  by (simp add: dispatch_chain_def DoInterceptor_def finish_chain_def onCrash_def rc_SetError_def)

text \<open>\<open>Register\<close> takes a path once, although the trees are kept per method.\<close>

lemma register_path_once: "path \<in> set (h_restfulPaths h) \<Longrightarrow> handler_Register m path target h = None"
  by (simp add: handler_Register_def)

end
