(* ===== verification/Spec2Isabelle.thy ===== *)
theory Spec2Isabelle
  imports Prelude Go_Numbers Linked_Hash_Map Cache_Interface LRU_Cache LFU_Cache Priority_Queue Delay_Queue
    Ring_Queue Linked_List Cluster_Node Cluster_State Cluster_Server Cluster_Election Cluster_Roles Job_Tracker Cluster_Interleave Cluster_Network
    Heartbeat_Stream
    Bytes_Conv Query_Args Clean_Path Http_Trailer Http_Header Net_Conn Http1_Body Http1_Header Http1_Request Http1_Stream
    Http2_Sched Http2_Frame Http2_Pipe Http2_Conn Http2_Server Http2_Invariant Http2_Quiet Http2_Safety
    Route_Tree Route_Find Api_Error Web_Dispatch
begin

text \<open>
  A verification of the Go library \<^verbatim>\<open>common-tools\<close>. The library is a collection of building blocks for services: data
  structures and caches (\<^verbatim>\<open>pkg/\<close>), a cluster of processes that elect a leader and run jobs on it (\<^verbatim>\<open>cluster/\<close>), a web framework with its
  own HTTP/1 and HTTP/2 (\<^verbatim>\<open>web/\<close>), and clients for databases and brokers (\<^verbatim>\<open>db/\<close>, \<^verbatim>\<open>redis/\<close>, \<^verbatim>\<open>kafka/\<close>, \<^verbatim>\<open>ck/\<close>). The
  blocks are independent of each other, apart from the calls named below.

  \<^bold>\<open>Conventions.\<close> A struct is a record, an operation is a function from the old to the new state, a panic is \<open>None\<close>, an error is a
  value. Go maps are association lists with distinct keys (\<open>gomap\<close> in \<open>Prelude\<close>). Pointers are addresses into an explicit store where two
  pointers may be equal (linked lists, cluster nodes, heartbeat streams, flow-control windows); the theory \<open>Prelude\<close> has the lemmas on linked segments. Fixed-width signed
  integers are \<open>int\<close> with the wrap-around written out (\<open>Go_Numbers\<close>), bytes, flags and unsigned identifiers in HTTP/2 are words; byte strings
  are \<open>string\<close>. Code that blocks is cut at the points where it waits, and what happens there (answers from the
  network, the clock, the order of a \<open>range\<close> over a map, other goroutines) is an argument or a step of a relation.

  \<^bold>\<open>Data structures and caches\<close> (\<^verbatim>\<open>pkg/basic\<close>, \<^verbatim>\<open>pkg/cache\<close>).
  \<^item> \<open>Linked_Hash_Map\<close>: \<^verbatim>\<open>linked_hash_map.go\<close>, a map threaded by a doubly linked list. It implements the locale \<open>ordered_map\<close>; any sequence of operations leaves
    the list of pairs it describes.
  \<^item> \<open>Cache_Interface\<close>, \<open>LRU_Cache\<close>, \<open>LFU_Cache\<close>: \<^verbatim>\<open>lru.go\<close> and \<^verbatim>\<open>lfu.go\<close> against the locale \<open>cache\<close>. LRU keeps exactly the most recently
    used entries, LFU refines a specification that evicts a key of least use count; LFU uses its buckets, LinkedHashMaps, through \<open>ordered_map\<close> only. Both stay within
    their capacity; two findings (a race in LRU's Get, a panic of an LFU cache of capacity 0) are theorems.
  \<^item> \<open>Priority_Queue\<close>: \<^verbatim>\<open>object_priority_queue.go\<close>, a binary heap against the locale \<open>priority_queue\<close>; offered elements are polled in order.
  \<^item> \<open>Delay_Queue\<close>: \<^verbatim>\<open>delay_queue.go\<close> over that locale; only due items are taken, earliest first, and while a taker is blocked the timer stands at the earliest deadline.
  \<^item> \<open>Ring_Queue\<close>: \<^verbatim>\<open>safe_ring_queue.go\<close>, sequentially against the locale \<open>bounded_fifo\<close>, and as a step relation with condition variables, in which no wake-up is lost.
  \<^item> \<open>Linked_List\<close>: \<^verbatim>\<open>linked_list.go\<close> and \<^verbatim>\<open>set.go\<close>; the list is one as long as elements are removed at the front only.

  \<^bold>\<open>Cluster\<close> (\<^verbatim>\<open>cluster\<close>). A member keeps the nodes it knows, its term, its leader and its votes.
  \<^item> \<open>Cluster_Node\<close> (\<^verbatim>\<open>node.go\<close>): heartbeat bookkeeping and the health score.
  \<^item> \<open>Cluster_State\<close> (\<^verbatim>\<open>cluster.go\<close>): the member's state, signing and releasing a leader, votes, events, reconnection, Start and Close.
  \<^item> \<open>Cluster_Server\<close> (\<^verbatim>\<open>grpc_server.go\<close>): the handlers of AskLeader, AskVote, BroadcastLeader and Heartbeat.
  \<^item> \<open>Cluster_Election\<close>: \<open>fightingWithRetry\<close>, and a relation of all members with the messages between them; a term has at most one winner.
  \<^item> \<open>Cluster_Roles\<close>: the steps of one member as whole operations, what they keep, and that an undisturbed attempt wins.
  \<^item> \<open>Job_Tracker\<close> (\<^verbatim>\<open>scheduler.go\<close>, \<open>consumeEvent\<close>): the trackers, and what the events of whole operations make them do.
  \<^item> \<open>Cluster_Interleave\<close>: the goroutines of one member interleaved at the sections that hold its lock, the stores of its term and the sends of its events. Role and recorded leader always agree; the
    tracker runs the ticker of the role if events are sent in the order of the changes. The code does not ensure that order, nor that terms do not decrease: both are shown by runs.
  \<^item> \<open>Cluster_Network\<close>: members that answer each other by their handlers, and a run from \<open>Start\<close> after which two members lead the same term.
  \<^item> \<open>Heartbeat_Stream\<close> (\<^verbatim>\<open>heartbeat_stream.go\<close>, \<open>heartbeat\<close>): one live stream per peer, a leader without peers steps down, a follower without leader starts an election.

  \<^bold>\<open>Web\<close> (\<^verbatim>\<open>pkg/tools/bytesconv\<close>, \<^verbatim>\<open>web\<close>).
  \<^item> \<open>Bytes_Conv\<close>: numbers and quoting; decimal and hexadecimal numbers are read as they are written, and the overflow test of ParseUint misses overflows.
  \<^item> \<open>Query_Args\<close> (\<^verbatim>\<open>web/protocol/args.go\<close>): query arguments, with the spare elements of their slice; the locale \<open>quoting\<close> is what a decoder
    has to do with one quoted byte, interpreted for arguments and for paths. A query string keeps its arguments.
  \<^item> \<open>Clean_Path\<close> (\<^verbatim>\<open>web/common/utils/path.go\<close>): the in-place loop of CleanPath computes the canonical path, always returns and stays in its buffer.
  \<^item> \<open>Http_Trailer\<close> (\<^verbatim>\<open>web/protocol/trailer.go\<close>, \<^verbatim>\<open>cookie.go\<close>): names of fields, trailers, and the cookies of a request, which are read as they are printed; the finding that an empty
    item in a trailer header panics is a theorem.
  \<^item> \<open>Http_Header\<close> (\<^verbatim>\<open>web/protocol/header.go\<close>): the headers of requests and responses. Both implement the locale \<open>field_map\<close>: looking a field up after
    any setting and deleting finds what was set last. A printed response header cannot be split by its values; the cookies of a request can.
  \<^item> \<open>Net_Conn\<close> (\<^verbatim>\<open>web/network/standard/connection.go\<close>, \<^verbatim>\<open>buffer.go\<close>): the buffered connection. It implements the locale \<open>reader_laws\<close>, the contract of
    \<open>network.Reader\<close> against the text of the stream; what is read is that text in order, what is written arrives in order. What the HTTP/1 theories prove of their readers they prove in this locale.
  \<^item> \<open>Http1_Body\<close> (\<^verbatim>\<open>web/protocol/ext/common.go\<close>, \<^verbatim>\<open>web/common/utils/chunk.go\<close>): bodies of fixed size, in chunks, and up to the end of the connection; a body sent in chunks
    arrives, and the limit on its size holds.
  \<^item> \<open>Http1_Header\<close> (\<^verbatim>\<open>ext/headerscanner.go\<close>, \<^verbatim>\<open>http1/req/header.go\<close>, \<^verbatim>\<open>http1/resp/header.go\<close>): the readers of heads and trailers, with the scanner that works in place on the
    buffer of the connection. \<open>Http1_Request\<close>: a printed request head is read back however the network splits it; findings on folded values, lengths and trailers are lemmas.
  \<^item> \<open>Http1_Stream\<close> (\<^verbatim>\<open>ext/stream.go\<close>): bodies that the handler reads while they arrive. A body that is read to its end is delivered; one that is left inside a chunk can smuggle a request.
  \<^item> \<open>Route_Tree\<close> (\<^verbatim>\<open>web/router/tree.go\<close>): the radix tree of routes; adding a route updates the map of routes and nothing else.
  \<^item> \<open>Route_Find\<close> (\<open>find\<close>): the search with backtracking, as a loop over an explicit state, follows a search without state, returns, and serves the preferred route.
  \<^item> \<open>Api_Error\<close> (\<^verbatim>\<open>web/common/e\<close>): error codes and their translation to gRPC codes and back.
  \<^item> \<open>Web_Dispatch\<close> (\<^verbatim>\<open>web/router/handler.go\<close>, \<^verbatim>\<open>routergroup.go\<close>, \<^verbatim>\<open>web/app/context.go\<close>): registering routes and groups, finding the route of a request, the
    chain of handlers, interceptors and the result. Handlers are lists of actions on the request context. The chain runs in order and stops at an abort or error; what the client gets is determined by the actions of the handlers; findings (an error that is not written, a body that is written again at each abort, a limited request without response, routes with too many parameters or
    without handlers) are theorems.
  \<^item> \<open>Http2_Sched\<close> (\<^verbatim>\<open>web/protocol/http2/flow.go\<close>, \<^verbatim>\<open>writesched.go\<close>, \<^verbatim>\<open>writesched_random.go\<close>): the write scheduler keeps the order of
    each stream byte by byte, never writes more than the windows allow, and gives up only when every stream is blocked.
  \<^item> \<open>Http2_Frame\<close> (\<^verbatim>\<open>web/protocol/http2/frame.go\<close>): what is written as frames is read back as the same frames, and whatever arrives, only well-formed frames are returned.
  \<^item> \<open>Http2_Pipe\<close> (\<^verbatim>\<open>web/protocol/http2/pipe.go\<close>, \<^verbatim>\<open>databuffer.go\<close>): the body of a request on its way to the handler; bytes arrive in order, the error of the end comes
    after the last byte, and the number of unread bytes, which flow control returns, is exact.
  \<^item> \<open>Http2_Conn\<close> (\<^verbatim>\<open>web/protocol/http2/server.go\<close>, \<^verbatim>\<open>stream.go\<close>): the state of a connection and its writing side, with a termination proof of the scheduling loop.
  \<^item> \<open>Http2_Server\<close>: the reading side and the serve loop. Its events are the messages of the \<open>select\<close>, and the engine that starts or stops between them; handlers run beside it and send some of them.
  \<^item> \<open>Http2_Invariant\<close>, \<open>Http2_Quiet\<close>, \<open>Http2_Safety\<close>: invariants of the serve loop. The locale \<open>sched_keeps\<close> says what a property needs so that everything on the writing side keeps it, for a given scheduling function;
    \<open>book_keeps\<close> gives it for properties of the books. After any events the open streams are those that are listed and counted, and no sendable frame is left behind. Three panics of the serve loop and
    the missing limit for aborted requests are shown by runs.

  \<^bold>\<open>Bounds and fuel.\<close> Walking a linked list takes fuel, the number of allocated nodes, which is shown to be enough. The loops of CleanPath, of the query parser, of the heap
  and of the number conversions are total functions with termination proofs. The election loop runs over the list of the
  answers it receives, TakeWithStop over the list of its wake-ups. Loops of the HTTP/1 code whose end depends on what the connection delivers are partial functions
  with values in \<open>option\<close>; the properties show that they return. The loop that fills a connection's buffer is total, since the socket is a finite script. The stream manager's claim bounds the number of calls of \<open>startStream\<close> so that its 64-bit generation does not wrap. The use counts of the LFU cache are unbounded integers.

  \<^bold>\<open>Not modelled.\<close> Code whose work is done by a third-party package or an external service (gRPC and protobuf marshalling, Redis, Kafka, SQL and ClickHouse
  clients, OpenTelemetry, hpack, Excel, the Lua scripts of the limiter), reflection (bean, argument binding, goai), logging, file and process access. Still
  open are the loops of the HTTP/1 client and server and their message types, the other transports (TLS, netpoll) and \<open>ReadFrom\<close> of a connection, URIs and the attributes of cookies, server-sent events, jsonpath, the HTTP/2 response writer and push, the remote
  calls and the Redis mode of the cluster, and the resource manager.
\<close>

end
